(* ===== verification/Prelude.thy ===== *)
theory Prelude
  imports Main "HOL-Library.Word"
begin

unbundle bit_operations_syntax

text \<open>
  Shared vocabulary of the development: the widths of Rust's machine integers, the result type
  that separates an error a function returns from a panic, the checked and saturating integer
  operations the sources call, the iterator methods they use on arrays, and the facts about
  lists and words that the component theories share.

  A Rust function of type \<open>Result<T, E>\<close> is modelled by a sum whose left side is an
  \<open>'e failure\<close>: \<open>Err e\<close> is the error value the source returns, \<open>Panic\<close> is the abort that an
  arithmetic overflow or an out-of-range index causes (the profiles in
  \<^verbatim>\<open>src/Cargo.toml\<close> keep \<^verbatim>\<open>overflow-checks\<close> on, in release builds too, for the members of
  the workspace: the kernel and the crates built with it). The programs under
  \<^verbatim>\<open>src/user\<close> are workspaces of their own, and the release profile of the TCP service does not
  turn the checks on, so there the same operators wrap.
\<close>

type_synonym u8 = "8 word"
type_synonym u16 = "16 word"
type_synonym u32 = "32 word"
type_synonym u64 = "64 word"

datatype 'e failure = Err 'e | Panic

type_synonym ('e, 'a) result = "'e failure + 'a"

abbreviation Ok :: "'a \<Rightarrow> ('e, 'a) result" where
  "Ok x \<equiv> Inr x"

abbreviation Error :: "'e \<Rightarrow> ('e, 'a) result" where
  "Error e \<equiv> Inl (Err e)"

abbreviation Panicked :: "('e, 'a) result" where
  "Panicked \<equiv> Inl Panic"

text \<open>Proof collections: unfolding of the integer operations, and of the iterator methods.\<close>

named_theorems int_ops \<open>definitions of the fixed-width integer operations\<close>
named_theorems iter_ops \<open>definitions and characterisations of the iterator methods\<close>

subsection \<open>Fixed-width operations on natural numbers\<close>

definition max_of :: "nat \<Rightarrow> nat" where
  [int_ops]: "max_of w = 2 ^ w - 1"

definition saturating_add :: "nat \<Rightarrow> nat \<Rightarrow> nat \<Rightarrow> nat" where
  [int_ops]: "saturating_add w a b = min (a + b) (max_of w)"

definition saturating_mul :: "nat \<Rightarrow> nat \<Rightarrow> nat \<Rightarrow> nat" where
  [int_ops]: "saturating_mul w a b = min (a * b) (max_of w)"

definition saturating_sub :: "nat \<Rightarrow> nat \<Rightarrow> nat" where
  [int_ops]: "saturating_sub a b = a - b"

definition checked_add :: "nat \<Rightarrow> nat \<Rightarrow> nat \<Rightarrow> nat option" where
  [int_ops]: "checked_add w a b = (if a + b \<le> max_of w then Some (a + b) else None)"

definition checked_mul :: "nat \<Rightarrow> nat \<Rightarrow> nat \<Rightarrow> nat option" where
  [int_ops]: "checked_mul w a b = (if a * b \<le> max_of w then Some (a * b) else None)"

definition abs_diff :: "nat \<Rightarrow> nat \<Rightarrow> nat" where
  [int_ops]: "abs_diff a b = (if a < b then b - a else a - b)"

lemma saturating_add_le_max [simp]: "saturating_add w a b \<le> max_of w"
  by (simp add: saturating_add_def)

lemma saturating_mul_le_max [simp]: "saturating_mul w a b \<le> max_of w"
  by (simp add: saturating_mul_def)

lemma checked_add_Some: "checked_add w a b = Some c \<longleftrightarrow> c = a + b \<and> a + b \<le> max_of w"
  by (auto simp: checked_add_def)

lemma checked_mul_Some: "checked_mul w a b = Some c \<longleftrightarrow> c = a * b \<and> a * b \<le> max_of w"
  by (auto simp: checked_mul_def)

subsection \<open>Fixed-width operations on words\<close>

definition sat_add :: "'a::len word \<Rightarrow> 'a word \<Rightarrow> 'a word" where
  "sat_add a b = (if a + b < a then - 1 else a + b)"

definition sat_mul :: "'a::len word \<Rightarrow> 'a word \<Rightarrow> 'a word" where
  "sat_mul a b = (if unat a * unat b < 2 ^ LENGTH('a) then a * b else - 1)"

definition sat_sub :: "'a::len word \<Rightarrow> 'a word \<Rightarrow> 'a word" where
  "sat_sub a b = (if b \<le> a then a - b else 0)"

definition word_abs_diff :: "'a::len word \<Rightarrow> 'a word \<Rightarrow> 'a word" where
  "word_abs_diff a b = (if a < b then b - a else a - b)"

definition clamp :: "'a::linorder \<Rightarrow> 'a \<Rightarrow> 'a \<Rightarrow> 'a" where
  "clamp v lo hi = (if v < lo then lo else if hi < v then hi else v)"

subsection \<open>Iterator methods on arrays\<close>

text \<open>\<open>Iterator::position\<close>: the index of the first element that satisfies the predicate.\<close>

primrec position :: "('a \<Rightarrow> bool) \<Rightarrow> 'a list \<Rightarrow> nat option" where
  "position P [] = None"
| "position P (x # xs) = (if P x then Some 0 else map_option Suc (position P xs))"

lemma position_None_iff [iter_ops]: "position P xs = None \<longleftrightarrow> (\<forall>x \<in> set xs. \<not> P x)"
  by (induction xs) auto

lemma position_SomeD:
  "position P xs = Some i \<Longrightarrow> i < length xs \<and> P (xs ! i) \<and> (\<forall>j < i. \<not> P (xs ! j))"
proof (induction xs arbitrary: i)
  case Nil
  then show ?case by simp
next
  case (Cons x xs)
  show ?case
  proof (cases "P x")
    case True
    with Cons.prems show ?thesis by simp
  next
    case False
    with Cons.prems obtain k where k: "position P xs = Some k" "i = Suc k"
      by auto
    from Cons.IH [OF k(1)] False k(2) show ?thesis
      by (auto simp: nth_Cons split: nat.splits)
  qed
qed

lemma position_less: "position P xs = Some i \<Longrightarrow> i < length xs"
  and position_holds: "position P xs = Some i \<Longrightarrow> P (xs ! i)"
  by (auto dest: position_SomeD)

text \<open>\<open>slice::get\<close>: indexing that answers \<open>None\<close> out of range.\<close>

definition get :: "'a list \<Rightarrow> nat \<Rightarrow> 'a option" where
  "get xs i = (if i < length xs then Some (xs ! i) else None)"

lemma get_Some [iter_ops]: "get xs i = Some x \<longleftrightarrow> i < length xs \<and> xs ! i = x"
  by (auto simp: get_def)

lemma get_None [iter_ops]: "get xs i = None \<longleftrightarrow> length xs \<le> i"
  by (auto simp: get_def)

subsection \<open>Counting the elements that satisfy a predicate\<close>

definition count_if :: "('a \<Rightarrow> bool) \<Rightarrow> 'a list \<Rightarrow> nat" where
  "count_if P xs = length (filter P xs)"

lemma count_if_simps [simp]:
  "count_if P [] = 0"
  "count_if P (x # xs) = (if P x then Suc (count_if P xs) else count_if P xs)"
  "count_if P (xs @ ys) = count_if P xs + count_if P ys"
  by (simp_all add: count_if_def)

lemma count_if_replicate [simp]: "count_if P (replicate n x) = (if P x then n else 0)"
  by (simp add: count_if_def)

lemma count_if_pos: "i < length xs \<Longrightarrow> P (xs ! i) \<Longrightarrow> 0 < count_if P xs"
  by (auto simp: count_if_def length_greater_0_conv filter_empty_conv)

lemma count_if_update:
  assumes "i < length xs"
  shows "count_if P (xs[i := x]) + (if P (xs ! i) then 1 else 0)
       = count_if P xs + (if P x then 1 else 0)"
proof -
  have old: "count_if P xs = count_if P (take i xs @ xs ! i # drop (Suc i) xs)"
    using assms by (simp add: id_take_nth_drop [symmetric])
  have new: "count_if P (xs[i := x]) = count_if P (take i xs @ x # drop (Suc i) xs)"
    using assms by (simp add: upd_conv_take_nth_drop)
  show ?thesis
    by (simp add: old new)
qed

lemma count_if_card: "count_if P xs = card {i. i < length xs \<and> P (xs ! i)}"
  unfolding count_if_def by (rule length_filter_conv_card)

lemma nth_list_update_if:
  "xs[i := x] ! j = (if j = i \<and> i < length xs then x else xs ! j)"
  by (auto simp: nth_list_update list_update_beyond)

subsection \<open>Powers of two\<close>

lemma dvd_pow2_le: "a \<le> b \<Longrightarrow> (2::nat) ^ b dvd x \<Longrightarrow> 2 ^ a dvd x"
  by (meson dvd_trans le_imp_power_dvd)

lemma unat_and_le1: "unat (a AND b) \<le> unat (a :: 'a::len word)"
  by (metis and.commute word_and_le1 word_le_nat_alt)

end
