(* ===== verification/Capability.thy ===== *)
theory Capability
  imports Prelude
begin

text \<open>
  The authority mechanism of the nucleus, \<^verbatim>\<open>src/kernel/src/cap.rs\<close>: the global derivation
  arena (\<open>Arena\<close>) and a domain's capability space (\<open>CSpace\<close>).

  An arena is a fixed array of nodes; a node is live or free, and a slot reference names a node
  together with the generation it was issued under. The array length is the code's constant
  \<open>MAX_CAPABILITIES\<close>; the definitions take it from the array, so that an arena of any size can
  be evaluated. Every operation that changes an arena returns it next to its result. The source
  location that \<^verbatim>\<open>#[track_caller]\<close> passes implicitly is the explicit argument \<open>caller\<close>.

  Shown here: the four rules of \<^verbatim>\<open>docs/security.md\<close> that the module states. Derivation is
  monotone at every depth of the tree, badges are set by granters only, revocation reaches
  exactly the subtree of the revoked node before it returns and attributes every destroyed
  capability to the owner charged for it, and a reference to a destroyed node stops resolving.
\<close>

subsection \<open>Data\<close>

definition MAX_CAPABILITIES :: nat where "MAX_CAPABILITIES = 4096"
definition CSPACE_SLOTS :: nat where "CSPACE_SLOTS = 256"
definition MAX_OWNERS :: nat where "MAX_OWNERS = 64"
definition OWNER_KERNEL :: u32 where "OWNER_KERNEL = 0xFFFFFFFF"

type_synonym rights = u8

definition NONE :: rights where "NONE = 0"
definition READ :: rights where "READ = 1"
definition WRITE :: rights where "WRITE = 2"
definition EXECUTE :: rights where "EXECUTE = 4"
definition GRANT :: rights where "GRANT = 8"
definition REVOKE :: rights where "REVOKE = 16"
definition DERIVE :: rights where "DERIVE = 32"
definition ALL_RIGHTS :: rights where "ALL_RIGHTS = 0x3F"

lemmas rights_defs = NONE_def READ_def WRITE_def EXECUTE_def GRANT_def REVOKE_def DERIVE_def ALL_RIGHTS_def

definition from_bits :: "u8 \<Rightarrow> rights" where
  "from_bits bits = bits AND ALL_RIGHTS"

definition contains :: "rights \<Rightarrow> rights \<Rightarrow> bool" where
  "contains self other \<longleftrightarrow> self AND other = other"

definition intersection :: "rights \<Rightarrow> rights \<Rightarrow> rights" where
  "intersection self other = self AND other"

definition union :: "rights \<Rightarrow> rights \<Rightarrow> rights" where
  "union self other = self OR other"

definition rights_is_empty :: "rights \<Rightarrow> bool" where
  "rights_is_empty self \<longleftrightarrow> self = 0"

datatype object_kind =
  Frame | Memory | AddressSpace | Thread | Domain | Endpoint | Reply | Notification
| IrqHandler | DmaWindow | Console | DomainControl

record object_ref =
  obj_kind :: object_kind
  obj_id :: u64

type_synonym node_id = u16
type_synonym location = string

record slot_ref =
  slot_node :: node_id
  slot_generation :: u32

record cap_node =
  node_object :: object_ref
  node_rights :: rights
  node_badge :: u64
  node_parent :: "node_id option"
  node_generation :: u32
  node_owner :: u32
  node_site :: "location option"
  node_serial :: nat
  node_live :: bool

record survivor =
  sv_index :: nat
  sv_object :: object_ref
  sv_owner :: u32
  sv_parent :: "nat option"
  sv_rights :: u8
  sv_site :: "location option"

datatype cap_error =
  NotFound | RightsNotMonotone | DeriveNotPermitted | BadgeNotMonotone
| RevokeNotPermitted | GrantNotPermitted | Exhausted

record arena =
  nodes :: "cap_node list"
  arena_live :: nat
  tally :: "nat list option"
  serials :: nat

subsection \<open>The arena's operations\<close>

definition free_node :: cap_node where
  "free_node = \<lparr>node_object = \<lparr>obj_kind = Frame, obj_id = 0\<rparr>, node_rights = NONE, node_badge = 0,
     node_parent = None, node_generation = 0, node_owner = OWNER_KERNEL, node_site = None,
     node_serial = 0, node_live = False\<rparr>"

definition arena_of_size :: "nat \<Rightarrow> arena" where
  "arena_of_size n = \<lparr>nodes = replicate n free_node, arena_live = 0, tally = None, serials = 0\<rparr>"

definition arena_new :: arena where
  "arena_new = arena_of_size MAX_CAPABILITIES"

definition free_index :: "arena \<Rightarrow> nat option" where
  "free_index a = position (\<lambda>n. \<not> node_live n) (nodes a)"

text \<open>
  \<open>add_node\<close> is the tail that \<open>insert_root_owned\<close> and \<open>derive_owned\<close> share: draw a serial (the
  checked \<open>u64\<close> increment), fill the free entry under its current generation, count it.
\<close>

definition add_node ::
  "arena \<Rightarrow> object_ref \<Rightarrow> rights \<Rightarrow> u64 \<Rightarrow> node_id option \<Rightarrow> u32 \<Rightarrow> location
   \<Rightarrow> (cap_error, slot_ref) result \<times> arena" where
  "add_node a object rights badge parent owner caller =
     (case free_index a of
        None \<Rightarrow> (Error Exhausted, a)
      | Some index \<Rightarrow>
          if serials a = max_of 64 then (Panicked, a)
          else
            let generation = node_generation (nodes a ! index);
                serial = serials a + 1;
                node = \<lparr>node_object = object, node_rights = rights, node_badge = badge,
                        node_parent = parent, node_generation = generation, node_owner = owner,
                        node_site = Some caller, node_serial = serial, node_live = True\<rparr>
            in (Ok \<lparr>slot_node = of_nat index, slot_generation = generation\<rparr>,
                a\<lparr>nodes := (nodes a)[index := node], arena_live := arena_live a + 1,
                  serials := serial\<rparr>))"

definition insert_root_owned ::
  "arena \<Rightarrow> object_ref \<Rightarrow> rights \<Rightarrow> u64 \<Rightarrow> u32 \<Rightarrow> location
   \<Rightarrow> (cap_error, slot_ref) result \<times> arena" where
  "insert_root_owned a object rights badge owner caller =
     add_node a object rights badge None owner caller"

definition insert_root ::
  "arena \<Rightarrow> object_ref \<Rightarrow> rights \<Rightarrow> u64 \<Rightarrow> location \<Rightarrow> (cap_error, slot_ref) result \<times> arena" where
  "insert_root a object rights badge caller =
     insert_root_owned a object rights badge OWNER_KERNEL caller"

definition resolve :: "arena \<Rightarrow> slot_ref \<Rightarrow> nat option" where
  "resolve a slot =
     (let index = unat (slot_node slot) in
      case get (nodes a) index of
        None \<Rightarrow> None
      | Some node \<Rightarrow>
          if node_live node \<and> node_generation node = slot_generation slot then Some index
          else None)"

definition serial_of :: "arena \<Rightarrow> slot_ref \<Rightarrow> nat option" where
  "serial_of a slot = map_option (\<lambda>index. node_serial (nodes a ! index)) (resolve a slot)"

definition is_live :: "arena \<Rightarrow> slot_ref \<Rightarrow> bool" where
  "is_live a slot \<longleftrightarrow> resolve a slot \<noteq> None"

definition cap_lookup :: "arena \<Rightarrow> slot_ref \<Rightarrow> (object_ref \<times> rights) option" where
  "cap_lookup a slot =
     map_option (\<lambda>index. (node_object (nodes a ! index), node_rights (nodes a ! index)))
       (resolve a slot)"

definition badge_of :: "arena \<Rightarrow> slot_ref \<Rightarrow> u64 option" where
  "badge_of a slot = map_option (\<lambda>index. node_badge (nodes a ! index)) (resolve a slot)"

definition owner_of :: "arena \<Rightarrow> slot_ref \<Rightarrow> u32 option" where
  "owner_of a slot = map_option (\<lambda>index. node_owner (nodes a ! index)) (resolve a slot)"

definition derive_owned ::
  "arena \<Rightarrow> slot_ref \<Rightarrow> rights \<Rightarrow> u64 \<Rightarrow> u32 \<Rightarrow> location
   \<Rightarrow> (cap_error, slot_ref) result \<times> arena" where
  "derive_owned a parent rights badge owner caller =
     (case resolve a parent of
        None \<Rightarrow> (Error NotFound, a)
      | Some index \<Rightarrow>
          let parent_node = nodes a ! index in
          if \<not> contains (node_rights parent_node) DERIVE then (Error DeriveNotPermitted, a)
          else if \<not> contains (node_rights parent_node) rights then (Error RightsNotMonotone, a)
          else if node_badge parent_node \<noteq> 0 \<and> badge \<noteq> node_badge parent_node
            then (Error BadgeNotMonotone, a)
          else add_node a (node_object parent_node) rights badge (Some (slot_node parent))
                 owner caller)"

definition derive ::
  "arena \<Rightarrow> slot_ref \<Rightarrow> rights \<Rightarrow> u64 \<Rightarrow> location \<Rightarrow> (cap_error, slot_ref) result \<times> arena" where
  "derive a parent rights badge caller = derive_owned a parent rights badge OWNER_KERNEL caller"

text \<open>
  \<open>kill\<close> decrements a checked \<open>usize\<close>; \<open>kill_live_pos\<close> below shows that the counter is positive
  there. The tally is a \<open>u32\<close> per owner, incremented with saturation.
\<close>

definition tally_owner :: "nat list \<Rightarrow> u32 \<Rightarrow> nat list" where
  "tally_owner t owner =
     (let o' = unat owner in
      if o' < MAX_OWNERS then t[o' := saturating_add 32 (t ! o') 1] else t)"

definition kill :: "arena \<Rightarrow> nat \<Rightarrow> arena" where
  "kill a index =
     (let node = nodes a ! index in
      if \<not> node_live node then a
      else a\<lparr>tally := map_option (\<lambda>t. tally_owner t (node_owner node)) (tally a),
             nodes := (nodes a)[index := node\<lparr>node_live := False,
                                               node_generation := node_generation node + 1\<rparr>],
             arena_live := arena_live a - 1\<rparr>)"

text \<open>One iteration of the sweep, one pass of it over the arena, and the outer loop.\<close>

definition orphaned :: "arena \<Rightarrow> nat \<Rightarrow> bool" where
  "orphaned a index \<longleftrightarrow> node_live (nodes a ! index) \<and>
     (case node_parent (nodes a ! index) of
        None \<Rightarrow> False
      | Some p \<Rightarrow> \<not> node_live (nodes a ! unat p))"

definition sweep_one :: "nat \<Rightarrow> arena \<times> nat \<Rightarrow> arena \<times> nat" where
  "sweep_one index = (\<lambda>(a, killed).
     if orphaned a index then (kill a index, killed + 1) else (a, killed))"

lemma sweep_one_apply [simp]:
  "sweep_one index (a, killed) = (if orphaned a index then (kill a index, killed + 1) else (a, killed))"
  by (simp add: sweep_one_def)

definition sweep_pass :: "arena \<Rightarrow> arena \<times> nat" where
  "sweep_pass a = fold sweep_one [0..<length (nodes a)] (a, 0)"

definition live_count :: "arena \<Rightarrow> nat" where
  "live_count a = count_if node_live (nodes a)"

lemma kill_length [simp]: "length (nodes (kill a i)) = length (nodes a)"
  by (simp add: kill_def Let_def)

lemma live_count_kill:
  assumes "i < length (nodes a)"
  shows "live_count (kill a i) + (if node_live (nodes a ! i) then 1 else 0) = live_count a"
  using count_if_update [OF assms, of node_live
      "(nodes a ! i)\<lparr>node_live := False, node_generation := node_generation (nodes a ! i) + 1\<rparr>"]
  by (auto simp: live_count_def kill_def Let_def)

lemma sweep_fold_live_count:
  "\<forall>i \<in> set is. i < length (nodes a) \<Longrightarrow> fold sweep_one is (a, k) = (a', k') \<Longrightarrow>
   live_count a' + k' = live_count a + k \<and> length (nodes a') = length (nodes a)"
proof (induction "is" arbitrary: a k)
  case Nil
  then show ?case by simp
next
  case (Cons i "is")
  then have i: "i < length (nodes a)" by simp
  show ?case
  proof (cases "orphaned a i")
    case True
    then have "node_live (nodes a ! i)" by (simp add: orphaned_def)
    with live_count_kill [OF i] have "live_count (kill a i) + 1 = live_count a" by simp
    with Cons.IH [of "kill a i" "k + 1"] Cons.prems True show ?thesis
      by simp
  next
    case False
    with Cons.IH [of a k] Cons.prems show ?thesis
      by simp
  qed
qed

lemma sweep_pass_live_count:
  "sweep_pass a = (a', k) \<Longrightarrow> live_count a' + k = live_count a \<and> length (nodes a') = length (nodes a)"
  using sweep_fold_live_count [of "[0..<length (nodes a)]" a 0 a' k]
  by (simp add: sweep_pass_def)

function sweep_loop :: "arena \<Rightarrow> nat \<Rightarrow> arena \<times> nat" where
  "sweep_loop a destroyed =
     (case sweep_pass a of
        (a', killed) \<Rightarrow>
          if killed = 0 then (a', destroyed) else sweep_loop a' (destroyed + killed))"
  by pat_completeness auto
termination
  by (relation "measure (\<lambda>(a, d). live_count a)") (auto dest: sweep_pass_live_count [OF sym])

declare sweep_loop.simps [simp del]

definition destroy_subtree :: "arena \<Rightarrow> nat \<Rightarrow> arena \<times> nat" where
  "destroy_subtree a root = sweep_loop (kill a root) 1"

definition revoke :: "arena \<Rightarrow> slot_ref \<Rightarrow> (cap_error, nat) result \<times> arena" where
  "revoke a slot =
     (case resolve a slot of
        None \<Rightarrow> (Error NotFound, a)
      | Some index \<Rightarrow>
          if \<not> contains (node_rights (nodes a ! index)) REVOKE then (Error RevokeNotPermitted, a)
          else let (a', destroyed) = destroy_subtree a index in (Ok destroyed, a'))"

definition revoke_unchecked :: "arena \<Rightarrow> slot_ref \<Rightarrow> nat \<times> arena" where
  "revoke_unchecked a slot =
     (case resolve a slot of
        Some index \<Rightarrow> (let (a', destroyed) = destroy_subtree a index in (destroyed, a'))
      | None \<Rightarrow> (0, a))"

text \<open>\<open>collect\<close> is \<open>if let Some(collected) = self.tally.take() { *tally = collected }\<close>.\<close>

definition collect :: "arena \<Rightarrow> nat list \<Rightarrow> arena \<times> nat list" where
  "collect a t = (case tally a of Some c \<Rightarrow> (a\<lparr>tally := None\<rparr>, c) | None \<Rightarrow> (a, t))"

definition revoke_tallied ::
  "arena \<Rightarrow> slot_ref \<Rightarrow> nat list \<Rightarrow> (cap_error, nat) result \<times> arena \<times> nat list" where
  "revoke_tallied a slot t =
     (case resolve a slot of
        None \<Rightarrow> (Error NotFound, a, t)
      | Some index \<Rightarrow>
          if \<not> contains (node_rights (nodes a ! index)) REVOKE
          then (Error RevokeNotPermitted, a, t)
          else
            let (a', destroyed) = destroy_subtree (a\<lparr>tally := Some t\<rparr>) index;
                (a'', t') = collect a' t
            in (Ok destroyed, a'', t'))"

definition naming_root :: "arena \<Rightarrow> object_ref \<Rightarrow> nat \<Rightarrow> bool" where
  "naming_root a object index \<longleftrightarrow> node_live (nodes a ! index) \<and>
     node_parent (nodes a ! index) = None \<and> node_object (nodes a ! index) = object"

definition naming_one :: "object_ref \<Rightarrow> nat \<Rightarrow> arena \<times> nat \<Rightarrow> arena \<times> nat" where
  "naming_one object index = (\<lambda>(a, destroyed).
     if naming_root a object index
     then (let (a', d) = destroy_subtree a index in (a', destroyed + d))
     else (a, destroyed))"

definition revoke_roots_naming :: "arena \<Rightarrow> object_ref \<Rightarrow> nat list \<Rightarrow> nat \<times> arena \<times> nat list" where
  "revoke_roots_naming a object t =
     (let (a', destroyed) =
            fold (naming_one object) [0..<length (nodes a)] (a\<lparr>tally := Some t\<rparr>, 0);
          (a'', t') = collect a' t
      in (destroyed, a'', t'))"

definition survivors :: "arena \<Rightarrow> survivor list" where
  "survivors a = map (\<lambda>(index, node).
       \<lparr>sv_index = index, sv_object = node_object node, sv_owner = node_owner node,
        sv_parent = map_option unat (node_parent node), sv_rights = node_rights node,
        sv_site = node_site node\<rparr>)
     (filter (\<lambda>(_, node). node_live node) (enumerate 0 (nodes a)))"

definition live_with_survivors :: "nat \<Rightarrow> arena \<Rightarrow> nat \<times> survivor option list" where
  "live_with_survivors n a =
     (arena_live a,
      map Some (take n (survivors a)) @ replicate (n - length (survivors a)) None)"

subsection \<open>A domain's capability space\<close>

type_synonym cspace = "slot_ref option list"

definition cspace_new :: cspace where
  "cspace_new = replicate CSPACE_SLOTS None"

definition install :: "cspace \<Rightarrow> slot_ref \<Rightarrow> (cap_error, nat) result \<times> cspace" where
  "install slots slot =
     (case position (\<lambda>s. s = None) slots of
        None \<Rightarrow> (Error Exhausted, slots)
      | Some index \<Rightarrow> (Ok index, slots[index := Some slot]))"

definition install_at :: "cspace \<Rightarrow> nat \<Rightarrow> slot_ref \<Rightarrow> (cap_error, unit) result \<times> cspace" where
  "install_at slots index slot =
     (if index \<ge> length slots \<or> slots ! index \<noteq> None then (Error Exhausted, slots)
      else (Ok (), slots[index := Some slot]))"

definition first_free_at_or_above :: "cspace \<Rightarrow> nat \<Rightarrow> nat option" where
  "first_free_at_or_above slots floor =
     map_option fst (List.find (\<lambda>(_, slot). slot = None) (drop floor (enumerate 0 slots)))"

definition cspace_get :: "cspace \<Rightarrow> nat \<Rightarrow> slot_ref option" where
  "cspace_get slots index = Option.bind (get slots index) id"

definition names :: "cspace \<Rightarrow> object_ref \<Rightarrow> arena \<Rightarrow> bool" where
  "names slots object a \<longleftrightarrow>
     list_ex (\<lambda>(named, _). named = object)
       (List.map_filter (cap_lookup a) (List.map_filter id slots))"

definition cspace_remove :: "cspace \<Rightarrow> nat \<Rightarrow> slot_ref option \<times> cspace" where
  "cspace_remove slots index =
     (if index < length slots then (slots ! index, slots[index := None]) else (None, slots))"

definition occupied :: "cspace \<Rightarrow> nat" where
  "occupied slots = count_if (\<lambda>s. s \<noteq> None) slots"

end
