(* ===== verification/CapabilityInv.thy ===== *)
theory CapabilityInv
  imports Capability
begin

text \<open>
  The invariant of the derivation arena and the functional specification of its operations:
  the tree order on nodes, what a revocation destroys, and what every operation keeps.
\<close>

subsection \<open>The derivation tree\<close>

definition live_at :: "arena \<Rightarrow> nat \<Rightarrow> bool" where
  "live_at a i \<longleftrightarrow> i < length (nodes a) \<and> node_live (nodes a ! i)"

definition parent_index :: "arena \<Rightarrow> nat \<Rightarrow> nat option" where
  "parent_index a i = map_option unat (node_parent (nodes a ! i))"

text \<open>\<open>below a r i\<close>: node \<open>i\<close> is \<open>r\<close> or was derived from it, through live nodes.\<close>

inductive below :: "arena \<Rightarrow> nat \<Rightarrow> nat \<Rightarrow> bool" for a r where
  below_refl: "live_at a r \<Longrightarrow> below a r r"
| below_child: "below a r p \<Longrightarrow> live_at a i \<Longrightarrow> parent_index a i = Some p \<Longrightarrow> below a r i"

lemma below_live: "below a r i \<Longrightarrow> live_at a r \<and> live_at a i"
  by (induction rule: below.induct) auto

lemma below_trans: "below a p i \<Longrightarrow> below a r p \<Longrightarrow> below a r i"
  by (induction rule: below.induct) (auto intro: below.intros)

text \<open>
  The invariant. The serial numbers order the tree: a child's is above its parent's, so every
  chain of parents ends in a root.
\<close>

definition child_ok :: "cap_node \<Rightarrow> cap_node \<Rightarrow> bool" where
  "child_ok parent child \<longleftrightarrow>
     node_object child = node_object parent \<and>
     contains (node_rights parent) (node_rights child) \<and>
     contains (node_rights parent) DERIVE \<and>
     (node_badge parent \<noteq> 0 \<longrightarrow> node_badge child = node_badge parent) \<and>
     node_serial parent < node_serial child"

definition links_ok :: "arena \<Rightarrow> bool" where
  "links_ok a \<longleftrightarrow> (\<forall>i p. live_at a i \<longrightarrow> parent_index a i = Some p \<longrightarrow>
     live_at a p \<and> child_ok (nodes a ! p) (nodes a ! i))"

definition serials_ok :: "arena \<Rightarrow> bool" where
  "serials_ok a \<longleftrightarrow> serials a \<le> max_of 64 \<and>
     (\<forall>i. live_at a i \<longrightarrow> 0 < node_serial (nodes a ! i) \<and> node_serial (nodes a ! i) \<le> serials a) \<and>
     (\<forall>i j. live_at a i \<longrightarrow> live_at a j \<longrightarrow>
        node_serial (nodes a ! i) = node_serial (nodes a ! j) \<longrightarrow> i = j)"

definition tally_wf :: "nat list \<Rightarrow> bool" where
  "tally_wf t \<longleftrightarrow> length t = MAX_OWNERS \<and> (\<forall>n \<in> set t. n \<le> max_of 32)"

definition arena_core :: "arena \<Rightarrow> bool" where
  "arena_core a \<longleftrightarrow> length (nodes a) \<le> 2 ^ 16 \<and> arena_live a = live_count a \<and>
     links_ok a \<and> serials_ok a"

definition arena_inv :: "arena \<Rightarrow> bool" where
  "arena_inv a \<longleftrightarrow> arena_core a \<and> tally a = None"

lemma arena_invD:
  assumes "arena_inv a"
  shows "length (nodes a) \<le> 2 ^ 16" and "arena_live a = live_count a"
    and "links_ok a" and "serials_ok a" and "tally a = None" and "arena_core a"
  using assms by (simp_all add: arena_inv_def arena_core_def)

lemma links_okD:
  "links_ok a \<Longrightarrow> live_at a i \<Longrightarrow> parent_index a i = Some p \<Longrightarrow>
   live_at a p \<and> child_ok (nodes a ! p) (nodes a ! i)"
  by (auto simp: links_ok_def)

text \<open>The counter \<open>kill\<close> decrements is positive whenever \<open>kill\<close> reaches the decrement.\<close>

lemma kill_live_pos: "arena_core a \<Longrightarrow> live_at a i \<Longrightarrow> 0 < arena_live a"
  by (auto simp: arena_core_def live_at_def live_count_def intro: count_if_pos)

subsection \<open>Killing a set of nodes\<close>

definition dead :: "cap_node \<Rightarrow> cap_node" where
  "dead n = n\<lparr>node_live := False, node_generation := node_generation n + 1\<rparr>"

definition charged :: "arena \<Rightarrow> nat set \<Rightarrow> nat \<Rightarrow> nat" where
  "charged a K owner = card {i \<in> K. unat (node_owner (nodes a ! i)) = owner}"

definition tally_plus :: "arena \<Rightarrow> nat set \<Rightarrow> nat list \<Rightarrow> nat list" where
  "tally_plus a K t = map (\<lambda>owner. min (t ! owner + charged a K owner) (max_of 32)) [0..<MAX_OWNERS]"

text \<open>\<open>kills a K a'\<close>: \<open>a'\<close> is \<open>a\<close> with exactly the live nodes in \<open>K\<close> destroyed.\<close>

definition kills :: "arena \<Rightarrow> nat set \<Rightarrow> arena \<Rightarrow> bool" where
  "kills a K a' \<longleftrightarrow> (\<forall>i \<in> K. live_at a i) \<and> length (nodes a') = length (nodes a) \<and>
     (\<forall>i < length (nodes a). nodes a' ! i = (if i \<in> K then dead (nodes a ! i) else nodes a ! i)) \<and>
     serials a' = serials a \<and> arena_live a' = arena_live a - card K \<and>
     (tally a = None \<longrightarrow> tally a' = None) \<and>
     (\<forall>t. tally a = Some t \<longrightarrow> tally_wf t \<longrightarrow> tally a' = Some (tally_plus a K t))"

lemma kills_finite: "kills a K a' \<Longrightarrow> finite K"
  by (rule finite_subset [of _ "{..<length (nodes a)}"]) (auto simp: kills_def live_at_def)

lemma tally_plus_empty: "tally_wf t \<Longrightarrow> tally_plus a {} t = t"
  by (rule nth_equalityI) (auto simp: tally_plus_def charged_def tally_wf_def min_def)

lemma kills_empty: "kills a {} a"
  by (simp add: kills_def tally_plus_empty)

lemma tally_plus_wf: "tally_wf (tally_plus a K t)"
  by (simp add: tally_wf_def tally_plus_def)

lemma charged_insert:
  assumes "finite K" "i \<notin> K"
  shows "charged a (insert i K) owner
       = charged a K owner + (if unat (node_owner (nodes a ! i)) = owner then 1 else 0)"
proof -
  have "{j \<in> insert i K. unat (node_owner (nodes a ! j)) = owner}
      = (if unat (node_owner (nodes a ! i)) = owner
         then insert i {j \<in> K. unat (node_owner (nodes a ! j)) = owner}
         else {j \<in> K. unat (node_owner (nodes a ! j)) = owner})"
    by auto
  then show ?thesis
    using assms by (simp add: charged_def)
qed

lemma tally_owner_plus:
  assumes "finite K" "i \<notin> K"
  shows "tally_owner (tally_plus a K t) (node_owner (nodes a ! i)) = tally_plus a (insert i K) t"
proof (rule nth_equalityI)
  show "length (tally_owner (tally_plus a K t) (node_owner (nodes a ! i)))
      = length (tally_plus a (insert i K) t)"
    by (simp add: tally_owner_def tally_plus_def Let_def)
next
  fix j
  assume "j < length (tally_owner (tally_plus a K t) (node_owner (nodes a ! i)))"
  then have j: "j < MAX_OWNERS"
    by (simp add: tally_owner_def tally_plus_def Let_def split: if_splits)
  then show "tally_owner (tally_plus a K t) (node_owner (nodes a ! i)) ! j
           = tally_plus a (insert i K) t ! j"
    by (auto simp: tally_owner_def tally_plus_def Let_def nth_list_update charged_insert [OF assms]
        saturating_add_def)
qed

lemma kills_kill:
  assumes k: "kills a K a'" and i: "live_at a' i"
  shows "kills a (insert i K) (kill a' i)" and "i \<notin> K" and "live_at a i"
proof -
  have len: "length (nodes a') = length (nodes a)"
    and nth: "\<And>j. j < length (nodes a) \<Longrightarrow>
        nodes a' ! j = (if j \<in> K then dead (nodes a ! j) else nodes a ! j)"
    using k by (auto simp: kills_def)
  show notin: "i \<notin> K"
    using i len nth [of i] by (auto simp: live_at_def dead_def)
  have same: "nodes a' ! i = nodes a ! i" and bound: "i < length (nodes a)"
    using i len nth [of i] notin by (auto simp: live_at_def)
  show la: "live_at a i"
    using i same bound by (simp add: live_at_def)
  have fin: "finite K" using k by (rule kills_finite)
  have live: "node_live (nodes a ! i)" using la by (simp add: live_at_def)
  show "kills a (insert i K) (kill a' i)"
    unfolding kills_def
  proof (intro conjI allI impI ballI)
    fix j assume "j \<in> insert i K" then show "live_at a j"
      using la k by (auto simp: kills_def)
  next
    show "length (nodes (kill a' i)) = length (nodes a)" by (simp add: len)
  next
    fix j assume "j < length (nodes a)"
    then show "nodes (kill a' i) ! j
        = (if j \<in> insert i K then dead (nodes a ! j) else nodes a ! j)"
      using nth [of j] same live bound len
      by (auto simp: kill_def Let_def nth_list_update_if dead_def)
  next
    show "serials (kill a' i) = serials a"
      using k by (simp add: kill_def Let_def kills_def)
  next
    show "arena_live (kill a' i) = arena_live a - card (insert i K)"
      using k same live fin notin by (simp add: kill_def Let_def kills_def)
  next
    assume "tally a = None"
    then show "tally (kill a' i) = None"
      using k by (simp add: kill_def Let_def kills_def)
  next
    fix t assume "tally a = Some t" "tally_wf t"
    then show "tally (kill a' i) = Some (tally_plus a (insert i K) t)"
      using k same live tally_owner_plus [OF fin notin, of a t]
      by (simp add: kill_def Let_def kills_def)
  qed
qed

lemma kills_live_at: "kills a K a' \<Longrightarrow> live_at a' i \<longleftrightarrow> live_at a i \<and> i \<notin> K"
  by (auto simp: kills_def live_at_def dead_def)

lemma kills_parent: "kills a K a' \<Longrightarrow> i < length (nodes a) \<Longrightarrow> parent_index a' i = parent_index a i"
  by (simp add: kills_def parent_index_def dead_def)

lemma kills_live_count: "kills a K a' \<Longrightarrow> live_count a' + card K = live_count a"
proof -
  assume k: "kills a K a'"
  have "{i. i < length (nodes a) \<and> node_live (nodes a ! i)}
      = {i. i < length (nodes a') \<and> node_live (nodes a' ! i)} \<union> K"
    using k by (auto simp: kills_def live_at_def dead_def)
  moreover have "{i. i < length (nodes a') \<and> node_live (nodes a' ! i)} \<inter> K = {}"
    using k by (auto simp: kills_def live_at_def dead_def)
  ultimately show ?thesis
    using kills_finite [OF k] by (simp add: live_count_def count_if_card card_Un_disjoint)
qed

subsection \<open>The sweep destroys exactly the subtree\<close>

lemma orphaned_iff:
  "i < length (nodes a) \<Longrightarrow>
   orphaned a i \<longleftrightarrow> live_at a i \<and> (\<exists>p. parent_index a i = Some p \<and> \<not> node_live (nodes a ! p))"
  by (auto simp: orphaned_def live_at_def parent_index_def split: option.splits)

lemma sweep_fold_kills:
  assumes links: "links_ok a"
  shows "kills a K b \<Longrightarrow> (\<forall>i \<in> K. below a r i) \<Longrightarrow> \<forall>i \<in> set is. i < length (nodes a) \<Longrightarrow>
    fold sweep_one is (b, k) = (b', k') \<Longrightarrow>
    \<exists>K'. K \<subseteq> K' \<and> kills a K' b' \<and> (\<forall>i \<in> K'. below a r i)"
proof (induction "is" arbitrary: K b k)
  case Nil
  then show ?case by auto
next
  case (Cons i "is")
  from Cons.prems(1,3) have i: "i < length (nodes a)" "i < length (nodes b)"
    by (auto simp: kills_def)
  show ?case
  proof (cases "orphaned b i")
    case True
    with i obtain p where p: "live_at b i" "parent_index b i = Some p" "\<not> node_live (nodes b ! p)"
      by (auto simp: orphaned_iff)
    note kk = kills_kill [OF Cons.prems(1) p(1)]
    from p(2) i(1) Cons.prems(1) have pa: "parent_index a i = Some p"
      by (simp add: kills_parent)
    with links kk(3) have "live_at a p" by (auto dest: links_okD)
    with p(3) Cons.prems(1) have "p \<in> K"
      by (auto simp: kills_def live_at_def split: if_splits)
    with Cons.prems(2) pa kk(3) have "below a r i"
      by (blast intro: below_child)
    with Cons.prems(2) have sub: "\<forall>j \<in> insert i K. below a r j" by simp
    have "\<exists>K'. insert i K \<subseteq> K' \<and> kills a K' b' \<and> (\<forall>j \<in> K'. below a r j)"
      by (rule Cons.IH [OF kk(1) sub]) (use Cons.prems(3,4) True in \<open>auto\<close>)
    then show ?thesis by blast
  next
    case False
    show ?thesis
      by (rule Cons.IH [OF Cons.prems(1,2)]) (use Cons.prems(3,4) False in \<open>auto\<close>)
  qed
qed

lemma sweep_fold_mono: "fold sweep_one is (a, k) = (a', k') \<Longrightarrow> k \<le> k'"
proof (induction "is" arbitrary: a k)
  case (Cons i "is")
  then show ?case
    by (cases "orphaned a i") (force dest: Cons.IH)+
qed simp

lemma sweep_fold_still:
  "fold sweep_one is (a, k) = (a', k) \<Longrightarrow> a' = a \<and> (\<forall>i \<in> set is. \<not> orphaned a i)"
proof (induction "is" arbitrary: a)
  case (Cons i "is")
  show ?case
  proof (cases "orphaned a i")
    case True
    with Cons.prems have "fold sweep_one is (kill a i, k + 1) = (a', k)"
      by simp
    then have "k + 1 \<le> k" by (rule sweep_fold_mono)
    then show ?thesis by simp
  next
    case False
    with Cons show ?thesis by simp
  qed
qed simp

lemma sweep_loop_kills:
  assumes links: "links_ok a"
  shows "kills a K b \<Longrightarrow> (\<forall>i \<in> K. below a r i) \<Longrightarrow> sweep_loop b d = (b', d') \<Longrightarrow>
    \<exists>K'. K \<subseteq> K' \<and> kills a K' b' \<and> (\<forall>i \<in> K'. below a r i) \<and>
         (\<forall>i < length (nodes a). \<not> orphaned b' i)"
proof (induction b d arbitrary: K rule: sweep_loop.induct)
  case (1 b d)
  obtain c k where c: "sweep_pass b = (c, k)" by force
  have len: "length (nodes b) = length (nodes a)" using "1.prems"(1) by (simp add: kills_def)
  have pass: "fold sweep_one [0..<length (nodes a)] (b, 0) = (c, k)"
    using c len by (simp add: sweep_pass_def)
  obtain L where L: "K \<subseteq> L" "kills a L c" "\<forall>i \<in> L. below a r i"
    using sweep_fold_kills [OF links "1.prems"(1,2) _ pass] by auto
  show ?case
  proof (cases "k = 0")
    case True
    with pass have "c = b" "\<forall>i < length (nodes a). \<not> orphaned b i"
      using sweep_fold_still [of "[0..<length (nodes a)]" b 0 c] by auto
    moreover have "b' = c"
      using "1.prems"(3) c True by (simp add: sweep_loop.simps [of b d])
    ultimately show ?thesis using L by auto
  next
    case False
    have "sweep_loop c (d + k) = (b', d')"
      using "1.prems"(3) c False by (simp add: sweep_loop.simps [of b d])
    from "1.IH" [OF c [symmetric] False L(2,3) this] L(1) show ?thesis by blast
  qed
qed

lemma sweep_loop_count:
  "sweep_loop b d = (b', d') \<Longrightarrow> live_count b' + d' = live_count b + d"
proof (induction b d rule: sweep_loop.induct)
  case (1 b d)
  obtain c k where c: "sweep_pass b = (c, k)" by force
  note count = sweep_pass_live_count [OF c]
  show ?case
  proof (cases "k = 0")
    case True
    with "1.prems" c count show ?thesis by (simp add: sweep_loop.simps [of b d])
  next
    case False
    with "1.prems" c have "sweep_loop c (d + k) = (b', d')"
      by (simp add: sweep_loop.simps [of b d])
    from "1.IH" [OF c [symmetric] False this] count show ?thesis by simp
  qed
qed

lemma destroy_subtree_kills:
  assumes core: "arena_core a" and root: "live_at a r" and run: "destroy_subtree a r = (a', d)"
  shows "kills a {i. below a r i} a'" and "d = card {i. below a r i}"
proof -
  have links: "links_ok a" using core by (simp add: arena_core_def)
  have kr: "kills a {r} (kill a r)"
    using kills_kill(1) [OF kills_empty root] by simp
  have loop: "sweep_loop (kill a r) 1 = (a', d)"
    using run by (simp add: destroy_subtree_def)
  have rb: "\<forall>i \<in> {r}. below a r i" using root by (simp add: below_refl)
  obtain K where
    K: "r \<in> K" "kills a K a'" "\<forall>i \<in> K. below a r i" "\<forall>i < length (nodes a). \<not> orphaned a' i"
    using sweep_loop_kills [OF links kr rb loop] by auto
  have "i \<in> K" if "below a r i" for i
    using that
  proof (induction rule: below.induct)
    case (below_refl)
    show ?case by (rule K(1))
  next
    case (below_child p i)
    show ?case
    proof (rule ccontr)
      assume "i \<notin> K"
      have i: "i < length (nodes a)" using below_child.hyps(2) by (simp add: live_at_def)
      have "\<not> node_live (nodes a' ! p)"
        using kills_live_at [OF K(2), of p] below_child.IH below_child.hyps(1) K(2)
        by (auto simp: kills_def live_at_def dest: below_live)
      moreover have "live_at a' i"
        using kills_live_at [OF K(2)] below_child.hyps(2) \<open>i \<notin> K\<close> by blast
      moreover have "parent_index a' i = Some p"
        using kills_parent [OF K(2) i] below_child.hyps(3) by simp
      ultimately have "orphaned a' i"
        using i K(2) by (subst orphaned_iff) (auto simp: kills_def)
      with K(4) i show False by blast
    qed
  qed
  with K(3) have eq: "K = {i. below a r i}" by auto
  show "kills a {i. below a r i} a'" using K(2) eq by simp
  have "live_count a' + d = live_count (kill a r) + 1"
    by (rule sweep_loop_count [OF loop])
  with kills_live_count [OF K(2)] kills_live_count [OF kr] show "d = card {i. below a r i}"
    by (simp add: eq)
qed

subsection \<open>Every operation keeps the invariant\<close>

lemma below_root_closed:
  "live_at a i \<Longrightarrow> parent_index a i = Some p \<Longrightarrow> below a r p \<Longrightarrow> below a r i"
  by (rule below_child)

lemma kills_core:
  assumes core: "arena_core a" and k: "kills a K a'"
    and closed: "\<And>i p. live_at a i \<Longrightarrow> parent_index a i = Some p \<Longrightarrow> p \<in> K \<Longrightarrow> i \<in> K"
  shows "arena_core a'"
  unfolding arena_core_def
proof (intro conjI)
  show "length (nodes a') \<le> 2 ^ 16"
    using core k by (simp add: arena_core_def kills_def)
  show "arena_live a' = live_count a'"
    using core k kills_live_count [OF k] by (simp add: arena_core_def kills_def)
  have node: "nodes a' ! i = nodes a ! i" if "live_at a' i" for i
    using that k kills_live_at [OF k, of i] by (auto simp: kills_def live_at_def)
  show "links_ok a'"
    unfolding links_ok_def
  proof (intro allI impI)
    fix i p assume i: "live_at a' i" and p: "parent_index a' i = Some p"
    have ia: "live_at a i" "i \<notin> K" using kills_live_at [OF k] i by blast+
    have pa: "parent_index a i = Some p"
      using p node [OF i] by (simp add: parent_index_def)
    from core ia(1) pa have lp: "live_at a p" "child_ok (nodes a ! p) (nodes a ! i)"
      by (auto simp: arena_core_def dest: links_okD)
    have "p \<notin> K" using closed [OF ia(1) pa] ia(2) by blast
    with lp(1) have lp': "live_at a' p" using kills_live_at [OF k] by blast
    show "live_at a' p \<and> child_ok (nodes a' ! p) (nodes a' ! i)"
      using lp' lp(2) node [OF i] node [OF lp'] by simp
  qed
  show "serials_ok a'"
    using core k node kills_live_at [OF k]
    by (simp add: serials_ok_def arena_core_def kills_def)
qed

lemma destroy_subtree_core:
  assumes "arena_core a" "live_at a r" "destroy_subtree a r = (a', d)"
  shows "arena_core a'"
  by (rule kills_core [OF assms(1) destroy_subtree_kills(1) [OF assms]])
     (auto intro: below_child)

lemma resolve_Some_iff:
  "resolve a s = Some i \<longleftrightarrow>
   i = unat (slot_node s) \<and> live_at a i \<and> node_generation (nodes a ! i) = slot_generation s"
  by (auto simp: resolve_def Let_def live_at_def iter_ops split: option.splits)

lemma resolve_kills:
  assumes "kills a K a'"
  shows "resolve a' s = (case resolve a s of None \<Rightarrow> None | Some i \<Rightarrow> if i \<in> K then None else Some i)"
proof (cases "resolve a' s")
  case (Some i)
  then have "live_at a' i" by (auto simp: resolve_Some_iff)
  then have "i \<notin> K" "live_at a i" "nodes a' ! i = nodes a ! i"
    using kills_live_at [OF assms, of i] assms by (auto simp: kills_def live_at_def)
  with Some have "resolve a s = Some i" by (auto simp: resolve_Some_iff)
  with Some \<open>i \<notin> K\<close> show ?thesis by simp
next
  case None
  show ?thesis
  proof (cases "resolve a s")
    case (Some i)
    have "i \<in> K"
    proof (rule ccontr)
      assume "i \<notin> K"
      moreover from Some have "live_at a i" by (auto simp: resolve_Some_iff)
      ultimately have "live_at a' i" "nodes a' ! i = nodes a ! i"
        using kills_live_at [OF assms, of i] assms by (auto simp: kills_def live_at_def)
      with Some have "resolve a' s = Some i" by (auto simp: resolve_Some_iff)
      with None show False by simp
    qed
    with Some None show ?thesis by simp
  qed (simp add: None)
qed

text \<open>The three outcomes of adding a node.\<close>

definition new_node ::
  "arena \<Rightarrow> nat \<Rightarrow> object_ref \<Rightarrow> rights \<Rightarrow> u64 \<Rightarrow> node_id option \<Rightarrow> u32 \<Rightarrow> location \<Rightarrow> cap_node" where
  "new_node a i object rights badge parent owner caller =
     \<lparr>node_object = object, node_rights = rights, node_badge = badge, node_parent = parent,
      node_generation = node_generation (nodes a ! i), node_owner = owner,
      node_site = Some caller, node_serial = serials a + 1, node_live = True\<rparr>"

lemma add_node_cases:
  assumes "add_node a object rights badge parent owner caller = (res, a')"
  obtains (full) "res = Error Exhausted" "a' = a" "free_index a = None"
  | (serial) "res = Panicked" "a' = a" "serials a = max_of 64"
  | (added) i where "free_index a = Some i" "serials a \<noteq> max_of 64"
      "res = Ok \<lparr>slot_node = of_nat i, slot_generation = node_generation (nodes a ! i)\<rparr>"
      "a' = a\<lparr>nodes := (nodes a)[i := new_node a i object rights badge parent owner caller],
              arena_live := arena_live a + 1, serials := serials a + 1\<rparr>"
  using assms
  by (auto simp: add_node_def new_node_def Let_def split: option.splits if_splits)

lemma free_index_free: "free_index a = Some i \<Longrightarrow> i < length (nodes a) \<and> \<not> live_at a i"
  by (auto simp: free_index_def live_at_def dest: position_SomeD)

definition parent_ok ::
  "arena \<Rightarrow> object_ref \<Rightarrow> rights \<Rightarrow> u64 \<Rightarrow> node_id option \<Rightarrow> bool" where
  "parent_ok a object rights badge parent \<longleftrightarrow> (\<forall>p. parent = Some p \<longrightarrow> live_at a (unat p) \<and>
     object = node_object (nodes a ! unat p) \<and>
     contains (node_rights (nodes a ! unat p)) rights \<and>
     contains (node_rights (nodes a ! unat p)) DERIVE \<and>
     (node_badge (nodes a ! unat p) \<noteq> 0 \<longrightarrow> badge = node_badge (nodes a ! unat p)))"

lemma add_node_core:
  assumes core: "arena_core a" and par: "parent_ok a object rights badge parent"
    and run: "add_node a object rights badge parent owner caller = (res, a')"
  shows "arena_core a'"
  using run
proof (cases rule: add_node_cases)
  case (added i)
  note fi = free_index_free [OF added(1)]
  let ?n = "new_node a i object rights badge parent owner caller"
  have nth: "nodes a' ! j = (if j = i then ?n else nodes a ! j)" for j
    using fi added(4) by (simp add: nth_list_update_if)
  have live: "live_at a' j \<longleftrightarrow> j = i \<or> live_at a j" for j
    using fi added(4) by (auto simp: live_at_def nth_list_update_if new_node_def)
  have ser: "serials_ok a" and bound: "serials a < max_of 64"
    using core added(2) by (auto simp: arena_core_def serials_ok_def)
  show ?thesis
    unfolding arena_core_def
  proof (intro conjI)
    show "length (nodes a') \<le> 2 ^ 16" using core added(4) by (simp add: arena_core_def)
    show "arena_live a' = live_count a'"
      using core fi added(4) count_if_update [of i "nodes a" node_live ?n]
      by (simp add: arena_core_def live_count_def live_at_def new_node_def)
    show "links_ok a'"
      unfolding links_ok_def
    proof (intro allI impI)
      fix j p assume j: "live_at a' j" and p: "parent_index a' j = Some p"
      show "live_at a' p \<and> child_ok (nodes a' ! p) (nodes a' ! j)"
      proof (cases "j = i")
        case True
        then obtain q where q: "parent = Some q" "p = unat q"
          using p nth [of i] by (auto simp: parent_index_def new_node_def)
        with par have lp: "live_at a p" by (simp add: parent_ok_def)
        then have "p \<noteq> i" using fi by blast
        moreover have "node_serial (nodes a ! p) \<le> serials a"
          using ser lp by (simp add: serials_ok_def)
        ultimately show ?thesis
          using True par q lp live [of p] nth [of p] nth [of i]
          by (auto simp: parent_ok_def child_ok_def new_node_def)
      next
        case False
        then have "live_at a j" using j live by blast
        moreover have "parent_index a j = Some p"
          using p False nth [of j] by (simp add: parent_index_def)
        ultimately have lp: "live_at a p" "child_ok (nodes a ! p) (nodes a ! j)"
          using core by (auto simp: arena_core_def dest: links_okD)
        then have "p \<noteq> i" using fi by blast
        with lp False live [of p] nth [of p] nth [of j] show ?thesis by auto
      qed
    qed
    show "serials_ok a'"
      unfolding serials_ok_def
    proof (intro conjI allI impI)
      show "serials a' \<le> max_of 64" using bound added(4) by simp
    next
      fix j assume "live_at a' j"
      then show "0 < node_serial (nodes a' ! j)"
        using ser live nth [of j] by (auto simp: serials_ok_def new_node_def)
    next
      fix j assume "live_at a' j"
      then show "node_serial (nodes a' ! j) \<le> serials a'"
        using ser live nth [of j] added(4) by (auto simp: serials_ok_def new_node_def intro: le_SucI)
    next
      fix j k
      assume jk: "live_at a' j" "live_at a' k" "node_serial (nodes a' ! j) = node_serial (nodes a' ! k)"
      have old: "live_at a m \<Longrightarrow> node_serial (nodes a ! m) \<noteq> Suc (serials a)" for m
        using ser by (auto simp: serials_ok_def)
      show "j = k"
        using jk live [of j] live [of k] nth [of j] nth [of k] ser old [of j] old [of k]
        by (auto simp: serials_ok_def new_node_def split: if_splits)
    qed
  qed
qed (use core in simp_all)

lemma add_node_tally: "add_node a object rights badge parent owner caller = (res, a') \<Longrightarrow> tally a' = tally a"
  by (erule add_node_cases) auto

lemma insert_root_owned_inv:
  assumes "arena_inv a" "insert_root_owned a object rights badge owner caller = (res, a')"
  shows "arena_inv a'"
  using assms add_node_core [of a object rights badge None owner caller res a']
  by (auto simp: insert_root_owned_def arena_inv_def parent_ok_def dest: add_node_tally)

text \<open>Every refusal of \<open>derive_owned\<close>, in the order the code tests them, and its success.\<close>

lemma derive_owned_cases:
  assumes "derive_owned a parent rights badge owner caller = (res, a')"
  obtains (refused) e where "res = Error e" "a' = a"
    "e \<in> {NotFound, DeriveNotPermitted, RightsNotMonotone, BadgeNotMonotone}"
  | (permitted) i where "resolve a parent = Some i"
      "parent_ok a (node_object (nodes a ! i)) rights badge (Some (slot_node parent))"
      "add_node a (node_object (nodes a ! i)) rights badge (Some (slot_node parent)) owner caller
       = (res, a')"
  using assms
  by (auto simp: derive_owned_def Let_def parent_ok_def resolve_Some_iff
      split: option.splits if_splits)

lemma derive_owned_inv:
  assumes "arena_inv a" "derive_owned a parent rights badge owner caller = (res, a')"
  shows "arena_inv a'"
  using assms(2)
proof (cases rule: derive_owned_cases)
  case (permitted i)
  with assms(1) show ?thesis
    by (auto simp: arena_inv_def dest: add_node_tally intro: add_node_core)
qed (use assms(1) in simp)

lemma destroy_subtree_inv:
  assumes "arena_inv a" "live_at a r" "destroy_subtree a r = (a', d)"
  shows "arena_inv a'"
  using assms destroy_subtree_core [of a r a' d] destroy_subtree_kills(1) [of a r a' d]
  by (auto simp: arena_inv_def kills_def)

lemma revoke_unchecked_inv:
  "arena_inv a \<Longrightarrow> revoke_unchecked a slot = (n, a') \<Longrightarrow> arena_inv a'"
  by (auto simp: revoke_unchecked_def resolve_Some_iff split: option.splits prod.splits
      dest: destroy_subtree_inv)

lemma revoke_inv: "arena_inv a \<Longrightarrow> revoke a slot = (res, a') \<Longrightarrow> arena_inv a'"
  by (auto simp: revoke_def resolve_Some_iff split: option.splits prod.splits if_splits
      dest: destroy_subtree_inv)

subsection \<open>Tallied revocation\<close>

lemma below_tally [simp]: "below (a\<lparr>tally := t\<rparr>) r i = below a r i"
proof -
  have [simp]: "live_at (a\<lparr>tally := t\<rparr>) = live_at a" "parent_index (a\<lparr>tally := t\<rparr>) = parent_index a"
    by (auto simp: live_at_def parent_index_def fun_eq_iff)
  show ?thesis
  proof
    assume "below (a\<lparr>tally := t\<rparr>) r i" then show "below a r i"
      by (induction rule: below.induct) (auto intro: below.intros)
  next
    assume "below a r i" then show "below (a\<lparr>tally := t\<rparr>) r i"
      by (induction rule: below.induct) (auto intro: below.intros)
  qed
qed

lemma live_at_tally [simp]: "live_at (a\<lparr>tally := t\<rparr>) i = live_at a i"
  by (simp add: live_at_def)

lemma arena_core_tally [simp]: "arena_core (a\<lparr>tally := t\<rparr>) = arena_core a"
  by (simp add: arena_core_def links_ok_def serials_ok_def live_count_def parent_index_def)

lemma tally_plus_tally [simp]: "tally_plus (a\<lparr>tally := t\<rparr>) = tally_plus a"
  by (simp add: tally_plus_def charged_def fun_eq_iff)

lemma kills_collect:
  assumes "arena_inv a" "kills (a\<lparr>tally := Some t\<rparr>) K b" "tally_wf t" "collect b t = (a', t')"
  shows "kills a K a'" and "t' = tally_plus a K t"
  using assms
  by (auto simp: collect_def kills_def arena_inv_def live_at_def [abs_def] split: option.splits)

lemma revoke_tallied_kills:
  assumes "arena_inv a" "tally_wf t" "resolve a slot = Some r"
    and "contains (node_rights (nodes a ! r)) REVOKE"
    and "revoke_tallied a slot t = (res, a', t')"
  shows "kills a {i. below a r i} a'" "t' = tally_plus a {i. below a r i} t"
    "res = Ok (card {i. below a r i})" "arena_inv a'"
proof -
  obtain b d where b: "destroy_subtree (a\<lparr>tally := Some t\<rparr>) r = (b, d)" by force
  have live: "live_at a r" using assms(3) by (auto simp: resolve_Some_iff)
  have core: "arena_core (a\<lparr>tally := Some t\<rparr>)" using assms(1) by (simp add: arena_inv_def)
  have k: "kills (a\<lparr>tally := Some t\<rparr>) {i. below a r i} b" and d: "d = card {i. below a r i}"
    using destroy_subtree_kills [OF core _ b] live by simp_all
  have run: "collect b t = (a', t')" "res = Ok d"
    using assms(3-5) b by (auto simp: revoke_tallied_def split: prod.splits)
  show "kills a {i. below a r i} a'" "t' = tally_plus a {i. below a r i} t"
    using kills_collect [OF assms(1) k assms(2) run(1)] by simp_all
  from kills_core [OF _ this(1)] this(1) show "arena_inv a'"
    using assms(1) by (auto simp: arena_inv_def kills_def [of _ _ a'] intro: below_child)
  show "res = Ok (card {i. below a r i})" using run(2) d by simp
qed

lemma revoke_tallied_inv:
  assumes "arena_inv a" "tally_wf t" "revoke_tallied a slot t = (res, a', t')"
  shows "arena_inv a'"
proof (cases "\<exists>r. resolve a slot = Some r \<and> contains (node_rights (nodes a ! r)) REVOKE")
  case True
  with revoke_tallied_kills(4) [OF assms(1,2) _ _ assms(3)] show ?thesis by blast
next
  case False
  with assms show ?thesis by (auto simp: revoke_tallied_def split: option.splits if_splits)
qed

subsection \<open>Revoking every root that names an object\<close>

lemma tally_plus_trans:
  assumes k: "kills a K b" and l: "kills b L c"
  shows "tally_plus b L (tally_plus a K t) = tally_plus a (K \<union> L) t"
proof -
  have owner: "node_owner (nodes b ! i) = node_owner (nodes a ! i)" if "i < length (nodes a)" for i
    using k that by (simp add: kills_def dead_def)
  have disj: "K \<inter> L = {}" using k l kills_live_at [OF k] by (auto simp: kills_def)
  have fin: "finite K" "finite L" using kills_finite [OF k] kills_finite [OF l] by simp_all
  have len: "i \<in> L \<Longrightarrow> i < length (nodes a)" for i
    using k l by (auto simp: kills_def live_at_def)
  have "charged a (K \<union> L) owner = charged a K owner + charged b L owner" for owner
  proof -
    have "{i \<in> K \<union> L. unat (node_owner (nodes a ! i)) = owner}
        = {i \<in> K. unat (node_owner (nodes a ! i)) = owner}
          \<union> {i \<in> L. unat (node_owner (nodes b ! i)) = owner}"
      using owner len by auto
    moreover have "{i \<in> K. unat (node_owner (nodes a ! i)) = owner}
          \<inter> {i \<in> L. unat (node_owner (nodes b ! i)) = owner} = {}"
      using disj by auto
    ultimately show ?thesis using fin by (simp add: charged_def card_Un_disjoint)
  qed
  then show ?thesis by (simp add: tally_plus_def min_def)
qed

lemma kills_trans:
  assumes k: "kills a K b" and l: "kills b L c"
  shows "kills a (K \<union> L) c"
proof -
  have disj: "K \<inter> L = {}" using k l kills_live_at [OF k] by (auto simp: kills_def)
  have fin: "finite K" "finite L" using kills_finite [OF k] kills_finite [OF l] by simp_all
  have live: "\<forall>i \<in> K \<union> L. live_at a i"
    using k l kills_live_at [OF k] by (auto simp: kills_def)
  have nth: "\<forall>i < length (nodes a). nodes c ! i = (if i \<in> K \<union> L then dead (nodes a ! i) else nodes a ! i)"
    using k l disj by (auto simp: kills_def)
  have tal: "tally c = Some (tally_plus a (K \<union> L) t)" if "tally a = Some t" "tally_wf t" for t
    using k l that tally_plus_wf tally_plus_trans [OF k l, of t] by (simp add: kills_def)
  show ?thesis
    using k l live nth tal card_Un_disjoint [OF fin disj] by (simp add: kills_def)
qed

lemma below_kills:
  assumes k: "kills a K b" and root: "live_at b r"
    and closed: "\<And>i p. live_at a i \<Longrightarrow> parent_index a i = Some p \<Longrightarrow> p \<in> K \<Longrightarrow> i \<in> K"
  shows "K \<union> {i. below b r i} = K \<union> {i. below a r i}"
proof -
  note live = kills_live_at [OF k]
  have par: "live_at a i \<Longrightarrow> parent_index b i = parent_index a i" for i
    using kills_parent [OF k] by (auto simp: live_at_def)
  have "below a r i" if "below b r i" for i
    using that by (induction rule: below.induct) (auto intro: below.intros simp: live par)
  moreover have "i \<in> K \<or> below b r i" if "below a r i" for i
    using that
  proof (induction rule: below.induct)
    case below_refl
    then show ?case using root by (auto intro: below.intros)
  next
    case (below_child p i)
    show ?case
    proof (cases "p \<in> K \<or> i \<in> K")
      case True
      then show ?thesis using closed [OF below_child.hyps(2,3)] by blast
    next
      case False
      then have "below b r p" "live_at b i" "parent_index b i = Some p"
        using below_child live par by auto
      then show ?thesis by (blast intro: below.below_child)
    qed
  qed
  ultimately show ?thesis by blast
qed

end
