(* ===== verification/CapabilityProps.thy ===== *)
theory CapabilityProps
  imports CapabilityInv
begin

text \<open>
  The arena as a state machine, and the properties that make the capability system correct:
  the rules of \<^verbatim>\<open>docs/security.md\<close> section 2 as theorems about every reachable arena.
\<close>

subsection \<open>The order of authority along the tree\<close>

lemma contains_refl [simp]: "contains r r"
  by (simp add: contains_def)

lemma contains_trans: "contains a b \<Longrightarrow> contains b c \<Longrightarrow> contains a c"
  unfolding contains_def by (metis and.assoc)

lemma below_inherits:
  assumes "links_ok a"
  shows "below a r i \<Longrightarrow>
    node_object (nodes a ! i) = node_object (nodes a ! r) \<and>
    contains (node_rights (nodes a ! r)) (node_rights (nodes a ! i)) \<and>
    (node_badge (nodes a ! r) \<noteq> 0 \<longrightarrow> node_badge (nodes a ! i) = node_badge (nodes a ! r)) \<and>
    (i \<noteq> r \<longrightarrow> contains (node_rights (nodes a ! r)) DERIVE)"
proof (induction rule: below.induct)
  case (below_child p i)
  from links_okD [OF assms below_child.hyps(2,3)] have "child_ok (nodes a ! p) (nodes a ! i)" by simp
  with below_child.IH show ?case
    by (auto simp: child_ok_def intro: contains_trans)
qed simp

lemma root_exists:
  assumes core: "arena_core a"
  shows "live_at a i \<Longrightarrow> \<exists>r. below a r i \<and> node_parent (nodes a ! r) = None"
proof (induction "node_serial (nodes a ! i)" arbitrary: i rule: less_induct)
  case less
  show ?case
  proof (cases "parent_index a i")
    case None
    with less.prems show ?thesis by (auto simp: parent_index_def intro: below_refl)
  next
    case (Some p)
    with core less.prems have p: "live_at a p" "child_ok (nodes a ! p) (nodes a ! i)"
      by (auto simp: arena_core_def dest: links_okD)
    then obtain r where "below a r p" "node_parent (nodes a ! r) = None"
      using less.hyps [of p] by (auto simp: child_ok_def)
    with less.prems Some show ?thesis by (blast intro: below_child)
  qed
qed

subsection \<open>The death of an object reaches every name for it\<close>

definition named_below :: "arena \<Rightarrow> object_ref \<Rightarrow> nat \<Rightarrow> nat set" where
  "named_below a object j = {i. \<exists>r < j. naming_root a object r \<and> below a r i}"

lemma named_below_closed:
  "live_at a i \<Longrightarrow> parent_index a i = Some p \<Longrightarrow> p \<in> named_below a ob j \<Longrightarrow> i \<in> named_below a ob j"
  by (auto simp: named_below_def intro: below_child)

lemma named_below_Suc:
  "named_below a ob (Suc j)
   = named_below a ob j \<union> (if naming_root a ob j then {i. below a j i} else {})"
  by (auto simp: named_below_def less_Suc_eq)

lemma below_at_root: "below a r i \<Longrightarrow> node_parent (nodes a ! i) = None \<Longrightarrow> r = i"
  by (auto elim: below.cases simp: parent_index_def)

lemma naming_one_apply:
  "naming_one ob i (a, d) =
     (if naming_root a ob i then (fst (destroy_subtree a i), d + snd (destroy_subtree a i)) else (a, d))"
  by (simp add: naming_one_def split: prod.splits)

lemma naming_fold:
  assumes core: "arena_core a"
  shows "j \<le> length (nodes a) \<Longrightarrow> fold (naming_one ob) [0..<j] (a, 0) = (b, d) \<Longrightarrow>
    kills a (named_below a ob j) b \<and> d = card (named_below a ob j)"
proof (induction j arbitrary: b d)
  case 0
  then show ?case by (simp add: named_below_def kills_empty)
next
  case (Suc j)
  obtain c e where c: "fold (naming_one ob) [0..<j] (a, 0) = (c, e)" by force
  let ?K = "named_below a ob j"
  from Suc.IH [OF _ c] Suc.prems(1) have k: "kills a ?K c" and e: "e = card ?K" by auto
  have step: "naming_one ob j (c, e) = (b, d)" using Suc.prems(2) c by simp
  have len: "length (nodes c) = length (nodes a)" "j < length (nodes a)"
    using k Suc.prems(1) by (auto simp: kills_def)
  have same: "j \<notin> ?K \<Longrightarrow> nodes c ! j = nodes a ! j"
    and gone: "j \<in> ?K \<Longrightarrow> \<not> node_live (nodes c ! j)"
    using k len by (auto simp: kills_def dead_def)
  have notK: "naming_root a ob j \<Longrightarrow> j \<notin> ?K"
    by (auto simp: named_below_def naming_root_def dest: below_at_root)
  have root: "naming_root c ob j \<longleftrightarrow> naming_root a ob j"
    using same gone notK by (cases "j \<in> ?K") (auto simp: naming_root_def)
  show ?case
  proof (cases "naming_root a ob j")
    case True
    obtain f g where f: "destroy_subtree c j = (f, g)" by force
    have b: "b = f" "d = e + g" using step True root f by (simp_all add: naming_one_apply)
    have live: "live_at c j" using True root len by (simp add: naming_root_def live_at_def)
    have cc: "arena_core c" by (rule kills_core [OF core k]) (rule named_below_closed)
    note kk = destroy_subtree_kills [OF cc live f]
    have un: "?K \<union> {i. below c j i} = named_below a ob (Suc j)"
      using below_kills [OF k live] True by (simp add: named_below_Suc named_below_closed)
    have "?K \<inter> {i. below c j i} = {}"
      using kills_live_at [OF k] by (auto dest: below_live)
    then have "card (named_below a ob (Suc j)) = card ?K + g"
      using card_Un_disjoint [OF kills_finite [OF k] kills_finite [OF kk(1)]] kk(2) un by simp
    with kills_trans [OF k kk(1)] un b e show ?thesis by simp
  next
    case False
    with step root k e show ?thesis by (simp add: naming_one_apply named_below_Suc)
  qed
qed

lemma named_below_all:
  assumes core: "arena_core a"
  shows "named_below a ob (length (nodes a)) = {i. live_at a i \<and> node_object (nodes a ! i) = ob}"
proof (intro set_eqI iffI)
  fix i assume "i \<in> named_below a ob (length (nodes a))"
  then obtain r where "naming_root a ob r" "below a r i" by (auto simp: named_below_def)
  with below_inherits [of a r i] core show "i \<in> {i. live_at a i \<and> node_object (nodes a ! i) = ob}"
    by (auto simp: naming_root_def arena_core_def dest: below_live)
next
  fix i assume "i \<in> {i. live_at a i \<and> node_object (nodes a ! i) = ob}"
  then have i: "live_at a i" "node_object (nodes a ! i) = ob" by auto
  obtain r where r: "below a r i" "node_parent (nodes a ! r) = None"
    using root_exists [OF core i(1)] by blast
  with below_inherits [of a r i] core i have "naming_root a ob r"
    by (auto simp: naming_root_def arena_core_def live_at_def dest!: below_live)
  moreover have "r < length (nodes a)" using r(1) by (auto dest!: below_live simp: live_at_def)
  ultimately show "i \<in> named_below a ob (length (nodes a))"
    using r(1) by (auto simp: named_below_def)
qed

lemma naming_root_tally [simp]: "naming_root (a\<lparr>tally := t\<rparr>) ob i = naming_root a ob i"
  by (simp add: naming_root_def)

lemma revoke_roots_naming_kills:
  assumes inv: "arena_inv a" and wf: "tally_wf t"
    and run: "revoke_roots_naming a ob t = (n, a', t')"
  defines "K \<equiv> {i. live_at a i \<and> node_object (nodes a ! i) = ob}"
  shows "kills a K a'" and "n = card K" and "t' = tally_plus a K t" and "arena_inv a'"
proof -
  let ?b = "a\<lparr>tally := Some t\<rparr>"
  have core: "arena_core ?b" using inv by (simp add: arena_inv_def)
  obtain c d where c: "fold (naming_one ob) [0..<length (nodes a)] (?b, 0) = (c, d)" by force
  have K: "named_below ?b ob (length (nodes ?b)) = K"
    unfolding named_below_all [OF core] by (simp add: K_def)
  have k: "kills ?b K c" and d: "d = card K"
    using naming_fold [OF core, of "length (nodes ?b)" ob c d] c K by simp_all
  have fin: "collect c t = (a', t')" "n = d"
    using run c by (auto simp: revoke_roots_naming_def split: prod.splits)
  show ka: "kills a K a'" and "t' = tally_plus a K t"
    using kills_collect [OF inv k wf fin(1)] by simp_all
  show "n = card K" using fin d by simp
  have "arena_core a'"
  proof (rule kills_core [OF _ ka])
    show "arena_core a" using inv by (simp add: arena_inv_def)
    fix i p assume "live_at a i" "parent_index a i = Some p" "p \<in> K"
    with inv show "i \<in> K"
      by (auto simp: K_def arena_inv_def arena_core_def child_ok_def dest!: links_okD)
  qed
  with ka inv show "arena_inv a'" by (simp add: arena_inv_def kills_def)
qed

subsection \<open>The arena as a state machine\<close>

inductive arena_step :: "arena \<Rightarrow> arena \<Rightarrow> bool" where
  step_insert: "insert_root_owned a object rights badge owner caller = (res, a') \<Longrightarrow> arena_step a a'"
| step_derive: "derive_owned a parent rights badge owner caller = (res, a') \<Longrightarrow> arena_step a a'"
| step_revoke: "revoke a slot = (res', a') \<Longrightarrow> arena_step a a'"
| step_unchecked: "revoke_unchecked a slot = (n, a') \<Longrightarrow> arena_step a a'"
| step_tallied: "tally_wf t \<Longrightarrow> revoke_tallied a slot t = (res', a', t') \<Longrightarrow> arena_step a a'"
| step_naming: "tally_wf t \<Longrightarrow> revoke_roots_naming a object t = (n, a', t') \<Longrightarrow> arena_step a a'"

inductive arena_reachable :: "nat \<Rightarrow> arena \<Rightarrow> bool" for n where
  reach_new: "n \<le> 2 ^ 16 \<Longrightarrow> arena_reachable n (arena_of_size n)"
| reach_step: "arena_reachable n a \<Longrightarrow> arena_step a b \<Longrightarrow> arena_reachable n b"

lemma arena_of_size_inv: "n \<le> 2 ^ 16 \<Longrightarrow> arena_inv (arena_of_size n)"
  by (auto simp: arena_inv_def arena_core_def arena_of_size_def live_count_def links_ok_def
      serials_ok_def live_at_def free_node_def)

lemma arena_step_inv: "arena_step a b \<Longrightarrow> arena_inv a \<Longrightarrow> arena_inv b"
  by (induction rule: arena_step.induct)
     (blast intro: insert_root_owned_inv derive_owned_inv revoke_inv revoke_unchecked_inv
        revoke_tallied_inv revoke_roots_naming_kills(4))+

lemma arena_reachable_inv: "arena_reachable n a \<Longrightarrow> arena_inv a"
  by (induction rule: arena_reachable.induct) (auto intro: arena_of_size_inv arena_step_inv)

text \<open>What a step does to the nodes that were there: nothing, or it destroys them.\<close>

definition keeps_old :: "arena \<Rightarrow> arena \<Rightarrow> bool" where
  "keeps_old a b \<longleftrightarrow> serials a \<le> serials b \<and>
     (\<forall>j. live_at b j \<longrightarrow> node_serial (nodes b ! j) \<le> serials a \<longrightarrow>
        live_at a j \<and> nodes b ! j = nodes a ! j)"

lemma keeps_old_refl: "keeps_old a a"
  by (simp add: keeps_old_def)

lemma keeps_old_trans: "keeps_old a b \<Longrightarrow> keeps_old b c \<Longrightarrow> keeps_old a c"
  unfolding keeps_old_def by (metis le_trans)

lemma kills_keeps_old: "kills a K b \<Longrightarrow> keeps_old a b"
  by (auto simp: keeps_old_def kills_live_at) (auto simp: kills_def live_at_def)

lemma add_node_keeps_old:
  "add_node a object rights badge parent owner caller = (res, b) \<Longrightarrow> keeps_old a b"
  by (erule add_node_cases)
     (auto simp: keeps_old_def live_at_def nth_list_update_if new_node_def split: if_splits)

lemma revoke_kills:
  assumes inv: "arena_inv a" and slot: "resolve a slot = Some r"
    and right: "contains (node_rights (nodes a ! r)) REVOKE"
    and run: "revoke a slot = (res, b)"
  shows "kills a {i. below a r i} b" "res = Ok (card {i. below a r i})"
proof -
  obtain c d where c: "destroy_subtree a r = (c, d)" by force
  have "live_at a r" using slot by (auto simp: resolve_Some_iff)
  note k = destroy_subtree_kills [OF _ this c]
  have "b = c" "res = Ok d" using run slot right c by (simp_all add: revoke_def)
  with k inv show "kills a {i. below a r i} b" "res = Ok (card {i. below a r i})"
    by (simp_all add: arena_inv_def)
qed

lemma revoke_unchecked_kills:
  assumes inv: "arena_inv a" and slot: "resolve a slot = Some r"
    and run: "revoke_unchecked a slot = (n, b)"
  shows "kills a {i. below a r i} b" "n = card {i. below a r i}"
proof -
  obtain c d where c: "destroy_subtree a r = (c, d)" by force
  have "live_at a r" using slot by (auto simp: resolve_Some_iff)
  note k = destroy_subtree_kills [OF _ this c]
  have "b = c" "n = d" using run slot c by (simp_all add: revoke_unchecked_def)
  with k inv show "kills a {i. below a r i} b" "n = card {i. below a r i}"
    by (simp_all add: arena_inv_def)
qed

lemma arena_step_keeps_old: "arena_step a b \<Longrightarrow> arena_inv a \<Longrightarrow> keeps_old a b"
proof (induction rule: arena_step.induct)
  case (step_insert a object rights badge owner caller res a')
  then show ?case by (auto simp: insert_root_owned_def intro: add_node_keeps_old)
next
  case (step_derive a parent rights badge owner caller res a')
  from step_derive.hyps show ?case
    by (cases rule: derive_owned_cases) (auto intro: keeps_old_refl add_node_keeps_old)
next
  case (step_revoke a slot res a')
  show ?case
  proof (cases "\<exists>r. resolve a slot = Some r \<and> contains (node_rights (nodes a ! r)) REVOKE")
    case True
    with step_revoke show ?thesis by (blast intro: kills_keeps_old revoke_kills(1))
  next
    case False
    with step_revoke have "a' = a" by (auto simp: revoke_def split: option.splits if_splits)
    then show ?thesis by (simp add: keeps_old_refl)
  qed
next
  case (step_unchecked a slot n a')
  show ?case
  proof (cases "resolve a slot")
    case (Some r)
    with step_unchecked show ?thesis by (blast intro: kills_keeps_old revoke_unchecked_kills(1))
  next
    case None
    with step_unchecked show ?thesis by (simp add: revoke_unchecked_def keeps_old_refl)
  qed
next
  case (step_tallied t a slot res a' t')
  show ?case
  proof (cases "\<exists>r. resolve a slot = Some r \<and> contains (node_rights (nodes a ! r)) REVOKE")
    case True
    with step_tallied show ?thesis by (blast intro: kills_keeps_old revoke_tallied_kills(1))
  next
    case False
    with step_tallied have "a' = a" by (auto simp: revoke_tallied_def split: option.splits if_splits)
    then show ?thesis by (simp add: keeps_old_refl)
  qed
next
  case (step_naming t a object n a' t')
  then show ?case by (blast intro: kills_keeps_old revoke_roots_naming_kills(1))
qed

lemma arena_steps_keep_old:
  "arena_step\<^sup>*\<^sup>* a b \<Longrightarrow> arena_inv a \<Longrightarrow> arena_inv b \<and> keeps_old a b"
  by (induction rule: rtranclp_induct)
     (auto intro: keeps_old_refl keeps_old_trans arena_step_inv arena_step_keeps_old)

subsection \<open>An arena to evaluate\<close>

definition ex_object :: object_ref where
  "ex_object = \<lparr>obj_kind = Endpoint, obj_id = 7\<rparr>"

definition ex_ref :: "nat \<Rightarrow> slot_ref" where
  "ex_ref i = \<lparr>slot_node = of_nat i, slot_generation = 0\<rparr>"

text \<open>A root, a badged child charged to owner 1, a grandchild charged to owner 2, another root.\<close>

definition ex1 :: arena where
  "ex1 = snd (insert_root_owned (arena_of_size 5) ex_object ALL_RIGHTS 0 OWNER_KERNEL ''boot'')"
definition ex2 :: arena where
  "ex2 = snd (derive_owned ex1 (ex_ref 0) (DERIVE OR READ OR REVOKE) 5 1 ''grant'')"
definition ex3 :: arena where
  "ex3 = snd (derive_owned ex2 (ex_ref 1) READ 5 2 ''pass on'')"
definition ex4 :: arena where
  "ex4 = snd (insert_root_owned ex3 \<lparr>obj_kind = Memory, obj_id = 9\<rparr> ALL_RIGHTS 0 2 ''frame'')"

lemma step_insert_snd: "arena_step a (snd (insert_root_owned a object rights badge owner caller))"
  by (rule step_insert) (rule prod.collapse [symmetric])

lemma step_derive_snd: "arena_step a (snd (derive_owned a parent rights badge owner caller))"
  by (rule step_derive) (rule prod.collapse [symmetric])

lemma ex_reachable:
  "arena_reachable 5 ex1" "arena_reachable 5 ex2" "arena_reachable 5 ex3" "arena_reachable 5 ex4"
proof -
  show 1: "arena_reachable 5 ex1"
    unfolding ex1_def by (rule reach_step [OF reach_new step_insert_snd]) simp
  show 2: "arena_reachable 5 ex2"
    unfolding ex2_def by (rule reach_step [OF 1 step_derive_snd])
  show 3: "arena_reachable 5 ex3"
    unfolding ex3_def by (rule reach_step [OF 2 step_derive_snd])
  show "arena_reachable 5 ex4"
    unfolding ex4_def by (rule reach_step [OF 3 step_insert_snd])
qed

lemmas ex_eval = ex_object_def ex_ref_def insert_root_owned_def derive_owned_def add_node_def
  free_index_def arena_of_size_def free_node_def resolve_def get_def max_of_def contains_def
  rights_defs Let_def OWNER_KERNEL_def

lemma replicate_5: "replicate 5 x = [x, x, x, x, x]"
  by (simp add: numeral_eq_Suc)

definition ex_node :: "object_ref \<Rightarrow> rights \<Rightarrow> u64 \<Rightarrow> node_id option \<Rightarrow> u32 \<Rightarrow> location \<Rightarrow> nat \<Rightarrow> cap_node" where
  "ex_node ob r b p ow site s = \<lparr>node_object = ob, node_rights = r, node_badge = b, node_parent = p,
     node_generation = 0, node_owner = ow, node_site = Some site, node_serial = s, node_live = True\<rparr>"

lemma ex1_eq: "ex1 = \<lparr>nodes = [ex_node ex_object 0x3F 0 None 0xFFFFFFFF ''boot'' 1,
    free_node, free_node, free_node, free_node], arena_live = 1, tally = None, serials = 1\<rparr>"
  by (simp add: ex1_def ex_eval replicate_5 ex_node_def)

lemma ex2_eq: "ex2 = \<lparr>nodes = [ex_node ex_object 0x3F 0 None 0xFFFFFFFF ''boot'' 1,
    ex_node ex_object 0x31 5 (Some 0) 1 ''grant'' 2,
    free_node, free_node, free_node], arena_live = 2, tally = None, serials = 2\<rparr>"
  by (simp add: ex2_def ex1_eq ex_eval ex_node_def)

lemma ex3_eq: "ex3 = \<lparr>nodes = [ex_node ex_object 0x3F 0 None 0xFFFFFFFF ''boot'' 1,
    ex_node ex_object 0x31 5 (Some 0) 1 ''grant'' 2,
    ex_node ex_object 1 5 (Some 1) 2 ''pass on'' 3,
    free_node, free_node], arena_live = 3, tally = None, serials = 3\<rparr>"
  by (simp add: ex3_def ex2_eq ex_eval ex_node_def)

lemma ex4_eq: "ex4 = \<lparr>nodes = [ex_node ex_object 0x3F 0 None 0xFFFFFFFF ''boot'' 1,
    ex_node ex_object 0x31 5 (Some 0) 1 ''grant'' 2,
    ex_node ex_object 1 5 (Some 1) 2 ''pass on'' 3,
    ex_node \<lparr>obj_kind = Memory, obj_id = 9\<rparr> 0x3F 0 None 2 ''frame'' 4,
    free_node], arena_live = 4, tally = None, serials = 4\<rparr>"
  by (simp add: ex4_def ex3_eq ex_eval ex_node_def)

lemma ex4_resolves: "resolve ex4 (ex_ref 0) = Some 0" "resolve ex4 (ex_ref 1) = Some 1"
    "resolve ex4 (ex_ref 2) = Some 2"
  by (simp_all add: ex4_eq ex_node_def ex_eval)

lemma ex4_revokable: "contains (node_rights (nodes ex4 ! 1)) REVOKE"
  by (simp add: ex4_eq ex_node_def ex_eval)

lemma ex4_shape: "live_at ex4 0" "live_at ex4 1" "live_at ex4 2"
    "parent_index ex4 1 = Some 0" "parent_index ex4 2 = Some 1"
  by (simp_all add: ex4_eq ex_node_def live_at_def parent_index_def)

lemma ex4_below: "below ex4 0 1" "below ex4 1 2"
  using below_child [OF below_refl [OF ex4_shape(1)] ex4_shape(2,4)]
    below_child [OF below_refl [OF ex4_shape(2)] ex4_shape(3,5)]
  by simp_all

subsection \<open>Properties\<close>

lemma unat_node_id: "i < 2 ^ 16 \<Longrightarrow> unat (of_nat i :: node_id) = i"
  by (simp add: unat_of_nat)

lemma resolve_added:
  assumes core: "arena_core a"
    and run: "add_node a object rights badge parent owner caller = (Ok s, a')"
  obtains i where "free_index a = Some i" "resolve a' s = Some i"
    "nodes a' ! i = new_node a i object rights badge parent owner caller"
    "\<And>x. resolve a x \<noteq> None \<Longrightarrow> resolve a' x = resolve a x \<and>
         nodes a' ! the (resolve a x) = nodes a ! the (resolve a x)"
  using run
proof (cases rule: add_node_cases)
  case (added i)
  note fi = free_index_free [OF added(1)]
  have small: "i < 2 ^ 16" using fi core by (simp add: arena_core_def)
  have "s = \<lparr>slot_node = of_nat i, slot_generation = node_generation (nodes a ! i)\<rparr>"
    using added(3) by simp
  then have new: "resolve a' s = Some i"
    using fi added(4) small
    by (auto simp: resolve_Some_iff live_at_def new_node_def unat_node_id)
  have old: "resolve a' x = resolve a x \<and> nodes a' ! the (resolve a x) = nodes a ! the (resolve a x)"
    if x: "resolve a x \<noteq> None" for x
  proof -
    from x obtain j where j: "resolve a x = Some j" by auto
    then have "live_at a j" by (auto simp: resolve_Some_iff)
    with fi have "j \<noteq> i" by auto
    then have same: "nodes a' ! j = nodes a ! j" and len: "length (nodes a') = length (nodes a)"
      using added(4) by simp_all
    with j have "resolve a' x = Some j" by (auto simp: resolve_Some_iff live_at_def)
    with j same show ?thesis by simp
  qed
  show thesis
    by (rule that [OF added(1) new]) (use fi added(4) old in auto)
qed simp_all

text \<open>
  C2. Revocation (rule 3 of \<^verbatim>\<open>docs/security.md\<close>). In every reachable arena, revoking a live
  capability that carries the \<open>REVOKE\<close> right succeeds, and when it returns exactly the references
  to the revoked node and to nodes derived from it, transitively, have stopped resolving. Every
  other reference in every domain resolves as before, to an unchanged node. The returned number
  is the number of capabilities destroyed.
\<close>

theorem revoke_exact:
  assumes "arena_reachable n a" and "resolve a slot = Some r"
    and "contains (node_rights (nodes a ! r)) REVOKE"
  shows "\<exists>a'. revoke a slot = (Ok (card {i. below a r i}), a') \<and>
     (\<forall>s. resolve a' s = (case resolve a s of
            None \<Rightarrow> None | Some i \<Rightarrow> if below a r i then None else Some i)) \<and>
     (\<forall>i. live_at a' i \<longrightarrow> nodes a' ! i = nodes a ! i) \<and>
     arena_live a' + card {i. below a r i} = arena_live a"
proof -
  obtain res a' where run: "revoke a slot = (res, a')" by force
  note inv = arena_reachable_inv [OF assms(1)]
  note k = revoke_kills [OF inv assms(2,3) run]
  have inv': "arena_inv a'" by (rule revoke_inv [OF inv run])
  have nodes: "\<forall>i. live_at a' i \<longrightarrow> nodes a' ! i = nodes a ! i"
    using k(1) kills_live_at [OF k(1)] by (auto simp: kills_def live_at_def)
  have count: "arena_live a' + card {i. below a r i} = arena_live a"
    using kills_live_count [OF k(1)] inv inv' by (simp add: arena_inv_def arena_core_def)
  show ?thesis
    using run k(2) resolve_kills [OF k(1)] nodes count by (simp cong: option.case_cong)
qed

theorem revoke_exact_witness:
  "\<exists>a'. revoke ex4 (ex_ref 1) = (Ok (card {i. below ex4 1 i}), a') \<and>
     resolve a' (ex_ref 1) = None \<and> resolve a' (ex_ref 2) = None"
  using revoke_exact [OF ex_reachable(4) ex4_resolves(2) ex4_revokable] ex4_resolves
    ex4_below below_refl [OF ex4_shape(2)]
  by auto

text \<open>
  C11. Monotone derivation at every depth (rules 2 and 4). In every reachable arena a capability
  derived from another, through any number of steps, names the same object, carries a subset of
  its rights, exists only if the ancestor permits derivation, and carries the ancestor's badge
  unless the ancestor is an unbadged master.
\<close>

theorem authority_monotone:
  assumes "arena_reachable n a" and "below a r i"
  shows "node_object (nodes a ! i) = node_object (nodes a ! r) \<and>
    contains (node_rights (nodes a ! r)) (node_rights (nodes a ! i)) \<and>
    (node_badge (nodes a ! r) \<noteq> 0 \<longrightarrow> node_badge (nodes a ! i) = node_badge (nodes a ! r)) \<and>
    (i \<noteq> r \<longrightarrow> contains (node_rights (nodes a ! r)) DERIVE)"
  using below_inherits [OF _ assms(2)] arena_reachable_inv [OF assms(1)]
  by (simp add: arena_inv_def arena_core_def)

theorem authority_monotone_witness:
  "contains (node_rights (nodes ex4 ! 0)) (node_rights (nodes ex4 ! 2)) \<and>
   contains (node_rights (nodes ex4 ! 0)) DERIVE"
  using authority_monotone [OF ex_reachable(4) below_trans [OF ex4_below(2,1)]] by simp

text \<open>
  C12. Quota accounting. A tallied revocation destroys the same subtree and adds to every owner's
  count exactly the number of destroyed capabilities charged to that owner, saturating at the
  width of the counter; owners outside the table (the kernel's own) are not counted.
\<close>

theorem revoke_tallied_accounts:
  assumes "arena_reachable n a" and "tally_wf t" and "resolve a slot = Some r"
    and "contains (node_rights (nodes a ! r)) REVOKE"
  shows "\<exists>a' t'. revoke_tallied a slot t = (Ok (card {i. below a r i}), a', t') \<and>
     length t' = MAX_OWNERS \<and>
     (\<forall>owner < MAX_OWNERS. t' ! owner =
        min (t ! owner + card {i. below a r i \<and> unat (node_owner (nodes a ! i)) = owner}) (max_of 32)) \<and>
     (\<forall>s. resolve a' s = (case resolve a s of
            None \<Rightarrow> None | Some i \<Rightarrow> if below a r i then None else Some i)) \<and>
     arena_inv a'"
proof -
  obtain res a' t' where run: "revoke_tallied a slot t = (res, a', t')" by (metis prod_cases3)
  note k = revoke_tallied_kills [OF arena_reachable_inv [OF assms(1)] assms(2-4) run]
  show ?thesis
    using run k resolve_kills [OF k(1)]
    by (simp add: tally_plus_def charged_def cong: option.case_cong)
qed

lemma tally_wf_zero: "tally_wf (replicate MAX_OWNERS 0)"
  by (simp add: tally_wf_def)

theorem revoke_tallied_accounts_witness:
  "\<exists>a' t'. revoke_tallied ex4 (ex_ref 1) (replicate MAX_OWNERS 0)
        = (Ok (card {i. below ex4 1 i}), a', t') \<and> resolve a' (ex_ref 2) = None"
  using revoke_tallied_accounts [OF ex_reachable(4) tally_wf_zero ex4_resolves(2) ex4_revokable]
    ex4_resolves ex4_below
  by (auto split: option.splits)

text \<open>
  C13. The death of an object reaches its names. Revoking the roots that name an object leaves
  no live capability naming it, in any domain's capability space, and destroys no other
  capability; the count returned is the number of capabilities that named it.
\<close>

theorem object_death_reaches_names:
  assumes "arena_reachable n a" and "tally_wf t"
  shows "\<exists>a' t'. revoke_roots_naming a object t
       = (card {i. live_at a i \<and> node_object (nodes a ! i) = object}, a', t') \<and>
     (\<forall>slots. \<not> names slots object a') \<and>
     (\<forall>s. cap_lookup a' s = (case cap_lookup a s of
            None \<Rightarrow> None | Some (ob, r) \<Rightarrow> if ob = object then None else Some (ob, r))) \<and>
     arena_inv a'"
proof -
  obtain m a' t' where run: "revoke_roots_naming a object t = (m, a', t')" by (metis prod_cases3)
  note k = revoke_roots_naming_kills [OF arena_reachable_inv [OF assms(1)] assms(2) run]
  have same: "nodes a' ! i = nodes a ! i" if "live_at a' i" for i
    using that k(1) kills_live_at [OF k(1)] by (auto simp: kills_def live_at_def)
  have look: "cap_lookup a' s = (case cap_lookup a s of
            None \<Rightarrow> None | Some (ob, r) \<Rightarrow> if ob = object then None else Some (ob, r))" for s
  proof (cases "resolve a s")
    case None
    then show ?thesis by (simp add: cap_lookup_def resolve_kills [OF k(1)])
  next
    case (Some i)
    then have i: "live_at a i" by (auto simp: resolve_Some_iff)
    show ?thesis
    proof (cases "node_object (nodes a ! i) = object")
      case True
      with Some i show ?thesis by (simp add: cap_lookup_def resolve_kills [OF k(1)])
    next
      case False
      then have "live_at a' i" using i kills_live_at [OF k(1)] by blast
      with Some i False show ?thesis by (simp add: cap_lookup_def resolve_kills [OF k(1)] same)
    qed
  qed
  have "\<not> names slots object a'" for slots
    by (auto simp: names_def list_ex_iff map_filter_def look split: option.splits if_splits)
  with run k look show ?thesis by simp
qed

theorem object_death_reaches_names_witness:
  "\<exists>a' t'. revoke_roots_naming ex4 ex_object (replicate MAX_OWNERS 0)
       = (card {i. live_at ex4 i \<and> node_object (nodes ex4 ! i) = ex_object}, a', t') \<and>
     \<not> names [Some (ex_ref 0), Some (ex_ref 2)] ex_object a'"
  using object_death_reaches_names [OF ex_reachable(4) tally_wf_zero] by blast

lemma derive_owned_after:
  assumes inv: "arena_inv a"
    and run: "derive_owned a parent rights badge owner caller = (Ok s, a')"
  shows "cap_lookup a' s = Some (node_object (nodes a ! unat (slot_node parent)), rights)"
    and "badge_of a' s = Some badge" and "owner_of a' s = Some owner"
    and "resolve a x \<noteq> None \<Longrightarrow> resolve a' x = resolve a x \<and>
        nodes a' ! the (resolve a x) = nodes a ! the (resolve a x)"
proof -
  obtain i where i: "resolve a parent = Some i"
    and add: "add_node a (node_object (nodes a ! i)) rights badge (Some (slot_node parent)) owner caller
       = (Ok s, a')"
    using run by (cases rule: derive_owned_cases) auto
  have ip: "i = unat (slot_node parent)" using i by (simp add: resolve_Some_iff)
  have core: "arena_core a" using inv by (simp add: arena_inv_def)
  obtain j where j: "resolve a' s = Some j"
      "nodes a' ! j = new_node a j (node_object (nodes a ! i)) rights badge (Some (slot_node parent)) owner caller"
    and old: "\<And>x. resolve a x \<noteq> None \<Longrightarrow> resolve a' x = resolve a x \<and>
        nodes a' ! the (resolve a x) = nodes a ! the (resolve a x)"
    using resolve_added [OF core add] by blast
  show "cap_lookup a' s = Some (node_object (nodes a ! unat (slot_node parent)), rights)"
    and "badge_of a' s = Some badge" and "owner_of a' s = Some owner"
    using j ip by (simp_all add: cap_lookup_def badge_of_def owner_of_def new_node_def)
  show "resolve a x \<noteq> None \<Longrightarrow> resolve a' x = resolve a x \<and>
        nodes a' ! the (resolve a x) = nodes a ! the (resolve a x)"
    by (rule old)
qed

text \<open>
  C31. Derivation. In a reachable arena \<open>derive_owned\<close> succeeds exactly when the parent is live,
  permits derivation, holds every requested right, is unbadged or carries the requested badge,
  and there is a free entry and a serial left to draw. The new reference then looks up the
  parent's object with the requested rights, badge and owner, and every reference that resolved
  before resolves to the same, unchanged node.
\<close>

theorem derive_owned_correct:
  assumes "arena_reachable n a"
  shows "((\<exists>s a'. derive_owned a parent rights badge owner caller = (Ok s, a')) \<longleftrightarrow>
     (\<exists>i. resolve a parent = Some i \<and> contains (node_rights (nodes a ! i)) DERIVE \<and>
          contains (node_rights (nodes a ! i)) rights \<and>
          (node_badge (nodes a ! i) \<noteq> 0 \<longrightarrow> badge = node_badge (nodes a ! i)) \<and>
          free_index a \<noteq> None \<and> serials a < max_of 64)) \<and>
    (\<forall>s a'. derive_owned a parent rights badge owner caller = (Ok s, a') \<longrightarrow>
     cap_lookup a' s = Some (node_object (nodes a ! unat (slot_node parent)), rights) \<and>
     badge_of a' s = Some badge \<and> owner_of a' s = Some owner \<and>
     (\<forall>x. resolve a x \<noteq> None \<longrightarrow> resolve a' x = resolve a x \<and>
        nodes a' ! the (resolve a x) = nodes a ! the (resolve a x)))" (is "?iff \<and> ?after")
proof
  have inv: "arena_inv a" by (rule arena_reachable_inv [OF assms])
  then have bound: "serials a \<le> max_of 64"
    by (simp add: arena_inv_def arena_core_def serials_ok_def)
  show ?iff
    using bound
    by (auto simp: derive_owned_def add_node_def Let_def split: option.splits if_splits)
  show ?after
  proof (intro allI impI)
    fix s a' assume run: "derive_owned a parent rights badge owner caller = (Ok s, a')"
    from derive_owned_after [OF inv run]
    show "cap_lookup a' s = Some (node_object (nodes a ! unat (slot_node parent)), rights) \<and>
     badge_of a' s = Some badge \<and> owner_of a' s = Some owner \<and>
     (\<forall>x. resolve a x \<noteq> None \<longrightarrow> resolve a' x = resolve a x \<and>
        nodes a' ! the (resolve a x) = nodes a ! the (resolve a x))"
      by blast
  qed
qed

theorem derive_owned_correct_witness:
  "\<exists>s a'. derive_owned ex3 (ex_ref 1) READ 5 9 ''again'' = (Ok s, a') \<and>
     badge_of a' s = Some 5 \<and> owner_of a' s = Some 9"
proof -
  have "\<exists>s a'. derive_owned ex3 (ex_ref 1) READ 5 9 ''again'' = (Ok s, a')"
    by (simp add: ex3_eq ex_eval ex_node_def)
  with derive_owned_correct [OF ex_reachable(3)] show ?thesis by blast
qed

text \<open>
  C32. A serial names one capability for the life of the boot. Whatever sequence of operations
  leads from one reachable arena to another, a capability live in the later one under a serial
  that was live in the earlier one is the same entry, unchanged: a record in the audit log
  cannot come to mean another capability.
\<close>

theorem serial_names_one_capability:
  assumes "arena_reachable n a" and "arena_step\<^sup>*\<^sup>* a b" and "live_at a i" and "live_at b j"
    and "node_serial (nodes a ! i) = node_serial (nodes b ! j)"
  shows "i = j \<and> nodes b ! j = nodes a ! i"
proof -
  have inv: "arena_inv a" by (rule arena_reachable_inv [OF assms(1)])
  have old: "keeps_old a b" using arena_steps_keep_old [OF assms(2) inv] by simp
  have ser: "serials_ok a" using inv by (simp add: arena_inv_def arena_core_def)
  then have "node_serial (nodes b ! j) \<le> serials a"
    using assms(3) unfolding assms(5) [symmetric] by (simp add: serials_ok_def)
  with old assms(4) have j: "live_at a j" "nodes b ! j = nodes a ! j"
    by (auto simp: keeps_old_def)
  with ser assms(3,5) have "i = j" by (simp add: serials_ok_def)
  with j show ?thesis by simp
qed

theorem serial_names_one_capability_witness:
  "live_at ex4 1 \<and> nodes ex4 ! 1 = nodes ex2 ! 1"
proof -
  have steps: "arena_step\<^sup>*\<^sup>* ex2 ex4"
    using step_derive_snd [of ex2] step_insert_snd [of ex3]
    unfolding ex3_def [symmetric] ex4_def [symmetric]
    by (metis (no_types, lifting) ex3_def ex4_def r_into_rtranclp rtranclp_trans)
  have live: "live_at ex2 1" by (simp add: ex2_eq ex_node_def live_at_def)
  have serial: "node_serial (nodes ex2 ! 1) = node_serial (nodes ex4 ! 1)"
    by (simp add: ex2_eq ex4_eq ex_node_def)
  show ?thesis
    using serial_names_one_capability [OF ex_reachable(2) steps live ex4_shape(2) serial] ex4_shape(2)
    by simp
qed

end
