(* ===== verification/TcpSequence.thy ===== *)
theory TcpSequence
  imports Prelude
begin

text \<open>
  Sequence numbers (\<^verbatim>\<open>src/net/src/tcp.rs\<close>): a 32-bit number on a circle, the two comparisons
  the state machine uses, and their meaning as distances round the circle. The addresses and
  ports that name a connection (\<^verbatim>\<open>src/net/src/addr.rs\<close>) are here as well.
\<close>

type_synonym sequence = u32
type_synonym port = u16

text \<open>\<open>Sequence::wrapping_add\<close> is addition of words; \<open>Sequence::precedes\<close> and \<open>Sequence::follows\<close>:\<close>

definition precedes :: "sequence \<Rightarrow> sequence \<Rightarrow> bool" where
  "precedes a b = (sint (a - b) < 0)"

definition follows :: "sequence \<Rightarrow> sequence \<Rightarrow> bool" where
  "follows a b = precedes b a"

text \<open>An IPv6 address is the sixteen octets in wire order, an IPv4 address a host-order integer.\<close>

datatype address = V4 u32 | V6 "u8 list"

record four_tuple =
  tuple_local :: address
  local_port :: port
  tuple_remote :: address
  remote_port :: port

definition reversed :: "four_tuple \<Rightarrow> four_tuple" where
  "reversed c = \<lparr>tuple_local = tuple_remote c, local_port = remote_port c,
                 tuple_remote = tuple_local c, remote_port = local_port c\<rparr>"

lemma reversed_reversed [simp]: "reversed (reversed c) = c"
  by (simp add: reversed_def)

subsection \<open>Distances round the circle\<close>

text \<open>\<open>dist a b\<close> is how many numbers \<open>b\<close> lies ahead of \<open>a\<close>.\<close>

definition dist :: "sequence \<Rightarrow> sequence \<Rightarrow> nat" where
  "dist a b = unat (b - a)"

lemma unat_less_32: "unat (w :: 32 word) < 2 ^ 32"
  using unsigned_less [of w] by simp

lemma unat_ucast_16_32 [simp]: "unat (ucast (w :: u16) :: u32) = unat w"
  by transfer simp

lemma unat_ucast_32_16: "unat (ucast (w :: u32) :: u16) = unat w mod 65536"
  by (simp add: unsigned_ucast_eq take_bit_eq_mod)

lemma odd_top_bit: 
  assumes "0 \<le> k" "k < 2 ^ 32" shows "odd ((k::int) div 2 ^ 31) \<longleftrightarrow> 2 ^ 31 \<le> k"
proof (cases "2 ^ 31 \<le> k")
  case True
  define r where "r = k - 2 ^ 31"
  have "r div 2 ^ 31 = 0" using assms True by (simp add: r_def)
  moreover have "k div 2 ^ 31 = 1 + r div 2 ^ 31"
    using div_add_self1 [of "2 ^ 31" r] by (simp add: r_def)
  ultimately show ?thesis using True by simp
next
  case False
  then have "k div 2 ^ 31 = 0" using assms by simp
  then show ?thesis using False by simp
qed

lemma sint_negative_iff: "sint (w :: 32 word) < 0 \<longleftrightarrow> 2 ^ 31 \<le> unat w"
proof -
  have "0 \<le> uint w" "uint w < 2 ^ 32"
    using unsigned_less [of w, where 'a = int] by simp_all
  note odd_top_bit [OF this]
  moreover have "sint w < 0 \<longleftrightarrow> odd (uint w div 2 ^ 31)"
    by (simp only: sint_uint signed_take_bit_negative_iff bit_iff_odd) simp
  moreover have "2 ^ 31 \<le> uint w \<longleftrightarrow> 2 ^ 31 \<le> unat w"
    using of_nat_le_iff [of "2 ^ 31" "unat w", where 'a = int]
    by (simp only: of_nat_power of_nat_numeral uint_nat)
  ultimately show ?thesis
    by blast
qed

lemma precedes_iff: "precedes a b \<longleftrightarrow> 2 ^ 31 \<le> dist b a"
  by (simp add: precedes_def dist_def sint_negative_iff)

lemma follows_iff: "follows a b \<longleftrightarrow> 2 ^ 31 \<le> dist a b"
  by (simp add: follows_def precedes_iff)

lemma dist_self [simp]: "dist a a = 0"
  by (simp add: dist_def)

lemma dist_eq_0_iff [simp]: "dist a b = 0 \<longleftrightarrow> a = b"
  by (auto simp: dist_def unat_eq_0)

lemma dist_less: "dist a b < 2 ^ 32"
  unfolding dist_def by (rule unat_less_32)

lemma dist_swap:
  assumes "a \<noteq> b"
  shows "dist a b + dist b a = 2 ^ 32"
proof -
  from assms have "unat a \<noteq> unat b" by (simp add: word_unat_eq_iff)
  then show ?thesis
    using unat_less_32 [of a] unat_less_32 [of b]
    by (cases "unat a < unat b") (simp_all add: dist_def unat_sub_if')
qed
lemma dist_inject: "dist a b = dist a c \<Longrightarrow> b = c"
  by (metis dist_def unsigned_word_eqI diff_add_cancel)

lemma dist_add [simp]: "dist a (a + n) = unat n"
  by (simp add: dist_def)

text \<open>Distances add up as long as they do not go round.\<close>

lemma dist_trans: "dist a b + dist b c < 2 ^ 32 \<Longrightarrow> dist a c = dist a b + dist b c"
  using unat_add_lem [of "b - a" "c - b"] by (simp add: dist_def)

lemma dist_between: "dist a b \<le> dist a c \<Longrightarrow> dist b c = dist a c - dist a b"
  using unat_sub [of "b - a" "c - a"] by (simp add: dist_def word_le_nat_alt)

lemma dist_step: "dist a b + unat n < 2 ^ 32 \<Longrightarrow> dist a (b + n) = dist a b + unat n"
  using dist_trans [of a b "b + n"] by simp

text \<open>The comparison reads the shorter way round: \<open>a\<close> follows \<open>b\<close> when it is ahead by at most half.\<close>

lemma follows_dist: "follows a b \<longleftrightarrow> 0 < dist b a \<and> dist b a \<le> 2 ^ 31"
  using dist_swap [of a b] dist_less [of a b] dist_less [of b a]
  by (cases "a = b") (auto simp: follows_iff)

lemma precedes_dist: "precedes a b \<longleftrightarrow> 0 < dist a b \<and> dist a b \<le> 2 ^ 31"
  using follows_dist [of b a] by (simp add: follows_def)

end
