(* ===== verification/NetBase.thy ===== *)
theory NetBase
  imports TcpSequence
begin

text \<open>
  What every packet parser of \<^verbatim>\<open>src/net\<close> shares: the error type, the big-endian reads and
  writes, the one's-complement checksum (\<^verbatim>\<open>src/net/src/lib.rs\<close>) and the pseudo-headers of the
  two address families (\<^verbatim>\<open>src/net/src/tcp/segment.rs\<close>, \<^verbatim>\<open>src/net/src/ipv6.rs\<close>).
\<close>

datatype net_error =
    Truncated nat nat
  | LengthBeyondBuffer nat nat
  | BadHeaderLength u8 nat
  | BadVersion u8
  | BadChecksum u16 u16
  | Unsupported string u32
  | Exhausted string
  | BadOptionLength u8 u8

subsection \<open>Big-endian integers\<close>

definition u16_from_be_bytes :: "u8 \<Rightarrow> u8 \<Rightarrow> u16" where
  "u16_from_be_bytes h l = push_bit 8 (ucast h) OR ucast l"

definition u32_from_be_bytes :: "u8 \<Rightarrow> u8 \<Rightarrow> u8 \<Rightarrow> u8 \<Rightarrow> u32" where
  "u32_from_be_bytes a b c d =
     push_bit 24 (ucast a) OR push_bit 16 (ucast b) OR push_bit 8 (ucast c) OR ucast d"

definition u16_to_be_bytes :: "u16 \<Rightarrow> u8 list" where
  "u16_to_be_bytes w = [ucast (drop_bit 8 w), ucast w]"

definition u32_to_be_bytes :: "u32 \<Rightarrow> u8 list" where
  "u32_to_be_bytes w =
     [ucast (drop_bit 24 w), ucast (drop_bit 16 w), ucast (drop_bit 8 w), ucast w]"

text \<open>\<open>slice::get(a..b)\<close>.\<close>

definition get_range :: "'a list \<Rightarrow> nat \<Rightarrow> nat \<Rightarrow> 'a list option" where
  "get_range xs a b = (if a \<le> b \<and> b \<le> length xs then Some (drop a (take b xs)) else None)"

definition be16 :: "u8 list \<Rightarrow> nat \<Rightarrow> u16 option" where
  "be16 bytes offset =
     (case checked_add 64 offset 2 of
        None \<Rightarrow> None
      | Some e \<Rightarrow>
          (case get_range bytes offset e of
             None \<Rightarrow> None
           | Some s \<Rightarrow> Some (u16_from_be_bytes (s ! 0) (s ! 1))))"

definition be32 :: "u8 list \<Rightarrow> nat \<Rightarrow> u32 option" where
  "be32 bytes offset =
     (case checked_add 64 offset 4 of
        None \<Rightarrow> None
      | Some e \<Rightarrow>
          (case get_range bytes offset e of
             None \<Rightarrow> None
           | Some s \<Rightarrow>
               Some (u32_from_be_bytes (s ! 0) (s ! 1) (s ! 2) (s ! 3))))"

definition unwrap_or :: "'a option \<Rightarrow> 'a \<Rightarrow> 'a" where
  "unwrap_or v d = (case v of None \<Rightarrow> d | Some x \<Rightarrow> x)"

lemma unwrap_or_simps [simp]: "unwrap_or None d = d" "unwrap_or (Some x) d = x"
  by (simp_all add: unwrap_or_def)

subsection \<open>The checksum\<close>

text \<open>
  The loop over one span: pairs are added to the sum, an odd last byte is kept pending. The
  additions are those of a \<open>u32\<close> and wrap, as in the services under \<^verbatim>\<open>src/user\<close>; a packet is too short for them to.
\<close>

fun sum_pairs :: "u32 \<Rightarrow> u8 list \<Rightarrow> u32 \<times> u8 option" where
  "sum_pairs acc (h # l # rest) = sum_pairs (acc + ucast (u16_from_be_bytes h l)) rest"
| "sum_pairs acc [b] = (acc, Some b)"
| "sum_pairs acc [] = (acc, None)"

fun sum_span :: "u32 \<times> u8 option \<Rightarrow> u8 list \<Rightarrow> u32 \<times> u8 option" where
  "sum_span (acc, None) bytes = sum_pairs acc bytes"
| "sum_span (acc, Some high) [] = (acc, Some high)"
| "sum_span (acc, Some high) (low # rest) = sum_pairs (acc + ucast (u16_from_be_bytes high low)) rest"

definition sum_spans :: "u8 list list \<Rightarrow> u32" where
  "sum_spans spans =
     (case foldl sum_span (0, None) spans of
        (acc, None) \<Rightarrow> acc
      | (acc, Some high) \<Rightarrow> acc + ucast (u16_from_be_bytes high 0))"

lemma fold_carry_decreases:
  assumes "drop_bit 16 (acc :: u32) \<noteq> 0"
  shows "unat ((acc AND 0xffff) + drop_bit 16 acc) < unat acc"
proof -
  let ?n = "unat acc"
  have n: "?n < 2 ^ 32"
    by (rule unat_less_32)
  have hi: "unat (drop_bit 16 acc) = ?n div 65536"
    by (simp add: drop_bit_eq_div unat_div)
  have "acc AND 0xffff = take_bit 16 acc"
    by (simp add: take_bit_eq_mask mask_numeral)
  then have lo: "unat (acc AND 0xffff) = ?n mod 65536"
    by (simp add: take_bit_eq_mod unat_mod)
  from assms hi have pos: "0 < ?n div 65536"
    by (metis gr0I unat_eq_0)
  have "unat ((acc AND 0xffff) + drop_bit 16 acc) \<le> ?n mod 65536 + ?n div 65536"
    by (simp only: unat_word_ariths hi lo mod_less_eq_dividend)
  also have "\<dots> < ?n mod 65536 + 65536 * (?n div 65536)"
    using pos by linarith
  also have "\<dots> = ?n"
    by (rule mod_mult_div_eq)
  finally show ?thesis .
qed

text \<open>The loop that folds the carries back in.\<close>

function fold_carry :: "u32 \<Rightarrow> u32" where
  "fold_carry acc =
     (if drop_bit 16 acc \<noteq> 0 then fold_carry ((acc AND 0xffff) + drop_bit 16 acc) else acc)"
  by auto
termination
  by (relation "measure unat") (auto intro: fold_carry_decreases)

declare fold_carry.simps [simp del]

definition checksum :: "u8 list list \<Rightarrow> u16" where
  "checksum spans = NOT (ucast (fold_carry (sum_spans spans)))"

subsection \<open>Pseudo-headers\<close>

definition PROTOCOL_TCP :: u8 where "PROTOCOL_TCP = 6"
definition NEXT_HEADER_TCP :: u8 where "NEXT_HEADER_TCP = 6"

text \<open>\<open>ipv6::pseudo_header\<close>: both addresses, the length, three zero bytes, the next header.\<close>

definition pseudo_header :: "u8 list \<Rightarrow> u8 list \<Rightarrow> u8 \<Rightarrow> u32 \<Rightarrow> u8 list" where
  "pseudo_header source destination next_header transport_length =
     source @ destination @ u32_to_be_bytes transport_length @ [0, 0, 0, next_header]"

text \<open>
  \<open>pseudo_of\<close> of \<^verbatim>\<open>segment.rs\<close>. The code returns a forty-byte buffer and the used length; the
  callers read only the used part, which is what the model returns.
\<close>

definition pseudo_of :: "address \<Rightarrow> address \<Rightarrow> u32 \<Rightarrow> (net_error, u8 list) result" where
  "pseudo_of source destination len =
     (case (source, destination) of
        (V4 s, V4 d) \<Rightarrow>
          Ok (u32_to_be_bytes s @ u32_to_be_bytes d @ [0, PROTOCOL_TCP]
              @ u16_to_be_bytes (ucast len))
      | (V6 s, V6 d) \<Rightarrow> Ok (pseudo_header s d NEXT_HEADER_TCP len)
      | _ \<Rightarrow> Error (Unsupported ''pseudo-header family (mixed)'' 0))"

end
