(* ===== verification/TcpSegment.thy ===== *)
theory TcpSegment
  imports NetBase
begin

text \<open>
  The TCP segment (\<^verbatim>\<open>src/net/src/tcp/segment.rs\<close>): the control bits, the parsed segment, the
  parser with its walk over the option list, and the writer. Lengths are natural numbers, the
  fields of the wire format are words of their width.
\<close>

definition HEADER :: nat where "HEADER = 20"
definition MAX_HEADER :: nat where "MAX_HEADER = 60"
definition END_OF_LIST :: u8 where "END_OF_LIST = 0"
definition NO_OPERATION :: u8 where "NO_OPERATION = 1"
definition MAXIMUM_SEGMENT_SIZE :: u8 where "MAXIMUM_SEGMENT_SIZE = 2"

subsection \<open>Control bits\<close>

type_synonym flags = u8

definition FIN :: flags where "FIN = 0x01"
definition SYN :: flags where "SYN = 0x02"
definition RST :: flags where "RST = 0x04"
definition PSH :: flags where "PSH = 0x08"
definition ACK :: flags where "ACK = 0x10"
definition URG :: flags where "URG = 0x20"

definition flags_default :: flags where "flags_default = 0"

definition has_flags :: "flags \<Rightarrow> flags \<Rightarrow> bool" where
  "has_flags self other = (self AND other = other)"

definition with_flags :: "flags \<Rightarrow> flags \<Rightarrow> flags" where
  "with_flags self other = self OR other"

definition without_flags :: "flags \<Rightarrow> flags \<Rightarrow> flags" where
  "without_flags self other = self AND NOT other"

lemmas flag_defs = FIN_def SYN_def RST_def PSH_def ACK_def URG_def flags_default_def
  has_flags_def with_flags_def without_flags_def

subsection \<open>Segments\<close>

record options =
  opt_mss :: "u16 option"

record segment =
  source :: port
  destination :: port
  sequence :: sequence
  acknowledgement :: "sequence option"
  flags :: flags
  window :: u16
  options :: options
  payload :: "u8 list"

definition u32_of_bool :: "bool \<Rightarrow> u32" where
  "u32_of_bool b = (if b then 1 else 0)"

definition u32_try_from :: "nat \<Rightarrow> u32 option" where
  "u32_try_from n = (if n < 2 ^ 32 then Some (of_nat n) else None)"

definition u16_try_from :: "nat \<Rightarrow> u16 option" where
  "u16_try_from n = (if n < 2 ^ 16 then Some (of_nat n) else None)"

definition sequence_length :: "segment \<Rightarrow> u32" where
  "sequence_length s =
     (let pay = unwrap_or (u32_try_from (length (payload s))) (- 1);
          control = u32_of_bool (has_flags (flags s) SYN) + u32_of_bool (has_flags (flags s) FIN)
      in sat_add pay control)"

subsection \<open>The option list\<close>

lemma option_length_advances: "\<not> (len :: u8) < 2 \<Longrightarrow> 0 < unat len"
  by (simp add: word_less_nat_alt)

text \<open>
  \<open>parse_options\<close> walks the list from octet \<open>HEADER\<close>. A length octet below two is refused before
  the walk advances by it, which is what the termination argument uses.
\<close>

function parse_options_from :: "u8 list \<Rightarrow> options \<Rightarrow> nat \<Rightarrow> (net_error, options) result" where
  "parse_options_from header opts at =
     (if at < length header then
        (let kind = header ! at in
         if kind = END_OF_LIST then Ok opts
         else if kind = NO_OPERATION then parse_options_from header opts (at + 1)
         else
           (case get header (at + 1) of
              None \<Rightarrow> Error (Truncated (at + 2) (length header))
            | Some len \<Rightarrow>
                if len < 2 then Error (BadOptionLength kind len)
                else
                  (case checked_add 64 at (unat len) of
                     None \<Rightarrow> Error (BadOptionLength kind len)
                   | Some e \<Rightarrow>
                       if length header < e then Error (LengthBeyondBuffer e (length header))
                       else if kind = MAXIMUM_SEGMENT_SIZE then
                         (if len \<noteq> 4 then Error (BadOptionLength kind len)
                          else parse_options_from header
                                 (opts\<lparr>opt_mss := be16 header (at + 2)\<rparr>) e)
                       else parse_options_from header opts e)))
      else Ok opts)"
  by auto
termination
  by (relation "measure (\<lambda>(header, opts, at). length header - at)")
    (auto simp: checked_add_Some iter_ops dest!: option_length_advances)

declare parse_options_from.simps [simp del]

definition options_default :: options where
  "options_default = \<lparr>opt_mss = None\<rparr>"

definition parse_options :: "u8 list \<Rightarrow> (net_error, options) result" where
  "parse_options header = parse_options_from header options_default HEADER"

subsection \<open>Parsing\<close>

definition parse :: "u8 list \<Rightarrow> address \<Rightarrow> address \<Rightarrow> (net_error, segment) result" where
  "parse bytes source_address destination_address =
     (case get_range bytes 0 HEADER of
        None \<Rightarrow> Error (Truncated HEADER (length bytes))
      | Some fixed \<Rightarrow>
          (let words = drop_bit 4 (fixed ! 12);
               header_length = unat words * 4 in
           if header_length < HEADER then Error (BadHeaderLength words (length bytes))
           else
             (case get_range bytes 0 header_length of
                None \<Rightarrow> Error (BadHeaderLength words (length bytes))
              | Some header \<Rightarrow>
                  (let carried = unwrap_or (be16 fixed 16) 0 in
                   case u16_try_from (length bytes) of
                     None \<Rightarrow> Error (LengthBeyondBuffer (length bytes) 65535)
                   | Some len \<Rightarrow>
                       (case pseudo_of source_address destination_address (ucast len) of
                          Inl e \<Rightarrow> Inl e
                        | Inr pseudo \<Rightarrow>
                            (let computed = checksum [pseudo, unwrap_or (get_range bytes 0 16) [],
                                 [0, 0], unwrap_or (get_range bytes 18 (length bytes)) []] in
                             if computed \<noteq> carried then Error (BadChecksum computed carried)
                             else
                               (case parse_options header of
                                  Inl e \<Rightarrow> Inl e
                                | Inr opts \<Rightarrow>
                                    Ok \<lparr>source = unwrap_or (be16 fixed 0) 0,
                                        destination = unwrap_or (be16 fixed 2) 0,
                                        sequence = unwrap_or (be32 fixed 4) 0,
                                        acknowledgement =
                                          (if has_flags (fixed ! 13) ACK
                                           then Some (unwrap_or (be32 fixed 8) 0) else None),
                                        flags = fixed ! 13,
                                        window = unwrap_or (be16 fixed 14) 0,
                                        options = opts,
                                        payload =
                                          unwrap_or (get_range bytes header_length (length bytes))
                                            []\<rparr>)))))))"

subsection \<open>Writing\<close>

text \<open>\<open>bytes[at..at + n].copy_from_slice(xs)\<close>, for ranges inside the buffer.\<close>

definition copy_at :: "nat \<Rightarrow> 'a list \<Rightarrow> 'a list \<Rightarrow> 'a list" where
  "copy_at at xs bytes = take at bytes @ xs @ drop (at + length xs) bytes"

definition wire_flags :: "segment \<Rightarrow> flags" where
  "wire_flags s = (case acknowledgement s of
      Some _ \<Rightarrow> with_flags (flags s) ACK
    | None \<Rightarrow> without_flags (flags s) ACK)"

text \<open>The assignments between \<open>bytes.fill(0)\<close> and the checksum, in the order of the source.\<close>

definition fill_segment :: "segment \<Rightarrow> nat \<Rightarrow> u8 list \<Rightarrow> u8 list" where
  "fill_segment s header_length bytes =
     (let b0 = copy_at 0 (u16_to_be_bytes (source s)) bytes;
          b1 = copy_at 2 (u16_to_be_bytes (destination s)) b0;
          b2 = copy_at 4 (u32_to_be_bytes (sequence s)) b1;
          b3 = (case acknowledgement s of
                  Some a \<Rightarrow> copy_at 8 (u32_to_be_bytes a) b2 | None \<Rightarrow> b2);
          words = (if header_length div 4 < 2 ^ 8 then of_nat (header_length div 4) else 5 :: u8);
          b4 = b3[12 := push_bit 4 words];
          b5 = b4[13 := wire_flags s];
          b6 = copy_at 14 (u16_to_be_bytes (window s)) b5;
          b7 = (case opt_mss (options s) of
                  Some mss \<Rightarrow>
                    copy_at (HEADER + 2) (u16_to_be_bytes mss)
                      (b6[HEADER := MAXIMUM_SEGMENT_SIZE, HEADER + 1 := 4])
                | None \<Rightarrow> b6)
      in copy_at header_length (payload s) b7)"

text \<open>\<open>segment::write\<close> returns its result and the buffer, which it changes in place.\<close>

definition write_segment ::
  "u8 list \<Rightarrow> segment \<Rightarrow> address \<Rightarrow> address \<Rightarrow> (net_error, nat) result \<times> u8 list" where
  "write_segment out s source_address destination_address =
     (let header_length = (if opt_mss (options s) \<noteq> None then HEADER + 4 else HEADER) in
      case checked_add 64 header_length (length (payload s)) of
        None \<Rightarrow> (Error (LengthBeyondBuffer (length (payload s)) 65535), out)
      | Some tot \<Rightarrow>
          if 65535 < tot then (Error (LengthBeyondBuffer tot 65535), out)
          else if length out < tot then (Error (Truncated tot (length out)), out)
          else
            (let bytes = fill_segment s header_length (replicate tot 0);
                 len = unwrap_or (u16_try_from tot) (- 1) in
             case pseudo_of source_address destination_address (ucast len) of
               Inl e \<Rightarrow> (Inl e, bytes @ drop tot out)
             | Inr pseudo \<Rightarrow>
                 (Ok tot,
                  copy_at 16 (u16_to_be_bytes (checksum [pseudo, bytes])) bytes @ drop tot out)))"

end
