(* ===== verification/TcpState.thy ===== *)
theory TcpState
  imports TcpSegment
begin

text \<open>
  The connection (\<^verbatim>\<open>src/net/src/tcp/state.rs\<close>): the control block, the bounded list of
  actions, and \<open>step\<close> with every function it calls, in the order of the source. The functions
  that take \<^verbatim>\<open>&mut Tcb\<close> and \<^verbatim>\<open>&mut Actions\<close> take and return both. All integers are words of
  their width, so \<open>+\<close>, \<open>-\<close> and \<open>*\<close> wrap as they do in the release build of the TCP service;
  where the code saturates, the model does.
\<close>

subsection \<open>States, timers, endings\<close>

datatype state = Closed | Listen | SynSent | SynReceived | Established
  | FinWait1 | FinWait2 | CloseWait | Closing | LastAck | TimeWait

fun can_send :: "state \<Rightarrow> bool" where
  "can_send Established = True"
| "can_send CloseWait = True"
| "can_send _ = False"

fun can_receive :: "state \<Rightarrow> bool" where
  "can_receive Established = True"
| "can_receive FinWait1 = True"
| "can_receive FinWait2 = True"
| "can_receive _ = False"

datatype timer = Retransmit | DelayedAck | Probe | TimeWaitTimer

datatype ended = Orderly | Reset | Refused | Unreachable | Aborted

fun ended_code :: "ended \<Rightarrow> u8" where
  "ended_code Refused = 1"
| "ended_code Unreachable = 2"
| "ended_code Reset = 3"
| "ended_code Orderly = 4"
| "ended_code Aborted = 5"

definition DEFAULT_MSS :: u16 where "DEFAULT_MSS = 1460"
definition INITIAL_RTO_US :: u64 where "INITIAL_RTO_US = 1000000"
definition MIN_RTO_US :: u64 where "MIN_RTO_US = 10000"
definition MAX_RTO_US :: u64 where "MAX_RTO_US = 60000000"
definition DELAYED_ACK_US :: u64 where "DELAYED_ACK_US = 200000"
definition MSL_US :: u64 where "MSL_US = 30000000"
definition MAX_RETRANSMITS :: u8 where "MAX_RETRANSMITS = 8"
definition MAX_SYNACK_RETRANSMITS :: u8 where "MAX_SYNACK_RETRANSMITS = 3"
definition MAX_ACTIONS :: nat where "MAX_ACTIONS = 16"

subsection \<open>Events and actions\<close>

datatype event =
    Connect sequence u16
  | ListenOn sequence u16
  | Wrote u32
  | Read u32
  | Shutdown
  | Abort
  | Arrived segment
  | Expired timer

record emit =
  emit_flags :: flags
  emit_sequence :: sequence
  emit_ack :: "sequence option"
  emit_window :: u16
  emit_length :: u16
  emit_mss :: "u16 option"

definition emit_segment :: "emit \<Rightarrow> four_tuple \<Rightarrow> u8 list \<Rightarrow> segment" where
  "emit_segment e c bytes =
     \<lparr>source = local_port c, destination = remote_port c, sequence = emit_sequence e,
      acknowledgement = emit_ack e, flags = emit_flags e, window = emit_window e,
      options = \<lparr>opt_mss = emit_mss e\<rparr>, payload = bytes\<rparr>"

datatype action =
    Emit emit
  | Arm timer u64
  | Cancel timer
  | Delivered u32
  | Acknowledged u32
  | ActClosed ended

text \<open>
  \<open>items\<close> holds the first \<open>count\<close> entries of the fixed array, which are the ones that are filled;
  the array's size is the bound that \<open>push\<close> checks.
\<close>

record actions =
  items :: "action list"
  overflowed :: bool

definition actions_new :: actions where
  "actions_new = \<lparr>items = [], overflowed = False\<rparr>"

fun timer_of :: "action \<Rightarrow> timer option" where
  "timer_of (Arm t at) = Some t"
| "timer_of (Cancel t) = Some t"
| "timer_of _ = None"

definition push_new :: "actions \<Rightarrow> action \<Rightarrow> actions" where
  "push_new acts a =
     (if length (items acts) < MAX_ACTIONS then acts\<lparr>items := items acts @ [a]\<rparr>
      else acts\<lparr>overflowed := True\<rparr>)"

definition push :: "actions \<Rightarrow> action \<Rightarrow> actions" where
  "push acts a =
     (case timer_of a of
        None \<Rightarrow> push_new acts a
      | Some t \<Rightarrow>
          (case position (\<lambda>b. timer_of b = Some t) (items acts) of
             Some i \<Rightarrow> acts\<lparr>items := (items acts)[i := a]\<rparr>
           | None \<Rightarrow> push_new acts a))"

subsection \<open>The control block\<close>

record tcb =
  tcb_state :: state
  connection :: four_tuple
  snd_una :: sequence
  snd_nxt :: sequence
  snd_avail :: sequence
  snd_wnd :: u16
  iss :: sequence
  fin_seq :: "sequence option"
  fin_queued :: bool
  rcv_nxt :: sequence
  rcv_wnd :: u16
  rcv_capacity :: u16
  irs :: sequence
  fin_received :: bool
  mss :: u16
  srtt_us :: "u64 option"
  rttvar_us :: u64
  rto_us :: u64
  timing :: "(sequence \<times> u64) option"
  retransmits :: u8
  since_ack :: u8

definition tcb_new :: "four_tuple \<Rightarrow> tcb" where
  "tcb_new c =
     \<lparr>tcb_state = Closed, connection = c, snd_una = 0, snd_nxt = 0, snd_avail = 0, snd_wnd = 0,
      iss = 0, fin_seq = None, fin_queued = False, rcv_nxt = 0, rcv_wnd = 0, rcv_capacity = 0,
      irs = 0, fin_received = False, mss = DEFAULT_MSS, srtt_us = None, rttvar_us = 0,
      rto_us = INITIAL_RTO_US, timing = None, retransmits = 0, since_ack = 0\<rparr>"

definition from_cookie ::
  "four_tuple \<Rightarrow> sequence \<Rightarrow> sequence \<Rightarrow> u16 \<Rightarrow> u16 \<Rightarrow> u16 \<Rightarrow> tcb" where
  "from_cookie c cookie irs0 peer_window capacity mss0 =
     (let next = cookie + 1 in
      \<lparr>tcb_state = Established, connection = c, snd_una = next, snd_nxt = next,
       snd_avail = next, snd_wnd = peer_window, iss = cookie, fin_seq = None,
       fin_queued = False, rcv_nxt = irs0 + 1, rcv_wnd = capacity, rcv_capacity = capacity,
       irs = irs0, fin_received = False, mss = mss0, srtt_us = None, rttvar_us = 0,
       rto_us = INITIAL_RTO_US, timing = None, retransmits = 0, since_ack = 0\<rparr>)"

definition unsent :: "tcb \<Rightarrow> u32" where
  "unsent t = (if follows (snd_avail t) (snd_nxt t) then snd_avail t - snd_nxt t else 0)"

definition in_flight :: "tcb \<Rightarrow> u32" where
  "in_flight t = (if follows (snd_nxt t) (snd_una t) then snd_nxt t - snd_una t else 0)"

definition awaiting_ack :: "tcb \<Rightarrow> bool" where
  "awaiting_ack t = (snd_una t \<noteq> snd_nxt t)"

subsection \<open>Small steps: acknowledgements, timers, round trips\<close>

abbreviation emission ::
  "flags \<Rightarrow> sequence \<Rightarrow> sequence option \<Rightarrow> u16 \<Rightarrow> u16 \<Rightarrow> u16 option \<Rightarrow> action" where
  "emission f s a w l m \<equiv>
     Emit \<lparr>emit_flags = f, emit_sequence = s, emit_ack = a, emit_window = w, emit_length = l,
           emit_mss = m\<rparr>"

type_synonym conn = "tcb \<times> actions"

definition acknowledge_now :: "tcb \<Rightarrow> actions \<Rightarrow> conn" where
  "acknowledge_now t acts =
     (let acts = push acts (emission flags_default (snd_nxt t) (Some (rcv_nxt t)) (rcv_wnd t) 0 None);
          t = t\<lparr>since_ack := 0\<rparr>
      in (t, push acts (Cancel DelayedAck)))"

definition start_timing :: "tcb \<Rightarrow> u64 \<Rightarrow> tcb" where
  "start_timing t now = t\<lparr>timing := Some (snd_nxt t + (- 1), now)\<rparr>"

definition arm_retransmit :: "tcb \<Rightarrow> actions \<Rightarrow> u64 \<Rightarrow> actions" where
  "arm_retransmit t acts now =
     (if awaiting_ack t then push acts (Arm Retransmit (sat_add now (sat_mul (rto_us t) 1000)))
      else push acts (Cancel Retransmit))"

definition arm_probe :: "tcb \<Rightarrow> actions \<Rightarrow> u64 \<Rightarrow> actions" where
  "arm_probe t acts now = push acts (Arm Probe (sat_add now (sat_mul (rto_us t) 1000)))"

definition measure_rtt :: "tcb \<Rightarrow> u64 \<Rightarrow> tcb" where
  "measure_rtt t sample_us =
     (let t = (case srtt_us t of
                 None \<Rightarrow> t\<lparr>srtt_us := Some sample_us, rttvar_us := sample_us div 2\<rparr>
               | Some srtt \<Rightarrow>
                   (let difference = word_abs_diff srtt sample_us in
                    t\<lparr>rttvar_us := (rttvar_us t * 3 + difference) div 4,
                      srtt_us := Some ((srtt * 7 + sample_us) div 8)\<rparr>));
          srtt = unwrap_or (srtt_us t) sample_us
      in t\<lparr>rto_us := clamp (sat_add srtt (sat_mul (rttvar_us t) 4)) MIN_RTO_US MAX_RTO_US\<rparr>)"

definition finish_timing :: "tcb \<Rightarrow> sequence \<Rightarrow> u64 \<Rightarrow> tcb" where
  "finish_timing t ack now =
     (case timing t of
        None \<Rightarrow> t
      | Some (s, sent_at) \<Rightarrow>
          if \<not> follows ack s then t
          else measure_rtt (t\<lparr>timing := None\<rparr>) (sat_sub now sent_at div 1000))"

subsection \<open>Sending\<close>

definition advance_close_state :: "tcb \<Rightarrow> tcb" where
  "advance_close_state t =
     t\<lparr>tcb_state := (case tcb_state t of
         Established \<Rightarrow> FinWait1 | SynReceived \<Rightarrow> FinWait1 | CloseWait \<Rightarrow> LastAck
       | other \<Rightarrow> other)\<rparr>"

text \<open>How much of the peer's window is left, and the length of the next segment.\<close>

definition allowed :: "tcb \<Rightarrow> u32" where
  "allowed t =
     (let window_end = snd_una t + ucast (snd_wnd t) in
      if follows window_end (snd_nxt t) then window_end - snd_nxt t else 0)"

definition segment_length :: "tcb \<Rightarrow> u16" where
  "segment_length t =
     (let len = min (min (unsent t) (allowed t)) (ucast (mss t)) in
      unwrap_or (u16_try_from (unat len)) (- 1))"

definition fin_now :: "tcb \<Rightarrow> bool \<Rightarrow> bool" where
  "fin_now t retransmission \<longleftrightarrow>
     fin_queued t \<and> fin_seq t = None \<and> ucast (segment_length t) = unsent t \<and>
     (retransmission \<or> unsent t \<le> allowed t)"

definition send_segment :: "tcb \<Rightarrow> actions \<Rightarrow> bool \<Rightarrow> conn \<times> bool" where
  "send_segment t acts retransmission =
     (let len = segment_length t; fin = fin_now t retransmission in
      if len = 0 \<and> \<not> fin then ((t, acts), False)
      else
        (let f0 = (if 0 < len then with_flags flags_default PSH else flags_default);
             f1 = (if fin then with_flags f0 FIN else f0);
             acts = push acts (emission f1 (snd_nxt t) (Some (rcv_nxt t)) (rcv_wnd t) len None);
             t = t\<lparr>since_ack := 0\<rparr>;
             t = t\<lparr>snd_nxt := snd_nxt t + ucast len\<rparr>;
             t = (if fin
                  then advance_close_state (t\<lparr>fin_seq := Some (snd_nxt t), snd_nxt := snd_nxt t + 1\<rparr>)
                  else t)
         in ((t, acts), True)))"

text \<open>\<open>for _ in 0..n\<close>, leaving at the first segment that cannot be sent.\<close>

fun send_segments :: "nat \<Rightarrow> tcb \<Rightarrow> actions \<Rightarrow> bool \<Rightarrow> conn \<times> bool" where
  "send_segments 0 t acts sent_any = ((t, acts), sent_any)"
| "send_segments (Suc n) t acts sent_any =
     (case send_segment t acts False of
        ((t', acts'), sent) \<Rightarrow>
          if \<not> sent then ((t', acts'), sent_any) else send_segments n t' acts' True)"

definition send_what_we_can :: "tcb \<Rightarrow> actions \<Rightarrow> u64 \<Rightarrow> conn" where
  "send_what_we_can t acts now =
     (if \<not> can_send (tcb_state t) \<and> tcb_state t \<noteq> SynReceived then (t, acts)
      else
        (case send_segments 2 t acts False of
           ((t, acts), sent_any) \<Rightarrow>
             (let acts = (if snd_wnd t = 0 \<and> 0 < unsent t then arm_probe t acts now else acts) in
              if sent_any then
                (let t = (if timing t = None then start_timing t now else t) in
                 (t, arm_retransmit t acts now))
              else (t, acts))))"

subsection \<open>Calls of the program\<close>

definition open_conn :: "tcb \<Rightarrow> actions \<Rightarrow> sequence \<Rightarrow> u16 \<Rightarrow> bool \<Rightarrow> u64 \<Rightarrow> conn" where
  "open_conn t acts iss0 window0 passive now =
     (if tcb_state t \<noteq> Closed then (t, acts)
      else
        (let t = t\<lparr>iss := iss0, snd_una := iss0, snd_nxt := iss0, snd_avail := iss0,
                   rcv_wnd := window0, rcv_capacity := window0\<rparr> in
         if passive then (t\<lparr>tcb_state := Listen\<rparr>, acts)
         else
           (let t = t\<lparr>tcb_state := SynSent\<rparr>;
                acts = push acts (emission SYN (snd_nxt t) None (rcv_wnd t) 0 (Some (mss t)));
                t = t\<lparr>snd_nxt := snd_nxt t + 1\<rparr>;
                t = t\<lparr>snd_avail := snd_nxt t\<rparr>;
                t = start_timing t now
            in (t, arm_retransmit t acts now))))"

definition reopen_window :: "tcb \<Rightarrow> actions \<Rightarrow> u32 \<Rightarrow> conn" where
  "reopen_window t acts bytes =
     (let opened = sat_add (ucast (rcv_wnd t)) bytes :: u32;
          capped = min (ucast (rcv_capacity t)) opened;
          was = rcv_wnd t;
          t = t\<lparr>rcv_wnd := unwrap_or (u16_try_from (unat capped)) (rcv_capacity t)\<rparr> in
      if was = 0 \<and> 0 < rcv_wnd t \<and> can_receive (tcb_state t) then acknowledge_now t acts
      else (t, acts))"

definition shutdown_conn :: "tcb \<Rightarrow> actions \<Rightarrow> u64 \<Rightarrow> conn" where
  "shutdown_conn t acts now =
     (if tcb_state t \<in> {Established, CloseWait, SynReceived}
      then send_what_we_can (t\<lparr>fin_queued := True\<rparr>) acts now
      else if tcb_state t \<in> {Listen, SynSent}
      then (t\<lparr>tcb_state := Closed\<rparr>, push acts (ActClosed Aborted))
      else (t, acts))"

definition abort_conn :: "tcb \<Rightarrow> actions \<Rightarrow> conn" where
  "abort_conn t acts =
     (if tcb_state t \<in> {Closed, Listen}
      then (t\<lparr>tcb_state := Closed\<rparr>, push acts (ActClosed Aborted))
      else
        (let acts = push acts (emission RST (snd_nxt t) None 0 0 None);
             t = t\<lparr>tcb_state := Closed\<rparr>
         in (t, push acts (ActClosed Aborted))))"

subsection \<open>Timers that expire\<close>

definition resend :: "tcb \<Rightarrow> actions \<Rightarrow> conn" where
  "resend t acts =
     (case tcb_state t of
        SynSent \<Rightarrow>
          (t\<lparr>snd_nxt := snd_una t + 1\<rparr>,
           push acts (emission SYN (snd_una t) None (rcv_wnd t) 0 (Some (mss t))))
      | SynReceived \<Rightarrow>
          (t\<lparr>snd_nxt := snd_una t + 1\<rparr>,
           push acts (emission SYN (snd_una t) (Some (rcv_nxt t)) (rcv_wnd t) 0 (Some (mss t))))
      | _ \<Rightarrow>
          (case send_segment t acts True of
             ((t, acts), _) \<Rightarrow>
               (case fin_seq t of
                  None \<Rightarrow> (t, acts)
                | Some fin \<Rightarrow>
                    if \<not> follows (snd_una t) fin \<and> snd_nxt t = fin
                    then (t\<lparr>snd_nxt := fin + 1\<rparr>,
                          push acts (emission FIN fin (Some (rcv_nxt t)) (rcv_wnd t) 0 None))
                    else (t, acts))))"

definition retransmit_limit :: "tcb \<Rightarrow> u8" where
  "retransmit_limit t =
     (if tcb_state t = SynReceived then MAX_SYNACK_RETRANSMITS else MAX_RETRANSMITS)"

definition retransmit :: "tcb \<Rightarrow> actions \<Rightarrow> u64 \<Rightarrow> conn" where
  "retransmit t acts now =
     (if tcb_state t = Closed \<or> \<not> awaiting_ack t then (t, acts)
      else if retransmit_limit t \<le> retransmits t
      then (t\<lparr>tcb_state := Closed\<rparr>, push acts (ActClosed Unreachable))
      else
        (let t = t\<lparr>retransmits := retransmits t + 1,
                   rto_us := min (sat_mul (rto_us t) 2) MAX_RTO_US,
                   timing := None\<rparr>;
             t = t\<lparr>snd_nxt := snd_una t\<rparr> in
         case resend t acts of (t, acts) \<Rightarrow> (t, arm_retransmit t acts now)))"

definition probe :: "tcb \<Rightarrow> actions \<Rightarrow> u64 \<Rightarrow> conn" where
  "probe t acts now =
     (if \<not> can_send (tcb_state t) \<or> snd_wnd t \<noteq> 0 \<or> unsent t = 0 then (t, acts)
      else
        (let acts = push acts (emission PSH (snd_nxt t) (Some (rcv_nxt t)) (rcv_wnd t) 1 None);
             t = t\<lparr>snd_nxt := snd_nxt t + 1\<rparr>;
             acts = arm_probe t acts now
         in (t, arm_retransmit t acts now)))"

definition expired :: "tcb \<Rightarrow> actions \<Rightarrow> timer \<Rightarrow> u64 \<Rightarrow> conn" where
  "expired t acts tm now =
     (case tm of
        Retransmit \<Rightarrow> retransmit t acts now
      | DelayedAck \<Rightarrow> if tcb_state t \<noteq> Closed then acknowledge_now t acts else (t, acts)
      | Probe \<Rightarrow> probe t acts now
      | TimeWaitTimer \<Rightarrow>
          if tcb_state t = TimeWait
          then (t\<lparr>tcb_state := Closed\<rparr>, push acts (ActClosed Orderly))
          else (t, acts))"

subsection \<open>Replies that need no control block\<close>

definition synack_for :: "segment \<Rightarrow> sequence \<Rightarrow> u16 \<Rightarrow> u16 \<Rightarrow> emit option" where
  "synack_for s cookie window0 mss0 =
     (if \<not> has_flags (flags s) SYN \<or> has_flags (flags s) RST \<or> acknowledgement s \<noteq> None then None
      else Some \<lparr>emit_flags = SYN, emit_sequence = cookie,
                 emit_ack = Some (sequence s + 1), emit_window = window0, emit_length = 0,
                 emit_mss = Some mss0\<rparr>)"

definition reclaim_unclaimed :: "state \<Rightarrow> bool \<Rightarrow> bool" where
  "reclaim_unclaimed st claimed \<longleftrightarrow> \<not> claimed \<and> st = CloseWait"

definition retirable :: "state \<Rightarrow> bool \<Rightarrow> bool \<Rightarrow> bool" where
  "retirable st claimed released \<longleftrightarrow> st \<in> {Closed, TimeWait} \<and> (\<not> claimed \<or> released)"

definition reset_for :: "segment \<Rightarrow> emit option" where
  "reset_for s =
     (if has_flags (flags s) RST then None
      else
        (let (seqn, ack) = (case acknowledgement s of
               Some ack \<Rightarrow> (ack, None)
             | None \<Rightarrow> (0, Some (sequence s + sequence_length s))) in
         Some \<lparr>emit_flags = RST, emit_sequence = seqn, emit_ack = ack, emit_window = 0,
               emit_length = 0, emit_mss = None\<rparr>))"

subsection \<open>Segments that arrive\<close>

definition closed_arrival :: "actions \<Rightarrow> segment \<Rightarrow> actions" where
  "closed_arrival acts s = (case reset_for s of Some e \<Rightarrow> push acts (Emit e) | None \<Rightarrow> acts)"

definition negotiated_mss :: "tcb \<Rightarrow> segment \<Rightarrow> u16" where
  "negotiated_mss t s = (case opt_mss (options s) of None \<Rightarrow> mss t | Some m \<Rightarrow> min m DEFAULT_MSS)"

definition listen_arrival :: "tcb \<Rightarrow> actions \<Rightarrow> segment \<Rightarrow> u64 \<Rightarrow> conn" where
  "listen_arrival t acts s now =
     (if has_flags (flags s) RST then (t, acts)
      else if acknowledgement s \<noteq> None then (t, closed_arrival acts s)
      else if \<not> has_flags (flags s) SYN then (t, acts)
      else
        (let t = t\<lparr>irs := sequence s, rcv_nxt := sequence s + 1, snd_wnd := window s,
                   mss := negotiated_mss t s, tcb_state := SynReceived\<rparr>;
             acts = push acts (emission SYN (iss t) (Some (rcv_nxt t)) (rcv_wnd t) 0 (Some (mss t)));
             t = t\<lparr>snd_nxt := iss t + 1\<rparr>;
             t = t\<lparr>snd_avail := snd_nxt t\<rparr>;
             t = start_timing t now
         in (t, arm_retransmit t acts now)))"

text \<open>\<open>syn_sent_arrival\<close> past its first check.\<close>

definition syn_sent_ok :: "tcb \<Rightarrow> actions \<Rightarrow> segment \<Rightarrow> u64 \<Rightarrow> conn" where
  "syn_sent_ok t acts s now =
     (if has_flags (flags s) RST then
        (if acknowledgement s \<noteq> None
         then (t\<lparr>tcb_state := Closed\<rparr>, push acts (ActClosed Refused)) else (t, acts))
      else if \<not> has_flags (flags s) SYN then (t, acts)
      else
        (let t = t\<lparr>irs := sequence s, rcv_nxt := sequence s + 1, snd_wnd := window s,
                   mss := negotiated_mss t s\<rparr>;
             t = (case acknowledgement s of Some ack \<Rightarrow> t\<lparr>snd_una := ack\<rparr> | None \<Rightarrow> t) in
         if follows (snd_una t) (iss t) then
           (let t = t\<lparr>tcb_state := Established\<rparr>;
                t = finish_timing t (snd_una t) now in
            case acknowledge_now t acts of
              (t, acts) \<Rightarrow> send_what_we_can t (arm_retransmit t acts now) now)
         else
           (let t = t\<lparr>tcb_state := SynReceived\<rparr>;
                t = t\<lparr>snd_nxt := iss t\<rparr>;
                acts = push acts
                  (emission SYN (iss t) (Some (rcv_nxt t)) (rcv_wnd t) 0 (Some (mss t)));
                t = t\<lparr>snd_nxt := iss t + 1\<rparr>
            in (t, arm_retransmit t acts now))))"

definition syn_sent_arrival :: "tcb \<Rightarrow> actions \<Rightarrow> segment \<Rightarrow> u64 \<Rightarrow> conn" where
  "syn_sent_arrival t acts s now =
     (case acknowledgement s of
        Some ack \<Rightarrow>
          if \<not> follows ack (iss t) \<or> follows ack (snd_nxt t) then
            (t, if \<not> has_flags (flags s) RST then push acts (emission RST ack None 0 0 None) else acts)
          else syn_sent_ok t acts s now
      | None \<Rightarrow> syn_sent_ok t acts s now)"

definition in_window :: "tcb \<Rightarrow> sequence \<Rightarrow> bool" where
  "in_window t s \<longleftrightarrow>
     \<not> precedes s (rcv_nxt t) \<and> precedes s (rcv_nxt t + ucast (rcv_wnd t))"

definition acceptable :: "tcb \<Rightarrow> segment \<Rightarrow> bool" where
  "acceptable t s =
     (let len = sequence_length s in
      if len = 0 \<and> rcv_wnd t = 0 then sequence s = rcv_nxt t
      else if len = 0 then in_window t (sequence s)
      else if rcv_wnd t = 0 then False
      else in_window t (sequence s) \<or> in_window t (sequence s + sat_sub len 1))"

definition enter_time_wait :: "tcb \<Rightarrow> actions \<Rightarrow> u64 \<Rightarrow> conn" where
  "enter_time_wait t acts now =
     (let t = t\<lparr>tcb_state := TimeWait\<rparr>;
          acts = push acts (Cancel Retransmit)
      in (t, push acts (Arm TimeWaitTimer (sat_add now (sat_mul MSL_US 2000)))))"

definition advance_after_ack :: "tcb \<Rightarrow> actions \<Rightarrow> u64 \<Rightarrow> conn" where
  "advance_after_ack t acts now =
     (let fin_acked = (case fin_seq t of None \<Rightarrow> False | Some fin \<Rightarrow> follows (snd_una t) fin) in
      if \<not> fin_acked then (t, acts)
      else
        (case tcb_state t of
           FinWait1 \<Rightarrow> (t\<lparr>tcb_state := FinWait2\<rparr>, acts)
         | Closing \<Rightarrow> enter_time_wait t acts now
         | LastAck \<Rightarrow> (t\<lparr>tcb_state := Closed\<rparr>, push acts (ActClosed Orderly))
         | _ \<Rightarrow> (t, acts)))"

text \<open>The three parts of \<open>process_ack\<close>: the handshake, the bytes freed, the peer's window.\<close>

definition ack_new_data :: "tcb \<Rightarrow> actions \<Rightarrow> sequence \<Rightarrow> u64 \<Rightarrow> conn" where
  "ack_new_data t acts ack now =
     (if \<not> follows ack (snd_una t) then (t, acts)
      else
        (let freed = ack - snd_una t;
             fin_included = (case fin_seq t of
                 None \<Rightarrow> False
               | Some fin \<Rightarrow> \<not> precedes fin (snd_una t) \<and> precedes fin ack);
             bytes = sat_sub freed (u32_of_bool fin_included);
             t = t\<lparr>snd_una := ack, retransmits := 0\<rparr>;
             acts = (if 0 < bytes then push acts (Acknowledged bytes) else acts);
             t = finish_timing t ack now;
             acts = arm_retransmit t acts now
         in advance_after_ack t acts now))"

definition update_window :: "tcb \<Rightarrow> actions \<Rightarrow> segment \<Rightarrow> conn" where
  "update_window t acts s =
     (let was_closed = (snd_wnd t = 0);
          t = t\<lparr>snd_wnd := window s\<rparr>
      in (t, if was_closed \<and> 0 < snd_wnd t then push acts (Cancel Probe) else acts))"

definition process_ack :: "tcb \<Rightarrow> actions \<Rightarrow> segment \<Rightarrow> sequence \<Rightarrow> u64 \<Rightarrow> conn \<times> bool" where
  "process_ack t acts s ack now =
     (if follows ack (snd_nxt t) then (acknowledge_now t acts, False)
      else if tcb_state t = SynReceived \<and> \<not> follows ack (iss t) then ((t, acts), False)
      else
        (let (t, acts) =
               (if tcb_state t = SynReceived then
                  (let t = finish_timing (t\<lparr>tcb_state := Established, snd_una := ack\<rparr>) ack now
                   in (t, arm_retransmit t acts now))
                else (t, acts));
             (t, acts) = ack_new_data t acts ack now
         in (update_window t acts s, True)))"

definition deliver :: "tcb \<Rightarrow> actions \<Rightarrow> segment \<Rightarrow> conn \<times> u16" where
  "deliver t acts s =
     (if \<not> can_receive (tcb_state t) \<or> payload s = [] then ((t, acts), 0)
      else if sequence s \<noteq> rcv_nxt t then ((t, acts), 0)
      else
        (let len = unwrap_or (u16_try_from (length (payload s))) (- 1);
             taken = min len (rcv_wnd t) in
         if taken = 0 then ((t, acts), 0)
         else ((t\<lparr>rcv_nxt := rcv_nxt t + ucast taken, rcv_wnd := rcv_wnd t - taken\<rparr>,
                push acts (Delivered (ucast taken))), taken)))"

definition acknowledge_or_delay :: "tcb \<Rightarrow> actions \<Rightarrow> u64 \<Rightarrow> conn" where
  "acknowledge_or_delay t acts now =
     (let t = t\<lparr>since_ack := sat_add (since_ack t) 1\<rparr> in
      if 2 \<le> since_ack t \<or> rcv_wnd t = 0 then acknowledge_now t acts
      else (t, push acts (Arm DelayedAck (sat_add now (sat_mul DELAYED_ACK_US 1000)))))"

definition peer_closed :: "tcb \<Rightarrow> actions \<Rightarrow> u64 \<Rightarrow> conn" where
  "peer_closed t acts now =
     (case acknowledge_now t acts of
        (t, acts) \<Rightarrow>
          (case tcb_state t of
             Established \<Rightarrow> (t\<lparr>tcb_state := CloseWait\<rparr>, acts)
           | SynReceived \<Rightarrow> (t\<lparr>tcb_state := CloseWait\<rparr>, acts)
           | FinWait1 \<Rightarrow> (t\<lparr>tcb_state := Closing\<rparr>, acts)
           | FinWait2 \<Rightarrow> enter_time_wait t acts now
           | _ \<Rightarrow> (t, acts)))"

text \<open>\<open>synchronised_arrival\<close> past the acknowledgement: data, then the \<open>FIN\<close> behind it, then sending.\<close>

definition take_data :: "tcb \<Rightarrow> actions \<Rightarrow> segment \<Rightarrow> u64 \<Rightarrow> conn" where
  "take_data t acts s now =
     (case deliver t acts s of
        ((t, acts), delivered) \<Rightarrow>
          (let whole_payload = (unat delivered = length (payload s));
               fin = (has_flags (flags s) FIN \<and> whole_payload \<and>
                      sequence s + ucast delivered = rcv_nxt t) in
           if fin \<and> \<not> fin_received t then
             peer_closed (t\<lparr>fin_received := True, rcv_nxt := rcv_nxt t + 1\<rparr>) acts now
           else if 0 < delivered then acknowledge_or_delay t acts now
           else (t, acts)))"

definition synchronised_arrival :: "tcb \<Rightarrow> actions \<Rightarrow> segment \<Rightarrow> u64 \<Rightarrow> conn" where
  "synchronised_arrival t acts s now =
     (if \<not> acceptable t s then
        (if has_flags (flags s) RST then (t, acts)
         else if precedes (sequence s) (rcv_nxt t) then acknowledge_now t acts
         else (t, acts))
      else if has_flags (flags s) RST then
        (t\<lparr>tcb_state := Closed\<rparr>,
         push acts (ActClosed (if tcb_state t = SynReceived then Refused else Reset)))
      else if has_flags (flags s) SYN \<and> sequence s \<noteq> irs t then abort_conn t acts
      else
        (case acknowledgement s of
           None \<Rightarrow> (t, acts)
         | Some ack \<Rightarrow>
             (case process_ack t acts s ack now of
                ((t, acts), go_on) \<Rightarrow>
                  if \<not> go_on then (t, acts)
                  else
                    (case take_data t acts s now of
                       (t, acts) \<Rightarrow> send_what_we_can t acts now))))"

definition arrived :: "tcb \<Rightarrow> actions \<Rightarrow> segment \<Rightarrow> u64 \<Rightarrow> conn" where
  "arrived t acts s now =
     (case tcb_state t of
        Closed \<Rightarrow> (t, closed_arrival acts s)
      | Listen \<Rightarrow> listen_arrival t acts s now
      | SynSent \<Rightarrow> syn_sent_arrival t acts s now
      | _ \<Rightarrow> synchronised_arrival t acts s now)"

definition step :: "tcb \<Rightarrow> event \<Rightarrow> u64 \<Rightarrow> conn" where
  "step t ev now =
     (let acts = actions_new in
      case ev of
        Connect iss0 window0 \<Rightarrow> open_conn t acts iss0 window0 False now
      | ListenOn iss0 window0 \<Rightarrow> open_conn t acts iss0 window0 True now
      | Wrote bytes \<Rightarrow> send_what_we_can (t\<lparr>snd_avail := snd_avail t + bytes\<rparr>) acts now
      | Read bytes \<Rightarrow> reopen_window t acts bytes
      | Shutdown \<Rightarrow> shutdown_conn t acts now
      | Abort \<Rightarrow> abort_conn t acts
      | Arrived s \<Rightarrow> arrived t acts s now
      | Expired tm \<Rightarrow> expired t acts tm now)"

end
