(* ===== verification/TcpActions.thy ===== *)
theory TcpActions
  imports TcpState
begin

text \<open>
  How many actions one step can produce. \<open>shape n T acts\<close> says that nothing was dropped, that at
  most \<open>n\<close> actions are not about a timer, and that each timer of \<open>T\<close>, and no other, has at most
  one instruction. Each function of the state machine adds a fixed amount to the shape.
\<close>

lemma can_send_iff: "can_send st \<longleftrightarrow> st = Established \<or> st = CloseWait"
  by (cases st) simp_all

lemma can_receive_iff: "can_receive st \<longleftrightarrow> st = Established \<or> st = FinWait1 \<or> st = FinWait2"
  by (cases st) simp_all

subsection \<open>Fields that the small steps leave alone\<close>

lemma measure_rtt_frame [simp]:
  "tcb_state (measure_rtt t u) = tcb_state t" "snd_una (measure_rtt t u) = snd_una t"
  "snd_nxt (measure_rtt t u) = snd_nxt t" "snd_avail (measure_rtt t u) = snd_avail t"
  "snd_wnd (measure_rtt t u) = snd_wnd t" "iss (measure_rtt t u) = iss t"
  "fin_seq (measure_rtt t u) = fin_seq t" "fin_queued (measure_rtt t u) = fin_queued t"
  "rcv_nxt (measure_rtt t u) = rcv_nxt t" "rcv_wnd (measure_rtt t u) = rcv_wnd t"
  "rcv_capacity (measure_rtt t u) = rcv_capacity t" "irs (measure_rtt t u) = irs t"
  "fin_received (measure_rtt t u) = fin_received t" "mss (measure_rtt t u) = mss t"
  "retransmits (measure_rtt t u) = retransmits t" "since_ack (measure_rtt t u) = since_ack t"
  "connection (measure_rtt t u) = connection t" "timing (measure_rtt t u) = timing t"
  by (simp_all add: measure_rtt_def Let_def split: option.split)

lemma finish_timing_frame [simp]:
  "tcb_state (finish_timing t a n) = tcb_state t" "snd_una (finish_timing t a n) = snd_una t"
  "snd_nxt (finish_timing t a n) = snd_nxt t" "snd_avail (finish_timing t a n) = snd_avail t"
  "snd_wnd (finish_timing t a n) = snd_wnd t" "iss (finish_timing t a n) = iss t"
  "fin_seq (finish_timing t a n) = fin_seq t" "fin_queued (finish_timing t a n) = fin_queued t"
  "rcv_nxt (finish_timing t a n) = rcv_nxt t" "rcv_wnd (finish_timing t a n) = rcv_wnd t"
  "rcv_capacity (finish_timing t a n) = rcv_capacity t" "irs (finish_timing t a n) = irs t"
  "fin_received (finish_timing t a n) = fin_received t" "mss (finish_timing t a n) = mss t"
  "retransmits (finish_timing t a n) = retransmits t" "since_ack (finish_timing t a n) = since_ack t"
  "connection (finish_timing t a n) = connection t"
  by (simp_all add: finish_timing_def split: option.split prod.split)

lemma acknowledge_now_fst [simp]: "fst (acknowledge_now t acts) = t\<lparr>since_ack := 0\<rparr>"
  by (simp add: acknowledge_now_def Let_def)

lemma enter_time_wait_fst [simp]: "fst (enter_time_wait t acts now) = t\<lparr>tcb_state := TimeWait\<rparr>"
  by (simp add: enter_time_wait_def Let_def)

subsection \<open>The shape of a list of actions\<close>

definition tags :: "actions \<Rightarrow> timer option list" where
  "tags acts = map timer_of (items acts)"

definition shape :: "nat \<Rightarrow> timer set \<Rightarrow> actions \<Rightarrow> bool" where
  "shape n T acts \<longleftrightarrow>
     \<not> overflowed acts \<and> count_if (\<lambda>x. x = None) (tags acts) \<le> n \<and>
     distinct (filter (\<lambda>x. x \<noteq> None) (tags acts)) \<and> set (tags acts) \<subseteq> insert None (Some ` T)"

lemma UNIV_timer: "UNIV = {Retransmit, DelayedAck, Probe, TimeWaitTimer}"
proof
  show "UNIV \<subseteq> {Retransmit, DelayedAck, Probe, TimeWaitTimer}"
  proof
    fix x
    show "x \<in> {Retransmit, DelayedAck, Probe, TimeWaitTimer}"
      by (cases x) simp_all
  qed
qed simp

lemma finite_timer [simp]: "finite (T :: timer set)"
  using finite_subset [OF subset_UNIV, of T] by (simp add: UNIV_timer)

lemma card_timer_le: "card (T :: timer set) \<le> 4"
proof -
  have "card T \<le> card (UNIV :: timer set)"
    by (rule card_mono) simp_all
  also have "\<dots> = 4"
    by (simp add: UNIV_timer)
  finally show ?thesis .
qed

lemma shape_length:
  assumes "shape n T acts"
  shows "length (items acts) \<le> n + card T"
proof -
  let ?some = "filter (\<lambda>x. x \<noteq> None) (tags acts)"
  have "length (items acts) = count_if (\<lambda>x. x = None) (tags acts) + length ?some"
    using sum_length_filter_compl [of "\<lambda>x. x = None" "tags acts"]
    by (simp add: count_if_def tags_def)
  moreover have "length ?some = card (set ?some)"
    using assms by (intro distinct_card [symmetric]) (simp add: shape_def)
  moreover have "card (set ?some) \<le> card (Some ` T)"
    using assms by (intro card_mono) (auto simp: shape_def)
  moreover have "card (Some ` T) = card T"
    by (simp add: card_image)
  ultimately show ?thesis
    using assms by (simp add: shape_def)
qed

lemma shape_mono: "shape n T acts \<Longrightarrow> n \<le> m \<Longrightarrow> T \<subseteq> U \<Longrightarrow> shape m U acts"
  by (fastforce simp: shape_def)

lemma shape_new [simp]: "shape n T actions_new"
  by (simp add: shape_def actions_new_def tags_def)

lemma shape_room: "shape n T acts \<Longrightarrow> n \<le> 11 \<Longrightarrow> length (items acts) < MAX_ACTIONS"
  using shape_length [of n T acts] card_timer_le [of T] by (simp add: MAX_ACTIONS_def)

lemma shape_push:
  assumes "shape n T acts" "n \<le> 11" "timer_of a = None"
  shows "shape (Suc n) T (push acts a)"
  using assms shape_room [OF assms(1,2)]
  by (auto simp: shape_def push_def push_new_def tags_def)

lemma shape_push_timer:
  assumes "shape n T acts" "n \<le> 11" "timer_of a = Some tm"
  shows "shape n (insert tm T) (push acts a)"
proof (cases "position (\<lambda>b. timer_of b = Some tm) (items acts)")
  case None
  then have "Some tm \<notin> set (tags acts)"
    by (auto simp: position_None_iff tags_def)
  then show ?thesis
    using assms None shape_room [OF assms(1,2)]
    by (auto simp: shape_def push_def push_new_def tags_def)
next
  case (Some i)
  then have "i < length (items acts)" "timer_of (items acts ! i) = Some tm"
    by (auto dest: position_SomeD)
  then have "tags (push acts a) = tags acts"
    using assms(3) Some by (simp add: push_def tags_def map_update list_update_same_conv)
  then show ?thesis
    using assms Some by (auto simp: shape_def push_def)
qed


subsection \<open>What each function adds\<close>

lemma shape_acknowledge_now:
  "shape n T acts \<Longrightarrow> n \<le> 10 \<Longrightarrow>
     shape (Suc n) (insert DelayedAck T) (snd (acknowledge_now t acts))"
  by (simp add: acknowledge_now_def Let_def shape_push shape_push_timer)

lemma shape_arm_retransmit:
  "shape n T acts \<Longrightarrow> n \<le> 11 \<Longrightarrow> shape n (insert Retransmit T) (arm_retransmit t acts now)"
  by (simp add: arm_retransmit_def shape_push_timer)

lemma shape_arm_probe:
  "shape n T acts \<Longrightarrow> n \<le> 11 \<Longrightarrow> shape n (insert Probe T) (arm_probe t acts now)"
  by (simp add: arm_probe_def shape_push_timer)

lemma shape_send_segment:
  "shape n T acts \<Longrightarrow> n \<le> 11 \<Longrightarrow> shape (Suc n) T (snd (fst (send_segment t acts r)))"
  by (auto simp: send_segment_def Let_def intro: shape_push elim: shape_mono)

lemma shape_send_segments:
  "shape n T acts \<Longrightarrow> n + k \<le> 12 \<Longrightarrow>
     shape (n + k) T (snd (fst (send_segments k t acts sent)))"
proof (induction k arbitrary: n t acts sent)
  case 0
  then show ?case by simp
next
  case (Suc k)
  obtain t' acts' b where e: "send_segment t acts False = ((t', acts'), b)"
    by (metis surj_pair)
  have "shape (Suc n) T acts'"
    using shape_send_segment [of n T acts t False] Suc.prems e by simp
  then show ?case
    using Suc.IH [of "Suc n" acts' t' True] Suc.prems e by (auto elim: shape_mono)
qed

abbreviation sending :: "state \<Rightarrow> bool" where
  "sending st \<equiv> can_send st \<or> st = SynReceived"

lemma shape_send_what_we_can:
  assumes "shape n T acts" "n \<le> 9"
  shows "shape (n + 2) (insert Probe (insert Retransmit T)) (snd (send_what_we_can t acts now))"
proof -
  obtain t' acts' b where e: "send_segments 2 t acts False = ((t', acts'), b)"
    by (metis surj_pair)
  have s: "shape (n + 2) T acts'"
    using shape_send_segments [of n T acts 2 t False] assms e by simp
  have p: "shape (n + 2) (insert Probe T)
      (if snd_wnd t' = 0 \<and> 0 < unsent t' then arm_probe t' acts' now else acts')"
    using s assms(2) by (auto intro: shape_arm_probe elim: shape_mono)
  have "shape (n + 2) (insert Retransmit (insert Probe T))
      (arm_retransmit t2 (if snd_wnd t' = 0 \<and> 0 < unsent t' then arm_probe t' acts' now else acts') now)"
    for t2
    using shape_arm_retransmit [OF p] assms(2) by simp
  moreover have "shape (n + 2) (insert Probe (insert Retransmit T)) acts"
    using assms(1) by (rule shape_mono) auto
  moreover have "shape (n + 2) (insert Probe (insert Retransmit T))
      (if snd_wnd t' = 0 \<and> 0 < unsent t' then arm_probe t' acts' now else acts')"
    using p by (rule shape_mono) auto
  ultimately show ?thesis
    by (simp add: send_what_we_can_def e Let_def insert_commute)
qed

lemma send_what_we_can_idle: "\<not> sending (tcb_state t) \<Longrightarrow> send_what_we_can t acts now = (t, acts)"
  by (simp add: send_what_we_can_def)

lemma shape_abort:
  "shape n T acts \<Longrightarrow> n \<le> 9 \<Longrightarrow> shape (n + 2) T (snd (abort_conn t acts))"
  by (auto simp: abort_conn_def Let_def intro!: shape_push elim: shape_mono)

lemma shape_enter_time_wait:
  "shape n T acts \<Longrightarrow> n \<le> 11 \<Longrightarrow>
     shape n (insert TimeWaitTimer (insert Retransmit T)) (snd (enter_time_wait t acts now))"
  by (simp add: enter_time_wait_def Let_def shape_push_timer)

lemma shape_reopen_window:
  "shape n T acts \<Longrightarrow> n \<le> 10 \<Longrightarrow>
     shape (Suc n) (insert DelayedAck T) (snd (reopen_window t acts bytes))"
  by (auto simp: reopen_window_def Let_def intro!: shape_acknowledge_now elim: shape_mono)

lemma shape_resend: "shape n T acts \<Longrightarrow> n \<le> 9 \<Longrightarrow> shape (n + 2) T (snd (resend t acts))"
proof -
  assume a: "shape n T acts" "n \<le> 9"
  obtain t' acts' b where e: "send_segment t acts True = ((t', acts'), b)"
    by (metis surj_pair)
  have "shape (Suc n) T acts'"
    using shape_send_segment [of n T acts t True] a e by simp
  then show ?thesis
    using a by (cases "tcb_state t")
      (auto simp: resend_def e intro!: shape_push elim: shape_mono split: option.split)
qed

lemma shape_resend_eq:
  "resend t acts = (t', acts') \<Longrightarrow> shape n T acts \<Longrightarrow> n \<le> 9 \<Longrightarrow> shape (n + 2) T acts'"
  using shape_resend [of n T acts t] by simp

lemma shape_retransmit:
  assumes "shape n T acts" "n \<le> 9"
  shows "shape (n + 2) (insert Retransmit T) (snd (retransmit t acts now))"
proof -
  have "shape (n + 2) (insert Retransmit T) (arm_retransmit t' acts' now)"
    if "resend t1 acts = (t', acts')" for t1 t' acts'
    using shape_arm_retransmit [OF shape_resend_eq [OF that assms]] assms(2) by simp
  moreover have "shape (n + 2) (insert Retransmit T) (push acts (ActClosed Unreachable))"
    using shape_push [OF assms(1), of "ActClosed Unreachable"] assms(2) by (auto elim: shape_mono)
  moreover have "shape (n + 2) (insert Retransmit T) acts"
    using assms(1) by (rule shape_mono) auto
  ultimately show ?thesis
    by (simp add: retransmit_def Let_def split: prod.split)
qed

lemma shape_probe:
  "shape n T acts \<Longrightarrow> n \<le> 9 \<Longrightarrow>
     shape (Suc n) (insert Retransmit (insert Probe T)) (snd (probe t acts now))"
  by (auto simp: probe_def Let_def intro!: shape_arm_retransmit shape_arm_probe shape_push
      elim: shape_mono)

lemma shape_expired:
  "shape (0::nat) {} acts \<Longrightarrow> shape 2 UNIV (snd (expired t acts tm now))"
  using shape_retransmit [of 0 "{}" acts t now] shape_probe [of 0 "{}" acts t now]
    shape_acknowledge_now [of 0 "{}" acts t]
    shape_push [of 0 "{}" acts "ActClosed Orderly"]
  by (auto simp: expired_def elim: shape_mono split: timer.split)

subsection \<open>Arriving segments\<close>

lemma shape_closed_arrival: "shape n T acts \<Longrightarrow> n \<le> 11 \<Longrightarrow> shape (Suc n) T (closed_arrival acts s)"
  by (auto simp: closed_arrival_def intro!: shape_push elim: shape_mono split: option.split)

lemma shape_listen_arrival:
  "shape 0 {} acts \<Longrightarrow> shape 1 {Retransmit} (snd (listen_arrival t acts s now))"
  using shape_closed_arrival [of 0 "{}" acts s]
  by (auto simp: listen_arrival_def Let_def intro!: shape_arm_retransmit shape_push elim: shape_mono)

lemma shape_syn_sent_ok:
  assumes "shape 0 {} acts"
  shows "shape 3 {Retransmit, DelayedAck, Probe} (snd (syn_sent_ok t acts s now))"
proof -
  have ack: "shape 3 {Retransmit, DelayedAck, Probe}
      (snd (send_what_we_can t2 (arm_retransmit t3 (snd (acknowledge_now t4 acts)) now) now))"
    for t2 t3 t4
  proof -
    have "shape 1 {Retransmit, DelayedAck} (arm_retransmit t3 (snd (acknowledge_now t4 acts)) now)"
      using shape_arm_retransmit [OF shape_acknowledge_now [OF assms]] by simp
    from shape_send_what_we_can [OF this, of t2 now] show ?thesis
      by (auto elim: shape_mono)
  qed
  have syn: "shape 3 {Retransmit, DelayedAck, Probe}
      (arm_retransmit t2 (push acts (emission f q a w l m)) now)" for t2 f q a w l m
    using shape_arm_retransmit [OF shape_push [OF assms, of "emission f q a w l m"], of t2 now]
    by (auto elim: shape_mono)
  have "shape 3 {Retransmit, DelayedAck, Probe} (push acts (ActClosed Refused))"
    using shape_push [OF assms, of "ActClosed Refused"] by (auto elim: shape_mono)
  moreover have "shape 3 {Retransmit, DelayedAck, Probe} acts"
    using assms by (auto elim: shape_mono)
  ultimately show ?thesis
    using ack syn by (simp add: syn_sent_ok_def Let_def case_prod_beta)
qed

lemma shape_syn_sent_arrival:
  assumes "shape 0 {} acts"
  shows "shape 3 {Retransmit, DelayedAck, Probe} (snd (syn_sent_arrival t acts s now))"
proof -
  have "shape 3 {Retransmit, DelayedAck, Probe} (push acts (emission RST ack None 0 0 None))" for ack
    using shape_push [OF assms, of "emission RST ack None 0 0 None"] by (auto elim: shape_mono)
  moreover have "shape 3 {Retransmit, DelayedAck, Probe} acts"
    using assms by (auto elim: shape_mono)
  ultimately show ?thesis
    using shape_syn_sent_ok [OF assms] by (simp add: syn_sent_arrival_def split: option.split)
qed

lemma shape_advance_after_ack:
  assumes "shape 1 {Retransmit} acts"
  shows "shape 2 {Retransmit, TimeWaitTimer} (snd (advance_after_ack t acts now))"
    and "tcb_state (fst (advance_after_ack t acts now)) \<notin> {Closed, TimeWait} \<Longrightarrow>
           shape 1 {Retransmit} (snd (advance_after_ack t acts now))"
proof -
  have "shape 2 {Retransmit, TimeWaitTimer} (snd (enter_time_wait t acts now))"
    using shape_enter_time_wait [OF assms, of t now] by (auto elim: shape_mono)
  moreover have "shape 2 {Retransmit, TimeWaitTimer} (push acts (ActClosed Orderly))"
    using shape_push [OF assms, of "ActClosed Orderly"] by (auto elim: shape_mono)
  moreover have "shape 2 {Retransmit, TimeWaitTimer} acts"
    using assms by (auto elim: shape_mono)
  ultimately show "shape 2 {Retransmit, TimeWaitTimer} (snd (advance_after_ack t acts now))"
    by (simp add: advance_after_ack_def Let_def split: state.split)
  show "shape 1 {Retransmit} (snd (advance_after_ack t acts now))"
    if "tcb_state (fst (advance_after_ack t acts now)) \<notin> {Closed, TimeWait}"
    using that assms by (auto simp: advance_after_ack_def Let_def split: state.splits if_splits)
qed

lemma ack_new_data_cases:
  obtains "ack_new_data t acts ack now = (t, acts)"
  | t2 b where "ack_new_data t acts ack now =
      advance_after_ack t2
        (arm_retransmit t2 (if 0 < b then push acts (Acknowledged b) else acts) now) now"
  by (cases "follows ack (snd_una t)") (simp_all add: ack_new_data_def Let_def)

lemma shape_ack_new_data:
  assumes "shape 0 {Retransmit} acts"
  shows "shape 2 {Retransmit, TimeWaitTimer} (snd (ack_new_data t acts ack now))"
    and "tcb_state (fst (ack_new_data t acts ack now)) \<notin> {Closed, TimeWait} \<Longrightarrow>
           shape 1 {Retransmit} (snd (ack_new_data t acts ack now))"
proof -
  have "shape 1 {Retransmit} (if 0 < b then push acts (Acknowledged b) else acts)" for b
    using shape_push [OF assms, of "Acknowledged b"] shape_mono [OF assms, of 1 "{Retransmit}"]
    by simp
  from shape_arm_retransmit [OF this]
  have *: "shape 1 {Retransmit} (arm_retransmit t2
      (if 0 < b then push acts (Acknowledged b) else acts) now)" for b t2
    by simp
  have **: "shape 2 {Retransmit, TimeWaitTimer} acts" "shape 1 {Retransmit} acts"
    using assms by (auto elim: shape_mono)
  show "shape 2 {Retransmit, TimeWaitTimer} (snd (ack_new_data t acts ack now))"
    by (rule ack_new_data_cases [of t acts ack now])
      (simp_all only: snd_conv ** shape_advance_after_ack(1) [OF *])
  show "shape 1 {Retransmit} (snd (ack_new_data t acts ack now))"
    if "tcb_state (fst (ack_new_data t acts ack now)) \<notin> {Closed, TimeWait}"
    by (rule ack_new_data_cases [of t acts ack now])
      (use that ** shape_advance_after_ack(2) [OF *] in \<open>simp_all only: snd_conv\<close>)
qed

lemma update_window_fst [simp]: "fst (update_window t acts s) = t\<lparr>snd_wnd := window s\<rparr>"
  by (simp add: update_window_def Let_def)

lemma shape_update_window:
  "shape n T acts \<Longrightarrow> n \<le> 11 \<Longrightarrow> shape n (insert Probe T) (snd (update_window t acts s))"
  by (auto simp: update_window_def Let_def intro!: shape_push_timer elim: shape_mono)

lemma process_ack_cases:
  assumes "shape 0 {} acts"
  obtains (stop) "process_ack t acts s ack now = (acknowledge_now t acts, False)"
  | (ignore) "process_ack t acts s ack now = ((t, acts), False)"
  | (go_on) t1 acts1 where "shape 0 {Retransmit} acts1" and
      "process_ack t acts s ack now =
        (update_window (fst (ack_new_data t1 acts1 ack now))
           (snd (ack_new_data t1 acts1 ack now)) s, True)"
proof -
  have "shape 0 {Retransmit} acts" "shape 0 {Retransmit} (arm_retransmit t2 acts now)" for t2
    using assms shape_arm_retransmit [OF assms] by (auto elim: shape_mono)
  note shapes = this
  let ?t = "finish_timing (t\<lparr>tcb_state := Established, snd_una := ack\<rparr>) ack now"
  consider "follows ack (snd_nxt t)"
    | "\<not> follows ack (snd_nxt t)" "tcb_state t = SynReceived" "\<not> follows ack (iss t)"
    | "\<not> follows ack (snd_nxt t)" "tcb_state t = SynReceived" "follows ack (iss t)"
    | "\<not> follows ack (snd_nxt t)" "tcb_state t \<noteq> SynReceived"
    by blast
  then show ?thesis
  proof cases
    case 3
    then show ?thesis
      by (intro go_on [OF shapes(2) [of ?t], of ?t]) (simp add: process_ack_def Let_def case_prod_beta)
  next
    case 4
    then show ?thesis
      by (intro go_on [OF shapes(1), of t]) (simp add: process_ack_def Let_def case_prod_beta)
  qed (simp_all add: process_ack_def stop ignore)
qed

lemma shape_process_ack:
  assumes "shape 0 {} acts" "process_ack t acts s ack now = ((t', acts'), b)"
  shows "\<not> b \<Longrightarrow> shape 1 {DelayedAck} acts'"
    and "b \<Longrightarrow> shape 2 {Retransmit, Probe, TimeWaitTimer} acts'"
    and "b \<Longrightarrow> tcb_state t' \<notin> {Closed, TimeWait} \<Longrightarrow> shape 1 {Retransmit, Probe} acts'"
proof -
  have "(\<not> b \<longrightarrow> shape 1 {DelayedAck} acts') \<and>
        (b \<longrightarrow> shape 2 {Retransmit, Probe, TimeWaitTimer} acts') \<and>
        (b \<longrightarrow> tcb_state t' \<notin> {Closed, TimeWait} \<longrightarrow> shape 1 {Retransmit, Probe} acts')"
  proof (rule process_ack_cases [OF assms(1), of t s ack now])
    assume "process_ack t acts s ack now = (acknowledge_now t acts, False)"
    with assms(2) shape_acknowledge_now [OF assms(1), of t] show ?thesis
      by simp
  next
    assume "process_ack t acts s ack now = ((t, acts), False)"
    with assms show ?thesis
      by (auto elim: shape_mono)
  next
    fix t1 acts1
    let ?r = "ack_new_data t1 acts1 ack now"
    assume a: "shape 0 {Retransmit} acts1"
      "process_ack t acts s ack now = (update_window (fst ?r) (snd ?r) s, True)"
    then have eq: "update_window (fst ?r) (snd ?r) s = (t', acts')" "b"
      using assms(2) by simp_all
    from eq have t': "tcb_state t' = tcb_state (fst ?r)" and acts': "acts' = snd (update_window (fst ?r) (snd ?r) s)"
      using update_window_fst [of "fst ?r" "snd ?r" s] by auto
    have "shape 2 {Retransmit, Probe, TimeWaitTimer} acts'"
      using shape_update_window [OF shape_ack_new_data(1) [OF a(1)]] acts' by (simp add: insert_commute)
    moreover have "shape 1 {Retransmit, Probe} acts'" if "tcb_state t' \<notin> {Closed, TimeWait}"
      using shape_update_window [OF shape_ack_new_data(2) [OF a(1)]] that t' acts'
      by (simp add: insert_commute)
    ultimately show ?thesis
      using eq(2) by blast
  qed
  then show "\<not> b \<Longrightarrow> shape 1 {DelayedAck} acts'"
    and "b \<Longrightarrow> shape 2 {Retransmit, Probe, TimeWaitTimer} acts'"
    and "b \<Longrightarrow> tcb_state t' \<notin> {Closed, TimeWait} \<Longrightarrow> shape 1 {Retransmit, Probe} acts'"
    by blast+
qed

lemma shape_peer_closed:
  assumes "shape n T acts" "n \<le> 10"
  shows "shape (Suc n) UNIV (snd (peer_closed t acts now))"
    and "tcb_state (fst (peer_closed t acts now)) \<noteq> TimeWait \<or> tcb_state t = TimeWait \<Longrightarrow>
           shape (Suc n) (insert DelayedAck T) (snd (peer_closed t acts now))"
proof -
  note ack = shape_acknowledge_now [OF assms, of t]
  have "shape (Suc n) UNIV (snd (enter_time_wait t2 (snd (acknowledge_now t acts)) now))" for t2
    using shape_enter_time_wait [OF ack, of t2 now] assms(2) by (auto elim: shape_mono)
  then show "shape (Suc n) UNIV (snd (peer_closed t acts now))"
    using shape_mono [OF ack le_refl subset_UNIV]
    by (simp add: peer_closed_def case_prod_beta split: state.split)
  show "shape (Suc n) (insert DelayedAck T) (snd (peer_closed t acts now))"
    if "tcb_state (fst (peer_closed t acts now)) \<noteq> TimeWait \<or> tcb_state t = TimeWait"
    using that ack by (auto simp: peer_closed_def case_prod_beta split: state.splits)
qed

lemma shape_acknowledge_or_delay:
  "shape n T acts \<Longrightarrow> n \<le> 10 \<Longrightarrow>
     shape (Suc n) (insert DelayedAck T) (snd (acknowledge_or_delay t acts now))"
  by (auto simp: acknowledge_or_delay_def Let_def intro!: shape_acknowledge_now shape_push_timer
      elim: shape_mono)

lemma deliver_state [simp]: "tcb_state (fst (fst (deliver t acts s))) = tcb_state t"
  by (simp add: deliver_def Let_def)

lemma deliver_idle: "\<not> can_receive (tcb_state t) \<Longrightarrow> deliver t acts s = ((t, acts), 0)"
  by (simp add: deliver_def)

lemma shape_deliver: "shape n T acts \<Longrightarrow> n \<le> 11 \<Longrightarrow> shape (Suc n) T (snd (fst (deliver t acts s)))"
  by (auto simp: deliver_def Let_def intro!: shape_push elim: shape_mono)

lemma acknowledge_or_delay_state [simp]:
  "tcb_state (fst (acknowledge_or_delay t acts now)) = tcb_state t"
  by (simp add: acknowledge_or_delay_def Let_def)

lemma peer_closed_stays:
  "tcb_state t \<in> {Closed, TimeWait} \<Longrightarrow> tcb_state (fst (peer_closed t acts now)) = tcb_state t"
  by (auto simp: peer_closed_def case_prod_beta)

lemma take_data_cases:
  obtains (fin) t1 where "tcb_state t1 = tcb_state t"
      "take_data t acts s now = peer_closed t1 (snd (fst (deliver t acts s))) now"
  | (data) t1 where "tcb_state t1 = tcb_state t"
      "take_data t acts s now = acknowledge_or_delay t1 (snd (fst (deliver t acts s))) now"
  | (quiet) "take_data t acts s now = fst (deliver t acts s)"
proof -
  obtain t1 a1 d where e: "deliver t acts s = ((t1, a1), d)"
    by (metis surj_pair)
  then have "tcb_state t1 = tcb_state t"
    using deliver_state [of t acts s] by simp
  note st = this
  let ?fin = "has_flags (flags s) FIN \<and> unat d = length (payload s) \<and>
    sequence s + ucast d = rcv_nxt t1 \<and> \<not> fin_received t1"
  consider ?fin | "\<not> ?fin" "0 < d" | "\<not> ?fin" "\<not> 0 < d"
    by blast
  then show ?thesis
  proof cases
    case 1
    then show ?thesis
      using st by (intro fin [of "t1\<lparr>fin_received := True, rcv_nxt := rcv_nxt t1 + 1\<rparr>"])
        (simp_all add: take_data_def e)
  next
    case 2
    then show ?thesis
      using st by (intro data [of t1]) (auto simp: take_data_def e Let_def)
  next
    case 3
    then show ?thesis
      by (intro quiet) (auto simp: take_data_def e Let_def)
  qed
qed

lemma shape_take_data_over:
  assumes "shape 2 {Retransmit, Probe, TimeWaitTimer} acts" "tcb_state t \<in> {Closed, TimeWait}"
  shows "shape 3 UNIV (snd (take_data t acts s now))"
    and "tcb_state (fst (take_data t acts s now)) = tcb_state t"
proof -
  have d: "deliver t acts s = ((t, acts), 0)"
    using assms(2) by (auto intro: deliver_idle)
  have "shape 3 UNIV (snd (take_data t acts s now)) \<and>
        tcb_state (fst (take_data t acts s now)) = tcb_state t"
    using assms(2) shape_mono [OF assms(1), of 3 UNIV]
      shape_peer_closed(1) [OF assms(1), of "t\<lparr>fin_received := True, rcv_nxt := rcv_nxt t + 1\<rparr>" now]
      peer_closed_stays [of "t\<lparr>fin_received := True, rcv_nxt := rcv_nxt t + 1\<rparr>" acts now]
    by (simp add: take_data_def d Let_def numeral_3_eq_3 numeral_2_eq_2)
  then show "shape 3 UNIV (snd (take_data t acts s now))"
    and "tcb_state (fst (take_data t acts s now)) = tcb_state t"
    by simp_all
qed

lemma shape_take_data:
  assumes "shape 1 {Retransmit, Probe} acts"
  shows "shape 3 UNIV (snd (take_data t acts s now))"
    and "sending (tcb_state (fst (take_data t acts s now))) \<Longrightarrow>
           shape 3 {Retransmit, DelayedAck, Probe} (snd (take_data t acts s now))"
proof -
  have d: "shape 2 {Retransmit, Probe} (snd (fst (deliver t acts s)))"
    using shape_deliver [OF assms, of t s] by (simp add: numeral_2_eq_2)
  have "shape 3 UNIV (snd (take_data t acts s now)) \<and>
      (sending (tcb_state (fst (take_data t acts s now))) \<longrightarrow>
         shape 3 {Retransmit, DelayedAck, Probe} (snd (take_data t acts s now)))"
  proof (rule take_data_cases [of t acts s now])
    fix t1
    assume "take_data t acts s now = peer_closed t1 (snd (fst (deliver t acts s))) now"
    then show ?thesis
      using shape_peer_closed [OF d, of t1 now] by (auto simp: insert_commute can_send_iff)
  next
    fix t1
    assume "take_data t acts s now = acknowledge_or_delay t1 (snd (fst (deliver t acts s))) now"
    then show ?thesis
      using shape_acknowledge_or_delay [OF d, of t1 now] by (auto simp: insert_commute elim: shape_mono)
  next
    assume "take_data t acts s now = fst (deliver t acts s)"
    then show ?thesis
      using d by (auto elim: shape_mono)
  qed
  then show "shape 3 UNIV (snd (take_data t acts s now))"
    and "sending (tcb_state (fst (take_data t acts s now))) \<Longrightarrow>
           shape 3 {Retransmit, DelayedAck, Probe} (snd (take_data t acts s now))"
    by simp_all
qed

definition eight :: "actions \<Rightarrow> bool" where
  "eight acts \<longleftrightarrow> (\<exists>n T. shape n T acts \<and> n + card T \<le> 8)"

lemma eightI: "shape n T acts \<Longrightarrow> n + card T \<le> 8 \<Longrightarrow> eight acts"
  by (auto simp: eight_def)

lemma eight_small: "shape 4 UNIV acts \<Longrightarrow> eight acts"
  by (erule eightI) (use card_timer_le [of UNIV] in linarith)

lemma eight_send:
  assumes "shape 3 UNIV acts"
    and "sending (tcb_state t) \<Longrightarrow> shape 3 {Retransmit, DelayedAck, Probe} acts"
  shows "eight (snd (send_what_we_can t acts now))"
proof (cases "sending (tcb_state t)")
  case True
  from shape_send_what_we_can [OF assms(2) [OF True], of t now]
  have "shape 5 {Retransmit, DelayedAck, Probe} (snd (send_what_we_can t acts now))"
    by (simp add: insert_commute insert_absorb)
  then show ?thesis
    by (rule eightI) simp
next
  case False
  then show ?thesis
    using shape_mono [OF assms(1), of 4 UNIV] by (simp add: send_what_we_can_idle eight_small)
qed

lemma eight_after_ack:
  assumes "shape 0 {} acts" "process_ack t acts s ack now = ((t', acts'), True)"
  shows "eight (snd (send_what_we_can (fst (take_data t' acts' s now))
                       (snd (take_data t' acts' s now)) now))"
proof (cases "tcb_state t' \<in> {Closed, TimeWait}")
  case True
  from shape_take_data_over [OF shape_process_ack(2) [OF assms] this, of s now] True
  show ?thesis
    by (intro eight_send) auto
next
  case False
  from shape_take_data [OF shape_process_ack(3) [OF assms _ False], of t' s now]
  show ?thesis
    by (intro eight_send) auto
qed

lemma eight_synchronised_arrival:
  assumes "shape 0 {} acts"
  shows "eight (snd (synchronised_arrival t acts s now))"
proof -
  have "eight (snd (acknowledge_now t acts))"
    using shape_acknowledge_now [OF assms, of t] by (auto intro!: eight_small elim: shape_mono)
  moreover have "eight acts"
    using assms by (auto intro!: eight_small elim: shape_mono)
  moreover have "eight (push acts (ActClosed e))" for e
    using shape_push [OF assms, of "ActClosed e"] by (auto intro!: eight_small elim: shape_mono)
  moreover have "eight (snd (abort_conn t acts))"
    using shape_abort [OF assms, of t] by (auto intro!: eight_small elim: shape_mono)
  moreover have "eight (snd (case process_ack t acts s a now of ((t, acts), go_on) \<Rightarrow>
      if \<not> go_on then (t, acts)
      else (case take_data t acts s now of (t, acts) \<Rightarrow> send_what_we_can t acts now)))" for a
  proof -
    obtain t' acts' b where e: "process_ack t acts s a now = ((t', acts'), b)"
      by (metis surj_pair)
    show ?thesis
      using e eight_after_ack [OF assms, of t s a now t' acts'] shape_process_ack(1) [OF assms e]
      by (cases b) (auto simp: case_prod_beta intro!: eight_small elim: shape_mono)
  qed
  ultimately show ?thesis
    by (simp add: synchronised_arrival_def split: option.split)
qed

lemma eight_arrived: "shape 0 {} acts \<Longrightarrow> eight (snd (arrived t acts s now))"
  using shape_closed_arrival [of 0 "{}" acts s] shape_listen_arrival [of acts t s now]
    shape_syn_sent_arrival [of acts t s now] eight_synchronised_arrival [of acts t s now]
  by (auto simp: arrived_def intro!: eight_small elim: shape_mono split: state.split)

lemma eight_open_conn: "shape 0 {} acts \<Longrightarrow> eight (snd (open_conn t acts i w p now))"
  by (rule eight_small)
    (auto simp: open_conn_def Let_def intro!: shape_mono [OF shape_arm_retransmit [OF shape_push]]
      elim: shape_mono)

lemma eight_shutdown_conn: "shape 0 {} acts \<Longrightarrow> eight (snd (shutdown_conn t acts now))"
  using shape_push [of 0 "{}" acts "ActClosed Aborted"]
    shape_send_what_we_can [of 0 "{}" acts "t\<lparr>fin_queued := True\<rparr>" now]
  by (auto simp: shutdown_conn_def intro!: eight_small elim: shape_mono)

lemma eight_step: "eight (snd (step t ev now))"
proof -
  let ?a = actions_new
  have "eight (snd (send_what_we_can t2 ?a now))" for t2
    using shape_send_what_we_can [of 0 "{}" ?a t2 now] by (auto intro!: eight_small elim: shape_mono)
  moreover have "eight (snd (reopen_window t ?a b))" for b
    using shape_reopen_window [of 0 "{}" ?a t b] by (auto intro!: eight_small elim: shape_mono)
  moreover have "eight (snd (abort_conn t ?a))"
    using shape_abort [of 0 "{}" ?a t] by (auto intro!: eight_small elim: shape_mono)
  moreover have "eight (snd (expired t ?a tm now))" for tm
    using shape_expired [of ?a t tm now] by (auto intro!: eight_small elim: shape_mono)
  ultimately show ?thesis
    by (simp add: step_def eight_open_conn eight_shutdown_conn eight_arrived split: event.split)
qed

end
