(* ===== verification/TcpInv.thy ===== *)
theory TcpInv
  imports TcpActions
begin

text \<open>
  Invariants of the control block: the bounds of the fields, the bookkeeping of the two \<open>FIN\<close>s, and
  the states one step can lead to.
\<close>

named_theorems tcb_keeps \<open>an invariant of the control block is kept by one of the functions\<close>

subsection \<open>Bounds of the fields\<close>

text \<open>A round-trip sample is a difference of nanosecond clocks in microseconds.\<close>

definition MAX_SAMPLE :: nat where "MAX_SAMPLE = (2 ^ 64 - 1) div 1000"

definition rtt_ok :: "tcb \<Rightarrow> bool" where
  "rtt_ok t \<longleftrightarrow> unat (rttvar_us t) \<le> MAX_SAMPLE \<and>
     (\<forall>srtt. srtt_us t = Some srtt \<longrightarrow> unat srtt \<le> MAX_SAMPLE)"

definition basic_ok :: "tcb \<Rightarrow> bool" where
  "basic_ok t \<longleftrightarrow> rcv_wnd t \<le> rcv_capacity t \<and> MIN_RTO_US \<le> rto_us t \<and> rto_us t \<le> MAX_RTO_US \<and>
     retransmits t \<le> MAX_RETRANSMITS \<and> mss t \<le> DEFAULT_MSS \<and> rtt_ok t"

lemma MAX_SAMPLE_eq: "MAX_SAMPLE = 18446744073709551"
  by (simp add: MAX_SAMPLE_def)

lemma sample_bound: "unat ((w :: u64) div 1000) \<le> MAX_SAMPLE"
proof -
  have "unat w < 2 ^ 64"
    using unsigned_less [of w] by simp
  then have "unat w div 1000 \<le> MAX_SAMPLE"
    unfolding MAX_SAMPLE_def by (intro div_le_mono) linarith
  then show ?thesis
    by (simp add: unat_div)
qed

text \<open>The two smoothing formulas stay below \<open>2 ^ 64\<close> before they are divided.\<close>

lemma unat_smooth:
  fixes v d :: u64
  assumes "unat v \<le> MAX_SAMPLE" "unat d \<le> MAX_SAMPLE" "k < 8"
  shows "unat (v * of_nat k + d) = unat v * k + unat d"
proof -
  have "unat v * k + unat d \<le> MAX_SAMPLE * 7 + MAX_SAMPLE"
    using assms by (intro add_mono mult_mono) auto
  also have "\<dots> < 2 ^ 64"
    by (simp add: MAX_SAMPLE_eq)
  finally have less: "unat v * k + unat d < 2 ^ 64" .
  have "unat (of_nat k :: u64) = k"
    using assms(3) by (simp add: unat_of_nat)
  then show ?thesis
    using less by (simp add: unat_word_ariths)
qed

lemma unat_abs_diff_le: "unat (word_abs_diff a b) \<le> max (unat a) (unat b)"
  by (auto simp: word_abs_diff_def unat_sub word_less_nat_alt word_le_nat_alt)

lemma rtt_ok_measure:
  assumes "rtt_ok t" "unat u \<le> MAX_SAMPLE"
  shows "rtt_ok (measure_rtt t u)"
proof (cases "srtt_us t")
  case None
  have "unat (u div 2) \<le> MAX_SAMPLE"
    using assms(2) by (simp add: unat_div div_le_dividend le_trans)
  with None assms(2) show ?thesis
    by (simp add: measure_rtt_def rtt_ok_def)
next
  case (Some srtt)
  let ?d = "word_abs_diff srtt u"
  have s: "unat srtt \<le> MAX_SAMPLE" and v: "unat (rttvar_us t) \<le> MAX_SAMPLE"
    using assms(1) Some by (simp_all add: rtt_ok_def)
  have d: "unat ?d \<le> MAX_SAMPLE"
    using unat_abs_diff_le [of srtt u] s assms(2) by linarith
  have "unat (rttvar_us t * 3 + ?d) = unat (rttvar_us t) * 3 + unat ?d"
    using unat_smooth [OF v d, of 3] by simp
  then have "unat ((rttvar_us t * 3 + ?d) div 4) \<le> MAX_SAMPLE"
    using v d by (simp add: unat_div)
  moreover have "unat (srtt * 7 + u) = unat srtt * 7 + unat u"
    using unat_smooth [OF s assms(2), of 7] by simp
  then have "unat ((srtt * 7 + u) div 8) \<le> MAX_SAMPLE"
    using s assms(2) by (simp add: unat_div)
  ultimately show ?thesis
    using Some by (simp add: measure_rtt_def rtt_ok_def Let_def)
qed

lemma clamp_bounds: "lo \<le> hi \<Longrightarrow> lo \<le> clamp v lo hi \<and> clamp v lo hi \<le> hi"
  by (auto simp: clamp_def)

lemma rto_measure: "MIN_RTO_US \<le> rto_us (measure_rtt t u) \<and> rto_us (measure_rtt t u) \<le> MAX_RTO_US"
  using clamp_bounds [of MIN_RTO_US MAX_RTO_US]
  by (simp add: measure_rtt_def Let_def MIN_RTO_US_def MAX_RTO_US_def)

lemma rtt_ok_timing [simp]: "rtt_ok (t\<lparr>timing := x\<rparr>) = rtt_ok t"
  by (simp add: rtt_ok_def)

lemma basic_ok_finish_timing [tcb_keeps]: "basic_ok t \<Longrightarrow> basic_ok (finish_timing t ack now)"
  using rtt_ok_measure [of "t\<lparr>timing := None\<rparr>"] rto_measure sample_bound
  by (simp add: basic_ok_def finish_timing_def split: option.split prod.split)

text \<open>The doubled timeout of a retransmission.\<close>

lemma rto_backoff:
  assumes "MIN_RTO_US \<le> r" "r \<le> MAX_RTO_US"
  shows "MIN_RTO_US \<le> min (sat_mul r 2) MAX_RTO_US"
proof -
  have r: "unat r \<le> 60000000"
    using assms(2) by (simp add: MAX_RTO_US_def word_le_nat_alt)
  then have "unat (r * 2) = unat r * 2"
    by (simp add: unat_word_ariths)
  then have "r \<le> r * 2"
    by (simp add: word_le_nat_alt)
  then have "MIN_RTO_US \<le> sat_mul r 2"
    using assms(1) r by (simp add: sat_mul_def)
  then show ?thesis
    by (simp add: MIN_RTO_US_def MAX_RTO_US_def)
qed

lemma basic_ok_updates [simp]:
  "basic_ok (t\<lparr>tcb_state := st\<rparr>) = basic_ok t" "basic_ok (t\<lparr>snd_una := q\<rparr>) = basic_ok t"
  "basic_ok (t\<lparr>snd_nxt := q\<rparr>) = basic_ok t" "basic_ok (t\<lparr>snd_avail := q\<rparr>) = basic_ok t"
  "basic_ok (t\<lparr>snd_wnd := w\<rparr>) = basic_ok t" "basic_ok (t\<lparr>iss := q\<rparr>) = basic_ok t"
  "basic_ok (t\<lparr>fin_seq := fq\<rparr>) = basic_ok t" "basic_ok (t\<lparr>fin_queued := b\<rparr>) = basic_ok t"
  "basic_ok (t\<lparr>rcv_nxt := q\<rparr>) = basic_ok t" "basic_ok (t\<lparr>irs := q\<rparr>) = basic_ok t"
  "basic_ok (t\<lparr>fin_received := b\<rparr>) = basic_ok t" "basic_ok (t\<lparr>timing := tg\<rparr>) = basic_ok t"
  "basic_ok (t\<lparr>since_ack := k\<rparr>) = basic_ok t"
  by (simp_all add: basic_ok_def rtt_ok_def)

lemma basic_ok_new: "basic_ok (tcb_new c)"
  by (simp add: basic_ok_def rtt_ok_def tcb_new_def INITIAL_RTO_US_def MIN_RTO_US_def MAX_RTO_US_def)

lemma basic_ok_from_cookie: "m \<le> DEFAULT_MSS \<Longrightarrow> basic_ok (from_cookie c k i pw cap m)"
  by (simp add: basic_ok_def rtt_ok_def from_cookie_def Let_def INITIAL_RTO_US_def MIN_RTO_US_def
      MAX_RTO_US_def)

lemma basic_ok_start_timing [tcb_keeps]: "basic_ok t \<Longrightarrow> basic_ok (start_timing t now)"
  by (simp add: start_timing_def)

lemma basic_ok_advance_close [simp]: "basic_ok (advance_close_state t) = basic_ok t"
  by (simp add: advance_close_state_def)

lemma basic_ok_send_segment [tcb_keeps]: "basic_ok t \<Longrightarrow> basic_ok (fst (fst (send_segment t acts r)))"
  by (simp add: send_segment_def Let_def)

lemma basic_ok_send_segments [tcb_keeps]:
  "basic_ok t \<Longrightarrow> basic_ok (fst (fst (send_segments n t acts b)))"
proof (induction n arbitrary: t acts b)
  case (Suc n)
  then show ?case
    using basic_ok_send_segment [OF Suc.prems, of acts False] by (auto split: prod.split)
qed simp

lemma basic_ok_send_what_we_can [tcb_keeps]:
  "basic_ok t \<Longrightarrow> basic_ok (fst (send_what_we_can t acts now))"
  using basic_ok_send_segments [of t 2 acts False]
  by (auto simp: send_what_we_can_def Let_def intro: basic_ok_start_timing split: prod.split)

lemma basic_ok_open_conn [tcb_keeps]: "basic_ok t \<Longrightarrow> basic_ok (fst (open_conn t acts i w p now))"
  by (simp add: open_conn_def Let_def start_timing_def) (simp add: basic_ok_def rtt_ok_def)

lemma capped_window:
  fixes cap :: u16
  assumes "x \<le> (ucast cap :: u32)"
  shows "unwrap_or (u16_try_from (unat x)) cap \<le> cap"
proof -
  have "unat x \<le> unat cap"
    using assms by (simp add: word_le_nat_alt)
  moreover have "unat cap < 2 ^ 16"
    using unsigned_less [of cap] by simp
  ultimately show ?thesis
    by (simp add: u16_try_from_def word_le_nat_alt unat_ucast_32_16)
qed

lemma basic_ok_reopen_window [tcb_keeps]: "basic_ok t \<Longrightarrow> basic_ok (fst (reopen_window t acts n))"
  using capped_window [of "min (ucast (rcv_capacity t)) x" "rcv_capacity t" for x]
  by (simp add: reopen_window_def Let_def) (simp add: basic_ok_def rtt_ok_def)

lemma basic_ok_shutdown [tcb_keeps]: "basic_ok t \<Longrightarrow> basic_ok (fst (shutdown_conn t acts now))"
  by (simp add: shutdown_conn_def basic_ok_send_what_we_can)

lemma basic_ok_abort [tcb_keeps]: "basic_ok t \<Longrightarrow> basic_ok (fst (abort_conn t acts))"
  by (simp add: abort_conn_def Let_def)

lemma basic_ok_resend [tcb_keeps]: "basic_ok t \<Longrightarrow> basic_ok (fst (resend t acts))"
  using basic_ok_send_segment [of t acts True]
  by (auto simp: resend_def split: state.split prod.split option.split)

lemma basic_ok_retransmit [tcb_keeps]:
  assumes "basic_ok t"
  shows "basic_ok (fst (retransmit t acts now))"
proof -
  let ?t = "t\<lparr>retransmits := retransmits t + 1, rto_us := min (sat_mul (rto_us t) 2) MAX_RTO_US,
    timing := None\<rparr>"
  have "basic_ok ?t" if "\<not> retransmit_limit t \<le> retransmits t"
  proof -
    have "retransmits t < 8"
      using that by (auto simp: retransmit_limit_def MAX_RETRANSMITS_def MAX_SYNACK_RETRANSMITS_def
          word_le_nat_alt word_less_nat_alt split: if_splits)
    then have "retransmits t + 1 \<le> 8"
      by (simp add: word_le_nat_alt word_less_nat_alt unat_word_ariths)
    then show ?thesis
      using assms rto_backoff [of "rto_us t"]
      by (simp add: basic_ok_def rtt_ok_def MAX_RETRANSMITS_def)
  qed
  then show ?thesis
    using assms basic_ok_resend [of "?t\<lparr>snd_nxt := snd_una t\<rparr>" acts]
    by (auto simp: retransmit_def Let_def split: prod.split)
qed

lemma basic_ok_probe [tcb_keeps]: "basic_ok t \<Longrightarrow> basic_ok (fst (probe t acts now))"
  by (simp add: probe_def Let_def)

lemma basic_ok_expired [tcb_keeps]: "basic_ok t \<Longrightarrow> basic_ok (fst (expired t acts tm now))"
  by (simp add: expired_def basic_ok_retransmit basic_ok_probe split: timer.split)

lemma basic_ok_mss: "m \<le> DEFAULT_MSS \<Longrightarrow> basic_ok t \<Longrightarrow> basic_ok (t\<lparr>mss := m\<rparr>)"
  by (simp add: basic_ok_def rtt_ok_def)

lemma negotiated_mss_le: "basic_ok t \<Longrightarrow> negotiated_mss t s \<le> DEFAULT_MSS"
  by (simp add: basic_ok_def negotiated_mss_def split: option.split)

lemma basic_ok_listen_arrival [tcb_keeps]:
  "basic_ok t \<Longrightarrow> basic_ok (fst (listen_arrival t acts s now))"
  using negotiated_mss_le [of t s] by (simp add: listen_arrival_def Let_def start_timing_def basic_ok_mss)

lemma basic_ok_syn_sent_ok [tcb_keeps]: "basic_ok t \<Longrightarrow> basic_ok (fst (syn_sent_ok t acts s now))"
  using negotiated_mss_le [of t s]
  by (simp add: syn_sent_ok_def Let_def case_prod_beta basic_ok_mss basic_ok_send_what_we_can
      basic_ok_finish_timing split: option.split)

lemma basic_ok_syn_sent_arrival [tcb_keeps]:
  "basic_ok t \<Longrightarrow> basic_ok (fst (syn_sent_arrival t acts s now))"
  by (simp add: syn_sent_arrival_def basic_ok_syn_sent_ok split: option.split)

lemma basic_ok_advance_after_ack [tcb_keeps]:
  "basic_ok t \<Longrightarrow> basic_ok (fst (advance_after_ack t acts now))"
  by (simp add: advance_after_ack_def Let_def split: state.split)

lemma basic_ok_ack_new_data [tcb_keeps]:
  assumes "basic_ok t"
  shows "basic_ok (fst (ack_new_data t acts ack now))"
proof -
  have "basic_ok (t\<lparr>snd_una := ack, retransmits := 0\<rparr>)"
    using assms by (simp add: basic_ok_def rtt_ok_def)
  then show ?thesis
    using assms
    by (simp add: ack_new_data_def Let_def basic_ok_advance_after_ack basic_ok_finish_timing)
qed

lemma basic_ok_process_ack [tcb_keeps]:
  "basic_ok t \<Longrightarrow> basic_ok (fst (fst (process_ack t acts s ack now)))"
  by (simp add: process_ack_def Let_def case_prod_beta basic_ok_ack_new_data basic_ok_finish_timing)

lemma basic_ok_deliver [tcb_keeps]: "basic_ok t \<Longrightarrow> basic_ok (fst (fst (deliver t acts s)))"
proof -
  assume a: "basic_ok t"
  have "rcv_wnd t - min len (rcv_wnd t) \<le> rcv_capacity t" for len
  proof -
    have "rcv_wnd t - min len (rcv_wnd t) \<le> rcv_wnd t"
      by (rule word_sub_le) simp
    also have "\<dots> \<le> rcv_capacity t"
      using a by (simp add: basic_ok_def)
    finally show ?thesis .
  qed
  with a show ?thesis
    by (simp add: deliver_def Let_def) (simp add: basic_ok_def rtt_ok_def)
qed

lemma basic_ok_peer_closed [tcb_keeps]: "basic_ok t \<Longrightarrow> basic_ok (fst (peer_closed t acts now))"
  by (simp add: peer_closed_def case_prod_beta split: state.split)

lemma basic_ok_take_data [tcb_keeps]: "basic_ok t \<Longrightarrow> basic_ok (fst (take_data t acts s now))"
  using basic_ok_deliver [of t acts s]
  by (auto simp: take_data_def Let_def acknowledge_or_delay_def basic_ok_peer_closed split: prod.split)

lemma basic_ok_synchronised_arrival [tcb_keeps]:
  "basic_ok t \<Longrightarrow> basic_ok (fst (synchronised_arrival t acts s now))"
  by (simp add: synchronised_arrival_def case_prod_beta basic_ok_abort basic_ok_process_ack
      basic_ok_take_data basic_ok_send_what_we_can split: option.split)

lemma basic_ok_step: "basic_ok t \<Longrightarrow> basic_ok (fst (step t ev now))"
  by (simp add: step_def arrived_def tcb_keeps split: event.split state.split)

subsection \<open>The life of a connection\<close>

text \<open>The states one step can lead to. \<open>Closed\<close> can follow every state.\<close>

fun successors :: "state \<Rightarrow> state set" where
  "successors Closed = {Closed, Listen, SynSent}"
| "successors Listen = {Listen, SynReceived, Closed}"
| "successors SynSent = {SynSent, SynReceived, Established, Closed}"
| "successors SynReceived = {SynReceived, Established, FinWait1, CloseWait, LastAck, Closed}"
| "successors Established = {Established, FinWait1, CloseWait, LastAck, Closed}"
| "successors FinWait1 = {FinWait1, FinWait2, Closing, TimeWait, Closed}"
| "successors FinWait2 = {FinWait2, TimeWait, Closed}"
| "successors CloseWait = {CloseWait, LastAck, Closed}"
| "successors Closing = {Closing, TimeWait, Closed}"
| "successors LastAck = {LastAck, Closed}"
| "successors TimeWait = {TimeWait, Closed}"

fun after_fin :: "state \<Rightarrow> state" where
  "after_fin Established = FinWait1"
| "after_fin SynReceived = FinWait1"
| "after_fin CloseWait = LastAck"
| "after_fin st = st"

lemma advance_close_eq: "advance_close_state t = t\<lparr>tcb_state := after_fin (tcb_state t)\<rparr>"
  by (cases "tcb_state t") (simp_all add: advance_close_state_def)

text \<open>The three outcomes of \<open>send_segment\<close>: nothing, data, and a \<open>FIN\<close> with what is before it.\<close>

lemma send_segment_cases:
  obtains (none) "send_segment t acts r = ((t, acts), False)" "segment_length t = 0" "\<not> fin_now t r"
  | (data) acts' where "\<not> fin_now t r" "segment_length t \<noteq> 0"
      "send_segment t acts r =
        ((t\<lparr>since_ack := 0, snd_nxt := snd_nxt t + ucast (segment_length t)\<rparr>, acts'), True)"
      "acts' = push acts (emission PSH (snd_nxt t) (Some (rcv_nxt t)) (rcv_wnd t) (segment_length t) None)"
  | (fin) acts' f where "fin_now t r"
      "send_segment t acts r =
        ((t\<lparr>since_ack := 0, fin_seq := Some (snd_nxt t + ucast (segment_length t)),
            snd_nxt := snd_nxt t + ucast (segment_length t) + 1,
            tcb_state := after_fin (tcb_state t)\<rparr>, acts'), True)"
      "acts' = push acts (emission f (snd_nxt t) (Some (rcv_nxt t)) (rcv_wnd t) (segment_length t) None)"
proof -
  consider "segment_length t = 0" "\<not> fin_now t r" | "segment_length t \<noteq> 0" "\<not> fin_now t r" | "fin_now t r"
    by blast
  then show ?thesis
  proof cases
    case 1
    then show ?thesis
      by (intro none) (simp_all add: send_segment_def)
  next
    case 2
    then have "0 < segment_length t"
      by (simp add: word_neq_0_conv)
    with 2 show ?thesis
      by (intro data) (simp_all add: send_segment_def Let_def flag_defs)
  next
    case 3
    then show ?thesis
      by (intro fin) (simp_all add: send_segment_def Let_def advance_close_eq)
  qed
qed

lemma send_segments_state:
  "tcb_state (fst (fst (send_segments n t acts b))) =
     (if fin_seq (fst (fst (send_segments n t acts b))) = fin_seq t then tcb_state t
      else after_fin (tcb_state t)) \<and>
   (fin_seq t \<noteq> None \<or> \<not> fin_queued t \<longrightarrow> fin_seq (fst (fst (send_segments n t acts b))) = fin_seq t) \<and>
   fin_queued (fst (fst (send_segments n t acts b))) = fin_queued t"
proof (induction n arbitrary: t acts b)
  case (Suc n)
  show ?case
  proof (rule send_segment_cases [of t acts False])
    fix acts'
    assume "send_segment t acts False =
        ((t\<lparr>since_ack := 0, snd_nxt := snd_nxt t + ucast (segment_length t)\<rparr>, acts'), True)"
    then show ?case
      using Suc.IH [of "t\<lparr>since_ack := 0, snd_nxt := snd_nxt t + ucast (segment_length t)\<rparr>" acts' True]
      by simp
  next
    fix acts'
    let ?t = "t\<lparr>since_ack := 0, fin_seq := Some (snd_nxt t + ucast (segment_length t)),
            snd_nxt := snd_nxt t + ucast (segment_length t) + 1,
            tcb_state := after_fin (tcb_state t)\<rparr>"
    assume "fin_now t False" "send_segment t acts False = ((?t, acts'), True)"
    then show ?case
      using Suc.IH [of ?t acts' True] by (simp add: fin_now_def)
  qed simp
qed simp

lemma send_what_we_can_state:
  "tcb_state (fst (send_what_we_can t acts now)) = tcb_state t \<or>
   fin_queued t \<and> fin_seq t = None \<and> sending (tcb_state t) \<and>
     tcb_state (fst (send_what_we_can t acts now)) = after_fin (tcb_state t)"
  using send_segments_state [of 2 t acts False]
  by (auto simp: send_what_we_can_def Let_def start_timing_def split: prod.split if_splits)

text \<open>Before the connection is synchronised, and until it can be closed, no \<open>FIN\<close> is queued or sent.\<close>

definition fin_ok :: "tcb \<Rightarrow> bool" where
  "fin_ok t \<longleftrightarrow>
     (tcb_state t \<in> {Listen, SynSent} \<longrightarrow> \<not> fin_queued t) \<and>
     (tcb_state t \<in> {Listen, SynSent, SynReceived, Established, CloseWait} \<longrightarrow> fin_seq t = None) \<and>
     (tcb_state t \<in> {FinWait1, FinWait2, Closing, LastAck, TimeWait} \<longrightarrow> fin_seq t \<noteq> None) \<and>
     (tcb_state t \<noteq> Closed \<longrightarrow>
        fin_received t = (tcb_state t \<in> {CloseWait, Closing, LastAck, TimeWait}))"

lemma fin_ok_new: "\<not> fin_queued t \<Longrightarrow> fin_seq t = None \<Longrightarrow> \<not> fin_received t \<Longrightarrow>
    tcb_state t \<in> {Listen, SynSent, SynReceived, Established} \<Longrightarrow> fin_ok t"
  by (auto simp: fin_ok_def)

lemma ack_new_data_state:
  "tcb_state (fst (ack_new_data t acts ack now)) \<in>
     (case tcb_state t of FinWait1 \<Rightarrow> {FinWait1, FinWait2} | Closing \<Rightarrow> {Closing, TimeWait}
      | LastAck \<Rightarrow> {LastAck, Closed} | st \<Rightarrow> {st})"
  by (simp add: ack_new_data_def advance_after_ack_def Let_def split: state.split)

lemma process_ack_state:
  "tcb_state (fst (fst (process_ack t acts s ack now))) \<in>
     (case tcb_state t of SynReceived \<Rightarrow> {SynReceived, Established}
      | FinWait1 \<Rightarrow> {FinWait1, FinWait2} | Closing \<Rightarrow> {Closing, TimeWait}
      | LastAck \<Rightarrow> {LastAck, Closed} | st \<Rightarrow> {st})"
  using ack_new_data_state [of t acts ack now]
    ack_new_data_state [of "finish_timing (t\<lparr>tcb_state := Established, snd_una := ack\<rparr>) ack now"
      "arm_retransmit (finish_timing (t\<lparr>tcb_state := Established, snd_una := ack\<rparr>) ack now) acts now" ack now]
  by (auto simp: process_ack_def Let_def case_prod_beta split: state.splits)

lemma process_ack_go_on:
  "snd (process_ack t acts s ack now) \<Longrightarrow> tcb_state (fst (fst (process_ack t acts s ack now))) \<noteq> SynReceived"
  using process_ack_state [of t acts s ack now]
    ack_new_data_state [of "finish_timing (t\<lparr>tcb_state := Established, snd_una := ack\<rparr>) ack now"
      "arm_retransmit (finish_timing (t\<lparr>tcb_state := Established, snd_una := ack\<rparr>) ack now) acts now" ack now]
  by (cases "tcb_state t = SynReceived")
    (auto simp: process_ack_def Let_def case_prod_beta split: state.splits if_splits)

lemma take_data_state:
  "tcb_state (fst (take_data t acts s now)) \<in>
     (case tcb_state t of Established \<Rightarrow> {Established, CloseWait} | SynReceived \<Rightarrow> {SynReceived, CloseWait}
      | FinWait1 \<Rightarrow> {FinWait1, Closing} | FinWait2 \<Rightarrow> {FinWait2, TimeWait} | st \<Rightarrow> {st})"
proof -
  have pc: "tcb_state (fst (peer_closed t1 a now)) \<in>
     (case tcb_state t of Established \<Rightarrow> {Established, CloseWait} | SynReceived \<Rightarrow> {SynReceived, CloseWait}
      | FinWait1 \<Rightarrow> {FinWait1, Closing} | FinWait2 \<Rightarrow> {FinWait2, TimeWait} | st \<Rightarrow> {st})"
    if "tcb_state t1 = tcb_state t" for t1 a
    using that by (simp add: peer_closed_def case_prod_beta split: state.split)
  show ?thesis
    by (rule take_data_cases [of t acts s now]) (use pc in \<open>auto split: state.split\<close>)
qed

lemma fin_fields_process_ack [simp]:
  "fin_seq (fst (fst (process_ack t acts s ack now))) = fin_seq t"
  "fin_queued (fst (fst (process_ack t acts s ack now))) = fin_queued t"
  "fin_received (fst (fst (process_ack t acts s ack now))) = fin_received t"
  by (simp_all add: process_ack_def ack_new_data_def advance_after_ack_def Let_def case_prod_beta
      split: state.split)

lemma fin_fields_deliver [simp]:
  "fin_seq (fst (fst (deliver t acts s))) = fin_seq t"
  "fin_queued (fst (fst (deliver t acts s))) = fin_queued t"
  "fin_received (fst (fst (deliver t acts s))) = fin_received t"
  by (simp_all add: deliver_def Let_def)

lemma fin_fields_take_data [simp]:
  "fin_seq (fst (take_data t acts s now)) = fin_seq t"
  "fin_queued (fst (take_data t acts s now)) = fin_queued t"
  by (simp_all add: take_data_def Let_def case_prod_beta peer_closed_def acknowledge_or_delay_def
      split: state.split)

lemma send_segments_fin_received [simp]:
  "fin_received (fst (fst (send_segments n t acts b))) = fin_received t"
proof (induction n arbitrary: t acts b)
  case (Suc n)
  show ?case
    by (rule send_segment_cases [of t acts False]) (simp_all add: Suc.IH)
qed simp

lemma fin_ok_send_what_we_can [tcb_keeps]:
  assumes "fin_ok t"
  shows "fin_ok (fst (send_what_we_can t acts now))"
proof (cases "sending (tcb_state t)")
  case True
  obtain t' a' b where e: "send_segments 2 t acts False = ((t', a'), b)"
    by (metis surj_pair)
  have "fin_received t' = fin_received t" "fin_queued t' = fin_queued t"
    and st: "tcb_state t' = (if fin_seq t' = fin_seq t then tcb_state t else after_fin (tcb_state t))"
    using send_segments_fin_received [of 2 t acts False] send_segments_state [of 2 t acts False] e
    by simp_all
  then have "fin_ok t'"
  proof (cases "fin_seq t' = fin_seq t")
    case same: True
    with \<open>fin_received t' = fin_received t\<close> \<open>fin_queued t' = fin_queued t\<close> st show ?thesis
      using assms by (simp add: fin_ok_def)
  next
    case False
    with \<open>fin_received t' = fin_received t\<close> st show ?thesis
      using assms True by (cases "tcb_state t") (simp_all add: fin_ok_def)
  qed
  then have "fin_ok (start_timing t' now)" "fin_ok t'"
    by (simp_all add: fin_ok_def start_timing_def)
  then show ?thesis
    using assms by (simp add: send_what_we_can_def e Let_def)
next
  case False
  then show ?thesis
    using assms by (simp add: send_what_we_can_idle)
qed

lemma fin_ok_process_ack [tcb_keeps]:
  "fin_ok t \<Longrightarrow> fin_ok (fst (fst (process_ack t acts s ack now)))"
  using process_ack_state [of t acts s ack now]
  by (cases "tcb_state t") (auto simp: fin_ok_def)

lemma fin_ok_take_data [tcb_keeps]:
  assumes "fin_ok t" "tcb_state t \<notin> {Listen, SynSent, SynReceived}"
  shows "fin_ok (fst (take_data t acts s now))"
proof -
  obtain t1 a1 d where e: "deliver t acts s = ((t1, a1), d)"
    by (metis surj_pair)
  have t1: "tcb_state t1 = tcb_state t" "fin_seq t1 = fin_seq t" "fin_queued t1 = fin_queued t"
      "fin_received t1 = fin_received t"
    using deliver_state [of t acts s] fin_fields_deliver [of t acts s] e by simp_all
  then have ok: "fin_ok t1"
    using assms by (simp add: fin_ok_def)
  have "fin_ok (fst (peer_closed (t1\<lparr>fin_received := True, rcv_nxt := q\<rparr>) a1 now))"
    if "\<not> fin_received t1" for q
    using that ok t1 assms(2)
    by (cases "tcb_state t1") (auto simp: peer_closed_def case_prod_beta fin_ok_def)
  moreover have "fin_ok (fst (acknowledge_or_delay t1 a1 now))"
    using ok by (simp add: acknowledge_or_delay_def Let_def fin_ok_def)
  ultimately show ?thesis
    using ok by (simp add: take_data_def e Let_def)
qed

lemma fin_ok_closed [simp]: "fin_ok (t\<lparr>tcb_state := Closed\<rparr>)"
  by (simp add: fin_ok_def)

lemma process_ack_synchronised:
  assumes "snd (process_ack t acts s ack now)" "tcb_state t \<notin> {Listen, SynSent}"
  shows "tcb_state (fst (fst (process_ack t acts s ack now))) \<notin> {Listen, SynSent, SynReceived}"
  using process_ack_go_on [OF assms(1)] process_ack_state [of t acts s ack now] assms(2)
  by (cases "tcb_state t") auto

lemma fin_ok_synchronised_arrival [tcb_keeps]:
  assumes "fin_ok t" "tcb_state t \<notin> {Listen, SynSent}"
  shows "fin_ok (fst (synchronised_arrival t acts s now))"
proof -
  have "fin_ok (t\<lparr>since_ack := k\<rparr>)" for k
    using assms(1) by (simp add: fin_ok_def)
  moreover have "fin_ok (fst (abort_conn t acts))"
    by (simp add: abort_conn_def Let_def)
  moreover have "fin_ok (fst (send_what_we_can (fst d) (snd d) now))"
    if "snd (process_ack t acts s ack now)"
      "d = take_data (fst (fst (process_ack t acts s ack now))) (snd (fst (process_ack t acts s ack now))) s now"
    for ack d
    using that assms process_ack_synchronised [OF that(1) assms(2)]
    by (simp add: fin_ok_process_ack fin_ok_take_data fin_ok_send_what_we_can)
  ultimately show ?thesis
    using assms(1)
    by (simp add: synchronised_arrival_def case_prod_beta fin_ok_process_ack split: option.split)
qed

text \<open>The events a connection sees: a control block is opened once, when it is new.\<close>

definition opens :: "event \<Rightarrow> bool" where
  "opens ev \<longleftrightarrow> (case ev of Connect _ _ \<Rightarrow> True | ListenOn _ _ \<Rightarrow> True | _ \<Rightarrow> False)"

lemma fin_ok_syn_sent_ok [tcb_keeps]:
  assumes "fin_ok t" "tcb_state t = SynSent"
  shows "fin_ok (fst (syn_sent_ok t acts s now))"
proof -
  have f: "\<not> fin_queued t" "fin_seq t = None" "\<not> fin_received t"
    using assms by (simp_all add: fin_ok_def)
  have "fin_ok t2" if "\<not> fin_queued t2" "fin_seq t2 = None" "\<not> fin_received t2"
    "tcb_state t2 \<in> {SynReceived, Established}" for t2
    using that by (intro fin_ok_new) auto
  with f assms(1) show ?thesis
    by (simp add: syn_sent_ok_def Let_def case_prod_beta fin_ok_send_what_we_can split: option.split)
qed

lemma fin_ok_resend [tcb_keeps]:
  assumes "fin_ok t"
  shows "fin_ok (fst (resend t acts))"
proof -
  have s: "fin_ok (fst (fst (send_segment t acts True)))"
  proof (rule send_segment_cases [of t acts True])
    fix acts' f
    assume "fin_now t True" "send_segment t acts True =
        ((t\<lparr>since_ack := 0, fin_seq := Some (snd_nxt t + ucast (segment_length t)),
            snd_nxt := snd_nxt t + ucast (segment_length t) + 1,
            tcb_state := after_fin (tcb_state t)\<rparr>, acts'), True)"
    then show ?thesis
      using assms by (cases "tcb_state t") (simp_all add: fin_ok_def fin_now_def)
  qed (use assms in \<open>simp_all add: fin_ok_def\<close>)
  have n: "fin_ok (t2\<lparr>snd_nxt := q\<rparr>) = fin_ok t2" for t2 q
    by (simp add: fin_ok_def)
  show ?thesis
    using s assms by (simp add: resend_def case_prod_beta n split: state.split option.split)
qed

lemma fin_ok_retransmit [tcb_keeps]:
  assumes "fin_ok t"
  shows "fin_ok (fst (retransmit t acts now))"
proof -
  have "fin_ok (t\<lparr>retransmits := k, rto_us := r, timing := None, snd_nxt := q\<rparr>)" for k r q
    using assms by (simp add: fin_ok_def)
  then show ?thesis
    using assms by (simp add: retransmit_def Let_def case_prod_beta fin_ok_resend)
qed

lemma fin_ok_updates [simp]:
  "fin_ok (t\<lparr>snd_avail := q\<rparr>) = fin_ok t" "fin_ok (t\<lparr>rcv_wnd := w\<rparr>) = fin_ok t"
  "fin_ok (t\<lparr>snd_nxt := q\<rparr>) = fin_ok t" "fin_ok (t\<lparr>since_ack := k\<rparr>) = fin_ok t"
  by (simp_all add: fin_ok_def)

lemma fin_ok_reopen_window [tcb_keeps]: "fin_ok t \<Longrightarrow> fin_ok (fst (reopen_window t acts n))"
  by (simp add: reopen_window_def Let_def)

lemma fin_ok_shutdown [tcb_keeps]: "fin_ok t \<Longrightarrow> fin_ok (fst (shutdown_conn t acts now))"
proof -
  assume a: "fin_ok t"
  have "fin_ok (t\<lparr>fin_queued := True\<rparr>)" if "tcb_state t \<in> {Established, CloseWait, SynReceived}"
    using that a by (cases "tcb_state t") (simp_all add: fin_ok_def)
  then show ?thesis
    using a by (simp add: shutdown_conn_def fin_ok_send_what_we_can)
qed

lemma fin_ok_abort [tcb_keeps]: "fin_ok (fst (abort_conn t acts))"
  by (simp add: abort_conn_def Let_def)

lemma fin_ok_expired [tcb_keeps]: "fin_ok t \<Longrightarrow> fin_ok (fst (expired t acts tm now))"
  by (simp add: expired_def probe_def Let_def fin_ok_retransmit split: timer.split)

lemma fin_ok_arrived [tcb_keeps]:
  assumes "fin_ok t"
  shows "fin_ok (fst (arrived t acts s now))"
proof -
  have "fin_ok (fst (listen_arrival t acts s now))" if "tcb_state t = Listen"
    using that assms by (simp add: listen_arrival_def Let_def start_timing_def fin_ok_def)
  moreover have "fin_ok (fst (syn_sent_arrival t acts s now))" if "tcb_state t = SynSent"
    using that assms by (simp add: syn_sent_arrival_def fin_ok_syn_sent_ok split: option.split)
  ultimately show ?thesis
    using assms by (simp add: arrived_def fin_ok_synchronised_arrival split: state.split)
qed

lemma fin_ok_step:
  assumes "fin_ok t" "tcb_state t = Closed \<longrightarrow> \<not> opens ev"
  shows "fin_ok (fst (step t ev now))"
  using assms by (cases ev)
    (simp_all add: step_def open_conn_def opens_def fin_ok_reopen_window fin_ok_shutdown fin_ok_abort
      fin_ok_expired fin_ok_arrived fin_ok_send_what_we_can)

lemma successors_refl [simp]: "st \<in> successors st"
  by (cases st) simp_all

lemma closed_in_successors [simp]: "Closed \<in> successors st"
  by (cases st) simp_all

lemma send_what_we_can_successors:
  "tcb_state (fst (send_what_we_can t acts now)) \<in> insert (after_fin (tcb_state t)) {tcb_state t}"
  using send_what_we_can_state [of t acts now] by auto

lemma after_fin_successors: "st \<noteq> Closed \<Longrightarrow> after_fin st \<in> successors st"
  by (cases st) simp_all

lemma take_data_successors:
  assumes "snd (process_ack t acts s ack now)" "tcb_state t \<notin> {Closed, Listen, SynSent}"
    and "((t1, a1), b) = process_ack t acts s ack now"
  shows "tcb_state (fst (send_what_we_can (fst (take_data t1 a1 s now)) a2 now)) \<in> successors (tcb_state t)"
proof -
  have t1: "tcb_state t1 \<noteq> SynReceived"
      "tcb_state t1 \<in> (case tcb_state t of SynReceived \<Rightarrow> {SynReceived, Established}
      | FinWait1 \<Rightarrow> {FinWait1, FinWait2} | Closing \<Rightarrow> {Closing, TimeWait}
      | LastAck \<Rightarrow> {LastAck, Closed} | st \<Rightarrow> {st})"
    using process_ack_go_on [OF assms(1)] process_ack_state [of t acts s ack now]
    by (simp_all flip: assms(3))
  note t2 = take_data_state [of t1 a1 s now]
  note t3 = send_what_we_can_successors [of "fst (take_data t1 a1 s now)" a2 now]
  show ?thesis
    using assms(2) t1 t2 t3 by (cases "tcb_state t") auto
qed

lemma synchronised_successors:
  assumes "tcb_state t \<notin> {Closed, Listen, SynSent}"
  shows "tcb_state (fst (synchronised_arrival t acts s now)) \<in> successors (tcb_state t)"
proof -
  have "tcb_state (fst (abort_conn t acts)) = Closed"
    by (simp add: abort_conn_def Let_def)
  moreover have "tcb_state (fst (fst (process_ack t acts s ack now))) \<in> successors (tcb_state t)" for ack
    using process_ack_state [of t acts s ack now] by (cases "tcb_state t") auto
  moreover have "tcb_state (fst (send_what_we_can (fst (take_data t1 a1 s now)) a2 now)) \<in> successors (tcb_state t)"
    if "process_ack t acts s ack now = ((t1, a1), True)" for ack t1 a1 a2
    using take_data_successors [OF _ assms that [symmetric]] that by simp
  ultimately show ?thesis
    by (auto simp: synchronised_arrival_def split: option.split prod.split)
      (metis fst_conv)+
qed

lemma syn_sent_successors:
  assumes "tcb_state t = SynSent" "\<not> fin_queued t"
  shows "tcb_state (fst (syn_sent_arrival t acts s now)) \<in> successors SynSent"
proof -
  have "tcb_state (fst (send_what_we_can t2 a now)) = Established"
    if "tcb_state t2 = Established" "\<not> fin_queued t2" for t2 a
    using send_what_we_can_state [of t2 a now] that by simp
  then have "tcb_state (fst (syn_sent_ok t acts s now)) \<in> successors SynSent"
    using assms by (simp add: syn_sent_ok_def Let_def case_prod_beta split: option.split)
  then show ?thesis
    using assms by (simp add: syn_sent_arrival_def split: option.split)
qed

lemma resend_successors: "tcb_state (fst (resend t acts)) \<in> {tcb_state t, after_fin (tcb_state t)}"
proof -
  have "tcb_state (fst (fst (send_segment t acts True))) \<in> {tcb_state t, after_fin (tcb_state t)}"
    by (rule send_segment_cases [of t acts True]) simp_all
  then show ?thesis
    by (auto simp: resend_def case_prod_beta split: state.split option.split)
qed

lemma retransmit_successors:
  assumes "tcb_state t \<noteq> Closed"
  shows "tcb_state (fst (retransmit t acts now)) \<in> successors (tcb_state t)"
proof -
  have "tcb_state (fst (resend t2 acts)) \<in> successors (tcb_state t)" if "tcb_state t2 = tcb_state t" for t2
    using resend_successors [of t2 acts] after_fin_successors [OF assms] that by auto
  then show ?thesis
    by (simp add: retransmit_def Let_def case_prod_beta)
qed

lemma shutdown_successors: "tcb_state (fst (shutdown_conn t acts now)) \<in> successors (tcb_state t)"
proof -
  have "tcb_state (fst (send_what_we_can (t\<lparr>fin_queued := True\<rparr>) acts now)) \<in> successors (tcb_state t)"
    if "tcb_state t \<noteq> Closed"
    using send_what_we_can_successors [of "t\<lparr>fin_queued := True\<rparr>" acts now] after_fin_successors [OF that]
    by auto
  then show ?thesis
    by (auto simp: shutdown_conn_def)
qed

lemma expired_successors: "tcb_state (fst (expired t acts tm now)) \<in> successors (tcb_state t)"
proof -
  have "tcb_state (fst (retransmit t acts now)) \<in> successors (tcb_state t)"
    using retransmit_successors [of t acts now]
    by (cases "tcb_state t = Closed") (simp_all add: retransmit_def)
  moreover have "tcb_state (fst (probe t acts now)) = tcb_state t"
    by (simp add: probe_def Let_def)
  ultimately show ?thesis
    by (cases tm) (simp_all add: expired_def)
qed

lemma arrived_successors:
  assumes "tcb_state t = SynSent \<longrightarrow> \<not> fin_queued t"
  shows "tcb_state (fst (arrived t acts s now)) \<in> successors (tcb_state t)"
proof -
  have "tcb_state (fst (listen_arrival t acts s now)) \<in> successors Listen" if "tcb_state t = Listen"
    using that by (simp add: listen_arrival_def Let_def start_timing_def)
  then show ?thesis
    using syn_sent_successors [of t acts s now] synchronised_successors [of t acts s now] assms
    by (cases "tcb_state t") (simp_all add: arrived_def)
qed

lemma step_successors:
  assumes "tcb_state t = SynSent \<longrightarrow> \<not> fin_queued t"
  shows "tcb_state (fst (step t ev now)) \<in> successors (tcb_state t)"
proof -
  have "tcb_state (fst (open_conn t a i w p now)) \<in> successors (tcb_state t)" for a i w p
    by (simp add: open_conn_def Let_def start_timing_def)
  moreover have "tcb_state (fst (send_what_we_can (t\<lparr>snd_avail := q\<rparr>) a now)) \<in> successors (tcb_state t)"
    for q a
    using send_what_we_can_successors [of "t\<lparr>snd_avail := q\<rparr>" a now]
      after_fin_successors [of "tcb_state t"] by (cases "tcb_state t = Closed") auto
  ultimately show ?thesis
    using assms
    by (cases ev) (simp_all add: step_def shutdown_successors expired_successors arrived_successors
        reopen_window_def abort_conn_def Let_def)
qed

end
