(* ===== verification/TcpReceive.thy ===== *)
theory TcpReceive
  imports TcpInv
begin

text \<open>
  What the program receives. \<open>deliveries\<close> are the byte counts a step hands to the program; a peer's
  stream is a list of bytes numbered from its initial sequence number; whatever is lost,
  duplicated, reordered or cut, the bytes handed over are a prefix of that stream.
\<close>

subsection \<open>Deliveries\<close>

fun delivery_of :: "action \<Rightarrow> u32 option" where
  "delivery_of (Delivered n) = Some n"
| "delivery_of _ = None"

definition deliveries :: "actions \<Rightarrow> u32 list" where
  "deliveries acts = List.map_filter delivery_of (items acts)"

lemma map_filter_append [simp]:
  "List.map_filter f (xs @ ys) = List.map_filter f xs @ List.map_filter f ys"
  by (induction xs) (simp_all add: List.map_filter_simps split: option.split)

lemma map_filter_update:
  assumes "i < length xs" "f (xs ! i) = None" "f y = None"
  shows "List.map_filter f (xs[i := y]) = List.map_filter f xs"
proof -
  have "List.map_filter f xs = List.map_filter f (take i xs @ xs ! i # drop (Suc i) xs)"
    using assms(1) by (simp add: id_take_nth_drop [symmetric])
  moreover have "List.map_filter f (xs[i := y]) = List.map_filter f (take i xs @ y # drop (Suc i) xs)"
    using assms(1) by (simp add: upd_conv_take_nth_drop)
  ultimately show ?thesis
    using assms(2,3) by (simp add: List.map_filter_simps)
qed

lemma timer_no_delivery: "timer_of a = Some tm \<Longrightarrow> delivery_of a = None"
  by (cases a) simp_all

lemma deliveries_push_other:
  assumes "delivery_of a = None"
  shows "deliveries (push acts a) = deliveries acts"
proof (cases "\<exists>tm i. timer_of a = Some tm \<and> position (\<lambda>b. timer_of b = Some tm) (items acts) = Some i")
  case True
  then obtain tm i where i: "timer_of a = Some tm"
    "position (\<lambda>b. timer_of b = Some tm) (items acts) = Some i"
    by blast
  then have "i < length (items acts)" "timer_of (items acts ! i) = Some tm"
    by (auto dest: position_SomeD)
  then show ?thesis
    using i assms map_filter_update [of i "items acts" delivery_of a]
    by (simp add: deliveries_def push_def timer_no_delivery)
next
  case False
  then have "push acts a = push_new acts a"
    by (auto simp: push_def split: option.split)
  then show ?thesis
    using assms by (simp add: deliveries_def push_new_def List.map_filter_simps)
qed

lemma deliveries_push:
  "length (items acts) < MAX_ACTIONS \<Longrightarrow> deliveries (push acts (Delivered n)) = deliveries acts @ [n]"
  by (simp add: deliveries_def push_def push_new_def List.map_filter_simps)

lemma deliveries_new [simp]: "deliveries actions_new = []"
  by (simp add: deliveries_def actions_new_def List.map_filter_simps)

lemma deliveries_simps [simp]:
  "deliveries (push acts (Emit em)) = deliveries acts"
  "deliveries (push acts (Arm tm x)) = deliveries acts"
  "deliveries (push acts (Cancel tm)) = deliveries acts"
  "deliveries (push acts (Acknowledged n)) = deliveries acts"
  "deliveries (push acts (ActClosed e)) = deliveries acts"
  by (simp_all add: deliveries_push_other)

subsection \<open>Functions that deliver nothing and leave the receiver alone\<close>

text \<open>The fields a receiver's position depends on.\<close>

definition same_receiver :: "tcb \<Rightarrow> tcb \<Rightarrow> bool" where
  "same_receiver t t' \<longleftrightarrow> rcv_nxt t' = rcv_nxt t \<and> irs t' = irs t \<and> fin_received t' = fin_received t"

definition quiet :: "conn \<Rightarrow> conn \<Rightarrow> bool" where
  "quiet c c' \<longleftrightarrow> same_receiver (fst c) (fst c') \<and> deliveries (snd c') = deliveries (snd c)"

lemma quiet_refl [simp]: "quiet c c"
  by (simp add: quiet_def same_receiver_def)

lemma quiet_trans: "quiet a b \<Longrightarrow> quiet b c \<Longrightarrow> quiet a c"
  by (simp add: quiet_def same_receiver_def)

lemma quiet_acknowledge_now [simp]: "quiet (t, acts) (acknowledge_now t acts)"
  by (simp add: quiet_def same_receiver_def acknowledge_now_def Let_def)

lemma deliveries_timers [simp]:
  "deliveries (snd (acknowledge_now t acts)) = deliveries acts"
  "deliveries (arm_retransmit t acts now) = deliveries acts"
  "deliveries (arm_probe t acts now) = deliveries acts"
  by (simp_all add: acknowledge_now_def arm_retransmit_def arm_probe_def Let_def)

lemma quiet_send_segment: "quiet (t, acts) (fst (send_segment t acts r))"
  by (rule send_segment_cases [of t acts r]) (simp_all add: quiet_def same_receiver_def)

lemma quiet_send_segments: "quiet (t, acts) (fst (send_segments n t acts b))"
proof (induction n arbitrary: t acts b)
  case (Suc n)
  obtain t' a' b' where e: "send_segment t acts False = ((t', a'), b')"
    by (metis surj_pair)
  have "quiet (t, acts) (t', a')"
    using quiet_send_segment [of t acts False] e by simp
  then show ?case
    using quiet_trans [OF _ Suc.IH [of t' a' True]] e by simp
qed simp

lemma quiet_send_what_we_can: "quiet (t, acts) (send_what_we_can t acts now)"
  using quiet_send_segments [of t acts 2 False]
  by (simp add: send_what_we_can_def Let_def case_prod_beta quiet_def same_receiver_def start_timing_def)

lemma send_what_we_can_receiver [simp]:
  "rcv_nxt (fst (send_what_we_can t acts now)) = rcv_nxt t"
  "irs (fst (send_what_we_can t acts now)) = irs t"
  "fin_received (fst (send_what_we_can t acts now)) = fin_received t"
  "deliveries (snd (send_what_we_can t acts now)) = deliveries acts"
  using quiet_send_what_we_can [of t acts now] by (simp_all add: quiet_def same_receiver_def)

lemma quiet_advance_after_ack: "quiet (t, acts) (advance_after_ack t acts now)"
  by (simp add: advance_after_ack_def enter_time_wait_def Let_def quiet_def same_receiver_def
      split: state.split)

lemma quiet_ack_new_data: "quiet (t, acts) (ack_new_data t acts ack now)"
proof -
  have "quiet (t, acts) (advance_after_ack t2 (arm_retransmit t2 a2 now) now)"
    if "same_receiver t t2" "deliveries a2 = deliveries acts" for t2 a2
    using quiet_trans [OF _ quiet_advance_after_ack, of "(t, acts)" t2 "arm_retransmit t2 a2 now"] that
    by (simp add: quiet_def)
  then show ?thesis
    by (simp add: ack_new_data_def Let_def same_receiver_def)
qed

lemma quiet_update_window: "quiet (t, acts) (update_window t acts s)"
  by (simp add: update_window_def Let_def quiet_def same_receiver_def)

lemma quiet_process_ack: "quiet (t, acts) (fst (process_ack t acts s ack now))"
proof -
  have "quiet (t, acts) (case ack_new_data t2 a2 ack now of (t, acts) \<Rightarrow> update_window t acts s)"
    if "quiet (t, acts) (t2, a2)" for t2 a2
  proof -
    obtain t3 a3 where e: "ack_new_data t2 a2 ack now = (t3, a3)"
      by (metis surj_pair)
    have "quiet (t, acts) (t3, a3)"
      using quiet_trans [OF that quiet_ack_new_data [of t2 a2 ack now]] e by simp
    from quiet_trans [OF this quiet_update_window [of t3 a3 s]] e show ?thesis
      by simp
  qed
  from this [of t acts] this
    [of "finish_timing (t\<lparr>tcb_state := Established, snd_una := ack\<rparr>) ack now"
      "arm_retransmit (finish_timing (t\<lparr>tcb_state := Established, snd_una := ack\<rparr>) ack now) acts now"]
  show ?thesis
    by (simp add: process_ack_def Let_def case_prod_beta quiet_def same_receiver_def)
qed

lemma quiet_resend: "quiet (t, acts) (resend t acts)"
  using quiet_send_segment [of t acts True]
  by (simp add: resend_def case_prod_beta quiet_def same_receiver_def split: state.split option.split)

lemma quiet_retransmit: "quiet (t, acts) (retransmit t acts now)"
proof -
  have "quiet (t, acts) (case resend t2 acts of (t, acts) \<Rightarrow> (t, arm_retransmit t acts now))"
    if "same_receiver t t2" for t2
    using quiet_resend [of t2 acts] that by (simp add: case_prod_beta quiet_def same_receiver_def)
  then show ?thesis
    by (simp add: retransmit_def Let_def quiet_def same_receiver_def)
qed

lemma quiet_expired: "quiet (t, acts) (expired t acts tm now)"
  using quiet_retransmit [of t acts now]
  by (cases tm) (simp_all add: expired_def probe_def Let_def quiet_def same_receiver_def)

lemma quiet_abort: "quiet (t, acts) (abort_conn t acts)"
  by (simp add: abort_conn_def Let_def quiet_def same_receiver_def)

lemma quiet_shutdown: "quiet (t, acts) (shutdown_conn t acts now)"
  using quiet_send_what_we_can [of "t\<lparr>fin_queued := True\<rparr>" acts now]
  by (simp add: shutdown_conn_def quiet_def same_receiver_def)

lemma quiet_reopen_window: "quiet (t, acts) (reopen_window t acts n)"
  using quiet_acknowledge_now [of "t\<lparr>rcv_wnd := w\<rparr>" acts for w]
  by (simp add: reopen_window_def Let_def quiet_def same_receiver_def)

text \<open>Every event but an arriving segment leaves the receiver's position alone.\<close>

lemma quiet_step:
  assumes "\<forall>s. ev \<noteq> Arrived s"
  shows "quiet (t, actions_new) (step t ev now)"
proof -
  have "quiet (t, actions_new) (open_conn t actions_new i w p now)" for i w p
    by (simp add: open_conn_def Let_def start_timing_def quiet_def same_receiver_def)
  moreover have "quiet (t, actions_new) (send_what_we_can (t\<lparr>snd_avail := q\<rparr>) actions_new now)" for q
    using quiet_send_what_we_can [of "t\<lparr>snd_avail := q\<rparr>" actions_new now]
    by (simp add: quiet_def same_receiver_def)
  ultimately show ?thesis
    using assms by (cases ev) (simp_all add: step_def quiet_expired quiet_abort quiet_shutdown
        quiet_reopen_window)
qed

subsection \<open>The peer's stream\<close>

text \<open>
  A segment of a peer whose stream is \<open>S\<close> and whose initial sequence number is \<open>i0\<close>: its payload is
  the part of the stream at its sequence number, its \<open>FIN\<close> is behind the last byte, and its \<open>SYN\<close>,
  which carries no data, is at \<open>i0\<close>. Nothing is said of the order in which such segments arrive.
\<close>

definition from_peer :: "u8 list \<Rightarrow> sequence \<Rightarrow> segment \<Rightarrow> bool" where
  "from_peer S i0 s \<longleftrightarrow>
     (let off = dist (i0 + 1) (sequence s) in
      (has_flags (flags s) SYN \<longrightarrow> sequence s = i0 \<and> payload s = [] \<and> \<not> has_flags (flags s) FIN) \<and>
      (payload s \<noteq> [] \<longrightarrow> off + length (payload s) \<le> length S \<and>
         payload s = take (length (payload s)) (drop off S)) \<and>
      (has_flags (flags s) FIN \<longrightarrow> off + length (payload s) = length S))"

text \<open>The bytes a step hands to the program.\<close>

definition bytes_of :: "event \<Rightarrow> actions \<Rightarrow> u8 list" where
  "bytes_of ev acts =
     (case ev of
        Arrived s \<Rightarrow> concat (map (\<lambda>n. take (unat n) (payload s)) (deliveries acts))
      | _ \<Rightarrow> [])"

text \<open>Where the receiver stands: \<open>k\<close> bytes of the stream were handed over.\<close>

definition stands_at :: "u8 list \<Rightarrow> sequence \<Rightarrow> tcb \<Rightarrow> nat \<Rightarrow> bool" where
  "stands_at S i0 t k \<longleftrightarrow> k \<le> length S \<and> irs t = i0 \<and>
     rcv_nxt t = i0 + 1 + of_nat k + (if fin_received t then 1 else 0) \<and>
     (fin_received t \<longrightarrow> k = length S)"

lemma stands_at_same: "same_receiver t t' \<Longrightarrow> stands_at S i0 t' k = stands_at S i0 t k"
  by (simp add: same_receiver_def stands_at_def)

lemma dist_of_nat: "k < 2 ^ 32 \<Longrightarrow> dist a (a + of_nat k) = k"
  by (simp add: unat_of_nat)

lemma segment_starts_at:
  assumes "k < 2 ^ 32" "q = a + of_nat k"
  shows "dist a q = k"
  using assms by (simp add: unat_of_nat)

lemma taken_le:
  "unat (min (unwrap_or (u16_try_from n) (- 1)) w :: u16) \<le> n"
proof -
  have "unat (unwrap_or (u16_try_from n) (- 1) :: u16) \<le> n"
  proof (cases "n < 2 ^ 16")
    case True
    then show ?thesis
      by (simp add: u16_try_from_def unat_of_nat)
  next
    case False
    then show ?thesis
      using unsigned_less [of "- 1 :: u16", where 'a = nat] by (simp add: u16_try_from_def)
  qed
  moreover have "unat (min x w) \<le> unat x" for x :: u16
    by (simp add: min_def word_le_nat_alt)
  ultimately show ?thesis
    by (rule le_trans [rotated])
qed

text \<open>The two outcomes of \<open>deliver\<close>.\<close>

lemma deliver_cases:
  obtains (nothing) "deliver t acts s = ((t, acts), 0)"
  | (bytes) n where "can_receive (tcb_state t)" "payload s \<noteq> []" "sequence s = rcv_nxt t" "n \<noteq> 0"
      "unat n \<le> length (payload s)" "n \<le> rcv_wnd t"
      "deliver t acts s =
         ((t\<lparr>rcv_nxt := rcv_nxt t + ucast n, rcv_wnd := rcv_wnd t - n\<rparr>, push acts (Delivered (ucast n))), n)"
proof -
  let ?n = "min (unwrap_or (u16_try_from (length (payload s))) (- 1)) (rcv_wnd t)"
  consider "\<not> can_receive (tcb_state t) \<or> payload s = [] \<or> sequence s \<noteq> rcv_nxt t \<or> ?n = 0"
    | "can_receive (tcb_state t)" "payload s \<noteq> []" "sequence s = rcv_nxt t" "?n \<noteq> 0"
    by blast
  then show ?thesis
  proof cases
    case 1
    then have "deliver t acts s = ((t, acts), 0)"
      by (auto simp: deliver_def Let_def)
    then show ?thesis
      by (rule nothing)
  next
    case 2
    then show ?thesis
      by (intro bytes [of ?n]) (simp_all add: deliver_def Let_def taken_le)
  qed
qed

text \<open>What \<open>deliver\<close> hands over is the next part of the stream.\<close>

lemma deliver_stream:
  assumes "stands_at S i0 t k" "from_peer S i0 s" "length S + 2 < 2 ^ 32"
    and "can_receive (tcb_state t) \<Longrightarrow> \<not> fin_received t" "length (items acts) < MAX_ACTIONS"
    and "deliver t acts s = ((t', acts'), n)" "deliveries acts = []"
  shows "stands_at S i0 t' (k + unat n) \<and> fin_received t' = fin_received t \<and>
    take (k + unat n) S = take k S @ concat (map (\<lambda>n. take (unat n) (payload s)) (deliveries acts')) \<and>
    (n \<noteq> 0 \<longrightarrow> dist (i0 + 1) (sequence s) = k \<and> \<not> fin_received t)"
proof (rule deliver_cases [of t acts s])
  assume "deliver t acts s = ((t, acts), 0)"
  then show ?thesis
    using assms by simp
next
  fix m
  assume m: "can_receive (tcb_state t)" "payload s \<noteq> []" "sequence s = rcv_nxt t" "m \<noteq> 0"
    "unat m \<le> length (payload s)"
    "deliver t acts s =
       ((t\<lparr>rcv_nxt := rcv_nxt t + ucast m, rcv_wnd := rcv_wnd t - m\<rparr>, push acts (Delivered (ucast m))), m)"
  have nofin: "\<not> fin_received t"
    using assms(4) m(1) by simp
  have k: "k \<le> length S" and q: "rcv_nxt t = i0 + 1 + of_nat k"
    using assms(1) nofin by (simp_all add: stands_at_def)
  have off: "dist (i0 + 1) (sequence s) = k"
    using segment_starts_at [of k "sequence s" "i0 + 1"] q m(3) k assms(3) by simp
  then have p: "k + length (payload s) \<le> length S" "payload s = take (length (payload s)) (drop k S)"
    using assms(2) m(2) by (simp_all add: from_peer_def Let_def)
  have data: "take (unat m) (payload s) = take (unat m) (drop k S)"
    using m(5) by (subst p(2)) (simp add: min_def)
  have new: "deliveries acts' = [ucast m]" "n = m" "rcv_nxt t' = rcv_nxt t + ucast m"
      "irs t' = irs t" "fin_received t' = fin_received t"
    using m(6) assms(5-7) by (auto simp: deliveries_push)
  have "k + unat m \<le> length S"
    using p(1) m(5) by linarith
  moreover have "i0 + 1 + of_nat (k + unat m) = rcv_nxt t + (ucast m :: u32)"
    by (simp add: q)
  ultimately have "stands_at S i0 t' (k + unat n)"
    using assms(1) nofin by (simp only: stands_at_def new) simp
  moreover have "take (k + unat n) S = take k S @ take (unat m) (payload s)"
    by (simp only: data new take_add)
  moreover have "unat (ucast m :: u32) = unat m"
    by simp
  ultimately show ?thesis
    using nofin off by (simp only: new) simp
qed

lemma fin_at_end:
  assumes "stands_at S i0 t' (k + unat n)" "from_peer S i0 s" "length S + 2 < 2 ^ 32"
    and "n \<noteq> 0 \<longrightarrow> dist (i0 + 1) (sequence s) = k" "\<not> fin_received t'"
    and "has_flags (flags s) FIN" "unat n = length (payload s)" "sequence s + ucast n = rcv_nxt t'"
  shows "k + unat (n :: u16) = length S"
proof -
  have end_: "dist (i0 + 1) (sequence s) + length (payload s) = length S"
    using assms(2,6) by (simp add: from_peer_def Let_def)
  show ?thesis
  proof (cases "n = 0")
    case True
    then have "sequence s = i0 + 1 + of_nat k" "k \<le> length S"
      using assms(1,5,8) by (simp_all add: stands_at_def)
    then have "dist (i0 + 1) (sequence s) = k"
      using assms(3) by (intro segment_starts_at) simp_all
    with end_ True assms(7) show ?thesis
      by simp
  next
    case False
    with assms(4,7) end_ show ?thesis
      by simp
  qed
qed

lemma peer_closed_receiver: "quiet (t, acts) (peer_closed t acts now)"
  by (simp add: peer_closed_def case_prod_beta enter_time_wait_def Let_def quiet_def same_receiver_def
      split: state.split)

lemma acknowledge_or_delay_receiver: "quiet (t, acts) (acknowledge_or_delay t acts now)"
  by (simp add: acknowledge_or_delay_def Let_def quiet_def same_receiver_def)

lemma take_data_stream:
  assumes "stands_at S i0 t k" "from_peer S i0 s" "length S + 2 < 2 ^ 32"
    and "can_receive (tcb_state t) \<Longrightarrow> \<not> fin_received t" "length (items acts) < MAX_ACTIONS"
    and "deliveries acts = []"
  shows "\<exists>k'. stands_at S i0 (fst (take_data t acts s now)) k' \<and>
    take k' S = take k S @
      concat (map (\<lambda>n. take (unat n) (payload s)) (deliveries (snd (take_data t acts s now))))"
proof -
  obtain t1 a1 n where e: "deliver t acts s = ((t1, a1), n)"
    by (metis surj_pair)
  note d = deliver_stream [OF assms(1-5) e assms(6)]
  let ?fin = "has_flags (flags s) FIN \<and> unat n = length (payload s) \<and>
    sequence s + ucast n = rcv_nxt t1 \<and> \<not> fin_received t1"
  consider (fin) ?fin | (data) "\<not> ?fin" "0 < n" | (none) "\<not> ?fin" "\<not> 0 < n"
    by blast
  then show ?thesis
  proof cases
    case fin
    let ?t2 = "t1\<lparr>fin_received := True, rcv_nxt := rcv_nxt t1 + 1\<rparr>"
    have "k + unat n = length S"
      using d fin fin_at_end [of S i0 t1 k n s] assms(2,3) by blast
    then have "stands_at S i0 ?t2 (k + unat n)"
      using d fin by (simp add: stands_at_def)
    moreover have "take_data t acts s now = peer_closed ?t2 a1 now"
      using fin by (simp add: take_data_def e)
    ultimately show ?thesis
      using d peer_closed_receiver [of ?t2 a1 now] stands_at_same [of ?t2 "fst (peer_closed ?t2 a1 now)"]
      by (intro exI [of _ "k + unat n"]) (simp add: quiet_def)
  next
    case data
    then have "take_data t acts s now = acknowledge_or_delay t1 a1 now"
      by (auto simp: take_data_def e Let_def)
    then show ?thesis
      using d acknowledge_or_delay_receiver [of t1 a1 now]
        stands_at_same [of t1 "fst (acknowledge_or_delay t1 a1 now)"]
      by (intro exI [of _ "k + unat n"]) (simp add: quiet_def)
  next
    case none
    then have "take_data t acts s now = (t1, a1)"
      by (auto simp: take_data_def e Let_def)
    then show ?thesis
      using d by (intro exI [of _ "k + unat n"]) simp
  qed
qed

text \<open>The bytes an arriving segment hands over, from the list of deliveries.\<close>

abbreviation handed :: "segment \<Rightarrow> actions \<Rightarrow> u8 list" where
  "handed s acts \<equiv> concat (map (\<lambda>n. take (unat n) (payload s)) (deliveries acts))"

definition advances :: "u8 list \<Rightarrow> sequence \<Rightarrow> nat \<Rightarrow> segment \<Rightarrow> conn \<Rightarrow> bool" where
  "advances S i0 k s c \<longleftrightarrow>
     (\<exists>k'. stands_at S i0 (fst c) k' \<and> take k' S = take k S @ handed s (snd c))"

lemma advances_quiet: "advances S i0 k s c \<Longrightarrow> quiet c c' \<Longrightarrow> advances S i0 k s c'"
  using stands_at_same [of "fst c" "fst c'" S i0] by (auto simp: advances_def quiet_def)

lemma advances_refl: "stands_at S i0 t k \<Longrightarrow> advances S i0 k s (t, actions_new)"
  by (auto simp: advances_def)

lemma process_ack_then_data:
  assumes "stands_at S i0 t k" "from_peer S i0 s" "length S + 2 < 2 ^ 32" "fin_ok t"
    and "process_ack t actions_new s ack now = ((t1, a1), True)"
  shows "advances S i0 k s (take_data t1 a1 s now)"
  unfolding advances_def
proof (rule take_data_stream [OF _ assms(2,3)])
  have q: "quiet (t, actions_new) (t1, a1)"
    using quiet_process_ack [of t actions_new s ack now] assms(5) by simp
  then show "stands_at S i0 t1 k" "deliveries a1 = []"
    using stands_at_same [of t t1 S i0 k] assms(1) by (simp_all add: quiet_def)
  have "fin_ok t1"
    using fin_ok_process_ack [OF assms(4), of actions_new s ack now] assms(5) by simp
  then show "\<not> fin_received t1" if "can_receive (tcb_state t1)"
    using that by (cases "tcb_state t1") (simp_all add: fin_ok_def)
  show "length (items a1) < MAX_ACTIONS"
    using shape_room [OF shape_process_ack(2) [OF _ assms(5)]] by simp
qed

lemma synchronised_stream:
  assumes "stands_at S i0 t k" "from_peer S i0 s" "length S + 2 < 2 ^ 32" "fin_ok t"
  shows "advances S i0 k s (synchronised_arrival t actions_new s now)"
proof -
  have q: "advances S i0 k s c" if "quiet (t, actions_new) c" for c
    using advances_quiet [OF advances_refl [OF assms(1)] that] .
  have "advances S i0 k s (case process_ack t actions_new s ack now of ((t, acts), go_on) \<Rightarrow>
      if \<not> go_on then (t, acts)
      else (case take_data t acts s now of (t, acts) \<Rightarrow> send_what_we_can t acts now))" for ack
  proof -
    obtain t1 a1 b where e: "process_ack t actions_new s ack now = ((t1, a1), b)"
      by (metis surj_pair)
    obtain t2 a2 where e2: "take_data t1 a1 s now = (t2, a2)"
      by (metis surj_pair)
    show ?thesis
    proof (cases b)
      case True
      then have "advances S i0 k s (t2, a2)"
        using process_ack_then_data [OF assms, of ack now t1 a1] e e2 by simp
      from advances_quiet [OF this quiet_send_what_we_can] True show ?thesis
        by (simp add: e e2)
    next
      case False
      then show ?thesis
        using q [OF quiet_process_ack [of t actions_new s ack now]] by (simp add: e)
    qed
  qed
  moreover have "advances S i0 k s (t\<lparr>tcb_state := Closed\<rparr>, push actions_new (ActClosed e))" for e
    by (rule q) (simp add: quiet_def same_receiver_def)
  moreover note q [OF quiet_acknowledge_now] q [OF quiet_abort] q [OF quiet_refl]
  ultimately show ?thesis
    unfolding synchronised_arrival_def by (simp split: option.split)
qed

subsection \<open>Runs\<close>

text \<open>A control block, and the bytes handed to its program so far.\<close>

inductive receives :: "u8 list \<Rightarrow> sequence \<Rightarrow> tcb \<Rightarrow> u8 list \<Rightarrow> bool" for S i0 where
  dialled: "receives S i0 (fst (step (tcb_new c) (Connect i w) now)) []"
| listening: "receives S i0 (fst (step (tcb_new c) (ListenOn i w) now)) []"
| cookie: "receives S i0 (from_cookie c k i0 pw cap m) []"
| step: "receives S i0 t got \<Longrightarrow> tcb_state t = Closed \<longrightarrow> \<not> opens ev \<Longrightarrow>
    \<forall>s. ev = Arrived s \<longrightarrow> from_peer S i0 s \<Longrightarrow>
    receives S i0 (fst (step t ev now)) (got @ bytes_of ev (snd (step t ev now)))"

definition rcv_inv :: "u8 list \<Rightarrow> sequence \<Rightarrow> tcb \<Rightarrow> u8 list \<Rightarrow> bool" where
  "rcv_inv S i0 t got \<longleftrightarrow> fin_ok t \<and>
     (if tcb_state t \<in> {Listen, SynSent} then got = []
      else if tcb_state t = Closed then
        (\<exists>k. got = take k S) \<and> (fin_received t \<longrightarrow> got = S)
      else \<exists>k. stands_at S i0 t k \<and> got = take k S)"

lemma closed_stays:
  assumes "tcb_state t = Closed" "\<not> opens ev"
  shows "tcb_state (fst (step t ev now)) = Closed"
  using assms
  by (cases ev) (simp_all add: step_def opens_def send_what_we_can_def reopen_window_def
      shutdown_conn_def abort_conn_def arrived_def expired_def retransmit_def probe_def Let_def
      split: timer.split)

lemma unsynchronised_stays:
  assumes "tcb_state t \<in> {Listen, SynSent}" "\<forall>s. ev \<noteq> Arrived s"
  shows "tcb_state (fst (step t ev now)) \<in> {tcb_state t, Closed}"
proof -
  have "tcb_state (fst (resend t2 actions_new)) = tcb_state t" if "tcb_state t2 = tcb_state t" for t2
    using resend_successors [of t2 actions_new] that assms(1) by auto
  then have "tcb_state (fst (retransmit t actions_new now)) \<in> {tcb_state t, Closed}"
    by (simp add: retransmit_def Let_def case_prod_beta)
  moreover have "tcb_state (fst (send_what_we_can (t\<lparr>snd_avail := q\<rparr>) actions_new now)) = tcb_state t" for q
    using assms(1) by (auto simp: send_what_we_can_def)
  ultimately show ?thesis
    using assms
    by (cases ev) (auto simp: step_def reopen_window_def shutdown_conn_def open_conn_def
        abort_conn_def expired_def probe_def Let_def split: timer.split)
qed

lemma rcv_inv_prefix:
  assumes "rcv_inv S i0 t got"
  shows "\<exists>k. got = take k S" "fin_received t \<Longrightarrow> got = S"
proof -
  have "(\<exists>k. got = take k S) \<and> (fin_received t \<longrightarrow> got = S)"
  proof (cases "tcb_state t \<in> {Listen, SynSent}")
    case True
    then have "\<not> fin_received t"
      using assms by (cases "tcb_state t") (simp_all add: rcv_inv_def fin_ok_def)
    then show ?thesis
      using assms True by (auto simp: rcv_inv_def intro!: exI [of _ 0])
  next
    case False
    then show ?thesis
      using assms by (auto simp: rcv_inv_def stands_at_def intro: exI [of _ "length S"] split: if_splits)
  qed
  then show "\<exists>k. got = take k S" "fin_received t \<Longrightarrow> got = S"
    by blast+
qed

lemma rcv_inv_closed:
  "rcv_inv S i0 t got \<Longrightarrow> same_receiver t t' \<Longrightarrow> tcb_state t' = Closed \<Longrightarrow> rcv_inv S i0 t' got"
proof -
  assume a: "rcv_inv S i0 t got" "same_receiver t t'" "tcb_state t' = Closed"
  have "fin_ok t'"
    using a(3) by (simp add: fin_ok_def)
  moreover have "fin_received t' = fin_received t"
    using a(2) by (simp add: same_receiver_def)
  ultimately show ?thesis
    using rcv_inv_prefix [OF a(1)] a(3) unfolding rcv_inv_def [of _ _ t'] by simp
qed

lemma rcv_inv_other_event:
  assumes "rcv_inv S i0 t got" "\<forall>s. ev \<noteq> Arrived s" "tcb_state t = Closed \<longrightarrow> \<not> opens ev"
  shows "rcv_inv S i0 (fst (step t ev now)) got"
proof -
  let ?t = "fst (step t ev now)"
  have same: "same_receiver t ?t"
    using quiet_step [OF assms(2), of t now] by (simp add: quiet_def)
  have fin: "fin_ok t" "fin_ok ?t"
    using assms(1,3) fin_ok_step [of t ev now] by (simp_all add: rcv_inv_def)
  have succ: "tcb_state ?t \<in> successors (tcb_state t)"
    using fin(1) by (intro step_successors) (simp add: fin_ok_def)
  consider "tcb_state ?t = Closed" | "tcb_state ?t \<noteq> Closed" "tcb_state t \<in> {Listen, SynSent}"
    | "tcb_state ?t \<noteq> Closed" "tcb_state t \<notin> {Listen, SynSent, Closed}"
    using closed_stays [of t ev now] assms(3) by blast
  then show ?thesis
  proof cases
    case 1
    with assms(1) same show ?thesis
      by (rule rcv_inv_closed)
  next
    case 2
    then show ?thesis
      using unsynchronised_stays [OF 2(2) assms(2), of now] assms(1) fin(2) by (simp add: rcv_inv_def)
  next
    case 3
    then have "tcb_state ?t \<notin> {Listen, SynSent}"
      using succ by (cases "tcb_state t") auto
    then show ?thesis
      using 3 assms(1) fin(2) stands_at_same [OF same] by (simp add: rcv_inv_def)
  qed
qed

lemma listen_stream:
  assumes "fin_ok t" "tcb_state t = Listen" "from_peer S i0 s"
  shows "rcv_inv S i0 (fst (listen_arrival t actions_new s now)) []
    \<and> deliveries (snd (listen_arrival t actions_new s now)) = []"
proof -
  have "\<not> fin_received t"
    using assms(1,2) by (simp add: fin_ok_def)
  moreover have "fin_ok (fst (listen_arrival t actions_new s now))"
    using fin_ok_arrived [OF assms(1), of actions_new s now] assms(2) by (simp add: arrived_def)
  moreover have "sequence s = i0" if "has_flags (flags s) SYN"
    using assms(3) that by (simp add: from_peer_def Let_def)
  moreover have "deliveries (closed_arrival actions_new s) = []"
    by (simp add: closed_arrival_def split: option.split)
  ultimately show ?thesis
    using assms(2)
    by (auto simp: rcv_inv_def listen_arrival_def start_timing_def stands_at_def Let_def split: if_splits
        intro: exI [of _ 0])
qed

lemma syn_sent_ok_stream:
  assumes "fin_ok t" "tcb_state t = SynSent" "from_peer S i0 s"
  shows "rcv_inv S i0 (fst (syn_sent_ok t actions_new s now)) []
    \<and> deliveries (snd (syn_sent_ok t actions_new s now)) = []"
proof -
  let ?r = "syn_sent_ok t actions_new s now"
  have f: "\<not> fin_received t" and fin: "fin_ok (fst ?r)"
    using assms(1,2) fin_ok_syn_sent_ok [OF assms(1,2)] by (simp_all add: fin_ok_def)
  have syn: "sequence s = i0" if "has_flags (flags s) SYN"
    using assms(3) that by (simp add: from_peer_def Let_def)
  have "deliveries (snd ?r) = []"
    by (simp add: syn_sent_ok_def Let_def case_prod_beta split: option.split)
  moreover have "stands_at S i0 (fst ?r) 0" if "tcb_state (fst ?r) \<notin> {SynSent, Closed}"
    using that assms(2) f syn
    by (simp add: syn_sent_ok_def Let_def case_prod_beta stands_at_def split: option.splits if_splits)
  moreover have "\<not> fin_received (fst ?r)"
    using f by (simp add: syn_sent_ok_def Let_def case_prod_beta split: option.split)
  ultimately show ?thesis
    using fin by (auto simp: rcv_inv_def intro: exI [of _ 0])
qed

lemma rcv_inv_advances:
  assumes "advances S i0 k s (t, acts)" "fin_ok t" "tcb_state t \<notin> {Listen, SynSent}"
  shows "rcv_inv S i0 t (take k S @ handed s acts)"
proof -
  obtain k' where "stands_at S i0 t k'" "take k' S = take k S @ handed s acts"
    using assms(1) by (auto simp: advances_def)
  moreover from this(1) have "fin_received t \<longrightarrow> take k' S = S"
    by (simp add: stands_at_def)
  ultimately show ?thesis
    using assms(2,3) by (auto simp: rcv_inv_def intro!: exI [of _ k'])
qed

lemma rcv_inv_arrived:
  assumes "rcv_inv S i0 t got" "from_peer S i0 s" "length S + 2 < 2 ^ 32"
  shows "rcv_inv S i0 (fst (arrived t actions_new s now))
    (got @ handed s (snd (arrived t actions_new s now)))"
proof -
  have fin: "fin_ok t" "fin_ok (fst (arrived t actions_new s now))"
    using assms(1) fin_ok_arrived [of t actions_new s now] by (simp_all add: rcv_inv_def)
  consider (closed) "tcb_state t = Closed" | (listen) "tcb_state t = Listen"
    | (syn_sent) "tcb_state t = SynSent" | (sync) "tcb_state t \<notin> {Closed, Listen, SynSent}"
    by blast
  then show ?thesis
  proof cases
    case closed
    then show ?thesis
      using assms(1) by (simp add: arrived_def closed_arrival_def split: option.split)
  next
    case listen
    then have "got = []"
      using assms(1) by (simp add: rcv_inv_def)
    then show ?thesis
      using listen_stream [OF fin(1) listen assms(2), of now] listen by (simp add: arrived_def)
  next
    case syn_sent
    then have "got = []" "rcv_inv S i0 t []"
      using assms(1) by (simp_all add: rcv_inv_def)
    then show ?thesis
      using syn_sent_ok_stream [OF fin(1) syn_sent assms(2), of now] syn_sent
      by (simp add: arrived_def syn_sent_arrival_def split: option.split)
  next
    case sync
    then have eq: "arrived t actions_new s now = synchronised_arrival t actions_new s now"
      by (cases "tcb_state t") (simp_all add: arrived_def)
    obtain k where k: "stands_at S i0 t k" "got = take k S"
      using assms(1) sync by (auto simp: rcv_inv_def)
    have "tcb_state (fst (arrived t actions_new s now)) \<notin> {Listen, SynSent}"
      using synchronised_successors [OF sync, of actions_new s now] sync
      by (cases "tcb_state t") (auto simp: eq)
    then show ?thesis
      using rcv_inv_advances [of S i0 k s "fst (arrived t actions_new s now)" "snd (arrived t actions_new s now)"]
        synchronised_stream [OF k(1) assms(2,3) fin(1), of now] fin(2) k(2)
      by (simp add: eq)
  qed
qed

lemma receives_inv:
  assumes "receives S i0 t got" "length S + 2 < 2 ^ 32"
  shows "rcv_inv S i0 t got"
  using assms(1)
proof induction
  case (dialled c i w now)
  show ?case
    by (simp add: step_def open_conn_def tcb_new_def start_timing_def Let_def rcv_inv_def fin_ok_def)
next
  case (listening c i w now)
  show ?case
    by (simp add: step_def open_conn_def tcb_new_def Let_def rcv_inv_def fin_ok_def)
next
  case (cookie c k pw cap m)
  show ?case
    by (auto simp: from_cookie_def Let_def rcv_inv_def fin_ok_def stands_at_def intro!: exI [of _ 0])
next
  case (step t got ev now)
  show ?case
  proof (cases "\<exists>s. ev = Arrived s")
    case True
    then obtain s where "ev = Arrived s"
      by blast
    then show ?thesis
      using rcv_inv_arrived [OF step.IH _ assms(2), of s now] step.hyps
      by (simp add: step_def bytes_of_def)
  next
    case False
    then have "bytes_of ev (snd (step t ev now)) = []"
      by (cases ev) (simp_all add: bytes_of_def)
    then show ?thesis
      using rcv_inv_other_event [OF step.IH, of ev now] False step.hyps by simp
  qed
qed

end
