(* ===== verification/TcpOrder.thy ===== *)
theory TcpOrder
  imports TcpInv
begin

text \<open>
  The sender's sequence numbers: what is acknowledged, what is sent and what the program has
  written lie in this order round the circle, and data goes out only inside the peer's window.
  The program's send ring bounds what is unacknowledged: \<open>RING_LIMIT\<close> is far above any ring the
  service hands out and far below half the circle.
\<close>

definition RING_LIMIT :: nat where "RING_LIMIT = 2 ^ 30"

text \<open>
  \<open>seq_ok una nxt avail fin\<close>: before a \<open>FIN\<close> is sent, \<open>una\<close>, \<open>nxt\<close> and \<open>avail\<close> follow each other.
  The \<open>FIN\<close> takes the number after the last byte, \<open>avail\<close>; once it is acknowledged all is done.
\<close>

definition seq_ok :: "sequence \<Rightarrow> sequence \<Rightarrow> sequence \<Rightarrow> sequence option \<Rightarrow> bool" where
  "seq_ok una nxt avail fin \<longleftrightarrow>
     (case fin of
        None \<Rightarrow> dist una nxt \<le> dist una avail \<and> dist una avail \<le> RING_LIMIT + 1
      | Some f \<Rightarrow> f = avail \<and>
          (dist una nxt \<le> dist una avail + 1 \<and> dist una avail \<le> RING_LIMIT + 1
           \<or> una = avail + 1 \<and> nxt = avail + 1))"

lemma ring_small: "RING_LIMIT + 2 < 2 ^ 31" "RING_LIMIT + 2 < 2 ^ 32"
  by (simp_all add: RING_LIMIT_def)

subsection \<open>Arithmetic on the circle\<close>

lemma dist_succ: "dist a b + 1 < 2 ^ 32 \<Longrightarrow> dist a (b + 1) = dist a b + 1"
  using dist_step [of a b 1] by simp

text \<open>What is unsent is the distance from \<open>nxt\<close> to \<open>avail\<close>.\<close>

lemma unsent_dist:
  assumes "dist una nxt \<le> dist una avail" "dist una avail \<le> RING_LIMIT + 1"
  shows "unat (if follows avail nxt then avail - nxt else 0) = dist una avail - dist una nxt"
proof -
  have d: "dist nxt avail = dist una avail - dist una nxt"
    using assms(1) by (rule dist_between)
  show ?thesis
  proof (cases "dist nxt avail = 0")
    case True
    then show ?thesis
      using d by (simp add: follows_dist)
  next
    case False
    then have "follows avail nxt"
      using d assms(2) ring_small(1) by (simp add: follows_dist)
    then show ?thesis
      using d by (simp add: dist_def)
  qed
qed

text \<open>Past the \<open>FIN\<close> nothing is unsent.\<close>

lemma unsent_past_fin: "\<not> follows avail (avail + 1)"
proof -
  have "dist (avail + 1) avail + dist avail (avail + 1) = 2 ^ 32"
    by (rule dist_swap) simp
  then show ?thesis
    by (simp add: follows_dist)
qed

text \<open>An acknowledgement that is after \<open>una\<close> and not after \<open>nxt\<close> lies between them.\<close>

lemma ack_between:
  assumes "follows ack una" "\<not> follows ack nxt" "dist una nxt < 2 ^ 31"
  shows "0 < dist una ack" "dist una ack \<le> dist una nxt"
proof -
  show pos: "0 < dist una ack"
    using assms(1) by (simp add: follows_dist)
  show "dist una ack \<le> dist una nxt"
  proof (rule ccontr)
    assume "\<not> dist una ack \<le> dist una nxt"
    then have "dist nxt ack = dist una ack - dist una nxt" "0 < dist una ack - dist una nxt"
      using dist_between [of una nxt ack] by simp_all
    then show False
      using assms(1,2) by (simp add: follows_dist)
  qed
qed

lemma seq_ok_span: "seq_ok una nxt avail fin \<Longrightarrow> dist una nxt \<le> RING_LIMIT + 2"
proof (cases fin)
  case (Some f)
  assume "seq_ok una nxt avail fin"
  with Some consider "dist una nxt \<le> dist una avail + 1" "dist una avail \<le> RING_LIMIT + 1" | "nxt = una"
    by (auto simp only: seq_ok_def option.case)
  then show ?thesis
    by cases simp_all
qed (simp add: seq_ok_def)

lemma seq_ok_ack:
  assumes "seq_ok una nxt avail fin" "follows ack una" "\<not> follows ack nxt"
  shows "seq_ok ack nxt avail fin"
proof -
  have "dist una nxt \<le> RING_LIMIT + 2"
    using assms(1) by (rule seq_ok_span)
  then have small: "dist una nxt < 2 ^ 31"
    using ring_small(1) by linarith
  note b = ack_between [OF assms(2,3) small]
  have nxt: "dist ack nxt = dist una nxt - dist una ack"
    using b(2) by (rule dist_between)
  have avail: "dist ack avail = dist una avail - dist una ack" if "dist una ack \<le> dist una avail"
    using that by (rule dist_between)
  show ?thesis
  proof (cases fin)
    case None
    then show ?thesis
      using assms(1) b nxt avail by (auto simp: seq_ok_def)
  next
    case (Some f)
    have range: "dist una nxt \<le> dist una avail + 1" "dist una avail \<le> RING_LIMIT + 1" "f = avail"
      using assms(1) Some b by (auto simp: seq_ok_def)
    show ?thesis
    proof (cases "dist una ack \<le> dist una avail")
      case True
      then show ?thesis
        using Some range b nxt avail by (auto simp: seq_ok_def)
    next
      case False
      then have eq: "dist una ack = dist una avail + 1" "dist una nxt = dist una avail + 1"
        using b range by simp_all
      have "dist una (avail + 1) = dist una avail + 1"
        using range(2) ring_small(2) by (intro dist_succ) simp
      then have "ack = avail + 1" "nxt = avail + 1"
        using eq by (metis dist_inject)+
      then show ?thesis
        using Some range(3) by (simp add: seq_ok_def)
    qed
  qed
qed

subsection \<open>The length of a segment\<close>

lemma unat_min: "unat (min a b) = min (unat a) (unat (b :: 'a::len word))"
  by (simp add: min_def word_le_nat_alt)

lemma unat_segment_length:
  "unat (segment_length t) = min (min (unat (unsent t)) (unat (allowed t))) (unat (mss t))"
proof -
  let ?m = "min (min (unsent t) (allowed t)) (ucast (mss t))"
  have m: "unat ?m = min (min (unat (unsent t)) (unat (allowed t))) (unat (mss t))"
    by (simp add: unat_min)
  have "unat (mss t) < 2 ^ 16"
    using unsigned_less [of "mss t"] by simp
  with m have less: "unat ?m < 2 ^ 16"
    by linarith
  then have "segment_length t = of_nat (unat ?m)"
    by (simp only: segment_length_def Let_def u16_try_from_def if_True unwrap_or_simps)
  then have "unat (segment_length t) = unat ?m mod 2 ^ 16"
    by (simp only: unat_of_nat) simp
  with less m show ?thesis
    by simp
qed

text \<open>The three cases of the sender's position, with what is unsent in each.\<close>

lemma seq_ok_cases:
  assumes "seq_ok una nxt avail fin"
  obtains (sending) "dist una nxt \<le> dist una avail" "dist una avail \<le> RING_LIMIT + 1"
      "unat (if follows avail nxt then avail - nxt else 0) = dist una avail - dist una nxt"
      "fin \<noteq> None \<Longrightarrow> fin = Some avail"
  | (fin_sent) "fin = Some avail" "nxt = avail + 1" "dist una avail \<le> RING_LIMIT + 1" "\<not> follows avail nxt"
  | (fin_acked) "fin = Some avail" "nxt = avail + 1" "una = avail + 1" "\<not> follows avail nxt"
proof -
  note u = unsent_dist [of una nxt avail]
  consider (a) "dist una nxt \<le> dist una avail" "dist una avail \<le> RING_LIMIT + 1" "fin \<noteq> None \<longrightarrow> fin = Some avail"
    | (b) "dist una nxt = dist una avail + 1" "dist una avail \<le> RING_LIMIT + 1" "fin = Some avail"
    | (c) "una = avail + 1" "nxt = avail + 1" "fin = Some avail"
    using assms unfolding seq_ok_def by (cases fin) (simp, simp, linarith)
  then show ?thesis
  proof cases
    case a
    then show ?thesis
      using u by (intro sending) blast+
  next
    case b
    have "dist una (avail + 1) = dist una avail + 1"
      using b(2) ring_small(2) by (intro dist_succ) linarith
    with b(1) have "nxt = avail + 1"
      by (metis dist_inject)
    with b unsent_past_fin [of avail] show ?thesis
      by (intro fin_sent) simp_all
  next
    case c
    with unsent_past_fin [of avail] show ?thesis
      by (intro fin_acked) simp_all
  qed
qed

lemma seq_ok_send:
  assumes "seq_ok una nxt avail fin"
    and "unat l \<le> unat (if follows avail nxt then avail - nxt else 0)"
  shows "seq_ok una (nxt + ucast (l :: u16)) avail fin"
  using assms(1)
proof (cases rule: seq_ok_cases)
  case sending
  have "dist una nxt + unat l \<le> dist una avail"
    using assms(2) sending(1,3) by linarith
  moreover from this have "dist una (nxt + ucast l) = dist una nxt + unat l"
    using dist_step [of una nxt "ucast l"] sending(2) ring_small(2) by simp
  ultimately show ?thesis
    using sending by (cases fin) (simp_all add: seq_ok_def)
next
  case fin_sent
  then have "l = 0"
    using assms(2) by (simp add: unat_eq_0)
  then show ?thesis
    using assms(1) by simp
next
  case fin_acked
  then have "l = 0"
    using assms(2) by (simp add: unat_eq_0)
  then show ?thesis
    using assms(1) by simp
qed

lemma seq_ok_send_fin:
  assumes "seq_ok una nxt avail None"
    and "ucast (l :: u16) = (if follows avail nxt then avail - nxt else 0)"
  shows "nxt + ucast l = avail" "seq_ok una (nxt + ucast l + 1) avail (Some (nxt + ucast l))"
proof -
  have ok: "dist una nxt \<le> dist una avail" "dist una avail \<le> RING_LIMIT + 1"
    using assms(1) by (simp_all add: seq_ok_def)
  show eq: "nxt + ucast l = avail"
  proof (cases "follows avail nxt")
    case False
    have "dist nxt avail \<le> 2 ^ 31"
      using dist_between [OF ok(1)] ok(2) ring_small(1) by linarith
    with False have "dist nxt avail = 0"
      unfolding follows_dist by (metis gr0I)
    then show ?thesis
      using False assms(2) by simp
  qed (use assms(2) in simp)
  have "dist una (avail + 1) = dist una avail + 1"
    using ok(2) ring_small(2) by (intro dist_succ) linarith
  then show "seq_ok una (nxt + ucast l + 1) avail (Some (nxt + ucast l))"
    using ok(2) by (simp add: eq seq_ok_def)
qed

subsection \<open>The invariant\<close>

abbreviation in_order :: "tcb \<Rightarrow> bool" where
  "in_order t \<equiv> seq_ok (snd_una t) (snd_nxt t) (snd_avail t) (fin_seq t)"

definition ord_ok :: "tcb \<Rightarrow> bool" where
  "ord_ok t \<longleftrightarrow>
     (tcb_state t \<notin> {Closed, Listen} \<longrightarrow> in_order t) \<and>
     (tcb_state t \<in> {Listen, SynSent, SynReceived} \<longrightarrow> snd_una t = iss t) \<and>
     (tcb_state t = Listen \<longrightarrow> snd_nxt t = iss t) \<and>
     (tcb_state t = SynSent \<longrightarrow> snd_nxt t = iss t + 1) \<and>
     (tcb_state t = SynReceived \<longrightarrow> snd_nxt t \<noteq> iss t)"

lemma in_order_send_segment:
  assumes "in_order t"
  shows "in_order (fst (fst (send_segment t acts r)))"
proof (rule send_segment_cases [of t acts r])
  fix acts'
  assume "send_segment t acts r =
    ((t\<lparr>since_ack := 0, snd_nxt := snd_nxt t + ucast (segment_length t)\<rparr>, acts'), True)"
  then show ?thesis
    using seq_ok_send [OF assms, of "segment_length t"] unat_segment_length [of t]
    by (simp add: unsent_def)
next
  fix acts'
  assume fin: "fin_now t r" "send_segment t acts r =
    ((t\<lparr>since_ack := 0, fin_seq := Some (snd_nxt t + ucast (segment_length t)),
        snd_nxt := snd_nxt t + ucast (segment_length t) + 1,
        tcb_state := after_fin (tcb_state t)\<rparr>, acts'), True)"
  then show ?thesis
    using seq_ok_send_fin(2) [of "snd_una t" "snd_nxt t" "snd_avail t" "segment_length t"] assms
    by (simp add: fin_now_def unsent_def)
qed (use assms in simp)

text \<open>Sending leaves the other pointers alone, and never brings \<open>nxt\<close> back to \<open>iss\<close>.\<close>

lemma send_segment_frame [simp]:
  "snd_una (fst (fst (send_segment t acts r))) = snd_una t"
  "snd_avail (fst (fst (send_segment t acts r))) = snd_avail t"
  "snd_wnd (fst (fst (send_segment t acts r))) = snd_wnd t"
  "iss (fst (fst (send_segment t acts r))) = iss t"
  "mss (fst (fst (send_segment t acts r))) = mss t"
  "fin_queued (fst (fst (send_segment t acts r))) = fin_queued t"
  by (simp_all add: send_segment_def advance_close_state_def Let_def)

lemma send_segments_frame [simp]:
  "snd_una (fst (fst (send_segments n t acts b))) = snd_una t"
  "snd_avail (fst (fst (send_segments n t acts b))) = snd_avail t"
  "snd_wnd (fst (fst (send_segments n t acts b))) = snd_wnd t"
  "iss (fst (fst (send_segments n t acts b))) = iss t"
  "mss (fst (fst (send_segments n t acts b))) = mss t"
proof (induction n arbitrary: t acts b)
  case (Suc n)
  {
    case 1
    show ?case by (simp add: case_prod_beta Suc.IH)
  next
    case 2
    show ?case by (simp add: case_prod_beta Suc.IH)
  next
    case 3
    show ?case by (simp add: case_prod_beta Suc.IH)
  next
    case 4
    show ?case by (simp add: case_prod_beta Suc.IH)
  next
    case 5
    show ?case by (simp add: case_prod_beta Suc.IH)
  }
qed simp_all

lemma send_what_we_can_frame [simp]:
  "snd_una (fst (send_what_we_can t acts now)) = snd_una t"
  "snd_avail (fst (send_what_we_can t acts now)) = snd_avail t"
  "snd_wnd (fst (send_what_we_can t acts now)) = snd_wnd t"
  "iss (fst (send_what_we_can t acts now)) = iss t"
  "mss (fst (send_what_we_can t acts now)) = mss t"
  using send_segments_frame [of 2 t acts False]
  by (simp_all add: send_what_we_can_def start_timing_def case_prod_beta Let_def)

lemma send_segment_grows:
  assumes "in_order t" "snd_nxt t \<noteq> snd_una t"
  shows "snd_nxt (fst (fst (send_segment t acts r))) \<noteq> snd_una t"
proof (rule send_segment_cases [of t acts r])
  fix acts'
  let ?l = "segment_length t"
  assume eq: "send_segment t acts r = ((t\<lparr>since_ack := 0, snd_nxt := snd_nxt t + ucast ?l\<rparr>, acts'), True)"
  have l: "unat ?l \<le> unat (unsent t)"
    by (simp add: unat_segment_length)
  have "snd_nxt t + ucast ?l \<noteq> snd_una t"
    using assms(1)
  proof (cases rule: seq_ok_cases)
    case sending
    then have "dist (snd_una t) (snd_nxt t) + unat ?l < 2 ^ 32"
      using l ring_small(2) by (simp add: unsent_def)
    then have "dist (snd_una t) (snd_nxt t + ucast ?l) \<noteq> 0"
      using dist_step [of "snd_una t" "snd_nxt t" "ucast ?l"] assms(2) by simp
    then show ?thesis
      by simp
  qed (use l assms(2) in \<open>simp_all add: unsent_def unat_eq_0\<close>)
  with eq show ?thesis
    by simp
next
  fix acts'
  let ?l = "segment_length t"
  assume fin: "fin_now t r" "send_segment t acts r =
    ((t\<lparr>since_ack := 0, fin_seq := Some (snd_nxt t + ucast ?l), snd_nxt := snd_nxt t + ucast ?l + 1,
        tcb_state := after_fin (tcb_state t)\<rparr>, acts'), True)"
  then have none: "seq_ok (snd_una t) (snd_nxt t) (snd_avail t) None"
    and "ucast ?l = (if follows (snd_avail t) (snd_nxt t) then snd_avail t - snd_nxt t else 0)"
    using assms(1) by (simp_all add: fin_now_def unsent_def)
  from seq_ok_send_fin(1) [OF this] have "snd_nxt t + ucast ?l = snd_avail t" .
  moreover have "dist (snd_una t) (snd_avail t + 1) = dist (snd_una t) (snd_avail t) + 1"
    using none ring_small(2) by (intro dist_succ) (simp add: seq_ok_def)
  then have "snd_avail t + 1 \<noteq> snd_una t"
    by (metis add_is_0 dist_self one_neq_zero)
  ultimately show ?thesis
    using fin(2) by simp
qed (use assms in simp)

lemma in_order_send_segments:
  assumes "in_order t"
  shows "in_order (fst (fst (send_segments n t acts b)))"
    and "snd_nxt t \<noteq> snd_una t \<Longrightarrow> snd_nxt (fst (fst (send_segments n t acts b))) \<noteq> snd_una t"
proof -
  have "in_order (fst (fst (send_segments n t acts b))) \<and>
    (snd_nxt t \<noteq> snd_una t \<longrightarrow> snd_nxt (fst (fst (send_segments n t acts b))) \<noteq> snd_una t)"
    using assms
  proof (induction n arbitrary: t acts b)
    case (Suc n)
    show ?case
      using Suc.IH [OF in_order_send_segment [OF Suc.prems, of acts False],
          of "snd (fst (send_segment t acts False))" True]
        send_segment_grows [OF Suc.prems, of acts False]
        in_order_send_segment [OF Suc.prems, of acts False]
      by (simp add: case_prod_beta)
  qed simp
  then show "in_order (fst (fst (send_segments n t acts b)))"
    and "snd_nxt t \<noteq> snd_una t \<Longrightarrow> snd_nxt (fst (fst (send_segments n t acts b))) \<noteq> snd_una t"
    by simp_all
qed

lemma in_order_send_what_we_can:
  assumes "in_order t"
  shows "in_order (fst (send_what_we_can t acts now))"
    and "snd_nxt t \<noteq> snd_una t \<Longrightarrow> snd_nxt (fst (send_what_we_can t acts now)) \<noteq> snd_una t"
  using assms in_order_send_segments [OF assms, of 2 acts False]
  by (simp_all add: send_what_we_can_def start_timing_def case_prod_beta Let_def)

lemma ord_ok_send_what_we_can:
  assumes "ord_ok t"
  shows "ord_ok (fst (send_what_we_can t acts now))"
proof (cases "sending (tcb_state t)")
  case True
  then have "in_order t"
    using assms by (auto simp: ord_ok_def can_send_iff)
  note o = in_order_send_what_we_can [OF this, of acts now]
  have "tcb_state (fst (send_what_we_can t acts now)) \<in> insert (after_fin (tcb_state t)) {tcb_state t}"
    by (rule send_what_we_can_successors)
  then show ?thesis
    using True assms o by (cases "tcb_state t") (auto simp: ord_ok_def)
next
  case False
  then show ?thesis
    using assms by (simp add: send_what_we_can_idle)
qed

subsection \<open>Acknowledgements\<close>

text \<open>The pointers an invariant of the sender depends on.\<close>

definition same_sender :: "tcb \<Rightarrow> tcb \<Rightarrow> bool" where
  "same_sender t t' \<longleftrightarrow> snd_una t' = snd_una t \<and> snd_nxt t' = snd_nxt t \<and> snd_avail t' = snd_avail t \<and>
     fin_seq t' = fin_seq t \<and> iss t' = iss t"

lemma same_sender_simps [simp]:
  "same_sender t t" "same_sender t (t\<lparr>since_ack := k\<rparr>)" "same_sender t (t\<lparr>rcv_wnd := w\<rparr>)"
  by (simp_all add: same_sender_def)

lemma ord_ok_same:
  "ord_ok t \<Longrightarrow> same_sender t t' \<Longrightarrow> tcb_state t' = tcb_state t \<Longrightarrow> ord_ok t'"
  by (simp add: ord_ok_def same_sender_def)

lemma ord_ok_synchronised:
  "ord_ok t \<Longrightarrow> same_sender t t' \<Longrightarrow> tcb_state t \<notin> {Closed, Listen} \<Longrightarrow>
     tcb_state t' \<notin> {Listen, SynSent, SynReceived} \<Longrightarrow> ord_ok t'"
  by (simp add: ord_ok_def same_sender_def)

lemma advance_after_ack_sender: "same_sender t (fst (advance_after_ack t acts now))"
  by (simp add: advance_after_ack_def Let_def same_sender_def split: state.split)

lemma ack_new_data_order:
  assumes "in_order t" "\<not> follows ack (snd_nxt t)"
  shows "in_order (fst (ack_new_data t acts ack now))"
    and "iss (fst (ack_new_data t acts ack now)) = iss t"
proof -
  let ?t = "finish_timing (t\<lparr>snd_una := ack, retransmits := 0\<rparr>) ack now"
  have "in_order (fst (ack_new_data t acts ack now)) \<and> iss (fst (ack_new_data t acts ack now)) = iss t"
    using assms seq_ok_ack [OF assms(1) _ assms(2)] advance_after_ack_sender [of ?t _ now]
    by (simp add: ack_new_data_def Let_def same_sender_def)
  then show "in_order (fst (ack_new_data t acts ack now))"
    and "iss (fst (ack_new_data t acts ack now)) = iss t"
    by simp_all
qed

lemma ord_ok_process_ack:
  assumes "ord_ok t" "tcb_state t \<notin> {Closed, Listen, SynSent}"
  shows "ord_ok (fst (fst (process_ack t acts s ack now)))"
proof -
  let ?r = "fst (fst (process_ack t acts s ack now))"
  let ?t = "finish_timing (t\<lparr>tcb_state := Established, snd_una := ack\<rparr>) ack now"
  have o: "in_order t"
    using assms by (simp add: ord_ok_def)
  consider (late) "follows ack (snd_nxt t)"
    | (syn) "\<not> follows ack (snd_nxt t)" "tcb_state t = SynReceived" "follows ack (iss t)"
    | (bad) "\<not> follows ack (snd_nxt t)" "tcb_state t = SynReceived" "\<not> follows ack (iss t)"
    | (ack) "\<not> follows ack (snd_nxt t)" "tcb_state t \<noteq> SynReceived"
    by blast
  then show ?thesis
  proof cases
    case late
    then show ?thesis
      using assms(1) by (simp add: process_ack_def ord_ok_def)
  next
    case bad
    then show ?thesis
      using assms(1) by (simp add: process_ack_def)
  next
    case syn
    then have "in_order ?t"
      using o assms(1) seq_ok_ack [OF o _ syn(1)] by (simp add: ord_ok_def)
    then have "in_order ?r"
      using ack_new_data_order(1) [of ?t ack "arm_retransmit ?t acts now" now] syn
      by (simp add: process_ack_def Let_def case_prod_beta)
    moreover have "tcb_state ?r = Established"
      using ack_new_data_state [of ?t "arm_retransmit ?t acts now" ack now] syn
      by (simp add: process_ack_def Let_def case_prod_beta)
    ultimately show ?thesis
      by (simp add: ord_ok_def)
  next
    case ack
    then have "in_order ?r"
      using ack_new_data_order(1) [OF o, of ack acts now] by (simp add: process_ack_def Let_def case_prod_beta)
    moreover have "tcb_state ?r \<notin> {Listen, SynSent, SynReceived}"
      using process_ack_state [of t acts s ack now] assms(2) ack(2) by (cases "tcb_state t") auto
    ultimately show ?thesis
      by (simp add: ord_ok_def)
  qed
qed

lemma take_data_sender: "same_sender t (fst (take_data t acts s now))"
proof -
  have d: "same_sender t (fst (fst (deliver t acts s)))"
    by (simp add: deliver_def Let_def same_sender_def)
  have "same_sender t2 (fst (peer_closed t2 a now))" for t2 a
    by (simp add: peer_closed_def case_prod_beta same_sender_def split: state.split)
  moreover have "same_sender t2 (fst (acknowledge_or_delay t2 a now))" for t2 a
    by (simp add: acknowledge_or_delay_def Let_def same_sender_def)
  ultimately show ?thesis
    using d by (simp add: take_data_def Let_def case_prod_beta same_sender_def)
qed

lemma ord_ok_take_data:
  assumes "ord_ok t" "tcb_state t \<notin> {Listen, SynSent, SynReceived}"
  shows "ord_ok (fst (take_data t acts s now))"
proof (cases "tcb_state t = Closed")
  case True
  then show ?thesis
    using take_data_state [of t acts s now] by (simp add: ord_ok_def)
next
  case False
  then have "tcb_state (fst (take_data t acts s now)) \<notin> {Listen, SynSent, SynReceived}"
    using take_data_state [of t acts s now] assms(2) by (cases "tcb_state t") auto
  with False assms take_data_sender [of t acts s now] show ?thesis
    by (blast intro: ord_ok_synchronised [of t])
qed

lemma ord_ok_closed [simp]: "ord_ok (t\<lparr>tcb_state := Closed\<rparr>)"
  by (simp add: ord_ok_def)

lemma ord_ok_abort: "ord_ok (fst (abort_conn t acts))"
  by (simp add: abort_conn_def Let_def)

lemma ord_ok_synchronised_arrival:
  assumes "ord_ok t" "tcb_state t \<notin> {Closed, Listen, SynSent}"
  shows "ord_ok (fst (synchronised_arrival t acts s now))"
proof -
  have "ord_ok (t\<lparr>since_ack := k\<rparr>)" for k
    using assms(1) by (rule ord_ok_same) simp_all
  moreover have "ord_ok (fst (send_what_we_can (fst (take_data t1 a1 s now)) a2 now))"
    if "process_ack t acts s ack now = ((t1, a1), True)" for ack t1 a1 a2
  proof -
    have "ord_ok t1"
      using ord_ok_process_ack [OF assms, of acts s ack now] that by simp
    moreover have "tcb_state t1 \<notin> {Listen, SynSent, SynReceived}"
      using process_ack_synchronised [of t acts s ack now] assms(2) that by simp
    ultimately show ?thesis
      by (intro ord_ok_send_what_we_can ord_ok_take_data)
  qed
  ultimately show ?thesis
    using assms(1) ord_ok_abort [of t acts] ord_ok_process_ack [OF assms, of acts s _ now]
    by (auto simp: synchronised_arrival_def split: option.split prod.split) (metis fst_conv)+
qed

lemma ord_ok_listen_arrival:
  assumes "ord_ok t" "tcb_state t = Listen" "fin_seq t = None"
  shows "ord_ok (fst (listen_arrival t acts s now))"
proof -
  have "snd_una t = iss t"
    using assms(1,2) by (simp add: ord_ok_def)
  moreover have "seq_ok (iss t) (iss t + 1) (iss t + 1) None"
    by (simp add: seq_ok_def)
  ultimately show ?thesis
    using assms by (simp add: listen_arrival_def Let_def start_timing_def ord_ok_def)
qed

lemma ord_ok_syn_sent_ok:
  assumes "ord_ok t" "tcb_state t = SynSent"
    and "\<And>ack. acknowledgement s = Some ack \<Longrightarrow> follows ack (iss t) \<and> \<not> follows ack (snd_nxt t)"
  shows "ord_ok (fst (syn_sent_ok t acts s now))"
proof -
  have o: "in_order t" and una: "snd_una t = iss t" and nxt: "snd_nxt t = iss t + 1"
    using assms(1) unfolding ord_ok_def assms(2) by auto
  have "\<not> follows (iss t) (iss t)"
    by (simp add: follows_dist)
  moreover have "ord_ok (fst (send_what_we_can t2 a2 now))"
    if "tcb_state t2 = Established" "in_order t2" for t2 a2
    using that by (intro ord_ok_send_what_we_can) (simp add: ord_ok_def)
  moreover have "seq_ok ack (snd_nxt t) (snd_avail t) (fin_seq t)" if "acknowledgement s = Some ack" for ack
    using seq_ok_ack [OF o] assms(3) [OF that] una by simp
  moreover have "ord_ok (t2\<lparr>tcb_state := SynReceived, snd_nxt := iss t + 1\<rparr>)"
    if "same_sender t t2" for t2
    using that o una nxt by (simp add: ord_ok_def same_sender_def)
  ultimately show ?thesis
    using assms o una nxt
    by (simp add: syn_sent_ok_def Let_def case_prod_beta same_sender_def ord_ok_def [of t] split: option.split)
qed

subsection \<open>Retransmission, probes and the program's calls\<close>

lemma seq_ok_back: "seq_ok una nxt avail fin \<Longrightarrow> una \<noteq> nxt \<Longrightarrow> seq_ok una una avail fin"
  by (cases fin) (auto simp: seq_ok_def)

lemma seq_ok_fin_again:
  assumes "seq_ok una avail avail (Some avail)"
  shows "seq_ok una (avail + 1) avail (Some avail)"
  using assms
proof (cases rule: seq_ok_cases)
  case sending
  then have "dist una (avail + 1) = dist una avail + 1"
    using ring_small(2) by (intro dist_succ) linarith
  with sending(2) show ?thesis
    by (simp add: seq_ok_def)
qed simp_all

lemma seq_ok_fin_avail: "seq_ok una nxt avail (Some f) \<Longrightarrow> f = avail"
  by (simp add: seq_ok_def)

lemma resend_rest:
  assumes "tcb_state t \<notin> {SynSent, SynReceived}"
  obtains "fst (resend t acts) = fst (fst (send_segment t acts True))"
  | f where "fst (resend t acts) = (fst (fst (send_segment t acts True)))\<lparr>snd_nxt := f + 1\<rparr>"
      "fin_seq (fst (fst (send_segment t acts True))) = Some f"
      "snd_nxt (fst (fst (send_segment t acts True))) = f"
proof -
  obtain t1 a1 b where e: "send_segment t acts True = ((t1, a1), b)"
    by (metis surj_pair)
  have "resend t acts = (case fin_seq t1 of
      None \<Rightarrow> (t1, a1)
    | Some fin \<Rightarrow>
        if \<not> follows (snd_una t1) fin \<and> snd_nxt t1 = fin
        then (t1\<lparr>snd_nxt := fin + 1\<rparr>,
              push a1 (emission FIN fin (Some (rcv_nxt t1)) (rcv_wnd t1) 0 None))
        else (t1, a1))"
    using assms by (cases "tcb_state t") (simp_all add: resend_def e)
  note eq = this
  show ?thesis
  proof (cases "\<exists>f. fin_seq t1 = Some f \<and> \<not> follows (snd_una t1) f \<and> snd_nxt t1 = f")
    case True
    then obtain f where f: "fin_seq t1 = Some f" "\<not> follows (snd_una t1) f" "snd_nxt t1 = f"
      by blast
    show ?thesis
      by (rule that(2) [of f]) (use f in \<open>simp_all add: eq e\<close>)
  next
    case False
    then have "resend t acts = (t1, a1)"
      unfolding eq by (auto split: option.split)
    then show ?thesis
      by (intro that(1)) (simp add: e)
  qed
qed

lemma in_order_resend:
  assumes "in_order t" "tcb_state t \<notin> {SynSent, SynReceived}"
  shows "in_order (fst (resend t acts))"
proof -
  let ?t = "fst (fst (send_segment t acts True))"
  have o: "in_order ?t"
    by (rule in_order_send_segment [OF assms(1)])
  have "in_order (?t\<lparr>snd_nxt := f + 1\<rparr>)" if "fin_seq ?t = Some f" "snd_nxt ?t = f" for f
  proof -
    have "f = snd_avail ?t"
      using seq_ok_fin_avail o that(1) by metis
    then show ?thesis
      using o that seq_ok_fin_again [of "snd_una t" f] by simp
  qed
  with o show ?thesis
    by (cases rule: resend_rest [OF assms(2), of acts]) simp_all
qed

lemma ord_ok_retransmit:
  assumes "ord_ok t" "fin_ok t" "tcb_state t \<noteq> Listen"
  shows "ord_ok (fst (retransmit t acts now))"
proof (cases "tcb_state t = Closed \<or> \<not> awaiting_ack t \<or> retransmit_limit t \<le> retransmits t")
  case True
  then show ?thesis
    using assms(1) by (auto simp: retransmit_def)
next
  case False
  let ?t = "t\<lparr>retransmits := retransmits t + 1, rto_us := min (sat_mul (rto_us t) 2) MAX_RTO_US,
    timing := None, snd_nxt := snd_una t\<rparr>"
  have o: "in_order t" and ne: "snd_una t \<noteq> snd_nxt t"
    using False assms(1,3) by (auto simp: ord_ok_def awaiting_ack_def)
  have eq: "fst (retransmit t acts now) = fst (resend ?t acts)"
    using False by (simp add: retransmit_def Let_def case_prod_beta)
  consider (syn) "tcb_state t = SynSent" | (synack) "tcb_state t = SynReceived"
    | (rest) "tcb_state t \<notin> {Closed, Listen, SynSent, SynReceived}"
    using False assms(3) by blast
  then show ?thesis
  proof cases
    case syn
    then show ?thesis
      using assms(1) o by (auto simp: eq resend_def ord_ok_def)
  next
    case synack
    then have "fin_seq t = None" "snd_una t = iss t"
      using assms(1,2) by (simp_all add: fin_ok_def ord_ok_def)
    moreover have "seq_ok (snd_una t) (snd_una t + 1) (snd_avail t) None"
    proof -
      have "0 < dist (snd_una t) (snd_nxt t)"
        using ne by (metis dist_eq_0_iff gr0I)
      then have "1 \<le> dist (snd_una t) (snd_avail t)"
        using o \<open>fin_seq t = None\<close> by (simp add: seq_ok_def)
      then show ?thesis
        using o \<open>fin_seq t = None\<close> by (simp add: seq_ok_def)
    qed
    ultimately show ?thesis
      using synack by (simp add: eq resend_def ord_ok_def)
  next
    case rest
    have "in_order (fst (resend ?t acts))"
      using seq_ok_back [OF o ne] rest by (intro in_order_resend) simp_all
    moreover have "tcb_state (fst (resend ?t acts)) \<notin> {Listen, SynSent, SynReceived}"
      using resend_successors [of ?t acts] rest by (cases "tcb_state t") auto
    ultimately show ?thesis
      by (simp add: eq ord_ok_def)
  qed
qed

lemma ord_ok_probe:
  assumes "ord_ok t" "fin_ok t"
  shows "ord_ok (fst (probe t acts now))"
proof (cases "\<not> can_send (tcb_state t) \<or> snd_wnd t \<noteq> 0 \<or> unsent t = 0")
  case True
  then show ?thesis
    using assms(1) by (simp add: probe_def)
next
  case False
  then have st: "tcb_state t \<in> {Established, CloseWait}"
    by (auto simp: can_send_iff)
  then have "in_order t"
    using assms(1) by (auto simp: ord_ok_def)
  moreover have "unat (1 :: u16) \<le> unat (unsent t)"
    using False by (simp add: Suc_le_eq unat_gt_0)
  ultimately have "in_order (t\<lparr>snd_nxt := snd_nxt t + 1\<rparr>)"
    using seq_ok_send [of _ "snd_nxt t" _ _ 1] by (simp add: unsent_def)
  then show ?thesis
    using st False by (auto simp: probe_def Let_def ord_ok_def)
qed

text \<open>
  What the program promises: it writes only before it closes its side, and never has more than a
  ring's worth of bytes unacknowledged.
\<close>

definition program_ok :: "tcb \<Rightarrow> event \<Rightarrow> bool" where
  "program_ok t ev \<longleftrightarrow>
     (case ev of
        Wrote n \<Rightarrow> tcb_state t \<in> {Closed, Listen} \<or>
          \<not> fin_queued t \<and> fin_seq t = None \<and> dist (snd_una t) (snd_avail t) + unat n \<le> RING_LIMIT + 1
      | ev \<Rightarrow> tcb_state t = Closed \<longrightarrow> \<not> opens ev)"

lemma ord_ok_wrote:
  assumes "ord_ok t" "program_ok t (Wrote n)"
  shows "ord_ok (t\<lparr>snd_avail := snd_avail t + n\<rparr>)"
proof (cases "tcb_state t \<in> {Closed, Listen}")
  case True
  then show ?thesis
    using assms(1) by (auto simp: ord_ok_def)
next
  case False
  then have p: "fin_seq t = None" "dist (snd_una t) (snd_avail t) + unat n \<le> RING_LIMIT + 1"
    using assms(2) by (simp_all add: program_ok_def)
  have "in_order t"
    using False assms(1) by (simp add: ord_ok_def)
  moreover have "dist (snd_una t) (snd_avail t + n) = dist (snd_una t) (snd_avail t) + unat n"
    using p(2) ring_small(2) by (intro dist_step) linarith
  ultimately have "in_order (t\<lparr>snd_avail := snd_avail t + n\<rparr>)"
    using p by (simp add: seq_ok_def)
  with assms(1) show ?thesis
    by (simp add: ord_ok_def)
qed

lemma ord_ok_shutdown: "ord_ok t \<Longrightarrow> ord_ok (fst (shutdown_conn t acts now))"
proof -
  assume "ord_ok t"
  then have "ord_ok (t\<lparr>fin_queued := True\<rparr>)"
    by (rule ord_ok_same) (simp_all add: same_sender_def)
  then show ?thesis
    using \<open>ord_ok t\<close> by (simp add: shutdown_conn_def ord_ok_send_what_we_can)
qed

lemma ord_ok_reopen_window: "ord_ok t \<Longrightarrow> ord_ok (fst (reopen_window t acts n))"
  by (erule ord_ok_same) (simp_all add: reopen_window_def Let_def same_sender_def)

lemma ord_ok_expired:
  assumes "ord_ok t" "fin_ok t"
  shows "ord_ok (fst (expired t acts tm now))"
proof -
  have "ord_ok (t\<lparr>since_ack := 0\<rparr>)"
    using assms(1) by (rule ord_ok_same) simp_all
  moreover have "ord_ok (fst (retransmit t acts now))"
  proof (cases "tcb_state t = Listen")
    case True
    with assms(1) have "\<not> awaiting_ack t"
      by (simp add: ord_ok_def awaiting_ack_def)
    with assms(1) show ?thesis
      by (simp add: retransmit_def)
  next
    case False
    with assms show ?thesis
      by (rule ord_ok_retransmit)
  qed
  ultimately show ?thesis
    using assms ord_ok_probe [OF assms, of acts now] by (cases tm) (simp_all add: expired_def)
qed

lemma ord_ok_arrived:
  assumes "ord_ok t" "fin_ok t"
  shows "ord_ok (fst (arrived t acts s now))"
proof -
  have "ord_ok (fst (syn_sent_arrival t acts s now))" if "tcb_state t = SynSent"
    using that assms(1) ord_ok_syn_sent_ok [OF assms(1) that, of s acts now]
    by (auto simp: syn_sent_arrival_def split: option.split)
  moreover have "fin_seq t = None" if "tcb_state t = Listen"
    using that assms(2) by (simp add: fin_ok_def)
  ultimately show ?thesis
    using assms(1) ord_ok_listen_arrival [of t acts s now] ord_ok_synchronised_arrival [of t acts s now]
    by (cases "tcb_state t") (simp_all add: arrived_def)
qed

lemma ord_ok_step:
  assumes "ord_ok t" "fin_ok t" "program_ok t ev"
  shows "ord_ok (fst (step t ev now))"
  using assms
  by (cases ev) (simp_all add: step_def program_ok_def opens_def open_conn_def ord_ok_wrote
      ord_ok_send_what_we_can ord_ok_reopen_window ord_ok_shutdown ord_ok_abort ord_ok_arrived ord_ok_expired)

end
