(* ===== verification/TcpClosed.thy ===== *)
theory TcpClosed
  imports TcpInv
begin

text \<open>
  A step tells the caller that the connection is over exactly when it enters \<open>Closed\<close>.
\<close>

definition tells_closed :: "actions \<Rightarrow> bool" where
  "tells_closed acts \<longleftrightarrow> (\<exists>e. ActClosed e \<in> set (items acts))"

lemma set_push_subset: "set (items (push acts a)) \<subseteq> insert a (set (items acts))"
  by (auto simp: push_def push_new_def dest: set_update_subset_insert [THEN subsetD] split: option.splits)

lemma push_keeps: "timer_of b = None \<Longrightarrow> b \<in> set (items acts) \<Longrightarrow> b \<in> set (items (push acts a))"
proof (cases "timer_of a")
  case (Some tm)
  assume b: "timer_of b = None" "b \<in> set (items acts)"
  show ?thesis
  proof (cases "position (\<lambda>b. timer_of b = Some tm) (items acts)")
    case (Some i)
    then have "timer_of (items acts ! i) \<noteq> None"
      by (auto dest: position_holds)
    moreover obtain j where "j < length (items acts)" "items acts ! j = b"
      using b(2) by (auto simp: in_set_conv_nth)
    ultimately have "j < length (items acts)" "items acts ! j = b" "j \<noteq> i"
      using b(1) by auto
    then have "b \<in> set ((items acts)[i := a])"
      by (metis length_list_update nth_list_update_neq nth_mem)
    with \<open>timer_of a = _\<close> Some show ?thesis
      by (simp add: push_def)
  qed (use b \<open>timer_of a = _\<close> in \<open>simp add: push_def push_new_def\<close>)
qed (simp add: push_def push_new_def)

lemma tells_closed_push_other:
  "(\<forall>e. a \<noteq> ActClosed e) \<Longrightarrow> tells_closed (push acts a) = tells_closed acts"
  using set_push_subset [of acts a] push_keeps [of "ActClosed _" acts a]
  by (fastforce simp: tells_closed_def)

lemma tells_closed_push:
  "length (items acts) < MAX_ACTIONS \<Longrightarrow> tells_closed (push acts (ActClosed e))"
  by (auto simp: tells_closed_def push_def push_new_def)

lemma tells_closed_new [simp]: "\<not> tells_closed actions_new"
  by (simp add: tells_closed_def actions_new_def)

subsection \<open>Functions that never say so\<close>

lemma tells_closed_simps [simp]:
  "tells_closed (push acts (Emit em)) = tells_closed acts"
  "tells_closed (push acts (Arm tm x)) = tells_closed acts"
  "tells_closed (push acts (Cancel tm)) = tells_closed acts"
  "tells_closed (push acts (Delivered n)) = tells_closed acts"
  "tells_closed (push acts (Acknowledged n)) = tells_closed acts"
  by (simp_all add: tells_closed_push_other)

lemma tells_closed_acknowledge_now [simp]:
  "tells_closed (snd (acknowledge_now t acts)) = tells_closed acts"
  by (simp add: acknowledge_now_def Let_def)

lemma tells_closed_timers [simp]:
  "tells_closed (arm_retransmit t acts now) = tells_closed acts"
  "tells_closed (arm_probe t acts now) = tells_closed acts"
  "tells_closed (snd (enter_time_wait t acts now)) = tells_closed acts"
  "tells_closed (snd (update_window t acts s)) = tells_closed acts"
  by (simp_all add: arm_retransmit_def arm_probe_def enter_time_wait_def update_window_def Let_def)

lemma tells_closed_send_segment [simp]:
  "tells_closed (snd (fst (send_segment t acts r))) = tells_closed acts"
  by (simp add: send_segment_def Let_def)

lemma tells_closed_send_segments [simp]:
  "tells_closed (snd (fst (send_segments n t acts b))) = tells_closed acts"
proof (induction n arbitrary: t acts b)
  case (Suc n)
  show ?case
    using tells_closed_send_segment [of t acts False] by (simp add: case_prod_beta Suc.IH)
qed simp

lemma tells_closed_send_what_we_can [simp]:
  "tells_closed (snd (send_what_we_can t acts now)) = tells_closed acts"
  using tells_closed_send_segments [of 2 t acts False]
  by (simp add: send_what_we_can_def Let_def case_prod_beta)

lemma tells_closed_take_data [simp]:
  "tells_closed (snd (take_data t acts s now)) = tells_closed acts"
proof -
  have d: "tells_closed (snd (fst (deliver t acts s))) = tells_closed acts"
    by (simp add: deliver_def Let_def)
  have "tells_closed (snd (peer_closed t2 a now)) = tells_closed a" for t2 a
    by (simp add: peer_closed_def case_prod_beta split: state.split)
  moreover have "tells_closed (snd (acknowledge_or_delay t2 a now)) = tells_closed a" for t2 a
    by (simp add: acknowledge_or_delay_def Let_def)
  ultimately show ?thesis
    using d by (simp add: take_data_def Let_def case_prod_beta)
qed

lemma tells_closed_resend [simp]: "tells_closed (snd (resend t acts)) = tells_closed acts"
  by (simp add: resend_def case_prod_beta split: state.split option.split)

subsection \<open>Functions that keep a connection closed, or open\<close>

lemma take_data_closed_iff [simp]:
  "tcb_state (fst (take_data t acts s now)) = Closed \<longleftrightarrow> tcb_state t = Closed"
  using take_data_state [of t acts s now] by (cases "tcb_state t") auto

lemma send_what_we_can_closed_iff [simp]:
  "tcb_state (fst (send_what_we_can t acts now)) = Closed \<longleftrightarrow> tcb_state t = Closed"
  using send_what_we_can_state [of t acts now] by (cases "tcb_state t") auto

lemma resend_closed_iff [simp]: "tcb_state (fst (resend t acts)) = Closed \<longleftrightarrow> tcb_state t = Closed"
  using resend_successors [of t acts] by (cases "tcb_state t") auto

text \<open>\<open>news\<close>: the caller is told that the connection is over, if and only if it is.\<close>

definition news :: "conn \<Rightarrow> bool" where
  "news c \<longleftrightarrow> (tells_closed (snd c) \<longleftrightarrow> tcb_state (fst c) = Closed)"

lemma news_advance_after_ack:
  assumes "shape 1 {Retransmit} acts" "\<not> tells_closed acts" "tcb_state t \<noteq> Closed"
  shows "news (advance_after_ack t acts now)"
  using assms tells_closed_push [OF shape_room [OF assms(1)]]
  by (simp add: news_def advance_after_ack_def Let_def split: state.split)

lemma news_ack_new_data:
  assumes "shape 0 {Retransmit} acts" "\<not> tells_closed acts" "tcb_state t \<noteq> Closed"
  shows "news (ack_new_data t acts ack now)"
proof -
  have "shape 1 {Retransmit} (if 0 < b then push acts (Acknowledged b) else acts)" for b
    using shape_push [OF assms(1), of "Acknowledged b"] shape_mono [OF assms(1), of 1 "{Retransmit}"]
    by simp
  from shape_arm_retransmit [OF this]
  have "shape 1 {Retransmit} (arm_retransmit t2 (if 0 < b then push acts (Acknowledged b) else acts) now)"
    for b t2
    by simp
  then have "news (advance_after_ack t2
      (arm_retransmit t2 (if 0 < b then push acts (Acknowledged b) else acts) now) now)"
    if "tcb_state t2 \<noteq> Closed" for t2 b
    using assms(2) that by (intro news_advance_after_ack) simp_all
  from this [of "finish_timing (t\<lparr>snd_una := ack, retransmits := 0\<rparr>) ack now"]
  show ?thesis
    using assms(2,3) by (simp add: ack_new_data_def Let_def news_def)
qed

lemma news_process_ack:
  assumes "shape 0 {} acts" "\<not> tells_closed acts" "tcb_state t \<noteq> Closed"
  shows "news (fst (process_ack t acts s ack now))"
proof -
  let ?t = "finish_timing (t\<lparr>tcb_state := Established, snd_una := ack\<rparr>) ack now"
  have "shape 0 {Retransmit} acts" "shape 0 {Retransmit} (arm_retransmit ?t acts now)"
    using assms(1) shape_arm_retransmit [OF assms(1)] by (auto elim: shape_mono)
  then have "news (ack_new_data t acts ack now)"
    "news (ack_new_data ?t (arm_retransmit ?t acts now) ack now)"
    using assms(2,3) by (auto intro!: news_ack_new_data)
  then show ?thesis
    using assms(2,3) by (simp add: process_ack_def news_def Let_def case_prod_beta)
qed

lemma news_synchronised_arrival:
  assumes "shape 0 {} acts" "\<not> tells_closed acts" "tcb_state t \<noteq> Closed"
  shows "news (synchronised_arrival t acts s now)"
proof -
  have room: "length (items acts) < MAX_ACTIONS"
    using shape_room [OF assms(1)] by simp
  have "shape 1 {} (push acts (Emit em))" for em
    using shape_push [OF assms(1), of "Emit em"] by simp
  then have "length (items (push acts (Emit em))) < MAX_ACTIONS" for em
    using shape_room by fastforce
  then have "news (abort_conn t acts)"
    using assms(3) room by (simp add: news_def abort_conn_def Let_def tells_closed_push)
  moreover have "news (send_what_we_can (fst (take_data t1 a1 s now)) (snd (take_data t1 a1 s now)) now)"
    if "news (t1, a1)" for t1 a1
    using that by (simp add: news_def)
  ultimately show ?thesis
    using assms room news_process_ack [OF assms, of s _ now]
    by (simp add: synchronised_arrival_def news_def case_prod_beta tells_closed_push split: option.split)
qed

lemma news_syn_sent_arrival:
  assumes "shape 0 {} acts" "\<not> tells_closed acts" "tcb_state t \<noteq> Closed"
  shows "news (syn_sent_arrival t acts s now)"
proof -
  have room: "length (items acts) < MAX_ACTIONS"
    using shape_room [OF assms(1)] by simp
  have "news (syn_sent_ok t acts s now)"
    using assms(2,3) room
    by (simp add: news_def syn_sent_ok_def Let_def case_prod_beta tells_closed_push split: option.split)
  then show ?thesis
    using assms(2,3) by (simp add: syn_sent_arrival_def news_def split: option.split)
qed

lemma news_arrived:
  assumes "tcb_state t \<noteq> Closed"
  shows "news (arrived t actions_new s now)"
proof -
  have "news (listen_arrival t actions_new s now)"
    using assms by (simp add: news_def listen_arrival_def closed_arrival_def start_timing_def Let_def
        split: option.split)
  then show ?thesis
    using assms news_syn_sent_arrival [of actions_new t s now]
      news_synchronised_arrival [of actions_new t s now]
    by (cases "tcb_state t") (simp_all add: arrived_def)
qed

lemma news_expired:
  assumes "tcb_state t \<noteq> Closed"
  shows "news (expired t actions_new tm now)"
proof -
  have room: "tells_closed (push actions_new (ActClosed e))" for e
    by (rule tells_closed_push) (simp add: actions_new_def MAX_ACTIONS_def)
  have "news (retransmit t actions_new now)"
    using assms room by (simp add: news_def retransmit_def Let_def case_prod_beta)
  moreover have "news (probe t actions_new now)"
    using assms by (simp add: news_def probe_def Let_def)
  ultimately show ?thesis
    using assms room by (cases tm) (simp_all add: expired_def news_def)
qed

lemma news_step:
  assumes "tcb_state t \<noteq> Closed"
  shows "news (step t ev now)"
proof -
  have room: "tells_closed (push actions_new (ActClosed e))"
    "tells_closed (push (push actions_new (Emit em)) (ActClosed e))" for e em
    by (rule tells_closed_push, simp add: actions_new_def MAX_ACTIONS_def push_def push_new_def)+
  have "news (shutdown_conn t actions_new now)"
    using assms room by (simp add: news_def shutdown_conn_def)
  moreover have "news (abort_conn t actions_new)"
    using assms room by (simp add: news_def abort_conn_def Let_def)
  moreover have "news (reopen_window t actions_new n)" for n
    using assms by (simp add: news_def reopen_window_def Let_def)
  ultimately show ?thesis
    using assms news_arrived news_expired
    by (cases ev) (simp_all add: step_def open_conn_def news_def)
qed

end
