(* ===== verification/TcpWindow.thy ===== *)
theory TcpWindow
  imports TcpOrder TcpClosed
begin

text \<open>
  Flow control: the bytes a step sends were written by the program, fit the peer's segment size and
  lie inside the window the peer last advertised. The exception is the one-byte probe of a closed
  window.
\<close>

definition within :: "tcb \<Rightarrow> emit \<Rightarrow> bool" where
  "within t e \<longleftrightarrow> emit_length e = 0 \<or>
     (let last = dist (snd_una t) (emit_sequence e) + unat (emit_length e) in
      last \<le> unat (snd_wnd t) \<and> last \<le> dist (snd_una t) (snd_avail t) \<and> emit_length e \<le> mss t)"

definition data_ok :: "tcb \<Rightarrow> actions \<Rightarrow> bool" where
  "data_ok t acts \<longleftrightarrow> (\<forall>e. Emit e \<in> set (items acts) \<longrightarrow> within t e)"

definition no_data :: "actions \<Rightarrow> bool" where
  "no_data acts \<longleftrightarrow> (\<forall>e. Emit e \<in> set (items acts) \<longrightarrow> emit_length e = 0)"

lemma no_data_ok: "no_data acts \<Longrightarrow> data_ok t acts"
  by (simp add: no_data_def data_ok_def within_def)

lemma no_data_new [simp]: "no_data actions_new"
  by (simp add: no_data_def actions_new_def)

lemma data_ok_push: "data_ok t acts \<Longrightarrow> (\<And>e. a = Emit e \<Longrightarrow> within t e) \<Longrightarrow> data_ok t (push acts a)"
  using set_push_subset [of acts a] by (auto simp: data_ok_def)

lemma no_data_push: "no_data acts \<Longrightarrow> (\<And>e. a = Emit e \<Longrightarrow> emit_length e = 0) \<Longrightarrow> no_data (push acts a)"
  using set_push_subset [of acts a] by (auto simp: no_data_def)

lemma data_ok_same:
  assumes "snd_una t' = snd_una t" "snd_wnd t' = snd_wnd t" "snd_avail t' = snd_avail t" "mss t' = mss t"
  shows "data_ok t' acts = data_ok t acts"
  using assms by (simp add: data_ok_def within_def)

subsection \<open>One segment\<close>

text \<open>What is allowed ends with the window.\<close>

lemma allowed_window:
  assumes "dist (snd_una t) (snd_nxt t) \<le> RING_LIMIT + 2" "allowed t \<noteq> 0"
  shows "dist (snd_una t) (snd_nxt t) + unat (allowed t) \<le> unat (snd_wnd t)"
proof -
  let ?e = "snd_una t + ucast (snd_wnd t)"
  have f: "follows ?e (snd_nxt t)" and a: "unat (allowed t) = dist (snd_nxt t) ?e"
    using assms(2) by (simp_all add: allowed_def Let_def dist_def split: if_splits)
  have e: "dist (snd_una t) ?e = unat (snd_wnd t)"
    by simp
  show ?thesis
  proof (cases "dist (snd_una t) (snd_nxt t) \<le> dist (snd_una t) ?e")
    case True
    from dist_between [OF this] show ?thesis
      using True a e by simp
  next
    case False
    then have "dist ?e (snd_nxt t) = dist (snd_una t) (snd_nxt t) - dist (snd_una t) ?e"
      by (intro dist_between) simp
    with assms(1) ring_small(1) False have small: "dist ?e (snd_nxt t) < 2 ^ 31" "0 < dist ?e (snd_nxt t)"
      by linarith+
    from small(2) have "?e \<noteq> snd_nxt t"
      by auto
    from dist_swap [OF this] small(1) have "2 ^ 31 < dist (snd_nxt t) ?e"
      by simp
    with f show ?thesis
      by (simp add: follows_dist)
  qed
qed

lemma segment_within:
  assumes "in_order t" "emit_sequence e = snd_nxt t" "emit_length e = segment_length t"
  shows "within t e"
proof (cases "segment_length t = 0")
  case True
  then show ?thesis
    using assms(3) by (simp add: within_def)
next
  case False
  let ?n = "unat (segment_length t)"
  have n: "?n \<le> unat (unsent t)" "?n \<le> unat (allowed t)" "?n \<le> unat (mss t)" "0 < ?n"
    using False by (simp_all add: unat_segment_length unat_gt_0 [symmetric] del: unat_gt_0)
  have "allowed t \<noteq> 0"
    using n(2,4) by auto
  from allowed_window [OF seq_ok_span [OF assms(1)] this]
  have window: "dist (snd_una t) (snd_nxt t) + ?n \<le> unat (snd_wnd t)"
    using n(2) by linarith
  have "dist (snd_una t) (snd_nxt t) + ?n \<le> dist (snd_una t) (snd_avail t)"
    using assms(1)
  proof (cases rule: seq_ok_cases)
    case sending
    then show ?thesis
      using n(1) by (simp add: unsent_def)
  qed (use n(1,4) in \<open>simp_all add: unsent_def\<close>)
  then show ?thesis
    using window n(3) assms(2,3) by (simp add: within_def word_le_nat_alt)
qed

lemma data_ok_send_segment:
  assumes "in_order t" "data_ok t acts"
  shows "data_ok (fst (fst (send_segment t acts r))) (snd (fst (send_segment t acts r)))"
proof -
  have "data_ok t (snd (fst (send_segment t acts r)))"
    by (rule send_segment_cases [of t acts r])
      (use assms in \<open>auto intro!: data_ok_push segment_within\<close>)
  then show ?thesis
    by (subst data_ok_same [of _ t]) simp_all
qed

lemma data_ok_send_segments:
  "in_order t \<Longrightarrow> data_ok t acts \<Longrightarrow>
     data_ok (fst (fst (send_segments n t acts b))) (snd (fst (send_segments n t acts b)))"
proof (induction n arbitrary: t acts b)
  case (Suc n)
  obtain t1 a1 c where e: "send_segment t acts False = ((t1, a1), c)"
    by (metis surj_pair)
  have "in_order t1" "data_ok t1 a1"
    using in_order_send_segment [OF Suc.prems(1), of acts False] data_ok_send_segment [OF Suc.prems, of False] e
    by simp_all
  then show ?case
    using Suc.IH [of t1 a1 True] e by simp
qed simp

lemma data_ok_arm:
  "data_ok t2 acts \<Longrightarrow> data_ok t2 (arm_retransmit t acts now)"
  "data_ok t2 acts \<Longrightarrow> data_ok t2 (arm_probe t acts now)"
  by (auto simp: arm_retransmit_def arm_probe_def intro!: data_ok_push)

lemma data_ok_send_what_we_can:
  assumes "sending (tcb_state t) \<Longrightarrow> in_order t" "data_ok t acts"
  shows "data_ok (fst (send_what_we_can t acts now)) (snd (send_what_we_can t acts now))"
proof (cases "sending (tcb_state t)")
  case True
  obtain t1 a1 b where e: "send_segments 2 t acts False = ((t1, a1), b)"
    by (metis surj_pair)
  have "data_ok t1 a1"
    using data_ok_send_segments [OF assms(1) [OF True] assms(2), of 2 False] e by simp
  then have *: "data_ok t1 (if snd_wnd t1 = 0 \<and> 0 < unsent t1 then arm_probe t1 a1 now else a1)"
    by (simp add: data_ok_arm)
  then have "data_ok (start_timing t1 now)
      (if snd_wnd t1 = 0 \<and> 0 < unsent t1 then arm_probe t1 a1 now else a1)"
    by (simp add: data_ok_def within_def start_timing_def)
  with * True show ?thesis
    by (auto simp: send_what_we_can_def e Let_def data_ok_arm)
next
  case False
  then show ?thesis
    using assms(2) by (simp add: send_what_we_can_idle)
qed

subsection \<open>Functions that send no data\<close>

lemma no_data_arm:
  "no_data acts \<Longrightarrow> no_data (arm_retransmit t acts now)" "no_data acts \<Longrightarrow> no_data (arm_probe t acts now)"
  by (auto simp: arm_retransmit_def arm_probe_def intro!: no_data_push)

lemma no_data_acknowledge_now: "no_data acts \<Longrightarrow> no_data (snd (acknowledge_now t acts))"
  by (auto simp: acknowledge_now_def Let_def intro!: no_data_push)

lemma no_data_enter_time_wait: "no_data acts \<Longrightarrow> no_data (snd (enter_time_wait t acts now))"
  by (auto simp: enter_time_wait_def Let_def intro!: no_data_push)

lemma no_data_advance_after_ack: "no_data acts \<Longrightarrow> no_data (snd (advance_after_ack t acts now))"
  by (auto simp: advance_after_ack_def Let_def no_data_enter_time_wait intro!: no_data_push split: state.split)

lemma no_data_ack_new_data:
  assumes "no_data acts"
  shows "no_data (snd (ack_new_data t acts ack now))"
proof -
  have "no_data (if 0 < b then push acts (Acknowledged b) else acts)" for b
    using assms by (auto intro!: no_data_push)
  then show ?thesis
    using assms by (simp only: ack_new_data_def Let_def no_data_advance_after_ack no_data_arm snd_conv split: if_split) simp
qed

lemma no_data_process_ack:
  assumes "no_data acts"
  shows "no_data (snd (fst (process_ack t acts s ack now)))"
proof -
  have "no_data (snd (update_window t2 a2 s))" if "no_data a2" for t2 a2
    using that by (auto simp: update_window_def Let_def intro!: no_data_push)
  then show ?thesis
    using assms by (simp add: process_ack_def Let_def case_prod_beta no_data_acknowledge_now
        no_data_ack_new_data no_data_arm)
qed

lemma no_data_take_data:
  assumes "no_data acts"
  shows "no_data (snd (take_data t acts s now))"
proof -
  have "no_data (snd (fst (deliver t acts s)))"
    using assms by (auto simp: deliver_def Let_def intro!: no_data_push)
  moreover have "no_data (snd (peer_closed t2 a now))" if "no_data a" for t2 a
    using no_data_acknowledge_now [OF that]
    by (simp add: peer_closed_def case_prod_beta no_data_enter_time_wait split: state.split)
  moreover have "no_data (snd (acknowledge_or_delay t2 a now))" if "no_data a" for t2 a
    using that by (auto simp: acknowledge_or_delay_def Let_def no_data_acknowledge_now intro!: no_data_push)
  ultimately show ?thesis
    by (simp add: take_data_def Let_def case_prod_beta)
qed

subsection \<open>Every step\<close>

abbreviation sends_within :: "conn \<Rightarrow> bool" where
  "sends_within c \<equiv> data_ok (fst c) (snd c)"

lemma ord_ok_in_order: "ord_ok t \<Longrightarrow> sending (tcb_state t) \<Longrightarrow> in_order t"
  by (auto simp: ord_ok_def can_send_iff)

lemma sends_within_synchronised:
  assumes "ord_ok t" "tcb_state t \<notin> {Closed, Listen, SynSent}" "no_data acts"
  shows "sends_within (synchronised_arrival t acts s now)"
proof -
  have "sends_within (send_what_we_can (fst (take_data t1 a1 s now)) (snd (take_data t1 a1 s now)) now)"
    if "process_ack t acts s ack now = ((t1, a1), True)" for ack t1 a1
  proof -
    have "ord_ok t1"
      using ord_ok_process_ack [OF assms(1,2), of acts s ack now] that by simp
    moreover have "tcb_state t1 \<notin> {Listen, SynSent, SynReceived}"
      using process_ack_synchronised [of t acts s ack now] assms(2) that by simp
    ultimately have "ord_ok (fst (take_data t1 a1 s now))"
      by (rule ord_ok_take_data)
    moreover have "no_data a1"
      using no_data_process_ack [OF assms(3), of t s ack now] that by simp
    ultimately show ?thesis
      by (intro data_ok_send_what_we_can ord_ok_in_order no_data_ok no_data_take_data)
  qed
  moreover have "no_data (snd (abort_conn t acts))" "no_data (push acts (ActClosed e))" for e
    using assms(3) by (auto simp: abort_conn_def Let_def intro!: no_data_push)
  moreover have "no_data (snd (fst (process_ack t acts s ack now)))" for ack
    using assms(3) by (rule no_data_process_ack)
  ultimately show ?thesis
    using assms(3) no_data_acknowledge_now [OF assms(3), of t]
    by (auto simp: synchronised_arrival_def case_prod_beta no_data_ok split: option.split)
      (metis prod.collapse)+
qed

lemma sends_within_syn_sent_ok:
  assumes "ord_ok t" "tcb_state t = SynSent" "no_data acts"
    and "\<And>ack. acknowledgement s = Some ack \<Longrightarrow> follows ack (iss t) \<and> \<not> follows ack (snd_nxt t)"
  shows "sends_within (syn_sent_ok t acts s now)"
proof -
  have o: "in_order t" and una: "snd_una t = iss t"
    using assms(1) unfolding ord_ok_def assms(2) by auto
  have "\<not> follows (iss t) (iss t)"
    by (simp add: follows_dist)
  moreover have "seq_ok ack (snd_nxt t) (snd_avail t) (fin_seq t)" if "acknowledgement s = Some ack" for ack
    using seq_ok_ack [OF o] assms(4) [OF that] una by simp
  moreover have "no_data (push acts (emission f q a w 0 m))" "no_data (push acts (ActClosed x))" for f q a w m x
    using assms(3) by (auto intro!: no_data_push)
  ultimately show ?thesis
    using una assms(3)
    by (auto simp: syn_sent_ok_def Let_def case_prod_beta no_data_ok no_data_arm no_data_acknowledge_now
        intro!: data_ok_send_what_we_can split: option.split)
qed

lemma sends_within_arrived:
  assumes "ord_ok t"
  shows "sends_within (arrived t actions_new s now)"
proof -
  have c: "no_data (closed_arrival actions_new s)"
    by (auto simp: closed_arrival_def reset_for_def Let_def intro!: no_data_push split: option.splits if_splits)
  have "no_data (snd (listen_arrival t actions_new s now))"
    using c by (auto simp: listen_arrival_def Let_def intro!: no_data_push no_data_arm)
  moreover have "sends_within (syn_sent_arrival t actions_new s now)" if "tcb_state t = SynSent"
    using sends_within_syn_sent_ok [OF assms that, of actions_new s now]
    by (auto simp: syn_sent_arrival_def no_data_ok intro!: data_ok_push split: option.split)
      (simp add: within_def)+
  ultimately show ?thesis
    using c sends_within_synchronised [OF assms, of actions_new s now]
    by (cases "tcb_state t") (simp_all add: arrived_def no_data_ok)
qed

lemma sends_within_resend:
  assumes "in_order t \<or> tcb_state t \<in> {SynSent, SynReceived}" "no_data acts"
  shows "sends_within (resend t acts)"
proof (cases "tcb_state t \<in> {SynSent, SynReceived}")
  case True
  have "no_data (push acts (emission f q a w 0 m))" for f q a w m
    using assms(2) by (auto intro!: no_data_push)
  then show ?thesis
    using True by (auto simp: resend_def no_data_ok)
next
  case False
  obtain t1 a1 b where e: "send_segment t acts True = ((t1, a1), b)"
    by (metis surj_pair)
  have "data_ok t1 a1"
    using data_ok_send_segment [of t acts True] assms False e by (simp add: no_data_ok)
  moreover have "data_ok (t1\<lparr>snd_nxt := q\<rparr>) a = data_ok t1 a" for q a
    by (rule data_ok_same) simp_all
  moreover have "resend t acts = (case fin_seq t1 of
      None \<Rightarrow> (t1, a1)
    | Some fin \<Rightarrow>
        if \<not> follows (snd_una t1) fin \<and> snd_nxt t1 = fin
        then (t1\<lparr>snd_nxt := fin + 1\<rparr>,
              push a1 (emission FIN fin (Some (rcv_nxt t1)) (rcv_wnd t1) 0 None))
        else (t1, a1))"
    using False by (cases "tcb_state t") (simp_all add: resend_def e)
  ultimately show ?thesis
    by (auto simp: within_def intro!: data_ok_push split: option.split)
qed

lemma sends_within_retransmit:
  assumes "ord_ok t"
  shows "sends_within (retransmit t actions_new now)"
proof (cases "tcb_state t = Closed \<or> \<not> awaiting_ack t \<or> retransmit_limit t \<le> retransmits t")
  case True
  then show ?thesis
    by (auto simp: retransmit_def no_data_ok intro!: no_data_ok no_data_push)
next
  case False
  let ?t = "t\<lparr>retransmits := retransmits t + 1, rto_us := min (sat_mul (rto_us t) 2) MAX_RTO_US,
    timing := None, snd_nxt := snd_una t\<rparr>"
  have "tcb_state t \<noteq> Listen"
    using False assms by (auto simp: ord_ok_def awaiting_ack_def)
  then have "in_order t" "snd_una t \<noteq> snd_nxt t"
    using False assms by (auto simp: ord_ok_def awaiting_ack_def)
  then have "in_order ?t"
    using seq_ok_back by simp
  then have "sends_within (resend ?t actions_new)"
    by (intro sends_within_resend) simp_all
  then show ?thesis
    using False by (simp add: retransmit_def Let_def case_prod_beta data_ok_arm)
qed

text \<open>A probe is the byte after what was sent, past a closed window.\<close>

definition is_probe :: "tcb \<Rightarrow> emit \<Rightarrow> bool" where
  "is_probe t e \<longleftrightarrow> snd_wnd t = 0 \<and> emit_length e = 1 \<and> emit_sequence e + 1 = snd_nxt t"

lemma probe_emits:
  assumes "Emit e \<in> set (items (snd (probe t actions_new now)))"
  shows "is_probe (fst (probe t actions_new now)) e"
proof -
  have one: "e = em" if "timer_of z \<noteq> None"
    "Emit e \<in> set (items (push (push (push actions_new (Emit em)) (Arm Probe y)) z))" for em y z
  proof -
    let ?a = "push actions_new (Emit em)"
    have "set (items ?a) \<subseteq> {Emit em}"
      using set_push_subset [of actions_new "Emit em"] by (simp add: actions_new_def)
    then have "set (items (push ?a (Arm Probe y))) \<subseteq> {Arm Probe y, Emit em}"
      by (rule order_trans [OF set_push_subset insert_mono])
    then have "set (items (push (push ?a (Arm Probe y)) z)) \<subseteq> {z, Arm Probe y, Emit em}"
      by (rule order_trans [OF set_push_subset insert_mono])
    then have "Emit e \<in> {z, Arm Probe y, Emit em}"
      using that(2) by (rule subsetD)
    with that(1) show ?thesis
      by auto
  qed
  have "Emit e \<notin> set (items actions_new)"
    by (simp add: actions_new_def)
  with assms show ?thesis
    by (auto simp: probe_def Let_def arm_probe_def arm_retransmit_def is_probe_def split: if_splits
        dest!: one [rotated])
qed

lemma step_sends_within:
  assumes "ord_ok t" "fin_ok t" "program_ok t ev" "Emit e \<in> set (items (snd (step t ev now)))"
  shows "within (fst (step t ev now)) e \<or> ev = Expired Probe \<and> is_probe (fst (step t ev now)) e"
proof (cases "ev = Expired Probe")
  case True
  then show ?thesis
    using assms(4) probe_emits [of e t now] by (simp add: step_def expired_def)
next
  case False
  have "sends_within (send_what_we_can t2 actions_new now)" if "ord_ok t2" for t2
    using that by (intro data_ok_send_what_we_can ord_ok_in_order no_data_ok) simp_all
  moreover have "ord_ok (t\<lparr>fin_queued := True\<rparr>)"
    using assms(1) by (rule ord_ok_same) (simp_all add: same_sender_def)
  moreover have "no_data (snd (open_conn t actions_new i w p now))" for i w p
    by (auto simp: open_conn_def Let_def intro!: no_data_push no_data_arm)
  moreover have "no_data (snd (reopen_window t actions_new n))" for n
    by (auto simp: reopen_window_def Let_def intro!: no_data_acknowledge_now)
  moreover have "no_data (snd (abort_conn t actions_new))" "no_data (push actions_new (ActClosed x))" for x
    by (auto simp: abort_conn_def Let_def intro!: no_data_push)
  moreover have "no_data (snd (acknowledge_now t actions_new))"
    by (simp add: no_data_acknowledge_now)
  ultimately have "sends_within (step t ev now)"
    using assms(1,3) False ord_ok_wrote [OF assms(1)] sends_within_arrived [OF assms(1)]
      sends_within_retransmit [OF assms(1)]
    by (cases ev) (auto simp: step_def shutdown_conn_def expired_def no_data_ok split: timer.split)
  with assms(4) show ?thesis
    by (simp add: data_ok_def)
qed

end
