(* ===== verification/TcpProps.thy ===== *)
theory TcpProps
  imports TcpReceive TcpWindow
begin

text \<open>
  The properties of the connection. A control block is reachable when it was opened once, or
  rebuilt from a SYN cookie, and then driven by any events, with the program writing no more than
  its ring holds and nothing after it closed its side.
\<close>

inductive tcp_reachable :: "tcb \<Rightarrow> bool" where
  dial: "tcp_reachable (fst (step (tcb_new c) (Connect i w) now))"
| listen: "tcp_reachable (fst (step (tcb_new c) (ListenOn i w) now))"
| cookie: "m \<le> DEFAULT_MSS \<Longrightarrow> tcp_reachable (from_cookie c k i pw cap m)"
| step: "tcp_reachable t \<Longrightarrow> program_ok t ev \<Longrightarrow> tcp_reachable (fst (step t ev now))"

lemma program_ok_opens: "program_ok t ev \<Longrightarrow> tcb_state t = Closed \<longrightarrow> \<not> opens ev"
  by (cases ev) (simp_all add: program_ok_def opens_def)

lemma open_ok:
  "basic_ok (fst (step (tcb_new c) ev now)) \<and> fin_ok (fst (step (tcb_new c) ev now)) \<and>
   ord_ok (fst (step (tcb_new c) ev now))" if "opens ev"
proof -
  have "seq_ok i (i + 1) (i + 1) None" for i
    by (simp add: seq_ok_def)
  then show ?thesis
    using that basic_ok_step [OF basic_ok_new, of c ev now]
    by (cases ev) (simp_all add: opens_def step_def open_conn_def tcb_new_def start_timing_def Let_def
        fin_ok_def ord_ok_def)
qed

lemma reachable_ok:
  assumes "tcp_reachable t"
  shows "basic_ok t" "fin_ok t" "ord_ok t"
proof -
  have "basic_ok t \<and> fin_ok t \<and> ord_ok t"
    using assms
  proof induction
    case (dial c i w now)
    show ?case
      by (rule open_ok) (simp add: opens_def)
  next
    case (listen c i w now)
    show ?case
      by (rule open_ok) (simp add: opens_def)
  next
    case (cookie m c k i pw cap)
    then show ?case
      using basic_ok_from_cookie [OF cookie, of c k i pw cap]
      by (simp add: from_cookie_def Let_def fin_ok_def ord_ok_def seq_ok_def)
  next
    case (step t ev now)
    then show ?case
      using basic_ok_step fin_ok_step ord_ok_step program_ok_opens by blast
  qed
  then show "basic_ok t" "fin_ok t" "ord_ok t"
    by simp_all
qed

text \<open>The definitions by which the simplifier runs the state machine on a concrete input.\<close>

lemma send_two:
  "send_segments 2 t acts b =
     (case send_segment t acts False of
        ((t', acts'), sent) \<Rightarrow>
          if \<not> sent then ((t', acts'), b)
          else (case send_segment t' acts' False of
                  ((t', acts'), sent) \<Rightarrow> if \<not> sent then ((t', acts'), True) else ((t', acts'), True)))"
  by (simp only: numeral_2_eq_2 send_segments.simps)

lemmas tcp_eval =
  DEFAULT_MSS_def INITIAL_RTO_US_def MIN_RTO_US_def MAX_RTO_US_def DELAYED_ACK_US_def
  MSL_US_def MAX_RETRANSMITS_def MAX_SYNACK_RETRANSMITS_def MAX_ACTIONS_def actions_new_def
  push_new_def push_def unsent_def in_flight_def awaiting_ack_def acknowledge_now_def
  start_timing_def arm_retransmit_def arm_probe_def measure_rtt_def finish_timing_def
  advance_close_state_def allowed_def segment_length_def fin_now_def send_segment_def
  send_what_we_can_def open_conn_def reopen_window_def shutdown_conn_def abort_conn_def
  resend_def retransmit_limit_def retransmit_def probe_def expired_def synack_for_def
  reclaim_unclaimed_def retirable_def reset_for_def closed_arrival_def negotiated_mss_def
  listen_arrival_def syn_sent_ok_def syn_sent_arrival_def in_window_def acceptable_def
  enter_time_wait_def advance_after_ack_def ack_new_data_def update_window_def
  process_ack_def deliver_def acknowledge_or_delay_def peer_closed_def take_data_def
  synchronised_arrival_def arrived_def step_def FIN_def SYN_def RST_def PSH_def ACK_def
  URG_def flags_default_def has_flags_def with_flags_def without_flags_def u32_of_bool_def
  u32_try_from_def u16_try_from_def sequence_length_def precedes_def follows_def
  send_two Let_def sat_add_def sat_mul_def sat_sub_def word_abs_diff_def clamp_def

text \<open>A connection used by the witnesses: an address pair, and a client that has dialled.\<close>

definition ex_tuple :: four_tuple where
  "ex_tuple = \<lparr>tuple_local = V4 0x0a000001, local_port = 40000,
               tuple_remote = V4 0x0a000002, remote_port = 80\<rparr>"

definition ex_open :: tcb where
  "ex_open = from_cookie ex_tuple 1000 5000 4096 2048 1460"

lemma ex_open_reachable: "tcp_reachable ex_open"
  unfolding ex_open_def by (rule cookie) (simp add: DEFAULT_MSS_def)

lemmas ex_open_eq = ex_open_def [unfolded from_cookie_def Let_def, simplified]

section \<open>Bounds\<close>

text \<open>
  C33. No step of the state machine, from any control block and on any event, fills the list of
  actions: it holds at most eight, nothing is dropped, and no timer is instructed twice. The code
  reserves sixteen places and calls that headroom.
\<close>

theorem step_actions_bounded:
  "length (items (snd (step t ev now))) \<le> 8 \<and> \<not> overflowed (snd (step t ev now)) \<and>
   distinct (filter (\<lambda>x. x \<noteq> None) (map timer_of (items (snd (step t ev now)))))"
proof -
  obtain n T where s: "shape n T (snd (step t ev now))" "n + card T \<le> 8"
    using eight_step [of t ev now] by (auto simp: eight_def)
  with shape_length [OF s(1)] show ?thesis
    by (simp add: shape_def tags_def)
qed

text \<open>
  C34. In every reachable control block the advertised window never exceeds the program's ring, the
  retransmission timeout stays between its floor and its ceiling, the retransmission count stays
  within its limit and the segment size within the interface's.
\<close>

theorem tcb_bounds:
  assumes "tcp_reachable t"
  shows "rcv_wnd t \<le> rcv_capacity t \<and> MIN_RTO_US \<le> rto_us t \<and> rto_us t \<le> MAX_RTO_US \<and>
    retransmits t \<le> MAX_RETRANSMITS \<and> mss t \<le> DEFAULT_MSS"
  using reachable_ok(1) [OF assms] by (simp add: basic_ok_def)

theorem tcb_bounds_witness:
  "tcp_reachable ex_open \<and> rcv_wnd ex_open = 2048 \<and> rcv_wnd ex_open \<le> rcv_capacity ex_open"
  using tcb_bounds [OF ex_open_reachable] ex_open_reachable by (simp add: ex_open_eq)

section \<open>The life of a connection\<close>

text \<open>
  C29. A step of a reachable connection takes it only to a state that may follow the one it is in:
  it never goes back, and nothing but \<open>Closed\<close> follows \<open>LastAck\<close> and \<open>TimeWait\<close>. A new connection
  does not appear out of \<open>Closed\<close> by a segment or a timer.
\<close>

theorem lifecycle:
  assumes "tcp_reachable t"
  shows "tcb_state (fst (step t ev now)) \<in> successors (tcb_state t) \<and>
    (tcb_state t = Closed \<and> \<not> opens ev \<longrightarrow> tcb_state (fst (step t ev now)) = Closed)"
proof -
  have "tcb_state t = SynSent \<longrightarrow> \<not> fin_queued t"
    using reachable_ok(2) [OF assms] by (simp add: fin_ok_def)
  then show ?thesis
    using step_successors closed_stays by blast
qed

definition ex_fin :: segment where
  "ex_fin = \<lparr>source = 80, destination = 40000, sequence = 5001, acknowledgement = Some 1001,
             flags = 0x11, window = 4096, options = \<lparr>opt_mss = None\<rparr>, payload = []\<rparr>"

theorem lifecycle_witness:
  "tcp_reachable ex_open \<and> tcb_state ex_open = Established \<and>
   tcb_state (fst (step ex_open (Arrived ex_fin) 7)) = CloseWait \<and>
   tcb_state (fst (step ex_open (Arrived ex_fin) 7)) \<in> successors (tcb_state ex_open)"
proof -
  have "tcb_state (fst (step ex_open (Arrived ex_fin) 7)) = CloseWait"
    by (simp add: ex_open_eq ex_fin_def tcp_eval)
  moreover have "tcb_state ex_open = Established"
    by (simp add: ex_open_eq)
  ultimately show ?thesis
    using lifecycle [OF ex_open_reachable, of "Arrived ex_fin" 7] ex_open_reachable by simp
qed

text \<open>
  C30. The caller is told that a connection is over by the step that closes it, and by no other:
  from an open control block, a \<open>Closed\<close> action is in the list exactly when the new state is
  \<open>Closed\<close>. So no blocked caller is left waiting and no live connection is given up.
\<close>

theorem told_iff_closed:
  assumes "tcb_state t \<noteq> Closed"
  shows "(\<exists>e. ActClosed e \<in> set (items (snd (step t ev now)))) \<longleftrightarrow>
    tcb_state (fst (step t ev now)) = Closed"
  using news_step [OF assms, of ev now] by (simp add: news_def tells_closed_def)

theorem told_iff_closed_witness:
  "tcb_state ex_open \<noteq> Closed \<and> tcb_state (fst (step ex_open Abort 7)) = Closed \<and>
   (\<exists>e. ActClosed e \<in> set (items (snd (step ex_open Abort 7))))"
proof -
  have "tcb_state ex_open \<noteq> Closed"
    by (simp add: ex_open_eq)
  moreover have "tcb_state (fst (step ex_open Abort 7)) = Closed"
    by (simp add: ex_open_eq step_def abort_conn_def Let_def)
  ultimately show ?thesis
    using told_iff_closed [of ex_open Abort 7] by blast
qed

section \<open>The streams\<close>

text \<open>
  C4. Whatever the network does to the peer's segments (loses, repeats, reorders or delays them,
  with any other events and timers in between), the bytes handed to the program are a prefix of
  the peer's stream, and the end of the stream is believed only when all of it was handed over.
  The stream is shorter than the circle, so that a number names one byte.
\<close>

theorem receives_prefix:
  assumes "receives S i0 t got" "length S + 2 < 2 ^ 32"
  shows "(\<exists>k. got = take k S) \<and> (fin_received t \<longrightarrow> got = S)"
  using rcv_inv_prefix [OF receives_inv [OF assms]] by blast

definition ex_data :: segment where
  "ex_data = \<lparr>source = 80, destination = 40000, sequence = 5001, acknowledgement = Some 1001,
              flags = 0x18, window = 4096, options = \<lparr>opt_mss = None\<rparr>, payload = [72, 105]\<rparr>"

definition ex_received :: tcb where
  "ex_received = fst (step ex_open (Arrived ex_data) 7)"

lemma ex_data_delivered: "bytes_of (Arrived ex_data) (snd (step ex_open (Arrived ex_data) 7)) = [72, 105]"
  by (simp add: ex_open_eq ex_data_def tcp_eval bytes_of_def deliveries_def)

lemma ex_data_from_peer: "from_peer [72, 105, 33] 5000 ex_data"
  by code_simp

lemma ex_receives: "receives [72, 105, 33] 5000 ex_received [72, 105]"
proof -
  have "receives [72, 105, 33] 5000 ex_open []"
    unfolding ex_open_def by (rule receives.cookie)
  moreover have "tcb_state ex_open = Closed \<longrightarrow> \<not> opens (Arrived ex_data)"
    by (simp add: opens_def)
  moreover have "\<forall>s. Arrived ex_data = Arrived s \<longrightarrow> from_peer [72, 105, 33] 5000 s"
    using ex_data_from_peer by simp
  ultimately have "receives [72, 105, 33] 5000 (fst (step ex_open (Arrived ex_data) 7))
      ([] @ bytes_of (Arrived ex_data) (snd (step ex_open (Arrived ex_data) 7)))"
    by (rule receives.step)
  then show ?thesis
    by (simp only: ex_data_delivered ex_received_def append_Nil)
qed

theorem receives_prefix_witness:
  "receives [72, 105, 33] 5000 ex_received [72, 105] \<and>
   (\<exists>k. [72, 105] = take k [72, 105, 33 :: u8])"
  using receives_prefix [OF ex_receives] ex_receives by simp

end
