(* ===== verification/Handoff.thy ===== *)
theory Handoff
  imports Prelude
begin

text \<open>
  The memory map the boot loader hands over (\<^verbatim>\<open>src/boot/handoff/src/lib.rs\<close>) and the check the
  kernel makes of it at entry. Addresses are natural numbers below \<open>2 ^ 64\<close>; \<open>base + length\<close> is a
  checked addition. Of the handoff record the model keeps the fields that the check and the memory
  bring-up read.
\<close>

definition HANDOFF_VERSION :: nat where "HANDOFF_VERSION = 4"

datatype memory_kind = Usable | ReservedMemory | AcpiReclaimable | AcpiNvs | BadMemory
  | BootloaderReclaimable | KernelAndModules | FramebufferMemory

fun is_usable_now :: "memory_kind \<Rightarrow> bool" where
  "is_usable_now Usable \<longleftrightarrow> True"
| "is_usable_now _ \<longleftrightarrow> False"

lemma is_usable_now_iff [simp]: "is_usable_now k \<longleftrightarrow> k = Usable"
  by (cases k) auto

record memory_region =
  base :: nat
  region_length :: nat
  kind :: memory_kind

definition region_end :: "memory_region \<Rightarrow> nat option" where
  "region_end r = checked_add 64 (base r) (region_length r)"

record handoff =
  version :: nat
  memory_map :: "memory_region list"
  hhdm_base :: nat

datatype handoff_error =
    UnsupportedVersion nat
  | EmptyMemoryMap
  | MissingHhdm
  | Unsorted nat
  | OverlappingUsable nat
  | NoUsableMemory

definition is_supported :: "handoff \<Rightarrow> bool" where
  "is_supported h \<longleftrightarrow> version h = HANDOFF_VERSION"

fun usable_from :: "memory_region list \<Rightarrow> nat \<Rightarrow> nat option" where
  "usable_from [] acc = Some acc"
| "usable_from (r # rs) acc =
     (if is_usable_now (kind r)
      then (case checked_add 64 acc (region_length r) of None \<Rightarrow> None | Some s \<Rightarrow> usable_from rs s)
      else usable_from rs acc)"

definition usable_bytes :: "handoff \<Rightarrow> nat option" where
  "usable_bytes h = usable_from (memory_map h) 0"

fun highest_from :: "memory_region list \<Rightarrow> nat \<Rightarrow> nat option" where
  "highest_from [] highest = Some highest"
| "highest_from (r # rs) highest =
     (case region_end r of
        None \<Rightarrow> None
      | Some e \<Rightarrow> highest_from rs (if highest < e then e else highest))"

definition highest_address :: "handoff \<Rightarrow> nat option" where
  "highest_address h = highest_from (memory_map h) 0"

text \<open>The walk over the map: sorted by base, and the usable regions do not overlap.\<close>

fun check_map :: "memory_region list \<Rightarrow> nat \<Rightarrow> nat \<Rightarrow> nat \<Rightarrow> (handoff_error, unit) result" where
  "check_map [] i previous_base previous_usable_end = Ok ()"
| "check_map (r # rs) i previous_base previous_usable_end =
     (if base r < previous_base then Error (Unsorted i)
      else if is_usable_now (kind r) then
        (if base r < previous_usable_end then Error (OverlappingUsable i)
         else
           (case region_end r of
              None \<Rightarrow> Panicked
            | Some e \<Rightarrow> check_map rs (i + 1) (base r) e))
      else check_map rs (i + 1) (base r) previous_usable_end)"

definition validate :: "handoff \<Rightarrow> (handoff_error, unit) result" where
  "validate h =
     (if \<not> is_supported h then Error (UnsupportedVersion (version h))
      else if memory_map h = [] then Error EmptyMemoryMap
      else if hhdm_base h = 0 then Error MissingHhdm
      else
        (case check_map (memory_map h) 0 0 0 of
           Inl e \<Rightarrow> Inl e
         | Inr _ \<Rightarrow>
             (case usable_bytes h of
                None \<Rightarrow> Panicked
              | Some n \<Rightarrow> if n = 0 then Error NoUsableMemory else Ok ())))"

text \<open>Whether \<open>[base, base + length)\<close> touches memory that is not reserved.\<close>

definition overlaps_non_reserved :: "memory_region list \<Rightarrow> nat \<Rightarrow> nat \<Rightarrow> bool" where
  "overlaps_non_reserved regions0 base0 len =
     (case checked_add 64 base0 len of
        None \<Rightarrow> True
      | Some end' \<Rightarrow>
          list_ex (\<lambda>r. kind r \<noteq> ReservedMemory \<and> base r < end' \<and>
             base0 < saturating_add 64 (base r) (region_length r)) regions0)"

subsection \<open>What a validated map promises\<close>

text \<open>Usable regions, in the order of the map, end before the next one begins.\<close>

definition map_ok :: "memory_region list \<Rightarrow> bool" where
  "map_ok rs \<longleftrightarrow> sorted_wrt (\<lambda>r s. kind r = Usable \<and> kind s = Usable \<longrightarrow>
       base r + region_length r \<le> base s) rs \<and>
     (\<forall>r \<in> set rs. kind r = Usable \<longrightarrow> base r + region_length r < 2 ^ 64)"

lemma region_end_Some: "region_end r = Some e \<longleftrightarrow> e = base r + region_length r \<and> base r + region_length r < 2 ^ 64"
  by (auto simp: region_end_def checked_add_def max_of_def)

lemma check_map_bounds:
  assumes "check_map rs i b e = Ok ()" "r \<in> set rs"
  shows "b \<le> base r" "kind r = Usable \<Longrightarrow> e \<le> base r"
  using assms
  by (induction rs i b e rule: check_map.induct)
    (force simp: region_end_Some split: if_splits option.splits)+

lemma check_map_ok: "check_map rs i b e = Ok () \<Longrightarrow> map_ok rs"
proof (induction rs i b e rule: check_map.induct)
  case (1 i b e)
  then show ?case by (simp add: map_ok_def)
next
  case (2 r rs i b e)
  show ?case
  proof (cases "kind r = Usable")
    case True
    with 2(3) obtain e' where e': "region_end r = Some e'" "check_map rs (i + 1) (base r) e' = Ok ()"
      by (auto split: if_splits option.splits)
    with 2 True have "map_ok rs"
      by (auto split: if_splits)
    with e' check_map_bounds(2) [OF e'(2)] show ?thesis
      by (auto simp: map_ok_def region_end_Some)
  next
    case False
    with 2 show ?thesis
      by (auto simp: map_ok_def split: if_splits)
  qed
qed

lemma validate_map: "validate h = Ok () \<Longrightarrow> map_ok (memory_map h)"
  by (auto simp: validate_def intro: check_map_ok split: if_splits sum.splits)

lemma map_ok_nth:
  assumes "map_ok rs" "i < j" "j < length rs" "kind (rs ! i) = Usable" "kind (rs ! j) = Usable"
  shows "base (rs ! i) + region_length (rs ! i) \<le> base (rs ! j)"
  using assms sorted_wrt_nth_less unfolding map_ok_def by blast

end
