(* ===== verification/Bump.thy ===== *)
theory Bump
  imports Handoff "HOL-Library.Monad_Syntax"
begin

text \<open>
  The boot-time bump allocator (\<^verbatim>\<open>src/mm/src/bump.rs\<close>). Addresses and counters are natural numbers
  with the overflow checks written out; an operation that would panic is \<open>None\<close>. The array of
  consumed ranges has its sixteen entries, of which the first \<open>consumed_count\<close> are in use.
\<close>

definition FRAME_SIZE :: nat where "FRAME_SIZE = 4096"
definition MAX_CONSUMED_RANGES :: nat where "MAX_CONSUMED_RANGES = 16"

record bump =
  regions :: "memory_region list"
  region :: nat
  next_address :: nat
  allocated :: nat
  consumed :: "(nat \<times> nat) list"
  consumed_count :: nat

datatype bump_error = BumpOutOfMemory

definition bump_new :: "handoff \<Rightarrow> bump" where
  "bump_new h = \<lparr>regions = memory_map h, region = 0, next_address = 0, allocated = 0,
                 consumed = replicate MAX_CONSUMED_RANGES (0, 0), consumed_count = 0\<rparr>"

text \<open>\<open>(value + alignment - 1) & !(alignment - 1)\<close> on \<open>u64\<close>.\<close>

definition align_up :: "nat \<Rightarrow> nat \<Rightarrow> nat option" where
  "align_up v alignment =
     (case checked_add 64 v alignment of
        None \<Rightarrow> None
      | Some s \<Rightarrow> Some (unat ((of_nat (s - 1) :: u64) AND NOT (of_nat (alignment - 1)))))"

definition align_down :: "nat \<Rightarrow> nat \<Rightarrow> nat" where
  "align_down v alignment = unat ((of_nat v :: u64) AND NOT (of_nat (alignment - 1)))"

function advance_to_usable :: "bump \<Rightarrow> bump option" where
  "advance_to_usable b =
     (if region b < length (regions b) then
        (let r = regions b ! region b in
         if kind r = Usable then
           (case align_up (base r) FRAME_SIZE of
              None \<Rightarrow> None
            | Some start \<Rightarrow>
                (let n = (if next_address b < start then start else next_address b) in
                 case (checked_add 64 n FRAME_SIZE, region_end r) of
                   (Some e, Some re) \<Rightarrow>
                     if e \<le> re then Some (b\<lparr>next_address := n\<rparr>)
                     else advance_to_usable (b\<lparr>region := region b + 1, next_address := 0\<rparr>)
                 | _ \<Rightarrow> None))
         else advance_to_usable (b\<lparr>region := region b + 1, next_address := 0\<rparr>))
      else Some b)"
  by pat_completeness auto
termination
  by (relation "measure (\<lambda>b. length (regions b) - region b)") auto

declare advance_to_usable.simps [simp del]

definition record_consumed :: "nat \<Rightarrow> nat \<Rightarrow> bump \<Rightarrow> bump" where
  "record_consumed start end' b =
     (let n = consumed_count b in
      if 0 < n \<and> snd (consumed b ! (n - 1)) = start
      then b\<lparr>consumed := (consumed b)[n - 1 := (fst (consumed b ! (n - 1)), end')]\<rparr>
      else if n < MAX_CONSUMED_RANGES
      then b\<lparr>consumed := (consumed b)[n := (start, end')], consumed_count := n + 1\<rparr>
      else b\<lparr>consumed := (consumed b)[MAX_CONSUMED_RANGES - 1 :=
                (fst (consumed b ! (MAX_CONSUMED_RANGES - 1)), end')]\<rparr>)"

text \<open>The region index only grows, which bounds the loops that search the map.\<close>

abbreviation skip_region :: "bump \<Rightarrow> bump" where
  "skip_region b \<equiv> b\<lparr>region := region b + 1, next_address := 0\<rparr>"

lemma advance_cases:
  assumes "advance_to_usable b = Some b'"
  obtains (over) "length (regions b) \<le> region b" "b' = b"
  | (here) start n where "region b < length (regions b)" "kind (regions b ! region b) = Usable"
      "align_up (base (regions b ! region b)) FRAME_SIZE = Some start" "n = max (next_address b) start"
      "n + FRAME_SIZE \<le> base (regions b ! region b) + region_length (regions b ! region b)"
      "b' = b\<lparr>next_address := n\<rparr>"
  | (skip) "region b < length (regions b)" "advance_to_usable (skip_region b) = Some b'"
proof (cases "region b < length (regions b)")
  case False
  then have "b' = b"
    using assms unfolding advance_to_usable.simps [of b] by simp
  with False over show thesis by simp
next
  case len: True
  let ?r = "regions b ! region b"
  show thesis
  proof (cases "kind ?r = Usable")
    case False
    then show thesis
      using assms skip [OF len] len unfolding advance_to_usable.simps [of b] by simp
  next
    case True
    define go where "go = advance_to_usable (skip_region b)"
    have e: "Some b' = (case align_up (base ?r) FRAME_SIZE of
        None \<Rightarrow> None
      | Some start \<Rightarrow>
          (case (checked_add 64 (max (next_address b) start) FRAME_SIZE, region_end ?r) of
             (Some e, Some re) \<Rightarrow>
               if e \<le> re then Some (b\<lparr>next_address := max (next_address b) start\<rparr>) else go
           | _ \<Rightarrow> None))"
      unfolding go_def using len True
      by (subst assms [symmetric], subst advance_to_usable.simps)
        (auto simp: Let_def max_def split: option.split)
    then obtain start e re where s: "align_up (base ?r) FRAME_SIZE = Some start"
      "checked_add 64 (max (next_address b) start) FRAME_SIZE = Some e" "region_end ?r = Some re"
      "Some b' = (if e \<le> re then Some (b\<lparr>next_address := max (next_address b) start\<rparr>) else go)"
      by (auto split: option.splits)
    show thesis
    proof (cases "e \<le> re")
      case True
      with s here [OF len \<open>kind ?r = Usable\<close> s(1) refl] show thesis
        by (simp add: checked_add_Some region_end_Some)
    next
      case False
      with s(4) skip [OF len] show thesis
        by (simp add: go_def)
    qed
  qed
qed

lemma advance_region:
  "advance_to_usable b = Some b' \<Longrightarrow> region b \<le> region b' \<and> regions b' = regions b"
proof (induction "length (regions b) - region b" arbitrary: b rule: less_induct)
  case less
  from less.prems show ?case
    by (cases rule: advance_cases)
      (use less.hyps [of "skip_region b"] in \<open>auto simp: diff_less_mono2\<close>)
qed

function allocate_loop :: "nat \<Rightarrow> nat \<Rightarrow> bump \<Rightarrow> ((bump_error, nat) result \<times> bump) option" where
  "allocate_loop count bytes b0 =
     (case advance_to_usable b0 of
        None \<Rightarrow> None
      | Some b \<Rightarrow>
          if length (regions b) \<le> region b then Some (Error BumpOutOfMemory, b)
          else
            (case (checked_add 64 (next_address b) bytes, region_end (regions b ! region b)) of
               (Some e, Some re) \<Rightarrow>
                 if e \<le> re then
                   (case checked_add 64 (allocated b) count of
                      None \<Rightarrow> None
                    | Some n \<Rightarrow>
                        Some (Ok (next_address b),
                          record_consumed (next_address b) e (b\<lparr>next_address := e, allocated := n\<rparr>)))
                 else allocate_loop count bytes (b\<lparr>region := region b + 1, next_address := 0\<rparr>)
             | _ \<Rightarrow> None))"
  by pat_completeness auto
termination
  by (relation "measure (\<lambda>(count, bytes, b). length (regions b) - region b)")
    (auto dest!: advance_region)

declare allocate_loop.simps [simp del]

definition allocate_contiguous :: "nat \<Rightarrow> bump \<Rightarrow> ((bump_error, nat) result \<times> bump) option" where
  "allocate_contiguous count b =
     (if count = 0 then Some (Error BumpOutOfMemory, b)
      else
        (case checked_mul 64 count FRAME_SIZE of
           None \<Rightarrow> None
         | Some bytes \<Rightarrow> allocate_loop count bytes b))"

definition allocate_frame :: "bump \<Rightarrow> ((bump_error, nat) result \<times> bump) option" where
  "allocate_frame b = allocate_contiguous 1 b"

definition consumed_ranges :: "bump \<Rightarrow> (nat \<times> nat) list" where
  "consumed_ranges b = take (consumed_count b) (consumed b)"

definition allocated_frames :: "bump \<Rightarrow> nat" where
  "allocated_frames b = allocated b"

definition allocated_bytes :: "bump \<Rightarrow> nat option" where
  "allocated_bytes b = checked_mul 64 (allocated b) FRAME_SIZE"

end
