(* ===== verification/Buddy.thy ===== *)
theory Buddy
  imports Bump "HOL-Library.Monad_Syntax"
begin

text \<open>
  The physical memory manager (\<^verbatim>\<open>src/mm/src/pmm.rs\<close>): a buddy allocator whose free lists are
  threaded through the frame database. Frame numbers, orders and counters are natural numbers; the
  overflow checks and the bounds checks of the source are written out, and an operation that
  would panic is \<open>None\<close>. An operation that changes the allocator takes it as its last argument and
  returns the new one.
\<close>

definition MAX_ORDER :: nat where "MAX_ORDER = 10"
definition ORDER_COUNT :: nat where "ORDER_COUNT = MAX_ORDER + 1"

text \<open>The null of the free lists is the largest \<open>u32\<close>.\<close>

definition NO_FRAME :: nat where "NO_FRAME = max_of 32"
definition NO_OWNER :: nat where "NO_OWNER = max_of 32"
definition NO_OFFSET :: nat where "NO_OFFSET = max_of 16"

definition DMA32_LIMIT_PFN :: nat where "DMA32_LIMIT_PFN = 0x100000000 div FRAME_SIZE"

datatype frame_state = Reserved | Free | Allocated

record slab_info =
  free_head :: nat
  in_use :: nat
  slab_class :: nat
  slab_next :: nat
  slab_prev :: nat

definition slab_info_empty :: slab_info where
  "slab_info_empty =
     \<lparr>free_head = NO_OFFSET, in_use = 0, slab_class = 0, slab_next = NO_FRAME, slab_prev = NO_FRAME\<rparr>"

record frame =
  fstate :: frame_state
  forder :: nat
  is_head :: bool
  refcount :: nat
  fowner :: nat
  fnext :: nat
  fprev :: nat
  fslab :: slab_info

definition frame_reserved :: frame where
  "frame_reserved =
     \<lparr>fstate = Reserved, forder = 0, is_head = False, refcount = 0, fowner = NO_OWNER,
      fnext = NO_FRAME, fprev = NO_FRAME, fslab = slab_info_empty\<rparr>"

datatype zone = Dma32 | Normal

record zone_state =
  free_lists :: "nat list"
  zone_free :: nat
  zone_managed :: nat

definition zone_state_new :: zone_state where
  "zone_state_new =
     \<lparr>free_lists = replicate ORDER_COUNT NO_FRAME, zone_free = 0, zone_managed = 0\<rparr>"

datatype pmm_error =
    OutOfMemory
  | OrderTooLarge nat
  | OutOfRange nat
  | NotAllocated nat
  | Misaligned nat nat

record pmm =
  frames :: "frame list"
  zones :: "zone_state list"

definition pmm_new :: "frame list \<Rightarrow> pmm" where
  "pmm_new fs = \<lparr>frames = map (\<lambda>_. frame_reserved) fs, zones = replicate 2 zone_state_new\<rparr>"

definition total_frames :: "pmm \<Rightarrow> nat" where
  "total_frames p = length (frames p)"

definition free_frames :: "pmm \<Rightarrow> nat" where
  "free_frames p = zone_free (zones p ! 0) + zone_free (zones p ! 1)"

definition managed_frames :: "pmm \<Rightarrow> nat" where
  "managed_frames p = zone_managed (zones p ! 0) + zone_managed (zones p ! 1)"

definition zone_of :: "nat \<Rightarrow> zone" where
  "zone_of pfn = (if pfn < DMA32_LIMIT_PFN then Dma32 else Normal)"

fun zone_index :: "zone \<Rightarrow> nat" where
  "zone_index Dma32 = 0"
| "zone_index Normal = 1"

text \<open>\<open>self.frames[pfn]\<close> and \<open>self.zones[z]\<close>, changed in place.\<close>

definition upd_frame :: "nat \<Rightarrow> (frame \<Rightarrow> frame) \<Rightarrow> pmm \<Rightarrow> pmm option" where
  "upd_frame pfn f p =
     (case get (frames p) pfn of
        None \<Rightarrow> None
      | Some fr \<Rightarrow> Some (p\<lparr>frames := (frames p)[pfn := f fr]\<rparr>))"

definition upd_zone :: "nat \<Rightarrow> (zone_state \<Rightarrow> zone_state) \<Rightarrow> pmm \<Rightarrow> pmm" where
  "upd_zone z f p = p\<lparr>zones := (zones p)[z := f (zones p ! z)]\<rparr>"

definition checked_sub :: "nat \<Rightarrow> nat \<Rightarrow> nat option" where
  "checked_sub a b = (if b \<le> a then Some (a - b) else None)"

subsection \<open>The free lists\<close>

definition push_block :: "nat \<Rightarrow> nat \<Rightarrow> pmm \<Rightarrow> pmm option" where
  "push_block pfn order p =
     (let z = zone_index (zone_of pfn) in
      do {
        head \<leftarrow> get (free_lists (zones p ! z)) order;
        p \<leftarrow> upd_frame pfn
               (\<lambda>f. f\<lparr>fstate := Free, forder := order mod 256, is_head := True,
                      fnext := head, fprev := NO_FRAME\<rparr>) p;
        p \<leftarrow> (if head \<noteq> NO_FRAME then upd_frame head (\<lambda>f. f\<lparr>fprev := pfn\<rparr>) p else Some p);
        free \<leftarrow> checked_add 64 (zone_free (zones p ! z)) (2 ^ order);
        Some (upd_zone z
                (\<lambda>s. s\<lparr>free_lists := (free_lists s)[order := pfn], zone_free := free\<rparr>) p)
      })"

definition remove_block :: "nat \<Rightarrow> nat \<Rightarrow> pmm \<Rightarrow> pmm option" where
  "remove_block pfn order p =
     (let z = zone_index (zone_of pfn) in
      do {
        frame \<leftarrow> get (frames p) pfn;
        let next = fnext frame;
        let prev = fprev frame;
        p \<leftarrow> (if prev = NO_FRAME
              then (case get (free_lists (zones p ! z)) order of
                      None \<Rightarrow> None
                    | Some _ \<Rightarrow>
                        Some (upd_zone z (\<lambda>s. s\<lparr>free_lists := (free_lists s)[order := next]\<rparr>) p))
              else upd_frame prev (\<lambda>f. f\<lparr>fnext := next\<rparr>) p);
        p \<leftarrow> (if next \<noteq> NO_FRAME then upd_frame next (\<lambda>f. f\<lparr>fprev := prev\<rparr>) p else Some p);
        p \<leftarrow> upd_frame pfn (\<lambda>f. f\<lparr>fnext := NO_FRAME, fprev := NO_FRAME, is_head := False\<rparr>) p;
        free \<leftarrow> checked_sub (zone_free (zones p ! z)) (2 ^ order);
        Some (upd_zone z (\<lambda>s. s\<lparr>zone_free := free\<rparr>) p)
      })"

subsection \<open>Making memory available\<close>

text \<open>\<open>for pfn in start..end\<close>, with the number of turns left.\<close>

fun mark_free :: "nat \<Rightarrow> nat \<Rightarrow> pmm \<Rightarrow> pmm option" where
  "mark_free 0 pfn p = Some p"
| "mark_free (Suc n) pfn p =
     do {
       p \<leftarrow> upd_frame pfn (\<lambda>f. f\<lparr>fstate := Free, refcount := 0\<rparr>) p;
       let z = zone_index (zone_of pfn);
       managed \<leftarrow> checked_add 64 (zone_managed (zones p ! z)) 1;
       mark_free n (pfn + 1) (upd_zone z (\<lambda>s. s\<lparr>zone_managed := managed\<rparr>) p)
     }"

text \<open>The two loops that choose the order of the next block; \<open>size\<close> is \<open>1u32 << order\<close>.\<close>

fun fit_order :: "nat \<Rightarrow> nat \<Rightarrow> nat \<Rightarrow> nat option" where
  "fit_order pfn end' 0 = Some 0"
| "fit_order pfn end' (Suc order) =
     (let size = 2 ^ Suc order in
      if size dvd pfn then
        (case checked_add 32 pfn size of
           None \<Rightarrow> None
         | Some e \<Rightarrow> if e \<le> end' then Some (Suc order) else fit_order pfn end' order)
      else fit_order pfn end' order)"

fun zone_order :: "nat \<Rightarrow> nat \<Rightarrow> nat option" where
  "zone_order pfn 0 = Some 0"
| "zone_order pfn (Suc order) =
     (if pfn < DMA32_LIMIT_PFN then
        (case checked_add 32 pfn (2 ^ Suc order) of
           None \<Rightarrow> None
         | Some e \<Rightarrow> if DMA32_LIMIT_PFN < e then zone_order pfn order else Some (Suc order))
      else Some (Suc order))"

function carve :: "nat \<Rightarrow> nat \<Rightarrow> pmm \<Rightarrow> pmm option" where
  "carve pfn end' p =
     (if pfn < end' then
        (case fit_order pfn end' MAX_ORDER of
           None \<Rightarrow> None
         | Some fit \<Rightarrow>
             (case zone_order pfn fit of
                None \<Rightarrow> None
              | Some order \<Rightarrow>
                  (case push_block pfn order p of
                     None \<Rightarrow> None
                   | Some p' \<Rightarrow>
                       (case checked_add 32 pfn (2 ^ order) of
                          None \<Rightarrow> None
                        | Some next \<Rightarrow> carve next end' p'))))
      else Some p)"
  by pat_completeness auto
termination
  by (relation "measure (\<lambda>(pfn, end', p). end' - pfn)") (auto simp: checked_add_Some diff_less_mono2)

declare carve.simps [simp del]

text \<open>\<open>self.frames.len() as Pfn\<close> keeps the low 32 bits.\<close>

definition add_free_range :: "nat \<Rightarrow> nat \<Rightarrow> pmm \<Rightarrow> pmm option" where
  "add_free_range start end' p =
     (let end' = min end' (length (frames p) mod 2 ^ 32) in
      if end' \<le> start then Some p
      else do { p \<leftarrow> mark_free (end' - start) start p; carve start end' p })"

fun reserve_frames :: "nat \<Rightarrow> nat \<Rightarrow> pmm \<Rightarrow> pmm option" where
  "reserve_frames 0 pfn p = Some p"
| "reserve_frames (Suc n) pfn p =
     do { p \<leftarrow> upd_frame pfn (\<lambda>f. f\<lparr>fstate := Reserved\<rparr>) p; reserve_frames n (pfn + 1) p }"

definition reserve_range :: "nat \<Rightarrow> nat \<Rightarrow> pmm \<Rightarrow> pmm option" where
  "reserve_range start end' p =
     (let end' = min end' (length (frames p) mod 2 ^ 32) in reserve_frames (end' - start) start p)"

subsection \<open>Allocation\<close>

text \<open>
  The search for the smallest block that is big enough. \<open>Some None\<close> is the loop running past
  \<open>MAX_ORDER\<close>.
\<close>

function find_order :: "nat list \<Rightarrow> nat \<Rightarrow> nat option option" where
  "find_order heads found =
     (if found \<le> MAX_ORDER then
        (case get heads found of
           None \<Rightarrow> None
         | Some head \<Rightarrow>
             if head = NO_FRAME then find_order heads (found + 1) else Some (Some found))
      else Some None)"
  by pat_completeness auto
termination
  by (relation "measure (\<lambda>(heads, found). Suc MAX_ORDER - found)") auto

declare find_order.simps [simp del]

text \<open>The loop that gives the upper halves back, counting \<open>current\<close> down to \<open>order\<close>.\<close>

fun split_down :: "nat \<Rightarrow> nat \<Rightarrow> nat \<Rightarrow> pmm \<Rightarrow> pmm option" where
  "split_down pfn 0 order p = Some p"
| "split_down pfn (Suc current) order p =
     (if order < Suc current then
        do {
          buddy \<leftarrow> checked_add 32 pfn (2 ^ current);
          p \<leftarrow> push_block buddy current p;
          split_down pfn current order p
        }
      else Some p)"

definition allocate_from :: "nat \<Rightarrow> zone \<Rightarrow> pmm \<Rightarrow> (nat option \<times> pmm) option" where
  "allocate_from order zone p =
     (let index = zone_index zone in
      do {
        found \<leftarrow> find_order (free_lists (zones p ! index)) order;
        case found of
          None \<Rightarrow> Some (None, p)
        | Some found \<Rightarrow>
            do {
              pfn \<leftarrow> get (free_lists (zones p ! index)) found;
              p \<leftarrow> remove_block pfn found p;
              p \<leftarrow> split_down pfn found order p;
              p \<leftarrow> upd_frame pfn
                     (\<lambda>f. f\<lparr>fstate := Allocated, forder := order mod 256, is_head := False,
                            refcount := 1\<rparr>) p;
              Some (Some pfn, p)
            }
      })"

definition allocate :: "nat \<Rightarrow> zone \<Rightarrow> pmm \<Rightarrow> ((pmm_error, nat) result \<times> pmm) option" where
  "allocate order zone p =
     (if MAX_ORDER < order then Some (Error (OrderTooLarge order), p)
      else do {
        (found, p) \<leftarrow> allocate_from order zone p;
        case found of
          Some pfn \<Rightarrow> Some (Ok pfn, p)
        | None \<Rightarrow>
            if zone = Normal then
              do {
                (found, p) \<leftarrow> allocate_from order Dma32 p;
                case found of
                  Some pfn \<Rightarrow> Some (Ok pfn, p)
                | None \<Rightarrow> Some (Error OutOfMemory, p)
              }
            else Some (Error OutOfMemory, p)
      })"

subsection \<open>Freeing\<close>

definition mergeable :: "frame \<Rightarrow> nat \<Rightarrow> bool" where
  "mergeable f order \<longleftrightarrow> fstate f = Free \<and> is_head f \<and> forder f = order"

function coalesce :: "nat \<Rightarrow> nat \<Rightarrow> pmm \<Rightarrow> (nat \<times> nat \<times> pmm) option" where
  "coalesce pfn order p =
     (if order < MAX_ORDER then
        (let buddy = pfn XOR 2 ^ order in
         case get (frames p) buddy of
           None \<Rightarrow> Some (pfn, order, p)
         | Some frame \<Rightarrow>
             if \<not> mergeable frame order then Some (pfn, order, p)
             else
               (let merged = min pfn buddy in
                case (if merged < DMA32_LIMIT_PFN
                      then map_option (\<lambda>e. DMA32_LIMIT_PFN < e) (checked_add 32 merged (2 * 2 ^ order))
                      else Some False) of
                  None \<Rightarrow> None
                | Some True \<Rightarrow> Some (pfn, order, p)
                | Some False \<Rightarrow>
                    (case remove_block buddy order p of
                       None \<Rightarrow> None
                     | Some p' \<Rightarrow> coalesce merged (order + 1) p')))
      else Some (pfn, order, p))"
  by pat_completeness auto
termination
  by (relation "measure (\<lambda>(pfn, order, p). MAX_ORDER - order)") auto

declare coalesce.simps [simp del]

definition free_block :: "nat \<Rightarrow> nat \<Rightarrow> pmm \<Rightarrow> ((pmm_error, unit) result \<times> pmm) option" where
  "free_block pfn order p =
     (if MAX_ORDER < order then Some (Error (OrderTooLarge order), p)
      else if length (frames p) < pfn + 2 ^ order then Some (Error (OutOfRange pfn), p)
      else if \<not> 2 ^ order dvd pfn then Some (Error (Misaligned pfn order), p)
      else do {
        frame \<leftarrow> get (frames p) pfn;
        if fstate frame \<noteq> Allocated then Some (Error (NotAllocated pfn), p)
        else do {
          p \<leftarrow> upd_frame pfn (\<lambda>f. f\<lparr>refcount := 0, fowner := NO_OWNER\<rparr>) p;
          (pfn, order, p) \<leftarrow> coalesce pfn order p;
          p \<leftarrow> push_block pfn order p;
          Some (Ok (), p)
        }
      })"

subsection \<open>The frame database\<close>

definition frame_entry :: "nat \<Rightarrow> pmm \<Rightarrow> frame option" where
  "frame_entry pfn p = get (frames p) pfn"

definition slab_entry :: "nat \<Rightarrow> pmm \<Rightarrow> slab_info option" where
  "slab_entry pfn p = map_option fslab (get (frames p) pfn)"

text \<open>Writing through \<open>slab_mut\<close>; where the frame does not exist there is nothing to write to.\<close>

definition slab_mut :: "nat \<Rightarrow> (slab_info \<Rightarrow> slab_info) \<Rightarrow> pmm \<Rightarrow> pmm" where
  "slab_mut pfn g p =
     (case upd_frame pfn (\<lambda>f. f\<lparr>fslab := g (fslab f)\<rparr>) p of None \<Rightarrow> p | Some p' \<Rightarrow> p')"

definition set_owner :: "nat \<Rightarrow> nat \<Rightarrow> pmm \<Rightarrow> (pmm_error, unit) result \<times> pmm" where
  "set_owner pfn owner p =
     (case upd_frame pfn (\<lambda>f. f\<lparr>fowner := owner\<rparr>) p of
        None \<Rightarrow> (Error (OutOfRange pfn), p)
      | Some p' \<Rightarrow> (Ok (), p'))"

subsection \<open>The self-check\<close>

text \<open>
  The walk along one list, with the blocks seen so far. It stops after more steps than there are
  frames.
\<close>

function check_list ::
  "pmm \<Rightarrow> nat \<Rightarrow> nat \<Rightarrow> nat \<Rightarrow> nat \<Rightarrow> nat \<Rightarrow> (string, nat) result" where
  "check_list p order pfn previous seen counted =
     (if pfn = NO_FRAME then Ok counted
      else
        (case get (frames p) pfn of
           None \<Rightarrow> Panicked
         | Some frame \<Rightarrow>
             if fstate frame \<noteq> Free then Error ''a frame on a free list is not free''
             else if \<not> is_head frame then Error ''a frame on a free list is not a block head''
             else if forder frame \<noteq> order
             then Error ''a block is on the free list of the wrong order''
             else if \<not> 2 ^ order dvd pfn then Error ''a free block is not naturally aligned''
             else if fprev frame \<noteq> previous then Error ''free list back-link is inconsistent''
             else if length (frames p) < seen + 1 then Error ''a free list contains a cycle''
             else check_list p order (fnext frame) pfn (seen + 1) (counted + 2 ^ order)))"
  by pat_completeness auto
termination
  by (relation "measure (\<lambda>(p, order, pfn, previous, seen, counted). length (frames p) - seen)") auto

declare check_list.simps [simp del]

fun check_orders :: "pmm \<Rightarrow> nat \<Rightarrow> nat list \<Rightarrow> nat \<Rightarrow> (string, nat) result" where
  "check_orders p z [] counted = Ok counted"
| "check_orders p z (order # rest) counted =
     (case get (free_lists (zones p ! z)) order of
        None \<Rightarrow> Panicked
      | Some pfn \<Rightarrow>
          (case check_list p order pfn NO_FRAME 0 counted of
             Inl e \<Rightarrow> Inl e
           | Inr counted \<Rightarrow> check_orders p z rest counted))"

fun check_zones :: "pmm \<Rightarrow> nat list \<Rightarrow> (string, unit) result" where
  "check_zones p [] = Ok ()"
| "check_zones p (z # rest) =
     (case check_orders p z [0..<ORDER_COUNT] 0 of
        Inl e \<Rightarrow> Inl e
      | Inr counted \<Rightarrow>
          if counted \<noteq> zone_free (zones p ! z)
          then Error ''accounted free frames do not match the free lists''
          else check_zones p rest)"

definition check_invariants :: "pmm \<Rightarrow> (string, unit) result" where
  "check_invariants p = check_zones p [0..<2]"

end
