(* ===== verification/Links.thy ===== *)
theory Links
  imports Prelude
begin

text \<open>
  Doubly linked lists threaded through a database. The free lists of the frame allocator and the
  partial lists of the heap both keep a head, a next and a previous link per entry, and a null
  value. \<open>chain nxt prv null a p xs\<close> says that following \<open>nxt\<close> from \<open>p\<close> visits exactly \<open>xs\<close> and
  that the back links point the other way, the first of them to \<open>a\<close>.
\<close>

named_theorems chain_intros \<open>how a chain survives an update of the links\<close>

primrec chain :: "(nat \<Rightarrow> nat) \<Rightarrow> (nat \<Rightarrow> nat) \<Rightarrow> nat \<Rightarrow> nat \<Rightarrow> nat \<Rightarrow> nat list \<Rightarrow> bool" where
  "chain nxt prv null a p [] \<longleftrightarrow> p = null"
| "chain nxt prv null a p (x # xs) \<longleftrightarrow>
     p = x \<and> x \<noteq> null \<and> prv x = a \<and> chain nxt prv null x (nxt x) xs"

lemma chain_cong:
  assumes "\<And>x. x \<in> set xs \<Longrightarrow> nxt' x = nxt x" "\<And>x. x \<in> set xs \<Longrightarrow> prv' x = prv x"
  shows "chain nxt' prv' null a p xs \<longleftrightarrow> chain nxt prv null a p xs"
  using assms by (induction xs arbitrary: a p) auto

lemma chain_head: "chain nxt prv null a p xs \<Longrightarrow> p = (case xs of [] \<Rightarrow> null | x # _ \<Rightarrow> x)"
  by (cases xs) auto

lemma chain_not_null: "chain nxt prv null a p xs \<Longrightarrow> null \<notin> set xs"
  by (induction xs arbitrary: a p) auto

text \<open>The first element, or the null of the list.\<close>

definition first_of :: "nat \<Rightarrow> nat list \<Rightarrow> nat" where
  "first_of null xs = (case xs of [] \<Rightarrow> null | x # _ \<Rightarrow> x)"

lemma first_of_simps [simp]: "first_of null [] = null" "first_of null (x # xs) = x"
  by (simp_all add: first_of_def)

lemma chain_first: "chain nxt prv null a p xs \<Longrightarrow> p = first_of null xs"
  by (simp add: chain_head first_of_def)

lemma chain_push [chain_intros]:
  assumes "chain nxt prv null null h xs" "x \<notin> set xs" "x \<noteq> null" "distinct xs"
  shows "chain (nxt(x := h)) (if h \<noteq> null then (prv(x := null))(h := x) else prv(x := null))
           null null x (x # xs)"
proof (cases xs)
  case Nil
  with assms show ?thesis by simp
next
  case (Cons y ys)
  with assms have y: "h = y" "y \<noteq> null" "x \<noteq> y" and ys: "x \<notin> set ys" "y \<notin> set ys"
    and rest: "chain nxt prv null y (nxt y) ys"
    by auto
  have "chain (nxt(x := y)) ((prv(x := null))(y := x)) null y (nxt y) ys"
    using rest by (rule chain_cong [THEN iffD2, rotated 2]) (use ys in auto)
  with y Cons assms(3) show ?thesis by simp
qed

lemma chain_drop_head [chain_intros]:
  assumes "chain nxt prv null a p (x # xs)" "distinct (x # xs)"
  shows "chain nxt (if nxt x \<noteq> null then prv(nxt x := a) else prv) null a (nxt x) xs"
proof (cases xs)
  case Nil
  with assms show ?thesis by simp
next
  case (Cons y ys)
  with assms have y: "nxt x = y" "y \<noteq> null" "y \<notin> set ys" and rest: "chain nxt prv null y (nxt y) ys"
    by auto
  have "chain nxt (prv(y := a)) null y (nxt y) ys"
    using rest by (rule chain_cong [THEN iffD2, rotated 2]) (use y in auto)
  with y Cons show ?thesis by simp
qed

lemma chain_prev:
  "chain nxt prv null a p (ys @ x # zs) \<Longrightarrow> prv x = (if ys = [] then a else last ys)"
  by (induction ys arbitrary: a p) auto

lemma chain_next: "chain nxt prv null a p (ys @ x # zs) \<Longrightarrow> nxt x = first_of null zs"
  by (induction ys arbitrary: a p) (auto dest: chain_first)

lemma chain_drop_mid [chain_intros]:
  assumes "chain nxt prv null a p (ys @ x # zs)" "distinct (ys @ x # zs)" "ys \<noteq> []"
  shows "chain (nxt(last ys := nxt x)) (if nxt x \<noteq> null then prv(nxt x := last ys) else prv)
           null a p (ys @ zs)"
  using assms
proof (induction ys arbitrary: a p)
  case Nil
  then show ?case by simp
next
  case (Cons y ys)
  let ?prv = "\<lambda>l. if nxt x \<noteq> null then prv(nxt x := l) else prv"
  have tail: "chain nxt prv null y (nxt y) (ys @ x # zs)" "distinct (ys @ x # zs)"
    and y: "p = y" "y \<noteq> null" "prv y = a" "y \<notin> set (ys @ x # zs)"
    using Cons.prems by auto
  have next': "nxt x = null \<or> nxt x \<in> set zs"
    using chain_next [OF tail(1)] by (cases zs) auto
  show ?case
  proof (cases "ys = []")
    case True
    with chain_drop_head [of nxt prv null y "nxt y" x zs] tail have "chain nxt (?prv y) null y (nxt x) zs"
      by simp
    then have "chain (nxt(y := nxt x)) (?prv y) null y (nxt x) zs"
      by (rule chain_cong [THEN iffD2, rotated 2]) (use y True in auto)
    moreover have "?prv y y = a"
      using y next' by auto
    ultimately show ?thesis
      using y by (simp only: True append.simps chain.simps fun_upd_same last.simps simp_thms if_True)
  next
    case False
    then have "last ys \<noteq> y"
      using y by auto
    moreover have "?prv (last ys) y = a"
      using y next' by auto
    ultimately show ?thesis
      using Cons.IH [OF tail False] y False
      by (simp only: append.simps chain.simps fun_upd_other last.simps simp_thms if_False not_sym)
  qed
qed

end
