(* ===== verification/BuddyLists.thy ===== *)
theory BuddyLists
  imports Buddy Links
begin

text \<open>
  The free lists of the frame allocator. \<open>linked p L\<close> says that the links in the frame database
  spell out the lists \<open>L z k\<close> of zone \<open>z\<close> and order \<open>k\<close>, that the blocks on them are marked as the
  code marks them, that a frame is marked as a head only when it is on one of them, and that the
  count of free frames of the zone is what its lists hold. Pushing and removing a block then act on
  \<open>L\<close> like a cons and a deletion.
\<close>

abbreviation nxt :: "pmm \<Rightarrow> nat \<Rightarrow> nat" where
  "nxt p x \<equiv> fnext (frames p ! x)"

abbreviation prv :: "pmm \<Rightarrow> nat \<Rightarrow> nat" where
  "prv p x \<equiv> fprev (frames p ! x)"

abbreviation zi :: "nat \<Rightarrow> nat" where
  "zi pfn \<equiv> zone_index (zone_of pfn)"

type_synonym lists = "nat \<Rightarrow> nat \<Rightarrow> nat list"

text \<open>A frame without its links, which is what the other components see of it.\<close>

definition bare :: "frame \<Rightarrow> frame" where
  "bare f = f\<lparr>fnext := NO_FRAME, fprev := NO_FRAME\<rparr>"

lemma bare_fields [simp]:
  "fstate (bare f) = fstate f" "forder (bare f) = forder f" "is_head (bare f) = is_head f"
  "refcount (bare f) = refcount f" "fowner (bare f) = fowner f" "fslab (bare f) = fslab f"
  by (simp_all add: bare_def)

lemma bare_updates [simp]:
  "bare (f\<lparr>fnext := n\<rparr>) = bare f" "bare (f\<lparr>fprev := n\<rparr>) = bare f"
  by (simp_all add: bare_def)

abbreviation bares :: "pmm \<Rightarrow> frame list" where
  "bares p \<equiv> map bare (frames p)"

text \<open>
  The database is smaller than the frame numbers by one block, which is sixteen terabytes of memory
  less four megabytes.
\<close>

definition MAX_FRAMES :: nat where "MAX_FRAMES = 2 ^ 32 - 2 ^ 10"

definition on_list :: "pmm \<Rightarrow> nat \<Rightarrow> nat \<Rightarrow> nat \<Rightarrow> bool" where
  "on_list p z k x \<longleftrightarrow> x < length (frames p) \<and> fstate (frames p ! x) = Free \<and>
     is_head (frames p ! x) \<and> forder (frames p ! x) = k \<and> zi x = z"

definition held :: "lists \<Rightarrow> nat \<Rightarrow> nat" where
  "held L z = (\<Sum>k\<le>MAX_ORDER. length (L z k) * 2 ^ k)"

definition zone_linked :: "pmm \<Rightarrow> lists \<Rightarrow> nat \<Rightarrow> nat \<Rightarrow> bool" where
  "zone_linked p L z k \<longleftrightarrow>
     chain (nxt p) (prv p) NO_FRAME NO_FRAME (free_lists (zones p ! z) ! k) (L z k) \<and>
     distinct (L z k) \<and> (\<forall>x \<in> set (L z k). on_list p z k x)"

definition linked :: "pmm \<Rightarrow> lists \<Rightarrow> bool" where
  "linked p L \<longleftrightarrow> length (zones p) = 2 \<and> length (frames p) \<le> MAX_FRAMES \<and>
     (\<forall>z < 2. length (free_lists (zones p ! z)) = ORDER_COUNT \<and> zone_free (zones p ! z) = held L z) \<and>
     (\<forall>z < 2. \<forall>k \<le> MAX_ORDER. zone_linked p L z k) \<and>
     (\<forall>x < length (frames p). is_head (frames p ! x) \<longrightarrow>
        forder (frames p ! x) \<le> MAX_ORDER \<and> x \<in> set (L (zi x) (forder (frames p ! x))))"

definition ins :: "nat \<Rightarrow> nat \<Rightarrow> lists \<Rightarrow> lists" where
  "ins x k L = (\<lambda>z j. if z = zi x \<and> j = k then x # L z j else L z j)"

definition del :: "nat \<Rightarrow> nat \<Rightarrow> lists \<Rightarrow> lists" where
  "del x k L = (\<lambda>z j. if z = zi x \<and> j = k then remove1 x (L z j) else L z j)"

subsection \<open>Access\<close>

lemma in_ins: "y \<in> set (ins x k L z j) \<longleftrightarrow> y = x \<and> z = zi x \<and> j = k \<or> y \<in> set (L z j)"
  by (auto simp: ins_def)

lemma in_del:
  "distinct (L z j) \<Longrightarrow>
   y \<in> set (del x k L z j) \<longleftrightarrow> y \<in> set (L z j) \<and> \<not> (y = x \<and> z = zi x \<and> j = k)"
  by (auto simp: del_def)

lemma zi_less [simp]: "zi x < 2"
  by (cases "zone_of x") auto

lemma linkedD:
  assumes "linked p L"
  shows "length (zones p) = 2" "length (frames p) \<le> MAX_FRAMES"
    "z < 2 \<Longrightarrow> length (free_lists (zones p ! z)) = ORDER_COUNT"
    "z < 2 \<Longrightarrow> zone_free (zones p ! z) = held L z"
    "z < 2 \<Longrightarrow> k \<le> MAX_ORDER \<Longrightarrow> zone_linked p L z k"
    "x < length (frames p) \<Longrightarrow> is_head (frames p ! x) \<Longrightarrow>
       forder (frames p ! x) \<le> MAX_ORDER \<and> x \<in> set (L (zi x) (forder (frames p ! x)))"
  using assms by (simp_all add: linked_def)

lemma linked_on_list:
  assumes "linked p L" "z < 2" "k \<le> MAX_ORDER" "x \<in> set (L z k)"
  shows "on_list p z k x"
  using linkedD(5) [OF assms(1-3)] assms(4) by (simp add: zone_linked_def)

lemma linked_not_null: "linked p L \<Longrightarrow> x < length (frames p) \<Longrightarrow> x \<noteq> NO_FRAME"
  using linkedD(2) [of p L] by (auto simp: MAX_FRAMES_def NO_FRAME_def max_of_def)

lemma linked_disjoint:
  assumes "linked p L" "z < 2" "k \<le> MAX_ORDER" "x \<in> set (L z k)" "z' < 2" "k' \<le> MAX_ORDER"
    "x \<in> set (L z' k')"
  shows "z' = z \<and> k' = k"
  using linked_on_list [OF assms(1-4)] linked_on_list [OF assms(1,5,6,7)] by (simp add: on_list_def)

lemma linked_length:
  assumes "linked p L" "z < 2" "k \<le> MAX_ORDER"
  shows "length (L z k) \<le> MAX_FRAMES"
proof -
  have "set (L z k) \<subseteq> {..<length (frames p)}"
    using linked_on_list [OF assms] by (auto simp: on_list_def)
  then have "card (set (L z k)) \<le> length (frames p)"
    using card_mono [of "{..<length (frames p)}"] by fastforce
  then show ?thesis
    using linkedD(5) [OF assms] linkedD(2) [OF assms(1)] by (simp add: zone_linked_def distinct_card)
qed

lemma held_less:
  assumes "linked p L" "z < 2" "k \<le> MAX_ORDER"
  shows "held L z + 2 ^ k \<le> max_of 64"
proof -
  have "held L z \<le> (\<Sum>k\<le>MAX_ORDER. MAX_FRAMES * 2 ^ MAX_ORDER)"
    unfolding held_def
    by (rule sum_mono) (use linked_length [OF assms(1,2)] in \<open>auto intro!: mult_mono power_increasing\<close>)
  moreover have "(2::nat) ^ k \<le> 2 ^ MAX_ORDER"
    by (rule power_increasing) (use assms(3) in auto)
  ultimately show ?thesis
    by (simp add: MAX_ORDER_def MAX_FRAMES_def max_of_def)
qed

lemma held_ins:
  assumes "k \<le> MAX_ORDER"
  shows "held (ins x k L) z = held L z + (if z = zi x then 2 ^ k else 0)"
proof -
  have "length (ins x k L z j) * 2 ^ j = length (L z j) * 2 ^ j + (if j = k then (if z = zi x then 2 ^ k else 0) else 0)"
    for j by (simp add: ins_def)
  then have "held (ins x k L) z = held L z + (\<Sum>j\<le>MAX_ORDER. if j = k then (if z = zi x then 2 ^ k else 0) else 0)"
    unfolding held_def by (simp only: sum.distrib)
  with assms show ?thesis by (simp add: sum.delta)
qed

lemma ins_del:
  assumes "x \<in> set (L (zi x) k)" "distinct (L (zi x) k)"
  shows "length (ins x k (del x k L) z j) = length (L z j)"
  using assms by (auto simp: ins_def del_def length_remove1 dest: length_pos_if_in_set)

lemma held_del:
  assumes "linked p L" "k \<le> MAX_ORDER" "x \<in> set (L (zi x) k)"
  shows "held L z = held (del x k L) z + (if z = zi x then 2 ^ k else 0)"
proof -
  have "distinct (L (zi x) k)"
    using linkedD(5) [OF assms(1) zi_less assms(2)] by (simp add: zone_linked_def)
  then have "held L z = held (ins x k (del x k L)) z"
    using assms(3) by (simp add: held_def ins_del)
  then show ?thesis
    by (simp only: held_ins [OF assms(2)])
qed


subsection \<open>Updates of the database\<close>

lemma upd_frame_eq:
  "x < length (frames p) \<Longrightarrow>
   upd_frame x f p = Some (p\<lparr>frames := (frames p)[x := f (frames p ! x)]\<rparr>)"
  by (simp add: upd_frame_def get_def)

lemma nth_field_update:
  "x < length fs \<Longrightarrow> (\<lambda>y. g (fs[x := v] ! y)) = (\<lambda>y. g (fs ! y))(x := g v)"
  by (auto simp: nth_list_update)

lemma bares_update: "map bare (fs[x := v]) = (map bare fs)[x := bare v]"
  by (rule map_update)

text \<open>An update of a frame that is on no list, and stays on none, keeps the lists.\<close>

lemma linked_upd_frame:
  assumes L: "linked p L" and x: "x < length (frames p)" "\<not> is_head (frames p ! x)" "\<not> is_head v"
  shows "linked (p\<lparr>frames := (frames p)[x := v]\<rparr>) L"
proof -
  let ?p = "p\<lparr>frames := (frames p)[x := v]\<rparr>"
  have away: "y \<noteq> x" if "z < 2" "k \<le> MAX_ORDER" "y \<in> set (L z k)" for z k y
    using linked_on_list [OF L that] x(2) by (auto simp: on_list_def)
  have "zone_linked ?p L z k" if zk: "z < 2" "k \<le> MAX_ORDER" for z k
  proof -
    have same: "(frames p)[x := v] ! y = frames p ! y" if "y \<in> set (L z k)" for y
      using away [OF zk that] by simp
    then have "chain (nxt ?p) (prv ?p) NO_FRAME NO_FRAME (free_lists (zones ?p ! z) ! k) (L z k)"
      using linkedD(5) [OF L zk] unfolding zone_linked_def
      by (auto elim!: chain_cong [THEN iffD2, rotated 2])
    then show ?thesis
      using linkedD(5) [OF L zk] by (simp add: zone_linked_def on_list_def same)
  qed
  with L x show ?thesis
    by (auto simp: linked_def nth_list_update)
qed

lemma push_frame_other:
  assumes "linked p L" "x < length (frames p)" "\<not> is_head (frames p ! x)"
    "z < 2" "k \<le> MAX_ORDER"
  shows "x \<notin> set (L z k)"
  using linked_on_list [OF assms(1,4,5)] assms(3) by (auto simp: on_list_def)

text \<open>The state after a push: the two frames whose links change, and the zone.\<close>

definition pushed_frames :: "nat \<Rightarrow> nat \<Rightarrow> nat \<Rightarrow> frame list \<Rightarrow> frame list" where
  "pushed_frames x k h fs =
     (let fs1 = fs[x := (fs ! x)\<lparr>fstate := Free, forder := k mod 256, is_head := True,
                              fnext := h, fprev := NO_FRAME\<rparr>] in
      if h \<noteq> NO_FRAME then fs1[h := (fs1 ! h)\<lparr>fprev := x\<rparr>] else fs1)"

lemma pushed_frames_simps:
  assumes "x < length fs" "h \<noteq> NO_FRAME \<longrightarrow> h < length fs" "h \<noteq> x" "k \<le> MAX_ORDER"
  shows "length (pushed_frames x k h fs) = length fs"
    "(\<lambda>y. fnext (pushed_frames x k h fs ! y)) = (\<lambda>y. fnext (fs ! y))(x := h)"
    "(\<lambda>y. fprev (pushed_frames x k h fs ! y)) =
       (if h \<noteq> NO_FRAME then ((\<lambda>y. fprev (fs ! y))(x := NO_FRAME))(h := x)
        else (\<lambda>y. fprev (fs ! y))(x := NO_FRAME))"
    "map bare (pushed_frames x k h fs) =
       (map bare fs)[x := (bare (fs ! x))\<lparr>fstate := Free, forder := k, is_head := True\<rparr>]"
  using assms
  by (auto simp: pushed_frames_def Let_def nth_list_update MAX_ORDER_def bare_def map_update
      intro!: nth_equalityI)


subsection \<open>Pushing a block\<close>

definition pushed :: "nat \<Rightarrow> nat \<Rightarrow> pmm \<Rightarrow> pmm" where
  "pushed x k p =
     (let h = free_lists (zones p ! zi x) ! k in
      p\<lparr>frames := pushed_frames x k h (frames p),
        zones := (zones p)[zi x := (zones p ! zi x)
          \<lparr>free_lists := (free_lists (zones p ! zi x))[k := x],
           zone_free := zone_free (zones p ! zi x) + 2 ^ k\<rparr>]\<rparr>)"

lemma list_head:
  assumes "linked p L" "z < 2" "k \<le> MAX_ORDER"
  shows "free_lists (zones p ! z) ! k = first_of NO_FRAME (L z k)"
  using linkedD(5) [OF assms] unfolding zone_linked_def by (blast dest: chain_first)

lemma list_head_ok:
  assumes "linked p L" "z < 2" "k \<le> MAX_ORDER" "h = free_lists (zones p ! z) ! k"
    "x < length (frames p)" "\<not> is_head (frames p ! x)"
  shows "(h \<noteq> NO_FRAME \<longrightarrow> h < length (frames p) \<and> h \<in> set (L z k)) \<and> h \<noteq> x"
proof (cases "L z k")
  case Nil
  with assms list_head [OF assms(1-3)] show ?thesis
    using linked_not_null [OF assms(1,5)] by simp
next
  case (Cons y ys)
  with linked_on_list [OF assms(1-3), of y] assms list_head [OF assms(1-3)] show ?thesis
    by (auto simp: on_list_def)
qed

lemma push_block_eq:
  assumes L: "linked p L" and x: "x < length (frames p)" "\<not> is_head (frames p ! x)" and k: "k \<le> MAX_ORDER"
  shows "push_block x k p = Some (pushed x k p)"
proof -
  let ?h = "free_lists (zones p ! zi x) ! k"
  have h: "(?h \<noteq> NO_FRAME \<longrightarrow> ?h < length (frames p)) \<and> ?h \<noteq> x"
    using list_head_ok [OF L zi_less k refl x] by blast
  have "k < length (free_lists (zones p ! zi x))"
    using linkedD(3) [OF L zi_less] k by (simp add: ORDER_COUNT_def)
  moreover have "zone_free (zones p ! zi x) + 2 ^ k \<le> max_of 64"
    using held_less [OF L zi_less k, of x] linkedD(4) [OF L zi_less] by simp
  ultimately show ?thesis
    using h x by (auto simp: push_block_def pushed_def pushed_frames_def Let_def get_def upd_frame_eq
        upd_zone_def checked_add_def)
qed

text \<open>
  The lists that a push or a removal does not touch: links change only at \<open>x\<close> and along the list
  \<open>x\<close> belongs to, the other fields only at \<open>x\<close>.
\<close>

lemma bare_eqD:
  assumes "bare f = bare g"
  shows "fstate f = fstate g" "forder f = forder g" "is_head f = is_head g"
  using arg_cong [OF assms, of fstate] arg_cong [OF assms, of forder] arg_cong [OF assms, of is_head]
  by simp_all

lemma zone_linked_other:
  assumes L: "linked p L" and zj: "z < 2" "j \<le> MAX_ORDER" "\<not> (z = zi x \<and> j = k)"
    and k: "k \<le> MAX_ORDER" and x: "x \<notin> set (L z j)"
    and len: "length (frames p') = length (frames p)"
    and links: "\<And>y. y \<noteq> x \<Longrightarrow> y \<notin> set (L (zi x) k) \<Longrightarrow> y < length (frames p) \<Longrightarrow>
      nxt p' y = nxt p y \<and> prv p' y = prv p y"
    and bares: "\<And>y. y \<noteq> x \<Longrightarrow> y < length (frames p) \<Longrightarrow> bare (frames p' ! y) = bare (frames p ! y)"
    and heads: "free_lists (zones p' ! z) ! j = free_lists (zones p ! z) ! j" "L' z j = L z j"
  shows "zone_linked p' L' z j"
proof -
  have old: "zone_linked p L z j"
    by (rule linkedD(5) [OF L zj(1,2)])
  have y: "y \<noteq> x" "y < length (frames p)" "y \<notin> set (L (zi x) k)" if "y \<in> set (L z j)" for y
    using that x linked_on_list [OF L zj(1,2) that] linked_disjoint [OF L zj(1,2) that zi_less k] zj(3)
    by (auto simp: on_list_def)
  have "chain (nxt p') (prv p') NO_FRAME NO_FRAME (free_lists (zones p ! z) ! j) (L z j)"
    using old links y unfolding zone_linked_def by (auto elim!: chain_cong [THEN iffD2, rotated 2])
  moreover have "on_list p' z j y" if "y \<in> set (L z j)" for y
    using linked_on_list [OF L zj(1,2) that] bare_eqD [OF bares [OF y(1,2) [OF that]]] len
    by (simp add: on_list_def)
  ultimately show ?thesis
    using old by (simp add: zone_linked_def heads)
qed

lemma pushed_fields:
  assumes L: "linked p L" and x: "x < length (frames p)" "\<not> is_head (frames p ! x)" and k: "k \<le> MAX_ORDER"
    and h: "h = free_lists (zones p ! zi x) ! k"
  shows "length (frames (pushed x k p)) = length (frames p)"
    "nxt (pushed x k p) = (nxt p)(x := h)"
    "prv (pushed x k p) =
       (if h \<noteq> NO_FRAME then ((prv p)(x := NO_FRAME))(h := x) else (prv p)(x := NO_FRAME))"
    "bares (pushed x k p) =
      (bares p)[x := (bares p ! x)\<lparr>fstate := Free, forder := k, is_head := True\<rparr>]"
    "z < 2 \<Longrightarrow> zone_managed (zones (pushed x k p) ! z) = zone_managed (zones p ! z)"
  using pushed_frames_simps [of x "frames p" h k] list_head_ok [OF L zi_less k h x] x k h linkedD(1) [OF L]
  by (simp_all add: pushed_def Let_def nth_list_update)

lemma pushed_lists:
  assumes "linked p L" "z < 2" "j \<le> MAX_ORDER"
  shows "free_lists (zones (pushed x k p) ! z) ! j =
      (if z = zi x \<and> j = k then x else free_lists (zones p ! z) ! j)"
  using assms linkedD(1) [OF assms(1)] linkedD(3) [OF assms(1)]
  by (simp add: pushed_def Let_def nth_list_update ORDER_COUNT_def)

lemma nth_bares: "y < length (frames p) \<Longrightarrow> bares p ! y = bare (frames p ! y)"
  by simp

lemma pushed_bare:
  assumes L: "linked p L" and x: "x < length (frames p)" "\<not> is_head (frames p ! x)" and k: "k \<le> MAX_ORDER"
    and y: "y < length (frames p)"
  shows "bare (frames (pushed x k p) ! y) =
      (if y = x then (bare (frames p ! x))\<lparr>fstate := Free, forder := k, is_head := True\<rparr>
       else bare (frames p ! y))"
  using arg_cong [OF pushed_fields(4) [OF L x k refl], of "\<lambda>xs. xs ! y"] x y
    pushed_fields(1) [OF L x k refl] by (simp add: nth_list_update)

lemma pushed_own_list:
  assumes L: "linked p L" and x: "x < length (frames p)" "\<not> is_head (frames p ! x)" and k: "k \<le> MAX_ORDER"
  shows "zone_linked (pushed x k p) (ins x k L) (zi x) k"
proof -
  let ?h = "free_lists (zones p ! zi x) ! k" and ?p = "pushed x k p"
  have old: "zone_linked p L (zi x) k"
    by (rule linkedD(5) [OF L zi_less k])
  have new: "x \<notin> set (L (zi x) k)" "x \<noteq> NO_FRAME"
    using push_frame_other [OF L x zi_less k] linked_not_null [OF L x(1)] .
  have "chain (nxt ?p) (prv ?p) NO_FRAME NO_FRAME x (x # L (zi x) k)"
    unfolding pushed_fields(2,3) [OF L x k refl]
    using old new by (intro chain_push) (simp_all add: zone_linked_def)
  moreover have "on_list ?p (zi x) k x"
    using bare_eqD [of "frames ?p ! x" "(frames p ! x)\<lparr>fstate := Free, forder := k, is_head := True\<rparr>"]
      pushed_bare [OF L x k x(1)] x pushed_fields(1) [OF L x k refl]
    by (simp add: on_list_def bare_def)
  moreover have "on_list ?p (zi x) k y" if "y \<in> set (L (zi x) k)" for y
  proof -
    have "on_list p (zi x) k y"
      by (rule linked_on_list [OF L zi_less k that])
    then show ?thesis
      using bare_eqD [of "frames ?p ! y" "frames p ! y"] pushed_bare [OF L x k, of y] x new that
        pushed_fields(1) [OF L x k refl] by (auto simp: on_list_def)
  qed
  ultimately show ?thesis
    using old new by (simp add: zone_linked_def ins_def pushed_lists [OF L zi_less k])
qed

lemma linked_pushed:
  assumes L: "linked p L" and x: "x < length (frames p)" "\<not> is_head (frames p ! x)" and k: "k \<le> MAX_ORDER"
  shows "linked (pushed x k p) (ins x k L)"
proof -
  let ?p = "pushed x k p" and ?h = "free_lists (zones p ! zi x) ! k"
  note fields = pushed_fields [OF L x k refl] and bare = pushed_bare [OF L x k]
  have h: "?h \<noteq> NO_FRAME \<longrightarrow> ?h \<in> set (L (zi x) k)"
    using list_head_ok [OF L zi_less k refl x] by blast
  have "zone_linked ?p (ins x k L) z j" if zj: "z < 2" "j \<le> MAX_ORDER" for z j
  proof (cases "z = zi x \<and> j = k")
    case True
    then show ?thesis
      using pushed_own_list [OF L x k] by simp
  next
    case False
    show ?thesis
    proof (rule zone_linked_other [OF L zj False k push_frame_other [OF L x zj] fields(1)])
      show "nxt ?p y = nxt p y \<and> prv ?p y = prv p y"
        if "y \<noteq> x" "y \<notin> set (L (zi x) k)" "y < length (frames p)" for y
        using that h fun_cong [OF fields(2), of y] fun_cong [OF fields(3), of y] by auto
    qed (use False bare pushed_lists [OF L zj] in \<open>auto simp: ins_def\<close>)
  qed
  moreover have "\<forall>z < 2. length (free_lists (zones ?p ! z)) = ORDER_COUNT \<and>
      zone_free (zones ?p ! z) = held (ins x k L) z" "length (zones ?p) = 2"
    using linkedD(1,3,4) [OF L] held_ins [OF k] by (auto simp: pushed_def Let_def nth_list_update)
  moreover have "forder (frames ?p ! y) \<le> MAX_ORDER \<and> y \<in> set (ins x k L (zi y) (forder (frames ?p ! y)))"
    if "y < length (frames p)" "is_head (frames ?p ! y)" for y
    using arg_cong [OF bare [OF that(1)], of forder] arg_cong [OF bare [OF that(1)], of is_head]
      linkedD(6) [OF L that(1)] that(2) k by (cases "y = x") (simp_all add: in_ins)
  ultimately show ?thesis
    using linkedD(2) [OF L] by (simp add: linked_def fields(1))
qed

subsection \<open>Removing a block\<close>

definition removed_frames :: "nat \<Rightarrow> frame list \<Rightarrow> frame list" where
  "removed_frames x fs =
     (let n = fnext (fs ! x); v = fprev (fs ! x);
          fs1 = (if v = NO_FRAME then fs else fs[v := (fs ! v)\<lparr>fnext := n\<rparr>]);
          fs2 = (if n \<noteq> NO_FRAME then fs1[n := (fs1 ! n)\<lparr>fprev := v\<rparr>] else fs1)
      in fs2[x := (fs2 ! x)\<lparr>fnext := NO_FRAME, fprev := NO_FRAME, is_head := False\<rparr>])"

definition removed :: "nat \<Rightarrow> nat \<Rightarrow> pmm \<Rightarrow> pmm" where
  "removed x k p =
     (let s = zones p ! zi x;
          heads = (if prv p x = NO_FRAME then (free_lists s)[k := nxt p x] else free_lists s) in
      p\<lparr>frames := removed_frames x (frames p),
        zones := (zones p)[zi x := s\<lparr>free_lists := heads, zone_free := zone_free s - 2 ^ k\<rparr>]\<rparr>)"

text \<open>The neighbours of a block on its list.\<close>

lemma neighbours:
  assumes "linked p L" "k \<le> MAX_ORDER" "x \<in> set (L (zi x) k)"
  obtains ys zs where "L (zi x) k = ys @ x # zs" "distinct (ys @ x # zs)"
    "prv p x = (if ys = [] then NO_FRAME else last ys)" "nxt p x = first_of NO_FRAME zs"
    "\<And>y. y \<in> set (ys @ x # zs) \<Longrightarrow> y < length (frames p) \<and> y \<noteq> NO_FRAME"
proof -
  obtain ys zs where e: "L (zi x) k = ys @ x # zs"
    using split_list [OF assms(3)] by blast
  have z: "zone_linked p L (zi x) k"
    by (rule linkedD(5) [OF assms(1) zi_less assms(2)])
  then have c: "chain (nxt p) (prv p) NO_FRAME NO_FRAME (free_lists (zones p ! zi x) ! k) (ys @ x # zs)"
    by (simp add: zone_linked_def e)
  show thesis
    using that [OF e _ chain_prev [OF c] chain_next [OF c]] z chain_not_null [OF c]
    by (auto simp: zone_linked_def e on_list_def)
qed

lemma removed_frames_simps:
  assumes "x < length fs" "n = fnext (fs ! x)" "v = fprev (fs ! x)" "n \<noteq> x" "v \<noteq> x"
    "n \<noteq> NO_FRAME \<longrightarrow> n < length fs" "v \<noteq> NO_FRAME \<longrightarrow> v < length fs" "n = v \<longrightarrow> n = NO_FRAME"
  shows "length (removed_frames x fs) = length fs"
    "(\<lambda>y. fnext (removed_frames x fs ! y)) =
       (if v = NO_FRAME then \<lambda>y. fnext (fs ! y) else (\<lambda>y. fnext (fs ! y))(v := n))(x := NO_FRAME)"
    "(\<lambda>y. fprev (removed_frames x fs ! y)) =
       (if n = NO_FRAME then \<lambda>y. fprev (fs ! y) else (\<lambda>y. fprev (fs ! y))(n := v))(x := NO_FRAME)"
    "map bare (removed_frames x fs) = (map bare fs)[x := (bare (fs ! x))\<lparr>is_head := False\<rparr>]"
  using assms
  by (auto simp: removed_frames_def Let_def nth_list_update bare_def map_update intro!: nth_equalityI)

lemma links_of_removed:
  assumes "linked p L" "k \<le> MAX_ORDER" "x \<in> set (L (zi x) k)"
  shows "x < length (frames p)" "nxt p x \<noteq> x" "prv p x \<noteq> x"
    "nxt p x \<noteq> NO_FRAME \<longrightarrow> nxt p x < length (frames p) \<and> nxt p x \<in> set (L (zi x) k)"
    "prv p x \<noteq> NO_FRAME \<longrightarrow> prv p x < length (frames p) \<and> prv p x \<in> set (L (zi x) k)"
    "nxt p x = prv p x \<longrightarrow> nxt p x = NO_FRAME"
proof -
  obtain ys zs where s: "L (zi x) k = ys @ x # zs" "distinct (ys @ x # zs)"
    "prv p x = (if ys = [] then NO_FRAME else last ys)" "nxt p x = first_of NO_FRAME zs"
    "\<And>y. y \<in> set (ys @ x # zs) \<Longrightarrow> y < length (frames p) \<and> y \<noteq> NO_FRAME"
    using neighbours [OF assms] by metis
  then have "x < length (frames p)" "x \<noteq> NO_FRAME"
    by auto
  moreover have "nxt p x \<in> insert NO_FRAME (set zs)" "prv p x \<in> insert NO_FRAME (set ys)"
    using s(3,4) by (cases zs; auto)+
  ultimately show "x < length (frames p)" "nxt p x \<noteq> x" "prv p x \<noteq> x"
    "nxt p x \<noteq> NO_FRAME \<longrightarrow> nxt p x < length (frames p) \<and> nxt p x \<in> set (L (zi x) k)"
    "prv p x \<noteq> NO_FRAME \<longrightarrow> prv p x < length (frames p) \<and> prv p x \<in> set (L (zi x) k)"
    "nxt p x = prv p x \<longrightarrow> nxt p x = NO_FRAME"
    using s(1,2,5) by auto
qed

lemma remove_block_eq:
  assumes L: "linked p L" and k: "k \<le> MAX_ORDER" and x: "x \<in> set (L (zi x) k)"
  shows "remove_block x k p = Some (removed x k p)"
proof -
  note l = links_of_removed [OF L k x]
  have "k < length (free_lists (zones p ! zi x))"
    using linkedD(3) [OF L zi_less] k by (simp add: ORDER_COUNT_def)
  moreover have "2 ^ k \<le> zone_free (zones p ! zi x)"
    using held_del [of p L k x "zi x"] linkedD(4) [OF L zi_less] L k x by simp
  moreover have "zi x < length (zones p)"
    using linkedD(1) [OF L] by simp
  ultimately show ?thesis
    using l by (auto simp: remove_block_def removed_def removed_frames_def Let_def get_def upd_frame_eq
        upd_zone_def checked_sub_def)
qed

lemma removed_fields:
  assumes L: "linked p L" and k: "k \<le> MAX_ORDER" and x: "x \<in> set (L (zi x) k)"
    and n: "n = nxt p x" and v: "v = prv p x"
  shows "length (frames (removed x k p)) = length (frames p)"
    "nxt (removed x k p) = (if v = NO_FRAME then nxt p else (nxt p)(v := n))(x := NO_FRAME)"
    "prv (removed x k p) = (if n = NO_FRAME then prv p else (prv p)(n := v))(x := NO_FRAME)"
    "bares (removed x k p) = (bares p)[x := (bares p ! x)\<lparr>is_head := False\<rparr>]"
    "z < 2 \<Longrightarrow> zone_managed (zones (removed x k p) ! z) = zone_managed (zones p ! z)"
  using removed_frames_simps [of x "frames p" n v] links_of_removed [OF L k x] n v linkedD(1) [OF L]
  by (simp_all add: removed_def Let_def nth_list_update)

lemma removed_lists:
  assumes "linked p L" "z < 2" "j \<le> MAX_ORDER" "k \<le> MAX_ORDER"
  shows "free_lists (zones (removed x k p) ! z) ! j =
      (if z = zi x \<and> j = k \<and> prv p x = NO_FRAME then nxt p x else free_lists (zones p ! z) ! j)"
  using assms linkedD(1) [OF assms(1)] linkedD(3) [OF assms(1)]
  by (simp add: removed_def Let_def nth_list_update ORDER_COUNT_def)

lemma removed_bare:
  assumes L: "linked p L" and k: "k \<le> MAX_ORDER" and x: "x \<in> set (L (zi x) k)"
    and y: "y < length (frames p)"
  shows "bare (frames (removed x k p) ! y) =
      (if y = x then (bare (frames p ! x))\<lparr>is_head := False\<rparr> else bare (frames p ! y))"
  using arg_cong [OF removed_fields(4) [OF L k x refl refl], of "\<lambda>xs. xs ! y"] y
    removed_fields(1) [OF L k x refl refl] by (simp add: nth_list_update)

lemma removed_own_list:
  assumes L: "linked p L" and k: "k \<le> MAX_ORDER" and x: "x \<in> set (L (zi x) k)"
  shows "zone_linked (removed x k p) (del x k L) (zi x) k"
proof -
  let ?p = "removed x k p" and ?h = "free_lists (zones p ! zi x) ! k"
  obtain ys zs where s: "L (zi x) k = ys @ x # zs" "distinct (ys @ x # zs)"
    "prv p x = (if ys = [] then NO_FRAME else last ys)" "nxt p x = first_of NO_FRAME zs"
    "\<And>y. y \<in> set (ys @ x # zs) \<Longrightarrow> y < length (frames p) \<and> y \<noteq> NO_FRAME"
    using neighbours [OF L k x] by metis
  note fields = removed_fields [OF L k x refl refl]
  have old: "zone_linked p L (zi x) k"
    by (rule linkedD(5) [OF L zi_less k])
  then have c: "chain (nxt p) (prv p) NO_FRAME NO_FRAME ?h (ys @ x # zs)"
    by (simp add: zone_linked_def s(1))
  have d: "del x k L (zi x) k = ys @ zs"
    using s(1,2) by (simp add: del_def remove1_append)
  have last: "ys \<noteq> [] \<Longrightarrow> last ys \<noteq> NO_FRAME"
    using s(5) by simp
  have "chain (if prv p x = NO_FRAME then nxt p else (nxt p)(prv p x := nxt p x))
      (if nxt p x = NO_FRAME then prv p else (prv p)(nxt p x := prv p x))
      NO_FRAME NO_FRAME (if prv p x = NO_FRAME then nxt p x else ?h) (ys @ zs)"
  proof (cases "ys = []")
    case True
    with chain_drop_head [of "nxt p" "prv p" NO_FRAME NO_FRAME ?h x zs] c s(2,3) show ?thesis
      by (auto split: if_splits)
  next
    case False
    with chain_drop_mid [OF c s(2)] s(3) last show ?thesis
      by (auto split: if_splits)
  qed
  then have "chain (nxt ?p) (prv ?p) NO_FRAME NO_FRAME (free_lists (zones ?p ! zi x) ! k) (ys @ zs)"
    unfolding fields removed_lists [OF L zi_less k k]
    using s(2) by (auto elim!: chain_cong [THEN iffD2, rotated 2])
  moreover have "on_list ?p (zi x) k y" if "y \<in> set (ys @ zs)" for y
  proof -
    have "y \<noteq> x" "y \<in> set (L (zi x) k)"
      using that s(1,2) by auto
    with linked_on_list [OF L zi_less k, of y] show ?thesis
      using bare_eqD [of "frames ?p ! y" "frames p ! y"] removed_bare [OF L k x, of y] fields(1)
      by (auto simp: on_list_def)
  qed
  ultimately show ?thesis
    using s(2) by (simp add: zone_linked_def d)
qed

lemma linked_removed:
  assumes L: "linked p L" and k: "k \<le> MAX_ORDER" and x: "x \<in> set (L (zi x) k)"
  shows "linked (removed x k p) (del x k L)"
proof -
  let ?p = "removed x k p"
  note fields = removed_fields [OF L k x refl refl] and bare = removed_bare [OF L k x]
    and l = links_of_removed [OF L k x]
  have "zone_linked ?p (del x k L) z j" if zj: "z < 2" "j \<le> MAX_ORDER" for z j
  proof (cases "z = zi x \<and> j = k")
    case True
    then show ?thesis
      using removed_own_list [OF L k x] by simp
  next
    case False
    have "x \<notin> set (L z j)"
      using linked_disjoint [OF L zi_less k x zj] False by auto
    then show ?thesis
    proof (rule zone_linked_other [OF L zj False k _ fields(1)])
      show "nxt ?p y = nxt p y \<and> prv ?p y = prv p y"
        if "y \<noteq> x" "y \<notin> set (L (zi x) k)" "y < length (frames p)" for y
        using that l fun_cong [OF fields(2), of y] fun_cong [OF fields(3), of y] by auto
    qed (use False bare removed_lists [OF L zj k] in \<open>auto simp: del_def\<close>)
  qed
  moreover have "\<forall>z < 2. length (free_lists (zones ?p ! z)) = ORDER_COUNT \<and>
      zone_free (zones ?p ! z) = held (del x k L) z" "length (zones ?p) = 2"
    using linkedD(1,3,4) [OF L] held_del [of p L k x] L k x
    by (auto simp: removed_def Let_def nth_list_update)
  moreover have "forder (frames ?p ! y) \<le> MAX_ORDER \<and> y \<in> set (del x k L (zi y) (forder (frames ?p ! y)))"
    if "y < length (frames p)" "is_head (frames ?p ! y)" for y
  proof -
    have "y \<noteq> x" "forder (frames ?p ! y) = forder (frames p ! y)" "is_head (frames p ! y)"
      using arg_cong [OF bare [OF that(1)], of forder] arg_cong [OF bare [OF that(1)], of is_head] that(2)
      by (auto split: if_splits)
    with linkedD(6) [OF L that(1)] show ?thesis
      by (cases "zi y = zi x \<and> forder (frames p ! y) = k") (auto simp: del_def)
  qed
  ultimately show ?thesis
    using linkedD(2) [OF L] by (simp add: linked_def fields(1))
qed

end
