(* ===== verification/BuddyInv.thy ===== *)
theory BuddyInv
  imports BuddyLists
begin

text \<open>
  The blocks of the frame allocator as sets of frames. A block \<open>(x, k)\<close> covers \<open>2 ^ k\<close> frames from
  \<open>x\<close>; a tiling is a set of naturally aligned blocks inside the database that do not overlap. The
  invariant \<open>pool p L U\<close> joins the free lists \<open>L\<close> with the blocks \<open>U\<close> that callers hold: together
  they are a tiling, none is both free and held, each held block is marked allocated, and the
  count of managed frames is what the two sets cover.
\<close>

type_synonym block = "nat \<times> nat"

definition extent :: "block \<Rightarrow> nat set" where
  "extent b = {fst b ..< fst b + 2 ^ snd b}"

definition block_ok :: "nat \<Rightarrow> block \<Rightarrow> bool" where
  "block_ok n b \<longleftrightarrow> snd b \<le> MAX_ORDER \<and> 2 ^ snd b dvd fst b \<and> fst b + 2 ^ snd b \<le> n"

definition tiling :: "nat \<Rightarrow> block set \<Rightarrow> bool" where
  "tiling n B \<longleftrightarrow> (\<forall>b \<in> B. block_ok n b) \<and>
     pairwise (\<lambda>b c. extent b \<inter> extent c = {}) B"

definition blocks :: "lists \<Rightarrow> block set" where
  "blocks L = {(x, k). k \<le> MAX_ORDER \<and> x \<in> set (L (zi x) k)}"

definition pooled :: "lists \<Rightarrow> nat" where
  "pooled L = held L 0 + held L 1"

definition size_of :: "block set \<Rightarrow> nat" where
  "size_of B = (\<Sum>b\<in>B. 2 ^ snd b)"

definition cover :: "block set \<Rightarrow> nat set" where
  "cover B = (\<Union>b\<in>B. extent b)"

definition tiled :: "pmm \<Rightarrow> lists \<Rightarrow> block set \<Rightarrow> bool" where
  "tiled p L U \<longleftrightarrow> linked p L \<and> tiling (length (frames p)) (blocks L \<union> U) \<and> blocks L \<inter> U = {}"

definition pool :: "pmm \<Rightarrow> lists \<Rightarrow> block set \<Rightarrow> bool" where
  "pool p L U \<longleftrightarrow> tiled p L U \<and> (\<forall>b \<in> U. fstate (frames p ! fst b) = Allocated) \<and>
     managed_frames p = pooled L + size_of U"

subsection \<open>Tilings\<close>

lemma extent_nonempty: "fst b \<in> extent b"
  by (simp add: extent_def)

lemma tiling_subset: "tiling n B \<Longrightarrow> C \<subseteq> B \<Longrightarrow> tiling n C"
  unfolding tiling_def using pairwise_subset by blast

lemma tiling_insert:
  "b \<notin> B \<Longrightarrow> tiling n (insert b B) \<longleftrightarrow>
     block_ok n b \<and> tiling n B \<and> (\<forall>c \<in> B. extent b \<inter> extent c = {})"
  unfolding tiling_def pairwise_insert by (auto simp: Int_commute)

text \<open>Two blocks that share a frame are the same.\<close>

lemma tiling_same:
  assumes "tiling n B" "b \<in> B" "c \<in> B" "f \<in> extent b" "f \<in> extent c"
  shows "b = c"
  using assms unfolding tiling_def by (meson disjoint_iff pairwiseD)

text \<open>Replacing a block by others that cover the same frames.\<close>

lemma extent_halves: "extent (x, Suc k) = extent (x, k) \<union> extent (x + 2 ^ k, k)"
  by (auto simp: extent_def)

lemma halves_apart: "extent (x, k) \<inter> extent (x + 2 ^ k, k) = {}"
  by (auto simp: extent_def)

lemma tiling_split:
  assumes "tiling n (insert (x, Suc k) B)" "(x, Suc k) \<notin> B"
  shows "tiling n (insert (x, k) (insert (x + 2 ^ k, k) B)) \<and> (x, k) \<notin> insert (x + 2 ^ k, k) B \<and>
    (x + 2 ^ k, k) \<notin> B"
proof -
  have old: "block_ok n (x, Suc k)" "tiling n B" "\<forall>c \<in> B. extent (x, Suc k) \<inter> extent c = {}"
    using assms by (simp_all add: tiling_insert)
  have ok: "block_ok n (x, k)" "block_ok n (x + 2 ^ k, k)"
    using old(1) by (auto simp: block_ok_def intro: dvd_pow2_le [of k "Suc k"] dvd_add)
  have away: "\<forall>c \<in> B. extent (x, k) \<inter> extent c = {} \<and> extent (x + 2 ^ k, k) \<inter> extent c = {}"
    using old(3) extent_halves [of x k] by blast
  then have fresh: "(x, k) \<notin> B" "(x + 2 ^ k, k) \<notin> B"
    using extent_nonempty [of "(x, k)"] extent_nonempty [of "(x + 2 ^ k, k)"] by blast+
  moreover have "tiling n (insert (x + 2 ^ k, k) B)"
    using fresh ok old(2) away by (simp add: tiling_insert)
  moreover have "(x, k) \<notin> insert (x + 2 ^ k, k) B"
    using fresh by simp
  ultimately show ?thesis
    using ok away halves_apart [of x k] by (simp add: tiling_insert)
qed

lemma tiling_join:
  assumes "tiling n (insert (x, k) (insert (x + 2 ^ k, k) B))" "(x, k) \<notin> B" "(x + 2 ^ k, k) \<notin> B"
    "2 ^ Suc k dvd x" "k < MAX_ORDER"
  shows "tiling n (insert (x, Suc k) B) \<and> (x, Suc k) \<notin> B"
proof -
  have "(x, k) \<notin> insert (x + 2 ^ k, k) B"
    using assms(2) by simp
  with assms have old: "tiling n B" "block_ok n (x, k)" "block_ok n (x + 2 ^ k, k)"
    "\<forall>c \<in> B. extent (x, k) \<inter> extent c = {} \<and> extent (x + 2 ^ k, k) \<inter> extent c = {}"
    by (simp_all add: tiling_insert)
  then have away: "\<forall>c \<in> B. extent (x, Suc k) \<inter> extent c = {}"
    using extent_halves [of x k] by blast
  then have "(x, Suc k) \<notin> B"
    using extent_nonempty [of "(x, Suc k)"] by blast
  moreover have "block_ok n (x, Suc k)"
    using old(2,3) assms(4,5) by (simp add: block_ok_def)
  ultimately show ?thesis
    using old(1) away by (simp add: tiling_insert)
qed

subsection \<open>Sizes\<close>

lemma tiling_finite:
  assumes "tiling n B"
  shows "finite B"
proof (rule finite_subset)
  have "fst b \<le> n \<and> snd b \<le> MAX_ORDER" if "b \<in> B" for b
    using assms that unfolding tiling_def block_ok_def by fastforce
  then show "B \<subseteq> {..n} \<times> {..MAX_ORDER}"
    by (auto simp: mem_Times_iff)
qed simp

lemma size_of_insert:
  "tiling n B \<Longrightarrow> b \<notin> B \<Longrightarrow> size_of (insert b B) = size_of B + 2 ^ snd b"
  by (simp add: size_of_def tiling_finite)

text \<open>Blocks of a tiling do not overlap, so their sizes add up to the frames they cover.\<close>

lemma tiling_card:
  assumes "tiling n B"
  shows "card (cover B) = size_of B" "cover B \<subseteq> {..<n}" "size_of B \<le> n"
proof -
  have "card (cover B) = (\<Sum>b\<in>B. card (extent b))"
    unfolding cover_def using assms
    by (intro card_UN_disjoint)
      (auto simp: tiling_finite [OF assms] extent_def tiling_def dest: pairwiseD)
  then show card: "card (cover B) = size_of B"
    by (simp add: size_of_def extent_def)
  show sub: "cover B \<subseteq> {..<n}"
    using assms by (fastforce simp: cover_def extent_def tiling_def block_ok_def)
  show "size_of B \<le> n"
    using card_mono [OF _ sub] card by simp
qed

lemma cover_insert: "cover (insert b B) = extent b \<union> cover B"
  by (simp add: cover_def)

lemma cover_Un: "cover (B \<union> C) = cover B \<union> cover C"
  by (simp add: cover_def)

lemma cover_halves: "cover (insert (x, Suc k) B) = cover (insert (x, k) (insert (x + 2 ^ k, k) B))"
  by (simp add: cover_insert extent_halves Un_assoc)

subsection \<open>Buddies\<close>

lemma dvd_XOR_pow2:
  assumes "2 ^ k dvd (x::nat)"
  shows "x XOR 2 ^ k = (if 2 ^ Suc k dvd x then x + 2 ^ k else x - 2 ^ k)"
proof -
  obtain m where m: "x = m * 2 ^ k"
    using assms by (metis dvd_def mult.commute)
  have "x XOR 2 ^ k = push_bit k m XOR push_bit k 1"
    by (simp add: m push_bit_eq_mult)
  also have "\<dots> = push_bit k (m XOR 1)"
    by (simp add: push_bit_xor)
  also have "m XOR 1 = (if even m then m + 1 else m - 1)"
    by (simp add: xor_Suc_0_eq)
  also have "even m \<longleftrightarrow> 2 ^ Suc k dvd x"
    by (simp add: m mult.commute)
  finally show ?thesis
    by (simp add: m push_bit_eq_mult algebra_simps diff_mult_distrib)
qed

text \<open>The lower of two buddies, and what it is.\<close>

lemma buddy_cases:
  assumes "2 ^ k dvd (x::nat)"
  obtains (lower) "x XOR 2 ^ k = x + 2 ^ k" "min x (x XOR 2 ^ k) = x" "2 ^ Suc k dvd x"
  | (upper) "x = (x XOR 2 ^ k) + 2 ^ k" "min x (x XOR 2 ^ k) = x XOR 2 ^ k" "2 ^ Suc k dvd (x XOR 2 ^ k)"
proof (cases "2 ^ Suc k dvd x")
  case True
  with dvd_XOR_pow2 [OF assms] lower show thesis by simp
next
  case False
  obtain m where m: "x = m * 2 ^ k"
    using assms by (metis dvd_def mult.commute)
  with False have "odd m"
    by (auto simp: mult.commute)
  then obtain j where "m = Suc (2 * j)"
    by (metis oddE Suc_eq_plus1)
  then have "x = 2 ^ Suc k * j + 2 ^ k"
    by (simp add: m algebra_simps)
  with False dvd_XOR_pow2 [OF assms] upper show thesis by simp
qed

subsection \<open>Blocks and lists\<close>

lemma blocks_ins: "k \<le> MAX_ORDER \<Longrightarrow> blocks (ins x k L) = insert (x, k) (blocks L)"
  by (auto simp: blocks_def in_ins)

lemma blocks_del:
  assumes "linked p L"
  shows "blocks (del x k L) = blocks L - {(x, k)}"
proof -
  have "distinct (L z j)" if "z < 2" "j \<le> MAX_ORDER" for z j
    using linkedD(5) [OF assms that] by (simp add: zone_linked_def)
  then show ?thesis
    by (auto simp: blocks_def in_del)
qed

lemma blocks_iff: "(x, k) \<in> blocks L \<longleftrightarrow> k \<le> MAX_ORDER \<and> x \<in> set (L (zi x) k)"
  by (simp add: blocks_def)

lemma pooled_ins: "k \<le> MAX_ORDER \<Longrightarrow> pooled (ins x k L) = pooled L + 2 ^ k"
  using zi_less [of x] by (auto simp: pooled_def held_ins less_2_cases_iff)

lemma pooled_del:
  assumes "linked p L" "(x, k) \<in> blocks L"
  shows "pooled L = pooled (del x k L) + 2 ^ k"
  using held_del [of p L k x] assms zi_less [of x] by (auto simp: pooled_def blocks_iff less_2_cases_iff)

lemma pooled_size:
  assumes "linked p L"
  shows "pooled L = size_of (blocks L)"
proof -
  have z: "zone_linked p L 0 k" "zone_linked p L 1 k" if "k \<le> MAX_ORDER" for k
    using linkedD(5) [OF assms _ that] by simp_all
  have len: "length (L 0 k) + length (L 1 k) = card (set (L 0 k) \<union> set (L 1 k))" if "k \<le> MAX_ORDER" for k
    using z [OF that] linked_disjoint [OF assms, of 0 k _ 1 k] that
    by (subst card_Un_disjoint) (auto simp: zone_linked_def distinct_card)
  have blocks: "blocks L = prod.swap ` (SIGMA k : {..MAX_ORDER}. set (L 0 k) \<union> set (L 1 k))"
  proof -
    have "x \<in> set (L (zi x) k) \<longleftrightarrow> x \<in> set (L 0 k) \<union> set (L 1 k)" if "k \<le> MAX_ORDER" for x k
      using linked_on_list [OF assms _ that, of 0 x] linked_on_list [OF assms _ that, of 1 x]
        zi_less [of x] by (auto simp: on_list_def less_2_cases_iff)
    then show ?thesis
      by (auto simp: blocks_def image_iff)
  qed
  have "pooled L = (\<Sum>k\<le>MAX_ORDER. (length (L 0 k) + length (L 1 k)) * 2 ^ k)"
    by (simp add: pooled_def held_def sum.distrib add_mult_distrib)
  also have "\<dots> = (\<Sum>k\<le>MAX_ORDER. \<Sum>x\<in>set (L 0 k) \<union> set (L 1 k). 2 ^ k)"
    by (rule sum.cong) (simp_all add: len [simplified])
  also have "\<dots> = (\<Sum>b\<in>(SIGMA k : {..MAX_ORDER}. set (L 0 k) \<union> set (L 1 k)). 2 ^ fst b)"
    by (subst sum.Sigma) (auto simp: case_prod_unfold)
  also have "\<dots> = size_of (blocks L)"
    unfolding size_of_def blocks by (subst sum.reindex) (auto simp: inj_on_def)
  finally show ?thesis .
qed

lemma free_frames_pooled: "linked p L \<Longrightarrow> free_frames p = pooled L"
  by (simp add: free_frames_def pooled_def linkedD(4))

text \<open>What an operation on the free lists leaves alone.\<close>

definition kept :: "nat set \<Rightarrow> pmm \<Rightarrow> pmm \<Rightarrow> bool" where
  "kept V p p' \<longleftrightarrow> map fslab (frames p') = map fslab (frames p) \<and>
     managed_frames p' = managed_frames p \<and>
     (\<forall>x \<in> V. x < length (frames p) \<longrightarrow> fstate (frames p' ! x) = fstate (frames p ! x))"

lemma kept_refl [simp]: "kept V p p"
  by (simp add: kept_def)

lemma kept_length: "kept V p p' \<Longrightarrow> length (frames p') = length (frames p)"
  by (metis kept_def length_map)

lemma kept_trans: "kept V p q \<Longrightarrow> kept V q r \<Longrightarrow> kept V p r"
  by (auto simp: kept_def dest: map_eq_imp_length_eq)

lemma kept_subset: "kept V p q \<Longrightarrow> W \<subseteq> V \<Longrightarrow> kept W p q"
  by (auto simp: kept_def)

lemma map_fslab: "map fslab fs = map fslab (map bare fs)"
  by simp

lemma kept_upd_frame:
  assumes "x < length (frames p)" "fslab v = fslab (frames p ! x)" "x \<notin> V"
  shows "kept V p (p\<lparr>frames := (frames p)[x := v]\<rparr>)"
  using assms by (auto simp: kept_def managed_frames_def map_update nth_list_update intro!: nth_equalityI)

subsection \<open>Pushing and removing inside a tiling\<close>

lemma tiled_linked: "tiled p L U \<Longrightarrow> linked p L"
  by (simp add: tiled_def)

lemma tiled_held:
  assumes "tiled p L U" "(x, k) \<in> U"
  shows "x < length (frames p)" "\<not> is_head (frames p ! x)" "k \<le> MAX_ORDER" "2 ^ k dvd x"
    "x + 2 ^ k \<le> length (frames p)"
proof -
  have t: "tiling (length (frames p)) (blocks L \<union> U)"
    using assms by (simp add: tiled_def)
  with assms have "block_ok (length (frames p)) (x, k)"
    by (auto simp: tiling_def)
  then show "k \<le> MAX_ORDER" "2 ^ k dvd x" "x + 2 ^ k \<le> length (frames p)"
    by (simp_all add: block_ok_def)
  moreover have "0 < (2::nat) ^ k"
    by simp
  ultimately show x: "x < length (frames p)"
    by linarith
  show "\<not> is_head (frames p ! x)"
  proof
    assume "is_head (frames p ! x)"
    then have "(x, forder (frames p ! x)) \<in> blocks L"
      using linkedD(6) [OF tiled_linked [OF assms(1)] x] by (simp add: blocks_iff)
    moreover from this have "(x, forder (frames p ! x)) = (x, k)"
      using assms(2) by (intro tiling_same [OF t, of _ _ x]) (auto simp: extent_def)
    ultimately show False
      using assms by (auto simp: tiled_def)
  qed
qed

lemma tiled_apart:
  assumes "tiled p L (insert (x, k) U)" "(x, k) \<notin> U"
  shows "x \<notin> fst ` U"
proof
  assume "x \<in> fst ` U"
  then obtain j where j: "(x, j) \<in> U"
    by auto
  have "tiling (length (frames p)) (blocks L \<union> insert (x, k) U)"
    using assms by (simp add: tiled_def)
  then have "(x, k) = (x, j)"
    by (rule tiling_same [of _ _ _ _ x]) (use j in \<open>auto simp: extent_def\<close>)
  with assms(2) j show False by simp
qed

lemma pushed_kept:
  assumes L: "linked p L" and x: "x < length (frames p)" "\<not> is_head (frames p ! x)"
    and k: "k \<le> MAX_ORDER" and V: "x \<notin> V"
  shows "kept V p (pushed x k p)"
proof -
  have "map fslab (frames (pushed x k p)) = map fslab (frames p)"
    unfolding map_fslab [of "frames (pushed x k p)"] pushed_fields(4) [OF L x k refl]
    using x(1) by (auto simp: nth_list_update intro!: nth_equalityI)
  moreover have "fstate (frames (pushed x k p) ! y) = fstate (frames p ! y)"
    if "y \<in> V" "y < length (frames p)" for y
    using arg_cong [OF pushed_bare [OF L x k that(2)], of fstate] that V by auto
  ultimately show ?thesis
    by (simp add: kept_def managed_frames_def pushed_fields(5) [OF L x k refl])
qed

lemma removed_kept:
  assumes L: "linked p L" and x: "(x, k) \<in> blocks L"
  shows "kept V p (removed x k p)"
proof -
  have k: "k \<le> MAX_ORDER" "x \<in> set (L (zi x) k)"
    using x by (simp_all add: blocks_iff)
  have "map fslab (frames (removed x k p)) = map fslab (frames p)"
    unfolding map_fslab [of "frames (removed x k p)"] removed_fields(4) [OF L k refl refl]
    using links_of_removed(1) [OF L k] by (auto simp: nth_list_update intro!: nth_equalityI)
  moreover have "fstate (frames (removed x k p) ! y) = fstate (frames p ! y)"
    if "y < length (frames p)" for y
    using arg_cong [OF removed_bare [OF L k that], of fstate] by (auto split: if_splits)
  ultimately show ?thesis
    by (simp add: kept_def managed_frames_def removed_fields(5) [OF L k refl refl])
qed

lemma tiled_push:
  assumes T: "tiled p L (insert (x, k) U)" and new: "(x, k) \<notin> U"
  shows "push_block x k p = Some (pushed x k p)" "tiled (pushed x k p) (ins x k L) U"
    "kept (fst ` U) p (pushed x k p)" "pooled (ins x k L) = pooled L + 2 ^ k"
    "blocks (ins x k L) \<union> U = blocks L \<union> insert (x, k) U"
proof -
  note h = tiled_held [OF T insertI1]
  note L = tiled_linked [OF T]
  show "push_block x k p = Some (pushed x k p)"
    by (rule push_block_eq [OF L h(1-3)])
  show "kept (fst ` U) p (pushed x k p)"
    by (rule pushed_kept [OF L h(1-3) tiled_apart [OF T new]])
  show "pooled (ins x k L) = pooled L + 2 ^ k"
    by (rule pooled_ins [OF h(3)])
  show "blocks (ins x k L) \<union> U = blocks L \<union> insert (x, k) U"
    using blocks_ins [OF h(3)] by blast
  then show "tiled (pushed x k p) (ins x k L) U"
    using T new linked_pushed [OF L h(1-3)] pushed_fields(1) [OF L h(1-3) refl]
    by (auto simp: tiled_def blocks_ins [OF h(3)])
qed

lemma tiled_remove:
  assumes T: "tiled p L U" and x: "(x, k) \<in> blocks L"
  shows "remove_block x k p = Some (removed x k p)"
    "tiled (removed x k p) (del x k L) (insert (x, k) U)" "(x, k) \<notin> U"
    "kept V p (removed x k p)" "pooled L = pooled (del x k L) + 2 ^ k"
    "blocks (del x k L) \<union> insert (x, k) U = blocks L \<union> U"
proof -
  note L = tiled_linked [OF T]
  have k: "k \<le> MAX_ORDER" "x \<in> set (L (zi x) k)"
    using x by (simp_all add: blocks_iff)
  show "remove_block x k p = Some (removed x k p)"
    by (rule remove_block_eq [OF L k])
  show "(x, k) \<notin> U"
    using T x by (auto simp: tiled_def)
  show "kept V p (removed x k p)"
    by (rule removed_kept [OF L x])
  show "pooled L = pooled (del x k L) + 2 ^ k"
    by (rule pooled_del [OF L x])
  show "blocks (del x k L) \<union> insert (x, k) U = blocks L \<union> U"
    using x blocks_del [OF L] by blast
  then show "tiled (removed x k p) (del x k L) (insert (x, k) U)"
    using T linked_removed [OF L k] removed_fields(1) [OF L k refl refl]
    by (auto simp: tiled_def blocks_del [OF L])
qed

end
