(* ===== verification/BuddyOps.thy ===== *)
theory BuddyOps
  imports BuddyInv
begin

text \<open>
  The operations of the frame allocator keep the invariant: allocation moves a block from the free
  lists to the caller, freeing moves it back, joined with its free buddies, and making a range
  available adds blocks that cover exactly that range. Along the way none of them panics.
\<close>

subsection \<open>Allocation\<close>

lemma find_order_spec:
  assumes "length heads = ORDER_COUNT"
  shows "(find_order heads k = Some None \<and> (\<forall>j. k \<le> j \<and> j \<le> MAX_ORDER \<longrightarrow> heads ! j = NO_FRAME)) \<or>
    (\<exists>f. find_order heads k = Some (Some f) \<and> k \<le> f \<and> f \<le> MAX_ORDER \<and> heads ! f \<noteq> NO_FRAME)"
  using assms
proof (induction heads k rule: find_order.induct)
  case (1 heads found)
  show ?case
  proof (cases "found \<le> MAX_ORDER \<and> heads ! found = NO_FRAME")
    case True
    then have g: "get heads found = Some NO_FRAME" "found \<le> MAX_ORDER"
      using 1(2) by (auto simp: get_def ORDER_COUNT_def)
    have e: "find_order heads found = find_order heads (found + 1)"
      by (subst find_order.simps) (simp add: g)
    have step: "found \<le> j \<longleftrightarrow> j = found \<or> found + 1 \<le> j" for j
      by auto
    show ?thesis
      using 1(1) [OF g(2,1) refl 1(2)] True unfolding e by (metis step)
  next
    case False
    then show ?thesis
      using 1(2) by (subst (1 2) find_order.simps) (auto simp: get_def ORDER_COUNT_def)
  qed
qed

lemma split_down_ok:
  assumes "tiled p L (insert (x, c) U)" "(x, c) \<notin> U" "k \<le> c"
  shows "\<exists>p' L'. split_down x c k p = Some p' \<and> tiled p' L' (insert (x, k) U) \<and> (x, k) \<notin> U \<and>
    kept (insert x (fst ` U)) p p' \<and> pooled L' + 2 ^ k = pooled L + 2 ^ c \<and>
    cover (blocks L' \<union> insert (x, k) U) = cover (blocks L \<union> insert (x, c) U)"
  using assms
proof (induction c arbitrary: p L)
  case 0
  then show ?case by auto
next
  case (Suc c)
  show ?case
  proof (cases "k = Suc c")
    case True
    with Suc.prems show ?thesis by auto
  next
    case False
    let ?b = "x + 2 ^ c"
    note h = tiled_held [OF Suc.prems(1) insertI1]
    have "(x, Suc c) \<notin> blocks L"
      using Suc.prems(1) by (auto simp: tiled_def)
    then have "tiling (length (frames p)) (insert (x, c) (insert (?b, c) (blocks L \<union> U))) \<and>
        (x, c) \<notin> insert (?b, c) (blocks L \<union> U) \<and> (?b, c) \<notin> blocks L \<union> U"
      using Suc.prems(1,2) by (intro tiling_split) (auto simp: tiled_def)
    then have T: "tiled p L (insert (?b, c) (insert (x, c) U))" and new: "(?b, c) \<notin> insert (x, c) U"
      "(x, c) \<notin> U"
      using Suc.prems(1) by (auto simp: tiled_def insert_commute)
    note push = tiled_push [OF T new(1)]
    obtain p' L' where r: "split_down x c k (pushed ?b c p) = Some p'" "tiled p' L' (insert (x, k) U)"
      "(x, k) \<notin> U" "kept (insert x (fst ` U)) (pushed ?b c p) p'"
      "pooled L' + 2 ^ k = pooled (ins ?b c L) + 2 ^ c"
      "cover (blocks L' \<union> insert (x, k) U) = cover (blocks (ins ?b c L) \<union> insert (x, c) U)"
      using Suc.IH [OF push(2) new(2)] False Suc.prems(3) by auto
    have "length (frames p) < 2 ^ 32"
      using linkedD(2) [OF tiled_linked [OF Suc.prems(1)]] by (simp add: MAX_FRAMES_def)
    then have "checked_add 32 x (2 ^ c) = Some ?b"
      using h(5) by (simp add: checked_add_def max_of_def)
    then have "split_down x (Suc c) k p = Some p'"
      using push(1) r(1) False Suc.prems(3) by simp
    moreover have "cover (blocks L' \<union> insert (x, k) U) = cover (blocks L \<union> insert (x, Suc c) U)"
      unfolding r(6) push(5) by (simp add: cover_Un cover_halves insert_commute)
    ultimately show ?thesis
      using r push(3,4) by (auto intro: kept_trans)
  qed
qed

text \<open>A block on the lists of a zone lies in that zone, and all of it does.\<close>

lemma no_straddle:
  assumes "2 ^ k dvd x" "k \<le> MAX_ORDER" "x < DMA32_LIMIT_PFN"
  shows "x + 2 ^ k \<le> DMA32_LIMIT_PFN"
proof -
  have "(2::nat) ^ k dvd 2 ^ 20"
    by (rule le_imp_power_dvd) (use assms(2) in \<open>simp add: MAX_ORDER_def\<close>)
  then have "2 ^ k dvd DMA32_LIMIT_PFN"
    by (simp add: DMA32_LIMIT_PFN_def FRAME_SIZE_def)
  with assms obtain a b where ab: "x = 2 ^ k * a" "DMA32_LIMIT_PFN = 2 ^ k * b"
    by (auto simp: dvd_def)
  have "2 ^ k * a < 2 ^ k * b"
    using assms(3) unfolding ab .
  then have "a + 1 \<le> b"
    by simp
  then have "2 ^ k * (a + 1) \<le> 2 ^ k * b"
    by (rule mult_le_mono2)
  then show ?thesis
    by (simp add: ab)
qed

definition none_from :: "lists \<Rightarrow> nat \<Rightarrow> nat \<Rightarrow> bool" where
  "none_from L k z \<longleftrightarrow> (\<forall>j. k \<le> j \<and> j \<le> MAX_ORDER \<longrightarrow> L z j = [])"

lemma list_empty_iff:
  assumes "linked p L" "z < 2" "j \<le> MAX_ORDER"
  shows "free_lists (zones p ! z) ! j = NO_FRAME \<longleftrightarrow> L z j = []"
proof (cases "L z j")
  case Nil
  then show ?thesis
    by (simp add: list_head [OF assms])
next
  case (Cons y ys)
  then have "y < length (frames p)"
    using linked_on_list [OF assms, of y] by (simp add: on_list_def)
  then show ?thesis
    using linked_not_null [OF assms(1)] by (simp add: list_head [OF assms] Cons)
qed

lemma allocated_marked:
  assumes T: "tiled p L (insert (x, k) U)" and new: "(x, k) \<notin> U"
    and v: "\<not> is_head v" "fslab v = fslab (frames p ! x)"
  shows "tiled (p\<lparr>frames := (frames p)[x := v]\<rparr>) L (insert (x, k) U)"
    "kept (fst ` U) p (p\<lparr>frames := (frames p)[x := v]\<rparr>)"
proof -
  note h = tiled_held [OF T insertI1]
  show "tiled (p\<lparr>frames := (frames p)[x := v]\<rparr>) L (insert (x, k) U)"
    using T linked_upd_frame [OF tiled_linked [OF T] h(1,2) v(1)] by (simp add: tiled_def)
  show "kept (fst ` U) p (p\<lparr>frames := (frames p)[x := v]\<rparr>)"
    by (rule kept_upd_frame [OF h(1) v(2) tiled_apart [OF T new]])
qed

lemma allocate_from_ok:
  assumes T: "tiled p L U" and k: "k \<le> MAX_ORDER"
  shows "(allocate_from k zone p = Some (None, p) \<and> none_from L k (zone_index zone)) \<or>
    (\<exists>x p' L'. allocate_from k zone p = Some (Some x, p') \<and> tiled p' L' (insert (x, k) U) \<and>
       (x, k) \<notin> U \<and> fstate (frames p' ! x) = Allocated \<and> kept (fst ` U) p p' \<and>
       pooled L' + 2 ^ k = pooled L \<and> zi x = zone_index zone \<and>
       cover (blocks L' \<union> insert (x, k) U) = cover (blocks L \<union> U))"
proof -
  let ?z = "zone_index zone" and ?heads = "free_lists (zones p ! zone_index zone)"
  note L = tiled_linked [OF T]
  have z: "?z < 2"
    by (cases zone) auto
  note heads = linkedD(3) [OF L z]
  consider "find_order ?heads k = Some None" "\<forall>j. k \<le> j \<and> j \<le> MAX_ORDER \<longrightarrow> ?heads ! j = NO_FRAME"
    | f where "find_order ?heads k = Some (Some f)" "k \<le> f" "f \<le> MAX_ORDER" "?heads ! f \<noteq> NO_FRAME"
    using find_order_spec [OF heads, of k] by blast
  then show ?thesis
  proof cases
    case 1
    then have "none_from L k ?z"
      using list_empty_iff [OF L z] by (simp add: none_from_def)
    with 1(1) show ?thesis
      by (simp add: allocate_from_def Let_def)
  next
    case (2 f)
    define x where "x = ?heads ! f"
    have "L ?z f \<noteq> []"
      using 2(4) list_empty_iff [OF L z 2(3)] by simp
    then have x: "x \<in> set (L ?z f)"
      using list_head [OF L z 2(3)] by (auto simp: x_def neq_Nil_conv)
    then have zx: "zi x = ?z"
      using linked_on_list [OF L z 2(3)] by (simp add: on_list_def)
    with x 2(3) have "(x, f) \<in> blocks L"
      by (simp add: blocks_iff)
    note rem = tiled_remove [OF T this]
    obtain p1 L1 where s: "split_down x f k (removed x f p) = Some p1" "tiled p1 L1 (insert (x, k) U)"
      "(x, k) \<notin> U" "kept (insert x (fst ` U)) (removed x f p) p1"
      "pooled L1 + 2 ^ k = pooled (del x f L) + 2 ^ f"
      "cover (blocks L1 \<union> insert (x, k) U) = cover (blocks (del x f L) \<union> insert (x, f) U)"
      using split_down_ok [OF rem(2,3) 2(2)] by blast
    note h = tiled_held [OF s(2) insertI1]
    let ?v = "(frames p1 ! x)\<lparr>fstate := Allocated, forder := k mod 256, is_head := False, refcount := 1\<rparr>"
    let ?p = "p1\<lparr>frames := (frames p1)[x := ?v]\<rparr>"
    have "allocate_from k zone p = Some (Some x, ?p)"
      using 2(1,3) rem(1) s(1) h(1) heads
      by (simp add: allocate_from_def Let_def get_def upd_frame_eq ORDER_COUNT_def x_def)
    moreover have "tiled ?p L1 (insert (x, k) U)" "kept (fst ` U) p1 ?p"
      using allocated_marked [OF s(2,3), of ?v] by simp_all
    moreover have "kept (fst ` U) p p1"
      using rem(4) kept_subset [OF s(4)] kept_trans by blast
    ultimately show ?thesis
      using s(3,5,6) rem(5,6) zx h(1) kept_trans [of "fst ` U" p p1 ?p] by fastforce
  qed
qed

text \<open>The zones a request may be served from.\<close>

definition serves :: "zone \<Rightarrow> nat \<Rightarrow> bool" where
  "serves zone z \<longleftrightarrow> z = 0 \<or> (zone = Normal \<and> z = 1)"

lemma allocate_ok:
  assumes T: "tiled p L U" and k: "k \<le> MAX_ORDER"
  shows "(allocate k zone p = Some (Error OutOfMemory, p) \<and> (\<forall>z. serves zone z \<longrightarrow> none_from L k z)) \<or>
    (\<exists>x p' L'. allocate k zone p = Some (Ok x, p') \<and> tiled p' L' (insert (x, k) U) \<and>
       (x, k) \<notin> U \<and> fstate (frames p' ! x) = Allocated \<and> kept (fst ` U) p p' \<and>
       pooled L' + 2 ^ k = pooled L \<and> serves zone (zi x) \<and>
       cover (blocks L' \<union> insert (x, k) U) = cover (blocks L \<union> U))"
proof (cases "\<exists>x p'. allocate_from k zone p = Some (Some x, p')")
  case True
  then show ?thesis
    using allocate_from_ok [OF T k, of zone] k
    by (cases zone) (auto simp: allocate_def serves_def)
next
  case False
  then have a: "allocate_from k zone p = Some (None, p)" "none_from L k (zone_index zone)"
    using allocate_from_ok [OF T k, of zone] by blast+
  show ?thesis
  proof (cases zone)
    case Dma32
    with a k show ?thesis
      by (auto simp: allocate_def serves_def)
  next
    case Normal
    have "(allocate_from k Dma32 p = Some (None, p) \<and> none_from L k 0) \<or>
      (\<exists>x p' L'. allocate_from k Dma32 p = Some (Some x, p') \<and> tiled p' L' (insert (x, k) U) \<and>
         (x, k) \<notin> U \<and> fstate (frames p' ! x) = Allocated \<and> kept (fst ` U) p p' \<and>
         pooled L' + 2 ^ k = pooled L \<and> zi x = 0 \<and>
         cover (blocks L' \<union> insert (x, k) U) = cover (blocks L \<union> U))"
      using allocate_from_ok [OF T k, of Dma32] by simp
    with a k Normal show ?thesis
      by (auto simp: allocate_def serves_def)
  qed
qed

lemma tiled_size: "tiled p L U \<Longrightarrow> b \<notin> U \<Longrightarrow> size_of (insert b U) = size_of U + 2 ^ snd b"
  by (metis Un_upper2 size_of_insert tiled_def tiling_subset)

subsection \<open>Freeing\<close>

text \<open>The boundary check of the merging loop never stops it: aligned blocks do not straddle.\<close>

lemma merged_in_zone:
  assumes "2 ^ Suc k dvd m" "k < MAX_ORDER"
  shows "(if m < DMA32_LIMIT_PFN
      then map_option (\<lambda>e. DMA32_LIMIT_PFN < e) (checked_add 32 m (2 * 2 ^ k)) else Some False)
    = Some False"
proof (cases "m < DMA32_LIMIT_PFN")
  case True
  then have "m + 2 * 2 ^ k \<le> DMA32_LIMIT_PFN"
    using no_straddle [of "Suc k" m] assms by simp
  then show ?thesis
    by (simp add: checked_add_def DMA32_LIMIT_PFN_def FRAME_SIZE_def max_of_def)
qed simp

lemma mergeable_free:
  assumes "linked p L" "get (frames p) b = Some f" "mergeable f k" "k \<le> MAX_ORDER"
  shows "(b, k) \<in> blocks L"
  using assms linkedD(6) [OF assms(1), of b] by (auto simp: get_Some mergeable_def blocks_iff)

lemma free_mergeable:
  assumes "linked p L" "(b, k) \<in> blocks L"
  shows "\<exists>f. get (frames p) b = Some f \<and> mergeable f k"
  using linked_on_list [OF assms(1) zi_less, of k b b] assms(2)
  by (auto simp: blocks_iff on_list_def get_def mergeable_def)

lemma join_buddies:
  assumes T: "tiled p L (insert (x, k) U)" and new: "(x, k) \<notin> U" and k: "k < MAX_ORDER"
    and b: "(x XOR 2 ^ k, k) \<in> blocks L"
  shows "tiled (removed (x XOR 2 ^ k) k p) (del (x XOR 2 ^ k) k L) (insert (min x (x XOR 2 ^ k), Suc k) U)"
    "(min x (x XOR 2 ^ k), Suc k) \<notin> U" "2 ^ Suc k dvd min x (x XOR 2 ^ k)"
    "cover (blocks (del (x XOR 2 ^ k) k L) \<union> insert (min x (x XOR 2 ^ k), Suc k) U) =
       cover (blocks L \<union> insert (x, k) U)"
    "extent (x, k) \<subseteq> extent (min x (x XOR 2 ^ k), Suc k)"
proof -
  let ?b = "x XOR 2 ^ k" and ?p = "removed (x XOR 2 ^ k) k p" and ?L = "del (x XOR 2 ^ k) k L"
  let ?m = "min x ?b" and ?B = "blocks ?L \<union> U"
  note rem = tiled_remove [OF T b]
  have notin: "(x, k) \<notin> ?B" "(?b, k) \<notin> ?B"
    using rem(2,3) new by (auto simp: tiled_def)
  have t: "tiling (length (frames ?p)) (insert (x, k) (insert (?b, k) ?B))"
    using rem(2) by (simp add: tiled_def insert_commute)
  have joined: "tiling (length (frames ?p)) (insert (?m, Suc k) ?B) \<and> (?m, Suc k) \<notin> ?B \<and>
      2 ^ Suc k dvd ?m \<and> extent (?m, Suc k) = extent (x, k) \<union> extent (?b, k)"
  proof (rule buddy_cases [OF tiled_held(4) [OF T insertI1]])
    assume e: "?b = x + 2 ^ k" "?m = x" "2 ^ Suc k dvd x"
    show ?thesis
      using tiling_join [of _ x k ?B] t notin e(3) k unfolding e(1,2) by (simp add: extent_halves)
  next
    assume e: "x = ?b + 2 ^ k" "?m = ?b" "2 ^ Suc k dvd ?b"
    have "tiling (length (frames ?p)) (insert (?b, k) (insert (?b + 2 ^ k, k) ?B))"
      using t unfolding e(1) [symmetric] by (simp add: insert_commute)
    with tiling_join [of _ ?b k ?B] notin e(3) k show ?thesis
      unfolding e(2) e(1) [symmetric] by (metis Un_commute e(1) extent_halves)
  qed
  then show "tiled ?p ?L (insert (?m, Suc k) U)" "(?m, Suc k) \<notin> U" "2 ^ Suc k dvd ?m"
    "extent (x, k) \<subseteq> extent (?m, Suc k)"
    using rem(2) by (auto simp: tiled_def)
  show "cover (blocks ?L \<union> insert (?m, Suc k) U) = cover (blocks L \<union> insert (x, k) U)"
    unfolding rem(6) [symmetric] using joined by (auto simp: cover_Un cover_insert)
qed

lemma coalesce_ok:
  assumes "tiled p L (insert (x, k) U)" "(x, k) \<notin> U"
  shows "\<exists>y j p' L'. coalesce x k p = Some (y, j, p') \<and> tiled p' L' (insert (y, j) U) \<and> (y, j) \<notin> U \<and>
    kept V p p' \<and> pooled L' + 2 ^ j = pooled L + 2 ^ k \<and>
    cover (blocks L' \<union> insert (y, j) U) = cover (blocks L \<union> insert (x, k) U) \<and>
    extent (x, k) \<subseteq> extent (y, j) \<and> (j < MAX_ORDER \<longrightarrow> (y XOR 2 ^ j, j) \<notin> blocks L')"
  using assms
proof (induction "MAX_ORDER - k" arbitrary: p L x k)
  case 0
  then have "k = MAX_ORDER"
    using tiled_held(3) [OF 0(2) insertI1] by simp
  then have "coalesce x k p = Some (x, k, p)"
    by (subst coalesce.simps) simp
  with 0 \<open>k = MAX_ORDER\<close> show ?case by auto
next
  case (Suc n)
  let ?b = "x XOR 2 ^ k"
  note L = tiled_linked [OF Suc.prems(1)]
  have k: "k < MAX_ORDER"
    using Suc.hyps(2) by linarith
  show ?case
  proof (cases "(?b, k) \<in> blocks L")
    case False
    then have "case get (frames p) ?b of None \<Rightarrow> True | Some f \<Rightarrow> \<not> mergeable f k"
      using mergeable_free [OF L] k by (auto split: option.split)
    then have "coalesce x k p = Some (x, k, p)"
      by (subst coalesce.simps) (auto simp: Let_def split: option.splits)
    with False Suc.prems show ?thesis by auto
  next
    case True
    note rem = tiled_remove [OF Suc.prems(1) True]
    note join = join_buddies [OF Suc.prems k True]
    obtain f where f: "get (frames p) ?b = Some f" "mergeable f k"
      using free_mergeable [OF L True] by blast
    have e: "coalesce x k p = coalesce (min x ?b) (Suc k) (removed ?b k p)"
      using k f rem(1) merged_in_zone [OF join(3) k] by (subst coalesce.simps) (simp add: Let_def)
    have n: "n = MAX_ORDER - Suc k"
      using Suc.hyps(2) by simp
    obtain y j p' L' where r: "coalesce (min x ?b) (Suc k) (removed ?b k p) = Some (y, j, p')"
      "tiled p' L' (insert (y, j) U)" "(y, j) \<notin> U" "kept V (removed ?b k p) p'"
      "pooled L' + 2 ^ j = pooled (del ?b k L) + 2 ^ Suc k"
      "cover (blocks L' \<union> insert (y, j) U) = cover (blocks (del ?b k L) \<union> insert (min x ?b, Suc k) U)"
      "extent (min x ?b, Suc k) \<subseteq> extent (y, j)" "j < MAX_ORDER \<longrightarrow> (y XOR 2 ^ j, j) \<notin> blocks L'"
      using Suc.hyps(1) [OF n join(1,2)] by blast
    have "kept V p p'"
      using rem(4) r(4) kept_trans by blast
    moreover have "pooled L' + 2 ^ j = pooled L + 2 ^ k"
      using r(5) rem(5) by simp
    moreover have "extent (x, k) \<subseteq> extent (y, j)"
      using join(5) r(7) by (rule subset_trans)
    ultimately show ?thesis
      using e r(1-3,6,8) join(4) by auto
  qed
qed

lemma free_block_ok:
  assumes P: "pool p L (insert (x, k) U)" and new: "(x, k) \<notin> U"
  shows "\<exists>p' L'. free_block x k p = Some (Ok (), p') \<and> pool p' L' U \<and>
    pooled L' = pooled L + 2 ^ k \<and> kept (fst ` U) p p' \<and>
    cover (blocks L' \<union> U) = cover (blocks L \<union> insert (x, k) U) \<and>
    (\<exists>y j. (y, j) \<in> blocks L' \<and> extent (x, k) \<subseteq> extent (y, j) \<and>
       (j < MAX_ORDER \<longrightarrow> (y XOR 2 ^ j, j) \<notin> blocks L'))"
proof -
  have T: "tiled p L (insert (x, k) U)" and st: "fstate (frames p ! x) = Allocated"
    "\<forall>b \<in> U. fstate (frames p ! fst b) = Allocated"
    using P by (auto simp: pool_def)
  note h = tiled_held [OF T insertI1]
  let ?v = "(frames p ! x)\<lparr>refcount := 0, fowner := NO_OWNER\<rparr>"
  let ?p = "p\<lparr>frames := (frames p)[x := ?v]\<rparr>"
  have m: "tiled ?p L (insert (x, k) U)" "kept (fst ` U) p ?p"
    using allocated_marked [OF T new, of ?v] h(2) by simp_all
  obtain y j p1 L1 where c: "coalesce x k ?p = Some (y, j, p1)" "tiled p1 L1 (insert (y, j) U)"
    "(y, j) \<notin> U" "kept (fst ` U) ?p p1" "pooled L1 + 2 ^ j = pooled L + 2 ^ k"
    "cover (blocks L1 \<union> insert (y, j) U) = cover (blocks L \<union> insert (x, k) U)"
    "extent (x, k) \<subseteq> extent (y, j)" "j < MAX_ORDER \<longrightarrow> (y XOR 2 ^ j, j) \<notin> blocks L1"
    using coalesce_ok [OF m(1) new, of "fst ` U"] by auto
  note push = tiled_push [OF c(2,3)]
  have kept: "kept (fst ` U) p (pushed y j p1)"
    using kept_trans [OF kept_trans [OF m(2) c(4)] push(3)] .
  have "y XOR 2 ^ j \<noteq> y"
    using tiled_held(4) [OF c(2) insertI1] by (auto elim: buddy_cases)
  then have top: "(y, j) \<in> blocks (ins y j L1) \<and> extent (x, k) \<subseteq> extent (y, j) \<and>
      (j < MAX_ORDER \<longrightarrow> (y XOR 2 ^ j, j) \<notin> blocks (ins y j L1))"
    using c(7,8) blocks_ins [OF tiled_held(3) [OF c(2) insertI1]] by auto
  have "free_block x k p = Some (Ok (), pushed y j p1)"
    using h st c(1) push(1) by (simp add: free_block_def get_def upd_frame_eq)
  moreover have "managed_frames p = pooled L + (size_of U + 2 ^ k)"
    using P tiled_size [OF push(2) new] by (simp add: pool_def)
  then have "pool (pushed y j p1) (ins y j L1) U"
    using push(2,4) c(5) st(2) kept tiled_held(1) [OF T] by (fastforce simp: pool_def kept_def)
  moreover have "pooled (ins y j L1) = pooled L + 2 ^ k"
    "cover (blocks (ins y j L1) \<union> U) = cover (blocks L \<union> insert (x, k) U)"
    using c(5,6) push(4,5) by simp_all
  ultimately show ?thesis
    using kept top by blast
qed

subsection \<open>Making a range available\<close>

lemma frame_numbers:
  assumes "linked p L" "x < length (frames p)" "k \<le> MAX_ORDER"
  shows "checked_add 32 x (2 ^ k) = Some (x + 2 ^ k)"
proof -
  have "(2::nat) ^ k \<le> 2 ^ 10"
    by (rule power_increasing) (use assms(3) in \<open>simp_all add: MAX_ORDER_def\<close>)
  then show ?thesis
    using linkedD(2) [OF assms(1)] assms(2)
    by (simp add: checked_add_def max_of_def MAX_FRAMES_def)
qed

lemma mark_free_ok:
  assumes "linked p L" "x + n \<le> length (frames p)" "managed_frames p + n \<le> max_of 64"
    "\<And>y. x \<le> y \<Longrightarrow> y < x + n \<Longrightarrow> \<not> is_head (frames p ! y)"
  shows "\<exists>p'. mark_free n x p = Some p' \<and> linked p' L \<and> managed_frames p' = managed_frames p + n \<and>
    map fslab (frames p') = map fslab (frames p) \<and>
    (\<forall>y. y < x \<or> x + n \<le> y \<longrightarrow> frames p' ! y = frames p ! y)"
  using assms
proof (induction n arbitrary: x p)
  case 0
  then show ?case by simp
next
  case (Suc n)
  define q where "q = p\<lparr>frames := (frames p)[x := (frames p ! x)\<lparr>fstate := Free, refcount := 0\<rparr>]\<rparr>"
  define r where "r = upd_zone (zi x) (\<lambda>s. s\<lparr>zone_managed := zone_managed (zones p ! zi x) + 1\<rparr>) q"
  have x: "x < length (frames p)" "\<not> is_head (frames p ! x)"
    using Suc.prems(2) Suc.prems(4) [of x] by auto
  have q: "linked q L"
    unfolding q_def by (rule linked_upd_frame [OF Suc.prems(1) x]) (simp add: x(2))
  have fields: "free_lists (zones r ! z) = free_lists (zones q ! z)"
    "zone_free (zones r ! z) = zone_free (zones q ! z)" "frames r = frames q"
    "length (zones r) = length (zones q)" for z
    by (auto simp: r_def upd_zone_def nth_list_update_if)
  have r: "linked r L"
    using q unfolding linked_def zone_linked_def on_list_def fields .
  have m: "managed_frames r = managed_frames p + 1" "zone_managed (zones p ! zi x) \<le> managed_frames p"
    using linkedD(1) [OF Suc.prems(1)] zi_less [of x]
    by (auto simp: managed_frames_def r_def q_def upd_zone_def nth_list_update less_2_cases_iff)
  have fr: "length (frames r) = length (frames p)" "\<And>y. y \<noteq> x \<Longrightarrow> frames r ! y = frames p ! y"
    "map fslab (frames r) = map fslab (frames p)"
    using x(1) by (auto simp: fields q_def nth_list_update intro!: nth_equalityI)
  have "\<exists>p'. mark_free n (x + 1) r = Some p' \<and> linked p' L \<and> managed_frames p' = managed_frames r + n \<and>
      map fslab (frames p') = map fslab (frames r) \<and>
      (\<forall>y. y < x + 1 \<or> x + 1 + n \<le> y \<longrightarrow> frames p' ! y = frames r ! y)"
    using Suc.prems m(1) fr(1,2) by (intro Suc.IH [OF r]) auto
  moreover have "mark_free (Suc n) x p = mark_free n (x + 1) r"
    using x(1) m(2) Suc.prems(3) by (simp add: upd_frame_eq Let_def checked_add_def r_def q_def)
  ultimately show ?case
    using m(1) fr(2,3) by auto
qed

lemma fit_order_ok:
  assumes "linked p L" "x < e" "e \<le> length (frames p)" "k \<le> MAX_ORDER"
  shows "\<exists>j. fit_order x e k = Some j \<and> j \<le> MAX_ORDER \<and> 2 ^ j dvd x \<and> x + 2 ^ j \<le> e"
  using assms(4)
proof (induction k)
  case 0
  with assms(2) show ?case by simp
next
  case (Suc k)
  have "checked_add 32 x (2 ^ Suc k) = Some (x + 2 ^ Suc k)"
    using frame_numbers [OF assms(1) _ Suc.prems, of x] assms(2,3) by simp
  with Suc show ?case
    by (auto simp: Let_def)
qed

lemma zone_order_ok:
  assumes "linked p L" "x < length (frames p)" "2 ^ k dvd x" "k \<le> MAX_ORDER"
  shows "zone_order x k = Some k"
proof (cases k)
  case (Suc j)
  then show ?thesis
    using frame_numbers [OF assms(1,2,4)] no_straddle [OF assms(3,4)] by auto
qed simp

lemma carve_ok:
  assumes "tiled p L U" "e \<le> length (frames p)" "{x..<e} \<inter> cover (blocks L \<union> U) = {}" "x \<le> e"
  shows "\<exists>p' L'. carve x e p = Some p' \<and> tiled p' L' U \<and> kept (fst ` U) p p' \<and>
    pooled L' = pooled L + (e - x) \<and> cover (blocks L') = cover (blocks L) \<union> {x..<e}"
  using assms
proof (induction "e - x" arbitrary: x p L rule: less_induct)
  case less
  show ?case
  proof (cases "x < e")
    case False
    with less.prems show ?thesis
      by (subst carve.simps) auto
  next
    case True
    note L = tiled_linked [OF less.prems(1)]
    obtain k where k: "fit_order x e MAX_ORDER = Some k" "k \<le> MAX_ORDER" "2 ^ k dvd x" "x + 2 ^ k \<le> e"
      using fit_order_ok [OF L True less.prems(2) order_refl] by blast
    have len: "x < length (frames p)"
      using True less.prems(2) by simp
    have sub: "extent (x, k) \<subseteq> {x..<e}"
      using k(4) by (auto simp: extent_def)
    have away: "\<forall>c \<in> blocks L \<union> U. extent (x, k) \<inter> extent c = {}"
      using sub less.prems(3) unfolding cover_def by blast
    then have new: "(x, k) \<notin> blocks L \<union> U"
      using extent_nonempty [of "(x, k)"] by blast
    then have T: "tiled p L (insert (x, k) U)"
      using less.prems(1,2) k away by (auto simp: tiled_def tiling_insert block_ok_def)
    note push = tiled_push [OF T] and kx = tiled_held [OF T insertI1]
    have new': "(x, k) \<notin> U"
      using new by simp
    let ?p = "pushed x k p" and ?L = "ins x k L"
    have cover': "cover (blocks ?L) = cover (blocks L) \<union> extent (x, k)"
      by (auto simp: blocks_ins [OF k(2)] cover_def)
    have rest: "{x..<e} = extent (x, k) \<union> {x + 2 ^ k..<e}" "extent (x, k) \<inter> {x + 2 ^ k..<e} = {}"
      using k(4) by (auto simp: extent_def)
    have "\<exists>p' L'. carve (x + 2 ^ k) e ?p = Some p' \<and> tiled p' L' U \<and> kept (fst ` U) ?p p' \<and>
        pooled L' = pooled ?L + (e - (x + 2 ^ k)) \<and>
        cover (blocks L') = cover (blocks ?L) \<union> {x + 2 ^ k..<e}"
    proof (rule less.hyps [OF _ push(2) [OF new']])
      show "e - (x + 2 ^ k) < e - x"
        by (rule diff_less_mono2) (use True in simp_all)
      show "e \<le> length (frames ?p)"
        using less.prems(2) kept_length [OF push(3) [OF new']] by simp
      show "{x + 2 ^ k..<e} \<inter> cover (blocks ?L \<union> U) = {}"
        using less.prems(3) rest by (auto simp: blocks_ins [OF k(2)] cover_def)
    qed (rule k(4))
    moreover have "carve x e p = carve (x + 2 ^ k) e ?p"
      using True k(1) zone_order_ok [OF L len k(3,2)] push(1) [OF new'] frame_numbers [OF L len k(2)]
      by (subst carve.simps) simp
    moreover have "pooled ?L + (e - (x + 2 ^ k)) = pooled L + (e - x)"
      using push(4) [OF new'] k(4) by simp
    ultimately show ?thesis
      using kept_trans [OF push(3) [OF new']] cover' rest(1) by (auto simp: Un_assoc)
  qed
qed

lemma add_free_range_ok:
  assumes P: "pool p L U" and fresh: "{x..<e} \<inter> cover (blocks L \<union> U) = {}" "e \<le> length (frames p)" "x \<le> e"
  shows "\<exists>p' L'. add_free_range x e p = Some p' \<and> pool p' L' U \<and> length (frames p') = length (frames p) \<and>
    cover (blocks L') = cover (blocks L) \<union> {x..<e} \<and> managed_frames p' = managed_frames p + (e - x)"
proof -
  have T: "tiled p L U" and m: "managed_frames p = pooled L + size_of U"
    using P by (simp_all add: pool_def)
  note L = tiled_linked [OF T]
  have n: "length (frames p) \<le> MAX_FRAMES"
    by (rule linkedD(2) [OF L])
  have head: "\<not> is_head (frames p ! y)" if "x \<le> y" "y < e" for y
  proof
    assume "is_head (frames p ! y)"
    then have "(y, forder (frames p ! y)) \<in> blocks L"
      using linkedD(6) [OF L, of y] that fresh(2) by (simp add: blocks_iff)
    then have "y \<in> cover (blocks L \<union> U)"
      using extent_nonempty [of "(y, forder (frames p ! y))"] by (force simp: cover_def)
    with fresh(1) that show False by auto
  qed
  have "tiling (length (frames p)) (blocks L)" "tiling (length (frames p)) U"
    using T tiling_subset by (auto simp: tiled_def)
  then have "managed_frames p \<le> 2 * length (frames p)"
    using m pooled_size [OF L] tiling_card(3) [of "length (frames p)" "blocks L"]
      tiling_card(3) [of "length (frames p)" U] by linarith
  then have bound: "managed_frames p + (e - x) \<le> max_of 64"
    using n fresh(2) by (simp add: MAX_FRAMES_def max_of_def)
  have mark: "\<exists>p1. mark_free (e - x) x p = Some p1 \<and> linked p1 L \<and>
      managed_frames p1 = managed_frames p + (e - x) \<and> map fslab (frames p1) = map fslab (frames p) \<and>
      (\<forall>y. y < x \<or> x + (e - x) \<le> y \<longrightarrow> frames p1 ! y = frames p ! y)"
    by (rule mark_free_ok [OF L _ bound]) (use head fresh(2,3) in auto)
  obtain p1 where q: "mark_free (e - x) x p = Some p1" "linked p1 L"
    "managed_frames p1 = managed_frames p + (e - x)" "map fslab (frames p1) = map fslab (frames p)"
    "\<And>y. y < x \<or> e \<le> y \<Longrightarrow> frames p1 ! y = frames p ! y"
    using mark fresh(3) by auto
  have len: "length (frames p1) = length (frames p)"
    using q(4) by (metis length_map)
  have T1: "tiled p1 L U"
    using T q(2) len by (simp add: tiled_def)
  obtain p' L' where c: "carve x e p1 = Some p'" "tiled p' L' U" "kept (fst ` U) p1 p'"
    "pooled L' = pooled L + (e - x)" "cover (blocks L') = cover (blocks L) \<union> {x..<e}"
    using carve_ok [OF T1 _ fresh(1,3)] fresh(2) len by auto
  have "fstate (frames p' ! fst b) = Allocated" if b: "b \<in> U" for b
  proof -
    have "fst b < length (frames p)" "fst b \<in> cover (blocks L \<union> U)"
      using tiled_held(1) [OF T, of "fst b" "snd b"] b extent_nonempty [of b] by (auto simp: cover_def)
    with fresh(1) q(5) [of "fst b"] have "frames p1 ! fst b = frames p ! fst b"
      by (meson disjoint_iff atLeastLessThan_iff not_le)
    with c(3) b P len \<open>fst b < length (frames p)\<close> show ?thesis
      by (auto simp: kept_def pool_def)
  qed
  then have "pool p' L' U"
    using c q(3) m by (auto simp: pool_def kept_def)
  moreover have "add_free_range x e p = Some p'"
  proof -
    have e: "min e (length (frames p) mod 2 ^ 32) = e"
      using n fresh(2) by (simp add: MAX_FRAMES_def)
    show ?thesis
    proof (cases "e \<le> x")
      case True
      with q(1) c(1) show ?thesis
        unfolding add_free_range_def Let_def e by (simp add: carve.simps)
    next
      case False
      with q(1) c(1) show ?thesis
        unfolding add_free_range_def Let_def e by simp
    qed
  qed
  ultimately show ?thesis
    using c(3,5) q(3) len kept_length [OF c(3)] by (auto simp: kept_def)
qed

end
