(* ===== verification/FramePool.thy ===== *)
theory FramePool
  imports BuddyOps
begin

text \<open>
  What the rest of the kernel relies on in the frame allocator, as an interface: blocks are handed
  out to one holder at a time, the count of available frames follows, and a held block can be given
  back. A client that takes blocks and returns them all ends where it began, which is the boot
  self-test of \<^verbatim>\<open>src/kernel/src/memory.rs\<close>.
\<close>

text \<open>The two loops of the client: take a block of each order, then return blocks.\<close>

fun grab ::
  "(nat \<Rightarrow> 's \<Rightarrow> ((pmm_error, nat) result \<times> 's) option) \<Rightarrow> nat list \<Rightarrow> block list \<Rightarrow> 's
   \<Rightarrow> (block list \<times> 's) option" where
  "grab alloc [] live s = Some (live, s)"
| "grab alloc (k # ks) live s =
     (case alloc k s of
        None \<Rightarrow> None
      | Some (Inl e, s') \<Rightarrow> Some (live, s')
      | Some (Inr x, s') \<Rightarrow> grab alloc ks (live @ [(x, k)]) s')"

fun give_back ::
  "(nat \<Rightarrow> nat \<Rightarrow> 's \<Rightarrow> ((pmm_error, unit) result \<times> 's) option) \<Rightarrow> block list \<Rightarrow> 's \<Rightarrow> (bool \<times> 's) option" where
  "give_back release [] s = Some (True, s)"
| "give_back release ((x, k) # bs) s =
     (case release x k s of
        None \<Rightarrow> None
      | Some (Inl e, s') \<Rightarrow> Some (False, s')
      | Some (Inr _, s') \<Rightarrow> give_back release bs s')"

locale frame_pool =
  fixes alloc :: "nat \<Rightarrow> 's \<Rightarrow> ((pmm_error, nat) result \<times> 's) option"
    and release :: "nat \<Rightarrow> nat \<Rightarrow> 's \<Rightarrow> ((pmm_error, unit) result \<times> 's) option"
    and avail :: "'s \<Rightarrow> nat"
    and owns :: "'s \<Rightarrow> block set \<Rightarrow> bool"
  assumes alloc_ok: "owns s U \<Longrightarrow> k \<le> MAX_ORDER \<Longrightarrow>
      alloc k s = Some (Error OutOfMemory, s) \<or>
      (\<exists>x s'. alloc k s = Some (Ok x, s') \<and> owns s' (insert (x, k) U) \<and> (x, k) \<notin> U \<and>
         avail s' + 2 ^ k = avail s)"
    and release_ok: "owns s (insert (x, k) U) \<Longrightarrow> (x, k) \<notin> U \<Longrightarrow>
      \<exists>s'. release x k s = Some (Ok (), s') \<and> owns s' U \<and> avail s' = avail s + 2 ^ k"
    and owned_apart: "owns s U \<Longrightarrow> b \<in> U \<Longrightarrow> c \<in> U \<Longrightarrow> b \<noteq> c \<Longrightarrow> extent b \<inter> extent c = {}"
begin

lemma grab_ok:
  assumes "owns s (U \<union> set live)" "distinct live" "set live \<inter> U = {}" "\<And>k. k \<in> set ks \<Longrightarrow> k \<le> MAX_ORDER"
  shows "\<exists>bs s'. grab alloc ks live s = Some (bs, s') \<and> owns s' (U \<union> set bs) \<and> distinct bs \<and>
    set bs \<inter> U = {} \<and> avail s' + size_of (set bs) = avail s + size_of (set live)"
  using assms
proof (induction ks arbitrary: live s)
  case Nil
  then show ?case by auto
next
  case (Cons k ks)
  from alloc_ok [OF Cons.prems(1), of k] Cons.prems(4)
  consider (full) "alloc k s = Some (Error OutOfMemory, s)"
    | (got) x s' where "alloc k s = Some (Ok x, s')" "owns s' (insert (x, k) (U \<union> set live))"
        "(x, k) \<notin> U \<union> set live" "avail s' + 2 ^ k = avail s"
    by auto
  then show ?case
  proof cases
    case full
    with Cons.prems show ?thesis by auto
  next
    case (got x s')
    have "size_of (set (live @ [(x, k)])) = size_of (set live) + 2 ^ k"
      using got(3) by (simp add: size_of_def)
    with got Cons.IH [of s' "live @ [(x, k)]"] Cons.prems show ?thesis
      by (auto simp: insert_commute)
  qed
qed

lemma give_back_ok:
  assumes "owns s (U \<union> set bs)" "distinct bs" "set bs \<inter> U = {}"
  shows "\<exists>s'. give_back release bs s = Some (True, s') \<and> owns s' U \<and> avail s' = avail s + size_of (set bs)"
  using assms
proof (induction bs arbitrary: s)
  case Nil
  then show ?case by (simp add: size_of_def)
next
  case (Cons b bs)
  obtain x k where b: "b = (x, k)"
    by (cases b)
  obtain s' where r: "release x k s = Some (Ok (), s')" "owns s' (U \<union> set bs)" "avail s' = avail s + 2 ^ k"
    using release_ok [of s x k "U \<union> set bs"] Cons.prems by (auto simp: b)
  with Cons.IH [of s'] Cons.prems show ?case
    by (auto simp: b size_of_def)
qed

lemma round_trip:
  assumes "owns s U" "\<And>k. k \<in> set ks \<Longrightarrow> k \<le> MAX_ORDER"
  obtains bs s1 s2 where "grab alloc ks [] s = Some (bs, s1)" "give_back release (rev bs) s1 = Some (True, s2)"
    "owns s2 U" "avail s2 = avail s"
proof -
  obtain bs s1 where g: "grab alloc ks [] s = Some (bs, s1)" "owns s1 (U \<union> set bs)" "distinct bs"
    "set bs \<inter> U = {}" "avail s1 + size_of (set bs) = avail s"
    using grab_ok [of s U "[]" ks] assms by (auto simp: size_of_def)
  obtain s2 where "give_back release (rev bs) s1 = Some (True, s2)" "owns s2 U"
    "avail s2 = avail s1 + size_of (set bs)"
    using give_back_ok [of s1 U "rev bs"] g by auto
  with g that show thesis by auto
qed

end

subsection \<open>The buddy allocator provides it\<close>

definition pool_inv :: "pmm \<Rightarrow> block set \<Rightarrow> bool" where
  "pool_inv p U \<longleftrightarrow> (\<exists>L. pool p L U)"

lemma pool_allocate:
  assumes P: "pool p L U" and k: "k \<le> MAX_ORDER"
  shows "(allocate k zone p = Some (Error OutOfMemory, p) \<and> (\<forall>z. serves zone z \<longrightarrow> none_from L k z)) \<or>
    (\<exists>x p' L'. allocate k zone p = Some (Ok x, p') \<and> pool p' L' (insert (x, k) U) \<and> (x, k) \<notin> U \<and>
       free_frames p' + 2 ^ k = free_frames p \<and> serves zone (zi x) \<and> kept (fst ` U) p p' \<and>
       cover (blocks L' \<union> insert (x, k) U) = cover (blocks L \<union> U))"
proof -
  have T: "tiled p L U" and st: "\<forall>b \<in> U. fstate (frames p ! fst b) = Allocated"
    and m: "managed_frames p = pooled L + size_of U"
    using P by (simp_all add: pool_def)
  show ?thesis
  proof (cases "\<exists>x p'. allocate k zone p = Some (Ok x, p')")
    case False
    with allocate_ok [OF T k, of zone] show ?thesis by blast
  next
    case True
    with allocate_ok [OF T k, of zone] obtain x p' L' where a: "allocate k zone p = Some (Ok x, p')"
      "tiled p' L' (insert (x, k) U)" "(x, k) \<notin> U" "fstate (frames p' ! x) = Allocated"
      "kept (fst ` U) p p'" "pooled L' + 2 ^ k = pooled L" "serves zone (zi x)"
      "cover (blocks L' \<union> insert (x, k) U) = cover (blocks L \<union> U)"
      by auto
    have "fstate (frames p' ! fst b) = Allocated" if "b \<in> insert (x, k) U" for b
      using that a(4,5) st tiled_held(1) [OF T, of "fst b" "snd b"] by (auto simp: kept_def)
    moreover have "managed_frames p' = pooled L' + size_of (insert (x, k) U)"
      using a(5,6) m tiled_size [OF T a(3)] by (simp add: kept_def)
    ultimately have "pool p' L' (insert (x, k) U)"
      using a(2) by (simp add: pool_def)
    moreover have "free_frames p' + 2 ^ k = free_frames p"
      using a(6) free_frames_pooled [OF tiled_linked [OF a(2)]] free_frames_pooled [OF tiled_linked [OF T]]
      by simp
    ultimately show ?thesis
      using a by blast
  qed
qed

lemma pool_apart:
  assumes "pool p L U" "b \<in> blocks L \<union> U" "c \<in> blocks L \<union> U" "b \<noteq> c"
  shows "extent b \<inter> extent c = {}"
  using assms unfolding pool_def tiled_def tiling_def by (meson pairwiseD)

lemma pool_frame_pool: "frame_pool (\<lambda>k. allocate k zone) free_block free_frames pool_inv"
proof
  show "allocate k zone s = Some (Error OutOfMemory, s) \<or>
      (\<exists>x s'. allocate k zone s = Some (Ok x, s') \<and> pool_inv s' (insert (x, k) U) \<and> (x, k) \<notin> U \<and>
         free_frames s' + 2 ^ k = free_frames s)" if "pool_inv s U" "k \<le> MAX_ORDER" for s U k
    using that pool_allocate [of s _ U k zone] unfolding pool_inv_def by blast
  show "\<exists>s'. free_block x k s = Some (Ok (), s') \<and> pool_inv s' U \<and> free_frames s' = free_frames s + 2 ^ k"
    if new: "(x, k) \<notin> U" and P: "pool_inv s (insert (x, k) U)" for s x k U
  proof -
    obtain L where L: "pool s L (insert (x, k) U)"
      using P by (auto simp: pool_inv_def)
    then obtain s' L' where f: "free_block x k s = Some (Ok (), s')" "pool s' L' U"
      "pooled L' = pooled L + 2 ^ k"
      using free_block_ok [OF L new] by blast
    have "linked s L" "linked s' L'"
      using L f(2) by (simp_all add: pool_def tiled_def)
    with f show ?thesis
      unfolding pool_inv_def by (metis free_frames_pooled)
  qed
  show "extent b \<inter> extent c = {}" if "pool_inv s U" "b \<in> U" "c \<in> U" "b \<noteq> c" for s U b c
    using that pool_apart unfolding pool_inv_def by blast
qed

interpretation normal: frame_pool "\<lambda>k. allocate k Normal" free_block free_frames pool_inv
  by (rule pool_frame_pool)

interpretation dma: frame_pool "\<lambda>k. allocate k Dma32" free_block free_frames pool_inv
  by (rule pool_frame_pool)

end
