(* ===== verification/BuddyProps.thy ===== *)
theory BuddyProps
  imports FramePool
begin

text \<open>
  The properties of the frame allocator. \<open>pmm_reachable p U R\<close> says that \<open>p\<close> arises from an empty
  database by making the disjoint ranges \<open>R\<close> available, by allocations, and by callers freeing what
  they hold; \<open>U\<close> are the blocks they hold.
\<close>

inductive pmm_reachable :: "pmm \<Rightarrow> block set \<Rightarrow> nat set \<Rightarrow> bool" where
  new: "length fs \<le> MAX_FRAMES \<Longrightarrow> pmm_reachable (pmm_new fs) {} {}"
| add: "pmm_reachable p U R \<Longrightarrow> {x..<e} \<inter> R = {} \<Longrightarrow> x \<le> e \<Longrightarrow> e \<le> length (frames p) \<Longrightarrow>
    add_free_range x e p = Some p' \<Longrightarrow> pmm_reachable p' U (R \<union> {x..<e})"
| alloc: "pmm_reachable p U R \<Longrightarrow> allocate k zone p = Some (Ok x, p') \<Longrightarrow>
    pmm_reachable p' (insert (x, k) U) R"
| free: "pmm_reachable p (insert (x, k) U) R \<Longrightarrow> (x, k) \<notin> U \<Longrightarrow> free_block x k p = Some (r, p') \<Longrightarrow>
    pmm_reachable p' U R"
| owner: "pmm_reachable p U R \<Longrightarrow> pmm_reachable (snd (set_owner x w p)) U R"
| slab: "pmm_reachable p U R \<Longrightarrow> pmm_reachable (slab_mut x g p) U R"

subsection \<open>The invariant of reachable allocators\<close>

lemma linked_same_fields:
  assumes L: "linked p L" and x: "x < length (frames p)"
    and v: "fstate v = fstate (frames p ! x)" "forder v = forder (frames p ! x)"
      "is_head v = is_head (frames p ! x)" "fnext v = fnext (frames p ! x)" "fprev v = fprev (frames p ! x)"
  shows "linked (p\<lparr>frames := (frames p)[x := v]\<rparr>) L"
proof -
  let ?fs = "(frames p)[x := v]"
  have "fstate (?fs ! y) = fstate (frames p ! y)" "forder (?fs ! y) = forder (frames p ! y)"
    "is_head (?fs ! y) = is_head (frames p ! y)" "fnext (?fs ! y) = fnext (frames p ! y)"
    "fprev (?fs ! y) = fprev (frames p ! y)" for y
    using v x by (simp_all add: nth_list_update_if)
  then show ?thesis
    using L by (simp add: linked_def zone_linked_def on_list_def)
qed

lemma pool_same_fields:
  assumes P: "pool p L U" and x: "x < length (frames p)"
    and v: "fstate v = fstate (frames p ! x)" "forder v = forder (frames p ! x)"
      "is_head v = is_head (frames p ! x)" "fnext v = fnext (frames p ! x)" "fprev v = fprev (frames p ! x)"
  shows "pool (p\<lparr>frames := (frames p)[x := v]\<rparr>) L U"
  using P linked_same_fields [OF _ x v, of L] v(1)
  by (auto simp: pool_def tiled_def managed_frames_def nth_list_update_if)

lemma pool_slab_mut: "pool p L U \<Longrightarrow> pool (slab_mut x g p) L U"
  by (cases "x < length (frames p)")
    (simp_all add: slab_mut_def upd_frame_eq pool_same_fields, simp_all add: upd_frame_def get_def)

lemma pool_set_owner: "pool p L U \<Longrightarrow> pool (snd (set_owner x w p)) L U"
  by (cases "x < length (frames p)")
    (simp_all add: set_owner_def upd_frame_eq pool_same_fields, simp_all add: upd_frame_def get_def)

lemma pool_new:
  assumes "length fs \<le> MAX_FRAMES"
  shows "pool (pmm_new fs) (\<lambda>_ _. []) {}" "cover (blocks (\<lambda>_ _. []) \<union> {}) = {}"
proof -
  have "zone_linked (pmm_new fs) (\<lambda>_ _. []) z k" if "z < 2" "k \<le> MAX_ORDER" for z k
    using that
    by (simp add: zone_linked_def pmm_new_def zone_state_new_def ORDER_COUNT_def nth_Cons' numeral_2_eq_2)
  moreover have "blocks (\<lambda>_ _. []) = {}"
    by (simp add: blocks_def)
  ultimately show "pool (pmm_new fs) (\<lambda>_ _. []) {}" "cover (blocks (\<lambda>_ _. []) \<union> {}) = {}"
    using assms
    by (auto simp: pool_def tiled_def linked_def tiling_def pmm_new_def zone_state_new_def held_def
        managed_frames_def pooled_def size_of_def frame_reserved_def cover_def)
qed

lemma reachable_pool:
  "pmm_reachable p U R \<Longrightarrow> \<exists>L. pool p L U \<and> cover (blocks L \<union> U) = R"
proof (induction rule: pmm_reachable.induct)
  case (new fs)
  then show ?case
    using pool_new by blast
next
  case (add p U R x e p')
  then obtain L where L: "pool p L U" "cover (blocks L \<union> U) = R"
    by blast
  with add_free_range_ok [OF L(1), of x e] add obtain L' where
    "pool p' L' U" "cover (blocks L') = cover (blocks L) \<union> {x..<e}"
    by auto
  with L(2) show ?case
    by (auto simp: cover_Un)
next
  case (alloc p U R k zone x p')
  then obtain L where L: "pool p L U" "cover (blocks L \<union> U) = R"
    by blast
  have "k \<le> MAX_ORDER"
    using alloc.hyps(2) by (auto simp: allocate_def split: if_splits)
  with pool_allocate [OF L(1), of k zone] alloc.hyps(2) L(2) show ?case
    by auto
next
  case (free p x k U R r p')
  then obtain L where L: "pool p L (insert (x, k) U)" "cover (blocks L \<union> insert (x, k) U) = R"
    by blast
  with free_block_ok [OF L(1) free.hyps(2)] free.hyps(3) show ?case
    by auto
qed (blast dest: pool_set_owner pool_slab_mut)+

lemma pool_block:
  "pool p L U \<Longrightarrow> b \<in> blocks L \<union> U \<Longrightarrow> block_ok (length (frames p)) b"
  unfolding pool_def tiled_def tiling_def by blast

subsection \<open>The self-check\<close>

lemma check_list_ok:
  assumes "chain (nxt p) (prv p) NO_FRAME prev pfn xs" "\<And>x. x \<in> set xs \<Longrightarrow> on_list p z k x \<and> 2 ^ k dvd x"
    "seen + length xs \<le> length (frames p)"
  shows "check_list p k pfn prev seen counted = Ok (counted + length xs * 2 ^ k)"
  using assms
proof (induction xs arbitrary: pfn prev seen counted)
  case Nil
  then show ?case
    by (subst check_list.simps) simp
next
  case (Cons x xs)
  then have x: "pfn = x" "x \<noteq> NO_FRAME" "prv p x = prev" "on_list p z k x" "2 ^ k dvd x"
    by auto
  have "check_list p k pfn prev seen counted =
      check_list p k (nxt p x) x (seen + 1) (counted + 2 ^ k)"
    using x Cons.prems(3) by (subst check_list.simps) (simp add: on_list_def get_def)
  then show ?case
    using Cons by simp
qed

lemma check_orders_ok:
  assumes P: "pool p L U" and z: "z < 2" and ks: "\<And>k. k \<in> set ks \<Longrightarrow> k \<le> MAX_ORDER"
  shows "check_orders p z ks counted = Ok (counted + (\<Sum>k\<leftarrow>ks. length (L z k) * 2 ^ k))"
  using ks
proof (induction ks arbitrary: counted)
  case Nil
  then show ?case by simp
next
  case (Cons k ks)
  have T: "tiled p L U"
    using P by (simp add: pool_def)
  note L = tiled_linked [OF T]
  have k: "k \<le> MAX_ORDER"
    using Cons.prems by simp
  have zl: "zone_linked p L z k"
    by (rule linkedD(5) [OF L z k])
  have al: "on_list p z k x \<and> 2 ^ k dvd x" if "x \<in> set (L z k)" for x
  proof -
    have on: "on_list p z k x"
      by (rule linked_on_list [OF L z k that])
    then have "(x, k) \<in> blocks L"
      using that k by (simp add: blocks_iff on_list_def)
    with pool_block [OF P, of "(x, k)"] on show ?thesis
      by (simp add: block_ok_def)
  qed
  have "set (L z k) \<subseteq> {..<length (frames p)}"
    using al by (auto simp: on_list_def)
  then have "length (L z k) \<le> length (frames p)"
    using zl card_mono [of "{..<length (frames p)}" "set (L z k)"]
    by (simp add: zone_linked_def distinct_card)
  then have "check_list p k (free_lists (zones p ! z) ! k) NO_FRAME 0 counted =
      Ok (counted + length (L z k) * 2 ^ k)"
    using zl al by (intro check_list_ok [of p _ _ _ z]) (auto simp: zone_linked_def)
  then show ?case
    using Cons linkedD(3) [OF L z] k by (simp add: get_def ORDER_COUNT_def add.assoc less_Suc_eq_le)
qed

lemma check_invariants_ok:
  assumes P: "pool p L U"
  shows "check_invariants p = Ok ()"
proof -
  have L: "linked p L"
    using P by (simp add: pool_def tiled_def)
  have "check_orders p z [0..<ORDER_COUNT] 0 = Ok (zone_free (zones p ! z))" if "z < 2" for z
  proof -
    have "(\<Sum>k\<leftarrow>[0..<ORDER_COUNT]. length (L z k) * 2 ^ k) = held L z"
      by (simp add: held_def ORDER_COUNT_def interv_sum_list_conv_sum_set_nat atLeast0LessThan
          lessThan_Suc_atMost del: upt_Suc)
    moreover have "check_orders p z [0..<ORDER_COUNT] 0 =
        Ok (0 + (\<Sum>k\<leftarrow>[0..<ORDER_COUNT]. length (L z k) * 2 ^ k))"
      by (rule check_orders_ok [OF P that]) (auto simp: ORDER_COUNT_def)
    ultimately show ?thesis
      using linkedD(4) [OF L that] by simp
  qed
  then have "check_orders p 0 [0..<ORDER_COUNT] 0 = Ok (zone_free (zones p ! 0))"
    "check_orders p 1 [0..<ORDER_COUNT] 0 = Ok (zone_free (zones p ! 1))"
    by simp_all
  then show ?thesis
    by (simp add: check_invariants_def numeral_2_eq_2 del: check_orders.simps)
qed

subsection \<open>A small machine for the witnesses\<close>

text \<open>Two frames, made available, and then both handed out one by one.\<close>

definition ex_empty :: pmm where
  "ex_empty = pmm_new [frame_reserved, frame_reserved]"

definition ex_pool :: pmm where
  "ex_pool = the (add_free_range 0 2 ex_empty)"

definition ex_taken :: pmm where
  "ex_taken = snd (the (allocate 0 Normal ex_pool))"

lemma loop_numerals:
  "mark_free (numeral n) x p =
     do {
       p \<leftarrow> upd_frame x (\<lambda>f. f\<lparr>fstate := Free, refcount := 0\<rparr>) p;
       let z = zi x;
       managed \<leftarrow> checked_add 64 (zone_managed (zones p ! z)) 1;
       mark_free (pred_numeral n) (x + 1) (upd_zone z (\<lambda>s. s\<lparr>zone_managed := managed\<rparr>) p)
     }"
  "fit_order x e (numeral n) =
     (let size = 2 ^ numeral n in
      if size dvd x then
        (case checked_add 32 x size of
           None \<Rightarrow> None
         | Some e' \<Rightarrow> if e' \<le> e then Some (numeral n) else fit_order x e (pred_numeral n))
      else fit_order x e (pred_numeral n))"
  by (simp_all only: numeral_eq_Suc mark_free.simps fit_order.simps)

lemmas pmm_eval = add_free_range_def carve.simps push_block_def remove_block_def upd_frame_def
  upd_zone_def get_def checked_add_def checked_sub_def max_of_def zone_of_def MAX_ORDER_def
  ORDER_COUNT_def NO_FRAME_def NO_OWNER_def DMA32_LIMIT_PFN_def FRAME_SIZE_def Let_def allocate_def
  allocate_from_def find_order.simps free_block_def coalesce.simps mergeable_def loop_numerals

lemma ex_empty_eq: "ex_empty = \<lparr>frames = [frame_reserved, frame_reserved],
    zones = [zone_state_new, zone_state_new]\<rparr>"
  by (simp add: ex_empty_def pmm_new_def numeral_2_eq_2)

lemma ex_pool_add: "add_free_range 0 2 ex_empty = Some \<lparr>
    frames = [frame_reserved\<lparr>fstate := Free, forder := 1, is_head := True\<rparr>, frame_reserved\<lparr>fstate := Free\<rparr>],
    zones = [zone_state_new\<lparr>free_lists := (replicate 11 NO_FRAME)[1 := 0], zone_free := 2, zone_managed := 2\<rparr>,
             zone_state_new]\<rparr>"
  by (simp add: ex_empty_eq pmm_eval zone_state_new_def frame_reserved_def)

lemma replicate_11: "replicate 11 (a::'a) = [a, a, a, a, a, a, a, a, a, a, a]"
  by (simp add: numeral_eq_Suc)

lemma ex_pool_eq: "ex_pool = \<lparr>
    frames = [frame_reserved\<lparr>fstate := Free, forder := 1, is_head := True\<rparr>, frame_reserved\<lparr>fstate := Free\<rparr>],
    zones = [zone_state_new\<lparr>free_lists := (replicate 11 NO_FRAME)[1 := 0], zone_free := 2, zone_managed := 2\<rparr>,
             zone_state_new]\<rparr>"
  by (simp add: ex_pool_def ex_pool_add)

lemma ex_taken_alloc: "allocate 0 Normal ex_pool = Some (Ok 0, \<lparr>
    frames = [frame_reserved\<lparr>fstate := Allocated, refcount := 1\<rparr>,
              frame_reserved\<lparr>fstate := Free, is_head := True\<rparr>],
    zones = [zone_state_new\<lparr>free_lists := (replicate 11 NO_FRAME)[0 := 1], zone_free := 1, zone_managed := 2\<rparr>,
             zone_state_new]\<rparr>)"
  by (simp add: ex_pool_eq pmm_eval zone_state_new_def frame_reserved_def replicate_11)

lemma ex_taken_eq: "ex_taken = \<lparr>
    frames = [frame_reserved\<lparr>fstate := Allocated, refcount := 1\<rparr>,
              frame_reserved\<lparr>fstate := Free, is_head := True\<rparr>],
    zones = [zone_state_new\<lparr>free_lists := (replicate 11 NO_FRAME)[0 := 1], zone_free := 1, zone_managed := 2\<rparr>,
             zone_state_new]\<rparr>"
  by (simp add: ex_taken_def ex_taken_alloc)

lemma ex_both_alloc: "allocate 0 Normal ex_taken = Some (Ok 1, \<lparr>
    frames = [frame_reserved\<lparr>fstate := Allocated, refcount := 1\<rparr>,
              frame_reserved\<lparr>fstate := Allocated, refcount := 1\<rparr>],
    zones = [zone_state_new\<lparr>free_lists := replicate 11 NO_FRAME, zone_free := 0, zone_managed := 2\<rparr>,
             zone_state_new]\<rparr>)"
  by (simp add: ex_taken_eq pmm_eval zone_state_new_def frame_reserved_def replicate_11)

lemma ex_pool_reachable: "pmm_reachable ex_pool {} {0..<2}"
proof -
  have "pmm_reachable ex_empty {} {}"
    unfolding ex_empty_def by (rule pmm_reachable.new) (simp add: MAX_FRAMES_def)
  from pmm_reachable.add [OF this, of 0 2, OF _ _ _ ex_pool_add] show ?thesis
    by (simp add: ex_pool_eq ex_empty_eq)
qed

lemma ex_taken_reachable: "pmm_reachable ex_taken {(0, 0)} {0..<2}"
  using pmm_reachable.alloc [OF ex_pool_reachable ex_taken_alloc]
  by (simp add: ex_taken_def ex_taken_alloc)

section \<open>The allocator's promises\<close>

text \<open>
  C7. An allocation from a reachable allocator returns, without panicking. If it succeeds, the block
  is aligned to its size, lies in the memory that was made available, shares no frame with any
  block a caller holds, comes from below four gigabytes when that was asked for, and the count of
  free frames drops by its size. If it fails, the allocator is unchanged and every list it may
  search is empty from the requested order up.
\<close>

theorem allocate_exclusive:
  assumes "pmm_reachable p U R" "k \<le> MAX_ORDER"
  shows "\<exists>r p'. allocate k zone p = Some (r, p') \<and>
    (case r of
       Inr x \<Rightarrow> 2 ^ k dvd x \<and> extent (x, k) \<subseteq> R \<and> (\<forall>b \<in> U. extent (x, k) \<inter> extent b = {}) \<and>
         (zone = Dma32 \<longrightarrow> x + 2 ^ k \<le> DMA32_LIMIT_PFN) \<and> free_frames p' + 2 ^ k = free_frames p
     | Inl e \<Rightarrow> e = Err OutOfMemory \<and> p' = p \<and>
         (\<forall>z j. serves zone z \<and> k \<le> j \<and> j \<le> MAX_ORDER \<longrightarrow> free_lists (zones p ! z) ! j = NO_FRAME))"
proof -
  obtain L where L: "pool p L U" "cover (blocks L \<union> U) = R"
    using reachable_pool [OF assms(1)] by blast
  from pool_allocate [OF L(1) assms(2), of zone] show ?thesis
  proof (elim disjE exE conjE)
    assume a: "allocate k zone p = Some (Error OutOfMemory, p)" "\<forall>z. serves zone z \<longrightarrow> none_from L k z"
    have "linked p L"
      using L by (simp add: pool_def tiled_def)
    then have "free_lists (zones p ! z) ! j = NO_FRAME" if "serves zone z" "k \<le> j" "j \<le> MAX_ORDER" for z j
      using that a(2) list_empty_iff [of p L z j] by (auto simp: serves_def none_from_def)
    with a(1) show ?thesis by auto
  next
    fix x p' L'
    assume a: "allocate k zone p = Some (Ok x, p')" "pool p' L' (insert (x, k) U)" "(x, k) \<notin> U"
      "free_frames p' + 2 ^ k = free_frames p" "serves zone (zi x)"
      "cover (blocks L' \<union> insert (x, k) U) = cover (blocks L \<union> U)"
    have "block_ok (length (frames p')) (x, k)"
      by (rule pool_block [OF a(2)]) simp
    moreover have "extent (x, k) \<subseteq> R"
      using a(6) L(2) by (auto simp: cover_def)
    moreover have "\<forall>b \<in> U. extent (x, k) \<inter> extent b = {}"
      using pool_apart [OF a(2)] a(3) by blast
    moreover have "x < DMA32_LIMIT_PFN" if "zone = Dma32"
      using a(5) that by (auto simp: serves_def zone_of_def split: if_splits)
    ultimately show ?thesis
      using a(1,4) no_straddle [of k x] assms(2) by (auto simp: block_ok_def)
  qed
qed

theorem allocate_exclusive_witness:
  "pmm_reachable ex_taken {(0, 0)} {0..<2} \<and>
   (\<exists>p'. allocate 0 Normal ex_taken = Some (Ok 1, p') \<and> extent (1, 0) \<subseteq> {0..<2} \<and>
      extent (1, 0) \<inter> extent (0, 0) = {} \<and> free_frames p' + 1 = free_frames ex_taken)"
  using allocate_exclusive [OF ex_taken_reachable, of 0 Normal] ex_taken_reachable ex_both_alloc by auto

text \<open>
  C21. Freeing a held block succeeds, gives its frames back, and joins them: the block ends up inside
  a free block whose buddy is not free, so no two halves of a larger block stay apart.
\<close>

theorem free_coalesces:
  assumes "pmm_reachable p (insert (x, k) U) R" "(x, k) \<notin> U"
  shows "\<exists>p' y j. free_block x k p = Some (Ok (), p') \<and> free_frames p' = free_frames p + 2 ^ k \<and>
    extent (x, k) \<subseteq> extent (y, j) \<and> mergeable (frames p' ! y) j \<and>
    (j < MAX_ORDER \<longrightarrow> (\<forall>f. frame_entry (y XOR 2 ^ j) p' = Some f \<longrightarrow> \<not> mergeable f j))"
proof -
  obtain L where L: "pool p L (insert (x, k) U)"
    using reachable_pool [OF assms(1)] by blast
  obtain p' L' y j where f: "free_block x k p = Some (Ok (), p')" "pool p' L' U"
    "pooled L' = pooled L + 2 ^ k" "(y, j) \<in> blocks L'" "extent (x, k) \<subseteq> extent (y, j)"
    "j < MAX_ORDER \<longrightarrow> (y XOR 2 ^ j, j) \<notin> blocks L'"
    using free_block_ok [OF L assms(2)] by blast
  have l: "linked p L" "linked p' L'"
    using L f(2) by (simp_all add: pool_def tiled_def)
  then have "free_frames p' = free_frames p + 2 ^ k"
    using f(3) free_frames_pooled by metis
  moreover have "mergeable (frames p' ! y) j"
    using free_mergeable [OF l(2) f(4)] by (auto simp: get_def split: if_splits)
  moreover have "\<forall>f. frame_entry (y XOR 2 ^ j) p' = Some f \<longrightarrow> \<not> mergeable f j" if "j < MAX_ORDER"
    using mergeable_free [OF l(2)] f(6) that by (auto simp: frame_entry_def)
  ultimately show ?thesis
    using f(1,5) by blast
qed

theorem free_coalesces_witness:
  "pmm_reachable ex_taken {(0, 0)} {0..<2} \<and>
   (\<exists>p'. free_block 0 0 ex_taken = Some (Ok (), p') \<and> free_frames p' = free_frames ex_taken + 1)"
  using free_coalesces [of ex_taken 0 0 "{}" "{0..<2}"] ex_taken_reachable by auto

text \<open>
  C20. In every reachable state the allocator's own consistency check passes, and no frame is lost:
  the free frames and those callers hold add up to the managed frames, which are as many as were
  made available.
\<close>

theorem frames_accounted:
  assumes "pmm_reachable p U R"
  shows "check_invariants p = Ok () \<and> free_frames p + size_of U = managed_frames p \<and>
    managed_frames p = card R"
proof -
  obtain L where L: "pool p L U" "cover (blocks L \<union> U) = R"
    using reachable_pool [OF assms(1)] by blast
  then have l: "linked p L" and t: "tiling (length (frames p)) (blocks L \<union> U)" "blocks L \<inter> U = {}"
    and m: "managed_frames p = pooled L + size_of U"
    by (simp_all add: pool_def tiled_def)
  have "size_of (blocks L \<union> U) = size_of (blocks L) + size_of U"
    unfolding size_of_def using tiling_finite [OF t(1)] t(2) by (simp add: sum.union_disjoint)
  then show ?thesis
    using check_invariants_ok [OF L(1)] m free_frames_pooled [OF l] pooled_size [OF l]
      tiling_card(1) [OF t(1)] L(2) by simp
qed

theorem frames_accounted_witness:
  "pmm_reachable ex_taken {(0, 0)} {0..<2} \<and> check_invariants ex_taken = Ok () \<and>
   free_frames ex_taken + 1 = managed_frames ex_taken"
  using frames_accounted [OF ex_taken_reachable] ex_taken_reachable by (simp add: size_of_def)

section \<open>A double free that is not detected\<close>

text \<open>
  When an upper buddy is freed and merged, its own entry keeps the state \<open>Allocated\<close>. Freeing it a
  second time is therefore accepted, although the code means to report every double free: the frame
  is then on two free lists at once, and the self-check does not notice.
\<close>

definition ex_both :: pmm where
  "ex_both = snd (the (allocate 0 Normal ex_taken))"

definition ex_half :: pmm where
  "ex_half = snd (the (free_block 0 0 ex_both))"

definition ex_merged :: pmm where
  "ex_merged = snd (the (free_block 1 0 ex_half))"

lemma ex_both_eq: "ex_both = \<lparr>
    frames = [frame_reserved\<lparr>fstate := Allocated, refcount := 1\<rparr>,
              frame_reserved\<lparr>fstate := Allocated, refcount := 1\<rparr>],
    zones = [zone_state_new\<lparr>free_lists := replicate 11 NO_FRAME, zone_free := 0, zone_managed := 2\<rparr>,
             zone_state_new]\<rparr>"
  by (simp add: ex_both_def ex_both_alloc)

lemma ex_half_eq: "ex_half = \<lparr>
    frames = [frame_reserved\<lparr>fstate := Free, is_head := True\<rparr>,
              frame_reserved\<lparr>fstate := Allocated, refcount := 1\<rparr>],
    zones = [zone_state_new\<lparr>free_lists := (replicate 11 NO_FRAME)[0 := 0], zone_free := 1, zone_managed := 2\<rparr>,
             zone_state_new]\<rparr>"
  by (simp add: ex_half_def ex_both_eq pmm_eval zone_state_new_def frame_reserved_def replicate_11)

lemma ex_merged_eq: "ex_merged = \<lparr>
    frames = [frame_reserved\<lparr>fstate := Free, forder := 1, is_head := True\<rparr>,
              frame_reserved\<lparr>fstate := Allocated\<rparr>],
    zones = [zone_state_new\<lparr>free_lists := (replicate 11 NO_FRAME)[1 := 0], zone_free := 2, zone_managed := 2\<rparr>,
             zone_state_new]\<rparr>"
  by (simp add: ex_merged_def ex_half_eq pmm_eval zone_state_new_def frame_reserved_def replicate_11)

lemma upto_11: "[0..<11] = [0, 1, 2, 3, 4, 5, 6, 7, 8, 9, 10]"
  by (simp add: upt_conv_Cons)

text \<open>
  C40. A double free is not always reported. Two frames are made available, allocated one by one
  and freed, so that they merge; freeing the upper one a second time is accepted, three frames
  of two are then counted free, and the consistency check still passes.
\<close>

lemma double_free_accepted:
  "\<exists>p'. free_block 1 0 ex_merged = Some (Ok (), p') \<and> free_frames p' = 3 \<and> managed_frames p' = 2 \<and>
     check_invariants p' = Ok ()"
proof -
  define p' where "p' = snd (the (free_block 1 0 ex_merged))"
  have e: "free_block 1 0 ex_merged = Some (Ok (), \<lparr>
      frames = [frame_reserved\<lparr>fstate := Free, forder := 1, is_head := True\<rparr>,
                frame_reserved\<lparr>fstate := Free, is_head := True\<rparr>],
      zones = [zone_state_new\<lparr>free_lists := (replicate 11 NO_FRAME)[0 := 1, 1 := 0], zone_free := 3,
                              zone_managed := 2\<rparr>,
               zone_state_new]\<rparr>)"
    by (simp add: ex_merged_eq pmm_eval zone_state_new_def frame_reserved_def replicate_11)
  then have "free_frames p' = 3" "managed_frames p' = 2"
    unfolding p'_def by (simp_all add: free_frames_def managed_frames_def zone_state_new_def)
  moreover have "check_invariants p' = Ok ()"
  proof -
    have none: "check_list p' k NO_FRAME v n c = Ok c" for k v n c
      by (subst check_list.simps) simp
    have "frames p' = [frame_reserved\<lparr>fstate := Free, forder := 1, is_head := True\<rparr>,
        frame_reserved\<lparr>fstate := Free, is_head := True\<rparr>]" "NO_FRAME \<noteq> 0" "NO_FRAME \<noteq> 1"
      unfolding p'_def e by (simp_all add: NO_FRAME_def max_of_def)
    then have "check_list p' 0 1 NO_FRAME 0 0 = Ok 1" "check_list p' 1 0 NO_FRAME 0 1 = Ok 3"
      by (simp_all add: check_list.simps [of p' 0 "Suc 0"] check_list.simps [of p' "Suc 0" 0] get_def
          frame_reserved_def none)
    moreover have "zones p' = [zone_state_new\<lparr>free_lists := (replicate 11 NO_FRAME)[0 := 1, 1 := 0],
        zone_free := 3, zone_managed := 2\<rparr>, zone_state_new]"
      unfolding p'_def e by simp
    ultimately show ?thesis
      by (simp add: check_invariants_def ORDER_COUNT_def MAX_ORDER_def upto_11 upt_conv_Cons none get_def
          replicate_11 zone_state_new_def)
  qed
  ultimately show ?thesis
    unfolding p'_def e by simp
qed

end
