(* ===== verification/BumpProps.thy ===== *)
theory BumpProps
  imports Bump
begin

text \<open>
  What the bump allocator hands out, and what it records. \<open>bump_reachable m b H\<close> says that \<open>b\<close> arises
  on the memory map \<open>m\<close> by allocations that handed out the ranges \<open>H\<close>, in that order.
\<close>

subsection \<open>Rounding\<close>

lemma unat_and_not_mask: "unat ((a :: 'a::len word) AND NOT (mask n)) = unat a div 2 ^ n * 2 ^ n"
proof -
  have "unat (a AND NOT (mask n)) = push_bit n (drop_bit n (unat a))"
    by (rule bit_eqI) (auto simp: bit_simps bit_unsigned_iff dest: bit_imp_le_length)
  then show ?thesis
    by (simp add: push_bit_eq_mult drop_bit_eq_div)
qed

lemma align_up_frame:
  assumes "align_up v FRAME_SIZE = Some s"
  shows "v \<le> s" "FRAME_SIZE dvd s"
proof -
  have v: "v + FRAME_SIZE \<le> max_of 64" "s = unat ((of_nat (v + FRAME_SIZE - 1) :: u64) AND NOT (of_nat (FRAME_SIZE - 1)))"
    using assms by (auto simp: align_up_def checked_add_def split: if_splits)
  have "of_nat (FRAME_SIZE - 1) = (mask 12 :: u64)"
    by (simp add: FRAME_SIZE_def mask_numeral)
  moreover have "unat (of_nat (v + FRAME_SIZE - 1) :: u64) = v + 4095"
    by (subst unat_of_nat) (use v(1) in \<open>simp add: FRAME_SIZE_def max_of_def\<close>)
  ultimately have "s = (v + 4095) div 4096 * 4096"
    using v(2) by (simp add: unat_and_not_mask)
  then show "v \<le> s" "FRAME_SIZE dvd s"
    by (simp_all add: FRAME_SIZE_def)
qed

subsection \<open>The frontier\<close>

text \<open>Everything still to be handed out lies at or above \<open>f\<close>.\<close>

definition ahead :: "nat \<Rightarrow> bump \<Rightarrow> bool" where
  "ahead f b \<longleftrightarrow> (\<forall>i < length (regions b). region b \<le> i \<and> kind (regions b ! i) = Usable \<longrightarrow>
     f \<le> (if i = region b then max (next_address b) (base (regions b ! i)) else base (regions b ! i)))"

definition settled :: "bump \<Rightarrow> bool" where
  "settled b \<longleftrightarrow> FRAME_SIZE dvd next_address b \<and>
     (region b < length (regions b) \<longrightarrow> kind (regions b ! region b) = Usable \<and>
        base (regions b ! region b) \<le> next_address b)"

lemma ahead_skip: "ahead f b \<Longrightarrow> ahead f (skip_region b)"
  by (auto simp: ahead_def)

lemma advance_ahead:
  assumes "advance_to_usable b = Some b'" "ahead f b" "FRAME_SIZE dvd next_address b"
  shows "ahead f b' \<and> settled b' \<and> consumed b' = consumed b \<and> consumed_count b' = consumed_count b \<and>
    regions b' = regions b \<and> allocated b' = allocated b"
  using assms
proof (induction "length (regions b) - region b" arbitrary: b rule: less_induct)
  case less
  from less.prems(1) show ?case
  proof (cases rule: advance_cases)
    case over
    with less.prems show ?thesis by (simp add: settled_def)
  next
    case (here start n)
    note r = align_up_frame [OF here(3)]
    have "ahead f b'"
      using less.prems(2) here(4) r(1) by (auto simp: here(6) ahead_def)
    moreover have "settled b'"
      using here r less.prems(3) by (auto simp: settled_def max_def)
    ultimately show ?thesis
      by (simp add: here(6))
  next
    case skip
    have "length (regions (skip_region b)) - region (skip_region b) < length (regions b) - region b"
      using skip(1) by simp
    from less.hyps [OF this skip(2) ahead_skip [OF less.prems(2)]] show ?thesis
      by simp
  qed
qed

text \<open>One turn of the allocation loop: out of memory, the run was placed, or the region is skipped.\<close>

lemma allocate_loop_cases:
  assumes "allocate_loop count bytes b0 = Some (r, b')"
  obtains (full) b where "advance_to_usable b0 = Some b" "r = Error BumpOutOfMemory" "b' = b"
  | (placed) b where "advance_to_usable b0 = Some b" "region b < length (regions b)"
      "next_address b + bytes \<le> base (regions b ! region b) + region_length (regions b ! region b)"
      "base (regions b ! region b) + region_length (regions b ! region b) < 2 ^ 64"
      "r = Ok (next_address b)"
      "b' = record_consumed (next_address b) (next_address b + bytes)
              (b\<lparr>next_address := next_address b + bytes, allocated := allocated b + count\<rparr>)"
  | (again) b where "advance_to_usable b0 = Some b" "region b < length (regions b)"
      "allocate_loop count bytes (skip_region b) = Some (r, b')"
proof -
  obtain b where b: "advance_to_usable b0 = Some b"
    using assms unfolding allocate_loop.simps [of count bytes b0] by (auto split: option.splits)
  define go where "go = allocate_loop count bytes (skip_region b)"
  have e: "Some (r, b') = (if length (regions b) \<le> region b then Some (Error BumpOutOfMemory, b)
      else (case (checked_add 64 (next_address b) bytes, region_end (regions b ! region b)) of
               (Some e, Some re) \<Rightarrow>
                 if e \<le> re then
                   (case checked_add 64 (allocated b) count of
                      None \<Rightarrow> None
                    | Some n \<Rightarrow>
                        Some (Ok (next_address b),
                          record_consumed (next_address b) e (b\<lparr>next_address := e, allocated := n\<rparr>)))
                 else go
             | _ \<Rightarrow> None))"
    using assms unfolding allocate_loop.simps [of count bytes b0] go_def b by simp
  show thesis
  proof (cases "length (regions b) \<le> region b")
    case True
    with e full [OF b] show thesis by simp
  next
    case False
    then have len: "region b < length (regions b)"
      by simp
    with e obtain e' re where s: "checked_add 64 (next_address b) bytes = Some e'"
      "region_end (regions b ! region b) = Some re"
      by (auto split: option.splits)
    show thesis
    proof (cases "e' \<le> re")
      case True
      with e s False show thesis
        using placed [OF b len] by (auto simp: checked_add_Some region_end_Some split: option.splits)
    next
      case False
      with e s len again [OF b len] show thesis
        by (simp add: go_def)
    qed
  qed
qed

subsection \<open>The record of consumed ranges\<close>

definition before :: "nat \<times> nat \<Rightarrow> nat \<times> nat \<Rightarrow> bool" where
  "before a b \<longleftrightarrow> snd a \<le> fst b"

text \<open>Sorted and disjoint ranges of positive length, all ending at or below \<open>f\<close>.\<close>

definition ranges :: "nat \<Rightarrow> (nat \<times> nat) list \<Rightarrow> bool" where
  "ranges f xs \<longleftrightarrow> sorted_wrt before xs \<and> (\<forall>(s, e) \<in> set xs. s < e \<and> e \<le> f)"

definition covers :: "(nat \<times> nat) list \<Rightarrow> nat \<times> nat \<Rightarrow> bool" where
  "covers xs r \<longleftrightarrow> (\<exists>(s, e) \<in> set xs. s \<le> fst r \<and> snd r \<le> e)"

definition table_ok :: "bump \<Rightarrow> bool" where
  "table_ok b \<longleftrightarrow> length (consumed b) = MAX_CONSUMED_RANGES \<and> consumed_count b \<le> MAX_CONSUMED_RANGES"

text \<open>Recording a range either appends it or stretches the last one over it.\<close>

lemma record_consumed_cases:
  assumes "table_ok b"
  obtains (new) "consumed_ranges (record_consumed s e b) = consumed_ranges b @ [(s, e)]"
      "table_ok (record_consumed s e b)"
  | (stretch) xs s' e' where "consumed_ranges b = xs @ [(s', e')]"
      "consumed_ranges (record_consumed s e b) = xs @ [(s', e)]" "table_ok (record_consumed s e b)"
proof -
  let ?n = "consumed_count b"
  have len: "length (consumed b) = 16" "?n \<le> 16"
    using assms by (simp_all add: table_ok_def MAX_CONSUMED_RANGES_def)
  have last: "take ?n (consumed b) = take (?n - 1) (consumed b) @ [consumed b ! (?n - 1)]" if "0 < ?n"
    using that len take_Suc_conv_app_nth [of "?n - 1" "consumed b"] by simp
  have upd: "take ?n ((consumed b)[?n - 1 := (fst (consumed b ! (?n - 1)), e)]) =
      take (?n - 1) (consumed b) @ [(fst (consumed b ! (?n - 1)), e)]" if "0 < ?n"
    using that len take_Suc_conv_app_nth [of "?n - 1" "(consumed b)[?n - 1 := (fst (consumed b ! (?n - 1)), e)]"]
    by simp
  consider (merge) "0 < ?n" "snd (consumed b ! (?n - 1)) = s"
    | (room) "\<not> (0 < ?n \<and> snd (consumed b ! (?n - 1)) = s)" "?n < 16"
    | (full) "\<not> (0 < ?n \<and> snd (consumed b ! (?n - 1)) = s)" "?n = 16"
    using len by linarith
  then show thesis
  proof cases
    case merge
    then have "record_consumed s e b = b\<lparr>consumed := (consumed b)[?n - 1 := (fst (consumed b ! (?n - 1)), e)]\<rparr>"
      by (simp add: record_consumed_def Let_def)
    with merge(1) last upd len show thesis
      by (intro stretch [of "take (?n - 1) (consumed b)" "fst (consumed b ! (?n - 1))" "snd (consumed b ! (?n - 1))"])
        (simp_all add: consumed_ranges_def table_ok_def MAX_CONSUMED_RANGES_def)
  next
    case room
    then have "record_consumed s e b = b\<lparr>consumed := (consumed b)[?n := (s, e)], consumed_count := ?n + 1\<rparr>"
      by (auto simp: record_consumed_def Let_def MAX_CONSUMED_RANGES_def)
    with room len show thesis
      by (intro new) (simp_all add: consumed_ranges_def table_ok_def MAX_CONSUMED_RANGES_def take_Suc_conv_app_nth)
  next
    case full
    then have "record_consumed s e b = b\<lparr>consumed := (consumed b)[?n - 1 := (fst (consumed b ! (?n - 1)), e)]\<rparr>"
      by (auto simp: record_consumed_def Let_def MAX_CONSUMED_RANGES_def)
    with full last upd len show thesis
      by (intro stretch [of "take (?n - 1) (consumed b)" "fst (consumed b ! (?n - 1))" "snd (consumed b ! (?n - 1))"])
        (simp_all add: consumed_ranges_def table_ok_def MAX_CONSUMED_RANGES_def)
  qed
qed

lemma record_consumed_rest [simp]:
  "regions (record_consumed s e b) = regions b" "region (record_consumed s e b) = region b"
  "next_address (record_consumed s e b) = next_address b"
  by (simp_all add: record_consumed_def Let_def)

lemma record_consumed_ok:
  assumes "table_ok b" "ranges f (consumed_ranges b)" "f \<le> s" "s < e"
  shows "table_ok (record_consumed s e b)" "ranges e (consumed_ranges (record_consumed s e b))"
    "covers (consumed_ranges (record_consumed s e b)) (s, e)"
    "covers (consumed_ranges b) r \<Longrightarrow> covers (consumed_ranges (record_consumed s e b)) r"
proof -
  show "table_ok (record_consumed s e b)" "ranges e (consumed_ranges (record_consumed s e b))"
    "covers (consumed_ranges (record_consumed s e b)) (s, e)"
    "covers (consumed_ranges b) r \<Longrightarrow> covers (consumed_ranges (record_consumed s e b)) r"
    by (rule record_consumed_cases [OF assms(1), of s e];
        use assms(2-4) in \<open>auto simp: covers_def ranges_def sorted_wrt_append before_def\<close>)+
qed

subsection \<open>The invariant\<close>

text \<open>Where a range may have come from: inside a usable region, on a frame boundary.\<close>

definition in_usable :: "memory_region list \<Rightarrow> nat \<times> nat \<Rightarrow> bool" where
  "in_usable m r \<longleftrightarrow> FRAME_SIZE dvd fst r \<and> fst r < snd r \<and>
     (\<exists>q \<in> set m. kind q = Usable \<and> base q \<le> fst r \<and> snd r \<le> base q + region_length q)"

definition bump_inv :: "memory_region list \<Rightarrow> bump \<Rightarrow> (nat \<times> nat) list \<Rightarrow> bool" where
  "bump_inv m b H \<longleftrightarrow> regions b = m \<and> table_ok b \<and> FRAME_SIZE dvd next_address b \<and>
     (\<exists>f. ahead f b \<and> ranges f (consumed_ranges b) \<and> ranges f H \<and> allocated b * FRAME_SIZE \<le> f) \<and>
     (\<forall>r \<in> set H. in_usable m r \<and> covers (consumed_ranges b) r)"

lemma bump_inv_new: "bump_inv (memory_map h) (bump_new h) []"
proof -
  have "ahead 0 (bump_new h)" "ranges 0 (consumed_ranges (bump_new h))" "ranges 0 []"
    "allocated (bump_new h) * FRAME_SIZE \<le> 0"
    by (simp_all add: ahead_def ranges_def consumed_ranges_def bump_new_def)
  then show ?thesis
    by (auto simp: bump_inv_def bump_new_def table_ok_def)
qed

lemma bump_inv_advance:
  assumes "bump_inv m b H" "advance_to_usable b = Some b'"
  shows "bump_inv m b' H \<and> settled b'"
proof -
  obtain f where f: "ahead f b" "ranges f (consumed_ranges b)" "ranges f H" "allocated b * FRAME_SIZE \<le> f"
    using assms(1) by (auto simp: bump_inv_def)
  from advance_ahead [OF assms(2) f(1)] assms(1) have a: "ahead f b'" "settled b'"
    "consumed b' = consumed b" "consumed_count b' = consumed_count b" "regions b' = regions b"
    "allocated b' = allocated b"
    by (simp_all add: bump_inv_def)
  then have "consumed_ranges b' = consumed_ranges b" "table_ok b' = table_ok b"
    by (simp_all add: consumed_ranges_def table_ok_def)
  with a f assms(1) show ?thesis
    by (auto simp: bump_inv_def settled_def)
qed

lemma bump_inv_skip:
  assumes "bump_inv m b H"
  shows "bump_inv m (skip_region b) H"
  using assms ahead_skip by (auto simp: bump_inv_def table_ok_def consumed_ranges_def)

lemma bump_inv_place:
  assumes ok: "map_ok m" and inv: "bump_inv m b H" and set: "settled b" and len: "region b < length (regions b)"
    and fits: "next_address b + bytes \<le> base (regions b ! region b) + region_length (regions b ! region b)"
    and bytes: "0 < bytes" "bytes = count * FRAME_SIZE"
  shows "bump_inv m (record_consumed (next_address b) (next_address b + bytes)
      (b\<lparr>next_address := next_address b + bytes, allocated := allocated b + count\<rparr>)) (H @ [(next_address b, next_address b + bytes)])"
proof -
  let ?s = "next_address b" and ?e = "next_address b + bytes" and ?r = "regions b ! region b"
  let ?b = "b\<lparr>next_address := ?e, allocated := allocated b + count\<rparr>"
  let ?b' = "record_consumed ?s ?e ?b"
  obtain f where f: "ahead f b" "ranges f (consumed_ranges b)" "ranges f H" "allocated b * FRAME_SIZE \<le> f"
    using inv by (auto simp: bump_inv_def)
  have m: "regions b = m"
    using inv by (simp add: bump_inv_def)
  have r: "kind ?r = Usable" "base ?r \<le> ?s" "FRAME_SIZE dvd ?s"
    using set len by (simp_all add: settled_def)
  have "f \<le> ?s"
    using f(1) len r by (auto simp: ahead_def)
  note rec = record_consumed_ok [of ?b f ?s ?e]
  have t: "table_ok ?b" "consumed_ranges ?b = consumed_ranges b"
    using inv by (simp_all add: bump_inv_def table_ok_def consumed_ranges_def)
  have H: "ranges ?e (H @ [(?s, ?e)])"
    using f(3) \<open>f \<le> ?s\<close> bytes(1) by (fastforce simp: ranges_def sorted_wrt_append before_def)
  have "?e \<le> base (m ! i)" if "region b < i" "i < length m" "kind (m ! i) = Usable" for i
    using map_ok_nth [OF ok that(1,2)] that(3) r(1) fits by (simp add: m)
  then have "ahead ?e ?b'"
    by (auto simp: ahead_def m)
  moreover have "allocated ?b' * FRAME_SIZE \<le> ?e"
    using f(4) \<open>f \<le> ?s\<close> bytes(2) by (simp add: record_consumed_def Let_def algebra_simps)
  moreover have "in_usable m (?s, ?e)"
    using r fits bytes(1) len by (auto simp: in_usable_def m intro!: bexI [of _ ?r])
  ultimately show ?thesis
    using inv rec [OF t(1)] t f \<open>f \<le> ?s\<close> H bytes r(3) by (auto simp: bump_inv_def)
qed

lemma bump_inv_allocate:
  assumes "map_ok m" "bump_inv m b H" "0 < bytes" "bytes = count * FRAME_SIZE"
    "allocate_loop count bytes b = Some (r, b')"
  shows "case r of Inr a \<Rightarrow> bump_inv m b' (H @ [(a, a + bytes)]) | Inl _ \<Rightarrow> bump_inv m b' H"
  using assms(2,5)
proof (induction "length (regions b) - region b" arbitrary: b rule: less_induct)
  case less
  from less.prems(2) show ?case
  proof (cases rule: allocate_loop_cases)
    case (full b1)
    with bump_inv_advance [OF less.prems(1) full(1)] show ?thesis by simp
  next
    case (placed b1)
    with bump_inv_advance [OF less.prems(1) placed(1)] bump_inv_place [OF assms(1) _ _ placed(2,3) assms(3,4)]
    show ?thesis by simp
  next
    case (again b1)
    have "bump_inv m (skip_region b1) H"
      using bump_inv_skip bump_inv_advance [OF less.prems(1) again(1)] by blast
    moreover have "length (regions (skip_region b1)) - region (skip_region b1) < length (regions b) - region b"
      using advance_region [OF again(1)] again(2) by auto
    ultimately show ?thesis
      using less.hyps again(3) by blast
  qed
qed

inductive bump_reachable :: "memory_region list \<Rightarrow> bump \<Rightarrow> (nat \<times> nat) list \<Rightarrow> bool" where
  new: "bump_reachable (memory_map h) (bump_new h) []"
| alloc: "bump_reachable m b H \<Longrightarrow> allocate_contiguous n b = Some (Ok a, b') \<Longrightarrow>
    bump_reachable m b' (H @ [(a, a + n * FRAME_SIZE)])"
| fail: "bump_reachable m b H \<Longrightarrow> allocate_contiguous n b = Some (Error e, b') \<Longrightarrow> bump_reachable m b' H"

lemma bump_reachable_inv:
  assumes "bump_reachable m b H" "map_ok m"
  shows "bump_inv m b H"
  using assms
proof induction
  case (new h)
  show ?case by (rule bump_inv_new)
next
  case (alloc m b H n a b')
  then have "0 < n" "allocate_loop n (n * FRAME_SIZE) b = Some (Ok a, b')"
    by (auto simp: allocate_contiguous_def checked_mul_Some split: if_splits option.splits)
  with alloc bump_inv_allocate [of m b H "n * FRAME_SIZE" n "Ok a" b'] show ?case
    by (simp add: FRAME_SIZE_def mult.commute)
next
  case (fail m b H n e b')
  then have "n = 0 \<and> b' = b \<or> 0 < n \<and> allocate_loop n (n * FRAME_SIZE) b = Some (Error e, b')"
    by (auto simp: allocate_contiguous_def checked_mul_Some split: if_splits option.splits)
  with fail bump_inv_allocate [of m b H "n * FRAME_SIZE" n "Error e" b'] show ?case
    by (auto simp: FRAME_SIZE_def)
qed

subsection \<open>No overflow on a real machine\<close>

text \<open>Physical addresses of the architecture have at most 52 bits.\<close>

definition low_map :: "memory_region list \<Rightarrow> bool" where
  "low_map m \<longleftrightarrow> (\<forall>r \<in> set m. base r + region_length r \<le> 2 ^ 52)"

definition low_next :: "bump \<Rightarrow> bool" where
  "low_next b \<longleftrightarrow> low_map (regions b) \<and> next_address b \<le> 2 ^ 53"

lemma align_up_total:
  assumes "v \<le> 2 ^ 52"
  shows "\<exists>s. align_up v FRAME_SIZE = Some s \<and> s \<le> 2 ^ 53"
proof -
  have "v + FRAME_SIZE \<le> max_of 64"
    using assms by (simp add: FRAME_SIZE_def max_of_def)
  moreover have "unat ((of_nat (v + FRAME_SIZE - 1) :: u64) AND NOT (of_nat (FRAME_SIZE - 1))) \<le> v + FRAME_SIZE"
    by (rule order_trans [OF unat_and_le1]) (simp only: unat_of_nat, rule order_trans [OF mod_less_eq_dividend], simp)
  ultimately show ?thesis
    using assms by (simp add: align_up_def checked_add_def FRAME_SIZE_def)
qed

lemma advance_total:
  assumes "low_next b"
  shows "\<exists>b'. advance_to_usable b = Some b' \<and> low_next b'"
  using assms
proof (induction "length (regions b) - region b" arbitrary: b rule: less_induct)
  case less
  let ?r = "regions b ! region b"
  show ?case
  proof (cases "region b < length (regions b)")
    case False
    with less.prems show ?thesis
      by (subst (1) advance_to_usable.simps) simp
  next
    case len: True
    then have r: "base ?r + region_length ?r \<le> 2 ^ 52"
      using less.prems by (simp add: low_next_def low_map_def)
    have skip: "\<exists>b'. advance_to_usable (skip_region b) = Some b' \<and> low_next b'"
      by (rule less.hyps) (use len less.prems in \<open>auto simp: low_next_def\<close>)
    obtain start where s: "align_up (base ?r) FRAME_SIZE = Some start" "start \<le> 2 ^ 53"
      using align_up_total [of "base ?r"] r by auto
    define n where "n = max (next_address b) start"
    have n: "n \<le> 2 ^ 53"
      using s less.prems by (simp add: n_def low_next_def)
    have "advance_to_usable b =
        (if kind ?r = Usable \<and> n + FRAME_SIZE \<le> base ?r + region_length ?r
         then Some (b\<lparr>next_address := n\<rparr>) else advance_to_usable (skip_region b))"
      using len s(1) n r
      by (subst advance_to_usable.simps)
        (auto simp: Let_def n_def max_def checked_add_def region_end_def max_of_def FRAME_SIZE_def)
    with skip n less.prems show ?thesis
      by (auto simp: low_next_def)
  qed
qed

lemma allocate_total:
  assumes "map_ok m" "bump_inv m b H" "low_next b" "bytes = count * FRAME_SIZE" "bytes \<le> 2 ^ 60"
  shows "\<exists>r b'. allocate_loop count bytes b = Some (r, b') \<and> low_next b' \<and>
    (case r of Inr a \<Rightarrow> True | Inl e \<Rightarrow> e = Err BumpOutOfMemory)"
  using assms(2,3)
proof (induction "length (regions b) - region b" arbitrary: b rule: less_induct)
  case less
  obtain b1 where b1: "advance_to_usable b = Some b1" "low_next b1"
    using advance_total [OF less.prems(2)] by blast
  have inv: "bump_inv m b1 H" "settled b1"
    using bump_inv_advance [OF less.prems(1) b1(1)] by simp_all
  let ?r = "regions b1 ! region b1" and ?n = "next_address b1"
  show ?case
  proof (cases "region b1 < length (regions b1)")
    case False
    then show ?thesis
      using b1 by (subst allocate_loop.simps) simp
  next
    case len: True
    then have r: "base ?r + region_length ?r \<le> 2 ^ 52"
      using b1(2) by (simp add: low_next_def low_map_def)
    have n: "?n \<le> 2 ^ 53"
      using b1(2) by (simp add: low_next_def)
    obtain f where f: "ahead f b1" "allocated b1 * FRAME_SIZE \<le> f"
      using inv(1) by (auto simp: bump_inv_def)
    have "f \<le> ?n"
      using f(1) len inv(2) by (auto simp: ahead_def settled_def)
    then have a: "allocated b1 + count \<le> max_of 64" if "?n + bytes \<le> base ?r + region_length ?r"
      using that f(2) assms(4) r by (simp add: FRAME_SIZE_def max_of_def)
    have again: "\<exists>r b'. allocate_loop count bytes (skip_region b1) = Some (r, b') \<and> low_next b' \<and>
        (case r of Inr a \<Rightarrow> True | Inl e \<Rightarrow> e = Err BumpOutOfMemory)"
    proof (rule less.hyps)
      show "length (regions (skip_region b1)) - region (skip_region b1) < length (regions b) - region b"
        using advance_region [OF b1(1)] len by auto
    qed (use bump_inv_skip [OF inv(1)] b1(2) in \<open>auto simp: low_next_def\<close>)
    have "allocate_loop count bytes b =
        (if ?n + bytes \<le> base ?r + region_length ?r
         then Some (Ok ?n, record_consumed ?n (?n + bytes)
                (b1\<lparr>next_address := ?n + bytes, allocated := allocated b1 + count\<rparr>))
         else allocate_loop count bytes (skip_region b1))"
      using b1(1) len n r a assms(5)
      by (subst allocate_loop.simps) (simp add: checked_add_def region_end_def max_of_def)
    with again b1(2) r show ?thesis
      by (auto simp: low_next_def)
  qed
qed

lemma allocate_low:
  assumes "low_next b" "allocate_loop count bytes b = Some (r, b')"
  shows "low_next b'"
  using assms
proof (induction "length (regions b) - region b" arbitrary: b rule: less_induct)
  case less
  have low: "low_next b1" if "advance_to_usable b = Some b1" for b1
    using advance_total [OF less.prems(1)] that by auto
  from less.prems(2) show ?case
  proof (cases rule: allocate_loop_cases)
    case (full b1)
    with low show ?thesis by simp
  next
    case (placed b1)
    have "base (regions b1 ! region b1) + region_length (regions b1 ! region b1) \<le> 2 ^ 52"
      using low [OF placed(1)] placed(2) by (simp add: low_next_def low_map_def)
    with placed low [OF placed(1)] show ?thesis
      by (simp add: low_next_def)
  next
    case (again b1)
    have "length (regions (skip_region b1)) - region (skip_region b1) < length (regions b) - region b"
      using advance_region [OF again(1)] again(2) by auto
    moreover have "low_next (skip_region b1)"
      using low [OF again(1)] by (simp add: low_next_def)
    ultimately show ?thesis
      using less.hyps again(3) by blast
  qed
qed

lemma bump_reachable_low:
  assumes "bump_reachable m b H" "low_map m"
  shows "low_next b"
  using assms
proof induction
  case (new h)
  then show ?case by (simp add: low_next_def bump_new_def)
next
  case (alloc m b H n a b')
  then show ?case
    by (auto simp: allocate_contiguous_def intro: allocate_low split: if_splits option.splits)
next
  case (fail m b H n e b')
  then show ?case
    by (auto simp: allocate_contiguous_def intro: allocate_low split: if_splits option.splits)
qed

subsection \<open>The allocator's promise\<close>

text \<open>
  C38. On a map the kernel accepted, every run of the bump allocator hands out frame-aligned ranges
  inside usable regions, each above the one before, so none overlaps another; and the ranges it
  records for its successor are sorted, do not overlap, and cover everything it handed out, also
  when its table of sixteen is full.
\<close>

theorem bump_ranges:
  assumes "validate h = Ok ()" "bump_reachable (memory_map h) b H"
  shows "sorted_wrt before H \<and> (\<forall>r \<in> set H. in_usable (memory_map h) r) \<and>
    sorted_wrt before (consumed_ranges b) \<and> (\<forall>r \<in> set H. covers (consumed_ranges b) r)"
  using bump_reachable_inv [OF assms(2) validate_map [OF assms(1)]]
  by (auto simp: bump_inv_def ranges_def)

definition ex_map :: handoff where
  "ex_map = \<lparr>version = 4, memory_map = [
     \<lparr>base = 0x1000, region_length = 0x1000, kind = Usable\<rparr>,
     \<lparr>base = 0x2000, region_length = 0x1000, kind = ReservedMemory\<rparr>,
     \<lparr>base = 0x10000, region_length = 0x10000, kind = Usable\<rparr>], hhdm_base = 0xffff800000000000\<rparr>"

lemma ex_map_valid: "validate ex_map = Ok ()"
  by (simp add: ex_map_def validate_def is_supported_def HANDOFF_VERSION_def usable_bytes_def
      region_end_def checked_add_def max_of_def)

lemma ex_bump_alloc:
  "\<exists>b'. allocate_contiguous 2 (bump_new ex_map) = Some (Ok 0x10000, b')"
proof -
  have up: "align_up 0x1000 FRAME_SIZE = Some 0x1000" "align_up 0x10000 FRAME_SIZE = Some 0x10000"
    by (simp_all add: align_up_def FRAME_SIZE_def checked_add_def max_of_def)
  show ?thesis
    by (simp add: allocate_contiguous_def allocate_loop.simps advance_to_usable.simps bump_new_def ex_map_def
        region_end_def checked_add_def checked_mul_def max_of_def FRAME_SIZE_def up [unfolded FRAME_SIZE_def])
qed

theorem bump_ranges_witness:
  "\<exists>b. bump_reachable (memory_map ex_map) b [(0x10000, 0x12000)] \<and>
     covers (consumed_ranges b) (0x10000, 0x12000)"
proof -
  obtain b where b: "allocate_contiguous 2 (bump_new ex_map) = Some (Ok 0x10000, b)"
    using ex_bump_alloc by blast
  have "bump_reachable (memory_map ex_map) b [(0x10000, 0x12000)]"
    using bump_reachable.alloc [OF bump_reachable.new b] by (simp add: FRAME_SIZE_def)
  with bump_ranges [OF ex_map_valid this] show ?thesis by auto
qed

end
