(* ===== verification/MemoryInit.thy ===== *)
theory MemoryInit
  imports BuddyProps BumpProps
begin









text \<open>
  The boot self-test: sixty-four blocks of orders zero to four, returned in reverse. The messages it
  prints are left out.
\<close>

definition self_test :: "pmm \<Rightarrow> (bool \<times> pmm) option" where
  "self_test p =
     (let baseline = free_frames p in
      do {
        (live, p) \<leftarrow> grab (\<lambda>k. allocate k Normal) (map (\<lambda>i. i mod 5) [0..<64]) [] p;
        (ok, p) \<leftarrow> give_back free_block (rev live) p;
        if \<not> ok then Some (False, p)
        else Some (free_frames p = baseline \<and> check_invariants p = Ok (), p)
      })"

subsection \<open>Whole frames\<close>



text \<open>Every frame of \<open>R\<close> ends at or below \<open>lo\<close>.\<close>

definition below :: "nat set \<Rightarrow> nat \<Rightarrow> bool" where
  "below R lo \<longleftrightarrow> (\<forall>f \<in> R. f * FRAME_SIZE + FRAME_SIZE \<le> lo)"


lemma below_Un [simp]: "below (R \<union> S) lo \<longleftrightarrow> below R lo \<and> below S lo"
  by (auto simp: below_def)







subsection \<open>The whole map\<close>








subsection \<open>Bring-up\<close>








text \<open>
  C39. The self-test that runs at every boot cannot fail on a sound allocator: whatever is free and
  whatever others hold, it returns true and leaves as many frames free as it found.
\<close>

theorem self_test_passes:
  assumes "pmm_reachable p U R"
  shows "\<exists>p'. self_test p = Some (True, p') \<and> free_frames p' = free_frames p"
proof -
  have P: "pool_inv p U"
    using reachable_pool [OF assms] by (auto simp: pool_inv_def)
  obtain bs p1 p2 where r: "grab (\<lambda>k. allocate k Normal) (map (\<lambda>i. i mod 5) [0..<64]) [] p = Some (bs, p1)"
    "give_back free_block (rev bs) p1 = Some (True, p2)" "pool_inv p2 U" "free_frames p2 = free_frames p"
    by (rule normal.round_trip [OF P, of "map (\<lambda>i. i mod 5) [0..<64]"]) (auto simp: MAX_ORDER_def)
  moreover have "check_invariants p2 = Ok ()"
    using r(3) check_invariants_ok by (auto simp: pool_inv_def)
  ultimately show ?thesis
    by (simp add: self_test_def Let_def)
qed

theorem self_test_passes_witness:
  "pmm_reachable ex_taken {(0, 0)} {0..<2} \<and> (\<exists>p'. self_test ex_taken = Some (True, p'))"
  using self_test_passes [OF ex_taken_reachable] ex_taken_reachable by blast

end
