(* ===== verification/SharedRing.thy ===== *)
theory SharedRing
  imports Prelude "HOL-Library.Log_Nat" "HOL-Library.Monad_Syntax"
begin

text \<open>
  The shared-memory ring of \<^verbatim>\<open>src/abi/src/ring.rs\<close>: the layout of a region, the validated pair of
  indices, the runs of bytes a transfer covers, and the framing that puts a length and a bond
  member in front of each frame.

  The module only computes offsets; nothing in it touches memory. Indices are free-running
  64-bit words. Lengths and offsets (\<open>usize\<close>) are natural numbers, each below the length of a
  region. The two additions to an index in the framing functions wrap: the programs that link
  this module build it with a release profile without overflow checks, and the module header
  says that the indices wrap.
\<close>

subsection \<open>The layout of a region\<close>

definition HEADER_BYTES :: nat where "HEADER_BYTES = 64"
definition HEAD_OFFSET :: nat where "HEAD_OFFSET = 0"
definition TAIL_OFFSET :: nat where "TAIL_OFFSET = 32"
definition DATA_OFFSET :: nat where "DATA_OFFSET = HEADER_BYTES"

lemmas ring_offsets = HEADER_BYTES_def HEAD_OFFSET_def TAIL_OFFSET_def DATA_OFFSET_def

record ring_layout =
  ring_capacity :: nat

text \<open>\<open>usize::leading_zeros\<close>, for a 64-bit \<open>usize\<close>.\<close>

definition leading_zeros :: "nat \<Rightarrow> nat" where
  "leading_zeros n = 64 - floorlog 2 n"

definition for_region :: "nat \<Rightarrow> ring_layout option" where
  "for_region len =
    (if len \<le> HEADER_BYTES then None
     else
       let usable = len - HEADER_BYTES;
           capacity = 2 ^ (64 - 1 - leading_zeros usable) in
       if capacity = 0 then None else Some \<lparr>ring_capacity = capacity\<rparr>)"

definition data_offset :: "ring_layout \<Rightarrow> nat" where
  "data_offset l = DATA_OFFSET"

definition offset_of :: "ring_layout \<Rightarrow> u64 \<Rightarrow> nat" where
  "offset_of l ix = DATA_OFFSET + unat (ix AND of_nat (ring_capacity l - 1))"

subsection \<open>The validated indices\<close>

record cursor =
  c_head :: u64
  c_tail :: u64
  c_capacity :: nat

definition cursor_new :: "ring_layout \<Rightarrow> u64 \<Rightarrow> u64 \<Rightarrow> cursor option" where
  "cursor_new l head tail =
    (let used = head - tail in
     if ring_capacity l < unat used then None
     else Some \<lparr>c_head = head, c_tail = tail, c_capacity = ring_capacity l\<rparr>)"

definition readable :: "cursor \<Rightarrow> nat" where
  "readable c = unat (c_head c - c_tail c)"

definition writable :: "cursor \<Rightarrow> nat" where
  "writable c = c_capacity c - readable c"

definition cursor_is_empty :: "cursor \<Rightarrow> bool" where
  "cursor_is_empty c \<longleftrightarrow> readable c = 0"

subsection \<open>Runs\<close>

record run =
  offset :: nat
  run_length :: nat

definition run_is_empty :: "run \<Rightarrow> bool" where
  "run_is_empty r \<longleftrightarrow> run_length r = 0"

definition runs_from :: "ring_layout \<Rightarrow> u64 \<Rightarrow> nat \<Rightarrow> run \<times> run" where
  "runs_from l from count =
    (let empty = \<lparr>offset = DATA_OFFSET, run_length = 0\<rparr> in
     if count = 0 then (empty, empty)
     else
       let start = offset_of l from;
           to_end = DATA_OFFSET + ring_capacity l - start;
           first = min count to_end in
       (\<lparr>offset = start, run_length = first\<rparr>,
        \<lparr>offset = DATA_OFFSET, run_length = count - first\<rparr>))"

definition read_runs :: "ring_layout \<Rightarrow> cursor \<Rightarrow> nat \<Rightarrow> run \<times> run" where
  "read_runs l c count = runs_from l (c_tail c) (min count (readable c))"

definition write_runs :: "ring_layout \<Rightarrow> cursor \<Rightarrow> nat \<Rightarrow> run \<times> run" where
  "write_runs l c count = runs_from l (c_head c) (min count (writable c))"

subsection \<open>The length prefix\<close>

definition PREFIX :: nat where "PREFIX = 4"
definition MEMBER_SHIFT :: nat where "MEMBER_SHIFT = 24"
definition MEMBER_MASK :: u32 where "MEMBER_MASK = push_bit MEMBER_SHIFT 0xf"
definition UPLINK :: u32 where "UPLINK = push_bit 28 1"
definition LENGTH_MASK :: u32 where "LENGTH_MASK = push_bit MEMBER_SHIFT 1 - 1"

definition mark :: "u32 \<Rightarrow> u8 option \<Rightarrow> bool \<Rightarrow> u32" where
  "mark len member uplink =
    (let named = (case member of
        Some index \<Rightarrow> (len AND LENGTH_MASK) OR push_bit MEMBER_SHIFT (ucast index + 1)
      | None \<Rightarrow> len AND LENGTH_MASK) in
     if uplink then named OR UPLINK else named)"

definition marked :: "u32 \<Rightarrow> nat \<times> u8 option \<times> bool" where
  "marked prefix =
    (let member = drop_bit MEMBER_SHIFT (prefix AND MEMBER_MASK);
         which = (if member = 0 then None else Some (ucast (member - 1))) in
     (unat (prefix AND LENGTH_MASK), which, prefix AND UPLINK \<noteq> 0))"

subsection \<open>Frames\<close>

record framed =
  f_prefix :: "run \<times> run"
  f_payload :: "run \<times> run"
  f_next :: u64

definition frame_to_write :: "ring_layout \<Rightarrow> cursor \<Rightarrow> nat \<Rightarrow> framed option" where
  "frame_to_write l c len = do {
     total \<leftarrow> checked_add 64 PREFIX len;
     if len = 0 \<or> writable c < total then None
     else do {
       let prefix = write_runs l c PREFIX;
       after_prefix \<leftarrow> cursor_new l (c_head c + of_nat PREFIX) (c_tail c);
       let payload = write_runs l after_prefix len;
       Some \<lparr>f_prefix = prefix, f_payload = payload, f_next = c_head c + of_nat total\<rparr>
     }
   }"

definition length_to_read :: "ring_layout \<Rightarrow> cursor \<Rightarrow> (run \<times> run) option" where
  "length_to_read l c = (if PREFIX \<le> readable c then Some (read_runs l c PREFIX) else None)"

definition frame_to_read :: "ring_layout \<Rightarrow> cursor \<Rightarrow> nat \<Rightarrow> framed option" where
  "frame_to_read l c len = do {
     total \<leftarrow> checked_add 64 PREFIX len;
     if len = 0 \<or> readable c < total then None
     else do {
       let prefix = read_runs l c PREFIX;
       after_prefix \<leftarrow> cursor_new l (c_head c) (c_tail c + of_nat PREFIX);
       let payload = read_runs l after_prefix len;
       Some \<lparr>f_prefix = prefix, f_payload = payload, f_next = c_tail c + of_nat total\<rparr>
     }
   }"

subsection \<open>The layout is a power of two that fits\<close>

definition layout_ok :: "ring_layout \<Rightarrow> bool" where
  "layout_ok l \<longleftrightarrow> (\<exists>k < 64. ring_capacity l = 2 ^ k)"

lemma layout_okE:
  assumes "layout_ok l"
  obtains k where "k < 64" "ring_capacity l = 2 ^ k"
  using assms by (auto simp: layout_ok_def)

lemma layout_ok_pos [simp]: "layout_ok l \<Longrightarrow> 0 < ring_capacity l"
  by (auto simp: layout_ok_def)

lemma layout_ok_less:
  assumes "layout_ok l"
  shows "ring_capacity l < 2 ^ 64"
proof -
  obtain k where "k < 64" "ring_capacity l = 2 ^ k"
    using assms by (rule layout_okE)
  then show ?thesis
    by (simp only: power_strict_increasing_iff)
qed

lemma capacity_exponent:
  assumes "0 < n" "n < 2 ^ 64"
  shows "64 - 1 - leading_zeros n = floorlog 2 n - 1" "floorlog 2 n - 1 < 64"
    "2 ^ (floorlog 2 n - 1) \<le> n" "n < 2 * 2 ^ (floorlog 2 n - 1)"
proof -
  have b: "2 ^ (floorlog 2 n - 1) \<le> n" "n < 2 ^ floorlog 2 n" "0 < floorlog 2 n"
    using floorlog_bounds [of n 2] assms by (auto simp: floorlog_def)
  have "(2 :: nat) ^ (floorlog 2 n - 1) < 2 ^ 64"
    using b(1) assms(2) by (rule le_less_trans)
  then show "floorlog 2 n - 1 < 64"
    by (simp only: power_strict_increasing_iff)
  then show "64 - 1 - leading_zeros n = floorlog 2 n - 1"
    using b(3) by (simp add: leading_zeros_def)
  show "2 ^ (floorlog 2 n - 1) \<le> n" by (rule b(1))
  have "(2 :: nat) ^ floorlog 2 n = 2 * 2 ^ (floorlog 2 n - 1)"
    using b(3) by (cases "floorlog 2 n") simp_all
  then show "n < 2 * 2 ^ (floorlog 2 n - 1)"
    using b(2) by simp
qed

lemma for_region_ok:
  assumes "for_region len = Some l" "len < 2 ^ 64"
  shows "layout_ok l" "DATA_OFFSET + ring_capacity l \<le> len" "len < DATA_OFFSET + 2 * ring_capacity l"
proof -
  have n: "0 < len - 64" "len - 64 < 2 ^ 64"
    using assms by (auto simp: for_region_def ring_offsets split: if_splits)
  have l: "ring_capacity l = 2 ^ (floorlog 2 (len - 64) - 1)"
    using assms(1) capacity_exponent(1) [OF n] n(1)
    by (auto simp: for_region_def ring_offsets Let_def split: if_splits)
  show "layout_ok l"
    using l capacity_exponent(2) [OF n] by (auto simp: layout_ok_def)
  show "DATA_OFFSET + ring_capacity l \<le> len" "len < DATA_OFFSET + 2 * ring_capacity l"
    using capacity_exponent(3, 4) [OF n] n(1) unfolding l ring_offsets by arith+
qed

lemma offset_of_eq:
  assumes "layout_ok l"
  shows "offset_of l ix = DATA_OFFSET + unat ix mod ring_capacity l"
proof -
  obtain k where k: "k < 64" "ring_capacity l = 2 ^ k"
    using assms by (rule layout_okE)
  have "of_nat (ring_capacity l - 1) = (mask k :: u64)"
    by (simp add: k mask_eq_exp_minus_1 of_nat_diff)
  then have "ix AND of_nat (ring_capacity l - 1) = take_bit k ix"
    by (simp add: take_bit_eq_mask)
  then have "unat (ix AND of_nat (ring_capacity l - 1)) = take_bit k (unat ix)"
    by (simp only: unsigned_take_bit_eq)
  then show ?thesis
    by (simp add: offset_of_def k take_bit_eq_mod)
qed

lemma offset_of_bounds:
  "layout_ok l \<Longrightarrow> DATA_OFFSET \<le> offset_of l ix \<and> offset_of l ix < DATA_OFFSET + ring_capacity l"
  by (simp add: offset_of_eq)

lemma offset_of_nat:
  assumes "layout_ok l"
  shows "offset_of l (of_nat i) = DATA_OFFSET + i mod ring_capacity l"
proof -
  obtain k where k: "k < 64" "ring_capacity l = 2 ^ k"
    using assms by (rule layout_okE)
  have "(2 :: nat) ^ k dvd 2 ^ 64"
    using k(1) by (intro le_imp_power_dvd) simp
  then show ?thesis
    by (simp add: offset_of_eq assms unat_of_nat k mod_mod_cancel)
qed

lemma cursor_new_Some:
  "cursor_new l head tail = Some c \<longleftrightarrow>
     unat (head - tail) \<le> ring_capacity l \<and>
     c = \<lparr>c_head = head, c_tail = tail, c_capacity = ring_capacity l\<rparr>"
  by (auto simp: cursor_new_def Let_def)

subsection \<open>Runs are windows of the index space\<close>

text \<open>
  The byte of free-running index \<open>j\<close> is at \<open>DATA_OFFSET + j mod capacity\<close>. The runs of a transfer
  of \<open>n\<close> bytes from index \<open>i\<close> cover exactly the offsets of the indices \<open>i, \<dots>, i + n - 1\<close>.
\<close>

definition slot :: "nat \<Rightarrow> nat \<Rightarrow> nat" where
  "slot K j = DATA_OFFSET + j mod K"

definition run_bytes :: "run \<times> run \<Rightarrow> nat set" where
  "run_bytes rs = {offset (fst rs)..<offset (fst rs) + run_length (fst rs)} \<union>
                  {offset (snd rs)..<offset (snd rs) + run_length (snd rs)}"

definition run_total :: "run \<times> run \<Rightarrow> nat" where
  "run_total rs = run_length (fst rs) + run_length (snd rs)"

lemma run_total_from [simp]: "run_total (runs_from l i n) = n"
  by (simp add: run_total_def runs_from_def Let_def)

lemma mod_segment:
  fixes i K j :: nat
  assumes "0 < K" "j < K"
  shows "(i + j) mod K = (if j < K - i mod K then i mod K + j else j - (K - i mod K))"
proof -
  have im: "i mod K < K" using assms(1) by simp
  have "(i + j) mod K = (i mod K + j) mod K" by (simp add: mod_simps)
  also have "\<dots> = (if i mod K + j < K then i mod K + j else i mod K + j - K)"
  proof (cases "i mod K + j < K")
    case False
    then have "i mod K + j - K < K" using assms im by arith
    with False show ?thesis using le_mod_geq [of K "i mod K + j"] by simp
  qed simp
  finally show ?thesis using im by auto
qed

lemma slot_segment:
  assumes "0 < K" "j < K"
  shows "slot K (i + j) =
    (if j < K - i mod K then slot K i + j else DATA_OFFSET + (j - (K - i mod K)))"
  using mod_segment [OF assms, of i] by (simp add: slot_def)

lemma slot_inj:
  assumes "slot K i = slot K j" "i \<le> j" "j < i + K"
  shows "i = j"
proof -
  have "K dvd j - i"
    using assms(1,2) by (metis add_left_cancel mod_eq_dvd_iff_nat slot_def)
  with assms(2,3) show ?thesis
    by (auto dest: dvd_imp_le)
qed

lemma runs_from_nat:
  assumes "layout_ok l" "n \<le> ring_capacity l"
  shows "runs_from l (of_nat i) n =
    (if n = 0 then (\<lparr>offset = DATA_OFFSET, run_length = 0\<rparr>, \<lparr>offset = DATA_OFFSET, run_length = 0\<rparr>)
     else (let first = min n (ring_capacity l - i mod ring_capacity l) in
       (\<lparr>offset = slot (ring_capacity l) i, run_length = first\<rparr>,
        \<lparr>offset = DATA_OFFSET, run_length = n - first\<rparr>)))"
  using assms by (simp add: runs_from_def Let_def offset_of_nat slot_def)

lemma run_bytes_from_nat:
  assumes "layout_ok l" "n \<le> ring_capacity l"
  shows "run_bytes (runs_from l (of_nat i) n) = slot (ring_capacity l) ` {i..<i + n}"
proof -
  define K where "K = ring_capacity l"
  define a where "a = K - i mod K"
  have K: "0 < K" "n \<le> K" using assms by (simp_all add: K_def)
  have im: "i mod K < K" using K by simp
  have seg: "slot K ` {i..<i + n} = (\<lambda>j. slot K (i + j)) ` {..<n}"
    unfolding image_image [symmetric, of "slot K" "(+) i"]
    by (simp add: lessThan_atLeast0 add.commute)
  have "(\<lambda>j. slot K (i + j)) ` {..<n} =
      (\<lambda>j. if j < a then slot K i + j else DATA_OFFSET + (j - a)) ` {..<n}"
    using K slot_segment [of K _ i] by (intro image_cong) (auto simp: a_def)
  also have "\<dots> = {slot K i..<slot K i + min n a} \<union> {DATA_OFFSET..<DATA_OFFSET + (n - min n a)}"
    (is "?f ` _ = ?S")
  proof (intro set_eqI iffI)
    fix x assume "x \<in> ?S"
    then consider "x - slot K i < min n a" "slot K i \<le> x"
      | "x - DATA_OFFSET + a < n" "DATA_OFFSET \<le> x" "min n a = a" by force
    then show "x \<in> ?f ` {..<n}"
    proof cases
      case 1 then show ?thesis by (intro image_eqI [of _ _ "x - slot K i"]) auto
    next
      case 2 then show ?thesis by (intro image_eqI [of _ _ "x - DATA_OFFSET + a"]) auto
    qed
  qed (auto split: if_splits)
  finally show ?thesis
    using assms seg by (auto simp: runs_from_nat run_bytes_def Let_def K_def [symmetric] a_def [symmetric])
qed

lemma slot_in_region: "0 < K \<Longrightarrow> slot K j \<in> {DATA_OFFSET..<DATA_OFFSET + K}"
  by (simp add: slot_def)

lemma slots_disjoint:
  assumes "b \<le> c" "d \<le> a + K"
  shows "slot K ` {a..<b} \<inter> slot K ` {c..<d} = {}"
proof (rule equals0I)
  fix x assume "x \<in> slot K ` {a..<b} \<inter> slot K ` {c..<d}"
  then obtain i j where "i \<in> {a..<b}" "j \<in> {c..<d}" "slot K i = slot K j" by auto
  with slot_inj [of K i j] assms show False by auto
qed

subsection \<open>Every run lies in the data area, whatever the indices\<close>

lemma cursor_nat:
  assumes "cursor_new l head tail = Some c"
  obtains T U where "tail = of_nat T" "head = of_nat (T + U)" "readable c = U" "U \<le> ring_capacity l"
    "writable c = ring_capacity l - U" "c_head c = head" "c_tail c = tail"
proof
  show "tail = of_nat (unat tail)" "head = of_nat (unat tail + unat (head - tail))" by simp_all
qed (use assms in \<open>auto simp: cursor_new_Some readable_def writable_def\<close>)

lemma nat_readable:
  assumes "layout_ok l" "U \<le> ring_capacity l"
  shows "unat (of_nat (T + U) - of_nat T :: u64) = U"
  using layout_ok_less [OF assms(1)] assms(2) by (simp add: unat_of_nat)

lemma cursor_of_nat:
  assumes "layout_ok l" "U \<le> ring_capacity l"
  shows "cursor_new l (of_nat (T + U)) (of_nat T) =
    Some \<lparr>c_head = of_nat (T + U), c_tail = of_nat T, c_capacity = ring_capacity l\<rparr>"
  using nat_readable [OF assms, of T] assms(2) by (simp only: cursor_new_def Let_def) simp

lemma readable_of_nat:
  assumes "layout_ok l" "U \<le> ring_capacity l"
  shows "readable \<lparr>c_head = of_nat (T + U), c_tail = of_nat T, c_capacity = k\<rparr> = U"
  using nat_readable [OF assms, of T] by (simp only: readable_def cursor.simps)

lemma runs_outside_other_side:
  assumes "layout_ok l" "cursor_new l head tail = Some c"
  shows "run_bytes (read_runs l c m) \<inter> run_bytes (write_runs l c n) = {}"
    "run_bytes (read_runs l c m) \<union> run_bytes (write_runs l c n) \<subseteq> {DATA_OFFSET..<DATA_OFFSET + ring_capacity l}"
proof -
  obtain T U where c: "tail = of_nat T" "head = of_nat (T + U)" "readable c = U" "U \<le> ring_capacity l"
      "writable c = ring_capacity l - U" "c_head c = head" "c_tail c = tail"
    using assms(2) by (rule cursor_nat)
  have r: "run_bytes (read_runs l c m) = slot (ring_capacity l) ` {T..<T + min m U}"
    by (simp only: read_runs_def c)
      (rule run_bytes_from_nat [OF assms(1)], rule min.coboundedI2, rule c(4))
  have w: "run_bytes (write_runs l c n) =
      slot (ring_capacity l) ` {T + U..<T + U + min n (ring_capacity l - U)}"
    by (simp only: write_runs_def c) (rule run_bytes_from_nat [OF assms(1)], simp)
  show "run_bytes (read_runs l c m) \<inter> run_bytes (write_runs l c n) = {}"
    unfolding r w by (rule slots_disjoint) (use c(4) in auto)
  show "run_bytes (read_runs l c m) \<union> run_bytes (write_runs l c n) \<subseteq>
      {DATA_OFFSET..<DATA_OFFSET + ring_capacity l}"
    unfolding r w using slot_in_region [OF layout_ok_pos [OF assms(1)]] by blast
qed

lemma frame_to_write_split:
  assumes "frame_to_write l c n = Some f"
  obtains c' where "0 < n" "PREFIX + n \<le> writable c" "f_prefix f = write_runs l c PREFIX"
    "cursor_new l (c_head c + of_nat PREFIX) (c_tail c) = Some c'"
    "f_payload f = write_runs l c' n" "f_next f = c_head c + of_nat (PREFIX + n)"
  using assms
  by (auto simp: frame_to_write_def checked_add_Some bind_eq_Some_conv Let_def split: if_splits)

lemma frame_to_read_split:
  assumes "frame_to_read l c n = Some f"
  obtains c' where "0 < n" "PREFIX + n \<le> readable c" "f_prefix f = read_runs l c PREFIX"
    "cursor_new l (c_head c) (c_tail c + of_nat PREFIX) = Some c'"
    "f_payload f = read_runs l c' n" "f_next f = c_tail c + of_nat (PREFIX + n)"
  using assms
  by (auto simp: frame_to_read_def checked_add_Some bind_eq_Some_conv Let_def split: if_splits)

lemma after_prefix_write:
  assumes "layout_ok l" "cursor_new l head tail = Some c" "PREFIX \<le> writable c"
    "cursor_new l (c_head c + of_nat PREFIX) (c_tail c) = Some c'"
  shows "writable c' = writable c - PREFIX"
proof -
  obtain T U where c: "tail = of_nat T" "head = of_nat (T + U)" "readable c = U" "U \<le> ring_capacity l"
      "writable c = ring_capacity l - U" "c_head c = head" "c_tail c = tail"
    using assms(2) by (rule cursor_nat)
  have U: "U + PREFIX \<le> ring_capacity l" using assms(3) c(4,5) by arith
  have h: "c_head c + of_nat PREFIX = of_nat (T + (U + PREFIX))" by (simp add: c ac_simps)
  have c': "c' = \<lparr>c_head = of_nat (T + (U + PREFIX)), c_tail = of_nat T, c_capacity = ring_capacity l\<rparr>"
    using assms(4) unfolding h unfolding c(7) c(1) cursor_new_Some by (rule conjunct2)
  have "readable c' = U + PREFIX" "c_capacity c' = ring_capacity l"
    unfolding c' by (rule readable_of_nat [OF assms(1) U]) simp
  then show ?thesis by (simp add: writable_def [of c'] c(5))
qed

lemma after_prefix_read:
  assumes "layout_ok l" "cursor_new l head tail = Some c" "PREFIX \<le> readable c"
    "cursor_new l (c_head c) (c_tail c + of_nat PREFIX) = Some c'"
  shows "readable c' = readable c - PREFIX"
proof -
  obtain T U where c: "tail = of_nat T" "head = of_nat (T + U)" "readable c = U" "U \<le> ring_capacity l"
      "writable c = ring_capacity l - U" "c_head c = head" "c_tail c = tail"
    using assms(2) by (rule cursor_nat)
  have U: "U - PREFIX \<le> ring_capacity l" using c(4) by arith
  have t: "c_tail c + of_nat PREFIX = of_nat (T + PREFIX)" by (simp add: c)
  have h: "c_head c = of_nat ((T + PREFIX) + (U - PREFIX))"
    using assms(3) c(3) unfolding c(6) c(2) by (metis add.assoc le_add_diff_inverse)
  have c': "c' = \<lparr>c_head = of_nat ((T + PREFIX) + (U - PREFIX)), c_tail = of_nat (T + PREFIX),
      c_capacity = ring_capacity l\<rparr>"
    using assms(4) unfolding h t cursor_new_Some by (rule conjunct2)
  show ?thesis
    unfolding c' readable_of_nat [OF assms(1) U] by (simp add: c(3))
qed

lemma frame_parts:
  assumes "layout_ok l" "cursor_new l head tail = Some c"
    "frame_to_write l c n = Some f \<or> frame_to_read l c n = Some f"
  obtains h t c' where "cursor_new l h t = Some c'"
    "run_bytes (f_prefix f) \<subseteq> run_bytes (read_runs l c PREFIX) \<union> run_bytes (write_runs l c PREFIX)"
    "run_bytes (f_payload f) \<subseteq> run_bytes (read_runs l c' n) \<union> run_bytes (write_runs l c' n)"
    "run_total (f_prefix f) = PREFIX" "run_total (f_payload f) = n"
  using assms(3)
proof
  assume "frame_to_write l c n = Some f"
  then obtain c' where f: "PREFIX + n \<le> writable c" "f_prefix f = write_runs l c PREFIX"
      "cursor_new l (c_head c + of_nat PREFIX) (c_tail c) = Some c'" "f_payload f = write_runs l c' n"
    by (rule frame_to_write_split) blast
  with after_prefix_write [OF assms(1,2) _ f(3)] show thesis
    by (intro that [OF f(3)]) (simp_all add: write_runs_def)
next
  assume "frame_to_read l c n = Some f"
  then obtain c' where f: "PREFIX + n \<le> readable c" "f_prefix f = read_runs l c PREFIX"
      "cursor_new l (c_head c) (c_tail c + of_nat PREFIX) = Some c'" "f_payload f = read_runs l c' n"
    by (rule frame_to_read_split) blast
  with after_prefix_read [OF assms(1,2) _ f(3)] show thesis
    by (intro that [OF f(3)]) (simp_all add: read_runs_def)
qed

lemma indices_contained:
  assumes "len < 2 ^ 64" "for_region len = Some l" "cursor_new l head tail = Some c"
  shows "run_bytes (read_runs l c m) \<union> run_bytes (write_runs l c n) \<subseteq> {DATA_OFFSET..<len}"
    and "run_bytes (read_runs l c m) \<inter> run_bytes (write_runs l c n) = {}"
    and "run_total (read_runs l c m) = min m (readable c)"
    and "run_total (write_runs l c n) = min n (writable c)"
    and "readable c + writable c = ring_capacity l"
    and "\<forall>f. frame_to_write l c n = Some f \<or> frame_to_read l c n = Some f \<longrightarrow>
           run_bytes (f_prefix f) \<union> run_bytes (f_payload f) \<subseteq> {DATA_OFFSET..<len} \<and>
           run_total (f_prefix f) = PREFIX \<and> run_total (f_payload f) = n"
proof -
  note l = for_region_ok [OF assms(2,1)]
  have sub: "{DATA_OFFSET..<DATA_OFFSET + ring_capacity l} \<subseteq> {DATA_OFFSET..<len}"
    using l(2) by auto
  have sides: "run_bytes (read_runs l c' i) \<union> run_bytes (write_runs l c' j) \<subseteq> {DATA_OFFSET..<len}"
    if "cursor_new l h t = Some c'" for c' h t i j
    using runs_outside_other_side(2) [OF l(1) that] sub by blast
  show "run_bytes (read_runs l c m) \<union> run_bytes (write_runs l c n) \<subseteq> {DATA_OFFSET..<len}"
    by (rule sides [OF assms(3)])
  show "run_bytes (read_runs l c m) \<inter> run_bytes (write_runs l c n) = {}"
    by (rule runs_outside_other_side(1) [OF l(1) assms(3)])
  show "run_total (read_runs l c m) = min m (readable c)"
    "run_total (write_runs l c n) = min n (writable c)"
    by (simp_all add: read_runs_def write_runs_def)
  show "readable c + writable c = ring_capacity l"
    using assms(3) by (rule cursor_nat) simp
  show "\<forall>f. frame_to_write l c n = Some f \<or> frame_to_read l c n = Some f \<longrightarrow>
           run_bytes (f_prefix f) \<union> run_bytes (f_payload f) \<subseteq> {DATA_OFFSET..<len} \<and>
           run_total (f_prefix f) = PREFIX \<and> run_total (f_payload f) = n"
  proof (intro allI impI)
    fix f assume "frame_to_write l c n = Some f \<or> frame_to_read l c n = Some f"
    then obtain h t c' where p: "cursor_new l h t = Some c'"
        "run_bytes (f_prefix f) \<subseteq> run_bytes (read_runs l c PREFIX) \<union> run_bytes (write_runs l c PREFIX)"
        "run_bytes (f_payload f) \<subseteq> run_bytes (read_runs l c' n) \<union> run_bytes (write_runs l c' n)"
        "run_total (f_prefix f) = PREFIX" "run_total (f_payload f) = n"
      by (rule frame_parts [OF l(1) assms(3)])
    have "run_bytes (f_prefix f) \<union> run_bytes (f_payload f) \<subseteq> {DATA_OFFSET..<len}"
      by (intro Un_least order_trans [OF p(2) sides [OF assms(3)]] order_trans [OF p(3) sides [OF p(1)]])
    with p(4,5) show "run_bytes (f_prefix f) \<union> run_bytes (f_payload f) \<subseteq> {DATA_OFFSET..<len} \<and>
           run_total (f_prefix f) = PREFIX \<and> run_total (f_payload f) = n" by blast
  qed
qed

text \<open>
  C18. A peer can write any values it likes into the two indices. Whenever the pair is accepted,
  every run the module returns, for the data and for both parts of a frame, lies inside the
  region and behind the header; the bytes offered to the producer and the bytes offered to the
  consumer are disjoint; and the runs of a transfer carry exactly the bytes asked for, clamped
  to what is there.
\<close>

theorem hostile_indices_contained:
  assumes "len < 2 ^ 64" "for_region len = Some l" "cursor_new l head tail = Some c"
  shows "run_bytes (read_runs l c m) \<union> run_bytes (write_runs l c n) \<subseteq> {DATA_OFFSET..<len} \<and>
    run_bytes (read_runs l c m) \<inter> run_bytes (write_runs l c n) = {} \<and>
    run_total (read_runs l c m) = min m (readable c) \<and>
    run_total (write_runs l c n) = min n (writable c) \<and>
    readable c + writable c = ring_capacity l \<and>
    (\<forall>f. frame_to_write l c n = Some f \<or> frame_to_read l c n = Some f \<longrightarrow>
       run_bytes (f_prefix f) \<union> run_bytes (f_payload f) \<subseteq> {DATA_OFFSET..<len} \<and>
       run_total (f_prefix f) = PREFIX \<and> run_total (f_payload f) = n)"
  by (intro conjI indices_contained [OF assms])

theorem hostile_indices_contained_witness:
  "\<exists>l c. for_region 80 = Some l \<and> cursor_new l 3 (2 ^ 64 - 5) = Some c \<and>
     frame_to_read l c 4 \<noteq> None \<and>
     run_bytes (read_runs l c 8) \<union> run_bytes (write_runs l c 16) \<subseteq> {DATA_OFFSET..<80}"
proof -
  define l :: ring_layout where "l = \<lparr>ring_capacity = 16\<rparr>"
  define c :: cursor where "c = \<lparr>c_head = 3, c_tail = 2 ^ 64 - 5, c_capacity = 16\<rparr>"
  have "floorlog 2 (16 :: nat) = 5"
    by (simp add: compute_floorlog)
  then have l: "for_region 80 = Some l"
    by (simp add: for_region_def leading_zeros_def ring_offsets l_def)
  have c: "cursor_new l 3 (2 ^ 64 - 5) = Some c"
    by (simp add: l_def c_def cursor_new_def)
  have f: "frame_to_read l c 4 \<noteq> None"
    by (simp add: l_def c_def cursor_new_def frame_to_read_def checked_add_def max_of_def PREFIX_def
        readable_def)
  show ?thesis
    using hostile_indices_contained [OF _ l c, of 8 16] l c f by auto
qed

subsection \<open>The prefix\<close>

lemma mask_forms: "LENGTH_MASK = mask 24" "MEMBER_MASK = push_bit 24 (mask 4)"
  by (simp_all add: LENGTH_MASK_def MEMBER_MASK_def MEMBER_SHIFT_def mask_eq_exp_minus_1)

lemma high_bits_clear:
  fixes w :: u32
  assumes "unat w < 2 ^ k" "k \<le> n"
  shows "\<not> bit w n"
proof
  assume "bit w n"
  then have "bit (unat w) n" by (simp add: bit_unsigned_iff)
  then have "bit (take_bit k (unat w)) n" using assms(1) by (simp add: take_bit_nat_eq_self)
  then show False using assms(2) by (simp add: bit_take_bit_iff)
qed

lemma bit_uplink: "bit UPLINK n \<longleftrightarrow> n = 28"
  by (simp only: UPLINK_def bit_push_bit_iff bit_1_iff) auto

lemma mark_fields:
  fixes len v :: u32 and u :: bool
  assumes "unat len < 2 ^ 24" "unat v < 2 ^ 4"
  defines "m \<equiv> (len AND LENGTH_MASK) OR push_bit 24 v OR (if u then UPLINK else 0)"
  shows "m AND LENGTH_MASK = len" "drop_bit 24 (m AND MEMBER_MASK) = v" "m AND UPLINK \<noteq> 0 \<longleftrightarrow> u"
proof -
  have low: "bit len n \<Longrightarrow> n < 24" "bit v n \<Longrightarrow> n < 4" for n
    using high_bits_clear [OF assms(1), of n] high_bits_clear [OF assms(2), of n] by (meson not_le)+
  have bits: "bit m n \<longleftrightarrow> n < 24 \<and> bit len n \<or> 24 \<le> n \<and> n < 32 \<and> bit v (n - 24) \<or> n = 28 \<and> u" for n
    by (auto simp: m_def mask_forms bit_uplink bit_simps)
  show "m AND LENGTH_MASK = len"
    using low(1) by (intro bit_eqI) (auto simp: bits mask_forms bit_simps)
  show "drop_bit 24 (m AND MEMBER_MASK) = v"
    by (intro bit_eqI) (auto simp: bits mask_forms bit_simps dest: low(2))
  show "m AND UPLINK \<noteq> 0 \<longleftrightarrow> u"
    using low(2) [of 4] by (simp only: UPLINK_def bit_iff_and_push_bit_not_eq_0 [symmetric] bits) auto
qed

lemma member_field:
  fixes index :: u8
  assumes "unat index < 15"
  shows "unat (ucast index + 1 :: u32) = unat index + 1" "ucast (ucast index :: u32) = index"
    "(ucast index + 1 :: u32) \<noteq> 0"
proof -
  show u: "unat (ucast index + 1 :: u32) = unat index + 1"
    using assms by (simp add: unat_add_lem [THEN iffD1] unsigned_ucast_eq take_bit_nat_eq_self)
  then show "(ucast index + 1 :: u32) \<noteq> 0" by auto
  show "ucast (ucast index :: u32) = index"
    by (rule bit_eqI) (simp add: bit_simps)
qed

lemma marked_fields:
  assumes "unat len < 2 ^ 24" "\<forall>index. member = Some index \<longrightarrow> unat index < 15"
  shows "marked (mark len member uplink) = (unat len, member, uplink)"
    and "marked (mark len (Some 15) uplink) = (unat len, None, True)"
proof -
  define v :: u32 where "v = (case member of None \<Rightarrow> 0 | Some index \<Rightarrow> ucast index + 1)"
  have v: "unat v < 2 ^ 4" "(if v = 0 then None else Some (ucast (v - 1))) = member"
    using assms(2) by (auto simp: v_def member_field split: option.split)
  have "mark len member uplink = (len AND LENGTH_MASK) OR push_bit 24 v OR (if uplink then UPLINK else 0)"
    by (auto simp: mark_def v_def MEMBER_SHIFT_def ac_simps split: option.split)
  then show "marked (mark len member uplink) = (unat len, member, uplink)"
    using mark_fields [OF assms(1) v(1), of uplink] v(2) by (simp add: marked_def MEMBER_SHIFT_def Let_def)
  have "mark len (Some 15) uplink = (len AND LENGTH_MASK) OR push_bit 24 0 OR (if True then UPLINK else 0)"
    by (simp add: mark_def MEMBER_SHIFT_def UPLINK_def Let_def or.assoc)
  then show "marked (mark len (Some 15) uplink) = (unat len, None, True)"
    using mark_fields [OF assms(1), of 0 True] by (simp add: marked_def MEMBER_SHIFT_def Let_def)
qed

lemma marked_mark_nat:
  assumes "n < 2 ^ 24" "\<forall>index. member = Some index \<longrightarrow> unat index < 15"
  shows "marked (mark (of_nat n) member uplink) = (n, member, uplink)"
proof -
  have "unat (of_nat n :: u32) = n"
    using assms(1) by (simp add: unat_of_nat)
  with marked_fields(1) [of "of_nat n" member uplink] assms show ?thesis by simp
qed

text \<open>
  C35. The prefix is read back as it was written: for a length below \<open>2 ^ 24\<close> and a member index below
  fifteen, or no member, \<open>marked\<close> returns the length, the member and the uplink flag that were
  given to \<open>mark\<close>. The bounds are needed: index fifteen is stored as sixteen, whose bit is the
  uplink flag, so it is read back as no member and an uplink frame.
\<close>

theorem marked_mark:
  assumes "unat len < 2 ^ 24" "\<forall>index. member = Some index \<longrightarrow> unat index < 15"
  shows "marked (mark len member uplink) = (unat len, member, uplink) \<and>
    marked (mark len (Some 15) uplink) = (unat len, None, True)"
  using marked_fields [OF assms] by blast

theorem marked_mark_witness:
  "marked (mark 1514 (Some 3) True) = (1514, Some 3, True) \<and>
   marked (mark 1514 (Some 15) False) = (1514, None, True)"
  using marked_mark [of 1514 "Some 3" True] marked_mark [of 1514 None False] by simp

end
