(* ===== verification/Bytes.thy ===== *)
theory Bytes
  imports Prelude
begin

text \<open>
  Little-endian words as lists of bytes (Rust's \<open>to_le_bytes\<close> and \<open>from_le_bytes\<close>), and the store
  and load of a run of elements at an offset, which is what \<open>copy_from_slice\<close> and
  \<open>copy_nonoverlapping\<close> do to a slice. Shared by the rings and the filesystem.
\<close>

definition to_le_bytes :: "nat \<Rightarrow> 'a::len word \<Rightarrow> u8 list" where
  "to_le_bytes n w = map (\<lambda>i. ucast (drop_bit (8 * i) w)) [0..<n]"

fun from_le_bytes :: "u8 list \<Rightarrow> 'a::len word" where
  "from_le_bytes [] = 0"
| "from_le_bytes (b # bs) = ucast b OR push_bit 8 (from_le_bytes bs)"

definition store :: "'a list \<Rightarrow> nat \<Rightarrow> 'a list \<Rightarrow> 'a list" where
  "store r off bs = take off r @ bs @ drop (off + length bs) r"

definition load :: "'a list \<Rightarrow> nat \<Rightarrow> nat \<Rightarrow> 'a list" where
  "load r off n = take n (drop off r)"

subsection \<open>Bytes and words are each other's inverse\<close>

lemma length_to_le_bytes [simp]: "length (to_le_bytes n w) = n"
  by (simp add: to_le_bytes_def)

lemma to_le_bytes_Suc: "to_le_bytes (Suc n) w = ucast w # to_le_bytes n (drop_bit 8 w)"
  by (simp add: to_le_bytes_def upt_conv_Cons map_Suc_upt [symmetric] add.commute del: upt_Suc)

lemma from_to_le_bytes: "from_le_bytes (to_le_bytes n w) = take_bit (8 * n) (w :: 'a::len word)"
proof (induction n arbitrary: w)
  case (Suc n)
  have "ucast (ucast w :: u8) OR push_bit 8 (take_bit (8 * n) (drop_bit 8 w)) = take_bit (8 * Suc n) w"
    by (rule bit_eqI) (auto simp: bit_simps)
  then show ?case by (simp add: to_le_bytes_Suc Suc.IH)
qed (simp add: to_le_bytes_def)

lemma index_round_trip [simp]: "from_le_bytes (to_le_bytes 8 w) = (w :: u64)"
  by (simp add: from_to_le_bytes take_bit_word_eq_self)

lemma prefix_round_trip [simp]: "from_le_bytes (to_le_bytes 4 w) = (w :: u32)"
  by (simp add: from_to_le_bytes take_bit_word_eq_self)

subsection \<open>Stores\<close>

lemma length_store [simp]: "off + length bs \<le> length r \<Longrightarrow> length (store r off bs) = length r"
  by (simp add: store_def)

lemma store_Nil [simp]: "store r off [] = r"
  by (simp add: store_def)

lemma nth_store:
  assumes "off + length bs \<le> length r" "x < length r"
  shows "store r off bs ! x = (if off \<le> x \<and> x < off + length bs then bs ! (x - off) else r ! x)"
  using assms by (auto simp: store_def nth_append min_def)

lemma length_load [simp]: "off + n \<le> length r \<Longrightarrow> length (load r off n) = n"
  by (simp add: load_def)

lemma nth_load: "off + n \<le> length r \<Longrightarrow> i < n \<Longrightarrow> load r off n ! i = r ! (off + i)"
  by (simp add: load_def)

lemma load_cong:
  assumes "length r' = length r" "off + n \<le> length r" "\<And>x. off \<le> x \<Longrightarrow> x < off + n \<Longrightarrow> r' ! x = r ! x"
  shows "load r' off n = load r off n"
  using assms by (intro nth_equalityI) (auto simp: nth_load)

lemma load_store: "off + length bs \<le> length r \<Longrightarrow> load (store r off bs) off (length bs) = bs"
  by (simp add: load_def store_def)

end
