(* ===== verification/RingChannel.thy ===== *)
theory RingChannel
  imports SharedRing Bytes
begin

text \<open>
  The programs on the two sides of a shared ring: \<^verbatim>\<open>src/user/netd/src/main.rs\<close> (the driver) hands
  received frames to \<^verbatim>\<open>src/user/ipd/src/main.rs\<close> (the network service) on one ring and takes the
  frames to transmit from another. Each region is a list of bytes: the header words are read and
  written in it as the code does, little-endian, and a copy is a store of bytes at an offset. The
  counter of copies and the number of signals sent to the peer are the other state a transfer
  changes.

  The operations are cut at the points where the other program may run in between: the read of
  the indices, the copy of the prefix, the copy of the frame, the publication of the index.
\<close>

subsection \<open>The region\<close>

type_synonym region = "u8 list"

definition read_index :: "region \<Rightarrow> nat \<Rightarrow> u64" where
  "read_index r off = from_le_bytes (load r off 8)"

definition write_index :: "region \<Rightarrow> nat \<Rightarrow> u64 \<Rightarrow> region" where
  "write_index r off w = store r off (to_le_bytes 8 w)"

subsection \<open>The copies\<close>

definition write_runs_from :: "u8 list \<Rightarrow> region \<Rightarrow> run \<times> run \<Rightarrow> region" where
  "write_runs_from source r runs =
    (let first = fst runs; second = snd runs;
         r1 = store r (offset first) (take (run_length first) source) in
     if \<not> run_is_empty second
     then store r1 (offset second) (take (run_length second) (drop (run_length first) source))
     else r1)"

definition read_runs_into :: "region \<Rightarrow> run \<times> run \<Rightarrow> u8 list" where
  "read_runs_into r runs =
    (let first = fst runs; second = snd runs in
     load r (offset first) (run_length first) @
     (if \<not> run_is_empty second then load r (offset second) (run_length second) else []))"

subsection \<open>The programs\<close>

definition RING_BYTES :: nat where "RING_BYTES = 16 * 4096"
definition RX_BUFFER :: nat where "RX_BUFFER = 0x800"
definition MAX_FRAME :: nat where "MAX_FRAME = 2048"

record endpoint =
  region :: region
  copies :: nat
  signals :: nat

text \<open>A frame as the two programs see it: its bytes, the bond member, and the uplink flag.\<close>

type_synonym message = "u8 list \<times> u8 option \<times> bool"

definition prefix_bytes :: "nat \<Rightarrow> u8 option \<Rightarrow> bool \<Rightarrow> u8 list" where
  "prefix_bytes n member uplink = to_le_bytes 4 (mark (of_nat n) member uplink)"

definition plan_write :: "region \<Rightarrow> nat \<Rightarrow> framed option" where
  "plan_write r n = do {
     l \<leftarrow> for_region RING_BYTES;
     let head = read_index r HEAD_OFFSET;
     let tail = read_index r TAIL_OFFSET;
     c \<leftarrow> cursor_new l head tail;
     frame_to_write l c n
   }"

definition put :: "u8 list \<Rightarrow> u8 option \<Rightarrow> bool \<Rightarrow> endpoint \<Rightarrow> bool \<times> endpoint" where
  "put frame member uplink m =
    (case plan_write (region m) (length frame) of
       None \<Rightarrow> (False, m)
     | Some framed \<Rightarrow>
         let prefix = prefix_bytes (length frame) member uplink;
             r1 = write_runs_from prefix (region m) (f_prefix framed);
             r2 = write_runs_from frame r1 (f_payload framed);
             r3 = write_index r2 HEAD_OFFSET (f_next framed) in
         (True, m\<lparr>region := r3, copies := copies m + 1, signals := signals m + 1\<rparr>))"

text \<open>\<open>hand_to_ipd\<close> of the driver and \<open>send_from\<close> of the service, each with its own ring.\<close>

definition hand_to_ipd :: "u8 list \<Rightarrow> u8 option \<Rightarrow> endpoint \<Rightarrow> bool \<times> endpoint" where
  "hand_to_ipd frame member m = put frame member False m"

definition send_from :: "u8 list \<Rightarrow> u8 option \<Rightarrow> bool \<Rightarrow> endpoint \<Rightarrow> bool \<times> endpoint" where
  "send_from frame member uplink m = put frame member uplink m"

text \<open>
  The driver's side of the return ring. The frame is written into the transmit buffer behind
  \<open>header\<close> zero bytes, which the result shows with the length, the member and the uplink flag.
\<close>

definition plan_length :: "u64 \<Rightarrow> u64 \<Rightarrow> (cursor \<times> (run \<times> run)) option" where
  "plan_length head tail = do {
     l \<leftarrow> for_region RING_BYTES;
     c \<leftarrow> cursor_new l head tail;
     if readable c < 4 then None
     else do {
       runs \<leftarrow> length_to_read l c;
       Some (c, runs)
     }
   }"

definition plan_read :: "nat \<Rightarrow> cursor \<Rightarrow> u8 list \<Rightarrow> (framed \<times> nat \<times> u8 option \<times> bool) option" where
  "plan_read header c prefix = do {
     l \<leftarrow> for_region RING_BYTES;
     let (n, for_member, uplink) = marked (from_le_bytes prefix);
     if n = 0 \<or> RX_BUFFER - header < n then None
     else do {
       framed \<leftarrow> frame_to_read l c n;
       Some (framed, n, for_member, uplink)
     }
   }"

definition take_from_ipd_into :: "nat \<Rightarrow> endpoint \<Rightarrow> (nat \<times> u8 option \<times> bool \<times> u8 list) option \<times> endpoint" where
  "take_from_ipd_into header m =
    (let head = read_index (region m) HEAD_OFFSET; tail = read_index (region m) TAIL_OFFSET in
     case plan_length head tail of
       None \<Rightarrow> (None, m)
     | Some (c, runs) \<Rightarrow>
         (case plan_read header c (read_runs_into (region m) runs) of
            None \<Rightarrow> (None, m)
          | Some (framed, n, for_member, uplink) \<Rightarrow>
              let buffer = replicate header 0 @ read_runs_into (region m) (f_payload framed) in
              (Some (n, for_member, uplink, buffer),
               m\<lparr>region := write_index (region m) TAIL_OFFSET (f_next framed), copies := copies m + 1\<rparr>)))"

text \<open>
  One turn of the service's \<open>drain_ring\<close>, up to the point where the frame is in its buffer and the
  tail is published. The service keeps its own \<open>tail\<close> and reads only the head from the region.
\<close>

datatype drained = Stop | Skipped u64 | Taken "u8 list" "u8 option" u64

definition drain_one :: "u64 \<Rightarrow> endpoint \<Rightarrow> drained \<times> endpoint" where
  "drain_one tail m =
    (case for_region RING_BYTES of
       None \<Rightarrow> (Stop, m)
     | Some l \<Rightarrow>
    (case cursor_new l (read_index (region m) HEAD_OFFSET) tail of
       None \<Rightarrow> (Stop, m)
     | Some c \<Rightarrow>
    (case length_to_read l c of
       None \<Rightarrow> (Stop, m)
     | Some runs \<Rightarrow>
    (let (n, from_member, _) = marked (from_le_bytes (read_runs_into (region m) runs)) in
     if n = 0 \<or> MAX_FRAME < n then (Skipped (tail + of_nat PREFIX), m)
     else
       (case frame_to_read l c n of
          None \<Rightarrow> (Stop, m)
        | Some framed \<Rightarrow>
            let frame = read_runs_into (region m) (f_payload framed) in
            (Taken frame from_member (f_next framed),
             m\<lparr>region := write_index (region m) TAIL_OFFSET (f_next framed), copies := copies m + 1\<rparr>))))))"

text \<open>
  The loop of \<open>drain_ring\<close>: at most sixteen turns, ended by the first \<open>Stop\<close>. What it does with each
  frame is outside this theory; the frames it takes are the result, with the tail it keeps.
\<close>

fun drain_frames :: "nat \<Rightarrow> u64 \<Rightarrow> endpoint \<Rightarrow> (u8 list \<times> u8 option) list \<times> u64 \<times> endpoint" where
  "drain_frames 0 tail m = ([], tail, m)"
| "drain_frames (Suc n) tail m =
    (case drain_one tail m of
       (Stop, m') \<Rightarrow> ([], tail, m')
     | (Skipped tail', m') \<Rightarrow> drain_frames n tail' m'
     | (Taken frame member tail', m') \<Rightarrow>
         (let (taken, rest) = drain_frames n tail' m' in ((frame, member) # taken, rest)))"

definition drain_ring :: "u64 \<Rightarrow> endpoint \<Rightarrow> (u8 list \<times> u8 option) list \<times> u64 \<times> endpoint" where
  "drain_ring tail m = drain_frames 16 tail m"

subsection \<open>The indices\<close>

text \<open>The indices are two words of the header, and neither is part of the data.\<close>

lemma length_write_index [simp]: "off + 8 \<le> length r \<Longrightarrow> length (write_index r off w) = length r"
  by (simp add: write_index_def)

lemma read_write_index: "off + 8 \<le> length r \<Longrightarrow> read_index (write_index r off w) off = w"
  using load_store [of off "to_le_bytes 8 w" r] by (simp add: read_index_def write_index_def)

lemma read_write_other:
  assumes "off + 8 \<le> length r" "off' + 8 \<le> length r" "off + 8 \<le> off' \<or> off' + 8 \<le> off"
  shows "read_index (write_index r off w) off' = read_index r off'"
proof -
  have "load (write_index r off w) off' 8 = load r off' 8"
    by (rule load_cong) (use assms in \<open>auto simp: write_index_def nth_store\<close>)
  then show ?thesis by (simp add: read_index_def)
qed

lemma nth_write_index:
  "off + 8 \<le> DATA_OFFSET \<Longrightarrow> DATA_OFFSET \<le> x \<Longrightarrow> x < length r \<Longrightarrow> write_index r off w ! x = r ! x"
  by (simp add: write_index_def nth_store)

subsection \<open>Transfers are windows of the index space\<close>

definition window :: "region \<Rightarrow> nat \<Rightarrow> nat \<Rightarrow> nat \<Rightarrow> u8 list" where
  "window r K i n = map (\<lambda>j. r ! slot K j) [i..<i + n]"

lemma length_window [simp]: "length (window r K i n) = n"
  by (simp add: window_def)

lemma nth_window [simp]: "j < n \<Longrightarrow> window r K i n ! j = r ! slot K (i + j)"
  by (simp add: window_def)

lemma window_split: "window r K i (m + n) = window r K i m @ window r K (i + m) n"
  by (simp add: window_def upt_add_eq_append [of i "i + m" n] add.assoc [symmetric])

lemma window_cong:
  "(\<And>j. i \<le> j \<Longrightarrow> j < i + n \<Longrightarrow> r' ! slot K j = r ! slot K j) \<Longrightarrow> window r' K i n = window r K i n"
  by (simp add: window_def)

lemma window_write_index:
  assumes "0 < K" "DATA_OFFSET + K \<le> length r" "off + 8 \<le> DATA_OFFSET"
  shows "window (write_index r off w) K i n = window r K i n"
  using assms slot_in_region [OF assms(1)]
  by (intro window_cong nth_write_index) (auto intro: less_le_trans)

lemma read_runs_window:
  assumes "layout_ok l" "n \<le> ring_capacity l" "DATA_OFFSET + ring_capacity l \<le> length r"
  shows "read_runs_into r (runs_from l (of_nat i) n) = window r (ring_capacity l) i n"
proof -
  define K where "K = ring_capacity l"
  define a where "a = K - i mod K"
  have K: "0 < K" "n \<le> K" "i mod K < K" "DATA_OFFSET + K \<le> length r" "DATA_OFFSET \<le> length r"
    using assms by (simp_all add: K_def)
  have fit: "slot K i + min n a \<le> length r" "DATA_OFFSET + (n - min n a) \<le> length r"
    using K by (auto simp: slot_def a_def)
  have "load r (slot K i) (min n a) @ load r DATA_OFFSET (n - min n a) = window r K i n"
    by (rule nth_equalityI)
      (use fit K slot_segment [of K _ i, folded a_def] in \<open>auto simp: nth_append nth_load min_def\<close>)
  then show ?thesis
    using assms unfolding a_def K_def
    by (auto simp: runs_from_nat read_runs_into_def run_is_empty_def Let_def load_def window_def)
qed

lemma write_runs_nth:
  fixes i :: nat
  assumes "layout_ok l" "length bs \<le> ring_capacity l" "DATA_OFFSET + ring_capacity l \<le> length r"
  defines "r' \<equiv> write_runs_from bs r (runs_from l (of_nat i) (length bs))"
  shows "length r' = length r"
    "j < length bs \<Longrightarrow> r' ! slot (ring_capacity l) (i + j) = bs ! j"
    "x < length r \<Longrightarrow> x \<notin> slot (ring_capacity l) ` {i..<i + length bs} \<Longrightarrow> r' ! x = r ! x"
proof -
  define K where "K = ring_capacity l"
  define a where "a = K - i mod K"
  define n where "n = length bs"
  have K: "0 < K" "n \<le> K" "i mod K < K" "DATA_OFFSET + K \<le> length r" "DATA_OFFSET \<le> length r"
    using assms by (simp_all add: K_def n_def)
  have fit: "slot K i + min n a \<le> length r" "DATA_OFFSET + (n - min n a) \<le> length r"
    using K by (auto simp: slot_def a_def)
  have apart: "DATA_OFFSET + (n - min n a) \<le> slot K i"
    using K by (auto simp: slot_def a_def)
  have r': "r' = store (store r (slot K i) (take (min n a) bs)) DATA_OFFSET (drop (min n a) bs)"
    unfolding r'_def runs_from_nat [OF assms(1,2)] unfolding n_def [symmetric] K_def [symmetric] a_def [symmetric]
    by (simp add: write_runs_from_def run_is_empty_def Let_def n_def)
  have len: "length (store r (slot K i) (take (min n a) bs)) = length r"
    using fit by (simp add: n_def)
  have nth: "r' ! x = (if DATA_OFFSET \<le> x \<and> x < DATA_OFFSET + (n - min n a) then bs ! (min n a + (x - DATA_OFFSET))
      else if slot K i \<le> x \<and> x < slot K i + min n a then bs ! (x - slot K i) else r ! x)"
    if "x < length r" for x
    unfolding r' using that fit len by (simp add: nth_store n_def) (auto intro!: nth_take)
  show "length r' = length r" using fit len by (simp add: r' n_def)
  show "r' ! slot (ring_capacity l) (i + j) = bs ! j" if "j < length bs"
  proof -
    have j: "j < n" "j < K" using that K(2) by (simp_all add: n_def)
    have "slot K (i + j) < length r" using slot_in_region [OF K(1), of "i + j"] K(4) by auto
    note e = nth [OF this]
    show ?thesis
      using j fit apart slot_segment [OF K(1) j(2), of i, folded a_def] unfolding K_def [symmetric] e
      by (auto split: if_splits)
  qed
  assume x: "x < length r" "x \<notin> slot (ring_capacity l) ` {i..<i + length bs}"
  have "x \<notin> run_bytes (runs_from l (of_nat i) (length bs))"
    using x(2) assms(1,2) by (simp add: run_bytes_from_nat)
  then show "r' ! x = r ! x"
    using nth [OF x(1)] assms(1,2)
    by (auto simp: run_bytes_def runs_from_nat Let_def K_def n_def a_def split: if_splits)
qed

lemma window_write:
  fixes i :: nat
  assumes "layout_ok l" "length bs \<le> ring_capacity l" "DATA_OFFSET + ring_capacity l \<le> length r"
  defines "r' \<equiv> write_runs_from bs r (runs_from l (of_nat i) (length bs))"
  shows "window r' (ring_capacity l) i (length bs) = bs"
    "a + m \<le> i \<Longrightarrow> i + length bs \<le> a + ring_capacity l \<Longrightarrow>
       window r' (ring_capacity l) a m = window r (ring_capacity l) a m"
    "off + 8 \<le> DATA_OFFSET \<Longrightarrow> read_index r' off = read_index r off"
proof -
  note w = write_runs_nth [OF assms(1-3), where i = i, folded r'_def]
  have K: "0 < ring_capacity l" using assms(1) by simp
  show "window r' (ring_capacity l) i (length bs) = bs"
    by (rule nth_equalityI) (simp_all add: w(2))
  show "window r' (ring_capacity l) a m = window r (ring_capacity l) a m"
    if "a + m \<le> i" "i + length bs \<le> a + ring_capacity l"
  proof (rule window_cong, rule w(3))
    fix j assume j: "a \<le> j" "j < a + m"
    show "slot (ring_capacity l) j < length r"
      using slot_in_region [OF K, of j] assms(3) by auto
    show "slot (ring_capacity l) j \<notin> slot (ring_capacity l) ` {i..<i + length bs}"
      using slots_disjoint [OF that] j by force
  qed
  show "read_index r' off = read_index r off" if off: "off + 8 \<le> DATA_OFFSET"
  proof -
    have "load r' off 8 = load r off 8"
    proof (rule load_cong)
      fix x assume "off \<le> x" "x < off + 8"
      then have "x < DATA_OFFSET" using off by simp
      with assms(3) show "r' ! x = r ! x"
        by (intro w(3)) (auto simp: slot_def)
    qed (use off assms(3) w(1) in simp_all)
    then show ?thesis by (simp add: read_index_def)
  qed
qed

end
