(* ===== verification/RingFifo.thy ===== *)
theory RingFifo
  imports RingChannel
begin

text \<open>
  The two programs on a ring run on different processors without a lock. Here each of them is a
  state machine whose steps are the cuts of \<open>RingChannel\<close>: the producer plans a transfer from the
  indices it reads, copies the prefix, copies the frame, and publishes the head; the consumer
  looks at the indices, reads the prefix, copies the frame, and publishes the tail. The steps of
  the two interleave in any order. The fences before each publication make the order of the
  steps the order the other side observes.
\<close>

subsection \<open>The two programs as interleaving state machines\<close>

datatype producer_state = P_Idle | P_Planned framed message | P_Prefixed framed message | P_Filled framed message

datatype consumer_state = C_Idle | C_Length cursor "run \<times> run" | C_Planned framed "u8 option" bool | C_Copied framed message

record channel =
  shared :: region
  producer :: producer_state
  consumer :: consumer_state
  sent :: "message list"
  got :: "message list"

definition member_ok :: "u8 option \<Rightarrow> bool" where
  "member_ok member \<longleftrightarrow> (case member of None \<Rightarrow> True | Some index \<Rightarrow> unat index < 15)"

inductive chan_step :: "nat \<Rightarrow> channel \<Rightarrow> channel \<Rightarrow> bool" for header where
  plan: "producer s = P_Idle \<Longrightarrow> member_ok member \<Longrightarrow> plan_write (shared s) (length frame) = Some f \<Longrightarrow>
    chan_step header s (s\<lparr>producer := P_Planned f (frame, member, uplink)\<rparr>)"
| prefix: "producer s = P_Planned f (frame, member, uplink) \<Longrightarrow>
    chan_step header s (s\<lparr>shared := write_runs_from (prefix_bytes (length frame) member uplink) (shared s) (f_prefix f),
                   producer := P_Prefixed f (frame, member, uplink)\<rparr>)"
| payload: "producer s = P_Prefixed f (frame, member, uplink) \<Longrightarrow>
    chan_step header s (s\<lparr>shared := write_runs_from frame (shared s) (f_payload f),
                   producer := P_Filled f (frame, member, uplink)\<rparr>)"
| publish: "producer s = P_Filled f msg \<Longrightarrow>
    chan_step header s (s\<lparr>shared := write_index (shared s) HEAD_OFFSET (f_next f), producer := P_Idle,
                   sent := sent s @ [msg]\<rparr>)"
| look: "consumer s = C_Idle \<Longrightarrow>
    plan_length (read_index (shared s) HEAD_OFFSET) (read_index (shared s) TAIL_OFFSET) = Some (c, runs) \<Longrightarrow>
    chan_step header s (s\<lparr>consumer := C_Length c runs\<rparr>)"
| accept: "consumer s = C_Length c runs \<Longrightarrow>
    plan_read header c (read_runs_into (shared s) runs) = Some (f, n, member, uplink) \<Longrightarrow>
    chan_step header s (s\<lparr>consumer := C_Planned f member uplink\<rparr>)"
| refuse: "consumer s = C_Length c runs \<Longrightarrow>
    plan_read header c (read_runs_into (shared s) runs) = None \<Longrightarrow>
    chan_step header s (s\<lparr>consumer := C_Idle\<rparr>)"
| copy: "consumer s = C_Planned f member uplink \<Longrightarrow>
    chan_step header s (s\<lparr>consumer := C_Copied f (read_runs_into (shared s) (f_payload f), member, uplink)\<rparr>)"
| release: "consumer s = C_Copied f msg \<Longrightarrow>
    chan_step header s (s\<lparr>shared := write_index (shared s) TAIL_OFFSET (f_next f), consumer := C_Idle,
                   got := got s @ [msg]\<rparr>)"

inductive chan_reachable :: "nat \<Rightarrow> channel \<Rightarrow> bool" for header where
  start: "length r = RING_BYTES \<Longrightarrow> read_index r HEAD_OFFSET = read_index r TAIL_OFFSET \<Longrightarrow>
    chan_reachable header \<lparr>shared = r, producer = P_Idle, consumer = C_Idle, sent = [], got = []\<rparr>"
| step: "chan_reachable header s \<Longrightarrow> chan_step header s s' \<Longrightarrow> chan_reachable header s'"

inductive_cases chan_stepE: "chan_step header s s'"

subsection \<open>The plans, over natural-number indices\<close>

definition CAP :: nat where "CAP = 2 ^ 15"

definition chan_layout :: ring_layout where
  "chan_layout = \<lparr>ring_capacity = CAP\<rparr>"

lemma chan_layout_ok [simp]: "layout_ok chan_layout" "ring_capacity chan_layout = CAP" "0 < CAP"
    "DATA_OFFSET + CAP \<le> RING_BYTES" "PREFIX \<le> CAP"
  by (auto simp: layout_ok_def chan_layout_def CAP_def ring_offsets RING_BYTES_def PREFIX_def
      intro: exI [of _ 15])

lemma for_region_chan [simp]: "for_region RING_BYTES = Some chan_layout"
proof -
  have "floorlog 2 (65472 :: nat) = 16"
    by (simp add: compute_floorlog)
  then show ?thesis
    by (simp add: for_region_def leading_zeros_def ring_offsets RING_BYTES_def chan_layout_def CAP_def)
qed

abbreviation cursor_at :: "nat \<Rightarrow> nat \<Rightarrow> cursor" where
  "cursor_at T U \<equiv> \<lparr>c_head = of_nat (T + U), c_tail = of_nat T, c_capacity = CAP\<rparr>"

lemma cursor_new_chan: "U \<le> CAP \<Longrightarrow> cursor_new chan_layout (of_nat (T + U)) (of_nat T) = Some (cursor_at T U)"
  using cursor_of_nat [of chan_layout U T] by simp

lemma readable_chan: "U \<le> CAP \<Longrightarrow> readable (cursor_at T U) = U"
  using readable_of_nat [of chan_layout U T CAP] by simp

lemma writable_chan: "U \<le> CAP \<Longrightarrow> writable (cursor_at T U) = CAP - U"
  by (simp add: writable_def readable_chan del: of_nat_add)

lemma frame_to_write_chan:
  assumes "U \<le> CAP"
  shows "frame_to_write chan_layout (cursor_at T U) n =
    (if n = 0 \<or> CAP < U + PREFIX + n then None
     else Some \<lparr>f_prefix = runs_from chan_layout (of_nat (T + U)) PREFIX,
                f_payload = runs_from chan_layout (of_nat (T + U + PREFIX)) n,
                f_next = of_nat (T + U + PREFIX + n)\<rparr>)"
proof (cases "n = 0 \<or> CAP < U + PREFIX + n")
  case True
  then show ?thesis
    using assms by (auto simp: frame_to_write_def writable_chan checked_add_def simp del: of_nat_add)
next
  case False
  then have n: "U + PREFIX \<le> CAP" "PREFIX + n \<le> CAP - U" "n \<noteq> 0" "n \<le> CAP - (U + PREFIX)" "PREFIX \<le> CAP - U"
    by auto
  have "PREFIX + n \<le> CAP" using n(2) by linarith
  then have add: "checked_add 64 PREFIX n = Some (PREFIX + n)"
    by (simp add: checked_add_def max_of_def CAP_def)
  have "of_nat (T + U) + of_nat PREFIX = (of_nat (T + (U + PREFIX)) :: u64)"
    by (simp add: ac_simps)
  then have nxt: "cursor_new chan_layout (c_head (cursor_at T U) + of_nat PREFIX) (c_tail (cursor_at T U)) =
      Some (cursor_at T (U + PREFIX))"
    using cursor_new_chan [OF n(1), of T] by (simp only: cursor.simps)
  show ?thesis
    unfolding frame_to_write_def add Option.bind.bind_lunit nxt Let_def write_runs_def
      writable_chan [OF assms] writable_chan [OF n(1)]
    using False n by (simp add: min_absorb1 ac_simps)
qed

lemma frame_to_read_chan:
  assumes "U \<le> CAP"
  shows "frame_to_read chan_layout (cursor_at T U) n =
    (if n = 0 \<or> U < PREFIX + n then None
     else Some \<lparr>f_prefix = runs_from chan_layout (of_nat T) PREFIX,
                f_payload = runs_from chan_layout (of_nat (T + PREFIX)) n,
                f_next = of_nat (T + PREFIX + n)\<rparr>)"
proof (cases "n = 0 \<or> U < PREFIX + n")
  case True
  then show ?thesis
    using assms by (auto simp: frame_to_read_def readable_chan checked_add_def simp del: of_nat_add)
next
  case False
  then have n: "PREFIX + n \<le> U" "n \<noteq> 0" "n \<le> U - PREFIX" "PREFIX \<le> U" "U - PREFIX \<le> CAP"
    using assms by auto
  have "PREFIX + n \<le> CAP" using n(1) assms by linarith
  then have add: "checked_add 64 PREFIX n = Some (PREFIX + n)"
    by (simp add: checked_add_def max_of_def CAP_def)
  have e: "cursor_at T U = \<lparr>c_head = of_nat (T + PREFIX + (U - PREFIX)), c_tail = of_nat T, c_capacity = CAP\<rparr>"
    using n(4) by simp
  have "of_nat T + of_nat PREFIX = (of_nat (T + PREFIX) :: u64)" by simp
  then have nxt: "cursor_new chan_layout (c_head (cursor_at T U)) (c_tail (cursor_at T U) + of_nat PREFIX) =
      Some (cursor_at (T + PREFIX) (U - PREFIX))"
    unfolding e using cursor_new_chan [OF n(5), of "T + PREFIX"] by (simp only: cursor.simps)
  show ?thesis
    unfolding frame_to_read_def add Option.bind.bind_lunit nxt Let_def read_runs_def
      readable_chan [OF assms] readable_chan [OF n(5)]
    using False n by (simp add: min_absorb1 ac_simps)
qed

subsection \<open>The invariant\<close>

text \<open>
  \<open>T\<close> bytes have been consumed and \<open>H\<close> published since the start, \<open>Q\<close> are the frames in between.
  The data of the ring from \<open>T\<close> to \<open>H\<close> is the encoding of \<open>Q\<close>; the producer's plan covers bytes from
  \<open>H\<close> that fit behind the consumer, and the consumer's plan is the first frame of \<open>Q\<close>.
\<close>

definition message_ok :: "message \<Rightarrow> bool" where
  "message_ok msg \<longleftrightarrow> (case msg of (frame, member, uplink) \<Rightarrow>
     frame \<noteq> [] \<and> length frame < 2 ^ 24 \<and> member_ok member)"

definition encode :: "message \<Rightarrow> u8 list" where
  "encode msg = (case msg of (frame, member, uplink) \<Rightarrow>
     prefix_bytes (length frame) member uplink @ frame)"

definition planned :: "nat \<Rightarrow> nat \<Rightarrow> framed \<Rightarrow> message \<Rightarrow> bool" where
  "planned T H f msg \<longleftrightarrow> message_ok msg \<and> H + PREFIX + length (fst msg) \<le> T + CAP \<and>
     f_prefix f = runs_from chan_layout (of_nat H) PREFIX \<and>
     f_payload f = runs_from chan_layout (of_nat (H + PREFIX)) (length (fst msg)) \<and>
     f_next f = of_nat (H + PREFIX + length (fst msg))"

fun producer_ok :: "region \<Rightarrow> nat \<Rightarrow> nat \<Rightarrow> producer_state \<Rightarrow> bool" where
  "producer_ok r T H P_Idle \<longleftrightarrow> True"
| "producer_ok r T H (P_Planned f msg) \<longleftrightarrow> planned T H f msg"
| "producer_ok r T H (P_Prefixed f msg) \<longleftrightarrow> planned T H f msg \<and>
     window r CAP H PREFIX = prefix_bytes (length (fst msg)) (fst (snd msg)) (snd (snd msg))"
| "producer_ok r T H (P_Filled f msg) \<longleftrightarrow> planned T H f msg \<and>
     window r CAP H (PREFIX + length (fst msg)) = encode msg"

fun consumer_ok :: "nat \<Rightarrow> nat \<Rightarrow> message list \<Rightarrow> consumer_state \<Rightarrow> bool" where
  "consumer_ok T H Q C_Idle \<longleftrightarrow> True"
| "consumer_ok T H Q (C_Length c runs) \<longleftrightarrow> (\<exists>U. PREFIX \<le> U \<and> T + U \<le> H \<and> c = cursor_at T U \<and>
     runs = runs_from chan_layout (of_nat T) PREFIX)"
| "consumer_ok T H Q (C_Planned f member uplink) \<longleftrightarrow> (\<exists>frame Q'. Q = (frame, member, uplink) # Q' \<and>
     f_payload f = runs_from chan_layout (of_nat (T + PREFIX)) (length frame) \<and>
     f_next f = of_nat (T + PREFIX + length frame))"
| "consumer_ok T H Q (C_Copied f msg) \<longleftrightarrow> (\<exists>Q'. Q = msg # Q' \<and> f_next f = of_nat (T + PREFIX + length (fst msg)))"

definition ring_ok :: "region \<Rightarrow> nat \<Rightarrow> nat \<Rightarrow> message list \<Rightarrow> bool" where
  "ring_ok r T H Q \<longleftrightarrow> length r = RING_BYTES \<and> T \<le> H \<and> H \<le> T + CAP \<and>
     read_index r HEAD_OFFSET = of_nat H \<and> read_index r TAIL_OFFSET = of_nat T \<and>
     window r CAP T (H - T) = concat (map encode Q) \<and> list_all message_ok Q"

definition chan_inv :: "channel \<Rightarrow> bool" where
  "chan_inv s \<longleftrightarrow> (\<exists>T H Q. ring_ok (shared s) T H Q \<and> sent s = got s @ Q \<and>
     producer_ok (shared s) T H (producer s) \<and> consumer_ok T H Q (consumer s))"

lemma length_prefix_bytes [simp]: "length (prefix_bytes n member uplink) = PREFIX"
  by (simp add: prefix_bytes_def PREFIX_def)

lemma length_encode: "length (encode msg) = PREFIX + length (fst msg)"
  by (cases msg) (simp add: encode_def)

lemma marked_prefix:
  "message_ok (frame, member, uplink) \<Longrightarrow>
     marked (from_le_bytes (prefix_bytes (length frame) member uplink)) = (length frame, member, uplink)"
  by (simp add: prefix_bytes_def marked_mark_nat message_ok_def member_ok_def split: option.splits)

lemma ring_ok_lengths:
  assumes "ring_ok r T H Q"
  shows "H - T = sum_list (map (\<lambda>msg. PREFIX + length (fst msg)) Q)"
proof -
  have "H - T = length (concat (map encode Q))"
    using assms by (metis length_window ring_ok_def)
  then show ?thesis
    by (simp add: length_concat comp_def length_encode)
qed

text \<open>Copying into the planned bytes keeps the published part.\<close>

lemma fill_kept:
  assumes "ring_ok r T H Q" "H \<le> i" "i + length bs \<le> T + CAP"
  defines "r' \<equiv> write_runs_from bs r (runs_from chan_layout (of_nat i) (length bs))"
  shows "ring_ok r' T H Q" "window r' CAP i (length bs) = bs"
    "H \<le> a \<Longrightarrow> a + m \<le> i \<Longrightarrow> window r' CAP a m = window r CAP a m"
proof -
  have b: "length bs \<le> ring_capacity chan_layout" "DATA_OFFSET + ring_capacity chan_layout \<le> length r" "T \<le> H"
    using assms(1-3) chan_layout_ok(4) by (auto simp: ring_ok_def)
  note w = window_write [OF chan_layout_ok(1) b(1,2), where i = i, folded r'_def, unfolded chan_layout_ok]
  have "length r' = length r"
    unfolding r'_def by (rule write_runs_nth(1) [OF chan_layout_ok(1) b(1,2)])
  moreover have "window r' CAP T (H - T) = window r CAP T (H - T)"
    using assms(2,3) b(3) by (intro w(2)) auto
  ultimately show "ring_ok r' T H Q"
    using assms(1) by (simp add: ring_ok_def w(3) ring_offsets)
  show "window r' CAP i (length bs) = bs" by (rule w(1))
  show "window r' CAP a m = window r CAP a m" if "H \<le> a" "a + m \<le> i"
    using that assms(3) b(3) by (intro w(2)) auto
qed

lemma ring_ok_cursor:
  assumes "ring_ok r T H Q"
  shows "cursor_new chan_layout (of_nat H) (of_nat T) = Some (cursor_at T (H - T))" "H - T \<le> CAP" "H = T + (H - T)"
proof -
  show "H = T + (H - T)" "H - T \<le> CAP" using assms by (auto simp: ring_ok_def)
  then show "cursor_new chan_layout (of_nat H) (of_nat T) = Some (cursor_at T (H - T))"
    using cursor_new_chan [of "H - T" T] by metis
qed

lemma plan_write_eq:
  assumes "ring_ok r T H Q"
  shows "plan_write r n =
    (if n = 0 \<or> CAP < H - T + PREFIX + n then None
     else Some \<lparr>f_prefix = runs_from chan_layout (of_nat H) PREFIX,
                f_payload = runs_from chan_layout (of_nat (H + PREFIX)) n,
                f_next = of_nat (H + PREFIX + n)\<rparr>)"
  using frame_to_write_chan [OF ring_ok_cursor(2) [OF assms], of T n, folded ring_ok_cursor(3) [OF assms]]
    ring_ok_cursor(1,3) [OF assms] assms
  by (simp add: plan_write_def ring_ok_def del: of_nat_add)

lemma plan_length_eq:
  assumes "ring_ok r T H Q"
  shows "plan_length (read_index r HEAD_OFFSET) (read_index r TAIL_OFFSET) =
    (if H - T < PREFIX then None
     else Some (cursor_at T (H - T), runs_from chan_layout (of_nat T) PREFIX))"
  using readable_chan [OF ring_ok_cursor(2) [OF assms], of T] ring_ok_cursor [OF assms] assms
  by (simp add: plan_length_def length_to_read_def read_runs_def ring_ok_def PREFIX_def del: of_nat_add)

lemma planned_by_write:
  assumes "ring_ok r T H Q" "plan_write r (length frame) = Some f" "member_ok member"
  shows "planned T H f (frame, member, uplink)"
proof -
  have "T \<le> H" using assms(1) by (simp add: ring_ok_def)
  moreover have "length frame \<le> CAP"
    using assms(2) by (auto simp: plan_write_eq [OF assms(1)] split: if_splits)
  ultimately show ?thesis
    using assms(2,3) unfolding plan_write_eq [OF assms(1)]
    by (auto simp: planned_def message_ok_def CAP_def split: if_splits)
qed

lemma first_frame:
  assumes "ring_ok r T H Q" "PREFIX \<le> H - T"
  obtains frame member uplink Q' where "Q = (frame, member, uplink) # Q'" "message_ok (frame, member, uplink)"
    "PREFIX + length frame \<le> H - T"
    "window r CAP T PREFIX = prefix_bytes (length frame) member uplink"
    "window r CAP (T + PREFIX) (length frame) = frame"
proof -
  have "0 < H - T" using assms(2) by (simp add: PREFIX_def)
  then obtain frame member uplink Q' where Q: "Q = (frame, member, uplink) # Q'"
    using ring_ok_lengths [OF assms(1)] by (cases Q) auto
  have le: "PREFIX + length frame \<le> H - T"
    using ring_ok_lengths [OF assms(1)] by (simp add: Q)
  define m where "m = H - T - (PREFIX + length frame)"
  have e: "PREFIX + length frame + m = H - T"
    unfolding m_def using le by (rule le_add_diff_inverse)
  have "window r CAP T (PREFIX + length frame + m) = concat (map encode Q)"
    unfolding e using assms(1) by (simp add: ring_ok_def)
  then have "window r CAP T PREFIX @ window r CAP (T + PREFIX) (length frame) @ window r CAP (T + PREFIX + length frame) m =
      prefix_bytes (length frame) member uplink @ frame @ concat (map encode Q')"
    by (simp add: window_split encode_def Q add.assoc)
  then show thesis
    using that [OF Q _ le] assms(1) by (simp add: ring_ok_def Q)
qed

lemma ring_ok_publish:
  assumes "ring_ok r T H Q" "planned T H f msg" "window r CAP H (PREFIX + length (fst msg)) = encode msg"
  shows "ring_ok (write_index r HEAD_OFFSET (f_next f)) T (H + PREFIX + length (fst msg)) (Q @ [msg])"
proof -
  have len: "length r = RING_BYTES" "T \<le> H" using assms(1) by (simp_all add: ring_ok_def)
  have big: "64 \<le> length r" by (simp add: len RING_BYTES_def)
  have "window r CAP T (H - T + (PREFIX + length (fst msg))) = concat (map encode (Q @ [msg]))"
    unfolding window_split [of r CAP T "H - T"]
    using assms(1,3) len(2) by (simp add: ring_ok_def)
  moreover have "H + PREFIX + length (fst msg) - T = H - T + (PREFIX + length (fst msg))"
    using len(2) by simp
  ultimately show ?thesis
    using assms(1,2) big chan_layout_ok(4)
    by (simp add: ring_ok_def planned_def ring_offsets window_write_index read_write_index read_write_other
        del: of_nat_add)
qed

lemma ring_ok_release:
  assumes "ring_ok r T H (msg # Q)"
  shows "ring_ok (write_index r TAIL_OFFSET (of_nat (T + PREFIX + length (fst msg)))) (T + PREFIX + length (fst msg)) H Q"
proof -
  have len: "length r = RING_BYTES" "T \<le> H" using assms(1) by (simp_all add: ring_ok_def)
  have big: "64 \<le> length r" by (simp add: len RING_BYTES_def)
  have le: "PREFIX + length (fst msg) \<le> H - T"
    using ring_ok_lengths [OF assms(1)] by simp
  define m where "m = H - T - (PREFIX + length (fst msg))"
  have e: "PREFIX + length (fst msg) + m = H - T"
    unfolding m_def using le by (rule le_add_diff_inverse)
  have "window r CAP T (PREFIX + length (fst msg) + m) = encode msg @ concat (map encode Q)"
    unfolding e using assms by (simp add: ring_ok_def)
  then have "window r CAP (T + (PREFIX + length (fst msg))) m = concat (map encode Q)"
    by (simp add: window_split [of _ _ _ "PREFIX + length (fst msg)"] append_eq_append_conv length_encode)
  moreover have "T + (PREFIX + length (fst msg)) \<le> H" using le len(2) by linarith
  ultimately show ?thesis
    using assms big chan_layout_ok(4)
    by (simp add: ring_ok_def ring_offsets window_write_index read_write_index read_write_other m_def add.assoc
        del: of_nat_add)
qed

subsection \<open>Every step keeps it\<close>

lemma planned_mono: "planned T H f msg \<Longrightarrow> T \<le> T' \<Longrightarrow> planned T' H f msg"
  by (auto simp: planned_def)

lemma producer_ok_tail:
  assumes "producer_ok r T H p" "T \<le> T'" "length r = RING_BYTES"
  shows "producer_ok (write_index r TAIL_OFFSET w) T' H p"
  using assms chan_layout_ok(4)
  by (cases p) (auto intro: planned_mono simp: window_write_index ring_offsets)

lemma consumer_ok_head: "consumer_ok T H Q c \<Longrightarrow> H \<le> H' \<Longrightarrow> consumer_ok T H' (Q @ Q') c"
  by (cases c) auto

lemma fill_prefix:
  assumes "ring_ok r T H Q" "planned T H f (frame, member, uplink)"
  defines "r' \<equiv> write_runs_from (prefix_bytes (length frame) member uplink) r (f_prefix f)"
  shows "ring_ok r' T H Q" "producer_ok r' T H (P_Prefixed f (frame, member, uplink))"
  using fill_kept(1,2) [OF assms(1), of H "prefix_bytes (length frame) member uplink"] assms(2)
  unfolding r'_def by (auto simp: planned_def)

lemma fill_payload:
  assumes "ring_ok r T H Q" "producer_ok r T H (P_Prefixed f (frame, member, uplink))"
  defines "r' \<equiv> write_runs_from frame r (f_payload f)"
  shows "ring_ok r' T H Q" "producer_ok r' T H (P_Filled f (frame, member, uplink))"
proof -
  have p: "planned T H f (frame, member, uplink)"
    "window r CAP H PREFIX = prefix_bytes (length frame) member uplink"
    using assms(2) by auto
  then have r': "r' = write_runs_from frame r (runs_from chan_layout (of_nat (H + PREFIX)) (length frame))"
    by (simp add: r'_def planned_def)
  have "H \<le> H + PREFIX" "H + PREFIX + length frame \<le> T + CAP" using p(1) by (auto simp: planned_def)
  note k = fill_kept [OF assms(1) this, folded r']
  show "ring_ok r' T H Q" by (rule k(1))
  have "window r' CAP H (PREFIX + length frame) = encode (frame, member, uplink)"
    using k(2) k(3) [of H PREFIX] p(2) by (simp add: window_split encode_def)
  with p(1) show "producer_ok r' T H (P_Filled f (frame, member, uplink))" by simp
qed

lemma accept_first:
  assumes "ring_ok r T H Q" "consumer_ok T H Q (C_Length c runs)"
    "plan_read header c (read_runs_into r runs) = Some (f, n, member, uplink)"
  shows "consumer_ok T H Q (C_Planned f member uplink)"
proof -
  obtain U where U: "PREFIX \<le> U" "T + U \<le> H" "c = cursor_at T U" "runs = runs_from chan_layout (of_nat T) PREFIX"
    using assms(2) by auto
  have le: "U \<le> CAP" "PREFIX \<le> H - T" "DATA_OFFSET + ring_capacity chan_layout \<le> length r"
    using U assms(1) chan_layout_ok(4) by (auto simp: ring_ok_def)
  obtain frame member' uplink' Q' where q: "Q = (frame, member', uplink') # Q'" "message_ok (frame, member', uplink')"
      "window r CAP T PREFIX = prefix_bytes (length frame) member' uplink'"
    using assms(1) le(2) by (rule first_frame) blast
  have "read_runs_into r runs = prefix_bytes (length frame) member' uplink'"
    unfolding U(4) using read_runs_window [OF chan_layout_ok(1) _ le(3), of PREFIX T] q(3) by simp
  then have m: "marked (from_le_bytes (read_runs_into r runs)) = (length frame, member', uplink')"
    using marked_prefix [OF q(2)] by simp
  show ?thesis
    using assms(3) frame_to_read_chan [OF le(1), of T "length frame"] unfolding plan_read_def m U(3)
    by (auto simp: q(1) bind_eq_Some_conv Let_def split: if_splits simp del: of_nat_add)
qed

lemma copy_first:
  assumes "ring_ok r T H Q" "consumer_ok T H Q (C_Planned f member uplink)"
  shows "consumer_ok T H Q (C_Copied f (read_runs_into r (f_payload f), member, uplink))"
proof -
  obtain frame Q' where q: "Q = (frame, member, uplink) # Q'"
      "f_payload f = runs_from chan_layout (of_nat (T + PREFIX)) (length frame)"
      "f_next f = of_nat (T + PREFIX + length frame)"
    using assms(2) by auto
  have "PREFIX + length frame \<le> H - T"
    using ring_ok_lengths [OF assms(1)] by (simp add: q(1))
  then have le: "PREFIX \<le> H - T" "length frame \<le> ring_capacity chan_layout"
      "DATA_OFFSET + ring_capacity chan_layout \<le> length r"
    using assms(1) chan_layout_ok(4) by (auto simp: ring_ok_def)
  have "window r CAP (T + PREFIX) (length frame) = frame"
    using assms(1) le(1) by (rule first_frame) (simp add: q(1))
  then have "read_runs_into r (f_payload f) = frame"
    unfolding q(2) read_runs_window [OF chan_layout_ok(1) le(2,3)] by simp
  then show ?thesis using q by simp
qed

lemma chan_invI:
  "ring_ok (shared s) T H Q \<Longrightarrow> sent s = got s @ Q \<Longrightarrow> producer_ok (shared s) T H (producer s) \<Longrightarrow>
     consumer_ok T H Q (consumer s) \<Longrightarrow> chan_inv s"
  unfolding chan_inv_def by blast

lemma chan_inv_step:
  assumes "chan_step header s s'" "chan_inv s"
  shows "chan_inv s'"
proof -
  obtain T H Q where i: "ring_ok (shared s) T H Q" "sent s = got s @ Q"
      "producer_ok (shared s) T H (producer s)" "consumer_ok T H Q (consumer s)"
    using assms(2) by (auto simp: chan_inv_def)
  have r: "length (shared s) = RING_BYTES" using i(1) by (simp add: ring_ok_def)
  show ?thesis
    using assms(1)
  proof cases
    case (plan member frame f uplink)
    then show ?thesis
      using i planned_by_write [OF i(1)] by (intro chan_invI [of _ T H Q]) auto
  next
    case (prefix f frame member uplink)
    then show ?thesis
      using i fill_prefix [OF i(1), of f frame member uplink] by (intro chan_invI [of _ T H Q]) auto
  next
    case (payload f frame member uplink)
    then show ?thesis
      using i fill_payload [OF i(1), of f frame member uplink] by (intro chan_invI [of _ T H Q]) auto
  next
    case (publish f msg)
    then have p: "planned T H f msg" "window (shared s) CAP H (PREFIX + length (fst msg)) = encode msg"
      using i(3) by auto
    have "consumer_ok T (H + PREFIX + length (fst msg)) (Q @ [msg]) (consumer s)"
      using i(4) by (rule consumer_ok_head) simp
    with publish i(2) ring_ok_publish [OF i(1) p] show ?thesis
      by (intro chan_invI [of _ T "H + PREFIX + length (fst msg)" "Q @ [msg]"]) auto
  next
    case (look c runs)
    then have "consumer_ok T H Q (C_Length c runs)"
      using plan_length_eq [OF i(1)] i(1) by (auto simp: ring_ok_def split: if_splits intro!: exI [of _ "H - T"])
    with look i show ?thesis by (intro chan_invI [of _ T H Q]) auto
  next
    case (accept c runs f n member uplink)
    then show ?thesis
      using i accept_first [OF i(1), of c runs header f n member uplink] by (intro chan_invI [of _ T H Q]) auto
  next
    case (refuse c runs)
    then show ?thesis using i by (intro chan_invI [of _ T H Q]) auto
  next
    case (copy f member uplink)
    then show ?thesis
      using i copy_first [OF i(1), of f member uplink] by (intro chan_invI [of _ T H Q]) auto
  next
    case (release f msg)
    then obtain Q' where q: "Q = msg # Q'" "f_next f = of_nat (T + PREFIX + length (fst msg))"
      using i(4) by auto
    have "producer_ok (write_index (shared s) TAIL_OFFSET (f_next f)) (T + PREFIX + length (fst msg)) H (producer s)"
      using i(3) _ r by (rule producer_ok_tail) simp
    with release i(2) q ring_ok_release [of "shared s" T H msg Q'] i(1) show ?thesis
      by (intro chan_invI [of _ "T + PREFIX + length (fst msg)" H Q']) auto
  qed
qed

lemma chan_reachable_inv: "chan_reachable header s \<Longrightarrow> chan_inv s"
proof (induction rule: chan_reachable.induct)
  case (start r)
  then show ?case
    by (intro chan_invI [of _ "unat (read_index r TAIL_OFFSET)" "unat (read_index r TAIL_OFFSET)" "[]"])
      (auto simp: ring_ok_def window_def)
next
  case (step s s')
  then show ?case by (blast intro: chan_inv_step)
qed

subsection \<open>The consumer can always take the next frame\<close>

lemma plan_read_first:
  assumes "ring_ok r T H ((frame, member, uplink) # Q)"
  defines "f \<equiv> \<lparr>f_prefix = runs_from chan_layout (of_nat T) PREFIX,
      f_payload = runs_from chan_layout (of_nat (T + PREFIX)) (length frame),
      f_next = of_nat (T + PREFIX + length frame)\<rparr>"
  shows "plan_length (of_nat H) (of_nat T) = Some (cursor_at T (H - T), runs_from chan_layout (of_nat T) PREFIX)"
    "frame_to_read chan_layout (cursor_at T (H - T)) (length frame) = Some f"
    "marked (from_le_bytes (read_runs_into r (runs_from chan_layout (of_nat T) PREFIX))) = (length frame, member, uplink)"
    "read_runs_into r (f_payload f) = frame" "frame \<noteq> []"
proof -
  have ok: "message_ok (frame, member, uplink)" "length r = RING_BYTES" using assms(1) by (auto simp: ring_ok_def)
  show ne: "frame \<noteq> []" using ok by (simp add: message_ok_def)
  have le: "PREFIX + length frame \<le> H - T" using ring_ok_lengths [OF assms(1)] by simp
  then have pre: "PREFIX \<le> H - T" by simp
  have w: "window r CAP T PREFIX = prefix_bytes (length frame) member uplink"
      "window r CAP (T + PREFIX) (length frame) = frame"
    using assms(1) pre by (rule first_frame, simp)+
  note cap = ring_ok_cursor(2) [OF assms(1)]
  have big: "DATA_OFFSET + ring_capacity chan_layout \<le> length r" "length frame \<le> ring_capacity chan_layout"
      "PREFIX \<le> ring_capacity chan_layout"
    using ok(2) chan_layout_ok(4,5) le cap by auto
  show "plan_length (of_nat H) (of_nat T) = Some (cursor_at T (H - T), runs_from chan_layout (of_nat T) PREFIX)"
    using plan_length_eq [OF assms(1)] assms(1) pre by (simp add: ring_ok_def del: of_nat_add)
  show "frame_to_read chan_layout (cursor_at T (H - T)) (length frame) = Some f"
    using frame_to_read_chan [OF cap, of T "length frame"] le ne by (simp add: f_def del: of_nat_add)
  show "marked (from_le_bytes (read_runs_into r (runs_from chan_layout (of_nat T) PREFIX))) = (length frame, member, uplink)"
    unfolding read_runs_window [OF chan_layout_ok(1) big(3,1)] chan_layout_ok(2) w(1)
    by (rule marked_prefix [OF ok(1)])
  have "f_payload f = runs_from chan_layout (of_nat (T + PREFIX)) (length frame)" by (simp add: f_def)
  then show "read_runs_into r (f_payload f) = frame"
    unfolding read_runs_window [OF chan_layout_ok(1) big(2,1)] chan_layout_ok(2) w(2)
    using read_runs_window [OF chan_layout_ok(1) big(2,1), of "T + PREFIX"] w(2) by simp
qed

lemma consumer_finishes:
  assumes "consumer s = C_Planned f member uplink"
  shows "\<exists>s'. (chan_step header)\<^sup>*\<^sup>* s s' \<and> got s' = got s @ [(read_runs_into (shared s) (f_payload f), member, uplink)] \<and>
    sent s' = sent s"
proof -
  define s1 where "s1 = s\<lparr>consumer := C_Copied f (read_runs_into (shared s) (f_payload f), member, uplink)\<rparr>"
  define s2 where "s2 = s1\<lparr>shared := write_index (shared s1) TAIL_OFFSET (f_next f), consumer := C_Idle,
      got := got s1 @ [(read_runs_into (shared s) (f_payload f), member, uplink)]\<rparr>"
  have "chan_step header s s1" unfolding s1_def using assms by (rule copy)
  moreover have "chan_step header s1 s2"
    unfolding s2_def by (rule release) (simp add: s1_def)
  ultimately have "(chan_step header)\<^sup>*\<^sup>* s s2" by (meson converse_rtranclp_into_rtranclp r_into_rtranclp)
  then show ?thesis
    by (intro exI [of _ s2]) (simp add: s2_def s1_def)
qed

lemma idle_progress:
  assumes "ring_ok (shared s) T H ((frame, member, uplink) # Q)" "length frame \<le> RX_BUFFER - header"
    "consumer s = C_Idle"
  shows "\<exists>s'. (chan_step header)\<^sup>*\<^sup>* s s' \<and> got s' = got s @ [(frame, member, uplink)] \<and> sent s' = sent s"
proof -
  note p = plan_read_first [OF assms(1)]
  let ?c = "cursor_at T (H - T)" and ?runs = "runs_from chan_layout (of_nat T) PREFIX"
  obtain f where f: "plan_read header ?c (read_runs_into (shared s) ?runs) = Some (f, length frame, member, uplink)"
      "read_runs_into (shared s) (f_payload f) = frame"
    using p(2-5) assms(2) by (simp add: plan_read_def del: of_nat_add)
  define s1 where "s1 = s\<lparr>consumer := C_Length ?c ?runs\<rparr>"
  define s2 where "s2 = s1\<lparr>consumer := C_Planned f member uplink\<rparr>"
  have 1: "chan_step header s s1"
    unfolding s1_def using assms(1,3) p(1) by (intro look) (simp_all add: ring_ok_def del: of_nat_add)
  have 2: "chan_step header s1 s2"
    unfolding s2_def using f(1) by (intro accept [of _ ?c ?runs]) (simp_all add: s1_def del: of_nat_add)
  obtain s' where "(chan_step header)\<^sup>*\<^sup>* s2 s'" "got s' = got s2 @ [(frame, member, uplink)]" "sent s' = sent s2"
    using consumer_finishes [of s2 f member uplink header] f(2) by (auto simp: s2_def s1_def)
  moreover from this(1) have "(chan_step header)\<^sup>*\<^sup>* s s'"
    using 1 2 by (meson converse_rtranclp_into_rtranclp)
  ultimately show ?thesis
    by (intro exI [of _ s']) (simp add: s2_def s1_def)
qed

lemma consumer_progress:
  assumes "ring_ok (shared s) T H ((frame, member, uplink) # Q)" "length frame \<le> RX_BUFFER - header"
    "consumer_ok T H ((frame, member, uplink) # Q) (consumer s)"
  shows "\<exists>s'. (chan_step header)\<^sup>*\<^sup>* s s' \<and> got s' = got s @ [(frame, member, uplink)] \<and> sent s' = sent s"
proof (cases "consumer s")
  case C_Idle
  then show ?thesis using idle_progress assms(1,2) by blast
next
  case (C_Length c runs)
  show ?thesis
  proof (cases "plan_read header c (read_runs_into (shared s) runs)")
    case None
    define s1 where "s1 = s\<lparr>consumer := C_Idle\<rparr>"
    have "chan_step header s s1" unfolding s1_def using C_Length None by (rule refuse)
    moreover obtain s' where "(chan_step header)\<^sup>*\<^sup>* s1 s'" "got s' = got s1 @ [(frame, member, uplink)]" "sent s' = sent s1"
      using idle_progress [of s1 T H frame member uplink Q header] assms(1,2) by (auto simp: s1_def)
    ultimately show ?thesis
      by (intro exI [of _ s']) (auto simp: s1_def intro: converse_rtranclp_into_rtranclp)
  next
    case (Some p)
    obtain f n member' uplink' where p: "p = (f, n, member', uplink')" by (cases p)
    define s1 where "s1 = s\<lparr>consumer := C_Planned f member' uplink'\<rparr>"
    have st: "chan_step header s s1"
      unfolding s1_def by (rule accept [OF C_Length Some [unfolded p]])
    have "consumer_ok T H ((frame, member, uplink) # Q) (C_Planned f member' uplink')"
      using accept_first [OF assms(1) _ Some [unfolded p]] assms(3) C_Length by simp
    then have "consumer_ok T H ((frame, member, uplink) # Q)
        (C_Copied f (read_runs_into (shared s) (f_payload f), member', uplink'))"
      by (rule copy_first [OF assms(1)])
    then have "member' = member" "uplink' = uplink" "read_runs_into (shared s) (f_payload f) = frame"
      by simp_all
    then obtain s' where "(chan_step header)\<^sup>*\<^sup>* s1 s'" "got s' = got s1 @ [(frame, member, uplink)]" "sent s' = sent s1"
      using consumer_finishes [of s1 f member uplink header] by (auto simp: s1_def)
    with st show ?thesis
      by (intro exI [of _ s']) (auto simp: s1_def intro: converse_rtranclp_into_rtranclp)
  qed
next
  case (C_Planned f member' uplink')
  then have "consumer_ok T H ((frame, member, uplink) # Q)
      (C_Copied f (read_runs_into (shared s) (f_payload f), member', uplink'))"
    using assms(3) by (intro copy_first [OF assms(1)]) (simp only:)
  then have "(read_runs_into (shared s) (f_payload f), member', uplink') = (frame, member, uplink)"
    by simp
  then show ?thesis
    using consumer_finishes [OF C_Planned, of header] by (simp only:)
next
  case (C_Copied f msg)
  then have "msg = (frame, member, uplink)" using assms(3) by simp
  then show ?thesis
    using release [OF C_Copied, of header] by (intro exI conjI) (erule r_into_rtranclp, simp_all)
qed

text \<open>
  C6. However the steps of the driver and of the network service interleave on a shared ring, the
  frames taken, with their member and uplink flag, are exactly the first of the frames sent, in
  order and unaltered; and when a frame is waiting that fits the consumer's buffer, the consumer
  can take it, whatever the producer is in the middle of.
\<close>

theorem channel_fifo:
  assumes "chan_reachable header s"
  shows "\<exists>Q. sent s = got s @ Q \<and>
    (Q \<noteq> [] \<and> length (fst (hd Q)) \<le> RX_BUFFER - header \<longrightarrow>
      (\<exists>s'. (chan_step header)\<^sup>*\<^sup>* s s' \<and> got s' = got s @ [hd Q] \<and> sent s' = sent s))"
proof -
  obtain T H Q where i: "ring_ok (shared s) T H Q" "sent s = got s @ Q" "consumer_ok T H Q (consumer s)"
    using chan_reachable_inv [OF assms] by (auto simp: chan_inv_def)
  moreover have "\<exists>s'. (chan_step header)\<^sup>*\<^sup>* s s' \<and> got s' = got s @ [hd Q] \<and> sent s' = sent s"
    if "Q \<noteq> []" "length (fst (hd Q)) \<le> RX_BUFFER - header"
    using consumer_progress [of s T H "fst (hd Q)" "fst (snd (hd Q))" "snd (snd (hd Q))" "tl Q" header] i that
    by (cases Q) auto
  ultimately show ?thesis by blast
qed

definition zero_region :: region where
  "zero_region = replicate RING_BYTES 0"

lemma zero_region_ok: "ring_ok zero_region 0 0 []"
proof -
  have "load zero_region HEAD_OFFSET 8 = replicate 8 0" "load zero_region TAIL_OFFSET 8 = replicate 8 0"
    by (simp_all add: load_def zero_region_def RING_BYTES_def ring_offsets)
  moreover have "from_le_bytes (replicate 8 0) = (0 :: u64)"
    by (simp add: numeral_eq_Suc)
  ultimately have "read_index zero_region HEAD_OFFSET = 0" "read_index zero_region TAIL_OFFSET = 0"
    by (simp_all add: read_index_def)
  then show ?thesis
    by (simp add: ring_ok_def window_def zero_region_def)
qed

lemma zero_region_reachable:
  "chan_reachable header \<lparr>shared = zero_region, producer = P_Idle, consumer = C_Idle, sent = [], got = []\<rparr>"
  using zero_region_ok by (intro start) (simp_all add: ring_ok_def)

lemma sent_reachable:
  assumes "frame \<noteq> []" "PREFIX + length frame \<le> CAP" "member_ok member"
  shows "\<exists>s. chan_reachable header s \<and> sent s = [(frame, member, uplink)] \<and> got s = []"
proof -
  let ?msg = "(frame, member, uplink)"
  let ?s = "\<lparr>shared = zero_region, producer = P_Idle, consumer = C_Idle, sent = [], got = []\<rparr>"
  obtain f where f: "plan_write zero_region (length frame) = Some f"
    using assms(1,2) by (simp add: plan_write_eq [OF zero_region_ok])
  note s1 = chan_reachable.step [OF zero_region_reachable plan [of ?s member frame f header uplink], simplified, OF assms(3) f]
  note s2 = chan_reachable.step [OF s1 prefix [of _ f frame member uplink]]
  note s3 = chan_reachable.step [OF s2 payload [of _ f frame member uplink]]
  note s4 = chan_reachable.step [OF s3 publish [of _ f ?msg]]
  show ?thesis
    by (rule exI, rule conjI, rule s4) simp_all
qed

theorem channel_fifo_witness:
  "\<exists>s. chan_reachable 12 s \<and> sent s = [([1, 2, 3], Some 1, True)] \<and> got s = [] \<and>
     (\<exists>s'. (chan_step 12)\<^sup>*\<^sup>* s s' \<and> got s' = [([1, 2, 3], Some 1, True)])"
proof -
  obtain s where s: "chan_reachable 12 s" "sent s = [([1, 2, 3], Some 1, True)]" "got s = []"
    using sent_reachable [of "[1, 2, 3]" "Some 1" 12 True] by (auto simp: PREFIX_def CAP_def member_ok_def)
  show ?thesis
    using channel_fifo [OF s(1)] s by (auto simp: RX_BUFFER_def)
qed

subsection \<open>The contract of a frame queue\<close>

text \<open>
  What the programs rely on when no transfer of the other side is under way: a state \<open>holds\<close> the
  frames \<open>Q\<close>, sending appends a frame or changes nothing, receiving gives the first frame or
  nothing. The contract is discharged for both rings below.
\<close>

fun send_all :: "(message \<Rightarrow> 's \<Rightarrow> bool \<times> 's) \<Rightarrow> message list \<Rightarrow> 's \<Rightarrow> message list \<times> 's" where
  "send_all send [] s = ([], s)"
| "send_all send (msg # msgs) s =
    (let (sent, s') = send msg s; (rest, s'') = send_all send msgs s' in
     (if sent then msg # rest else rest, s''))"

fun recv_all :: "('s \<Rightarrow> message option \<times> 's) \<Rightarrow> nat \<Rightarrow> 's \<Rightarrow> message list \<times> 's" where
  "recv_all recv 0 s = ([], s)"
| "recv_all recv (Suc n) s =
    (case recv s of
       (None, s') \<Rightarrow> ([], s')
     | (Some msg, s') \<Rightarrow> (let (rest, s'') = recv_all recv n s' in (msg # rest, s'')))"

locale frame_queue =
  fixes holds :: "'s \<Rightarrow> message list \<Rightarrow> bool"
    and fits :: "message \<Rightarrow> bool"
    and send :: "message \<Rightarrow> 's \<Rightarrow> bool \<times> 's"
    and recv :: "'s \<Rightarrow> message option \<times> 's"
  assumes send_accepts: "holds s Q \<Longrightarrow> fits msg \<Longrightarrow> send msg s = (True, s') \<Longrightarrow> holds s' (Q @ [msg])"
    and send_refuses: "holds s Q \<Longrightarrow> send msg s = (False, s') \<Longrightarrow> s' = s"
    and recv_first: "holds s (msg # Q) \<Longrightarrow> \<exists>s'. recv s = (Some msg, s') \<and> holds s' Q"
    and recv_empty: "holds s [] \<Longrightarrow> recv s = (None, s)"
begin

lemma send_all_appends:
  "holds s Q \<Longrightarrow> list_all fits msgs \<Longrightarrow> send_all send msgs s = (accepted, s') \<Longrightarrow> holds s' (Q @ accepted)"
proof (induction msgs arbitrary: s Q accepted s')
  case (Cons msg msgs)
  obtain ok s1 where s1: "send msg s = (ok, s1)" by (cases "send msg s")
  obtain rest s2 where s2: "send_all send msgs s1 = (rest, s2)" by (cases "send_all send msgs s1")
  have step: "holds s1 (if ok then Q @ [msg] else Q)"
    using send_accepts [OF Cons.prems(1), of msg s1] send_refuses [OF Cons.prems(1), of msg s1] Cons.prems(1,2) s1
    by (cases ok) auto
  from Cons.IH [OF step _ s2] Cons.prems(2,3) s1 s2 show ?case by (auto split: if_splits)
qed simp

lemma recv_all_takes:
  "holds s Q \<Longrightarrow> \<exists>s'. recv_all recv n s = (take n Q, s') \<and> holds s' (drop n Q)"
proof (induction n arbitrary: s Q)
  case (Suc n)
  show ?case
  proof (cases Q)
    case Nil
    then show ?thesis using recv_empty [of s] Suc.prems by simp
  next
    case (Cons msg Q')
    then obtain s1 where s1: "recv s = (Some msg, s1)" "holds s1 Q'"
      using recv_first Suc.prems by blast
    then show ?thesis using Suc.IH [OF s1(2)] Cons by auto
  qed
qed simp

lemma queue_round_trip:
  assumes "holds s []" "list_all fits msgs" "send_all send msgs s = (accepted, s')"
  shows "\<exists>s''. recv_all recv n s' = (take n accepted, s'') \<and> holds s'' (drop n accepted)"
  using recv_all_takes send_all_appends [OF assms] by simp

end

subsection \<open>Both rings keep it\<close>

lemma put_eq:
  assumes "ring_ok (region m) T H Q"
  shows "put frame member uplink m =
    (if frame = [] \<or> CAP < H - T + PREFIX + length frame then (False, m) else (True, snd (put frame member uplink m)))"
  by (auto simp: put_def plan_write_eq [OF assms] Let_def)

lemma put_appends:
  assumes "ring_ok (region m) T H Q" "member_ok member" "put frame member uplink m = (True, m')"
  shows "\<exists>H'. ring_ok (region m') T H' (Q @ [(frame, member, uplink)])"
proof -
  let ?msg = "(frame, member, uplink)"
  obtain f where f: "plan_write (region m) (length frame) = Some f"
    using assms(3) by (auto simp: put_def split: option.splits)
  have p: "planned T H f ?msg" by (rule planned_by_write [OF assms(1) f assms(2)])
  define r1 where "r1 = write_runs_from (prefix_bytes (length frame) member uplink) (region m) (f_prefix f)"
  define r2 where "r2 = write_runs_from frame r1 (f_payload f)"
  note k1 = fill_prefix [OF assms(1) p, folded r1_def]
  note k2 = fill_payload [OF k1, folded r2_def]
  have "region m' = write_index r2 HEAD_OFFSET (f_next f)"
    using assms(3) by (auto simp: put_def f r1_def r2_def Let_def)
  then show ?thesis
    using ring_ok_publish [OF k2(1), of f ?msg] k2(2) by auto
qed

definition outbound_holds :: "nat \<Rightarrow> endpoint \<Rightarrow> message list \<Rightarrow> bool" where
  "outbound_holds header m Q \<longleftrightarrow> (\<exists>T H. ring_ok (region m) T H Q) \<and>
     (\<forall>msg \<in> set Q. length (fst msg) \<le> RX_BUFFER - header)"

definition outbound_fits :: "nat \<Rightarrow> message \<Rightarrow> bool" where
  "outbound_fits header msg \<longleftrightarrow> length (fst msg) \<le> RX_BUFFER - header \<and> member_ok (fst (snd msg))"

definition outbound_send :: "message \<Rightarrow> endpoint \<Rightarrow> bool \<times> endpoint" where
  "outbound_send msg m = (case msg of (frame, member, uplink) \<Rightarrow> send_from frame member uplink m)"

definition outbound_recv :: "nat \<Rightarrow> endpoint \<Rightarrow> message option \<times> endpoint" where
  "outbound_recv header m =
    (case take_from_ipd_into header m of
       (None, m') \<Rightarrow> (None, m')
     | (Some (n, member, uplink, buffer), m') \<Rightarrow> (Some (take n (drop header buffer), member, uplink), m'))"

lemma take_first:
  assumes "ring_ok (region m) T H ((frame, member, uplink) # Q)" "length frame \<le> RX_BUFFER - header"
  shows "\<exists>m' T'. take_from_ipd_into header m = (Some (length frame, member, uplink, replicate header 0 @ frame), m') \<and>
    ring_ok (region m') T' H Q"
proof -
  note p = plan_read_first [OF assms(1)]
  have idx: "read_index (region m) HEAD_OFFSET = of_nat H" "read_index (region m) TAIL_OFFSET = of_nat T"
    using assms(1) by (simp_all add: ring_ok_def)
  show ?thesis
    using ring_ok_release [OF assms(1)] p assms(2)
    by (auto simp: take_from_ipd_into_def idx plan_read_def Let_def simp del: of_nat_add intro!: exI)
qed

lemma take_empty:
  assumes "ring_ok (region m) T H []"
  shows "take_from_ipd_into header m = (None, m)"
  using plan_length_eq [OF assms] ring_ok_lengths [OF assms] by (simp add: take_from_ipd_into_def PREFIX_def)

interpretation outbound: frame_queue "outbound_holds header" "outbound_fits header" outbound_send "outbound_recv header"
  for header
proof unfold_locales
  fix s Q msg s'
  assume "outbound_holds header s Q" "outbound_fits header msg" "outbound_send msg s = (True, s')"
  then show "outbound_holds header s' (Q @ [msg])"
    using put_appends [of s _ _ Q "fst (snd msg)" "fst msg" "snd (snd msg)" s']
    by (cases msg) (fastforce simp: outbound_holds_def outbound_fits_def outbound_send_def send_from_def)
next
  fix s Q msg s'
  assume "outbound_holds header s Q" "outbound_send msg s = (False, s')"
  then show "s' = s"
    by (cases msg) (auto simp: outbound_send_def send_from_def put_def Let_def split: option.splits)
next
  fix s msg Q
  assume "outbound_holds header s (msg # Q)"
  then show "\<exists>s'. outbound_recv header s = (Some msg, s') \<and> outbound_holds header s' Q"
    using take_first [of s _ _ "fst msg" "fst (snd msg)" "snd (snd msg)" Q header]
    by (cases msg) (fastforce simp: outbound_holds_def outbound_recv_def)
next
  fix s assume "outbound_holds header s []"
  then show "outbound_recv header s = (None, s)"
    using take_empty by (auto simp: outbound_holds_def outbound_recv_def)
qed

text \<open>The inbound ring: the driver hands frames over, the service drains them with a tail of its own.\<close>

definition inbound_holds :: "u64 \<times> endpoint \<Rightarrow> message list \<Rightarrow> bool" where
  "inbound_holds s Q \<longleftrightarrow> (\<exists>T H. ring_ok (region (snd s)) T H Q \<and> fst s = of_nat T) \<and>
     (\<forall>msg \<in> set Q. length (fst msg) \<le> MAX_FRAME \<and> \<not> snd (snd msg))"

definition inbound_fits :: "message \<Rightarrow> bool" where
  "inbound_fits msg \<longleftrightarrow> length (fst msg) \<le> MAX_FRAME \<and> member_ok (fst (snd msg)) \<and> \<not> snd (snd msg)"

definition inbound_send :: "message \<Rightarrow> u64 \<times> endpoint \<Rightarrow> bool \<times> u64 \<times> endpoint" where
  "inbound_send msg s = (let (ok, m) = hand_to_ipd (fst msg) (fst (snd msg)) (snd s) in (ok, fst s, m))"

definition inbound_recv :: "u64 \<times> endpoint \<Rightarrow> message option \<times> u64 \<times> endpoint" where
  "inbound_recv s =
    (case drain_one (fst s) (snd s) of
       (Taken frame member tail, m) \<Rightarrow> (Some (frame, member, False), tail, m)
     | (Skipped tail, m) \<Rightarrow> (None, tail, m)
     | (Stop, m) \<Rightarrow> (None, fst s, m))"

lemma drain_first:
  assumes "ring_ok (region m) T H ((frame, member, uplink) # Q)" "length frame \<le> MAX_FRAME"
  shows "\<exists>m' T'. drain_one (of_nat T) m = (Taken frame member (of_nat T'), m') \<and> ring_ok (region m') T' H Q"
proof -
  note p = plan_read_first [OF assms(1)]
  have idx: "read_index (region m) HEAD_OFFSET = of_nat H" using assms(1) by (simp add: ring_ok_def)
  have len: "length_to_read chan_layout (cursor_at T (H - T)) = Some (runs_from chan_layout (of_nat T) PREFIX)"
    using p(1) ring_ok_cursor(1) [OF assms(1)] by (auto simp: plan_length_def bind_eq_Some_conv split: if_splits)
  show ?thesis
    using ring_ok_release [OF assms(1)] p(2-5) assms(2) ring_ok_cursor(1) [OF assms(1)] len
    by (auto simp: drain_one_def idx Let_def simp del: of_nat_add intro!: exI)
qed

lemma drain_empty:
  assumes "ring_ok (region m) T H []"
  shows "drain_one (of_nat T) m = (Stop, m)"
proof -
  have "H = T" using ring_ok_lengths [OF assms] assms by (simp add: ring_ok_def)
  moreover have "readable (cursor_at T 0) = 0" by (rule readable_chan) simp
  ultimately show ?thesis
    using ring_ok_cursor(1) [OF assms] assms
    by (simp add: drain_one_def length_to_read_def ring_ok_def PREFIX_def)
qed

interpretation inbound: frame_queue inbound_holds inbound_fits inbound_send inbound_recv
proof unfold_locales
  fix s Q msg s'
  assume "inbound_holds s Q" "inbound_fits msg" "inbound_send msg s = (True, s')"
  then show "inbound_holds s' (Q @ [msg])"
    using put_appends [of "snd s" _ _ Q "fst (snd msg)" "fst msg" False "snd s'"]
    by (cases msg) (fastforce simp: inbound_holds_def inbound_fits_def inbound_send_def hand_to_ipd_def
        split: prod.splits)
next
  fix s Q msg s'
  assume "inbound_holds s Q" "inbound_send msg s = (False, s')"
  then show "s' = s"
    by (cases s) (auto simp: inbound_send_def hand_to_ipd_def put_def Let_def split: option.splits)
next
  fix s msg Q
  assume "inbound_holds s (msg # Q)"
  then show "\<exists>s'. inbound_recv s = (Some msg, s') \<and> inbound_holds s' Q"
    using drain_first [of "snd s" _ _ "fst msg" "fst (snd msg)" "snd (snd msg)" Q]
    by (cases msg) (fastforce simp: inbound_holds_def inbound_recv_def)
next
  fix s assume "inbound_holds s []"
  then show "inbound_recv s = (None, s)"
    using drain_empty by (cases s) (auto simp: inbound_holds_def inbound_recv_def)
qed

lemma drain_frames_recv_all:
  assumes "inbound_holds (tail, m) Q"
  shows "\<exists>rest. drain_frames n tail m = (map (\<lambda>msg. (fst msg, fst (snd msg))) (take n Q), rest) \<and>
    inbound_holds rest (drop n Q)"
  using assms
proof (induction n arbitrary: tail m Q)
  case (Suc n)
  show ?case
  proof (cases Q)
    case Nil
    then have "drain_one tail m = (Stop, m)" using drain_empty Suc.prems by (auto simp: inbound_holds_def)
    with Nil Suc.prems show ?thesis by simp
  next
    case (Cons msg Q')
    obtain frame member uplink where msg: "msg = (frame, member, uplink)" by (cases msg)
    obtain m' T' H where d: "drain_one tail m = (Taken frame member (of_nat T'), m')" "ring_ok (region m') T' H Q'"
      using Suc.prems drain_first [of m _ _ frame member uplink Q'] unfolding Cons msg inbound_holds_def by fastforce
    then have "inbound_holds (of_nat T', m') Q'"
      using Suc.prems unfolding Cons inbound_holds_def by auto
    from Suc.IH [OF this] d(1) show ?thesis by (auto simp: Cons msg)
  qed
qed simp

text \<open>
  C17. Every frame the driver hands over that the ring accepts reaches the network service, with
  the bond member it arrived on: starting from an empty ring, a drain of the ring takes the
  first sixteen of the accepted frames, in order and unaltered, and leaves the others for the
  next drain.
\<close>

theorem handed_frames_drained:
  assumes "ring_ok (region m) T T []"
    and "\<forall>(frame, member) \<in> set frames. length frame \<le> MAX_FRAME \<and> member_ok member"
    and "send_all inbound_send (map (\<lambda>(frame, member). (frame, member, False)) frames) (of_nat T, m) = (accepted, tail, m')"
  shows "\<exists>rest. drain_ring tail m' = (map (\<lambda>msg. (fst msg, fst (snd msg))) (take 16 accepted), rest) \<and>
    inbound_holds rest (drop 16 accepted)"
proof -
  have "inbound_holds (of_nat T, m) []" using assms(1) by (auto simp: inbound_holds_def)
  moreover have "list_all inbound_fits (map (\<lambda>(frame, member). (frame, member, False)) frames)"
    using assms(2) by (auto simp: list_all_iff inbound_fits_def)
  ultimately have "inbound_holds (tail, m') ([] @ accepted)"
    using assms(3) by (rule inbound.send_all_appends)
  then have "inbound_holds (tail, m') accepted" by simp
  then show ?thesis unfolding drain_ring_def by (rule drain_frames_recv_all)
qed

theorem handed_frames_drained_witness:
  "\<exists>accepted tail m' rest. send_all inbound_send [([1, 2], Some 0, False)] (0, \<lparr>region = zero_region, copies = 0, signals = 0\<rparr>) =
       (accepted, tail, m') \<and> accepted = [([1, 2], Some 0, False)] \<and> drain_ring tail m' = ([([1, 2], Some 0)], rest)"
proof -
  let ?m = "\<lparr>region = zero_region, copies = 0, signals = 0\<rparr>"
  obtain accepted tail m' where s: "send_all inbound_send [([1, 2], Some 0, False)] (0, ?m) = (accepted, tail, m')"
    by (metis prod_cases3)
  have "fst (put [1, 2] (Some 0) False ?m)"
    by (subst put_eq [of _ 0 0 "[]"]) (simp_all add: zero_region_ok CAP_def PREFIX_def)
  then have a: "accepted = [([1, 2], Some 0, False)]"
    using s by (auto simp: inbound_send_def hand_to_ipd_def split: prod.splits)
  obtain rest where "drain_ring tail m' = ([([1, 2], Some 0)], rest)"
    using handed_frames_drained [of ?m 0 "[([1, 2], Some 0)]" accepted tail m'] s zero_region_ok a
    by (auto simp: MAX_FRAME_def member_ok_def)
  with s a show ?thesis by blast
qed

end
