(* ===== verification/RangeMap.thy ===== *)
theory RangeMap
  imports Bump
begin

text \<open>
  The region map of an address space, \<^verbatim>\<open>src/mm/src/vm.rs\<close>: page-aligned ranges, protections and
  backings, and the sorted array of regions with its binary search, insertion, removal, splitting
  and search for free space.

  Addresses are natural numbers below \<open>2 ^ 64\<close>; the checked operations of the source refuse what
  does not fit. The array is Rust's \<open>Vec\<close>: its elements and its capacity. Whether the allocator
  can grow it is the parameter \<open>grow\<close>, which is given the old capacity and the number of elements
  needed and answers the new capacity or nothing; no theorem assumes anything about it.
\<close>

subsection \<open>Ranges\<close>

definition PAGE_SIZE :: nat where "PAGE_SIZE = 4096"

datatype protection = NoAccess | ReadOnly | ReadWrite | ReadExecute

definition prot_readable :: "protection \<Rightarrow> bool" where
  "prot_readable p \<longleftrightarrow> p \<noteq> NoAccess"

definition prot_writable :: "protection \<Rightarrow> bool" where
  "prot_writable p \<longleftrightarrow> p = ReadWrite"

definition prot_executable :: "protection \<Rightarrow> bool" where
  "prot_executable p \<longleftrightarrow> p = ReadExecute"

definition prot_present :: "protection \<Rightarrow> bool" where
  "prot_present p \<longleftrightarrow> p \<noteq> NoAccess"

record virt_range =
  v_start :: nat
  v_end :: nat

definition virt_range_new :: "nat \<Rightarrow> nat \<Rightarrow> virt_range option" where
  "virt_range_new start end' =
    (if end' \<le> start then None
     else if \<not> PAGE_SIZE dvd start \<or> \<not> PAGE_SIZE dvd end' then None
     else Some \<lparr>v_start = start, v_end = end'\<rparr>)"

definition from_pages :: "nat \<Rightarrow> nat \<Rightarrow> virt_range option" where
  "from_pages start pages =
    (case checked_mul 64 pages PAGE_SIZE of
       None \<Rightarrow> None
     | Some bytes \<Rightarrow>
         (case checked_add 64 start bytes of
            None \<Rightarrow> None
          | Some end' \<Rightarrow> virt_range_new start end'))"

definition range_len :: "virt_range \<Rightarrow> nat" where
  "range_len r = v_end r - v_start r"

definition range_is_empty :: "virt_range \<Rightarrow> bool" where
  "range_is_empty r \<longleftrightarrow> range_len r = 0"

definition range_pages :: "virt_range \<Rightarrow> nat" where
  "range_pages r = range_len r div PAGE_SIZE"

definition range_contains :: "virt_range \<Rightarrow> nat \<Rightarrow> bool" where
  "range_contains r address \<longleftrightarrow> v_start r \<le> address \<and> address < v_end r"

definition overlaps :: "virt_range \<Rightarrow> virt_range \<Rightarrow> bool" where
  "overlaps r other \<longleftrightarrow> v_start r < v_end other \<and> v_start other < v_end r"

definition pages_iter :: "virt_range \<Rightarrow> nat list" where
  "pages_iter r = map (\<lambda>index. v_start r + index * PAGE_SIZE) [0..<range_pages r]"

subsection \<open>Regions\<close>

datatype backing = Anonymous | Direct nat | ReservedSpace | SharedObject nat

record region_flags =
  copy_on_write :: bool
  locked :: bool
  populate :: bool

record vm_region =
  vrange :: virt_range
  protection :: protection
  backing :: backing
  flags :: region_flags

definition vm_region_new :: "virt_range \<Rightarrow> protection \<Rightarrow> backing \<Rightarrow> vm_region" where
  "vm_region_new r p b = \<lparr>vrange = r, protection = p, backing = b,
     flags = \<lparr>copy_on_write = False, locked = False, populate = False\<rparr>\<rparr>"

datatype range_map_error = Overlaps nat | NotFound | MapOutOfMemory

record range_map =
  regions :: "vm_region list"
  capacity :: nat

definition range_map_new :: range_map where
  "range_map_new = \<lparr>regions = [], capacity = 0\<rparr>"

type_synonym grow = "nat \<Rightarrow> nat \<Rightarrow> nat option"

text \<open>\<open>Vec::try_reserve\<close>: nothing when there is room, otherwise the allocator's answer.\<close>

definition try_reserve :: "grow \<Rightarrow> nat \<Rightarrow> range_map \<Rightarrow> range_map option" where
  "try_reserve grow additional m =
    (let needed = length (regions m) + additional in
     if needed \<le> capacity m then Some m
     else (case grow (capacity m) needed of
             None \<Rightarrow> None
           | Some c \<Rightarrow> Some (m\<lparr>capacity := max needed c\<rparr>)))"

text \<open>The binary search of \<open>index_of\<close>; every index it reads is below \<open>high\<close>, at first the length.\<close>

function search_above :: "vm_region list \<Rightarrow> nat \<Rightarrow> nat \<Rightarrow> nat \<Rightarrow> nat" where
  "search_above rs address low high =
    (if low < high then
       let mid = (low + high) div 2 in
       if v_start (vrange (rs ! mid)) \<le> address then search_above rs address (mid + 1) high
       else search_above rs address low mid
     else low)"
  by pat_completeness auto
termination
  by (relation "measure (\<lambda>(rs, address, low, high). high - low)") auto

declare search_above.simps [simp del]

definition index_of :: "nat \<Rightarrow> range_map \<Rightarrow> nat option" where
  "index_of address m =
    (let low = search_above (regions m) address 0 (length (regions m)) in
     if low = 0 then None
     else
       let candidate = low - 1 in
       if range_contains (vrange (regions m ! candidate)) address then Some candidate else None)"

definition find_region :: "nat \<Rightarrow> range_map \<Rightarrow> vm_region option" where
  "find_region address m = map_option (\<lambda>index. regions m ! index) (index_of address m)"

text \<open>
  \<open>partition_point\<close> on a partitioned array is the length of the prefix that satisfies the test.
\<close>

definition insert_region ::
  "grow \<Rightarrow> vm_region \<Rightarrow> range_map \<Rightarrow> (range_map_error, unit) result \<times> range_map" where
  "insert_region grow r m =
    (let position = length (takeWhile (\<lambda>existing. v_start (vrange existing) < v_start (vrange r)) (regions m)) in
     if 0 < position \<and> overlaps (vrange (regions m ! (position - 1))) (vrange r)
     then (Error (Overlaps (position - 1)), m)
     else if position < length (regions m) \<and> overlaps (vrange (regions m ! position)) (vrange r)
     then (Error (Overlaps position), m)
     else (case try_reserve grow 1 m of
             None \<Rightarrow> (Error MapOutOfMemory, m)
           | Some m \<Rightarrow> (Ok (), m\<lparr>regions := take position (regions m) @ r # drop position (regions m)\<rparr>)))"

definition remove_region :: "nat \<Rightarrow> range_map \<Rightarrow> (range_map_error, vm_region) result \<times> range_map" where
  "remove_region start m =
    (case position (\<lambda>r. v_start (vrange r) = start) (regions m) of
       None \<Rightarrow> (Error NotFound, m)
     | Some index \<Rightarrow>
         (Ok (regions m ! index),
          m\<lparr>regions := take index (regions m) @ drop (Suc index) (regions m)\<rparr>))"

definition orphan_shared :: "nat \<Rightarrow> nat \<Rightarrow> range_map \<Rightarrow> (range_map_error, vm_region) result \<times> range_map" where
  "orphan_shared start object m =
    (case position (\<lambda>r. v_start (vrange r) = start) (regions m) of
       None \<Rightarrow> (Error NotFound, m)
     | Some index \<Rightarrow>
         let r = regions m ! index in
         if backing r \<noteq> SharedObject object then (Error NotFound, m)
         else
           let r' = r\<lparr>backing := Anonymous, flags := (flags r)\<lparr>copy_on_write := False, populate := False\<rparr>\<rparr> in
           (Ok r', m\<lparr>regions := (regions m)[index := r']\<rparr>))"

definition drain_regions :: "range_map \<Rightarrow> vm_region list \<times> range_map" where
  "drain_regions m = (regions m, range_map_new)"

text \<open>The insertion of a piece that may be absent, as \<open>reprotect\<close> does for the head and the tail.\<close>

definition insert_piece ::
  "grow \<Rightarrow> vm_region \<Rightarrow> virt_range option \<Rightarrow> range_map \<Rightarrow> (range_map_error, unit) result \<times> range_map" where
  "insert_piece grow r piece m =
    (case piece of
       None \<Rightarrow> (Ok (), m)
     | Some span \<Rightarrow> insert_region grow (r\<lparr>vrange := span\<rparr>) m)"

definition reprotect ::
  "grow \<Rightarrow> nat \<Rightarrow> nat \<Rightarrow> protection \<Rightarrow> range_map \<Rightarrow> (range_map_error, virt_range) result \<times> range_map" where
  "reprotect grow start pages prot m =
    (case from_pages start pages of
       None \<Rightarrow> (Error NotFound, m)
     | Some wanted \<Rightarrow>
    (case find_region start m of
       None \<Rightarrow> (Error NotFound, m)
     | Some r \<Rightarrow>
     if v_start wanted < v_start (vrange r) \<or> v_end (vrange r) < v_end wanted then (Error NotFound, m)
     else
       let head = (if v_start (vrange r) < v_start wanted
                   then from_pages (v_start (vrange r)) ((v_start wanted - v_start (vrange r)) div FRAME_SIZE)
                   else None);
           tail = (if v_end wanted < v_end (vrange r)
                   then from_pages (v_end wanted) ((v_end (vrange r) - v_end wanted) div FRAME_SIZE)
                   else None);
           extra = (if head \<noteq> None then 1 else 0) + (if tail \<noteq> None then 1 else 0) in
       (case try_reserve grow extra m of
          None \<Rightarrow> (Error MapOutOfMemory, m)
        | Some m \<Rightarrow>
       (case remove_region (v_start (vrange r)) m of
          (Inl e, m) \<Rightarrow> (Inl e, m)
        | (Inr _, m) \<Rightarrow>
       (case insert_region grow (r\<lparr>vrange := wanted, protection := prot\<rparr>) m of
          (Inl e, m) \<Rightarrow> (Inl e, m)
        | (Inr _, m) \<Rightarrow>
       (case insert_piece grow r head m of
          (Inl e, m) \<Rightarrow> (Inl e, m)
        | (Inr _, m) \<Rightarrow>
       (case insert_piece grow r tail m of
          (Inl e, m) \<Rightarrow> (Inl e, m)
        | (Inr _, m) \<Rightarrow> (Ok wanted, m))))))))"

text \<open>
  The search for free space: \<open>free_from\<close> is the loop over the regions, whose result is the range
  it returns from within, or the cursor it leaves with.
\<close>

fun free_from :: "vm_region list \<Rightarrow> nat \<Rightarrow> nat \<Rightarrow> nat \<Rightarrow> nat + nat" where
  "free_from [] candidate high needed = Inr candidate"
| "free_from (r # rs) candidate high needed =
    (if v_end (vrange r) \<le> candidate then free_from rs candidate high needed
     else if high \<le> v_start (vrange r) then Inr candidate
     else if needed \<le> v_start (vrange r) - candidate then Inl candidate
     else free_from rs (max candidate (v_end (vrange r))) high needed)"

definition find_free :: "nat \<Rightarrow> nat \<Rightarrow> nat \<Rightarrow> range_map \<Rightarrow> virt_range option" where
  "find_free low high pages m =
    (case checked_mul 64 pages PAGE_SIZE of
       None \<Rightarrow> None
     | Some needed \<Rightarrow>
         (case free_from (regions m) low high needed of
            Inl candidate \<Rightarrow> from_pages candidate pages
          | Inr candidate \<Rightarrow> if needed \<le> high - candidate then from_pages candidate pages else None))"

fun windows_ordered :: "vm_region list \<Rightarrow> bool" where
  "windows_ordered (a # b # rs) \<longleftrightarrow> \<not> v_start (vrange b) < v_end (vrange a) \<and> windows_ordered (b # rs)"
| "windows_ordered _ \<longleftrightarrow> True"

definition check_regions :: "range_map \<Rightarrow> (string, unit) result" where
  "check_regions m =
    (if \<not> windows_ordered (regions m) then Error ''regions overlap or are out of order''
     else if list_ex (\<lambda>r. range_is_empty (vrange r)) (regions m) then Error ''a region covers no pages''
     else Ok ())"

end
