(* ===== verification/RangeMapProps.thy ===== *)
theory RangeMapProps
  imports RangeMap
begin

text \<open>
  The region map is a partial function from addresses to what the mapping permits: the array is
  sorted and its regions are disjoint, the binary search finds the region of an address,
  insertion, removal and splitting update that function and nothing else, a refused operation
  leaves it alone, and the search for free space returns the lowest gap.
\<close>

subsection \<open>The invariant\<close>

definition range_ok :: "virt_range \<Rightarrow> bool" where
  "range_ok r \<longleftrightarrow> v_start r < v_end r \<and> PAGE_SIZE dvd v_start r \<and> PAGE_SIZE dvd v_end r \<and> v_end r < 2 ^ 64"

definition below :: "vm_region \<Rightarrow> vm_region \<Rightarrow> bool" where
  "below a b \<longleftrightarrow> v_end (vrange a) \<le> v_start (vrange b)"

definition regions_ok :: "vm_region list \<Rightarrow> bool" where
  "regions_ok rs \<longleftrightarrow> sorted_wrt below rs \<and> (\<forall>r \<in> set rs. range_ok (vrange r))"

text \<open>The mapping a list of regions stands for.\<close>

type_synonym attributes = "protection \<times> backing \<times> region_flags"

definition attributes :: "vm_region \<Rightarrow> attributes" where
  "attributes r = (protection r, backing r, flags r)"

definition mapping :: "vm_region list \<Rightarrow> nat \<rightharpoonup> attributes" where
  "mapping rs a = map_option attributes (find (\<lambda>r. range_contains (vrange r) a) rs)"

lemma from_pages_Some:
  "from_pages start pages = Some r \<longleftrightarrow>
     r = \<lparr>v_start = start, v_end = start + pages * PAGE_SIZE\<rparr> \<and> 0 < pages \<and> PAGE_SIZE dvd start \<and>
     start + pages * PAGE_SIZE < 2 ^ 64"
proof -
  have "PAGE_SIZE dvd start \<Longrightarrow> PAGE_SIZE dvd start + pages * PAGE_SIZE" by simp
  then show ?thesis
    by (auto simp: from_pages_def virt_range_new_def checked_mul_def checked_add_def max_of_def PAGE_SIZE_def
        split: option.splits if_splits)
qed

lemma from_pages_ok: "from_pages start pages = Some r \<Longrightarrow> range_ok r"
  by (auto simp: from_pages_Some range_ok_def PAGE_SIZE_def)

lemma overlaps_iff:
  "range_ok r \<Longrightarrow> range_ok s \<Longrightarrow> \<not> overlaps r s \<longleftrightarrow> v_end r \<le> v_start s \<or> v_end s \<le> v_start r"
  by (auto simp: overlaps_def)

lemma regions_ok_append:
  "regions_ok (xs @ ys) \<longleftrightarrow> regions_ok xs \<and> regions_ok ys \<and> (\<forall>x \<in> set xs. \<forall>y \<in> set ys. below x y)"
  by (auto simp: regions_ok_def sorted_wrt_append)

lemma regions_ok_Cons:
  "regions_ok (x # xs) \<longleftrightarrow> range_ok (vrange x) \<and> regions_ok xs \<and> (\<forall>y \<in> set xs. below x y)"
  by (auto simp: regions_ok_def)

lemma regions_ok_Nil [simp]: "regions_ok []"
  by (simp add: regions_ok_def)

lemma regions_ok_apart:
  assumes "regions_ok rs" "r \<in> set rs" "s \<in> set rs" "r \<noteq> s"
  shows "\<not> overlaps (vrange r) (vrange s)"
  using assms
proof (induction rs)
  case (Cons x xs)
  then show ?case by (force simp: regions_ok_Cons below_def overlaps_def)
qed simp

lemma contains_overlaps:
  "range_contains r a \<Longrightarrow> range_contains s a \<Longrightarrow> overlaps r s"
  by (auto simp: range_contains_def overlaps_def)

lemma mapping_Some:
  assumes "regions_ok rs"
  shows "mapping rs a = Some x \<longleftrightarrow> (\<exists>r \<in> set rs. range_contains (vrange r) a \<and> attributes r = x)"
proof
  assume "mapping rs a = Some x"
  then show "\<exists>r \<in> set rs. range_contains (vrange r) a \<and> attributes r = x"
    by (auto simp: mapping_def find_Some_iff)
next
  assume "\<exists>r \<in> set rs. range_contains (vrange r) a \<and> attributes r = x"
  then obtain r where r: "r \<in> set rs" "range_contains (vrange r) a" "attributes r = x" by blast
  then obtain s where s: "find (\<lambda>r. range_contains (vrange r) a) rs = Some s"
    by (cases "find (\<lambda>r. range_contains (vrange r) a) rs") (auto simp: find_None_iff)
  then have "s \<in> set rs" "range_contains (vrange s) a" by (auto simp: find_Some_iff)
  then have "s = r" using regions_ok_apart [OF assms] r contains_overlaps by blast
  with s r(3) show "mapping rs a = Some x" by (simp add: mapping_def)
qed

lemma mapping_None:
  "mapping rs a = None \<longleftrightarrow> (\<forall>r \<in> set rs. \<not> range_contains (vrange r) a)"
  by (auto simp: mapping_def find_None_iff)

lemma mapping_cong_set: "regions_ok rs \<Longrightarrow> regions_ok rs' \<Longrightarrow> set rs = set rs' \<Longrightarrow> mapping rs = mapping rs'"
  by (intro ext option.expand) (auto simp: mapping_None, metis mapping_Some option.exhaust_sel option.sel)

lemma mapping_insert:
  assumes "regions_ok rs" "regions_ok rs'" "set rs' = insert r (set rs)"
  shows "mapping rs' = (\<lambda>a. if range_contains (vrange r) a then Some (attributes r) else mapping rs a)"
proof
  fix a
  show "mapping rs' a = (if range_contains (vrange r) a then Some (attributes r) else mapping rs a)"
  proof (cases "range_contains (vrange r) a")
    case True
    then show ?thesis using assms by (auto simp: mapping_Some)
  next
    case False
    have "mapping rs' a = Some x \<longleftrightarrow> mapping rs a = Some x" for x
      using False assms by (auto simp: mapping_Some)
    then show ?thesis using False by (metis not_None_eq)
  qed
qed

subsection \<open>The search\<close>

lemma starts_increase:
  assumes "regions_ok rs" "i < j" "j < length rs"
  shows "v_end (vrange (rs ! i)) \<le> v_start (vrange (rs ! j))" "v_start (vrange (rs ! i)) < v_start (vrange (rs ! j))"
proof -
  show le: "v_end (vrange (rs ! i)) \<le> v_start (vrange (rs ! j))"
    using assms sorted_wrt_nth_less [of below rs i j] by (simp add: regions_ok_def below_def)
  have "range_ok (vrange (rs ! i))" using assms by (simp add: regions_ok_def)
  then show "v_start (vrange (rs ! i)) < v_start (vrange (rs ! j))"
    using le by (simp add: range_ok_def)
qed

lemma search_above_spec:
  assumes "regions_ok rs" "low \<le> high" "high \<le> length rs"
    "\<forall>i < low. v_start (vrange (rs ! i)) \<le> a" "\<forall>i. high \<le> i \<and> i < length rs \<longrightarrow> a < v_start (vrange (rs ! i))"
  defines "k \<equiv> search_above rs a low high"
  shows "k \<le> length rs \<and> (\<forall>i < k. v_start (vrange (rs ! i)) \<le> a) \<and> (\<forall>i. k \<le> i \<and> i < length rs \<longrightarrow> a < v_start (vrange (rs ! i)))"
  unfolding k_def using assms(1-5)
proof (induction rs a low high rule: search_above.induct)
  case (1 rs a low high)
  define mid where "mid = (low + high) div 2"
  show ?case
  proof (cases "low < high")
    case False
    then have "search_above rs a low high = low" "low = high"
      using "1.prems"(2) by (simp_all add: search_above.simps)
    then show ?thesis using "1.prems" by simp
  next
    case True
    then have mid: "low \<le> mid" "mid < high" by (auto simp: mid_def)
    have mono: "v_start (vrange (rs ! i)) \<le> v_start (vrange (rs ! j))" if "i \<le> j" "j < length rs" for i j
      using starts_increase(2) [OF "1.prems"(1), of i j] that by (cases "i = j") auto
    show ?thesis
    proof (cases "v_start (vrange (rs ! mid)) \<le> a")
      case le: True
      have "\<forall>i < mid + 1. v_start (vrange (rs ! i)) \<le> a"
      proof (intro allI impI)
        fix i assume "i < mid + 1"
        then have "v_start (vrange (rs ! i)) \<le> v_start (vrange (rs ! mid))"
          using mid "1.prems"(3) by (intro mono) auto
        with le show "v_start (vrange (rs ! i)) \<le> a" by (rule order_trans [rotated])
      qed
      from "1.IH"(1) [OF True mid_def le "1.prems"(1) _ "1.prems"(3) this "1.prems"(5)] mid
      show ?thesis using True le by (simp add: search_above.simps [of rs a low high] mid_def [symmetric])
    next
      case gt: False
      have "\<forall>i. mid \<le> i \<and> i < length rs \<longrightarrow> a < v_start (vrange (rs ! i))"
        using mono [of mid] gt by (meson leI less_le_trans)
      from "1.IH"(2) [OF True mid_def gt "1.prems"(1) _ _ "1.prems"(4) this] mid "1.prems"(3)
      show ?thesis using True gt by (simp add: search_above.simps [of rs a low high] mid_def [symmetric])
    qed
  qed
qed

lemma find_unique:
  assumes "regions_ok rs" "r \<in> set rs" "range_contains (vrange r) a"
  shows "find (\<lambda>r. range_contains (vrange r) a) rs = Some r"
proof -
  obtain s where s: "find (\<lambda>r. range_contains (vrange r) a) rs = Some s"
    using assms(2,3) by (cases "find (\<lambda>r. range_contains (vrange r) a) rs") (auto simp: find_None_iff)
  then have "s \<in> set rs" "range_contains (vrange s) a" by (auto simp: find_Some_iff)
  then have "s = r" using regions_ok_apart [OF assms(1)] assms(2,3) contains_overlaps by blast
  with s show ?thesis by simp
qed

lemma find_region_search:
  assumes "regions_ok (regions m)"
  shows "find_region a m = find (\<lambda>r. range_contains (vrange r) a) (regions m)"
proof -
  define k where "k = search_above (regions m) a 0 (length (regions m))"
  have k: "k \<le> length (regions m)" "\<forall>i < k. v_start (vrange (regions m ! i)) \<le> a"
    "\<forall>i. k \<le> i \<and> i < length (regions m) \<longrightarrow> a < v_start (vrange (regions m ! i))"
    using search_above_spec [OF assms, of 0 "length (regions m)" a] by (auto simp: k_def)
  have outside: "\<not> range_contains (vrange (regions m ! i)) a" if "i < length (regions m)" "Suc i \<noteq> k" for i
  proof (cases "i < k")
    case True
    then have "v_end (vrange (regions m ! i)) \<le> v_start (vrange (regions m ! (k - 1)))"
      using that k(1) by (intro starts_increase(1) [OF assms]) auto
    also have "\<dots> \<le> a" using True k(2) by simp
    finally show ?thesis by (simp add: range_contains_def)
  next
    case False
    then have "a < v_start (vrange (regions m ! i))" using k(3) that(1) by simp
    then show ?thesis by (simp add: range_contains_def)
  qed
  show ?thesis
  proof (cases "0 < k \<and> range_contains (vrange (regions m ! (k - 1))) a")
    case True
    then have "k - 1 < length (regions m)" using k(1) by linarith
    then have "regions m ! (k - 1) \<in> set (regions m)" by (rule nth_mem)
    with True show ?thesis
      using find_unique [OF assms, of "regions m ! (k - 1)" a]
      by (simp add: find_region_def index_of_def k_def [symmetric])
  next
    case False
    then have "\<not> range_contains (vrange (regions m ! i)) a" if "i < length (regions m)" for i
      using outside [OF that] by (cases "Suc i = k") auto
    then have "find (\<lambda>r. range_contains (vrange r) a) (regions m) = None"
      by (auto simp: find_None_iff in_set_conv_nth)
    with False show ?thesis
      by (auto simp: find_region_def index_of_def Let_def k_def [symmetric])
  qed
qed

lemma find_region_Some:
  assumes "regions_ok (regions m)"
  shows "find_region a m = Some r \<longleftrightarrow> r \<in> set (regions m) \<and> range_contains (vrange r) a"
  using find_unique [OF assms] unfolding find_region_search [OF assms] by (auto simp: find_Some_iff)

lemma find_region_mapping:
  "regions_ok (regions m) \<Longrightarrow> mapping (regions m) a = map_option attributes (find_region a m)"
  by (simp add: mapping_def find_region_search)

subsection \<open>Insertion and removal\<close>

lemma in_drop_nth:
  assumes "y \<in> set (drop k rs)"
  obtains i where "k + i < length rs" "y = rs ! (k + i)"
proof -
  obtain i where "i < length (drop k rs)" "y = drop k rs ! i"
    using assms unfolding in_set_conv_nth by blast
  then show thesis by (intro that [of i]) auto
qed

lemma try_reserve_Some:
  assumes "try_reserve grow n m = Some m'"
  shows "regions m' = regions m" "length (regions m) + n \<le> capacity m'"
  using assms by (auto simp: try_reserve_def Let_def split: if_splits option.splits)

lemma try_reserve_room: "length (regions m) + n \<le> capacity m \<Longrightarrow> try_reserve grow n m = Some m"
  by (simp add: try_reserve_def)

lemma split_at_start:
  assumes "regions_ok rs" "range_ok (vrange r)"
  defines "k \<equiv> length (takeWhile (\<lambda>e. v_start (vrange e) < v_start (vrange r)) rs)"
  shows "k \<le> length rs" "\<forall>x \<in> set (take k rs). v_start (vrange x) < v_start (vrange r)"
    "\<forall>y \<in> set (drop k rs). v_start (vrange r) \<le> v_start (vrange y)"
proof -
  let ?P = "\<lambda>e. v_start (vrange e) < v_start (vrange r)"
  show "k \<le> length rs" by (simp add: k_def length_takeWhile_le)
  have t: "take k rs = takeWhile ?P rs" "drop k rs = dropWhile ?P rs"
    by (simp_all add: k_def takeWhile_eq_take [symmetric] dropWhile_eq_drop [symmetric])
  then show "\<forall>x \<in> set (take k rs). ?P x" by (auto dest: set_takeWhileD)
  show "\<forall>y \<in> set (drop k rs). v_start (vrange r) \<le> v_start (vrange y)"
  proof
    fix y assume "y \<in> set (drop k rs)"
    then obtain i where i: "k + i < length rs" "y = rs ! (k + i)" by (rule in_drop_nth)
    have "\<not> ?P (rs ! k)" using i(1) nth_length_takeWhile [of ?P rs] by (simp add: k_def)
    moreover have "v_start (vrange (rs ! k)) \<le> v_start (vrange y)"
      using starts_increase(2) [OF assms(1), of k "k + i"] i by (cases i) auto
    ultimately show "v_start (vrange r) \<le> v_start (vrange y)" by linarith
  qed
qed

lemma neighbours_enough:
  assumes "regions_ok rs" "range_ok (vrange r)"
  defines "k \<equiv> length (takeWhile (\<lambda>e. v_start (vrange e) < v_start (vrange r)) rs)"
  assumes "0 < k \<longrightarrow> \<not> overlaps (vrange (rs ! (k - 1))) (vrange r)"
    and "k < length rs \<longrightarrow> \<not> overlaps (vrange (rs ! k)) (vrange r)"
  shows "regions_ok (take k rs @ r # drop k rs)"
proof -
  note sp = split_at_start [OF assms(1,2), folded k_def]
  have ok: "range_ok (vrange (rs ! i))" if "i < length rs" for i
    using assms(1) that by (simp add: regions_ok_def)
  have l: "below x r" if "x \<in> set (take k rs)" for x
  proof -
    obtain i where i: "i < k" "x = rs ! i" "i < length rs" using \<open>x \<in> _\<close> sp(1) by (auto simp: in_set_conv_nth)
    have "rs ! (k - 1) \<in> set (take k rs)" using i sp(1) by (auto simp: in_set_conv_nth intro!: exI [of _ "k - 1"])
    then have "v_end (vrange (rs ! (k - 1))) \<le> v_start (vrange r)"
      using sp(2) assms(4) i(1) by (auto simp: overlaps_def) (use assms(2) in \<open>auto simp: range_ok_def\<close>)
    moreover have "v_end (vrange x) \<le> v_end (vrange (rs ! (k - 1)))"
    proof (cases "i = k - 1")
      case False
      then have "i < k - 1" "k - 1 < length rs" using i sp(1) by auto
      then have "v_end (vrange x) \<le> v_start (vrange (rs ! (k - 1)))" "range_ok (vrange (rs ! (k - 1)))"
        using starts_increase(1) [OF assms(1), of i "k - 1"] ok i(2) by auto
      then show ?thesis by (simp add: range_ok_def)
    qed (simp add: i)
    ultimately show ?thesis by (simp add: below_def)
  qed
  have u: "below r y" if "y \<in> set (drop k rs)" for y
  proof -
    obtain i where i: "k + i < length rs" "y = rs ! (k + i)" using \<open>y \<in> _\<close> by (rule in_drop_nth)
    have "rs ! k \<in> set (drop k rs)" using i by (auto simp: in_set_conv_nth intro!: exI [of _ 0])
    then have "v_start (vrange r) \<le> v_start (vrange (rs ! k))" using sp(3) by blast
    then have "v_end (vrange r) \<le> v_start (vrange (rs ! k))"
      using assms(5) ok [of k] i(1) by (auto simp: overlaps_def range_ok_def)
    moreover have "v_start (vrange (rs ! k)) \<le> v_start (vrange y)"
      using starts_increase(2) [OF assms(1), of k "k + i"] i by (cases i) auto
    ultimately show ?thesis by (simp add: below_def)
  qed
  have "regions_ok (take k rs @ drop k rs)" using assms(1) by simp
  then show ?thesis
    using l u assms(2) unfolding regions_ok_append regions_ok_Cons by auto
qed

text \<open>What an insertion does, on every branch.\<close>

lemma insert_region_cases:
  assumes "regions_ok (regions m)" "range_ok (vrange r)"
  obtains (clash) i where "insert_region grow r m = (Error (Overlaps i), m)" "i < length (regions m)"
      "overlaps (vrange (regions m ! i)) (vrange r)"
    | (full) "insert_region grow r m = (Error MapOutOfMemory, m)" "try_reserve grow 1 m = None"
      "\<forall>e \<in> set (regions m). \<not> overlaps (vrange e) (vrange r)"
    | (inserted) m' m1 where "insert_region grow r m = (Ok (), m')" "regions_ok (regions m')"
      "set (regions m') = insert r (set (regions m))" "length (regions m') = Suc (length (regions m))"
      "try_reserve grow 1 m = Some m1" "capacity m' = capacity m1"
      "\<forall>e \<in> set (regions m). \<not> overlaps (vrange e) (vrange r)"
proof -
  define k where "k = length (takeWhile (\<lambda>e. v_start (vrange e) < v_start (vrange r)) (regions m))"
  have k: "k \<le> length (regions m)" unfolding k_def by (rule length_takeWhile_le)
  consider (low) "0 < k" "overlaps (vrange (regions m ! (k - 1))) (vrange r)"
    | (high) "\<not> (0 < k \<and> overlaps (vrange (regions m ! (k - 1))) (vrange r))"
        "k < length (regions m)" "overlaps (vrange (regions m ! k)) (vrange r)"
    | (free) "0 < k \<longrightarrow> \<not> overlaps (vrange (regions m ! (k - 1))) (vrange r)"
        "k < length (regions m) \<longrightarrow> \<not> overlaps (vrange (regions m ! k)) (vrange r)"
    by blast
  then show thesis
  proof cases
    case low
    then show thesis using k by (intro clash [of "k - 1"]) (auto simp: insert_region_def Let_def k_def [symmetric])
  next
    case high
    then show thesis by (intro clash [of k]) (auto simp: insert_region_def Let_def k_def [symmetric])
  next
    case free
    define rs where "rs = take k (regions m) @ r # drop k (regions m)"
    have ok: "regions_ok rs" unfolding rs_def k_def
      by (rule neighbours_enough [OF assms]) (use free in \<open>simp_all add: k_def\<close>)
    have set: "set rs = insert r (set (regions m))" "length rs = Suc (length (regions m))"
      unfolding rs_def using set_append [of "take k (regions m)" "drop k (regions m)"] k by auto
    have apart: "\<forall>e \<in> set (regions m). \<not> overlaps (vrange e) (vrange r)"
    proof
      fix e assume "e \<in> set (regions m)"
      then have "e \<in> set (take k (regions m)) \<or> e \<in> set (drop k (regions m))"
        by (metis Un_iff append_take_drop_id set_append)
      then have "below e r \<or> below r e"
        using ok unfolding rs_def regions_ok_append regions_ok_Cons by auto
      then show "\<not> overlaps (vrange e) (vrange r)" by (auto simp: below_def overlaps_def)
    qed
    have e: "insert_region grow r m = (case try_reserve grow 1 m of None \<Rightarrow> (Error MapOutOfMemory, m)
        | Some m \<Rightarrow> (Ok (), m\<lparr>regions := take k (regions m) @ r # drop k (regions m)\<rparr>))"
      using free by (auto simp: insert_region_def Let_def k_def [symmetric])
    show thesis
    proof (cases "try_reserve grow 1 m")
      case None
      then show thesis using e apart by (intro full) auto
    next
      case (Some m1)
      show thesis
        by (rule inserted [of "m1\<lparr>regions := rs\<rparr>" m1])
          (use e Some ok set apart try_reserve_Some(1) [OF Some] in \<open>simp_all add: rs_def\<close>)
    qed
  qed
qed

lemma insert_region_room:
  assumes "regions_ok (regions m)" "range_ok (vrange r)" "length (regions m) < capacity m"
    "\<forall>e \<in> set (regions m). \<not> overlaps (vrange e) (vrange r)"
  shows "\<exists>m'. insert_region grow r m = (Ok (), m') \<and> regions_ok (regions m') \<and>
    set (regions m') = insert r (set (regions m)) \<and> length (regions m') = Suc (length (regions m)) \<and> capacity m' = capacity m"
proof -
  have t: "try_reserve grow 1 m = Some m" using assms(3) by (intro try_reserve_room) simp
  from assms(1,2) show ?thesis
  proof (cases rule: insert_region_cases [where grow = grow])
    case (clash i)
    then show ?thesis using assms(4) by auto
  qed (use t in auto)
qed

lemma remove_region_cases:
  assumes "regions_ok (regions m)"
  obtains (missing) "remove_region start m = (Error NotFound, m)" "\<forall>r \<in> set (regions m). v_start (vrange r) \<noteq> start"
    | (removed) r m' where "remove_region start m = (Ok r, m')" "r \<in> set (regions m)" "v_start (vrange r) = start"
      "regions_ok (regions m')" "set (regions m') = set (regions m) - {r}"
      "Suc (length (regions m')) = length (regions m)" "capacity m' = capacity m"
proof (cases "position (\<lambda>r. v_start (vrange r) = start) (regions m)")
  case None
  then have "\<forall>r \<in> set (regions m). v_start (vrange r) \<noteq> start" by (simp only: position_None_iff)
  with None show thesis by (intro missing) (simp_all add: remove_region_def)
next
  case (Some i)
  then have i: "i < length (regions m)" "v_start (vrange (regions m ! i)) = start"
    using position_SomeD by blast+
  define xs ys r where "xs = take i (regions m)" and "ys = drop (Suc i) (regions m)" and "r = regions m ! i"
  have split: "regions m = xs @ r # ys" unfolding xs_def ys_def r_def by (rule id_take_nth_drop [OF i(1)])
  have ok: "regions_ok (xs @ ys)" using assms unfolding split regions_ok_append regions_ok_Cons by auto
  have "r \<notin> set (xs @ ys)"
    using assms unfolding split regions_ok_append regions_ok_Cons by (auto simp: below_def range_ok_def)
  moreover have "remove_region start m = (Ok r, m\<lparr>regions := xs @ ys\<rparr>)"
    by (simp add: remove_region_def Some xs_def ys_def r_def)
  moreover have "v_start (vrange r) = start" using i(2) by (simp add: r_def)
  ultimately show thesis
    using ok by (intro removed [of r "m\<lparr>regions := xs @ ys\<rparr>"]) (auto simp: split)
qed

subsection \<open>Splitting\<close>

lemma from_pages_span:
  assumes "PAGE_SIZE dvd a" "PAGE_SIZE dvd b" "a < b" "b < 2 ^ 64"
  shows "from_pages a ((b - a) div FRAME_SIZE) = Some \<lparr>v_start = a, v_end = b\<rparr>"
proof -
  have "PAGE_SIZE dvd b - a" using assms by (intro dvd_diff_nat)
  then have e: "(b - a) div FRAME_SIZE * PAGE_SIZE = b - a" by (simp add: FRAME_SIZE_def PAGE_SIZE_def)
  moreover from e have "0 < (b - a) div FRAME_SIZE" using assms(3) by (cases "(b - a) div FRAME_SIZE") auto
  ultimately show ?thesis
    using assms by (simp add: from_pages_Some)
qed

lemma insert_piece_room:
  assumes "regions_ok (regions m)" "piece \<noteq> None \<longrightarrow> length (regions m) < capacity m"
    "\<forall>span. piece = Some span \<longrightarrow> range_ok span \<and> (\<forall>e \<in> set (regions m). \<not> overlaps (vrange e) span)"
  shows "\<exists>m'. insert_piece grow r piece m = (Ok (), m') \<and> regions_ok (regions m') \<and>
    set (regions m') = (\<lambda>span. r\<lparr>vrange := span\<rparr>) ` set_option piece \<union> set (regions m) \<and>
    length (regions m') = length (regions m) + card (set_option piece) \<and> capacity m' = capacity m"
proof (cases piece)
  case None
  then show ?thesis using assms(1) by (simp add: insert_piece_def)
next
  case (Some span)
  then show ?thesis
    using insert_region_room [OF assms(1), of "r\<lparr>vrange := span\<rparr>" grow] assms(2,3) by (auto simp: insert_piece_def)
qed

definition split_head :: "virt_range \<Rightarrow> virt_range \<Rightarrow> virt_range option" where
  "split_head r w = (if v_start r < v_start w then Some \<lparr>v_start = v_start r, v_end = v_start w\<rparr> else None)"

definition split_tail :: "virt_range \<Rightarrow> virt_range \<Rightarrow> virt_range option" where
  "split_tail r w = (if v_end w < v_end r then Some \<lparr>v_start = v_end w, v_end = v_end r\<rparr> else None)"

definition pieces :: "vm_region \<Rightarrow> virt_range \<Rightarrow> vm_region set" where
  "pieces r w = (\<lambda>span. r\<lparr>vrange := span\<rparr>) ` (set_option (split_head (vrange r) w) \<union> set_option (split_tail (vrange r) w))"

lemma split_parts:
  assumes "range_ok r" "range_ok w" "v_start r \<le> v_start w" "v_end w \<le> v_end r"
  shows "(if v_start r < v_start w then from_pages (v_start r) ((v_start w - v_start r) div FRAME_SIZE) else None) = split_head r w"
    "(if v_end w < v_end r then from_pages (v_end w) ((v_end r - v_end w) div FRAME_SIZE) else None) = split_tail r w"
    "x \<in> set_option (split_head r w) \<union> set_option (split_tail r w) \<Longrightarrow>
       range_ok x \<and> v_start r \<le> v_start x \<and> v_end x \<le> v_end r \<and> (v_end x \<le> v_start w \<or> v_end w \<le> v_start x)"
    "range_contains r a \<longleftrightarrow> range_contains w a \<or>
       (\<exists>x \<in> set_option (split_head r w) \<union> set_option (split_tail r w). range_contains x a)"
  using assms
  by (auto simp: split_head_def split_tail_def from_pages_span range_ok_def range_contains_def split: if_splits)

lemma reprotect_splits:
  assumes "regions_ok (regions m)" "from_pages start pages = Some w" "find_region start m = Some r"
    "v_end w \<le> v_end (vrange r)"
    "try_reserve grow (card (set_option (split_head (vrange r) w)) + card (set_option (split_tail (vrange r) w))) m = Some m1"
  shows "\<exists>m'. reprotect grow start pages prot m = (Ok w, m') \<and> regions_ok (regions m') \<and>
    set (regions m') = insert (r\<lparr>vrange := w, protection := prot\<rparr>) (pieces r w \<union> (set (regions m) - {r}))"
proof -
  let ?h = "split_head (vrange r) w" and ?t = "split_tail (vrange r) w"
  let ?mid = "r\<lparr>vrange := w, protection := prot\<rparr>"
  have r: "r \<in> set (regions m)" "range_contains (vrange r) start" using assms(1,3) by (auto simp: find_region_Some)
  have rok: "range_ok (vrange r)" using assms(1) r(1) by (simp add: regions_ok_def)
  have wok: "range_ok w" by (rule from_pages_ok [OF assms(2)])
  have ws: "v_start w = start" using assms(2) by (simp add: from_pages_Some)
  then have le: "v_start (vrange r) \<le> v_start w" using r(2) by (simp add: range_contains_def)
  note sp = split_parts [OF rok wok le assms(4)]
  note m1 = try_reserve_Some [OF assms(5)]
  have "regions_ok (regions m1)" using assms(1) m1 by simp
  then obtain m2 where m2: "remove_region (v_start (vrange r)) m1 = (Ok r, m2)" "regions_ok (regions m2)"
      "set (regions m2) = set (regions m) - {r}" "Suc (length (regions m2)) = length (regions m)" "capacity m2 = capacity m1"
  proof (cases rule: remove_region_cases [where start = "v_start (vrange r)"])
    case missing
    then show ?thesis using r(1) m1 by auto
  next
    case (removed q m')
    have "q = r"
    proof (rule ccontr)
      assume "q \<noteq> r"
      then have "\<not> overlaps (vrange q) (vrange r)"
        using regions_ok_apart [OF assms(1)] removed(2) r(1) m1(1) by auto
      moreover have "range_ok (vrange q)" using assms(1) removed(2) m1(1) by (simp add: regions_ok_def)
      ultimately show False using removed(3) rok by (auto simp: overlaps_def range_ok_def)
    qed
    with removed show ?thesis using that [of m'] m1(1) by simp
  qed
  have off: "\<not> overlaps (vrange e) x" if "e \<in> set (regions m2)" "v_start (vrange r) \<le> v_start x" "v_end x \<le> v_end (vrange r)" for e x
  proof -
    have "e \<in> set (regions m)" "e \<noteq> r" using that(1) m2(3) by auto
    then have "\<not> overlaps (vrange e) (vrange r)" using regions_ok_apart [OF assms(1)] r(1) by blast
    with that(2,3) show ?thesis unfolding overlaps_def by linarith
  qed
  have cap: "Suc (length (regions m2)) + card (set_option ?h) + card (set_option ?t) \<le> capacity m2"
    using m1(2) m2(4,5) by simp
  obtain m3 where m3: "insert_region grow ?mid m2 = (Ok (), m3)" "regions_ok (regions m3)"
      "set (regions m3) = insert ?mid (set (regions m2))" "length (regions m3) = Suc (length (regions m2))" "capacity m3 = capacity m2"
    using insert_region_room [OF m2(2), of ?mid grow] off [of _ w] le assms(4) wok cap by auto
  obtain m4 where m4: "insert_piece grow r ?h m3 = (Ok (), m4)" "regions_ok (regions m4)"
      "set (regions m4) = (\<lambda>span. r\<lparr>vrange := span\<rparr>) ` set_option ?h \<union> set (regions m3)"
      "length (regions m4) = length (regions m3) + card (set_option ?h)" "capacity m4 = capacity m3"
  proof -
    have "?h = Some x \<longrightarrow> range_ok x \<and> (\<forall>e \<in> set (regions m3). \<not> overlaps (vrange e) x)" for x
      using sp(3) [of x] off [of _ x] wok by (auto simp: m3(3) overlaps_def)
    then show ?thesis using insert_piece_room [OF m3(2), where piece = ?h and r = r and grow = grow] cap m3(4,5) that by (cases ?h) auto
  qed
  obtain m5 where m5: "insert_piece grow r ?t m4 = (Ok (), m5)" "regions_ok (regions m5)"
      "set (regions m5) = (\<lambda>span. r\<lparr>vrange := span\<rparr>) ` set_option ?t \<union> set (regions m4)"
  proof -
    have "?t = Some x \<longrightarrow> range_ok x \<and> (\<forall>e \<in> set (regions m4). \<not> overlaps (vrange e) x)" for x
      using sp(3) [of x] off [of _ x] wok le
      by (auto simp: m4(3) m3(3) overlaps_def split_head_def split_tail_def range_ok_def split: if_splits)
    then show ?thesis using insert_piece_room [OF m4(2), where piece = ?t and r = r and grow = grow] cap m3(4,5) m4(4,5) that by (cases ?t) auto
  qed
  have extra: "(if ?h \<noteq> None then 1 else 0) + (if ?t \<noteq> None then 1 else 0) = card (set_option ?h) + card (set_option ?t)"
    by (cases ?h; cases ?t) auto
  have guard: "\<not> (v_start w < v_start (vrange r) \<or> v_end (vrange r) < v_end w)" using le assms(4) by simp
  have "reprotect grow start pages prot m = (Ok w, m5)"
    by (simp only: reprotect_def assms(2,3,5) option.case if_not_P [OF guard] Let_def sp(1,2) extra
        m2(1) m3(1) m4(1) m5(1) prod.case sum.case)
  moreover have "set (regions m5) = insert ?mid (pieces r w \<union> (set (regions m) - {r}))"
    by (auto simp: m5(3) m4(3) m3(3) m2(3) pieces_def)
  ultimately show ?thesis using m5(2) by blast
qed

lemma mapping_split:
  assumes "regions_ok rs" "regions_ok rs'" "r \<in> set rs" "range_ok w"
    "v_start (vrange r) \<le> v_start w" "v_end w \<le> v_end (vrange r)"
    "set rs' = insert (r\<lparr>vrange := w, protection := prot\<rparr>) (pieces r w \<union> (set rs - {r}))"
  shows "mapping rs' a = (if range_contains w a then Some (prot, backing r, flags r) else mapping rs a)"
    "range_contains w a \<Longrightarrow> mapping rs a = Some (attributes r)"
proof -
  have rok: "range_ok (vrange r)" using assms(1,3) by (simp add: regions_ok_def)
  note sp = split_parts [OF rok assms(4-6)]
  show inside: "mapping rs a = Some (attributes r)" if "range_contains w a"
    using that sp(4) [of a] assms(1,3) by (auto simp: mapping_Some)
  show "mapping rs' a = (if range_contains w a then Some (prot, backing r, flags r) else mapping rs a)"
  proof (cases "range_contains w a")
    case True
    then show ?thesis using assms(2,7) by (auto simp: mapping_Some attributes_def)
  next
    case False
    have "mapping rs' a = Some x \<longleftrightarrow> mapping rs a = Some x" for x
    proof -
      have "mapping rs' a = Some x \<longleftrightarrow> (\<exists>e \<in> pieces r w \<union> (set rs - {r}). range_contains (vrange e) a \<and> attributes e = x)"
        using False by (auto simp: mapping_Some [OF assms(2)] assms(7))
      also have "\<dots> \<longleftrightarrow> (range_contains (vrange r) a \<and> attributes r = x) \<or>
          (\<exists>e \<in> set rs - {r}. range_contains (vrange e) a \<and> attributes e = x)"
        using False sp(4) [of a] by (auto simp: pieces_def attributes_def)
      also have "\<dots> \<longleftrightarrow> mapping rs a = Some x"
        using assms(3) by (auto simp: mapping_Some [OF assms(1)])
      finally show ?thesis .
    qed
    then show ?thesis using False by (metis not_None_eq)
  qed
qed

definition held_by_one :: "range_map \<Rightarrow> nat \<Rightarrow> nat \<Rightarrow> bool" where
  "held_by_one m start pages \<longleftrightarrow> (\<exists>w r. from_pages start pages = Some w \<and> r \<in> set (regions m) \<and>
     v_start (vrange r) \<le> v_start w \<and> v_end w \<le> v_end (vrange r))"

lemma held_by_one_find:
  assumes "regions_ok (regions m)" "from_pages start pages = Some w"
  shows "held_by_one m start pages \<longleftrightarrow> (\<exists>r. find_region start m = Some r \<and> v_end w \<le> v_end (vrange r))"
proof -
  have "v_start w = start" "start < v_end w" using assms(2) by (auto simp: from_pages_Some PAGE_SIZE_def)
  then show ?thesis
    using assms by (auto simp: held_by_one_def find_region_Some range_contains_def)
qed

lemma reprotect_cases:
  assumes "regions_ok (regions m)"
  obtains (refused) "reprotect grow start pages prot m = (Error NotFound, m)" "\<not> held_by_one m start pages"
    | (full) "reprotect grow start pages prot m = (Error MapOutOfMemory, m)" "held_by_one m start pages"
    | (split) w r m' where "reprotect grow start pages prot m = (Ok w, m')" "from_pages start pages = Some w"
      "held_by_one m start pages" "regions_ok (regions m')" "r \<in> set (regions m)"
      "v_start (vrange r) \<le> v_start w" "v_end w \<le> v_end (vrange r)"
      "set (regions m') = insert (r\<lparr>vrange := w, protection := prot\<rparr>) (pieces r w \<union> (set (regions m) - {r}))"
proof (cases "from_pages start pages")
  case None
  then show thesis by (intro refused) (auto simp: reprotect_def held_by_one_def)
next
  case w: (Some w)
  note h = held_by_one_find [OF assms w]
  show thesis
  proof (cases "find_region start m")
    case None
    then show thesis using h w by (intro refused) (auto simp: reprotect_def)
  next
    case r: (Some r)
    then have rm: "r \<in> set (regions m)" "range_contains (vrange r) start" using assms by (auto simp: find_region_Some)
    have ws: "v_start w = start" using w by (simp add: from_pages_Some)
    then have le: "v_start (vrange r) \<le> v_start w" using rm(2) by (simp add: range_contains_def)
    show thesis
    proof (cases "v_end w \<le> v_end (vrange r)")
      case False
      then show thesis using h w r by (intro refused) (auto simp: reprotect_def)
    next
      case True
      have held: "held_by_one m start pages" using h r True by blast
      have rok: "range_ok (vrange r)" using assms rm(1) by (simp add: regions_ok_def)
      let ?n = "card (set_option (split_head (vrange r) w)) + card (set_option (split_tail (vrange r) w))"
      show thesis
      proof (cases "try_reserve grow ?n m")
        case None
        have extra: "(if split_head (vrange r) w \<noteq> None then 1 else 0) + (if split_tail (vrange r) w \<noteq> None then 1 else 0) = ?n"
          by (cases "split_head (vrange r) w"; cases "split_tail (vrange r) w") auto
        have guard: "\<not> (v_start w < v_start (vrange r) \<or> v_end (vrange r) < v_end w)" using le True by simp
        have "reprotect grow start pages prot m = (Error MapOutOfMemory, m)"
          by (simp only: reprotect_def w r option.case if_not_P [OF guard] Let_def
              split_parts(1,2) [OF rok from_pages_ok [OF w] le True] extra None)
        then show thesis using held by (rule full)
      next
        case (Some m1)
        from reprotect_splits [OF assms w r True Some, of prot] held rm(1) le True w show thesis
          by (blast intro: split)
      qed
    qed
  qed
qed

subsection \<open>Free space\<close>

definition gap :: "vm_region list \<Rightarrow> nat \<Rightarrow> nat \<Rightarrow> bool" where
  "gap rs a n \<longleftrightarrow> (\<forall>r \<in> set rs. a + n \<le> v_start (vrange r) \<or> v_end (vrange r) \<le> a)"

lemma gap_Cons: "gap (r # rs) a n \<longleftrightarrow> (a + n \<le> v_start (vrange r) \<or> v_end (vrange r) \<le> a) \<and> gap rs a n"
  by (simp add: gap_def)

lemma gap_before:
  "regions_ok (r # rs) \<Longrightarrow> a + n \<le> v_start (vrange r) \<Longrightarrow> gap (r # rs) a n"
  by (fastforce simp: gap_def regions_ok_Cons below_def range_ok_def)

lemma free_from_spec:
  assumes "regions_ok rs" "0 < n" "PAGE_SIZE dvd c"
  shows "case free_from rs c high n of
      Inl c' \<Rightarrow> c \<le> c' \<and> PAGE_SIZE dvd c' \<and> c' + n \<le> high \<and> gap rs c' n \<and> (\<forall>a \<ge> c. gap rs a n \<and> a + n \<le> high \<longrightarrow> c' \<le> a)
    | Inr c' \<Rightarrow> c \<le> c' \<and> PAGE_SIZE dvd c' \<and> (c' + n \<le> high \<longrightarrow> gap rs c' n) \<and> (\<forall>a \<ge> c. gap rs a n \<and> a + n \<le> high \<longrightarrow> c' \<le> a)"
  using assms
proof (induction rs arbitrary: c)
  case Nil
  then show ?case by (simp add: gap_def)
next
  case (Cons r rs)
  have ok: "regions_ok rs" "range_ok (vrange r)" using Cons.prems(1) by (simp_all add: regions_ok_Cons)
  consider (past) "v_end (vrange r) \<le> c" | (beyond) "c < v_end (vrange r)" "high \<le> v_start (vrange r)"
    | (fits) "c < v_end (vrange r)" "v_start (vrange r) < high" "n \<le> v_start (vrange r) - c"
    | (skip) "c < v_end (vrange r)" "v_start (vrange r) < high" "v_start (vrange r) - c < n" by linarith
  then show ?case
  proof cases
    case past
    then have "gap (r # rs) a n \<longleftrightarrow> gap rs a n" if "c \<le> a" for a using that by (auto simp: gap_Cons)
    then show ?thesis
      using Cons.IH [OF ok(1) Cons.prems(2,3)] past by (auto split: sum.splits)
  next
    case beyond
    then have "gap (r # rs) c n" if "c + n \<le> high"
      using that by (intro gap_before [OF Cons.prems(1)]) linarith
    then show ?thesis using beyond Cons.prems(3) by simp
  next
    case fits
    then have "gap (r # rs) c n" using Cons.prems(2) by (intro gap_before [OF Cons.prems(1)]) linarith
    then show ?thesis using fits Cons.prems(2,3) by simp
  next
    case skip
    define d where "d = v_end (vrange r)"
    have d: "c < d" "PAGE_SIZE dvd d" using skip(1) ok(2) by (simp_all add: d_def range_ok_def)
    have up: "d \<le> a" if "c \<le> a" "gap (r # rs) a n" for a
      using that skip(3) by (auto simp: gap_Cons d_def)
    have eq: "gap (r # rs) a n \<longleftrightarrow> gap rs a n" if "d \<le> a" for a using that by (auto simp: gap_Cons d_def)
    have "free_from (r # rs) c high n = free_from rs d high n"
      using skip d(1) by (simp add: d_def max_def)
    then show ?thesis
      using Cons.IH [OF ok(1) Cons.prems(2) d(2)] up eq d(1) by (auto split: sum.splits)
  qed
qed

definition free_range :: "range_map \<Rightarrow> nat \<Rightarrow> nat \<Rightarrow> nat \<Rightarrow> virt_range \<Rightarrow> bool" where
  "free_range m low high pages w \<longleftrightarrow> from_pages (v_start w) pages = Some w \<and> low \<le> v_start w \<and> v_end w \<le> high \<and>
     (\<forall>r \<in> set (regions m). \<not> overlaps (vrange r) w)"

lemma free_range_gap:
  assumes "regions_ok (regions m)" "from_pages (v_start w) pages = Some w"
  shows "free_range m low high pages w \<longleftrightarrow> low \<le> v_start w \<and> v_start w + pages * PAGE_SIZE \<le> high \<and>
    gap (regions m) (v_start w) (pages * PAGE_SIZE)"
proof -
  have "v_end w = v_start w + pages * PAGE_SIZE" "range_ok w"
    using assms(2) from_pages_ok [OF assms(2)] unfolding from_pages_Some by (metis virt_range.select_convs(2))+
  moreover have "range_ok (vrange r)" if "r \<in> set (regions m)" for r using assms(1) that by (simp add: regions_ok_def)
  ultimately show ?thesis
    using assms(2) by (auto simp: free_range_def gap_def overlaps_iff)
qed

lemma find_free_lowest:
  assumes "regions_ok (regions m)" "PAGE_SIZE dvd low" "high < 2 ^ 64"
  shows "case find_free low high pages m of
      Some w \<Rightarrow> free_range m low high pages w \<and> (\<forall>w'. free_range m low high pages w' \<longrightarrow> v_start w \<le> v_start w')
    | None \<Rightarrow> \<not> (\<exists>w'. free_range m low high pages w')"
proof (cases "0 < pages \<and> pages * PAGE_SIZE < 2 ^ 64")
  case False
  have "from_pages c pages = None" for c
  proof (rule ccontr)
    assume "from_pages c pages \<noteq> None"
    then obtain w where "from_pages c pages = Some w" by blast
    then have "0 < pages" "c + pages * PAGE_SIZE < 2 ^ 64" unfolding from_pages_Some by blast+
    then show False using False by linarith
  qed
  then show ?thesis
    by (auto simp: find_free_def free_range_def split: option.splits sum.splits)
next
  case True
  define n where "n = pages * PAGE_SIZE"
  have n: "0 < n" "checked_mul 64 pages PAGE_SIZE = Some n"
    using True by (auto simp: n_def checked_mul_def max_of_def PAGE_SIZE_def)
  have fp: "from_pages c pages = Some \<lparr>v_start = c, v_end = c + n\<rparr>" if "PAGE_SIZE dvd c" "c + n \<le> high" for c
    using that True assms(3) by (auto simp: from_pages_Some n_def)
  have free: "free_range m low high pages w' \<Longrightarrow> low \<le> v_start w' \<and> v_start w' + n \<le> high \<and> gap (regions m) (v_start w') n" for w'
    using free_range_gap [OF assms(1), of w' pages] by (auto simp: free_range_def n_def)
  have conv: "free_range m low high pages \<lparr>v_start = c, v_end = c + n\<rparr>"
    if "PAGE_SIZE dvd c" "c + n \<le> high" "low \<le> c" "gap (regions m) c n" for c
    using free_range_gap [OF assms(1), of "\<lparr>v_start = c, v_end = c + n\<rparr>" pages] fp [OF that(1,2)] that by (simp add: n_def)
  note spec = free_from_spec [OF assms(1) n(1) assms(2), of high]
  show ?thesis
  proof (cases "free_from (regions m) low high n")
    case (Inl c)
    then show ?thesis using spec n(2) fp conv free by (auto simp: find_free_def)
  next
    case (Inr c)
    show ?thesis
    proof (cases "n \<le> high - c")
      case True
      then have "c + n \<le> high" using n(1) by linarith
      then show ?thesis using Inr spec n(2) fp conv free True by (auto simp: find_free_def)
    next
      case False
      have "\<not> free_range m low high pages w'" for w'
      proof
        assume "free_range m low high pages w'"
        from free [OF this] have "c \<le> v_start w'" "v_start w' + n \<le> high" using Inr spec by auto
        with False show False by linarith
      qed
      then show ?thesis using Inr n(2) False by (simp add: find_free_def)
    qed
  qed
qed

subsection \<open>Every map the operations build\<close>

lemma position_start_unique:
  assumes "regions_ok rs" "position (\<lambda>r. v_start (vrange r) = start) rs = Some i"
  shows "i < length rs" "v_start (vrange (rs ! i)) = start"
    "\<And>j. j < length rs \<Longrightarrow> v_start (vrange (rs ! j)) = start \<Longrightarrow> j = i"
proof -
  show i: "i < length rs" "v_start (vrange (rs ! i)) = start" using assms(2) position_SomeD by blast+
  show "j = i" if "j < length rs" "v_start (vrange (rs ! j)) = start" for j
    using starts_increase(2) [OF assms(1), of i j] starts_increase(2) [OF assms(1), of j i] that i
    by (cases i j rule: linorder_cases) auto
qed

lemma regions_ok_update:
  assumes "regions_ok rs" "i < length rs" "vrange r = vrange (rs ! i)"
  shows "regions_ok (rs[i := r])"
proof -
  have n: "vrange (rs[i := r] ! j) = vrange (rs ! j)" if "j < length rs" for j
    using assms(2,3) that by (cases "j = i") auto
  have "sorted_wrt below (rs[i := r])"
    using starts_increase(1) [OF assms(1)] n by (auto simp: sorted_wrt_iff_nth_less below_def)
  moreover have "range_ok (vrange x)" if "x \<in> set (rs[i := r])" for x
  proof -
    obtain j where "j < length rs" "x = rs[i := r] ! j" using \<open>x \<in> _\<close> by (auto simp: in_set_conv_nth)
    then show ?thesis using n [of j] assms(1) nth_mem [of j rs] by (auto simp: regions_ok_def)
  qed
  ultimately show ?thesis by (auto simp: regions_ok_def)
qed

lemma orphan_shared_cases:
  assumes "regions_ok (regions m)"
  obtains (refused) "orphan_shared start object m = (Error NotFound, m)"
      "\<not> (\<exists>r \<in> set (regions m). v_start (vrange r) = start \<and> backing r = SharedObject object)"
    | (orphaned) r r' m' where "orphan_shared start object m = (Ok r', m')" "r \<in> set (regions m)"
      "v_start (vrange r) = start" "backing r = SharedObject object" "vrange r' = vrange r" "protection r' = protection r"
      "backing r' = Anonymous" "locked (flags r') = locked (flags r)" "\<not> copy_on_write (flags r')" "\<not> populate (flags r')"
      "regions_ok (regions m')" "set (regions m') = insert r' (set (regions m) - {r})" "capacity m' = capacity m"
      "length (regions m') = length (regions m)"
proof (cases "position (\<lambda>r. v_start (vrange r) = start) (regions m)")
  case None
  then have "\<forall>r \<in> set (regions m). v_start (vrange r) \<noteq> start" by (simp only: position_None_iff)
  with None show thesis by (intro refused) (auto simp: orphan_shared_def)
next
  case (Some i)
  note u = position_start_unique [OF assms Some]
  define r where "r = regions m ! i"
  show thesis
  proof (cases "backing r = SharedObject object")
    case False
    then have "\<not> (\<exists>r \<in> set (regions m). v_start (vrange r) = start \<and> backing r = SharedObject object)"
      using u(3) by (auto simp: in_set_conv_nth r_def)
    moreover have "orphan_shared start object m = (Error NotFound, m)"
      using False Some by (simp add: orphan_shared_def Let_def r_def)
    ultimately show thesis by (intro refused)
  next
    case True
    define r' where "r' = r\<lparr>backing := Anonymous, flags := (flags r)\<lparr>copy_on_write := False, populate := False\<rparr>\<rparr>"
    have e: "orphan_shared start object m = (Ok r', m\<lparr>regions := (regions m)[i := r']\<rparr>)"
      using True Some by (simp add: orphan_shared_def Let_def r_def r'_def)
    have "distinct (regions m)"
      using starts_increase(2) [OF assms] by (auto simp: distinct_conv_nth) (metis less_irrefl nat_neq_iff)
    then have "set ((regions m)[i := r']) = insert r' (set (regions m) - {r})"
      using u(1) by (simp add: set_update_distinct r_def)
    moreover have "regions_ok ((regions m)[i := r'])"
      by (rule regions_ok_update [OF assms u(1)]) (simp add: r_def r'_def)
    ultimately show thesis
      using e True u(1,2) by (intro orphaned [of r' "m\<lparr>regions := (regions m)[i := r']\<rparr>" r]) (simp_all add: r_def r'_def)
  qed
qed

inductive region_map_reachable :: "grow \<Rightarrow> range_map \<Rightarrow> bool" for grow where
  new: "region_map_reachable grow range_map_new"
| ins: "region_map_reachable grow m \<Longrightarrow> range_ok (vrange r) \<Longrightarrow> insert_region grow r m = (res, m') \<Longrightarrow>
    region_map_reachable grow m'"
| del: "region_map_reachable grow m \<Longrightarrow> remove_region start m = (res', m') \<Longrightarrow> region_map_reachable grow m'"
| protect: "region_map_reachable grow m \<Longrightarrow> reprotect grow start pages prot m = (res'', m') \<Longrightarrow>
    region_map_reachable grow m'"
| orphan: "region_map_reachable grow m \<Longrightarrow> orphan_shared start object m = (res', m') \<Longrightarrow> region_map_reachable grow m'"
| drain: "region_map_reachable grow m \<Longrightarrow> drain_regions m = (rs, m') \<Longrightarrow> region_map_reachable grow m'"

lemma reachable_regions_ok: "region_map_reachable grow m \<Longrightarrow> regions_ok (regions m)"
proof (induction rule: region_map_reachable.induct)
  case (ins m r res m')
  from ins.IH ins.hyps(2) show ?case
    by (cases rule: insert_region_cases [where grow = grow]) (use ins in auto)
next
  case (del m start res' m')
  from del.IH show ?case
    by (cases rule: remove_region_cases [where start = start]) (use del in auto)
next
  case (protect m start pages prot res'' m')
  from protect.IH show ?case
    by (cases rule: reprotect_cases [where grow = grow and start = start and pages = pages and prot = prot])
      (use protect in auto)
next
  case (orphan m start object res' m')
  from orphan.IH show ?case
    by (cases rule: orphan_shared_cases [where start = start and object = object]) (use orphan in auto)
qed (auto simp: range_map_new_def drain_regions_def)

lemma regions_ok_windows: "regions_ok rs \<Longrightarrow> windows_ordered rs"
  by (induction rs rule: windows_ordered.induct) (auto simp: regions_ok_Cons below_def)

lemma regions_ok_check: "regions_ok (regions m) \<Longrightarrow> check_regions m = Ok ()"
  by (auto simp: check_regions_def regions_ok_windows regions_ok_def range_ok_def list_ex_iff range_is_empty_def range_len_def)

subsection \<open>What an address space relies on\<close>

text \<open>
  C19. Every region map the operations build passes its own consistency check, its regions are
  pairwise disjoint, and the binary search answers what a search of the whole array answers: the
  one region that contains the address, or none.
\<close>

theorem region_search_exact:
  assumes "region_map_reachable grow m"
  shows "check_regions m = Ok () \<and>
    (\<forall>r \<in> set (regions m). \<forall>s \<in> set (regions m). r \<noteq> s \<longrightarrow> \<not> overlaps (vrange r) (vrange s)) \<and>
    find_region a m = find (\<lambda>r. range_contains (vrange r) a) (regions m)"
  using reachable_regions_ok [OF assms] regions_ok_check regions_ok_apart find_region_search by blast

text \<open>
  C9. Changing the protection of part of a region changes exactly that part of the mapping: the
  pages asked for get the new protection and keep their backing and flags, every other address
  keeps what it had, on both sides of the split. A refusal, for a range that no single region
  holds or because the array cannot grow, leaves the map as it was: no refusal happens between
  the removal of the old region and the insertion of its pieces, whatever the allocator does.
\<close>

theorem reprotect_exact:
  assumes "region_map_reachable grow m"
  shows "case reprotect grow start pages prot m of
      (Inr w, m') \<Rightarrow> from_pages start pages = Some w \<and> held_by_one m start pages \<and>
        mapping (regions m') = (\<lambda>a. if range_contains w a
          then map_option (\<lambda>(_, backing, flags). (prot, backing, flags)) (mapping (regions m) a)
          else mapping (regions m) a) \<and>
        (\<forall>a. range_contains w a \<longrightarrow> mapping (regions m) a \<noteq> None)
    | (Inl e, m') \<Rightarrow> m' = m \<and>
        (e = Err NotFound \<and> \<not> held_by_one m start pages \<or> e = Err MapOutOfMemory \<and> held_by_one m start pages)"
proof -
  note ok = reachable_regions_ok [OF assms]
  from ok show ?thesis
  proof (cases rule: reprotect_cases [where grow = grow and start = start and pages = pages and prot = prot])
    case (split w r m')
    note mp = mapping_split [OF ok split(4,5) from_pages_ok [OF split(2)] split(6-8)]
    have "mapping (regions m') = (\<lambda>a. if range_contains w a
          then map_option (\<lambda>(_, backing, flags). (prot, backing, flags)) (mapping (regions m) a)
          else mapping (regions m) a)"
      using mp by (auto simp: fun_eq_iff attributes_def)
    with split(1-3) mp(2) show ?thesis by simp
  qed simp_all
qed

text \<open>
  C27. Inserting a region maps exactly its addresses, none of which was mapped before; it is refused
  when it meets an existing region, and the index in the error is such a region. Removing the
  region again gives back the mapping there was.
\<close>

theorem insert_remove_exact:
  assumes "region_map_reachable grow m" "range_ok (vrange r)"
  shows "case insert_region grow r m of
      (Inr _, m') \<Rightarrow>
        mapping (regions m') = (\<lambda>a. if range_contains (vrange r) a then Some (attributes r) else mapping (regions m) a) \<and>
        (\<forall>a. range_contains (vrange r) a \<longrightarrow> mapping (regions m) a = None) \<and>
        (\<exists>m''. remove_region (v_start (vrange r)) m' = (Ok r, m'') \<and> mapping (regions m'') = mapping (regions m))
    | (Inl (Err (Overlaps i)), m') \<Rightarrow> m' = m \<and> i < length (regions m) \<and> overlaps (vrange (regions m ! i)) (vrange r)
    | (Inl e, m') \<Rightarrow> m' = m \<and> e = Err MapOutOfMemory \<and> (\<forall>s \<in> set (regions m). \<not> overlaps (vrange s) (vrange r))"
proof -
  note ok = reachable_regions_ok [OF assms(1)]
  from ok assms(2) show ?thesis
  proof (cases rule: insert_region_cases [where grow = grow])
    case (inserted m' m1)
    have out: "\<forall>a. range_contains (vrange r) a \<longrightarrow> mapping (regions m) a = None"
      using inserted(7) contains_overlaps by (auto simp: mapping_None)
    have new: "r \<notin> set (regions m)" using inserted(7) assms(2) by (auto simp: overlaps_def range_ok_def)
    have "\<exists>m''. remove_region (v_start (vrange r)) m' = (Ok r, m'') \<and> mapping (regions m'') = mapping (regions m)"
      using inserted(2)
    proof (cases rule: remove_region_cases [where start = "v_start (vrange r)"])
      case missing
      then show ?thesis using inserted(3) by auto
    next
      case (removed q m'')
      have "q = r"
        using removed(2,3) inserted(3,7) assms(2) ok by (auto simp: regions_ok_def overlaps_def range_ok_def)
      then have "set (regions m'') = set (regions m)" using removed(5) inserted(3) new by auto
      with removed \<open>q = r\<close> show ?thesis using mapping_cong_set [OF removed(4) ok] by blast
    qed
    then show ?thesis
      using inserted(1) out mapping_insert [OF ok inserted(2,3)] by simp
  qed simp_all
qed

text \<open>
  C28. The search for free space returns the lowest range of the asked size inside the window that
  meets no region, and answers nothing only when there is none.
\<close>

theorem find_free_exact:
  assumes "region_map_reachable grow m" "PAGE_SIZE dvd low" "high < 2 ^ 64"
  shows "case find_free low high pages m of
      Some w \<Rightarrow> free_range m low high pages w \<and> (\<forall>w'. free_range m low high pages w' \<longrightarrow> v_start w \<le> v_start w')
    | None \<Rightarrow> \<not> (\<exists>w'. free_range m low high pages w')"
  by (rule find_free_lowest [OF reachable_regions_ok [OF assms(1)] assms(2,3)])

subsection \<open>A concrete address space\<close>

definition ex_grow :: grow where "ex_grow = (\<lambda>c n. Some n)"

definition ex_data :: vm_region where
  "ex_data = vm_region_new \<lparr>v_start = 0x1000, v_end = 0x4000\<rparr> ReadWrite Anonymous"

definition ex_space :: range_map where
  "ex_space = snd (insert_region ex_grow ex_data range_map_new)"

lemma ex_space_eq: "ex_space = \<lparr>regions = [ex_data], capacity = 1\<rparr>"
  by (simp add: ex_space_def insert_region_def try_reserve_def range_map_new_def ex_grow_def)

lemma ex_data_ok: "range_ok (vrange ex_data)"
  by (simp add: ex_data_def vm_region_new_def range_ok_def PAGE_SIZE_def)

lemma ex_space_reachable: "region_map_reachable ex_grow ex_space"
  using region_map_reachable.ins [OF region_map_reachable.new [of ex_grow] ex_data_ok]
  unfolding ex_space_def by (metis prod.collapse)

theorem region_search_exact_witness:
  "region_map_reachable ex_grow ex_space \<and> check_regions ex_space = Ok () \<and> find_region 0x2000 ex_space = Some ex_data"
  using region_search_exact [OF ex_space_reachable, of "0x2000"] ex_space_reachable
  by (simp add: ex_space_eq ex_data_def vm_region_new_def range_contains_def)

lemma ex_part: "from_pages 0x2000 1 = Some \<lparr>v_start = 0x2000, v_end = 0x3000\<rparr>"
  by (simp add: from_pages_Some PAGE_SIZE_def)

lemma ex_reprotect:
  "\<exists>m'. reprotect ex_grow 0x2000 1 ReadOnly ex_space = (Ok \<lparr>v_start = 0x2000, v_end = 0x3000\<rparr>, m')"
proof -
  note ok = reachable_regions_ok [OF ex_space_reachable]
  have found: "find_region 0x2000 ex_space = Some ex_data"
    unfolding find_region_Some [OF ok] by (simp add: ex_space_eq ex_data_def vm_region_new_def range_contains_def)
  have r: "try_reserve ex_grow n ex_space = Some (the (try_reserve ex_grow n ex_space))" for n
    by (simp add: try_reserve_def ex_grow_def Let_def)
  show ?thesis
    using reprotect_splits [OF ok ex_part found _ r, of ReadOnly] by (auto simp: ex_data_def vm_region_new_def)
qed

theorem reprotect_exact_witness:
  "region_map_reachable ex_grow ex_space \<and>
   (\<exists>m'. reprotect ex_grow 0x2000 1 ReadOnly ex_space = (Ok \<lparr>v_start = 0x2000, v_end = 0x3000\<rparr>, m') \<and>
     mapping (regions m') 0x2000 = Some (ReadOnly, Anonymous, flags ex_data) \<and>
     mapping (regions m') 0x3000 = Some (ReadWrite, Anonymous, flags ex_data))"
proof -
  obtain m' where r: "reprotect ex_grow 0x2000 1 ReadOnly ex_space = (Ok \<lparr>v_start = 0x2000, v_end = 0x3000\<rparr>, m')"
    using ex_reprotect by blast
  have old: "mapping (regions ex_space) a = Some (ReadWrite, Anonymous, flags ex_data)" if "0x1000 \<le> a" "a < 0x4000" for a
    using that by (simp add: range_contains_def mapping_def ex_space_eq ex_data_def vm_region_new_def attributes_def)
  show ?thesis
    using reprotect_exact [OF ex_space_reachable, of "0x2000" 1 ReadOnly] ex_space_reachable r
    by (simp add: r range_contains_def old)
qed

definition ex_code :: vm_region where
  "ex_code = vm_region_new \<lparr>v_start = 0x4000, v_end = 0x5000\<rparr> ReadExecute (Direct 0)"

theorem insert_remove_exact_witness:
  "region_map_reachable ex_grow ex_space \<and> range_ok (vrange ex_code) \<and>
   (\<exists>m'. insert_region ex_grow ex_code ex_space = (Ok (), m') \<and> mapping (regions m') 0x4800 = Some (attributes ex_code))"
proof -
  have ok: "range_ok (vrange ex_code)" by (simp add: ex_code_def vm_region_new_def range_ok_def PAGE_SIZE_def)
  obtain m' where "insert_region ex_grow ex_code ex_space = (Ok (), m')"
    by (simp add: insert_region_def ex_space_eq ex_data_def ex_code_def vm_region_new_def overlaps_def try_reserve_def
        ex_grow_def)
  with insert_remove_exact [OF ex_space_reachable ok] ok ex_space_reachable show ?thesis
    by (simp add: range_contains_def ex_code_def vm_region_new_def)
qed

theorem find_free_exact_witness:
  "region_map_reachable ex_grow ex_space \<and> find_free 0x1000 0x10000 2 ex_space = Some \<lparr>v_start = 0x4000, v_end = 0x6000\<rparr> \<and>
   free_range ex_space 0x1000 0x10000 2 \<lparr>v_start = 0x4000, v_end = 0x6000\<rparr>"
proof -
  have "find_free 0x1000 0x10000 2 ex_space = Some \<lparr>v_start = 0x4000, v_end = 0x6000\<rparr>"
    by (simp add: find_free_def ex_space_eq ex_data_def vm_region_new_def checked_mul_def max_of_def PAGE_SIZE_def
        from_pages_Some)
  with find_free_exact [OF ex_space_reachable, of "0x1000" "0x10000" 2] ex_space_reachable show ?thesis
    by (simp add: PAGE_SIZE_def)
qed

end
