(* ===== verification/FsFormat.thy ===== *)
theory FsFormat
  imports Bytes
begin

text \<open>
  The on-disk format of \<^verbatim>\<open>src/fs/src/lib.rs\<close>: the superblock, inodes, directory entries and the
  block bitmap, as bytes, with the checksum over them.

  Fields of the superblock are natural numbers below \<open>2 ^ 64\<close>; what is read from bytes is the value
  of the word. A mutable slice is the list of its bytes, returned updated. A sequence of \<open>put\<close>s
  stops at the first that does not fit, with the earlier ones in place, as the source does.
\<close>

subsection \<open>Constants and errors\<close>

definition BLOCK :: nat where "BLOCK = 4096"
definition INODE :: nat where "INODE = 64"
definition ENTRY :: nat where "ENTRY = 32"
definition MAX_NAME :: nat where "MAX_NAME = 27"

text \<open>The magic numbers are the eight ASCII bytes of the names, little-endian.\<close>

definition MAGIC :: u64 where
  "MAGIC = from_le_bytes (map (\<lambda>c. of_nat (of_char c)) ''BHASKIXF'')"

definition JOURNAL_MAGIC :: u64 where
  "JOURNAL_MAGIC = from_le_bytes (map (\<lambda>c. of_nat (of_char c)) ''BHASKIXJ'')"

definition VERSION :: u32 where "VERSION = 2"
definition JOURNAL_BLOCKS :: nat where "JOURNAL_BLOCKS = 9"

datatype fs_error = NotAFilesystem | OutOfRange | Full | BadName | NoSuchName | WrongKind | Interrupted | NeedsRecovery

datatype kind = FreeInode | File | Directory

definition to_bits :: "kind \<Rightarrow> u16" where
  "to_bits k = (case k of FreeInode \<Rightarrow> 0 | File \<Rightarrow> 1 | Directory \<Rightarrow> 2)"

definition from_bits :: "u16 \<Rightarrow> kind" where
  "from_bits b = (if b = 1 then File else if b = 2 then Directory else FreeInode)"

subsection \<open>Fields in a slice\<close>

definition slice_at :: "u8 list \<Rightarrow> nat \<Rightarrow> nat \<Rightarrow> u8 list option" where
  "slice_at bytes at' n = (if at' + n \<le> length bytes then Some (load bytes at' n) else None)"

definition u32_at :: "u8 list \<Rightarrow> nat \<Rightarrow> u32 option" where
  "u32_at bytes at' = map_option from_le_bytes (slice_at bytes at' 4)"

definition u64_at :: "u8 list \<Rightarrow> nat \<Rightarrow> u64 option" where
  "u64_at bytes at' = map_option from_le_bytes (slice_at bytes at' 8)"

definition u16_at :: "u8 list \<Rightarrow> nat \<Rightarrow> u16 option" where
  "u16_at bytes at' = map_option from_le_bytes (slice_at bytes at' 2)"

definition put_bytes :: "u8 list \<Rightarrow> nat \<Rightarrow> u8 list \<Rightarrow> u8 list option" where
  "put_bytes bytes at' v = (if at' + length v \<le> length bytes then Some (store bytes at' v) else None)"

fun put_all :: "(nat \<times> u8 list) list \<Rightarrow> u8 list \<Rightarrow> (fs_error, unit) result \<times> u8 list" where
  "put_all [] bytes = (Ok (), bytes)"
| "put_all ((at', v) # rest) bytes =
    (case put_bytes bytes at' v of
       None \<Rightarrow> (Error OutOfRange, bytes)
     | Some bytes \<Rightarrow> put_all rest bytes)"

subsection \<open>The checksum\<close>

fun checksum_of :: "u32 \<Rightarrow> u8 list \<Rightarrow> u32" where
  "checksum_of hash [] = hash"
| "checksum_of hash (byte # bytes) = checksum_of ((hash XOR ucast byte) * 0x01000193) bytes"

definition FNV :: u32 where "FNV = 0x811c9dc5"

definition never_zero :: "u32 \<Rightarrow> u32" where
  "never_zero hash = (if hash = 0 then 1 else hash)"

definition fs_checksum :: "u8 list \<Rightarrow> u32" where
  "fs_checksum bytes = never_zero (checksum_of FNV bytes)"

subsection \<open>The superblock\<close>

record superblock =
  sb_blocks :: nat
  sb_inodes :: nat
  bitmap_start :: nat
  inode_start :: nat
  journal_start :: nat
  journal_blocks :: nat
  data_start :: nat
  root :: u32

definition SB_COVERED :: nat where "SB_COVERED = 76"

definition inode_at :: "superblock \<Rightarrow> u32 \<Rightarrow> (fs_error, nat \<times> nat) result" where
  "inode_at sb index =
    (if sb_inodes sb \<le> unat index then Error OutOfRange
     else
       (case checked_mul 64 (inode_start sb) BLOCK of
          None \<Rightarrow> Error OutOfRange
        | Some start \<Rightarrow>
       (case checked_add 64 start (unat index * INODE) of
          None \<Rightarrow> Error OutOfRange
        | Some byte \<Rightarrow>
            if 2 ^ 32 \<le> byte div BLOCK then Error OutOfRange
            else Ok (byte div BLOCK, byte mod BLOCK))))"

definition read_head :: "u8 list \<Rightarrow> nat \<Rightarrow> (fs_error, superblock) result" where
  "read_head head blocks =
    (if length head < BLOCK then Error NotAFilesystem
     else
       let head = take BLOCK head in
       if u64_at head 0 \<noteq> Some MAGIC \<or> u32_at head 8 \<noteq> Some VERSION then Error NotAFilesystem
       else if u32_at head 12 \<noteq> Some (of_nat BLOCK) then Error NotAFilesystem
       else if u32_at head SB_COVERED \<noteq> Some (fs_checksum (take SB_COVERED head)) then Error NotAFilesystem
       else
         (case (u64_at head 16, u64_at head 24, u64_at head 32, u64_at head 40, u64_at head 48,
                u64_at head 56, u64_at head 64, u32_at head 72) of
            (Some b, Some i, Some bs, Some is, Some js, Some jb, Some ds, Some r) \<Rightarrow>
              let found = \<lparr>sb_blocks = unat b, sb_inodes = unat i, bitmap_start = unat bs, inode_start = unat is,
                           journal_start = unat js, journal_blocks = unat jb, data_start = unat ds, root = r\<rparr> in
              if sb_blocks found = 0 \<or> bitmap_start found = 0 \<or> inode_start found \<le> bitmap_start found
                \<or> journal_start found \<le> inode_start found \<or> journal_blocks found < 2
                \<or> data_start found \<le> journal_start found
                \<or> data_start found - journal_start found \<noteq> journal_blocks found
                \<or> sb_blocks found \<le> data_start found \<or> blocks < sb_blocks found
                \<or> sb_inodes found \<le> unat (root found)
              then Error OutOfRange else Ok found
          | _ \<Rightarrow> Error NotAFilesystem))"

definition superblock_write :: "superblock \<Rightarrow> u8 list \<Rightarrow> (fs_error, unit) result \<times> u8 list" where
  "superblock_write sb bytes =
    (if length bytes < BLOCK then (Error OutOfRange, bytes)
     else
       let (r, head) = put_all
         [(0, to_le_bytes 8 MAGIC), (8, to_le_bytes 4 VERSION), (12, to_le_bytes 4 (of_nat BLOCK :: u32)),
          (16, to_le_bytes 8 (of_nat (sb_blocks sb) :: u64)), (24, to_le_bytes 8 (of_nat (sb_inodes sb) :: u64)),
          (32, to_le_bytes 8 (of_nat (bitmap_start sb) :: u64)), (40, to_le_bytes 8 (of_nat (inode_start sb) :: u64)),
          (48, to_le_bytes 8 (of_nat (journal_start sb) :: u64)), (56, to_le_bytes 8 (of_nat (journal_blocks sb) :: u64)),
          (64, to_le_bytes 8 (of_nat (data_start sb) :: u64)), (72, to_le_bytes 4 (root sb))]
         (replicate BLOCK 0) in
       (case r of
          Inl e \<Rightarrow> (Inl e, head @ drop BLOCK bytes)
        | Inr _ \<Rightarrow>
            let (r, head) = put_all [(SB_COVERED, to_le_bytes 4 (fs_checksum (take SB_COVERED head)))] head in
            (r, head @ drop BLOCK bytes)))"

definition superblock_read :: "u8 list \<Rightarrow> (fs_error, superblock) result" where
  "superblock_read bytes =
    (if length bytes < BLOCK then Error NotAFilesystem else read_head (take BLOCK bytes) (length bytes div BLOCK))"

subsection \<open>Inodes\<close>

record inode =
  ikind :: kind
  links :: u16
  generation :: u32
  isize :: u64
  direct :: "u32 list"
  indirect :: u32

definition INODE_COVERED :: nat where "INODE_COVERED = 60"

definition free_inode_value :: inode where
  "free_inode_value = \<lparr>ikind = FreeInode, links = 0, generation = 0, isize = 0, direct = replicate 10 0, indirect = 0\<rparr>"

definition inode_decode :: "u8 list \<Rightarrow> (fs_error, inode) result" where
  "inode_decode slot =
    (if length slot < INODE then Error OutOfRange
     else
       let slot = take INODE slot in
       (case u32_at slot INODE_COVERED of
          None \<Rightarrow> Error OutOfRange
        | Some stored \<Rightarrow>
            if stored = 0 then Ok free_inode_value
            else if stored \<noteq> fs_checksum (take INODE_COVERED slot) then Error NotAFilesystem
            else
              (case (those (map (\<lambda>which. u32_at slot (16 + which * 4)) [0..<10]), u16_at slot 0, u16_at slot 2,
                     u32_at slot 4, u64_at slot 8, u32_at slot 56) of
                 (Some d, Some k, Some l, Some g, Some s, Some i) \<Rightarrow>
                   Ok \<lparr>ikind = from_bits k, links = l, generation = g, isize = s, direct = d, indirect = i\<rparr>
               | _ \<Rightarrow> Error OutOfRange)))"

definition inode_encode :: "inode \<Rightarrow> u8 list \<Rightarrow> (fs_error, unit) result \<times> u8 list" where
  "inode_encode ino slot =
    (if length slot < INODE then (Error OutOfRange, slot)
     else
       let (r, head) = put_all
         ([(0, to_le_bytes 2 (to_bits (ikind ino))), (2, to_le_bytes 2 (links ino)), (4, to_le_bytes 4 (generation ino)),
           (8, to_le_bytes 8 (isize ino))] @
          map (\<lambda>which. (16 + which * 4, to_le_bytes 4 (direct ino ! which))) [0..<10] @
          [(56, to_le_bytes 4 (indirect ino))])
         (replicate INODE 0) in
       (case r of
          Inl e \<Rightarrow> (Inl e, head @ drop INODE slot)
        | Inr _ \<Rightarrow>
            let (r, head) = put_all [(INODE_COVERED, to_le_bytes 4 (fs_checksum (take INODE_COVERED head)))] head in
            (r, head @ drop INODE slot)))"

text \<open>An inode in the table of a whole image.\<close>

definition inode_offset :: "superblock \<Rightarrow> u32 \<Rightarrow> nat option" where
  "inode_offset sb index =
    (case checked_mul 64 (inode_start sb) BLOCK of
       None \<Rightarrow> None
     | Some start \<Rightarrow> checked_add 64 start (unat index * INODE))"

definition inode_read :: "u8 list \<Rightarrow> superblock \<Rightarrow> u32 \<Rightarrow> (fs_error, inode) result" where
  "inode_read bytes sb index =
    (if sb_inodes sb \<le> unat index then Error OutOfRange
     else
       (case inode_offset sb index of
          None \<Rightarrow> Error OutOfRange
        | Some at' \<Rightarrow>
            (case checked_add 64 at' INODE of
               None \<Rightarrow> Error OutOfRange
             | Some _ \<Rightarrow>
                 (case slice_at bytes at' INODE of
                    None \<Rightarrow> Error OutOfRange
                  | Some slot \<Rightarrow> inode_decode slot))))"

definition inode_write :: "inode \<Rightarrow> superblock \<Rightarrow> u32 \<Rightarrow> u8 list \<Rightarrow> (fs_error, unit) result \<times> u8 list" where
  "inode_write ino sb index bytes =
    (if sb_inodes sb \<le> unat index then (Error OutOfRange, bytes)
     else
       (case inode_offset sb index of
          None \<Rightarrow> (Error OutOfRange, bytes)
        | Some at' \<Rightarrow>
            (case checked_add 64 at' INODE of
               None \<Rightarrow> (Error OutOfRange, bytes)
             | Some _ \<Rightarrow>
                 (case slice_at bytes at' INODE of
                    None \<Rightarrow> (Error OutOfRange, bytes)
                  | Some slot \<Rightarrow> (case inode_encode ino slot of (r, slot) \<Rightarrow> (r, store bytes at' slot))))))"

subsection \<open>Directory entries\<close>

record dir_entry =
  e_inode :: u32
  e_name :: "u8 list"
  e_length :: u8

definition entry_new :: "u32 \<Rightarrow> u8 list \<Rightarrow> (fs_error, dir_entry) result" where
  "entry_new ino name =
    (if name = [] \<or> MAX_NAME < length name then Error BadName
     else if list_ex (\<lambda>byte. byte = 0x2f \<or> byte = 0) name then Error BadName
     else Ok \<lparr>e_inode = ino, e_name = name @ replicate (MAX_NAME - length name) 0, e_length = of_nat (length name)\<rparr>)"

definition entry_name :: "dir_entry \<Rightarrow> u8 list" where
  "entry_name e = take (min (unat (e_length e)) MAX_NAME) (e_name e)"

definition entry_read :: "u8 list \<Rightarrow> nat \<Rightarrow> (fs_error, dir_entry) result" where
  "entry_read bytes at' =
    (case slice_at bytes at' ENTRY of
       None \<Rightarrow> Error OutOfRange
     | Some slot \<Rightarrow>
         (case (slice_at slot 5 MAX_NAME, u32_at slot 0, get slot 4) of
            (Some name, Some ino, Some len) \<Rightarrow> Ok \<lparr>e_inode = ino, e_name = name, e_length = min len (of_nat MAX_NAME)\<rparr>
          | _ \<Rightarrow> Error OutOfRange))"

definition entry_write :: "dir_entry \<Rightarrow> u8 list \<Rightarrow> nat \<Rightarrow> (fs_error, unit) result \<times> u8 list" where
  "entry_write e bytes at' =
    (if length bytes < at' + ENTRY then (Error OutOfRange, bytes)
     else
       let (r, slot) = put_all [(0, to_le_bytes 4 (e_inode e)), (4, [e_length e]), (5, e_name e)] (replicate ENTRY 0) in
       (r, store bytes at' slot))"

subsection \<open>The bitmap\<close>

record bitmap =
  bits :: "u8 list"
  bm_blocks :: nat
  first_data :: nat

definition bitmap_of :: "u8 list \<Rightarrow> superblock \<Rightarrow> (fs_error, bitmap) result" where
  "bitmap_of bytes sb =
    (let start = bitmap_start sb * BLOCK; len = (inode_start sb - bitmap_start sb) * BLOCK in
     if 2 ^ 64 \<le> start \<or> inode_start sb < bitmap_start sb \<or> 2 ^ 64 \<le> len then Panicked
     else if 2 ^ 64 \<le> start + len then Error OutOfRange
     else if 2 ^ 64 \<le> len * 8 then Panicked
     else if len * 8 < sb_blocks sb then Error OutOfRange
     else (case slice_at bytes start len of
             None \<Rightarrow> Error OutOfRange
           | Some b \<Rightarrow> Ok \<lparr>bits = b, bm_blocks = sb_blocks sb, first_data = data_start sb\<rparr>))"

text \<open>The reading half, \<open>Free\<close>, has the same three fields.\<close>

definition free_used :: "bitmap \<Rightarrow> nat \<Rightarrow> bool" where
  "free_used bm block =
    (case get (bits bm) (block div 8) of
       None \<Rightarrow> False
     | Some byte \<Rightarrow> byte AND push_bit (block mod 8) 1 \<noteq> 0)"

definition free_first :: "bitmap \<Rightarrow> nat option" where
  "free_first bm =
    (case find (\<lambda>block. \<not> free_used bm block) [first_data bm..<bm_blocks bm] of
       None \<Rightarrow> None
     | Some block \<Rightarrow> if block < 2 ^ 32 then Some block else None)"

definition bitmap_used :: "bitmap \<Rightarrow> nat \<Rightarrow> bool" where
  "bitmap_used bm block =
    (case get (bits bm) (block div 8) of
       None \<Rightarrow> False
     | Some byte \<Rightarrow> byte AND push_bit (block mod 8) 1 \<noteq> 0)"

definition bitmap_set :: "nat \<Rightarrow> bool \<Rightarrow> bitmap \<Rightarrow> bitmap" where
  "bitmap_set block used bm =
    (case get (bits bm) (block div 8) of
       None \<Rightarrow> bm
     | Some byte \<Rightarrow>
         let bit = push_bit (block mod 8) 1 in
         bm\<lparr>bits := (bits bm)[block div 8 := (if used then byte OR bit else byte AND NOT bit)]\<rparr>)"

definition bitmap_first_free :: "bitmap \<Rightarrow> nat option" where
  "bitmap_first_free bm = free_first bm"

definition bitmap_allocate :: "bitmap \<Rightarrow> (fs_error, nat) result \<times> bitmap" where
  "bitmap_allocate bm =
    (case find (\<lambda>block. \<not> bitmap_used bm block) [first_data bm..<bm_blocks bm] of
       None \<Rightarrow> (Error Full, bm)
     | Some block \<Rightarrow> (Ok block, bitmap_set block True bm))"

definition bitmap_free :: "nat \<Rightarrow> bitmap \<Rightarrow> (fs_error, unit) result \<times> bitmap" where
  "bitmap_free block bm =
    (if block < first_data bm \<or> bm_blocks bm \<le> block then (Error OutOfRange, bm)
     else (Ok (), bitmap_set block False bm))"

definition bitmap_in_use :: "bitmap \<Rightarrow> nat" where
  "bitmap_in_use bm = count_if (bitmap_used bm) [first_data bm..<bm_blocks bm]"

end
