(* ===== verification/FsAct.thy ===== *)
theory FsAct
  imports FsFormat
begin

text \<open>
  Operations of the filesystem as functions from a state to a result and the state they leave, and
  the rules to reason about their sequences. The state is returned by a failing operation too:
  what an operation had done before its error is what an interrupted machine leaves behind.
\<close>

type_synonym ('s, 'a) act = "'s \<Rightarrow> (fs_error, 'a) result \<times> 's"

definition ret :: "'a \<Rightarrow> ('s, 'a) act" where
  "ret x s = (Ok x, s)"

definition fail :: "fs_error \<Rightarrow> ('s, 'a) act" where
  "fail e s = (Error e, s)"

text \<open>The operator \<open>?\<close> on a result, and on a call.\<close>

definition of_result :: "(fs_error, 'a) result \<Rightarrow> ('s, 'a) act" where
  "of_result r s = (r, s)"

definition bind_act :: "('s, 'a) act \<Rightarrow> ('a \<Rightarrow> ('s, 'b) act) \<Rightarrow> ('s, 'b) act" where
  "bind_act a f s = (case a s of (Inl e, s) \<Rightarrow> (Inl e, s) | (Inr x, s) \<Rightarrow> f x s)"

text \<open>A call whose error the caller looks at instead of returning it.\<close>

definition attempt :: "('s, 'a) act \<Rightarrow> ('s, (fs_error, 'a) result) act" where
  "attempt a s = (case a s of (r, s) \<Rightarrow> (Ok r, s))"

definition gets :: "('s \<Rightarrow> 'a) \<Rightarrow> ('s, 'a) act" where
  "gets f s = (Ok (f s), s)"

definition update :: "('s \<Rightarrow> 's) \<Rightarrow> ('s, unit) act" where
  "update f s = (Ok (), f s)"

fun for_act :: "'i list \<Rightarrow> ('i \<Rightarrow> ('s, unit) act) \<Rightarrow> ('s, unit) act" where
  "for_act [] f = ret ()"
| "for_act (i # is) f = bind_act (f i) (\<lambda>_. for_act is f)"

text \<open>The conversion \<open>u32::try_from\<close>, and the addition of \<open>u32\<close>s, which panics on overflow.\<close>

definition to_u32 :: "nat \<Rightarrow> (fs_error, nat) result" where
  "to_u32 n = (if n < 2 ^ 32 then Ok n else Error OutOfRange)"

definition add_u32 :: "nat \<Rightarrow> nat \<Rightarrow> (fs_error, nat) result" where
  "add_u32 a b = (if a + b < 2 ^ 32 then Ok (a + b) else Panicked)"

subsection \<open>What an operation ensures\<close>

text \<open>
  From a state with \<open>P\<close>, the operation ends in a state with \<open>Q\<close> for the value it returns, or in
  one with \<open>E\<close> for its error.
\<close>

definition ensures :: "('s \<Rightarrow> bool) \<Rightarrow> ('s, 'a) act \<Rightarrow> ('a \<Rightarrow> 's \<Rightarrow> bool) \<Rightarrow> (fs_error failure \<Rightarrow> 's \<Rightarrow> bool) \<Rightarrow> bool" where
  "ensures P a Q E \<longleftrightarrow> (\<forall>s. P s \<longrightarrow> (case a s of (Inl e, s') \<Rightarrow> E e s' | (Inr x, s') \<Rightarrow> Q x s'))"

lemma ensuresI:
  assumes "\<And>s x s'. P s \<Longrightarrow> a s = (Inr x, s') \<Longrightarrow> Q x s'" "\<And>s e s'. P s \<Longrightarrow> a s = (Inl e, s') \<Longrightarrow> E e s'"
  shows "ensures P a Q E"
  using assms by (auto simp: ensures_def split: prod.splits sum.splits)

lemma ensures_ok: "ensures P a Q E \<Longrightarrow> P s \<Longrightarrow> a s = (Inr x, s') \<Longrightarrow> Q x s'"
  by (force simp: ensures_def)

lemma ensures_error: "ensures P a Q E \<Longrightarrow> P s \<Longrightarrow> a s = (Inl e, s') \<Longrightarrow> E e s'"
  by (force simp: ensures_def)

lemma ensures_run: "ensures P a Q E \<Longrightarrow> P s \<Longrightarrow> a s = (r, s') \<Longrightarrow> case r of Inl e \<Rightarrow> E e s' | Inr x \<Rightarrow> Q x s'"
  by (force simp: ensures_def)

lemma ensures_bind:
  "ensures P a R E \<Longrightarrow> (\<And>x. ensures (R x) (f x) Q E) \<Longrightarrow> ensures P (bind_act a f) Q E"
  by (fastforce simp: ensures_def bind_act_def split: prod.splits sum.splits)

lemma ensures_pre: "ensures P a Q E \<Longrightarrow> (\<And>s. P' s \<Longrightarrow> P s) \<Longrightarrow> ensures P' a Q E"
  by (auto simp: ensures_def)

lemma ensures_post:
  "ensures P a Q E \<Longrightarrow> (\<And>x s. Q x s \<Longrightarrow> Q' x s) \<Longrightarrow> (\<And>e s. E e s \<Longrightarrow> E' e s) \<Longrightarrow> ensures P a Q' E'"
  by (fastforce simp: ensures_def split: prod.splits sum.splits)

lemma bind_assoc: "bind_act (bind_act a f) h = bind_act a (\<lambda>x. bind_act (f x) h)"
  by (auto simp: bind_act_def fun_eq_iff split: prod.splits sum.splits)

lemma bind_gets [simp]: "bind_act (gets f) h s = h (f s) s"
  by (simp add: bind_act_def gets_def)

lemma ensures_cong: "(\<And>s. P s \<Longrightarrow> a s = a' s) \<Longrightarrow> ensures P a' Q E \<Longrightarrow> ensures P a Q E"
  by (simp add: ensures_def)

lemma ensures_given: "(A \<Longrightarrow> ensures P a Q E) \<Longrightarrow> ensures (\<lambda>s. P s \<and> A) a Q E"
  by (auto simp: ensures_def)

lemma ensures_knowing: "(\<And>s. P s \<Longrightarrow> A) \<Longrightarrow> (A \<Longrightarrow> ensures P a Q E) \<Longrightarrow> ensures P a Q E"
  by (auto simp: ensures_def)

lemma ensures_ret [simp]: "ensures P (ret x) Q E \<longleftrightarrow> (\<forall>s. P s \<longrightarrow> Q x s)"
  by (simp add: ensures_def ret_def)

lemma ensures_fail [simp]: "ensures P (fail e) Q E \<longleftrightarrow> (\<forall>s. P s \<longrightarrow> E (Err e) s)"
  by (simp add: ensures_def fail_def)

lemma ensures_of_result [simp]:
  "ensures P (of_result r) Q E \<longleftrightarrow> (case r of Inl e \<Rightarrow> \<forall>s. P s \<longrightarrow> E e s | Inr x \<Rightarrow> \<forall>s. P s \<longrightarrow> Q x s)"
  by (auto simp: ensures_def of_result_def split: sum.splits)

lemma ensures_gets [simp]: "ensures P (gets f) Q E \<longleftrightarrow> (\<forall>s. P s \<longrightarrow> Q (f s) s)"
  by (simp add: ensures_def gets_def)

lemma ensures_update [simp]: "ensures P (update f) Q E \<longleftrightarrow> (\<forall>s. P s \<longrightarrow> Q () (f s))"
  by (simp add: ensures_def update_def)

lemma ensures_attempt:
  "ensures P (attempt a) Q E \<longleftrightarrow> ensures P a (\<lambda>x. Q (Inr x)) (\<lambda>e. Q (Inl e))"
  by (simp add: ensures_def attempt_def split: prod.splits sum.splits) (metis prod.exhaust sum.exhaust)

lemma ensures_if:
  "(b \<Longrightarrow> ensures P a Q E) \<Longrightarrow> (\<not> b \<Longrightarrow> ensures P a' Q E) \<Longrightarrow> ensures P (if b then a else a') Q E"
  by simp

lemma ensures_for:
  assumes "\<And>i. i \<in> set is \<Longrightarrow> ensures P (f i) (\<lambda>_. P) E"
  shows "ensures P (for_act is f) (\<lambda>_. P) E"
  using assms
proof (induction "is")
  case (Cons i "is")
  show ?case unfolding for_act.simps
    by (rule ensures_bind [where R = "\<lambda>_. P"]) (simp_all add: Cons)
qed simp

text \<open>An operation that always moves along a relation.\<close>

definition moves :: "('s \<Rightarrow> bool) \<Rightarrow> ('s \<Rightarrow> 's \<Rightarrow> bool) \<Rightarrow> ('s, 'a) act \<Rightarrow> bool" where
  "moves I R a \<longleftrightarrow> (\<forall>s. I s \<longrightarrow> R s (snd (a s)) \<and> I (snd (a s)))"

lemma moves_bind:
  assumes "transp R" "moves I R a" "\<And>x. moves I R (f x)"
  shows "moves I R (bind_act a f)"
  using assms(2,3) transpD [OF assms(1)] unfolding moves_def bind_act_def
  by (fastforce split: prod.splits sum.splits)

lemma moves_leaf [simp]:
  assumes "reflp R"
  shows "moves I R (ret x)" "moves I R (fail e)" "moves I R (of_result r)" "moves I R (gets f)"
  using reflpD [OF assms] by (simp_all add: moves_def ret_def fail_def of_result_def gets_def)

lemma moves_attempt: "moves I R a \<Longrightarrow> moves I R (attempt a)"
  by (simp add: moves_def attempt_def split: prod.splits) (metis snd_conv)

lemma moves_for:
  "reflp R \<Longrightarrow> transp R \<Longrightarrow> (\<And>i. moves I R (f i)) \<Longrightarrow> moves I R (for_act is f)"
  by (induction "is") (simp_all add: moves_bind)

end
