(* ===== verification/FsJournal.thy ===== *)
theory FsJournal
  imports FsAct
begin

text \<open>
  The write-ahead log's commit block (\<^verbatim>\<open>src/fs/src/journal.rs\<close>) and the reader of a filesystem
  (\<open>Filesystem\<close> of \<^verbatim>\<open>src/fs/src/lib.rs\<close>). Both are generic in the source over the trait \<open>Pages\<close>;
  here its method \<open>page\<close> is their first argument.
\<close>

type_synonym 's pages = "nat \<Rightarrow> ('s, u8 list) act"

definition MAX_STAGED :: nat where "MAX_STAGED = 8"
definition TABLE :: nat where "TABLE = 24"
definition HEAD :: nat where "HEAD = TABLE + MAX_STAGED * 4"

definition or_range :: "'a option \<Rightarrow> (fs_error, 'a) result" where
  "or_range x = (case x of None \<Rightarrow> Error OutOfRange | Some y \<Rightarrow> Ok y)"

subsection \<open>The commit block\<close>

record commit =
  c_sequence :: u64
  c_count :: nat

text \<open>The block \<open>start + 1 + index\<close>, in \<open>u32\<close>.\<close>

definition payload_block :: "nat \<Rightarrow> nat \<Rightarrow> (fs_error, nat) result" where
  "payload_block start index = (case add_u32 start 1 of Inl e \<Rightarrow> Inl e | Inr a \<Rightarrow> add_u32 a index)"

fun hash_logged :: "'s pages \<Rightarrow> nat \<Rightarrow> nat list \<Rightarrow> u32 \<Rightarrow> ('s, u32) act" where
  "hash_logged pg start [] hash = ret hash"
| "hash_logged pg start (index # rest) hash =
    bind_act (of_result (payload_block start index)) (\<lambda>b.
    bind_act (pg b) (\<lambda>logged.
    hash_logged pg start rest (checksum_of hash logged)))"

definition transaction_checksum :: "'s pages \<Rightarrow> superblock \<Rightarrow> nat \<Rightarrow> ('s, u32) act" where
  "transaction_checksum pg sb count =
    bind_act (of_result (to_u32 (journal_start sb))) (\<lambda>start.
    bind_act (pg start) (\<lambda>head.
    bind_act (of_result (or_range (slice_at head 0 20))) (\<lambda>fields.
    bind_act (of_result (or_range (slice_at head TABLE (count * 4)))) (\<lambda>table.
    bind_act (hash_logged pg start [0..<count] (checksum_of (checksum_of FNV fields) table)) (\<lambda>hash.
    ret (never_zero hash))))))"

definition committed :: "'s pages \<Rightarrow> superblock \<Rightarrow> ('s, commit option) act" where
  "committed pg sb =
    bind_act (of_result (to_u32 (journal_start sb))) (\<lambda>start.
    bind_act (pg start) (\<lambda>head.
    (case (u64_at head 0, u64_at head 8, u32_at head 16) of
       (Some magic, Some sequence, Some count) \<Rightarrow>
         if magic \<noteq> JOURNAL_MAGIC \<or> sequence = 0 \<or> count = 0 \<or> MAX_STAGED < unat count \<or> journal_blocks sb \<le> unat count
         then ret None
         else
           bind_act (transaction_checksum pg sb (unat count)) (\<lambda>expected.
           bind_act (pg start) (\<lambda>head.
           if u32_at head 20 \<noteq> Some expected then ret None
           else ret (Some \<lparr>c_sequence = sequence, c_count = unat count\<rparr>)))
     | _ \<Rightarrow> ret None)))"

definition pending :: "'s pages \<Rightarrow> superblock \<Rightarrow> ('s, bool) act" where
  "pending pg sb = bind_act (committed pg sb) (\<lambda>found. ret (found \<noteq> None))"

text \<open>The header before its checksum is put in.\<close>

definition commit_fields :: "u64 \<Rightarrow> nat list \<Rightarrow> (nat \<times> u8 list) list" where
  "commit_fields seq homes =
    [(0, to_le_bytes 8 JOURNAL_MAGIC), (8, to_le_bytes 8 seq), (16, to_le_bytes 4 (of_nat (length homes) :: u32))] @
    map (\<lambda>(index, b). (TABLE + index * 4, to_le_bytes 4 (of_nat b :: u32))) (enumerate 0 homes)"

definition build_commit :: "'s pages \<Rightarrow> superblock \<Rightarrow> u64 \<Rightarrow> nat list \<Rightarrow> ('s, u8 list) act" where
  "build_commit pg sb seq homes =
    (if homes = [] \<or> MAX_STAGED < length homes then fail Full
     else if journal_blocks sb \<le> length homes then fail Full
     else
       (case put_all (commit_fields seq homes) (replicate HEAD 0) of
          (Inl e, _) \<Rightarrow> of_result (Inl e)
        | (Inr _, head) \<Rightarrow>
            bind_act (of_result (to_u32 (journal_start sb))) (\<lambda>start.
            bind_act
              (hash_logged pg start [0..<length homes]
                (checksum_of (checksum_of FNV (take 20 head)) (load head TABLE (length homes * 4)))) (\<lambda>hash.
            (case put_all [(20, to_le_bytes 4 (never_zero hash))] head of
               (Inl e, _) \<Rightarrow> of_result (Inl e)
             | (Inr _, head) \<Rightarrow> ret head)))))"

definition home :: "'s pages \<Rightarrow> superblock \<Rightarrow> nat \<Rightarrow> ('s, nat) act" where
  "home pg sb index =
    bind_act (of_result (to_u32 (journal_start sb))) (\<lambda>start.
    bind_act (pg start) (\<lambda>head.
    bind_act (of_result (or_range (u32_at head (TABLE + index * 4)))) (\<lambda>destination.
    if destination = 0 \<or> sb_blocks sb \<le> unat destination then fail OutOfRange else ret (unat destination))))"

subsection \<open>Reading a filesystem\<close>

definition fs_mount :: "'s pages \<Rightarrow> ('s \<Rightarrow> nat) \<Rightarrow> ('s, superblock) act" where
  "fs_mount pg blocks =
    bind_act (gets blocks) (\<lambda>n.
    bind_act (pg 0) (\<lambda>head.
    bind_act (of_result (read_head head n)) (\<lambda>sb.
    bind_act (pending pg sb) (\<lambda>waiting.
    if waiting then fail NeedsRecovery else ret sb))))"

definition fs_inode :: "'s pages \<Rightarrow> superblock \<Rightarrow> u32 \<Rightarrow> ('s, inode) act" where
  "fs_inode pg sb index =
    bind_act (of_result (inode_at sb index)) (\<lambda>(b, offset).
    bind_act (pg b) (\<lambda>found.
    bind_act (of_result (or_range (slice_at found offset INODE))) (\<lambda>slot.
    of_result (inode_decode slot))))"

definition in_filesystem :: "superblock \<Rightarrow> u32 \<Rightarrow> nat option" where
  "in_filesystem sb number = (if number = 0 \<or> sb_blocks sb \<le> unat number then None else Some (unat number))"

definition block_of :: "'s pages \<Rightarrow> superblock \<Rightarrow> inode \<Rightarrow> nat \<Rightarrow> ('s, nat option) act" where
  "block_of pg sb ino which =
    (if which < length (direct ino) then ret (in_filesystem sb (direct ino ! which))
     else if indirect ino = 0 \<or> sb_blocks sb \<le> unat (indirect ino) then ret None
     else
       bind_act (attempt (pg (unat (indirect ino)))) (\<lambda>r.
       (case r of
          Inl _ \<Rightarrow> ret None
        | Inr table \<Rightarrow>
            (case Option.bind (checked_mul 64 (which - length (direct ino)) 4) (u32_at table) of
               None \<Rightarrow> ret None
             | Some number \<Rightarrow> ret (in_filesystem sb number)))))"

text \<open>One step of the loop of \<open>read\<close>: the bytes of one block, or nothing when the loop breaks.\<close>

definition read_piece :: "'s pages \<Rightarrow> superblock \<Rightarrow> inode \<Rightarrow> nat \<Rightarrow> nat \<Rightarrow> ('s, u8 list option) act" where
  "read_piece pg sb ino at' left =
    bind_act (block_of pg sb ino (at' div BLOCK)) (\<lambda>number.
    (case number of
       None \<Rightarrow> ret None
     | Some number \<Rightarrow>
         bind_act (attempt (pg number)) (\<lambda>r.
         (case r of
            Inl _ \<Rightarrow> ret None
          | Inr found \<Rightarrow> ret (slice_at found (at' mod BLOCK) (min (BLOCK - at' mod BLOCK) left))))))"

text \<open>
  The loop: every step that does not break takes at least one byte, so \<open>want\<close> steps are enough.
\<close>

fun read_loop :: "'s pages \<Rightarrow> superblock \<Rightarrow> inode \<Rightarrow> nat \<Rightarrow> nat \<Rightarrow> nat \<Rightarrow> u8 list \<Rightarrow> ('s, u8 list) act" where
  "read_loop pg sb ino offset want 0 got = ret got"
| "read_loop pg sb ino offset want (Suc n) got =
    (if want \<le> length got then ret got
     else
       bind_act (read_piece pg sb ino (offset + length got) (want - length got)) (\<lambda>piece.
       (case piece of
          None \<Rightarrow> ret got
        | Some bytes \<Rightarrow> read_loop pg sb ino offset want n (got @ bytes))))"

definition fs_read :: "'s pages \<Rightarrow> superblock \<Rightarrow> inode \<Rightarrow> nat \<Rightarrow> nat \<Rightarrow> ('s, u8 list) act" where
  "fs_read pg sb ino offset room =
    (if ikind ino \<noteq> File \<or> unat (isize ino) \<le> offset then ret []
     else let want = min room (unat (isize ino) - offset) in read_loop pg sb ino offset want want [])"

text \<open>The entries \<open>list\<close> passes to its caller.\<close>

fun list_from :: "'s pages \<Rightarrow> superblock \<Rightarrow> inode \<Rightarrow> nat list \<Rightarrow> ('s, dir_entry list) act" where
  "list_from pg sb ino [] = ret []"
| "list_from pg sb ino (which # rest) =
    bind_act (block_of pg sb ino (which * ENTRY div BLOCK)) (\<lambda>number.
    (case number of
       None \<Rightarrow> ret []
     | Some number \<Rightarrow>
         bind_act (attempt (pg number)) (\<lambda>r.
         (case r of
            Inl _ \<Rightarrow> ret []
          | Inr found \<Rightarrow>
              (case entry_read found (which * ENTRY mod BLOCK) of
                 Inl _ \<Rightarrow> ret []
               | Inr entry \<Rightarrow>
                   bind_act (list_from pg sb ino rest) (\<lambda>more.
                   ret (if e_inode entry \<noteq> 0 \<or> e_length entry \<noteq> 0 then entry # more else more)))))))"

definition fs_list :: "'s pages \<Rightarrow> superblock \<Rightarrow> inode \<Rightarrow> ('s, dir_entry list) act" where
  "fs_list pg sb ino =
    (if ikind ino \<noteq> Directory then ret [] else list_from pg sb ino [0..<unat (isize ino) div ENTRY])"

definition fs_lookup :: "'s pages \<Rightarrow> superblock \<Rightarrow> inode \<Rightarrow> u8 list \<Rightarrow> ('s, u32 \<times> inode) act" where
  "fs_lookup pg sb dir name =
    (if ikind dir \<noteq> Directory then fail WrongKind
     else
       bind_act (fs_list pg sb dir) (\<lambda>entries.
       (case find (\<lambda>entry. entry_name entry = name) entries of
          None \<Rightarrow> fail NoSuchName
        | Some entry \<Rightarrow>
            bind_act (fs_inode pg sb (e_inode entry)) (\<lambda>found. ret (e_inode entry, found)))))"

definition fs_root :: "'s pages \<Rightarrow> superblock \<Rightarrow> ('s, inode) act" where
  "fs_root pg sb =
    bind_act (fs_inode pg sb (root sb)) (\<lambda>found.
    if ikind found \<noteq> Directory then fail WrongKind else ret found)"

end
