(* ===== verification/FsCache.thy ===== *)
theory FsCache
  imports FsAct
begin

text \<open>
  The block cache of \<^verbatim>\<open>src/fs/src/cache.rs\<close> over a device that stops:
  \<open>Watched\<close> of \<^verbatim>\<open>src/kernel/src/lib.rs\<close>, the \<open>Store\<close> that accepts \<open>limit\<close> writes and refuses
  every later one, so that any instant at which a machine can lose power is a value of \<open>limit\<close>.

  Block numbers are natural numbers (the source's are \<open>u32\<close>; \<open>store_blocks\<close> is below \<open>2 ^ 32\<close>). The
  cache's clock and counters grow by one for a call and are unbounded here. A caller of \<open>edit\<close> gets
  the page to change: the change is an argument of \<open>edit\<close>.
\<close>

definition MAX_FRAMES :: nat where "MAX_FRAMES = 64"
definition MIN_FRAMES :: nat where "MIN_FRAMES = 2"

definition block_at :: "u8 list \<Rightarrow> nat \<Rightarrow> u8 list" where
  "block_at bytes b = load bytes (b * BLOCK) BLOCK"

subsection \<open>An image in memory\<close>

definition image_blocks :: "u8 list \<Rightarrow> nat" where
  "image_blocks bytes = min (length bytes div BLOCK) (2 ^ 32 - 1)"

definition image_page :: "nat \<Rightarrow> (u8 list, u8 list) act" where
  "image_page block bytes =
    (case slice_at bytes (block * BLOCK) BLOCK of
       None \<Rightarrow> (Error OutOfRange, bytes)
     | Some page \<Rightarrow> (Ok page, bytes))"

subsection \<open>The device\<close>

record watched =
  wbytes :: "u8 list"
  seen :: nat
  limit :: nat
  commit_block :: nat
  commit_at :: "nat option"

definition watched_new :: "u8 list \<Rightarrow> nat \<Rightarrow> nat \<Rightarrow> watched" where
  "watched_new bytes lim commit =
    \<lparr>wbytes = bytes, seen = 0, limit = lim, commit_block = commit, commit_at = None\<rparr>"

definition store_blocks :: "watched \<Rightarrow> nat" where
  "store_blocks w = min (length (wbytes w) div BLOCK) (2 ^ 32 - 1)"

definition store_read :: "nat \<Rightarrow> watched \<Rightarrow> (fs_error, u8 list) result" where
  "store_read block w =
    (case slice_at (wbytes w) (block * BLOCK) BLOCK of
       None \<Rightarrow> Error OutOfRange
     | Some from \<Rightarrow> Ok from)"

definition store_write :: "nat \<Rightarrow> u8 list \<Rightarrow> (watched, unit) act" where
  "store_write block from w =
    (if limit w \<le> seen w then (Error Interrupted, w)
     else if length (wbytes w) < block * BLOCK + BLOCK \<or> length from < BLOCK then (Error OutOfRange, w)
     else
       (Ok (), w\<lparr>wbytes := store (wbytes w) (block * BLOCK) (take BLOCK from),
                 commit_at := (if block = commit_block w \<and> commit_at w = None then Some (seen w) else commit_at w),
                 seen := seen w + 1\<rparr>))"

subsection \<open>The cache\<close>

record slot =
  blk :: "nat option"
  dirty :: bool
  used :: nat
  pinned :: bool

definition default_slot :: slot where
  "default_slot = \<lparr>blk = None, dirty = False, used = 0, pinned = False\<rparr>"

record cache =
  frames :: "u8 list"
  slots :: "slot list"
  fcount :: nat
  clock :: nat
  device :: watched
  hits :: nat
  misses :: nat
  written :: nat

definition cache_new :: "u8 list \<Rightarrow> watched \<Rightarrow> (fs_error, cache) result" where
  "cache_new fr dev =
    (let count = min (length fr div BLOCK) MAX_FRAMES in
     if count < MIN_FRAMES then Error OutOfRange
     else Ok \<lparr>frames = fr, slots = replicate MAX_FRAMES default_slot, fcount = count, clock = 0,
              device = dev, hits = 0, misses = 0, written = 0\<rparr>)"

definition frame :: "cache \<Rightarrow> nat \<Rightarrow> u8 list" where
  "frame c i = block_at (frames c) i"

definition set_frame :: "nat \<Rightarrow> u8 list \<Rightarrow> cache \<Rightarrow> cache" where
  "set_frame i v c = c\<lparr>frames := store (frames c) (i * BLOCK) v\<rparr>"

definition resident :: "cache \<Rightarrow> nat \<Rightarrow> nat option" where
  "resident c block = position (\<lambda>s. blk s = Some block) (take (fcount c) (slots c))"

fun oldest_of :: "slot list \<Rightarrow> nat list \<Rightarrow> nat option \<Rightarrow> nat option" where
  "oldest_of ss [] oldest = oldest"
| "oldest_of ss (index # rest) oldest =
    (if pinned (ss ! index) then oldest_of ss rest oldest
     else
       (case oldest of
          Some best \<Rightarrow> if used (ss ! best) \<le> used (ss ! index) then oldest_of ss rest oldest
                       else oldest_of ss rest (Some index)
        | None \<Rightarrow> oldest_of ss rest (Some index)))"

definition victim :: "cache \<Rightarrow> nat option" where
  "victim c =
    (case position (\<lambda>s. blk s = None) (take (fcount c) (slots c)) of
       Some free \<Rightarrow> Some free
     | None \<Rightarrow> oldest_of (slots c) [0..<fcount c] None)"

definition write_back :: "nat \<Rightarrow> (cache, unit) act" where
  "write_back i c =
    (if \<not> dirty (slots c ! i) then (Ok (), c)
     else
       (case blk (slots c ! i) of
          None \<Rightarrow> (Ok (), c)
        | Some block \<Rightarrow>
            (case store_write block (frame c i) (device c) of
               (Inl e, dev) \<Rightarrow> (Inl e, c\<lparr>device := dev\<rparr>)
             | (Inr _, dev) \<Rightarrow>
                 (Ok (), c\<lparr>device := dev, slots := (slots c)[i := (slots c ! i)\<lparr>dirty := False\<rparr>],
                           written := written c + 1\<rparr>))))"

definition admit :: "nat \<Rightarrow> (cache, nat) act" where
  "admit block c =
    (if store_blocks (device c) \<le> block then (Error OutOfRange, c)
     else
       (case resident c block of
          Some i \<Rightarrow>
            (Ok i, c\<lparr>hits := hits c + 1, clock := clock c + 1,
                     slots := (slots c)[i := (slots c ! i)\<lparr>used := clock c + 1\<rparr>]\<rparr>)
        | None \<Rightarrow>
            (case victim c of
               None \<Rightarrow> (Error Full, c)
             | Some i \<Rightarrow>
                 (case write_back i c of
                    (Inl e, c) \<Rightarrow> (Inl e, c)
                  | (Inr _, c) \<Rightarrow>
                      (case store_read block (device c) of
                         Inl e \<Rightarrow> (Inl e, c)
                       | Inr from \<Rightarrow>
                           (Ok i, (set_frame i from c)\<lparr>misses := misses c + 1, clock := clock c + 1,
                              slots := (slots c)[i := \<lparr>blk = Some block, dirty = False, used = clock c + 1,
                                                       pinned = False\<rparr>]\<rparr>))))))"

definition page :: "nat \<Rightarrow> (cache, u8 list) act" where
  "page block c =
    (case admit block c of
       (Inl e, c) \<Rightarrow> (Inl e, c)
     | (Inr i, c) \<Rightarrow> (Ok (frame c i), c))"

definition pin :: "nat \<Rightarrow> (cache, nat) act" where
  "pin block c =
    (case admit block c of
       (Inl e, c) \<Rightarrow> (Inl e, c)
     | (Inr i, c) \<Rightarrow> (Ok i, c\<lparr>slots := (slots c)[i := (slots c ! i)\<lparr>pinned := True\<rparr>]\<rparr>))"

definition unpin :: "nat \<Rightarrow> cache \<Rightarrow> cache" where
  "unpin i c =
    (case get (slots c) i of
       None \<Rightarrow> c
     | Some held \<Rightarrow> c\<lparr>slots := (slots c)[i := held\<lparr>pinned := False\<rparr>]\<rparr>)"

definition block_in :: "nat \<Rightarrow> cache \<Rightarrow> nat option" where
  "block_in i c = Option.bind (get (slots c) i) blk"

definition put_block :: "nat \<Rightarrow> u8 list \<Rightarrow> (cache, unit) act" where
  "put_block block from c =
    (if store_blocks (device c) \<le> block then (Error OutOfRange, c)
     else if length from < BLOCK then (Error OutOfRange, c)
     else
       (case (case resident c block of
                Some i \<Rightarrow> (Ok i, c\<lparr>hits := hits c + 1\<rparr>)
              | None \<Rightarrow>
                  (case victim c of
                     None \<Rightarrow> (Error Full, c)
                   | Some i \<Rightarrow>
                       (case write_back i c of
                          (Inl e, c) \<Rightarrow> (Inl e, c)
                        | (Inr _, c) \<Rightarrow> (Ok i, c)))) of
          (Inl e, c) \<Rightarrow> (Inl e, c)
        | (Inr i, c) \<Rightarrow>
            (Ok (), (set_frame i (take BLOCK from) c)\<lparr>clock := clock c + 1,
               slots := (slots c)[i := \<lparr>blk = Some block, dirty = True, used = clock c + 1,
                                        pinned = pinned (slots c ! i)\<rparr>]\<rparr>)))"

definition edit :: "nat \<Rightarrow> (u8 list \<Rightarrow> (fs_error, 'a) result \<times> u8 list) \<Rightarrow> (cache, 'a) act" where
  "edit block f c =
    (case admit block c of
       (Inl e, c) \<Rightarrow> (Inl e, c)
     | (Inr i, c) \<Rightarrow>
         (case f (frame c i) of
            (r, v) \<Rightarrow> (r, set_frame i v (c\<lparr>slots := (slots c)[i := (slots c ! i)\<lparr>dirty := True\<rparr>]\<rparr>))))"

definition copy :: "nat \<Rightarrow> nat \<Rightarrow> (cache, unit) act" where
  "copy from to c =
    (if from = to then (Ok (), c)
     else
       (case admit from c of
          (Inl e, c) \<Rightarrow> (Inl e, c)
        | (Inr source, c) \<Rightarrow>
            (let c = c\<lparr>clock := clock c + 1, slots := (slots c)[source := (slots c ! source)\<lparr>used := clock c + 1\<rparr>]\<rparr> in
             (case admit to c of
                (Inl e, c) \<Rightarrow> (Inl e, c)
              | (Inr destination, c) \<Rightarrow>
                  if source = destination then (Error OutOfRange, c)
                  else
                    (Ok (), set_frame destination (frame c source)
                       (c\<lparr>slots := (slots c)[destination := (slots c ! destination)\<lparr>dirty := True\<rparr>]\<rparr>))))))"

fun flush_from :: "nat list \<Rightarrow> nat \<Rightarrow> (cache, nat) act" where
  "flush_from [] went c = (Ok went, c)"
| "flush_from (i # rest) went c =
    (if dirty (slots c ! i) then
       (case write_back i c of
          (Inl e, c) \<Rightarrow> (Inl e, c)
        | (Inr _, c) \<Rightarrow> flush_from rest (went + 1) c)
     else flush_from rest went c)"

definition flush :: "(cache, nat) act" where
  "flush c = flush_from [0..<fcount c] 0 c"

definition is_dirty :: "cache \<Rightarrow> bool" where
  "is_dirty c = list_ex dirty (take (fcount c) (slots c))"

definition forget :: "cache \<Rightarrow> cache" where
  "forget c = c\<lparr>slots := map (\<lambda>s. if pinned s then s else default_slot) (slots c)\<rparr>"

end
