(* ===== verification/FsCacheInv.thy ===== *)
theory FsCacheInv
  imports FsCache
begin

text \<open>
  What the cache promises. \<open>view\<close> is the content its user sees, \<open>dblock\<close> what the device holds and
  \<open>dirty_set\<close> where the two may differ. Every operation keeps \<open>cache_ok\<close>, changes the view exactly
  as its name says, and lets the device move only from its old content of a dirty block to the
  view's, at any time: that is all a client can rely on about the order of writes, until \<open>flush\<close>.
\<close>

subsection \<open>Blocks of an array\<close>

lemma BLOCK_pos [simp]: "0 < BLOCK"
  by (simp add: BLOCK_def)

lemma block_at_store:
  assumes "b * BLOCK + BLOCK \<le> length bytes" "length v = BLOCK"
  shows "block_at (store bytes (b * BLOCK) v) b' = (if b' = b then v else block_at bytes b')"
proof -
  consider "b' < b" | "b' = b" | "b < b'" by linarith
  then show ?thesis
  proof cases
    case 1
    have "b' * BLOCK + BLOCK = Suc b' * BLOCK" by simp
    also have "\<dots> \<le> b * BLOCK" using 1 by (intro mult_le_mono1) simp
    finally have "b' * BLOCK + BLOCK \<le> b * BLOCK" .
    then show ?thesis using 1 assms by (simp add: block_at_def load_def store_def take_drop min_def)
  next
    case 3
    have "b * BLOCK + BLOCK = Suc b * BLOCK" by simp
    also have "\<dots> \<le> b' * BLOCK" using 3 by (intro mult_le_mono1) simp
    finally have "b * BLOCK + BLOCK \<le> b' * BLOCK" .
    then show ?thesis using 3 assms by (simp add: block_at_def load_def store_def)
  qed (use assms in \<open>simp add: block_at_def load_def store_def\<close>)
qed

lemma length_block_at: "b * BLOCK + BLOCK \<le> length bytes \<Longrightarrow> length (block_at bytes b) = BLOCK"
  by (simp add: block_at_def)

lemma below_blocks: "b < n div BLOCK \<Longrightarrow> b * BLOCK + BLOCK \<le> n" for n :: nat
proof -
  assume "b < n div BLOCK"
  then have "Suc b * BLOCK \<le> n div BLOCK * BLOCK" by (intro mult_le_mono1) simp
  also have "\<dots> \<le> n" by simp
  finally show ?thesis by simp
qed

lemma store_blocks_room: "b < store_blocks w \<Longrightarrow> b * BLOCK + BLOCK \<le> length (wbytes w)"
  by (rule below_blocks) (simp add: store_blocks_def)

subsection \<open>View, device and dirty blocks\<close>

definition dblock :: "cache \<Rightarrow> nat \<Rightarrow> u8 list" where
  "dblock c b = block_at (wbytes (device c)) b"

definition view :: "cache \<Rightarrow> nat \<Rightarrow> u8 list" where
  "view c b = (case resident c b of Some i \<Rightarrow> frame c i | None \<Rightarrow> dblock c b)"

definition cblocks :: "cache \<Rightarrow> nat" where
  "cblocks c = store_blocks (device c)"

definition stopped :: "cache \<Rightarrow> bool" where
  "stopped c \<longleftrightarrow> limit (device c) \<le> seen (device c)"

definition dirty_set :: "cache \<Rightarrow> nat set" where
  "dirty_set c = {b. \<exists>i < fcount c. blk (slots c ! i) = Some b \<and> dirty (slots c ! i)}"

definition slot_ok :: "cache \<Rightarrow> nat \<Rightarrow> bool" where
  "slot_ok c i \<longleftrightarrow> used (slots c ! i) \<le> clock c \<and>
    (case blk (slots c ! i) of
       None \<Rightarrow> \<not> dirty (slots c ! i) \<and> \<not> pinned (slots c ! i)
     | Some b \<Rightarrow> b < cblocks c \<and> (\<not> dirty (slots c ! i) \<longrightarrow> frame c i = dblock c b))"

definition one_frame :: "cache \<Rightarrow> bool" where
  "one_frame c \<longleftrightarrow> (\<forall>i < fcount c. \<forall>j < fcount c. \<forall>b. blk (slots c ! i) = Some b \<longrightarrow> blk (slots c ! j) = Some b \<longrightarrow> i = j)"

definition cache_ok :: "cache \<Rightarrow> bool" where
  "cache_ok c \<longleftrightarrow> length (slots c) = MAX_FRAMES \<and> MIN_FRAMES \<le> fcount c \<and> fcount c \<le> MAX_FRAMES \<and>
    fcount c * BLOCK \<le> length (frames c) \<and> (\<forall>i < fcount c. slot_ok c i) \<and> one_frame c"

definition pins :: "cache \<Rightarrow> bool list" where
  "pins c = map pinned (take (fcount c) (slots c))"

lemma cache_okD:
  assumes "cache_ok c"
  shows "length (slots c) = MAX_FRAMES" "MIN_FRAMES \<le> fcount c" "fcount c \<le> length (slots c)"
    "fcount c * BLOCK \<le> length (frames c)" "\<And>i. i < fcount c \<Longrightarrow> slot_ok c i" "one_frame c"
  using assms by (auto simp: cache_ok_def)

lemma frame_room:
  assumes "cache_ok c" "i < fcount c"
  shows "i * BLOCK + BLOCK \<le> length (frames c)"
proof -
  have "Suc i * BLOCK \<le> fcount c * BLOCK" using assms(2) by (intro mult_le_mono1) simp
  then show ?thesis using cache_okD(4) [OF assms(1)] by simp
qed

lemma length_frame [simp]: "cache_ok c \<Longrightarrow> i < fcount c \<Longrightarrow> length (frame c i) = BLOCK"
  by (simp add: frame_def length_block_at frame_room)

lemma resident_SomeD: "resident c b = Some i \<Longrightarrow> i < fcount c \<and> blk (slots c ! i) = Some b"
  using position_SomeD [of "\<lambda>s. blk s = Some b" "take (fcount c) (slots c)" i] by (auto simp: resident_def)

lemma resident_iff:
  assumes "cache_ok c"
  shows "resident c b = Some i \<longleftrightarrow> i < fcount c \<and> blk (slots c ! i) = Some b"
proof
  assume "resident c b = Some i"
  then show "i < fcount c \<and> blk (slots c ! i) = Some b"
    by (rule resident_SomeD)
next
  assume i: "i < fcount c \<and> blk (slots c ! i) = Some b"
  then have "slots c ! i \<in> set (take (fcount c) (slots c))"
    using cache_okD(3) [OF assms] unfolding in_set_conv_nth by (intro exI [of _ i]) simp
  then have "resident c b \<noteq> None" using i by (auto simp: resident_def position_None_iff)
  then obtain j where j: "resident c b = Some j" by auto
  then have "j < fcount c \<and> blk (slots c ! j) = Some b"
    by (rule resident_SomeD)
  then show "resident c b = Some i"
    using i j cache_okD(6) [OF assms] by (auto simp: one_frame_def)
qed

lemma resident_None: "cache_ok c \<Longrightarrow> resident c b = None \<longleftrightarrow> (\<forall>i < fcount c. blk (slots c ! i) \<noteq> Some b)"
  using resident_iff [of c b] by (metis not_None_eq)

lemma view_frame: "cache_ok c \<Longrightarrow> i < fcount c \<Longrightarrow> blk (slots c ! i) = Some b \<Longrightarrow> view c b = frame c i"
  by (simp add: view_def resident_iff [THEN iffD2])

lemma view_device: "cache_ok c \<Longrightarrow> (\<And>i. i < fcount c \<Longrightarrow> blk (slots c ! i) \<noteq> Some b) \<Longrightarrow> view c b = dblock c b"
  by (simp add: view_def resident_None [THEN iffD2])

lemma view_clean:
  assumes "cache_ok c" "b \<notin> dirty_set c"
  shows "view c b = dblock c b"
proof (cases "resident c b")
  case (Some i)
  then have i: "i < fcount c" "blk (slots c ! i) = Some b" using resident_iff [OF assms(1)] by auto
  then have "\<not> dirty (slots c ! i)" using assms(2) by (auto simp: dirty_set_def)
  then show ?thesis
    using cache_okD(5) [OF assms(1) i(1)] i view_frame [OF assms(1) i] by (simp add: slot_ok_def)
qed (simp add: view_def)

lemma dirty_set_below: "cache_ok c \<Longrightarrow> b \<in> dirty_set c \<Longrightarrow> b < cblocks c"
  by (auto simp: dirty_set_def dest!: cache_okD(5) simp: slot_ok_def)

lemma length_dblock: "b < cblocks c \<Longrightarrow> length (dblock c b) = BLOCK"
  by (simp add: dblock_def cblocks_def length_block_at store_blocks_room)

lemma length_view [simp]: "cache_ok c \<Longrightarrow> b < cblocks c \<Longrightarrow> length (view c b) = BLOCK"
  by (auto simp: view_def length_dblock resident_iff split: option.splits)

subsection \<open>How the cache may move\<close>

definition evolves :: "cache \<Rightarrow> cache \<Rightarrow> bool" where
  "evolves c c' \<longleftrightarrow> cache_ok c' \<and> cblocks c' = cblocks c \<and> pins c' = pins c \<and>
    (\<forall>b. dblock c' b = dblock c b \<or> b \<in> dirty_set c \<and> dblock c' b = view c b) \<and>
    (stopped c \<longrightarrow> stopped c' \<and> wbytes (device c') = wbytes (device c)) \<and>
    limit (device c') = limit (device c)"

definition settles :: "cache \<Rightarrow> cache \<Rightarrow> bool" where
  "settles c c' \<longleftrightarrow> evolves c c' \<and> view c' = view c \<and> dirty_set c' \<subseteq> dirty_set c"

definition writes :: "nat \<Rightarrow> u8 list \<Rightarrow> cache \<Rightarrow> cache \<Rightarrow> bool" where
  "writes b v c c' \<longleftrightarrow> evolves c c' \<and> view c' = (view c)(b := v) \<and> dirty_set c' \<subseteq> insert b (dirty_set c)"

lemma evolves_after_settles: "settles c c' \<Longrightarrow> evolves c' c'' \<Longrightarrow> evolves c c''"
  unfolding settles_def evolves_def by (metis subset_iff)

lemma settles_trans [trans]: "settles c c' \<Longrightarrow> settles c' c'' \<Longrightarrow> settles c c''"
  using evolves_after_settles [of c c' c''] unfolding settles_def by auto

lemma settles_writes [trans]: "settles c c' \<Longrightarrow> writes b v c' c'' \<Longrightarrow> writes b v c c''"
  using evolves_after_settles [of c c' c''] unfolding settles_def writes_def by auto

lemma settles_refl [simp]: "cache_ok c \<Longrightarrow> settles c c"
  by (simp add: settles_def evolves_def)

lemma settles_ok: "settles c c' \<Longrightarrow> cache_ok c'"
  by (simp add: settles_def evolves_def)

lemma writes_ok: "writes b v c c' \<Longrightarrow> cache_ok c'"
  by (simp add: writes_def evolves_def)

end
