(* ===== verification/FsCacheOps.thy ===== *)
theory FsCacheOps
  imports FsCacheInv
begin

text \<open>Each operation of the cache against its contract.\<close>

subsection \<open>Steps the operations are made of\<close>

lemma cblocks_device: "device c' = device c \<Longrightarrow> cblocks c' = cblocks c"
  by (simp add: cblocks_def)

lemma pins_eqI:
  assumes "fcount c' = fcount c" "length (slots c') = length (slots c)"
    "\<And>i. i < fcount c \<Longrightarrow> pinned (slots c' ! i) = pinned (slots c ! i)"
  shows "pins c' = pins c"
  using assms by (auto simp: pins_def intro!: nth_equalityI)

text \<open>Moving clocks and counters.\<close>

lemma settles_touch:
  assumes ok: "cache_ok c" and same: "frames c' = frames c" "fcount c' = fcount c" "device c' = device c"
      "length (slots c') = length (slots c)"
    and slots: "\<And>i. i < fcount c \<Longrightarrow> blk (slots c' ! i) = blk (slots c ! i) \<and> dirty (slots c' ! i) = dirty (slots c ! i) \<and>
        pinned (slots c' ! i) = pinned (slots c ! i) \<and> used (slots c' ! i) \<le> clock c'"
  shows "settles c c'"
proof -
  have f: "frame c' = frame c" "dblock c' = dblock c" "cblocks c' = cblocks c"
    using same by (auto simp: frame_def dblock_def cblocks_def)
  have "slot_ok c' i" if "i < fcount c" for i
    using cache_okD(5) [OF ok that] slots [OF that] by (auto simp: slot_ok_def f split: option.splits)
  moreover have "one_frame c'"
    using cache_okD(6) [OF ok] slots same by (simp add: one_frame_def)
  ultimately have ok': "cache_ok c'" using ok same by (simp add: cache_ok_def)
  have "resident c' b = Some i \<longleftrightarrow> resident c b = Some i" for b i
    unfolding resident_iff [OF ok] resident_iff [OF ok'] using slots same(2) by auto
  then have "resident c' b = resident c b" for b by (metis option.exhaust)
  then have "view c' b = view c b" for b by (simp add: view_def f split: option.splits)
  moreover have "dirty_set c' = dirty_set c" using slots same by (auto simp: dirty_set_def)
  moreover have "pins c' = pins c" using slots same by (intro pins_eqI) auto
  ultimately show ?thesis using ok' f same by (auto simp: settles_def evolves_def stopped_def)
qed

text \<open>A frame that is clean, or already holds block \<open>b\<close>, holds block \<open>b\<close> with content \<open>v\<close>.\<close>

lemma replace_slot:
  assumes ok: "cache_ok c" and i: "i < fcount c"
    and free: "\<not> dirty (slots c ! i) \<or> blk (slots c ! i) = Some b"
    and alone: "\<And>j. j < fcount c \<Longrightarrow> j \<noteq> i \<Longrightarrow> blk (slots c ! j) \<noteq> Some b"
    and b: "b < cblocks c" and v: "length v = BLOCK" "\<not> d \<Longrightarrow> v = dblock c b"
    and k: "clock c \<le> clock c'" "u \<le> clock c'"
    and c': "frames c' = store (frames c) (i * BLOCK) v" "fcount c' = fcount c" "device c' = device c"
      "slots c' = (slots c)[i := \<lparr>blk = Some b, dirty = d, used = u, pinned = pinned (slots c ! i)\<rparr>]"
  shows "writes b v c c'" "\<not> d \<Longrightarrow> dirty_set c' \<subseteq> dirty_set c"
proof -
  have len: "length (slots c) = MAX_FRAMES" "i < length (slots c)" using cache_okD(1,3) [OF ok] i by simp_all
  have f: "frame c' j = (if j = i then v else frame c j)" for j
    using block_at_store [OF frame_room [OF ok i] v(1)] by (simp add: frame_def c')
  have d: "dblock c' = dblock c" "cblocks c' = cblocks c" using c' by (auto simp: dblock_def cblocks_def)
  have at_i: "slots c' ! i = \<lparr>blk = Some b, dirty = d, used = u, pinned = pinned (slots c ! i)\<rparr>"
    and at_j: "\<And>j. j \<noteq> i \<Longrightarrow> slots c' ! j = slots c ! j"
    using len by (simp_all add: c'(4))
  have "slot_ok c' j" if "j < fcount c" for j
  proof (cases "j = i")
    case True
    then show ?thesis using b v k by (simp add: slot_ok_def at_i d f)
  next
    case False
    then show ?thesis
      using cache_okD(5) [OF ok that] k by (simp add: slot_ok_def at_j d f split: option.splits)
  qed
  moreover have "one_frame c'"
    using cache_okD(6) [OF ok] alone i unfolding one_frame_def c'(2)
    by (metis at_i at_j slot.select_convs(1) option.inject)
  moreover have "length (frames c') = length (frames c)"
    using frame_room [OF ok i] by (simp add: c' v)
  ultimately have ok': "cache_ok c'" using ok by (simp add: cache_ok_def c')
  have "view c' b' = ((view c)(b := v)) b'" for b'
  proof (cases "b' = b")
    case True
    have "view c' b = frame c' i" by (rule view_frame [OF ok']) (use i at_i c'(2) in simp_all)
    then show ?thesis using True by (simp add: f)
  next
    case False
    show ?thesis
    proof (cases "\<exists>j < fcount c. j \<noteq> i \<and> blk (slots c ! j) = Some b'")
      case True
      then obtain j where j: "j < fcount c" "j \<noteq> i" "blk (slots c ! j) = Some b'" by auto
      have "view c' b' = frame c' j" by (rule view_frame [OF ok']) (use j at_j c'(2) in simp_all)
      then show ?thesis using view_frame [OF ok j(1,3)] False j(2) by (simp add: f)
    next
      case none: False
      then have "view c' b' = dblock c b'"
        using view_device [OF ok', of b'] at_i at_j False by (metis c'(2) d(1) option.inject slot.select_convs(1))
      moreover have "view c b' = dblock c b'"
      proof (cases "blk (slots c ! i) = Some b'")
        case True
        then have "\<not> dirty (slots c ! i)" using free False by auto
        then show ?thesis
          using cache_okD(5) [OF ok i] True view_frame [OF ok i True] by (simp add: slot_ok_def)
      qed (use view_device [OF ok, of b'] none in metis)
      ultimately show ?thesis using False by simp
    qed
  qed
  then have view: "view c' = (view c)(b := v)" by blast
  have pins: "pins c' = pins c"
    by (rule pins_eqI) (simp_all add: c' nth_list_update_if)
  show dirt: "dirty_set c' \<subseteq> dirty_set c" if "\<not> d"
    using that at_i at_j unfolding dirty_set_def c'(2) by (smt (verit) Collect_mono slot.select_convs(2))
  have "dirty_set c' \<subseteq> insert b (dirty_set c)"
    using at_i at_j unfolding dirty_set_def c'(2)
    by (smt (verit) Collect_mono insert_Collect option.inject slot.select_convs(1) mem_Collect_eq subsetI insertCI)
  then show "writes b v c c'"
    using ok' view pins d c' by (simp add: writes_def evolves_def stopped_def)
qed

subsection \<open>Writing a frame back\<close>

lemma store_write_cases:
  assumes "b < store_blocks w" "length v = BLOCK"
  shows "store_write b v w =
    (if limit w \<le> seen w then (Error Interrupted, w)
     else (Ok (), w\<lparr>wbytes := store (wbytes w) (b * BLOCK) v,
             commit_at := (if b = commit_block w \<and> commit_at w = None then Some (seen w) else commit_at w),
             seen := seen w + 1\<rparr>))"
  using store_blocks_room [OF assms(1)] assms(2) by (simp add: store_write_def)

lemma write_back_spec:
  assumes ok: "cache_ok c" and i: "i < fcount c" and run: "write_back i c = (r, c')"
  shows "settles c c' \<and>
    (case r of
       Inr _ \<Rightarrow> slots c' = (slots c)[i := (slots c ! i)\<lparr>dirty := False\<rparr>] \<and> clock c' = clock c
     | Inl e \<Rightarrow> e = Err Interrupted \<and> stopped c \<and> c' = c)"
proof (cases "dirty (slots c ! i)")
  case False
  then have "(slots c)[i := (slots c ! i)\<lparr>dirty := False\<rparr>] = slots c"
    using cache_okD(3) [OF ok] i by (intro list_update_same_conv [THEN iffD2]) auto
  then show ?thesis using run False ok by (auto simp: write_back_def)
next
  case True
  then obtain b where b: "blk (slots c ! i) = Some b"
    using cache_okD(5) [OF ok i] by (cases "blk (slots c ! i)") (auto simp: slot_ok_def)
  have bb: "b < cblocks c" using cache_okD(5) [OF ok i] b by (simp add: slot_ok_def)
  have bD: "b \<in> dirty_set c" using True b i by (auto simp: dirty_set_def)
  have vb: "view c b = frame c i" by (rule view_frame [OF ok i b])
  show ?thesis
  proof (cases "stopped c")
    case True
    then show ?thesis
      using run ok \<open>dirty (slots c ! i)\<close> b bb i
      by (auto simp: write_back_def store_write_cases cblocks_def stopped_def)
  next
    case False
    define dev where "dev = snd (store_write b (frame c i) (device c))"
    have wb: "wbytes dev = store (wbytes (device c)) (b * BLOCK) (frame c i)" and lim: "limit dev = limit (device c)"
      using False bb ok i by (auto simp: dev_def store_write_cases cblocks_def stopped_def)
    have c': "c' = c\<lparr>device := dev, slots := (slots c)[i := (slots c ! i)\<lparr>dirty := False\<rparr>], written := written c + 1\<rparr>"
      and r: "r = Ok ()"
      using run False \<open>dirty (slots c ! i)\<close> b bb ok i
      by (auto simp: write_back_def dev_def store_write_cases cblocks_def stopped_def)
    have len: "i < length (slots c)" using cache_okD(3) [OF ok] i by simp
    have d: "dblock c' b' = (if b' = b then frame c i else dblock c b')" for b'
      using block_at_store [OF store_blocks_room] bb ok i by (simp add: dblock_def c' wb cblocks_def)
    have f: "frame c' = frame c" and fc: "fcount c' = fcount c" by (simp_all add: frame_def c' fun_eq_iff)
    have cb: "cblocks c' = cblocks c"
      using store_blocks_room [of b "device c"] bb ok i by (simp add: cblocks_def store_blocks_def c' wb)
    have sl: "blk (slots c' ! j) = blk (slots c ! j)" "pinned (slots c' ! j) = pinned (slots c ! j)"
      "used (slots c' ! j) = used (slots c ! j)" "dirty (slots c' ! j) = (dirty (slots c ! j) \<and> j \<noteq> i)" for j
      using len by (simp_all add: c' nth_list_update_if)
    have other: "blk (slots c ! j) \<noteq> Some b" if "j < fcount c" "j \<noteq> i" for j
      using cache_okD(6) [OF ok] that i b by (auto simp: one_frame_def)
    have "slot_ok c' j" if "j < fcount c" for j
    proof (cases "j = i")
      case True
      then show ?thesis
        using cache_okD(5) [OF ok i] b by (simp add: slot_ok_def sl d f cb) (simp add: c')
    next
      case False
      then show ?thesis
        using cache_okD(5) [OF ok that] other [OF that False]
        by (simp add: slot_ok_def sl d f cb split: option.splits) (auto simp: c')
    qed
    moreover have "one_frame c'" using cache_okD(6) [OF ok] by (simp add: one_frame_def sl) (simp add: c')
    ultimately have ok': "cache_ok c'" using ok by (simp add: cache_ok_def) (simp add: c')
    have "resident c' b' = Some j \<longleftrightarrow> resident c b' = Some j" for b' j
      unfolding resident_iff [OF ok] resident_iff [OF ok'] sl by (simp add: c')
    then have "resident c' b' = resident c b'" for b' by (metis option.exhaust)
    moreover have "resident c b = Some i" using resident_iff [OF ok] i b by simp
    ultimately have "view c' b' = view c b'" for b'
      by (cases "b' = b") (auto simp: view_def f d split: option.splits)
    moreover have "dirty_set c' \<subseteq> dirty_set c" using fc by (auto simp: dirty_set_def sl)
    moreover have "pins c' = pins c" by (rule pins_eqI) (simp_all add: sl, simp_all add: c')
    ultimately have "settles c c'"
      using ok' cb d bD vb False by (auto simp: settles_def evolves_def) (simp_all add: c' lim)
    then show ?thesis by (simp add: r) (simp add: c')
  qed
qed

subsection \<open>Choosing a frame\<close>

lemma oldest_of_None: "oldest_of ss is oldest = None \<longleftrightarrow> oldest = None \<and> (\<forall>i \<in> set is. pinned (ss ! i))"
  by (induction ss "is" oldest rule: oldest_of.induct) (auto split: option.splits)

lemma oldest_of_Some:
  assumes "oldest_of ss is oldest = Some i" "\<And>b. oldest = Some b \<Longrightarrow> \<not> pinned (ss ! b)"
  shows "\<not> pinned (ss ! i) \<and> (i \<in> set is \<or> oldest = Some i) \<and>
    (\<forall>j \<in> set is. \<not> pinned (ss ! j) \<longrightarrow> used (ss ! i) \<le> used (ss ! j)) \<and> (\<forall>b. oldest = Some b \<longrightarrow> used (ss ! i) \<le> used (ss ! b))"
  using assms
proof (induction "is" arbitrary: oldest)
  case (Cons index rest)
  show ?case
  proof (cases "pinned (ss ! index)")
    case True
    then show ?thesis using Cons.IH [of oldest] Cons.prems by auto
  next
    case unpinned: False
    show ?thesis
    proof (cases "\<exists>best. oldest = Some best \<and> used (ss ! best) \<le> used (ss ! index)")
      case True
      then show ?thesis using Cons.IH [of oldest] Cons.prems unpinned by fastforce
    next
      case False
      then have "oldest_of ss rest (Some index) = Some i"
        using Cons.prems(1) unpinned by (auto split: option.splits if_splits)
      then have "\<not> pinned (ss ! i) \<and> (i \<in> set rest \<or> Some index = Some i) \<and>
          (\<forall>j \<in> set rest. \<not> pinned (ss ! j) \<longrightarrow> used (ss ! i) \<le> used (ss ! j)) \<and> used (ss ! i) \<le> used (ss ! index)"
        using Cons.IH [of "Some index"] unpinned by auto
      then show ?thesis using False by fastforce
    qed
  qed
qed simp

lemma victim_Some:
  assumes "cache_ok c" "victim c = Some i"
  shows "i < fcount c \<and> \<not> pinned (slots c ! i) \<and>
    (blk (slots c ! i) = None \<or> (\<forall>j < fcount c. \<not> pinned (slots c ! j) \<longrightarrow> used (slots c ! i) \<le> used (slots c ! j)))"
proof (cases "position (\<lambda>s. blk s = None) (take (fcount c) (slots c))")
  case (Some k)
  then have k: "k = i" "i < fcount c" "blk (slots c ! i) = None"
    using assms(2) position_SomeD [OF Some] by (auto simp: victim_def)
  then show ?thesis using cache_okD(5) [OF assms(1) k(2)] by (simp add: slot_ok_def)
next
  case None
  then show ?thesis
    using oldest_of_Some [of "slots c" "[0..<fcount c]" None i] assms(2) by (auto simp: victim_def)
qed

lemma victim_None: "cache_ok c \<Longrightarrow> victim c = None \<Longrightarrow> i < fcount c \<Longrightarrow> pinned (slots c ! i)"
  by (auto simp: victim_def oldest_of_None split: option.splits)

text \<open>Some frame is not lent out; and two are, which is what a copy needs.\<close>

definition spare :: "cache \<Rightarrow> bool" where
  "spare c \<longleftrightarrow> (\<exists>i < fcount c. \<exists>j < fcount c. i \<noteq> j \<and> \<not> pinned (slots c ! i) \<and> \<not> pinned (slots c ! j))"

lemma spare_pins: "cache_ok c \<Longrightarrow> spare c \<longleftrightarrow>
    (\<exists>i < length (pins c). \<exists>j < length (pins c). i \<noteq> j \<and> \<not> pins c ! i \<and> \<not> pins c ! j)"
  using cache_okD(3) [of c] by (simp add: spare_def pins_def min_def cong: conj_cong)

lemma spare_evolves: "cache_ok c \<Longrightarrow> spare c \<Longrightarrow> evolves c c' \<Longrightarrow> spare c'"
  by (simp add: spare_pins evolves_def)

lemma spare_victim: "cache_ok c \<Longrightarrow> spare c \<Longrightarrow> victim c \<noteq> None"
  using victim_None by (auto simp: spare_def)

subsection \<open>Bringing a block in\<close>

definition admitted :: "nat \<Rightarrow> nat \<Rightarrow> cache \<Rightarrow> bool" where
  "admitted b i c \<longleftrightarrow> i < fcount c \<and> blk (slots c ! i) = Some b \<and> used (slots c ! i) = clock c \<and>
    (\<forall>j < fcount c. j \<noteq> i \<longrightarrow> used (slots c ! j) < clock c)"

definition others_kept :: "nat \<Rightarrow> cache \<Rightarrow> cache \<Rightarrow> bool" where
  "others_kept i c c' \<longleftrightarrow> fcount c' = fcount c \<and> (\<forall>j < fcount c. j \<noteq> i \<longrightarrow> blk (slots c' ! j) = blk (slots c ! j))"

definition refused :: "nat \<Rightarrow> fs_error failure \<Rightarrow> cache \<Rightarrow> cache \<Rightarrow> bool" where
  "refused b e c c' \<longleftrightarrow> e = Err OutOfRange \<and> cblocks c \<le> b \<or> (e = Err Full \<or> e = Err OutOfRange) \<and> \<not> spare c \<or>
    e = Err Interrupted \<and> stopped c'"

lemma admit_spec:
  assumes ok: "cache_ok c" and run: "admit b c = (r, c')"
  shows "settles c c' \<and> (case r of
      Inr i \<Rightarrow> b < cblocks c \<and> admitted b i c' \<and> (resident c b = Some i \<or> victim c = Some i) \<and> others_kept i c c'
    | Inl e \<Rightarrow> refused b e c c')"
proof (cases "cblocks c \<le> b")
  case True
  then show ?thesis using run ok by (auto simp: admit_def cblocks_def refused_def)
next
  case False
  show ?thesis
  proof (cases "resident c b")
    case (Some i)
    then have i: "i < fcount c" "blk (slots c ! i) = Some b" using resident_iff [OF ok] by auto
    have len: "i < length (slots c)" using cache_okD(3) [OF ok] i by simp
    have c': "c' = c\<lparr>hits := hits c + 1, clock := clock c + 1, slots := (slots c)[i := (slots c ! i)\<lparr>used := clock c + 1\<rparr>]\<rparr>"
      and r: "r = Ok i" using run False Some by (auto simp: admit_def cblocks_def)
    have used: "used (slots c ! j) \<le> clock c" if "j < fcount c" for j
      using cache_okD(5) [OF ok that] by (simp add: slot_ok_def)
    have "settles c c'"
      using used by (intro settles_touch [OF ok]) (auto simp: c' nth_list_update_if le_Suc_eq)
    moreover have "admitted b i c'" using i used len by (auto simp: admitted_def c' le_imp_less_Suc)
    moreover have "others_kept i c c'" by (simp add: others_kept_def c')
    ultimately show ?thesis using False Some by (simp add: r)
  next
    case None
    show ?thesis
    proof (cases "victim c")
      case None
      then show ?thesis
        using run False \<open>resident c b = None\<close> ok spare_victim [OF ok] by (auto simp: admit_def cblocks_def refused_def)
    next
      case (Some i)
      obtain r1 c1 where wb: "write_back i c = (r1, c1)" by (cases "write_back i c")
      have i: "i < fcount c" "\<not> pinned (slots c ! i)" using victim_Some [OF ok Some] by auto
      have spec: "settles c c1" "(case r1 of
           Inr _ \<Rightarrow> slots c1 = (slots c)[i := (slots c ! i)\<lparr>dirty := False\<rparr>] \<and> clock c1 = clock c
         | Inl e \<Rightarrow> e = Err Interrupted \<and> stopped c \<and> c1 = c)"
        using write_back_spec [OF ok i(1) wb] by auto
      show ?thesis
      proof (cases r1)
        case (Inl e)
        then show ?thesis
          using run False \<open>resident c b = None\<close> Some wb spec by (auto simp: admit_def cblocks_def refused_def)
      next
        case (Inr u)
        have ok1: "cache_ok c1" by (rule settles_ok [OF spec(1)])
        have s1: "slots c1 = (slots c)[i := (slots c ! i)\<lparr>dirty := False\<rparr>]" "clock c1 = clock c" using spec(2) Inr by auto
        have fc: "fcount c1 = fcount c" using wb Inr by (auto simp: write_back_def split: if_splits option.splits prod.splits sum.splits)
        have b1: "b < cblocks c1" using spec(1) False by (simp add: settles_def evolves_def)
        have rd: "store_read b (device c1) = Ok (dblock c1 b)"
          using store_blocks_room [of b "device c1"] b1
          by (simp add: store_read_def slice_at_def cblocks_def dblock_def block_at_def)
        have c': "c' = (set_frame i (dblock c1 b) c1)\<lparr>misses := misses c1 + 1, clock := clock c1 + 1,
                slots := (slots c1)[i := \<lparr>blk = Some b, dirty = False, used = clock c1 + 1, pinned = False\<rparr>]\<rparr>"
          and r: "r = Ok i"
          using run False \<open>resident c b = None\<close> Some wb Inr rd by (auto simp: admit_def cblocks_def)
        have len: "i < length (slots c)" using cache_okD(3) [OF ok] i by simp
        have absent: "blk (slots c1 ! j) \<noteq> Some b" if "j < fcount c1" for j
          using resident_None [OF ok, of b] \<open>resident c b = None\<close> that len by (auto simp: s1 fc nth_list_update_if)
        have w: "writes b (dblock c1 b) c1 c'" "dirty_set c' \<subseteq> dirty_set c1"
          by (rule replace_slot [OF ok1 _ _ absent b1, of i "dblock c1 b" False c' "clock c1 + 1"];
              use i len b1 in \<open>simp add: s1 fc c' set_frame_def length_dblock\<close>)+
        have "view c1 b = dblock c1 b" using absent by (intro view_device [OF ok1])
        then have "settles c1 c'" using w by (auto simp: settles_def writes_def fun_upd_idem)
        then have "settles c c'" by (rule settles_trans [OF spec(1)])
        moreover have "used (slots c ! j) \<le> clock c" if "j < fcount c" for j
          using cache_okD(5) [OF ok that] by (simp add: slot_ok_def)
        then have "admitted b i c'"
          using i len by (auto simp: admitted_def c' set_frame_def s1 fc le_imp_less_Suc)
        moreover have "others_kept i c c'" by (simp add: others_kept_def c' set_frame_def s1 fc)
        ultimately show ?thesis using False Some by (simp add: r)
      qed
    qed
  qed
qed

lemma admit_cases [consumes 2, case_names admitted refused]:
  assumes "cache_ok c" "admit b c = (r, c')"
  obtains i where "r = Ok i" "settles c c'" "cache_ok c'" "b < cblocks c" "admitted b i c'" "resident c b = Some i \<or> victim c = Some i"
    "frame c' i = view c b" "others_kept i c c'"
  | e where "r = Inl e" "settles c c'" "refused b e c c'"
proof (cases r)
  case (Inl e)
  then show ?thesis using admit_spec [OF assms] that(2) by auto
next
  case (Inr i)
  have s: "settles c c'" and a: "b < cblocks c" "admitted b i c'" "resident c b = Some i \<or> victim c = Some i"
      "others_kept i c c'"
    using admit_spec [OF assms] Inr by auto
  have ok: "cache_ok c'" by (rule settles_ok [OF s])
  have "view c' b = frame c' i" using a(2) by (intro view_frame [OF ok]) (auto simp: admitted_def)
  moreover have "view c' b = view c b" using s by (simp add: settles_def)
  ultimately show ?thesis using that(1) [OF Inr s ok a(1-3) _ a(4)] by simp
qed

subsection \<open>Reading and writing\<close>

lemma page_cases [consumes 2, case_names page refused]:
  assumes "cache_ok c" "page b c = (r, c')"
  obtains "r = Ok (view c b)" "settles c c'" "b < cblocks c"
  | e where "r = Inl e" "settles c c'" "refused b e c c'"
proof -
  obtain r1 c1 where a: "admit b c = (r1, c1)" by (cases "admit b c")
  from assms(1) a show ?thesis
  proof (cases rule: admit_cases)
    case (admitted i)
    then show ?thesis using assms(2) a that(1) by (auto simp: page_def)
  next
    case (refused e)
    then show ?thesis using assms(2) a that(2) by (auto simp: page_def)
  qed
qed

text \<open>Changing the frame a block was admitted to.\<close>

lemma change_admitted:
  assumes ok: "cache_ok c" and a: "admitted b i c" and v: "length v = BLOCK"
  shows "writes b v c (set_frame i v (c\<lparr>slots := (slots c)[i := (slots c ! i)\<lparr>dirty := True\<rparr>]\<rparr>))"
proof (rule replace_slot(1) [where i = i and d = True and u = "used (slots c ! i)"])
  show "i < fcount c" "\<not> dirty (slots c ! i) \<or> blk (slots c ! i) = Some b" using a by (simp_all add: admitted_def)
  show "blk (slots c ! j) \<noteq> Some b" if "j < fcount c" "j \<noteq> i" for j
    using cache_okD(6) [OF ok] that a unfolding one_frame_def admitted_def by blast
  show "b < cblocks c"
    using cache_okD(5) [OF ok, of i] a by (simp add: admitted_def slot_ok_def)
  show "slots (set_frame i v (c\<lparr>slots := (slots c)[i := (slots c ! i)\<lparr>dirty := True\<rparr>]\<rparr>)) =
      (slots c)[i := \<lparr>blk = Some b, dirty = True, used = used (slots c ! i), pinned = pinned (slots c ! i)\<rparr>]"
    using a by (cases "slots c ! i") (simp add: set_frame_def admitted_def)
qed (use ok a v in \<open>simp_all add: set_frame_def admitted_def\<close>)

lemma edit_cases [consumes 3, case_names edited refused]:
  assumes "cache_ok c" "edit b f c = (r, c')" and len: "\<forall>v. length v = BLOCK \<longrightarrow> length (snd (f v)) = BLOCK"
  obtains "r = fst (f (view c b))" "writes b (snd (f (view c b))) c c'" "b < cblocks c"
  | e where "r = Inl e" "settles c c'" "refused b e c c'"
proof -
  obtain r1 c1 where a: "admit b c = (r1, c1)" by (cases "admit b c")
  from assms(1) a show ?thesis
  proof (cases rule: admit_cases)
    case (admitted i)
    have "length (view c b) = BLOCK" using assms(1) admitted by simp
    then have "writes b (snd (f (view c b))) c1 c'" "r = fst (f (view c b))"
      using change_admitted [OF admitted(3,5), of "snd (f (view c b))"] len admitted assms(2) a
      by (auto simp: edit_def split: prod.splits)
    then show ?thesis using that(1) settles_writes [OF admitted(2)] admitted(4) by blast
  next
    case (refused e)
    then show ?thesis using assms(2) a that(2) by (auto simp: edit_def)
  qed
qed

lemma put_block_cases [consumes 3, case_names put refused]:
  assumes ok: "cache_ok c" and run: "put_block b v c = (r, c')" and len: "length v = BLOCK"
  obtains "r = Ok ()" "writes b v c c'" "b < cblocks c"
  | e where "r = Inl e" "settles c c'" "refused b e c c'"
proof (cases "cblocks c \<le> b")
  case True
  then show ?thesis using that(2) run ok by (auto simp: put_block_def cblocks_def refused_def)
next
  case False
  note room = that
  define finish where "finish i c = (set_frame i v c)\<lparr>clock := clock c + 1,
     slots := (slots c)[i := \<lparr>blk = Some b, dirty = True, used = clock c + 1, pinned = pinned (slots c ! i)\<rparr>]\<rparr>" for i c
  have fin: "writes b v c1 (finish i c1)"
    if "cache_ok c1" "i < fcount c1" "\<not> dirty (slots c1 ! i) \<or> blk (slots c1 ! i) = Some b" "b < cblocks c1"
      "\<And>j. j < fcount c1 \<Longrightarrow> j \<noteq> i \<Longrightarrow> blk (slots c1 ! j) \<noteq> Some b" for c1 i
    by (rule replace_slot(1) [OF that(1,2,3,5), where d = True and u = "clock c1 + 1"])
      (use that len in \<open>simp_all add: finish_def set_frame_def\<close>)
  show ?thesis
  proof (cases "resident c b")
    case (Some i)
    then have i: "i < fcount c" "blk (slots c ! i) = Some b" using resident_iff [OF ok] by auto
    let ?c1 = "c\<lparr>hits := hits c + 1\<rparr>"
    have s: "settles c ?c1"
      using cache_okD(5) [OF ok] by (intro settles_touch [OF ok]) (auto simp: slot_ok_def)
    have "writes b v ?c1 (finish i ?c1)"
      using i s False cache_okD(6) [OF ok]
      by (intro fin) (auto simp: settles_ok settles_def evolves_def one_frame_def)
    then have "writes b v c (finish i ?c1)" by (rule settles_writes [OF s])
    moreover have "r = Ok ()" "c' = finish i ?c1"
      using run False Some len by (auto simp: put_block_def cblocks_def finish_def)
    ultimately show ?thesis using room(1) False by simp
  next
    case None
    show ?thesis
    proof (cases "victim c")
      case None
      then show ?thesis
        using room(2) run False \<open>resident c b = None\<close> ok len spare_victim [OF ok]
        by (auto simp: put_block_def cblocks_def refused_def)
    next
      case (Some i)
      obtain r1 c1 where wb: "write_back i c = (r1, c1)" by (cases "write_back i c")
      have i: "i < fcount c" using victim_Some [OF ok Some] by auto
      note spec = write_back_spec [OF ok i wb]
      show ?thesis
      proof (cases r1)
        case (Inl e)
        then show ?thesis
          using room(2) run False \<open>resident c b = None\<close> Some wb spec len
          by (auto simp: put_block_def cblocks_def refused_def)
      next
        case (Inr u)
        have s: "settles c c1" and s1: "slots c1 = (slots c)[i := (slots c ! i)\<lparr>dirty := False\<rparr>]"
          using spec Inr by auto
        have fc: "fcount c1 = fcount c" using wb Inr by (auto simp: write_back_def split: if_splits option.splits prod.splits sum.splits)
        have n: "i < length (slots c)" using cache_okD(3) [OF ok] i by simp
        have absent: "blk (slots c1 ! j) \<noteq> Some b" if "j < fcount c1" for j
          using resident_None [OF ok, of b] \<open>resident c b = None\<close> that n by (auto simp: s1 fc nth_list_update_if)
        have "writes b v c1 (finish i c1)"
          by (rule fin [OF settles_ok [OF s] _ _ _ absent])
            (use i n s False in \<open>simp_all add: s1 fc settles_def evolves_def\<close>)
        then have "writes b v c (finish i c1)" by (rule settles_writes [OF s])
        moreover have "r = Ok ()" "c' = finish i c1"
          using run False \<open>resident c b = None\<close> Some wb Inr len by (auto simp: put_block_def cblocks_def finish_def)
        ultimately show ?thesis using room(1) False by simp
      qed
    qed
  qed
qed

lemma refused_settled: "settles c c1 \<Longrightarrow> cache_ok c \<Longrightarrow> refused b e c1 c' \<Longrightarrow> refused b e c c'"
  using spare_evolves [of c c1] by (auto simp: refused_def settles_def evolves_def)

lemma copy_cases [consumes 2, case_names same copied refused]:
  assumes ok: "cache_ok c" and run: "copy from to c = (r, c')"
  obtains "r = Ok ()" "c' = c" "from = to"
  | "r = Ok ()" "writes to (view c from) c c'" "from < cblocks c" "to < cblocks c" "from \<noteq> to"
  | e where "r = Inl e" "settles c c'" "refused from e c c' \<or> refused to e c c'"
proof (cases "from = to")
  case True
  then show ?thesis using that(1) run by (simp add: copy_def)
next
  case False
  obtain r1 c1 where a1: "admit from c = (r1, c1)" by (cases "admit from c")
  from ok a1 show ?thesis
  proof (cases rule: admit_cases)
    case (refused e)
    then show ?thesis using that(3) run False a1 by (auto simp: copy_def)
  next
    case (admitted source)
    define c2 where "c2 = c1\<lparr>clock := clock c1 + 1, slots := (slots c1)[source := (slots c1 ! source)\<lparr>used := clock c1 + 1\<rparr>]\<rparr>"
    have n: "source < length (slots c1)" "source < fcount c1" and bs: "blk (slots c1 ! source) = Some from"
      using admitted cache_okD(3) [OF admitted(3)] by (simp_all add: admitted_def)
    have "settles c1 c2"
      using cache_okD(5) [OF admitted(3)]
      by (intro settles_touch [OF admitted(3)]) (auto simp: c2_def nth_list_update_if slot_ok_def le_Suc_eq)
    then have s2: "settles c c2" by (rule settles_trans [OF admitted(2)])
    have ok2: "cache_ok c2" by (rule settles_ok [OF s2])
    have src: "source < fcount c2" "blk (slots c2 ! source) = Some from" "used (slots c2 ! source) = clock c2"
      using n bs by (simp_all add: c2_def)
    have fresh: "used (slots c2 ! j) < clock c2" if "j < fcount c2" "j \<noteq> source" for j
      using admitted(5) that by (auto simp: c2_def admitted_def)
    have v2: "view c2 = view c" "cblocks c2 = cblocks c" using s2 by (auto simp: settles_def evolves_def)
    have eq: "copy from to c =
        (case admit to c2 of
           (Inl e, c) \<Rightarrow> (Inl e, c)
         | (Inr destination, c) \<Rightarrow>
             if source = destination then (Error OutOfRange, c)
             else (Ok (), set_frame destination (frame c source)
                 (c\<lparr>slots := (slots c)[destination := (slots c ! destination)\<lparr>dirty := True\<rparr>]\<rparr>)))"
      using False a1 admitted(1) by (simp add: copy_def c2_def Let_def)
    obtain r3 c3 where a3: "admit to c2 = (r3, c3)" by (cases "admit to c2")
    from ok2 a3 show ?thesis
    proof (cases rule: admit_cases)
      case (refused e)
      then have "r = Inl e" "c' = c3" using run a3 by (auto simp: eq)
      then show ?thesis
        using that(3) settles_trans [OF s2 refused(2)] refused_settled [OF s2 ok refused(3)] by blast
    next
      case dest: (admitted destination)
      have s3: "settles c c3" by (rule settles_trans [OF s2 dest(2)])
      show ?thesis
      proof (cases "source = destination")
        case True
        then have "victim c2 = Some source" using dest(6) resident_iff [OF ok2, of to] src False by auto
        then have "\<forall>j < fcount c2. \<not> pinned (slots c2 ! j) \<longrightarrow> clock c2 \<le> used (slots c2 ! j)"
          using victim_Some [OF ok2, of source] src by auto
        then have "pinned (slots c2 ! j)" if "j < fcount c2" "j \<noteq> source" for j
          using fresh [OF that] that by (meson linorder_not_less)
        then have "\<not> spare c2" unfolding spare_def by metis
        then have "\<not> spare c" using spare_evolves [OF ok, of c2] s2 by (auto simp: settles_def)
        moreover have "r = Error OutOfRange" "c' = c3"
          using run a3 dest(1) True by (auto simp: eq)
        ultimately show ?thesis using that(3) s3 by (simp add: refused_def)
      next
        case two: False
        have "blk (slots c3 ! source) = Some from" "source < fcount c3"
          using dest(8) src two by (auto simp: others_kept_def)
        then have "frame c3 source = view c from"
          using view_frame [OF dest(3)] s3 by (simp add: settles_def)
        then have "writes to (view c from) c3 c'" "r = Ok ()"
          using change_admitted [OF dest(3,5), of "view c from"] ok admitted(4) run a3 dest(1) two by (auto simp: eq)
        then show ?thesis
          using that(2) settles_writes [OF s3] False admitted(4) dest(4) v2 by auto
      qed
    qed
  qed
qed

subsection \<open>Flushing\<close>

lemma write_back_ok:
  assumes "cache_ok c" "i < fcount c" "\<not> stopped c"
  shows "fst (write_back i c) = Ok ()"
  using write_back_spec [OF assms(1,2)] assms(3) by (cases "write_back i c") (auto split: sum.splits)

lemma write_back_fcount: "write_back i c = (r, c') \<Longrightarrow> fcount c' = fcount c"
  by (auto simp: write_back_def split: if_splits option.splits prod.splits sum.splits)

lemma flush_from_spec:
  assumes "cache_ok c" "flush_from is went c = (r, c')" "\<And>i. i \<in> set is \<Longrightarrow> i < fcount c"
  shows "settles c c' \<and> fcount c' = fcount c \<and> (\<forall>i < fcount c. dirty (slots c' ! i) \<longrightarrow> dirty (slots c ! i)) \<and>
    (case r of Inr _ \<Rightarrow> \<forall>i \<in> set is. \<not> dirty (slots c' ! i) | Inl e \<Rightarrow> e = Err Interrupted \<and> stopped c')"
  using assms
proof (induction "is" went c rule: flush_from.induct)
  case (2 i rest went c)
  show ?case
  proof (cases "dirty (slots c ! i)")
    case False
    then show ?thesis using 2(2) [OF False 2(3)] 2(4,5) by (auto split: sum.splits)
  next
    case True
    obtain r1 c1 where wb: "write_back i c = (r1, c1)" by (cases "write_back i c")
    have i: "i < fcount c" using 2(5) by simp
    note spec = write_back_spec [OF 2(3) i wb]
    show ?thesis
    proof (cases r1)
      case (Inl e)
      then show ?thesis using spec 2(4) True wb by auto
    next
      case (Inr u)
      have n: "i < length (slots c)" using cache_okD(3) [OF 2(3)] i by simp
      have s1: "settles c c1" "slots c1 = (slots c)[i := (slots c ! i)\<lparr>dirty := False\<rparr>]" "fcount c1 = fcount c"
        using spec Inr write_back_fcount [OF wb] by auto
      have rest: "flush_from rest (went + 1) c1 = (r, c')" using 2(4) True wb Inr by simp
      have IH: "settles c1 c' \<and> fcount c' = fcount c1 \<and> (\<forall>i < fcount c1. dirty (slots c' ! i) \<longrightarrow> dirty (slots c1 ! i)) \<and>
          (case r of Inr _ \<Rightarrow> \<forall>i \<in> set rest. \<not> dirty (slots c' ! i) | Inl e \<Rightarrow> e = Err Interrupted \<and> stopped c')"
        by (rule 2(1) [OF True wb [symmetric] Inr settles_ok [OF s1(1)] rest]) (use 2(5) s1(3) in simp)
      have "dirty (slots c ! j)" if "dirty (slots c1 ! j)" for j
        using that n by (auto simp: s1(2) nth_list_update_if split: if_splits)
      moreover have "\<not> dirty (slots c' ! i)" using IH i n by (auto simp: s1(2,3))
      ultimately show ?thesis using IH settles_trans [OF s1(1)] s1(3) by (auto split: sum.splits)
    qed
  qed
qed auto

lemma flush_cases [consumes 2, case_names flushed stopped]:
  assumes "cache_ok c" "flush c = (r, c')"
  obtains n where "r = Ok n" "settles c c'" "dirty_set c' = {}"
  | "r = Error Interrupted" "settles c c'" "stopped c'"
proof (cases r)
  case (Inl e)
  then show ?thesis using flush_from_spec [OF assms(1), of "[0..<fcount c]" 0 r c'] assms(2) that(2) by (auto simp: flush_def)
next
  case (Inr n)
  then have "settles c c'" "dirty_set c' = {}"
    using flush_from_spec [OF assms(1), of "[0..<fcount c]" 0 r c'] assms(2) by (auto simp: flush_def dirty_set_def)
  then show ?thesis using Inr that(1) by blast
qed

subsection \<open>A new cache, and one that forgets\<close>

lemma cache_new_ok:
  assumes "cache_new fr dev = Ok c"
  shows "cache_ok c" "view c = dblock c" "dirty_set c = {}" "device c = dev" "spare c"
proof -
  have c: "c = \<lparr>frames = fr, slots = replicate MAX_FRAMES default_slot, fcount = min (length fr div BLOCK) MAX_FRAMES, clock = 0,
              device = dev, hits = 0, misses = 0, written = 0\<rparr>" and n: "MIN_FRAMES \<le> fcount c"
    using assms by (auto simp: cache_new_def Let_def split: if_splits)
  have "fcount c * BLOCK \<le> length fr div BLOCK * BLOCK" unfolding c by (intro mult_le_mono1) simp
  also have "\<dots> \<le> length fr" by simp
  finally have room: "fcount c * BLOCK \<le> length (frames c)" by (simp add: c)
  have at: "slots c ! i = default_slot" if "i < fcount c" for i using that by (simp add: c)
  show ok: "cache_ok c"
    using room n at by (simp add: cache_ok_def one_frame_def slot_ok_def default_slot_def) (simp add: c)
  show "view c = dblock c" by (rule ext, rule view_device [OF ok]) (simp add: at default_slot_def)
  show "dirty_set c = {}" by (auto simp: dirty_set_def at default_slot_def)
  show "device c = dev" by (simp add: c)
  show "spare c"
    unfolding spare_def
    by (rule exI [of _ 0], rule conjI, use n in \<open>simp add: MIN_FRAMES_def\<close>, rule exI [of _ 1])
      (use n in \<open>simp add: at default_slot_def MIN_FRAMES_def\<close>)
qed

end
