(* ===== verification/FsPages.thy ===== *)
theory FsPages
  imports FsJournal FsCacheOps "HOL-Library.Sublist"
begin

text \<open>
  The interface \<open>Pages\<close> and its clients. A provider of pages has a content, which reading does not
  change, and may stop, for good. Everything that reads through it gets what it would get from the
  plain content itself, unless the provider stopped on the way. The image and the cache provide
  it.
\<close>

type_synonym plain = "(nat \<Rightarrow> u8 list) \<times> nat"

definition plain_page :: "plain pages" where
  "plain_page b s = (if b < snd s then Ok (fst s b) else Error OutOfRange, s)"

text \<open>An operation on the plain content only looks.\<close>

definition looks :: "(plain, 'a) act \<Rightarrow> bool" where
  "looks p \<longleftrightarrow> (\<forall>s. snd (p s) = s)"

named_theorems looks_rules \<open>operations that only look\<close>

lemma looks_leaf [looks_rules]:
  "looks (ret x)" "looks (fail e)" "looks (of_result r)" "looks (gets f)" "looks (plain_page b)"
  by (simp_all add: looks_def ret_def fail_def of_result_def gets_def plain_page_def)

lemma looks_run: "looks p \<Longrightarrow> p s = (fst (p s), s)"
  by (metis looks_def prod.collapse)

lemma bind_plain:
  assumes "looks p"
  shows "bind_act p q s = (case fst (p s) of Inl e \<Rightarrow> (Inl e, s) | Inr x \<Rightarrow> q x s)"
  unfolding bind_act_def by (subst looks_run [OF assms]) (simp split: sum.split)

lemma looks_bind [looks_rules]: "looks p \<Longrightarrow> (\<And>x. looks (q x)) \<Longrightarrow> looks (bind_act p q)"
  by (simp add: looks_def [of "bind_act p q"] bind_plain split: sum.split) (simp add: looks_def)

lemma attempt_plain: "looks p \<Longrightarrow> attempt p s = (Ok (fst (p s)), s)"
  unfolding attempt_def by (subst looks_run) simp_all

lemma looks_attempt [looks_rules]: "looks p \<Longrightarrow> looks (attempt p)"
  by (simp add: looks_def [of "attempt p"] attempt_plain)

lemma find_append: "find P (xs @ ys) = (case find P xs of None \<Rightarrow> find P ys | Some x \<Rightarrow> Some x)"
  by (induction xs) auto

locale pages =
  fixes pg :: "'s pages"
    and ok :: "'s \<Rightarrow> bool"
    and content :: "'s \<Rightarrow> plain"
    and stop :: "'s \<Rightarrow> bool"
    and move :: "'s \<Rightarrow> 's \<Rightarrow> bool"
  assumes move_refl: "ok s \<Longrightarrow> move s s"
    and move_trans: "move s t \<Longrightarrow> move t u \<Longrightarrow> move s u"
    and move_keeps: "ok s \<Longrightarrow> move s t \<Longrightarrow> ok t \<and> content t = content s \<and> (stop s \<longrightarrow> stop t)"
    and page_law: "ok s \<Longrightarrow> pg b s = (r, t) \<Longrightarrow> move s t \<and> (r = fst (plain_page b (content s)) \<or> r = Error Interrupted \<and> stop t)"
begin

definition reads :: "('s, 'a) act \<Rightarrow> (plain, 'a) act \<Rightarrow> bool" where
  "reads a p \<longleftrightarrow> looks p \<and> (\<forall>s r t. ok s \<longrightarrow> a s = (r, t) \<longrightarrow> move s t \<and> (r = fst (p (content s)) \<or> stop t))"

text \<open>A client that passes every error on: it ends with the plain answer or with the interruption.\<close>

definition passes :: "('s, 'a) act \<Rightarrow> (plain, 'a) act \<Rightarrow> bool" where
  "passes a p \<longleftrightarrow> looks p \<and>
    (\<forall>s r t. ok s \<longrightarrow> a s = (r, t) \<longrightarrow> move s t \<and> (r = fst (p (content s)) \<or> r = Error Interrupted \<and> stop t))"

lemma passes_reads: "passes a p \<Longrightarrow> reads a p"
  unfolding passes_def reads_def by blast

lemma passes_page: "passes (pg b) (plain_page b)"
  using page_law by (simp add: passes_def looks_leaf)

lemma passes_leaf:
  "passes (ret x) (ret x)" "passes (fail e) (fail e)" "passes (of_result r) (of_result r)"
  using move_refl by (auto simp: passes_def looks_leaf) (auto simp: ret_def fail_def of_result_def)

lemma passes_bind:
  assumes a: "passes a p" and f: "\<And>x. passes (f x) (q x)"
  shows "passes (bind_act a f) (bind_act p q)"
proof -
  have looks: "looks p" "\<And>x. looks (q x)" using a f by (auto simp: passes_def)
  have "move s t \<and> (r = fst (bind_act p q (content s)) \<or> r = Error Interrupted \<and> stop t)"
    if s: "ok s" and run: "bind_act a f s = (r, t)" for s r t
  proof -
    obtain r1 s1 where a1: "a s = (r1, s1)" by (cases "a s")
    have m1: "move s s1" "r1 = fst (p (content s)) \<or> r1 = Error Interrupted \<and> stop s1" using a s a1 by (auto simp: passes_def)
    note k1 = move_keeps [OF s m1(1)]
    show ?thesis
    proof (cases r1)
      case (Inl e)
      then have "r = Inl e" "t = s1" using run a1 by (auto simp: bind_act_def)
      then show ?thesis using m1 Inl by (auto simp: bind_plain [OF looks(1)] split: sum.split)
    next
      case (Inr x)
      then have fx: "f x s1 = (r, t)" using run a1 by (simp add: bind_act_def)
      have m2: "move s1 t" "r = fst (q x (content s1)) \<or> r = Error Interrupted \<and> stop t" using f [of x] k1 fx by (auto simp: passes_def)
      then show ?thesis
        using m1 k1 move_trans [OF m1(1) m2(1)] Inr by (auto simp: bind_plain [OF looks(1)] split: sum.split)
    qed
  qed
  then show ?thesis using looks by (simp add: passes_def looks_bind)
qed

lemma passes_result:
  "passes a p \<Longrightarrow> ok s \<Longrightarrow> a s = (r, t) \<Longrightarrow> move s t \<and> (r = fst (p (content s)) \<or> r = Error Interrupted \<and> stop t)"
  by (simp add: passes_def)

lemma reads_page: "reads (pg b) (plain_page b)"
  by (rule passes_reads [OF passes_page])

lemma reads_leaf:
  "reads (ret x) (ret x)" "reads (fail e) (fail e)" "reads (of_result r) (of_result r)"
  using move_refl by (auto simp: reads_def looks_leaf) (auto simp: ret_def fail_def of_result_def)

lemma reads_gets: "(\<And>s. ok s \<Longrightarrow> f s = g (content s)) \<Longrightarrow> reads (gets f) (gets g)"
  using move_refl by (auto simp: reads_def looks_leaf) (auto simp: gets_def)

lemma reads_bind:
  assumes a: "reads a p" and f: "\<And>x. reads (f x) (q x)"
  shows "reads (bind_act a f) (bind_act p q)"
proof -
  have looks: "looks p" "\<And>x. looks (q x)" using a f by (auto simp: reads_def)
  have "move s t \<and> (r = fst (bind_act p q (content s)) \<or> stop t)" if s: "ok s" and run: "bind_act a f s = (r, t)" for s r t
  proof -
    obtain r1 s1 where a1: "a s = (r1, s1)" by (cases "a s")
    have m1: "move s s1" "r1 = fst (p (content s)) \<or> stop s1" using a s a1 by (auto simp: reads_def)
    note k1 = move_keeps [OF s m1(1)]
    show ?thesis
    proof (cases r1)
      case (Inl e)
      then have "r = Inl e" "t = s1" using run a1 by (auto simp: bind_act_def)
      then show ?thesis using m1 Inl by (auto simp: bind_plain [OF looks(1)] split: sum.split)
    next
      case (Inr x)
      then have fx: "f x s1 = (r, t)" using run a1 by (simp add: bind_act_def)
      have m2: "move s1 t" "r = fst (q x (content s1)) \<or> stop t" using f [of x] k1 fx by (auto simp: reads_def)
      have "stop s1 \<Longrightarrow> stop t" using move_keeps [OF _ m2(1)] k1 by blast
      then show ?thesis
        using m1 m2 k1 move_trans [OF m1(1) m2(1)] Inr by (auto simp: bind_plain [OF looks(1)] split: sum.split)
    qed
  qed
  then show ?thesis using looks by (simp add: reads_def looks_bind)
qed

lemma reads_attempt: "reads a p \<Longrightarrow> reads (attempt a) (attempt p)"
  unfolding reads_def by (auto simp: looks_attempt attempt_plain attempt_def [of a] split: prod.splits)

lemma reads_looks: "reads a p \<Longrightarrow> looks p"
  by (simp add: reads_def)

lemma reads_result: "reads a p \<Longrightarrow> ok s \<Longrightarrow> a s = (r, t) \<Longrightarrow> move s t \<and> (r = fst (p (content s)) \<or> stop t)"
  by (simp add: reads_def)

text \<open>The clients: the journal and the reader.\<close>

lemmas reads_rules = reads_bind reads_leaf reads_page reads_attempt

lemmas passes_rules = passes_bind passes_leaf passes_page

lemma passes_hash_logged: "passes (hash_logged pg start is hash) (hash_logged plain_page start is hash)"
  by (induction "is" arbitrary: hash) (auto intro!: passes_rules)

lemma passes_committed: "passes (committed pg sb) (committed plain_page sb)"
  unfolding committed_def transaction_checksum_def
  by (intro passes_bind passes_leaf passes_page) (auto split: option.split intro!: passes_rules passes_hash_logged)

lemma passes_pending: "passes (pending pg sb) (pending plain_page sb)"
  unfolding pending_def by (intro passes_rules passes_committed)

lemma passes_home: "passes (home pg sb index) (home plain_page sb index)"
  unfolding home_def by (auto intro!: passes_rules)

lemma passes_build_commit: "passes (build_commit pg sb seq homes) (build_commit plain_page sb seq homes)"
  unfolding build_commit_def by (auto split: prod.split sum.split intro!: passes_rules passes_hash_logged)

lemma passes_inode: "passes (fs_inode pg sb index) (fs_inode plain_page sb index)"
  unfolding fs_inode_def by (auto intro!: passes_rules)

lemmas reads_inode = passes_inode [THEN passes_reads]
lemmas reads_pending = passes_pending [THEN passes_reads]

lemma reads_block_of: "reads (block_of pg sb ino which) (block_of plain_page sb ino which)"
  unfolding block_of_def by (auto split: sum.split option.split intro!: reads_rules)

lemma reads_read_loop: "reads (read_loop pg sb ino offset want n got) (read_loop plain_page sb ino offset want n got)"
proof (induction n arbitrary: got)
  case (Suc n)
  show ?case
    unfolding read_loop.simps read_piece_def
    by (auto split: sum.split option.split intro!: reads_rules reads_block_of Suc)
qed (simp add: reads_leaf)

lemma reads_read: "reads (fs_read pg sb ino offset room) (fs_read plain_page sb ino offset room)"
  by (simp add: fs_read_def reads_leaf reads_read_loop Let_def)

lemma reads_list_from: "reads (list_from pg sb ino is) (list_from plain_page sb ino is)"
  by (induction "is") (auto split: sum.split option.split intro!: reads_rules reads_block_of)

lemma reads_list: "reads (fs_list pg sb ino) (fs_list plain_page sb ino)"
  by (simp add: fs_list_def reads_leaf reads_list_from)

text \<open>
  The walk of a directory hides an error of the provider: it ends early. What it lists is a prefix
  of the directory, so a name that is found is found where the plain content has it.
\<close>

lemma block_of_sharp:
  assumes s: "ok s" and run: "block_of pg sb ino which s = (r, t)"
  shows "move s t \<and> (r = fst (block_of plain_page sb ino which (content s)) \<or> r = Ok None \<and> stop t)"
proof (cases "which < length (direct ino) \<or> indirect ino = 0 \<or> sb_blocks sb \<le> unat (indirect ino)")
  case True
  then show ?thesis using run move_refl [OF s] by (auto simp: block_of_def ret_def split: if_splits)
next
  case False
  obtain r1 s1 where p: "pg (unat (indirect ino)) s = (r1, s1)" by (cases "pg (unat (indirect ino)) s")
  have m: "move s s1" "r1 = fst (plain_page (unat (indirect ino)) (content s)) \<or> r1 = Error Interrupted \<and> stop s1"
    using page_law [OF s p] by auto
  show ?thesis
    using run False p m
    by (auto simp: block_of_def bind_act_def attempt_def ret_def attempt_plain [OF looks_leaf(5)] split: option.splits sum.splits prod.splits)
qed

lemma list_from_plain:
  "fst (list_from plain_page sb ino (which # rest) c) =
    (case fst (block_of plain_page sb ino (which * ENTRY div BLOCK) c) of
       Inl e \<Rightarrow> Inl e
     | Inr None \<Rightarrow> Ok []
     | Inr (Some number) \<Rightarrow>
         (case fst (plain_page number c) of
            Inl _ \<Rightarrow> Ok []
          | Inr found \<Rightarrow>
              (case entry_read found (which * ENTRY mod BLOCK) of
                 Inl _ \<Rightarrow> Ok []
               | Inr entry \<Rightarrow>
                   (case fst (list_from plain_page sb ino rest c) of
                      Inl e \<Rightarrow> Inl e
                    | Inr later \<Rightarrow> Ok (if e_inode entry \<noteq> 0 \<or> e_length entry \<noteq> 0 then entry # later else later)))))"
  by (simp add: bind_plain [OF reads_looks [OF reads_block_of]] bind_plain [OF looks_attempt [OF looks_leaf(5)]]
      bind_plain [OF reads_looks [OF reads_list_from]] attempt_plain [OF looks_leaf(5)] ret_def split: sum.split option.split)

lemma block_of_plain_ok: "\<exists>b. fst (block_of plain_page sb ino which c) = Ok b"
  by (auto simp: block_of_def bind_act_def attempt_def ret_def plain_page_def split: option.splits)

lemma list_from_prefix:
  assumes "ok s" "list_from pg sb ino is s = (r, t)"
  shows "\<exists>l l'. r = Ok l \<and> fst (list_from plain_page sb ino is (content s)) = Ok l' \<and> move s t \<and> prefix l l' \<and> (l = l' \<or> stop t)"
  using assms
proof (induction "is" arbitrary: s r t)
  case (Cons which rest)
  let ?b = "\<lambda>pg'. block_of pg' sb ino (which * ENTRY div BLOCK)"
  obtain r1 s1 where b: "?b pg s = (r1, s1)" by (cases "?b pg s")
  have m1: "move s s1" "r1 = fst (?b plain_page (content s)) \<or> r1 = Ok None \<and> stop s1"
    using block_of_sharp [OF Cons.prems(1) b] by auto
  have k1: "ok s1" "content s1 = content s" using move_keeps [OF Cons.prems(1) m1(1)] by auto
  obtain lt where lt: "fst (list_from plain_page sb ino rest (content s)) = Ok lt"
    using Cons.IH [of s] Cons.prems(1) by (metis prod.exhaust)
  then have all: "\<exists>l'. fst (list_from plain_page sb ino (which # rest) (content s)) = Ok l'"
    using block_of_plain_ok [of sb ino "which * ENTRY div BLOCK" "content s"]
    unfolding list_from_plain by (auto split: sum.split option.split)
  show ?case
  proof (cases "r1 = Ok None")
    case True
    then have "r = Ok []" "t = s1" using Cons.prems(2) b by (auto simp: bind_act_def ret_def)
    then show ?thesis
      using m1 True all unfolding list_from_plain by (auto split: sum.splits option.splits)
  next
    case False
    then obtain number where num: "r1 = Ok (Some number)" "fst (?b plain_page (content s)) = Ok (Some number)"
      using m1(2) block_of_plain_ok [of sb ino "which * ENTRY div BLOCK" "content s"] by auto
    obtain r2 s2 where p: "pg number s1 = (r2, s2)" by (cases "pg number s1")
    have m2: "move s1 s2" "r2 = fst (plain_page number (content s)) \<or> r2 = Error Interrupted \<and> stop s2"
      using page_law [OF k1(1) p] k1(2) by auto
    have k2: "ok s2" "content s2 = content s" using move_keeps [OF k1(1) m2(1)] k1(2) by auto
    have m12: "move s s2" by (rule move_trans [OF m1(1) m2(1)])
    have run: "list_from pg sb ino (which # rest) s =
        (case r2 of Inl _ \<Rightarrow> (Ok [], s2)
         | Inr found \<Rightarrow> (case entry_read found (which * ENTRY mod BLOCK) of Inl _ \<Rightarrow> (Ok [], s2)
           | Inr entry \<Rightarrow> (case list_from pg sb ino rest s2 of (Inl e, u) \<Rightarrow> (Inl e, u)
              | (Inr later, u) \<Rightarrow> (Ok (if e_inode entry \<noteq> 0 \<or> e_length entry \<noteq> 0 then entry # later else later), u))))"
      using b num p by (simp add: bind_act_def attempt_def ret_def split: sum.split prod.split)
    obtain r3 s3 where l3: "list_from pg sb ino rest s2 = (r3, s3)" by (cases "list_from pg sb ino rest s2")
    obtain l where l: "r3 = Ok l" "move s2 s3" "prefix l lt" "l = lt \<or> stop s3"
      using Cons.IH [OF k2(1) l3] lt k2(2) by auto
    show ?thesis
    proof (cases "r2 = fst (plain_page number (content s))")
      case True
      then show ?thesis
        using Cons.prems(2) run num lt l3 l m12 move_trans [OF m12 l(2)]
        by (auto simp: list_from_plain simp del: list_from.simps split: sum.splits)
    next
      case False
      then show ?thesis using Cons.prems(2) run m2(2) m12 all by (auto simp del: list_from.simps)
    qed
  qed
qed (use move_refl in \<open>auto simp: ret_def\<close>)

text \<open>A client whose value, when it has one, is the plain one.\<close>

definition finds :: "('s, 'a) act \<Rightarrow> (plain, 'a) act \<Rightarrow> bool" where
  "finds a p \<longleftrightarrow> (\<forall>s r t. ok s \<longrightarrow> a s = (r, t) \<longrightarrow> move s t \<and> (r = fst (p (content s)) \<or> isl r \<and> stop t))"

lemma finds_lookup: "finds (fs_lookup pg sb dir name) (fs_lookup plain_page sb dir name)"
proof -
  have "move s t \<and> (r = fst (fs_lookup plain_page sb dir name (content s)) \<or> isl r \<and> stop t)"
    if s: "ok s" and run: "fs_lookup pg sb dir name s = (r, t)" for s r t
  proof (cases "ikind dir = Directory")
    case False
    then show ?thesis using run move_refl [OF s] by (auto simp: fs_lookup_def fail_def)
  next
    case True
    let ?is = "[0..<unat (isize dir) div ENTRY]"
    obtain r1 s1 where l1: "list_from pg sb dir ?is s = (r1, s1)" by (cases "list_from pg sb dir ?is s")
    obtain l l' where l: "r1 = Ok l" "fst (list_from plain_page sb dir ?is (content s)) = Ok l'" "move s s1" "prefix l l'" "l = l' \<or> stop s1"
      using list_from_prefix [OF s l1] by auto
    have k1: "ok s1" "content s1 = content s" using move_keeps [OF s l(3)] by auto
    let ?P = "\<lambda>entry. entry_name entry = name"
    have pure: "fst (fs_lookup plain_page sb dir name (content s)) =
        (case find ?P l' of None \<Rightarrow> Error NoSuchName
         | Some entry \<Rightarrow> (case fst (fs_inode plain_page sb (e_inode entry) (content s)) of Inl e \<Rightarrow> Inl e | Inr i \<Rightarrow> Ok (e_inode entry, i)))"
      using True l(2) by (simp add: fs_lookup_def fs_list_def bind_plain [OF reads_looks [OF reads_list_from]] fail_def
          bind_plain [OF reads_looks [OF reads_inode]] ret_def split: option.split sum.split)
    show ?thesis
    proof (cases "find ?P l")
      case None
      then have "r = Error NoSuchName" "t = s1" using run True l1 l(1) by (auto simp: fs_lookup_def fs_list_def bind_act_def fail_def)
      then show ?thesis using l None pure by auto
    next
      case (Some entry)
      then have same: "find ?P l' = Some entry" using l(4) by (auto simp: prefix_def find_append)
      obtain r2 s2 where i: "fs_inode pg sb (e_inode entry) s1 = (r2, s2)" by (cases "fs_inode pg sb (e_inode entry) s1")
      have m: "move s1 s2" "r2 = fst (fs_inode plain_page sb (e_inode entry) (content s)) \<or> r2 = Error Interrupted \<and> stop s2"
        using passes_result [OF passes_inode k1(1) i] k1(2) by auto
      have "(r, t) = (case r2 of Inl e \<Rightarrow> (Inl e, s2) | Inr x \<Rightarrow> (Ok (e_inode entry, x), s2))"
        using run True l1 l(1) Some i by (cases r2) (simp_all add: fs_lookup_def fs_list_def bind_act_def ret_def)
      then show ?thesis using m move_trans [OF l(3) m(1)] pure same by (auto split: sum.splits)
    qed
  qed
  then show ?thesis by (simp add: finds_def)
qed

lemma reads_lookup: "reads (fs_lookup pg sb dir name) (fs_lookup plain_page sb dir name)"
  unfolding fs_lookup_def by (auto split: option.split intro!: reads_rules reads_list reads_inode)

lemma reads_root: "reads (fs_root pg sb) (fs_root plain_page sb)"
  unfolding fs_root_def by (auto intro!: reads_rules reads_inode)

lemma reads_mount: "(\<And>s. ok s \<Longrightarrow> blocks s = snd (content s)) \<Longrightarrow> reads (fs_mount pg blocks) (fs_mount plain_page snd)"
  unfolding fs_mount_def by (intro reads_bind reads_leaf reads_page reads_pending reads_gets) (auto intro!: reads_leaf)

end

subsection \<open>The two providers\<close>

lemma slice_block: "slice_at bytes (b * BLOCK) BLOCK = (if b < length bytes div BLOCK then Some (block_at bytes b) else None)"
  using below_blocks [of b "length bytes"] div_le_mono [of "b * BLOCK + BLOCK" "length bytes" BLOCK]
  by (auto simp: slice_at_def block_at_def)

definition image_content :: "u8 list \<Rightarrow> plain" where
  "image_content bytes = (block_at bytes, length bytes div BLOCK)"

interpretation image: pages image_page "\<lambda>_. True" image_content "\<lambda>_. False" "(=)"
  by unfold_locales (auto simp: image_page_def slice_block plain_page_def image_content_def split: if_splits)

definition cache_content :: "cache \<Rightarrow> plain" where
  "cache_content c = (view c, cblocks c)"

definition cache_ready :: "cache \<Rightarrow> bool" where
  "cache_ready c \<longleftrightarrow> cache_ok c \<and> spare c"

interpretation cached: pages page cache_ready cache_content stopped settles
proof
  show "cache_ready s \<Longrightarrow> settles s s" for s by (simp add: cache_ready_def)
  show "settles s t \<Longrightarrow> settles t u \<Longrightarrow> settles s u" for s t u by (rule settles_trans)
  show "cache_ready t \<and> cache_content t = cache_content s \<and> (stopped s \<longrightarrow> stopped t)" if "cache_ready s" "settles s t" for s t
    using that spare_evolves [of s t] by (simp add: cache_ready_def cache_content_def settles_def evolves_def)
  show "settles s t \<and> (r = fst (plain_page b (cache_content s)) \<or> r = Error Interrupted \<and> stopped t)" if "cache_ready s" "page b s = (r, t)" for s b r t
  proof -
    from that have "cache_ok s" "page b s = (r, t)" by (auto simp: cache_ready_def)
    then show ?thesis
      by (cases rule: page_cases) (use that(1) in \<open>auto simp: plain_page_def cache_content_def refused_def cache_ready_def\<close>)
  qed
qed

end
