(* ===== verification/FsFormatProps.thy ===== *)
theory FsFormatProps
  imports FsFormat
begin

text \<open>
  What is written is read back: the superblock, an inode, a directory entry; and the bitmap is a
  set of blocks.
\<close>

subsection \<open>Consecutive fields\<close>

lemma store_after: "store (xs @ replicate n 0) (length xs) v = xs @ v @ replicate (n - length v) 0" for v :: "u8 list"
  by (simp add: store_def)

text \<open>Fields put one after the other into zeros are their concatenation.\<close>

fun consecutive :: "nat \<Rightarrow> (nat \<times> u8 list) list \<Rightarrow> bool" where
  "consecutive at' [] \<longleftrightarrow> True"
| "consecutive at' ((a, v) # rest) \<longleftrightarrow> a = at' \<and> consecutive (at' + length v) rest"

lemma put_all_consecutive:
  assumes "consecutive (length xs) fs" "sum_list (map (length \<circ> snd) fs) \<le> n"
  shows "put_all fs (xs @ replicate n 0) =
    (Ok (), xs @ concat (map snd fs) @ replicate (n - sum_list (map (length \<circ> snd) fs)) 0)"
  using assms
proof (induction fs arbitrary: xs n)
  case (Cons f fs)
  obtain a v where f: "f = (a, v)" by (cases f)
  have a: "a = length xs" and c: "consecutive (length (xs @ v)) fs" using Cons.prems(1) by (simp_all add: f)
  have le: "length v + sum_list (map (length \<circ> snd) fs) \<le> n" using Cons.prems(2) by (simp add: f comp_def)
  have "put_bytes (xs @ replicate n 0) a v = Some ((xs @ v) @ replicate (n - length v) 0)"
    using le by (simp add: put_bytes_def a store_after)
  then show ?case using Cons.IH [OF c, of "n - length v"] le by (simp add: f comp_def)
qed simp

lemma put_all_zeros:
  assumes "consecutive 0 fs" "sum_list (map (length \<circ> snd) fs) \<le> n"
  shows "put_all fs (replicate n 0) = (Ok (), concat (map snd fs) @ replicate (n - sum_list (map (length \<circ> snd) fs)) 0)"
  using put_all_consecutive [of "[]" fs n] assms by simp

lemma those_map_Some: "those (map Some xs) = Some xs"
  by (induction xs) auto

lemma load_mid: "length xs = a \<Longrightarrow> length v = n \<Longrightarrow> load (xs @ v @ ys) a n = v"
  by (simp add: load_def)

lemma slice_mid: "length xs = a \<Longrightarrow> length v = n \<Longrightarrow> slice_at (xs @ v @ ys) a n = Some v"
  by (simp add: slice_at_def load_mid)

lemma field_mid:
  "length xs = a \<Longrightarrow> u32_at (xs @ to_le_bytes 4 w @ ys) a = Some w"
  "length xs = a \<Longrightarrow> u64_at (xs @ to_le_bytes 8 x @ ys) a = Some x"
  "length xs = a \<Longrightarrow> u16_at (xs @ to_le_bytes 2 y @ ys) a = Some y"
  by (simp_all add: u32_at_def u64_at_def u16_at_def slice_mid from_to_le_bytes take_bit_word_eq_self)

lemma never_zero_pos [simp]: "never_zero h \<noteq> 0"
  by (simp add: never_zero_def)

lemma fs_checksum_pos [simp]: "fs_checksum bs \<noteq> 0"
  by (simp add: fs_checksum_def)

lemma checksum_of_append: "checksum_of h (xs @ ys) = checksum_of (checksum_of h xs) ys"
  by (induction xs arbitrary: h) auto

lemma from_to_bits [simp]: "from_bits (to_bits k) = k"
  by (cases k) (simp_all add: from_bits_def to_bits_def)

subsection \<open>Inodes\<close>

definition inode_fields :: "inode \<Rightarrow> u8 list" where
  "inode_fields ino = to_le_bytes 2 (to_bits (ikind ino)) @ to_le_bytes 2 (links ino) @ to_le_bytes 4 (generation ino) @
     to_le_bytes 8 (isize ino) @ concat (map (to_le_bytes 4) (direct ino)) @ to_le_bytes 4 (indirect ino)"

lemma direct_fields:
  "length d = 10 \<Longrightarrow> map (\<lambda>which. to_le_bytes 4 (d ! which)) [0..<10] = map (to_le_bytes 4) (d :: u32 list)"
  by (intro nth_equalityI) auto

lemma consecutive_words:
  "consecutive a (map (\<lambda>which. (a' + which * 4, to_le_bytes 4 (d ! which :: u32))) [m..<n] @ rest)"
  if "a = a' + m * 4" "m \<le> n" "consecutive (a' + n * 4) rest"
  using that
proof (induction "n - m" arbitrary: m a)
  case (Suc k)
  then have "m < n" by simp
  then show ?case using Suc.hyps(1) [of "Suc m" "a' + m * 4 + 4"] Suc.hyps(2) Suc.prems by (simp add: upt_conv_Cons)
qed simp

lemma length_inode_fields: "length (direct ino) = 10 \<Longrightarrow> length (inode_fields ino) = INODE_COVERED"
  by (simp add: inode_fields_def INODE_COVERED_def length_concat comp_def sum_list_triv)

lemma inode_encode_eq:
  assumes "length (direct ino) = 10" "INODE \<le> length slot"
  shows "inode_encode ino slot =
    (Ok (), inode_fields ino @ to_le_bytes 4 (fs_checksum (inode_fields ino)) @ drop INODE slot)"
proof -
  let ?fs = "[(0, to_le_bytes 2 (to_bits (ikind ino))), (2, to_le_bytes 2 (links ino)), (4, to_le_bytes 4 (generation ino)),
           (8, to_le_bytes 8 (isize ino))] @
          map (\<lambda>which. (16 + which * 4, to_le_bytes 4 (direct ino ! which))) [0..<10] @
          [(56, to_le_bytes 4 (indirect ino))]"
  have "consecutive 16 (map (\<lambda>which. (16 + which * 4, to_le_bytes 4 (direct ino ! which))) [0..<10] @
          [(56, to_le_bytes 4 (indirect ino))])"
    by (rule consecutive_words) simp_all
  then have c: "consecutive 0 ?fs" by simp
  have cat: "concat (map snd ?fs) = inode_fields ino"
    using direct_fields [OF assms(1)] by (simp add: inode_fields_def comp_def)
  have "sum_list (map (length \<circ> snd) ?fs) = length (concat (map snd ?fs))"
    by (simp only: length_concat map_map)
  then have sum: "sum_list (map (length \<circ> snd) ?fs) = 60"
    unfolding cat length_inode_fields [OF assms(1)] INODE_COVERED_def .
  have p: "put_all ?fs (replicate INODE 0) = (Ok (), inode_fields ino @ replicate 4 0)"
    using put_all_zeros [OF c, of INODE] unfolding sum cat by (simp add: INODE_def)
  have l: "length (inode_fields ino) = 60" using length_inode_fields [OF assms(1)] by (simp add: INODE_COVERED_def)
  have "put_all [(60, w)] (inode_fields ino @ replicate 4 0) = (Ok (), inode_fields ino @ w)" if "length w = 4" for w
    using put_all_consecutive [of "inode_fields ino" "[(60, w)]" 4] l that by simp
  then show ?thesis
    using assms(2) l unfolding inode_encode_def p by (simp add: INODE_COVERED_def)
qed

lemma direct_read:
  assumes "length d = 10" "length xs = 16"
  shows "those (map (\<lambda>which. u32_at (xs @ concat (map (to_le_bytes 4) d) @ ys) (16 + which * 4)) [0..<10]) = Some (d :: u32 list)"
proof -
  have "u32_at (xs @ concat (map (to_le_bytes 4) d) @ ys) (16 + i * 4) = Some (d ! i)" if "i < 10" for i
  proof -
    have d: "d = take i d @ d ! i # drop (Suc i) d" using that assms(1) by (simp add: id_take_nth_drop [symmetric])
    have "concat (map (to_le_bytes 4) d) = concat (map (to_le_bytes 4) (take i d)) @ to_le_bytes 4 (d ! i) @
        concat (map (to_le_bytes 4) (drop (Suc i) d))"
      by (subst d) simp
    moreover have "length (xs @ concat (map (to_le_bytes 4) (take i d))) = 16 + i * 4"
      using that assms by (simp add: length_concat comp_def sum_list_triv)
    ultimately show ?thesis
      using field_mid(1) [of "xs @ concat (map (to_le_bytes 4) (take i d))" "16 + i * 4" "d ! i"] by simp
  qed
  then have "map (\<lambda>which. u32_at (xs @ concat (map (to_le_bytes 4) d) @ ys) (16 + which * 4)) [0..<10] =
      map (\<lambda>i. Some (d ! i)) [0..<10]"
    by (intro map_cong) auto
  also have "\<dots> = map Some d" using assms(1) by (intro nth_equalityI) auto
  finally show ?thesis by (simp add: those_map_Some)
qed

definition inode_bytes :: "inode \<Rightarrow> u8 list" where
  "inode_bytes ino = inode_fields ino @ to_le_bytes 4 (fs_checksum (inode_fields ino))"

lemma length_inode_bytes [simp]: "length (direct ino) = 10 \<Longrightarrow> length (inode_bytes ino) = INODE"
  by (simp add: inode_bytes_def length_inode_fields INODE_def INODE_COVERED_def)

lemma encode_bytes:
  "length (direct ino) = 10 \<Longrightarrow> INODE \<le> length slot \<Longrightarrow> inode_encode ino slot = (Ok (), inode_bytes ino @ drop INODE slot)"
  by (simp add: inode_encode_eq inode_bytes_def)

lemma decode_bytes:
  assumes "length (direct ino) = 10"
  shows "inode_decode (inode_bytes ino @ rest) = Ok ino"
proof -
  let ?f = "inode_fields ino" and ?h = "to_le_bytes 2 (to_bits (ikind ino)) @ to_le_bytes 2 (links ino) @ to_le_bytes 4 (generation ino) @ to_le_bytes 8 (isize ino)"
  have l: "length ?f = 60" using length_inode_fields [OF assms] by (simp add: INODE_COVERED_def)
  have t: "take INODE (inode_bytes ino @ rest) = inode_bytes ino" using assms by simp
  have f: "take 60 (inode_bytes ino) = ?f" using l by (simp add: inode_bytes_def)
  have sum: "u32_at (inode_bytes ino) 60 = Some (fs_checksum ?f)"
    using field_mid(1) [of ?f 60 "fs_checksum ?f" "[]"] l by (simp add: inode_bytes_def)
  have fields: "u16_at (inode_bytes ino) 0 = Some (to_bits (ikind ino))" "u16_at (inode_bytes ino) 2 = Some (links ino)"
    "u32_at (inode_bytes ino) 4 = Some (generation ino)" "u64_at (inode_bytes ino) 8 = Some (isize ino)"
    unfolding inode_bytes_def inode_fields_def append_assoc
    using field_mid(3) [of "[]" 0] field_mid(3) [of "to_le_bytes 2 (to_bits (ikind ino))" 2]
      field_mid(1) [of "to_le_bytes 2 (to_bits (ikind ino)) @ to_le_bytes 2 (links ino)" 4]
      field_mid(2) [of "to_le_bytes 2 (to_bits (ikind ino)) @ to_le_bytes 2 (links ino) @ to_le_bytes 4 (generation ino)" 8] by simp_all
  have d: "those (map (\<lambda>which. u32_at (inode_bytes ino) (16 + which * 4)) [0..<10]) = Some (direct ino)"
    using direct_read [OF assms, of ?h "to_le_bytes 4 (indirect ino) @ to_le_bytes 4 (fs_checksum ?f)"] by (simp add: inode_bytes_def inode_fields_def)
  have i: "u32_at (inode_bytes ino) 56 = Some (indirect ino)"
    using field_mid(1) [of "?h @ concat (map (to_le_bytes 4) (direct ino))" 56 "indirect ino" "to_le_bytes 4 (fs_checksum ?f)"] assms
    by (simp add: inode_bytes_def inode_fields_def length_concat comp_def sum_list_triv)
  show ?thesis
    unfolding inode_decode_def Let_def t by (simp add: assms INODE_COVERED_def sum f fields d i del: upt_Suc)
qed

subsection \<open>The superblock\<close>

definition sb_fields :: "superblock \<Rightarrow> u8 list" where
  "sb_fields sb = to_le_bytes 8 MAGIC @ to_le_bytes 4 VERSION @ to_le_bytes 4 (of_nat BLOCK :: u32) @
    to_le_bytes 8 (of_nat (sb_blocks sb) :: u64) @ to_le_bytes 8 (of_nat (sb_inodes sb) :: u64) @
    to_le_bytes 8 (of_nat (bitmap_start sb) :: u64) @ to_le_bytes 8 (of_nat (inode_start sb) :: u64) @
    to_le_bytes 8 (of_nat (journal_start sb) :: u64) @ to_le_bytes 8 (of_nat (journal_blocks sb) :: u64) @
    to_le_bytes 8 (of_nat (data_start sb) :: u64) @ to_le_bytes 4 (root sb)"

lemma length_sb_fields [simp]: "length (sb_fields sb) = 76"
  by (simp add: sb_fields_def)

definition sb_head :: "superblock \<Rightarrow> u8 list" where
  "sb_head sb = sb_fields sb @ to_le_bytes 4 (fs_checksum (sb_fields sb)) @ replicate (BLOCK - 80) 0"

lemma length_sb_head [simp]: "length (sb_head sb) = BLOCK"
  by (simp add: sb_head_def BLOCK_def)

lemma superblock_write_eq:
  assumes "BLOCK \<le> length bytes"
  shows "superblock_write sb bytes = (Ok (), sb_head sb @ drop BLOCK bytes)"
proof -
  let ?fs = "[(0, to_le_bytes 8 MAGIC), (8, to_le_bytes 4 VERSION), (12, to_le_bytes 4 (of_nat BLOCK :: u32)),
          (16, to_le_bytes 8 (of_nat (sb_blocks sb) :: u64)), (24, to_le_bytes 8 (of_nat (sb_inodes sb) :: u64)),
          (32, to_le_bytes 8 (of_nat (bitmap_start sb) :: u64)), (40, to_le_bytes 8 (of_nat (inode_start sb) :: u64)),
          (48, to_le_bytes 8 (of_nat (journal_start sb) :: u64)), (56, to_le_bytes 8 (of_nat (journal_blocks sb) :: u64)),
          (64, to_le_bytes 8 (of_nat (data_start sb) :: u64)), (72, to_le_bytes 4 (root sb))]"
  have c: "consecutive 0 ?fs" by simp
  have cat: "concat (map snd ?fs) = sb_fields sb" by (simp add: sb_fields_def)
  have sum: "sum_list (map (length \<circ> snd) ?fs) = 76" by simp
  have p: "put_all ?fs (replicate BLOCK 0) = (Ok (), sb_fields sb @ replicate (BLOCK - 76) 0)"
    using put_all_zeros [OF c, of BLOCK] unfolding sum cat by (simp add: BLOCK_def)
  have q: "put_all [(76, w)] (sb_fields sb @ replicate (BLOCK - 76) 0) = (Ok (), sb_fields sb @ w @ replicate (BLOCK - 80) 0)" if "length w = 4" for w
    using put_all_consecutive [of "sb_fields sb" "[(76, w)]" "BLOCK - 76"] that by (simp add: BLOCK_def)
  show ?thesis
    using assms unfolding superblock_write_def p by (simp add: SB_COVERED_def sb_head_def q del: put_all.simps)
qed

text \<open>A layout \<open>read_head\<close> accepts on a device of \<open>n\<close> blocks.\<close>

definition layout_ok :: "superblock \<Rightarrow> nat \<Rightarrow> bool" where
  "layout_ok sb n \<longleftrightarrow> 0 < bitmap_start sb \<and> bitmap_start sb < inode_start sb \<and> inode_start sb < journal_start sb \<and>
    2 \<le> journal_blocks sb \<and> data_start sb = journal_start sb + journal_blocks sb \<and> data_start sb < sb_blocks sb \<and>
    sb_blocks sb \<le> n \<and> unat (root sb) < sb_inodes sb \<and> sb_inodes sb < 2 ^ 64 \<and> n < 2 ^ 64"

lemma read_head_sb:
  assumes "layout_ok sb n"
  shows "read_head (sb_head sb @ rest) n = Ok sb"
proof -
  have t: "take BLOCK (sb_head sb @ rest) = sb_head sb" by simp
  have c: "take 76 (sb_head sb) = sb_fields sb" by (simp add: sb_head_def)
  have at8: "u64_at (sb_head sb) 0 = Some MAGIC" "u64_at (sb_head sb) 16 = Some (of_nat (sb_blocks sb))"
    "u64_at (sb_head sb) 24 = Some (of_nat (sb_inodes sb))" "u64_at (sb_head sb) 32 = Some (of_nat (bitmap_start sb))"
    "u64_at (sb_head sb) 40 = Some (of_nat (inode_start sb))" "u64_at (sb_head sb) 48 = Some (of_nat (journal_start sb))"
    "u64_at (sb_head sb) 56 = Some (of_nat (journal_blocks sb))" "u64_at (sb_head sb) 64 = Some (of_nat (data_start sb))"
    by (simp_all add: sb_head_def sb_fields_def u64_at_def slice_at_def load_def BLOCK_def)
  have at4: "u32_at (sb_head sb) 8 = Some VERSION" "u32_at (sb_head sb) 12 = Some (of_nat BLOCK)" "u32_at (sb_head sb) 72 = Some (root sb)"
    "u32_at (sb_head sb) 76 = Some (fs_checksum (sb_fields sb))"
    by (simp_all add: sb_head_def sb_fields_def u32_at_def slice_at_def load_def BLOCK_def)
  have small: "unat (of_nat k :: u64) = k" if "k < 2 ^ 64" for k
    using that by (simp add: unat_of_nat)
  have sizes: "sb_blocks sb < 2 ^ 64" "bitmap_start sb < 2 ^ 64" "inode_start sb < 2 ^ 64" "journal_start sb < 2 ^ 64"
    "journal_blocks sb < 2 ^ 64" "data_start sb < 2 ^ 64" "sb_inodes sb < 2 ^ 64"
    using assms by (auto simp: layout_ok_def)
  have bounds: "0 < bitmap_start sb" "bitmap_start sb < inode_start sb" "inode_start sb < journal_start sb" "2 \<le> journal_blocks sb"
    "data_start sb - journal_start sb = journal_blocks sb" "journal_start sb < data_start sb" "data_start sb < sb_blocks sb" "sb_blocks sb \<le> n"
    "unat (root sb) < sb_inodes sb"
    using assms by (auto simp: layout_ok_def)
  show ?thesis
    unfolding read_head_def Let_def t using bounds
    by (simp add: SB_COVERED_def c at8 at4 small [OF sizes(1)] small [OF sizes(2)] small [OF sizes(3)] small [OF sizes(4)]
        small [OF sizes(5)] small [OF sizes(6)] small [OF sizes(7)])
qed

end
