(* ===== verification/FsLog.thy ===== *)
theory FsLog
  imports FsPages FsFormatProps
begin

text \<open>
  What the log area of a device says. \<open>blank\<close>: its commit block is not one, so nothing is pending
  whatever the payload holds. \<open>logged\<close>: a transaction is committed, and these are the blocks it
  carries with their homes. A commit block that \<open>build_commit\<close> makes is one that \<open>committed\<close> reads.
\<close>

subsection \<open>Superblocks\<close>

text \<open>
  The layouts \<open>format\<close> writes: the regions in order, the inode table inside its region, a bit for
  every block, and a log with room for a whole transaction.
\<close>

definition sb_sound :: "superblock \<Rightarrow> nat \<Rightarrow> bool" where
  "sb_sound sb n \<longleftrightarrow> 0 < bitmap_start sb \<and> bitmap_start sb < inode_start sb \<and> inode_start sb < journal_start sb \<and>
    MAX_STAGED < journal_blocks sb \<and> data_start sb = journal_start sb + journal_blocks sb \<and>
    data_start sb < sb_blocks sb \<and> sb_blocks sb \<le> n \<and> n < 2 ^ 32 \<and>
    inode_start sb * BLOCK + sb_inodes sb * INODE \<le> journal_start sb * BLOCK \<and>
    sb_blocks sb \<le> (inode_start sb - bitmap_start sb) * BLOCK * 8"

definition log_area :: "superblock \<Rightarrow> nat set" where
  "log_area sb = {journal_start sb..<data_start sb}"

definition payload :: "superblock \<Rightarrow> nat set" where
  "payload sb = {journal_start sb + 1..<data_start sb}"

definition log_slot :: "superblock \<Rightarrow> nat \<Rightarrow> nat" where
  "log_slot sb i = journal_start sb + 1 + i"

lemma log_area_payload: "sb_sound sb n \<Longrightarrow> log_area sb = insert (journal_start sb) (payload sb)"
  by (auto simp: sb_sound_def log_area_def payload_def)

lemma log_slot_in: "sb_sound sb n \<Longrightarrow> i < MAX_STAGED \<Longrightarrow> log_slot sb i \<in> payload sb"
  by (simp add: sb_sound_def payload_def log_slot_def)

lemma journal_not_payload [simp]: "journal_start sb \<notin> payload sb"
  by (simp add: payload_def)

lemma journal_in_log [simp]: "sb_sound sb n \<Longrightarrow> journal_start sb \<in> log_area sb"
  by (auto simp: sb_sound_def log_area_def)

lemma payload_below: "sb_sound sb n \<Longrightarrow> b \<in> log_area sb \<Longrightarrow> b < n"
  by (auto simp: sb_sound_def log_area_def)

lemma to_u32_journal [simp]: "sb_sound sb n \<Longrightarrow> to_u32 (journal_start sb) = Ok (journal_start sb)"
  by (auto simp: sb_sound_def to_u32_def)

lemma payload_block_eq [simp]: "sb_sound sb n \<Longrightarrow> i < MAX_STAGED \<Longrightarrow> payload_block (journal_start sb) i = Ok (log_slot sb i)"
  by (auto simp: sb_sound_def payload_block_def add_u32_def log_slot_def)

subsection \<open>The log area decides what is committed\<close>

lemma bind_of_result [simp]: "bind_act (of_result (Inr x)) f = f x" "bind_act (of_result (Inl e)) f s = (Inl e, s)"
  by (simp_all add: bind_act_def of_result_def fun_eq_iff)

lemma bind_plain_page [simp]:
  "b < snd s \<Longrightarrow> bind_act (plain_page b) f s = f (fst s b) s"
  by (simp add: bind_act_def plain_page_def)

lemma bind_ret [simp]: "bind_act (ret x) f = f x"
  by (simp add: bind_act_def ret_def fun_eq_iff)

fun hash_of :: "(nat \<Rightarrow> u8 list) \<Rightarrow> nat list \<Rightarrow> u32 \<Rightarrow> u32" where
  "hash_of d [] hash = hash"
| "hash_of d (b # bs) hash = hash_of d bs (checksum_of hash (d b))"

lemma hash_of_cong: "(\<And>b. b \<in> set bs \<Longrightarrow> d b = d' b) \<Longrightarrow> hash_of d bs hash = hash_of d' bs hash"
  by (induction bs arbitrary: hash) auto

lemma hash_logged_plain:
  assumes "sb_sound sb n" "\<And>i. i \<in> set is \<Longrightarrow> i < MAX_STAGED"
  shows "hash_logged plain_page (journal_start sb) is hash (d, n) = (Ok (hash_of d (map (log_slot sb) is) hash), (d, n))"
  using assms(2)
proof (induction "is" arbitrary: hash)
  case (Cons i "is")
  have "log_slot sb i < n"
    using log_slot_in [OF assms(1), of i] payload_below [OF assms(1)] log_area_payload [OF assms(1)] Cons.prems by auto
  then show ?case using Cons assms(1) by simp
qed (simp add: ret_def)

text \<open>The pending transaction a device's log area describes, computed from its blocks.\<close>

definition commit_in :: "superblock \<Rightarrow> (nat \<Rightarrow> u8 list) \<Rightarrow> commit option" where
  "commit_in sb d =
    (let head = d (journal_start sb) in
     case (u64_at head 0, u64_at head 8, u32_at head 16) of
       (Some magic, Some seq, Some count) \<Rightarrow>
         if magic \<noteq> JOURNAL_MAGIC \<or> seq = 0 \<or> count = 0 \<or> MAX_STAGED < unat count then None
         else if u32_at head 20 \<noteq> Some (never_zero (hash_of d (map (log_slot sb) [0..<unat count])
                (checksum_of (checksum_of FNV (load head 0 20)) (load head TABLE (unat count * 4))))) then None
         else Some \<lparr>c_sequence = seq, c_count = unat count\<rparr>
     | _ \<Rightarrow> None)"

lemma transaction_checksum_plain:
  assumes "sb_sound sb n" "length (d (journal_start sb)) = BLOCK" "k \<le> MAX_STAGED"
  shows "transaction_checksum plain_page sb k (d, n) =
    (Ok (never_zero (hash_of d (map (log_slot sb) [0..<k])
      (checksum_of (checksum_of FNV (load (d (journal_start sb)) 0 20)) (load (d (journal_start sb)) TABLE (k * 4))))), (d, n))"
proof -
  have J: "journal_start sb < n" using payload_below [OF assms(1) journal_in_log [OF assms(1)]] .
  have sl: "slice_at (d (journal_start sb)) 0 20 = Some (load (d (journal_start sb)) 0 20)"
    using assms(2) by (simp add: slice_at_def BLOCK_def)
  have tb: "slice_at (d (journal_start sb)) TABLE (k * 4) = Some (load (d (journal_start sb)) TABLE (k * 4))"
    using assms(2,3) by (simp add: slice_at_def BLOCK_def TABLE_def MAX_STAGED_def)
  have "bind_act (hash_logged plain_page (journal_start sb) [0..<k] h) (\<lambda>hash. ret (never_zero hash)) (d, n) =
      (Ok (never_zero (hash_of d (map (log_slot sb) [0..<k]) h)), (d, n))" for h
    using hash_logged_plain [OF assms(1), of "[0..<k]"] assms(3) by (simp add: bind_act_def ret_def)
  then show ?thesis using J assms(1) by (simp add: transaction_checksum_def sl tb or_range_def)
qed

lemma committed_plain:
  assumes "sb_sound sb n" "length (d (journal_start sb)) = BLOCK"
  shows "fst (committed plain_page sb (d, n)) = Ok (commit_in sb d)"
proof -
  have J: "journal_start sb < n" using payload_below [OF assms(1) journal_in_log [OF assms(1)]] .
  have jb: "\<not> journal_blocks sb \<le> k" if "k \<le> MAX_STAGED" for k using assms(1) that by (auto simp: sb_sound_def)
  show ?thesis
    using J assms(1) jb
    by (auto simp: committed_def commit_in_def bind_act_def [of "transaction_checksum plain_page sb k" for k]
        transaction_checksum_plain [where d = d] assms(2) Let_def ret_def not_less split: option.split)
qed

lemma commit_in_cong: "(\<And>b. b \<in> log_area sb \<Longrightarrow> d' b = d b) \<Longrightarrow> sb_sound sb n \<Longrightarrow> commit_in sb d' = commit_in sb d"
proof -
  assume same: "\<And>b. b \<in> log_area sb \<Longrightarrow> d' b = d b" and sb: "sb_sound sb n"
  have J: "d' (journal_start sb) = d (journal_start sb)" using same sb by simp
  have "hash_of d' (map (log_slot sb) [0..<k]) hash = hash_of d (map (log_slot sb) [0..<k]) hash" if "k \<le> MAX_STAGED" for k hash
    using that log_slot_in [OF sb] log_area_payload [OF sb] by (intro hash_of_cong same) auto
  then show ?thesis
    unfolding commit_in_def J by (auto simp: Let_def not_less split: option.split)
qed

definition blank :: "superblock \<Rightarrow> (nat \<Rightarrow> u8 list) \<Rightarrow> bool" where
  "blank sb d \<longleftrightarrow> u64_at (d (journal_start sb)) 0 \<noteq> Some JOURNAL_MAGIC"

lemma commit_in_blank: "blank sb d \<Longrightarrow> commit_in sb d = None"
  by (auto simp: blank_def commit_in_def Let_def split: option.split)

lemma replicate_8: "replicate 8 x = [x, x, x, x, x, x, x, x]"
  by (simp add: numeral_eq_Suc)

lemma blank_zero: "d (journal_start sb) = replicate BLOCK 0 \<Longrightarrow> blank sb d"
proof -
  have "u64_at (replicate BLOCK 0) 0 = Some 0"
    by (simp add: u64_at_def slice_at_def load_def BLOCK_def replicate_8)
  moreover have "JOURNAL_MAGIC \<noteq> 0" by (simp add: JOURNAL_MAGIC_def)
  ultimately show "d (journal_start sb) = replicate BLOCK 0 \<Longrightarrow> blank sb d" by (simp add: blank_def)
qed

subsection \<open>A commit block is read as it was built\<close>

definition table_of :: "nat list \<Rightarrow> u8 list" where
  "table_of homes = concat (map (\<lambda>b. to_le_bytes 4 (of_nat b :: u32)) homes)"

definition fields_of :: "u64 \<Rightarrow> nat list \<Rightarrow> u8 list" where
  "fields_of seq homes = to_le_bytes 8 JOURNAL_MAGIC @ to_le_bytes 8 seq @ to_le_bytes 4 (of_nat (length homes) :: u32)"

definition hash_for :: "superblock \<Rightarrow> (nat \<Rightarrow> u8 list) \<Rightarrow> u64 \<Rightarrow> nat list \<Rightarrow> u32" where
  "hash_for sb d seq homes = never_zero (hash_of d (map (log_slot sb) [0..<length homes])
    (checksum_of (checksum_of FNV (fields_of seq homes)) (table_of homes)))"

definition head_for :: "superblock \<Rightarrow> (nat \<Rightarrow> u8 list) \<Rightarrow> u64 \<Rightarrow> nat list \<Rightarrow> u8 list" where
  "head_for sb d seq homes = fields_of seq homes @ to_le_bytes 4 (hash_for sb d seq homes) @ table_of homes @
     replicate (HEAD - TABLE - length homes * 4) 0"

lemma length_table_of [simp]: "length (table_of homes) = length homes * 4"
  by (simp add: table_of_def length_concat comp_def sum_list_triv)

lemma length_fields_of [simp]: "length (fields_of seq homes) = 20"
  by (simp add: fields_of_def)

lemma length_head_for: "length homes \<le> MAX_STAGED \<Longrightarrow> length (head_for sb d seq homes) = HEAD"
  by (simp add: head_for_def HEAD_def TABLE_def)

lemma put_all_append:
  "put_all (fs @ gs) bytes = (case put_all fs bytes of (Inl e, bytes) \<Rightarrow> (Inl e, bytes) | (Inr _, bytes) \<Rightarrow> put_all gs bytes)"
  by (induction fs bytes rule: put_all.induct) (auto split: option.split)

lemma table_fields:
  "consecutive (TABLE + k * 4) (map (\<lambda>(index, b). (TABLE + index * 4, to_le_bytes 4 (of_nat b :: u32))) (enumerate k homes)) \<and>
   concat (map snd (map (\<lambda>(index, b). (TABLE + index * 4, to_le_bytes 4 (of_nat b :: u32))) (enumerate k homes))) = table_of homes"
proof (induction homes arbitrary: k)
  case (Cons b homes)
  have "TABLE + k * 4 + 4 = TABLE + Suc k * 4" by simp
  then show ?case using Cons [of "Suc k"] by (simp add: table_of_def ac_simps)
qed (simp add: table_of_def)

lemma put_commit_fields:
  assumes "length homes \<le> MAX_STAGED"
  shows "put_all (commit_fields seq homes) (replicate HEAD 0) =
    (Ok (), fields_of seq homes @ replicate 4 0 @ table_of homes @ replicate (HEAD - TABLE - length homes * 4) 0)"
proof -
  let ?fs = "[(0, to_le_bytes 8 JOURNAL_MAGIC), (8, to_le_bytes 8 seq), (16, to_le_bytes 4 (of_nat (length homes) :: u32))]"
  let ?gs = "map (\<lambda>(index, b). (TABLE + index * 4, to_le_bytes 4 (of_nat b :: u32))) (enumerate 0 homes)"
  have first: "put_all ?fs (replicate HEAD 0) = (Ok (), fields_of seq homes @ replicate (HEAD - 20) 0)"
    using put_all_zeros [of ?fs HEAD] by (simp add: fields_of_def HEAD_def TABLE_def MAX_STAGED_def)
  have split: "replicate (HEAD - 20) 0 = replicate 4 (0 :: u8) @ replicate (HEAD - TABLE) 0"
    by (simp add: HEAD_def TABLE_def MAX_STAGED_def flip: replicate_add)
  note cs = table_fields [of 0 homes]
  have "sum_list (map (length \<circ> snd) ?gs) = length (concat (map snd ?gs))"
    by (simp only: length_concat map_map comp_assoc)
  then have sum: "sum_list (map (length \<circ> snd) ?gs) = length homes * 4" using cs by simp
  have "put_all ?gs ((fields_of seq homes @ replicate 4 0) @ replicate (HEAD - TABLE) 0) =
      (Ok (), (fields_of seq homes @ replicate 4 0) @ concat (map snd ?gs) @
         replicate (HEAD - TABLE - sum_list (map (length \<circ> snd) ?gs)) 0)"
    by (rule put_all_consecutive) (use cs sum assms in \<open>simp_all add: TABLE_def HEAD_def\<close>)
  then have "put_all ?gs (fields_of seq homes @ replicate 4 0 @ replicate (HEAD - TABLE) 0) =
      (Ok (), fields_of seq homes @ replicate 4 0 @ table_of homes @ replicate (HEAD - TABLE - length homes * 4) 0)"
    using cs sum by (simp only: append_assoc)
  then show ?thesis
    unfolding commit_fields_def put_all_append first split by simp
qed

lemma build_commit_plain:
  assumes sb: "sb_sound sb n" and k: "homes \<noteq> []" "length homes \<le> MAX_STAGED"
  shows "fst (build_commit plain_page sb seq homes (d, n)) = Ok (head_for sb d seq homes)"
proof -
  define zs :: "u8 list" where "zs = replicate (HEAD - TABLE - length homes * 4) 0"
  let ?mid = "fields_of seq homes @ replicate 4 0 @ table_of homes @ zs"
  have ld: "load ?mid TABLE (length homes * 4) = table_of homes"
    by (simp add: load_def TABLE_def)
  have jb: "\<not> journal_blocks sb \<le> length homes" using sb k(2) by (auto simp: sb_sound_def)
  have put: "put_all [(20, w)] ?mid = (Ok (), fields_of seq homes @ w @ table_of homes @ zs)" if "length w = 4" for w
    using that by (simp add: put_bytes_def store_def)
  have h: "hash_logged plain_page (journal_start sb) [0..<length homes] x (d, n) =
      (Ok (hash_of d (map (log_slot sb) [0..<length homes]) x), (d, n))" for x
    by (rule hash_logged_plain [OF sb]) (use k(2) in simp)
  show ?thesis
    using k jb sb
    by (simp add: build_commit_def put_commit_fields [OF k(2), folded zs_def] ld put head_for_def [folded zs_def] hash_for_def
        h bind_act_def [of "hash_logged a b c e" for a b c e] ret_def zs_def [symmetric]
        del: put_all.simps diff_diff_left)
qed

lemma commit_in_head:
  assumes sb: "sb_sound sb n" and k: "homes \<noteq> []" "length homes \<le> MAX_STAGED" and seq: "seq \<noteq> 0"
    and J: "d' (journal_start sb) = head_for sb d seq homes @ rest"
    and same: "\<And>b. b \<in> payload sb \<Longrightarrow> d' b = d b"
  shows "commit_in sb d' = Some \<lparr>c_sequence = seq, c_count = length homes\<rparr>"
proof -
  let ?tail = "to_le_bytes 4 (hash_for sb d seq homes) @ table_of homes @ replicate (HEAD - TABLE - length homes * 4) 0 @ rest"
  have head: "d' (journal_start sb) = fields_of seq homes @ ?tail" by (simp add: J head_for_def)
  have u: "unat (of_nat (length homes) :: u32) = length homes"
    using k(2) by (simp add: MAX_STAGED_def unat_of_nat take_bit_nat_eq_self)
  have f: "u64_at (d' (journal_start sb)) 0 = Some JOURNAL_MAGIC" "u64_at (d' (journal_start sb)) 8 = Some seq"
    "u32_at (d' (journal_start sb)) 16 = Some (of_nat (length homes))" "u32_at (d' (journal_start sb)) 20 = Some (hash_for sb d seq homes)"
    unfolding head fields_of_def
    using field_mid(2) [of "[]" 0 JOURNAL_MAGIC] field_mid(2) [of "to_le_bytes 8 JOURNAL_MAGIC" 8 seq]
      field_mid(1) [of "to_le_bytes 8 JOURNAL_MAGIC @ to_le_bytes 8 seq" 16 "of_nat (length homes)"]
      field_mid(1) [of "to_le_bytes 8 JOURNAL_MAGIC @ to_le_bytes 8 seq @ to_le_bytes 4 (of_nat (length homes) :: u32)" 20
          "hash_for sb d seq homes"]
    by simp_all
  have ld: "load (d' (journal_start sb)) 0 20 = fields_of seq homes" "load (d' (journal_start sb)) TABLE (length homes * 4) = table_of homes"
    using load_mid [of "[]" 0 "fields_of seq homes" 20]
      load_mid [of "fields_of seq homes @ to_le_bytes 4 (hash_for sb d seq homes)" TABLE "table_of homes" "length homes * 4"]
    by (simp_all add: head TABLE_def)
  have "hash_of d' (map (log_slot sb) [0..<length homes]) h = hash_of d (map (log_slot sb) [0..<length homes]) h" for h
    using k(2) log_slot_in [OF sb] by (intro hash_of_cong same) auto
  moreover have "of_nat (length homes) \<noteq> (0 :: u32)" using u k(1) by (metis length_0_conv unat_0)
  ultimately show ?thesis
    using k seq by (simp add: commit_in_def f u ld hash_for_def)
qed

subsection \<open>The transaction a log carries\<close>

definition overlay :: "(nat \<times> u8 list) list \<Rightarrow> (nat \<Rightarrow> u8 list) \<Rightarrow> nat \<Rightarrow> u8 list" where
  "overlay L d b = (case map_of L b of None \<Rightarrow> d b | Some v \<Rightarrow> v)"

definition home_ok :: "superblock \<Rightarrow> nat \<Rightarrow> bool" where
  "home_ok sb b \<longleftrightarrow> 0 < b \<and> b < sb_blocks sb \<and> b \<notin> log_area sb"

definition log_ok :: "superblock \<Rightarrow> (nat \<times> u8 list) list \<Rightarrow> bool" where
  "log_ok sb L \<longleftrightarrow> L \<noteq> [] \<and> length L \<le> MAX_STAGED \<and> distinct (map fst L) \<and> (\<forall>b \<in> set (map fst L). home_ok sb b)"

definition logged :: "superblock \<Rightarrow> (nat \<times> u8 list) list \<Rightarrow> (nat \<Rightarrow> u8 list) \<Rightarrow> bool" where
  "logged sb L d \<longleftrightarrow> log_ok sb L \<and> (\<exists>seq. commit_in sb d = Some \<lparr>c_sequence = seq, c_count = length L\<rparr>) \<and>
    (\<forall>i < length L. u32_at (d (journal_start sb)) (TABLE + i * 4) = Some (of_nat (fst (L ! i))) \<and> d (log_slot sb i) = snd (L ! i))"

lemma logged_cong:
  assumes "sb_sound sb n" "\<And>b. b \<in> log_area sb \<Longrightarrow> d' b = d b"
  shows "logged sb L d' \<longleftrightarrow> logged sb L d"
proof (cases "log_ok sb L")
  case True
  then have "d' (log_slot sb i) = d (log_slot sb i)" if "i < length L" for i
    using that log_slot_in [OF assms(1), of i] log_area_payload [OF assms(1)] assms(2) by (simp add: log_ok_def)
  moreover have "d' (journal_start sb) = d (journal_start sb)" using assms by simp
  ultimately show ?thesis using commit_in_cong [OF assms(2,1)] by (simp add: logged_def)
qed (simp add: logged_def)

lemma u32_at_table:
  assumes "i < length homes"
  shows "u32_at (fields_of seq homes @ to_le_bytes 4 (w :: u32) @ table_of homes @ rest) (TABLE + i * 4) = Some (of_nat (homes ! i))"
proof -
  have "table_of homes = table_of (take i homes) @ to_le_bytes 4 (of_nat (homes ! i) :: u32) @ table_of (drop (Suc i) homes)"
    using id_take_nth_drop [OF assms] unfolding table_of_def by (metis (no_types, lifting) concat.simps(2) concat_append list.simps(9) map_append)
  moreover have "length (fields_of seq homes @ to_le_bytes 4 w @ table_of (take i homes)) = TABLE + i * 4"
    using assms by (simp add: TABLE_def)
  ultimately show ?thesis
    using field_mid(1) [of "fields_of seq homes @ to_le_bytes 4 w @ table_of (take i homes)" "TABLE + i * 4" "of_nat (homes ! i)"]
    by simp
qed

lemma logged_head:
  assumes sb: "sb_sound sb n" and L: "log_ok sb L" and seq: "seq \<noteq> 0"
    and J: "d' (journal_start sb) = head_for sb d seq (map fst L) @ rest"
    and same: "\<And>b. b \<in> payload sb \<Longrightarrow> d' b = d b"
    and slots: "\<And>i. i < length L \<Longrightarrow> d (log_slot sb i) = snd (L ! i)"
  shows "logged sb L d'"
proof -
  have k: "map fst L \<noteq> []" "length (map fst L) \<le> MAX_STAGED" using L by (simp_all add: log_ok_def)
  have "commit_in sb d' = Some \<lparr>c_sequence = seq, c_count = length (map fst L)\<rparr>"
    by (rule commit_in_head [OF sb k seq J same])
  moreover have "u32_at (d' (journal_start sb)) (TABLE + i * 4) = Some (of_nat (fst (L ! i)))" if "i < length L" for i
    using u32_at_table [of i "map fst L"] that by (simp add: J head_for_def)
  moreover have "d' (log_slot sb i) = snd (L ! i)" if "i < length L" for i
    using slots [OF that] same [OF log_slot_in [OF sb]] that k(2) by simp
  ultimately show ?thesis using L by (simp add: logged_def)
qed

lemma home_plain:
  assumes sb: "sb_sound sb n" and L: "logged sb L d" and i: "i < length L"
  shows "fst (home plain_page sb i (d, n)) = Ok (fst (L ! i))"
proof -
  have h: "home_ok sb (fst (L ! i))" using L i by (auto simp: logged_def log_ok_def)
  then have "fst (L ! i) < 2 ^ 32" using sb by (auto simp: home_ok_def sb_sound_def)
  then have "unat (of_nat (fst (L ! i)) :: u32) = fst (L ! i)" by (simp add: unat_of_nat take_bit_nat_eq_self)
  moreover have "journal_start sb < n" using payload_below [OF sb journal_in_log [OF sb]] .
  ultimately show ?thesis
    using L i h sb unfolding home_def
    by (auto simp: logged_def or_range_def home_ok_def ret_def fail_def)
qed

end
