(* ===== verification/FsVolume.thy ===== *)
theory FsVolume
  imports FsJournal FsCache
begin

text \<open>
  The writer of a filesystem: \<open>Volume\<close> of \<^verbatim>\<open>src/fs/src/volume.rs\<close>, over the cache. Block numbers
  and slots are natural numbers, inode numbers the source's \<open>u32\<close>. \<open>self.superblock\<close> never changes
  after the mount and is read where the source reads it.
\<close>

record volume =
  vcache :: cache
  vsb :: superblock
  sequence :: u64
  staged :: "nat list"
  vcount :: nat

definition on_cache :: "(cache, 'a) act \<Rightarrow> (volume, 'a) act" where
  "on_cache a v = (case a (vcache v) of (r, c) \<Rightarrow> (r, v\<lparr>vcache := c\<rparr>))"

text \<open>\<open>slice::fill(0)\<close> on a page.\<close>

definition zeroed :: "u8 list \<Rightarrow> u8 list" where
  "zeroed p = replicate (length p) 0"

subsection \<open>Recovery\<close>

definition clear_commit :: "(volume, unit) act" where
  "clear_commit =
    bind_act (gets vsb) (\<lambda>sb.
    bind_act (of_result (to_u32 (journal_start sb))) (\<lambda>b.
    bind_act (on_cache (put_block b (replicate BLOCK 0))) (\<lambda>_.
    bind_act (on_cache flush) (\<lambda>_. ret ()))))"

definition replay_one :: "superblock \<Rightarrow> nat \<Rightarrow> nat \<Rightarrow> (volume, unit) act" where
  "replay_one sb start index =
    bind_act (on_cache (home page sb index)) (\<lambda>to.
    bind_act (of_result (payload_block start index)) (\<lambda>from.
    on_cache (copy from to)))"

definition recover :: "(volume, nat) act" where
  "recover =
    bind_act (gets vsb) (\<lambda>sb.
    bind_act (on_cache (committed page sb)) (\<lambda>found.
    (case found of
       None \<Rightarrow> ret 0
     | Some commit \<Rightarrow>
         bind_act (update (\<lambda>v. v\<lparr>sequence := c_sequence commit\<rparr>)) (\<lambda>_.
         bind_act (of_result (to_u32 (journal_start sb))) (\<lambda>start.
         bind_act (for_act [0..<c_count commit] (replay_one sb start)) (\<lambda>_.
         bind_act (on_cache flush) (\<lambda>_.
         bind_act clear_commit (\<lambda>_.
         ret (c_count commit)))))))))"

definition mount :: "(cache, volume \<times> nat) act" where
  "mount =
    bind_act (gets (\<lambda>c. store_blocks (device c))) (\<lambda>blocks.
    bind_act (page 0) (\<lambda>head.
    bind_act (of_result (read_head head blocks)) (\<lambda>sb c.
      case recover \<lparr>vcache = c, vsb = sb, sequence = 0, staged = replicate MAX_STAGED 0, vcount = 0\<rparr> of
        (Inl e, v) \<Rightarrow> (Inl e, vcache v)
      | (Inr replayed, v) \<Rightarrow> (Ok (v, replayed), vcache v))))"

subsection \<open>Transactions\<close>

definition begin_transaction :: "(volume, unit) act" where
  "begin_transaction =
    bind_act (gets vsb) (\<lambda>sb.
    bind_act (on_cache (pending page sb)) (\<lambda>waiting.
    if waiting then fail NeedsRecovery
    else update (\<lambda>v. v\<lparr>vcount := 0, sequence := max (sequence v + 1) 1\<rparr>)))"

definition slot_block :: "nat \<Rightarrow> (volume, nat) act" where
  "slot_block slot = bind_act (gets vsb) (\<lambda>sb. of_result (to_u32 (journal_start sb + 1 + slot)))"

definition stage :: "nat \<Rightarrow> (volume, nat) act" where
  "stage b v =
    (case position (\<lambda>a. a = b) (take (vcount v) (staged v)) of
       Some slot \<Rightarrow> (Ok slot, v)
     | None \<Rightarrow>
         if vcount v = MAX_STAGED then (Error Full, v)
         else
           let slot = vcount v in
           bind_act (slot_block slot) (\<lambda>to.
           bind_act (on_cache (copy b to)) (\<lambda>_.
           bind_act (update (\<lambda>v. v\<lparr>staged := (staged v)[slot := b], vcount := slot + 1\<rparr>)) (\<lambda>_.
           ret slot))) v)"

definition staged_mut :: "nat \<Rightarrow> (u8 list \<Rightarrow> (fs_error, 'a) result \<times> u8 list) \<Rightarrow> (volume, 'a) act" where
  "staged_mut slot f = bind_act (slot_block slot) (\<lambda>b. on_cache (edit b f))"

text \<open>The new content of the commit block: zeros with the header in front.\<close>

definition put_head :: "u8 list \<Rightarrow> u8 list \<Rightarrow> (fs_error, unit) result \<times> u8 list" where
  "put_head head p =
    (if length p < HEAD then (Error OutOfRange, zeroed p) else (Ok (), store (zeroed p) 0 head))"

definition apply_one :: "nat \<Rightarrow> (volume, unit) act" where
  "apply_one slot =
    bind_act (gets (\<lambda>v. get (staged v) slot)) (\<lambda>found.
    (case found of
       None \<Rightarrow> of_result Panicked
     | Some to \<Rightarrow>
         bind_act (slot_block slot) (\<lambda>from.
         on_cache (copy from to))))"

definition commit_transaction :: "nat list \<Rightarrow> (volume, unit) act" where
  "commit_transaction order v =
    (if vcount v = 0 then (Ok (), v)
     else
       let order = (if length order = vcount v then order else [0..<vcount v]) in
       bind_act (on_cache flush) (\<lambda>_.
       bind_act (on_cache (build_commit page (vsb v) (sequence v) (take (vcount v) (staged v)))) (\<lambda>head.
       bind_act (of_result (to_u32 (journal_start (vsb v)))) (\<lambda>b.
       bind_act (on_cache (edit b (put_head head))) (\<lambda>_.
       bind_act (on_cache flush) (\<lambda>_.
       bind_act (for_act order apply_one) (\<lambda>_.
       bind_act (on_cache flush) (\<lambda>_.
       bind_act clear_commit (\<lambda>_.
       update (\<lambda>v. v\<lparr>vcount := 0\<rparr>))))))))) v)"

subsection \<open>What a transaction changes\<close>

definition put_inode :: "nat \<Rightarrow> inode \<Rightarrow> u8 list \<Rightarrow> (fs_error, unit) result \<times> u8 list" where
  "put_inode offset ino p =
    (case slice_at p offset INODE of
       None \<Rightarrow> (Error OutOfRange, p)
     | Some slot \<Rightarrow> (case inode_encode ino slot of (r, slot) \<Rightarrow> (r, store p offset slot)))"

definition stage_inode :: "u32 \<Rightarrow> inode \<Rightarrow> (volume, unit) act" where
  "stage_inode index ino =
    bind_act (gets vsb) (\<lambda>sb.
    bind_act (of_result (inode_at sb index)) (\<lambda>(b, offset).
    bind_act (stage b) (\<lambda>slot.
    staged_mut slot (put_inode offset ino))))"

definition put_bit :: "nat \<Rightarrow> bool \<Rightarrow> u8 list \<Rightarrow> (fs_error, unit) result \<times> u8 list" where
  "put_bit b mark p =
    (case get p (b div 8 mod BLOCK) of
       None \<Rightarrow> (Error OutOfRange, p)
     | Some cell \<Rightarrow>
         let mask = push_bit (b mod 8) 1 in
         (Ok (), p[b div 8 mod BLOCK := (if mark then cell OR mask else cell AND NOT mask)]))"

definition bitmap_holding :: "superblock \<Rightarrow> nat \<Rightarrow> nat" where
  "bitmap_holding sb b = bitmap_start sb + b div 8 div BLOCK"

definition stage_bitmap :: "nat \<Rightarrow> bool \<Rightarrow> (volume, unit) act" where
  "stage_bitmap b mark =
    bind_act (gets vsb) (\<lambda>sb.
    if inode_start sb \<le> bitmap_holding sb b then fail OutOfRange
    else
      bind_act (of_result (to_u32 (bitmap_holding sb b))) (\<lambda>holding.
      bind_act (stage holding) (\<lambda>slot.
      staged_mut slot (put_bit b mark))))"

subsection \<open>Choosing what is free\<close>

definition block_free :: "superblock \<Rightarrow> nat \<Rightarrow> (cache, bool) act" where
  "block_free sb b =
    bind_act (of_result (to_u32 (bitmap_holding sb b))) (\<lambda>holding.
    bind_act (page holding) (\<lambda>found.
    bind_act (of_result (or_range (get found (b div 8 mod BLOCK)))) (\<lambda>cell.
    ret (cell AND push_bit (b mod 8) 1 = 0))))"

fun free_blocks_from :: "superblock \<Rightarrow> nat list \<Rightarrow> nat \<Rightarrow> nat list \<Rightarrow> (cache, nat list) act" where
  "free_blocks_from sb [] want got = ret got"
| "free_blocks_from sb (b # rest) want got =
    (if length got = want then ret got
     else
       bind_act (block_free sb b) (\<lambda>free.
       if free then bind_act (of_result (to_u32 b)) (\<lambda>b. free_blocks_from sb rest want (got @ [b]))
       else free_blocks_from sb rest want got))"

definition free_blocks :: "nat \<Rightarrow> (volume, nat list) act" where
  "free_blocks want =
    bind_act (gets vsb) (\<lambda>sb. on_cache (free_blocks_from sb [data_start sb..<sb_blocks sb] want []))"

fun free_block_from :: "superblock \<Rightarrow> nat \<Rightarrow> nat list \<Rightarrow> (cache, nat) act" where
  "free_block_from sb taken [] = fail Full"
| "free_block_from sb taken (b # rest) =
    (if b = taken then free_block_from sb taken rest
     else
       bind_act (block_free sb b) (\<lambda>free.
       if free then of_result (to_u32 b) else free_block_from sb taken rest))"

definition free_block_excluding :: "nat \<Rightarrow> (volume, nat) act" where
  "free_block_excluding taken =
    bind_act (gets vsb) (\<lambda>sb. on_cache (free_block_from sb taken [data_start sb..<sb_blocks sb]))"

definition free_block :: "(volume, nat) act" where
  "free_block = free_block_excluding (2 ^ 32 - 1)"

definition vol_inode :: "u32 \<Rightarrow> (volume, inode) act" where
  "vol_inode index = bind_act (gets vsb) (\<lambda>sb. on_cache (fs_inode page sb index))"

fun free_inode_from :: "nat list \<Rightarrow> (volume, u32) act" where
  "free_inode_from [] = fail Full"
| "free_inode_from (index # rest) =
    bind_act (attempt (vol_inode (of_nat index))) (\<lambda>r.
    (case r of
       Inr ino \<Rightarrow> if ikind ino = FreeInode then ret (of_nat index) else free_inode_from rest
     | Inl _ \<Rightarrow> free_inode_from rest))"

definition free_inode :: "(volume, u32) act" where
  "free_inode =
    bind_act (gets vsb) (\<lambda>sb.
    free_inode_from [0..<(if sb_inodes sb < 2 ^ 32 then sb_inodes sb else 2 ^ 32 - 1)])"

definition vol_lookup :: "u32 \<Rightarrow> u8 list \<Rightarrow> (volume, u32 \<times> inode) act" where
  "vol_lookup directory name =
    bind_act (gets vsb) (\<lambda>sb.
    bind_act (on_cache (fs_inode page sb directory)) (\<lambda>dir.
    on_cache (fs_lookup page sb dir name)))"

subsection \<open>Operations\<close>

text \<open>The number of the block that holds a directory's entries, per block.\<close>

definition PER :: nat where "PER = BLOCK div ENTRY"

definition SLOTS :: nat where "SLOTS = BLOCK div 4"

definition create_ordered :: "u32 \<Rightarrow> u8 list \<Rightarrow> kind \<Rightarrow> nat list \<Rightarrow> (volume, u32) act" where
  "create_ordered directory name k order =
    (if name = [] \<or> MAX_NAME < length name then fail BadName
     else if k = FreeInode then fail WrongKind
     else
       bind_act (vol_inode directory) (\<lambda>parent.
       if ikind parent \<noteq> Directory then fail WrongKind
       else
         bind_act (attempt (vol_lookup directory name)) (\<lambda>found.
         if \<not> isl found then fail BadName
         else
           bind_act free_inode (\<lambda>index.
           bind_act (attempt (vol_inode index)) (\<lambda>old.
           let gen = (case old of Inl _ \<Rightarrow> 0 | Inr o' \<Rightarrow> generation o');
               entries = unat (isize parent) div ENTRY;
               which = entries mod PER;
               block_index = entries div PER in
           if length (direct parent) \<le> block_index then fail Full
           else
             bind_act (if which = 0 then bind_act free_block (\<lambda>b. ret (Some b)) else ret None) (\<lambda>fresh.
             bind_act begin_transaction (\<lambda>_.
             bind_act
               (case fresh of
                  None \<Rightarrow> ret parent
                | Some b \<Rightarrow>
                    bind_act (stage_bitmap b True) (\<lambda>_.
                    bind_act (stage b) (\<lambda>slot.
                    bind_act (staged_mut slot (\<lambda>p. (Ok (), zeroed p))) (\<lambda>_.
                    ret (parent\<lparr>direct := (direct parent)[block_index := of_nat b]\<rparr>))))) (\<lambda>parent.
             let b = unat (direct parent ! block_index) in
             bind_act (gets vsb) (\<lambda>sb.
             if b = 0 \<or> sb_blocks sb \<le> b then fail OutOfRange
             else
               bind_act (stage b) (\<lambda>slot.
               bind_act (of_result (entry_new index name)) (\<lambda>entry.
               bind_act (staged_mut slot (\<lambda>p. entry_write entry p (which * ENTRY))) (\<lambda>_.
               bind_act (stage_inode directory (parent\<lparr>isize := isize parent + of_nat ENTRY\<rparr>)) (\<lambda>_.
               bind_act (stage_inode index \<lparr>ikind = k, links = 1, generation = max (gen + 1) 1, isize = 0,
                                            direct = replicate 10 0, indirect = 0\<rparr>) (\<lambda>_.
               bind_act (commit_transaction order) (\<lambda>_.
               ret index)))))))))))))))"

definition create :: "u32 \<Rightarrow> u8 list \<Rightarrow> kind \<Rightarrow> (volume, u32) act" where
  "create directory name k = create_ordered directory name k []"

text \<open>A block number in an indirect table, and the table with one changed.\<close>

definition table_number :: "nat \<Rightarrow> u8 list \<Rightarrow> (fs_error, u32) result \<times> u8 list" where
  "table_number at' p = (or_range (u32_at p at'), p)"

definition put_number :: "nat \<Rightarrow> nat \<Rightarrow> u8 list \<Rightarrow> (fs_error, unit) result \<times> u8 list" where
  "put_number at' b p =
    (if length p < at' + 4 then (Error OutOfRange, p) else (Ok (), store p at' (to_le_bytes 4 (of_nat b :: u32))))"

definition not_data :: "superblock \<Rightarrow> nat \<Rightarrow> bool" where
  "not_data sb b \<longleftrightarrow> sb_blocks sb \<le> b \<or> b < data_start sb"

definition put_data :: "bool \<Rightarrow> nat \<Rightarrow> u8 list \<Rightarrow> u8 list \<Rightarrow> (fs_error, unit) result \<times> u8 list" where
  "put_data fresh within data p =
    (let p = (if fresh then zeroed p else p) in
     if length p < within + length data then (Error OutOfRange, p) else (Ok (), store p within data))"

definition write_ordered :: "u32 \<Rightarrow> nat \<Rightarrow> u8 list \<Rightarrow> nat list \<Rightarrow> (volume, nat) act" where
  "write_ordered index offset data order =
    bind_act (vol_inode index) (\<lambda>ino.
    bind_act (gets vsb) (\<lambda>sb.
    if ikind ino \<noteq> File then fail WrongKind
    else
      let within = offset mod BLOCK;
          taking = min (length data) (BLOCK - within);
          block_index = offset div BLOCK;
          count = length (direct ino);
          via = count \<le> block_index in
      if count + SLOTS \<le> block_index then fail Full
      else
        bind_act
          (if via \<and> indirect ino = 0 then
             bind_act free_block (\<lambda>table.
             if not_data sb table then fail OutOfRange else ret (True, ino\<lparr>indirect := of_nat table\<rparr>))
           else ret (False, ino)) (\<lambda>(table_fresh, ino).
        bind_act
          (if via then
             if table_fresh then ret 0
             else on_cache (edit (unat (indirect ino)) (table_number ((block_index - count) * 4)))
           else ret (direct ino ! block_index)) (\<lambda>existing.
        let fresh = (existing = 0) in
        bind_act
          (if fresh then free_block_excluding (if table_fresh then unat (indirect ino) else 2 ^ 32 - 1)
           else ret (unat existing)) (\<lambda>b.
        if not_data sb b then fail OutOfRange
        else
          bind_act begin_transaction (\<lambda>_.
          bind_act
            (if table_fresh then
               bind_act (stage_bitmap (unat (indirect ino)) True) (\<lambda>_.
               on_cache (edit (unat (indirect ino)) (\<lambda>p. (Ok (), zeroed p))))
             else ret ()) (\<lambda>_.
          bind_act
            (if fresh then
               bind_act (stage_bitmap b True) (\<lambda>_.
               if via then
                 bind_act (on_cache (edit (unat (indirect ino)) (put_number ((block_index - count) * 4) b))) (\<lambda>_. ret ino)
               else ret (ino\<lparr>direct := (direct ino)[block_index := of_nat b]\<rparr>))
             else ret ino) (\<lambda>ino.
          bind_act (on_cache (edit b (put_data fresh within (take taking data)))) (\<lambda>_.
          bind_act (on_cache flush) (\<lambda>_.
          let end = offset + taking;
              ino = (if unat (isize ino) < end then ino\<lparr>isize := of_nat end\<rparr> else ino) in
          bind_act (stage_inode index ino) (\<lambda>_.
          bind_act (commit_transaction order) (\<lambda>_.
          ret taking))))))))))))"

definition write_file :: "u32 \<Rightarrow> nat \<Rightarrow> u8 list \<Rightarrow> (volume, nat) act" where
  "write_file index offset data = write_ordered index offset data []"

subsection \<open>Runs of blocks\<close>

definition RUN_BLOCKS :: nat where "RUN_BLOCKS = 64"

definition block_number :: "inode \<Rightarrow> nat \<Rightarrow> (volume, u32) act" where
  "block_number ino which =
    (if which < length (direct ino) then ret (direct ino ! which)
     else if indirect ino = 0 then ret 0
     else on_cache (edit (unat (indirect ino)) (table_number ((which - length (direct ino)) * 4))))"

fun run_numbers :: "inode \<Rightarrow> nat list \<Rightarrow> (volume, u32 list) act" where
  "run_numbers ino [] = ret []"
| "run_numbers ino (which # rest) =
    bind_act (block_number ino which) (\<lambda>number.
    bind_act (run_numbers ino rest) (\<lambda>numbers.
    ret (number # numbers)))"

text \<open>How many blocks of the run can be written when \<open>found\<close> new ones are there.\<close>

fun run_allowed :: "u32 list \<Rightarrow> nat \<Rightarrow> nat" where
  "run_allowed [] found = 0"
| "run_allowed (slot # rest) found =
    (if slot = 0 then if found = 0 then 0 else Suc (run_allowed rest (found - 1))
     else Suc (run_allowed rest found))"

text \<open>The blocks of the run; \<open>fresh\<close> is the array of new ones, zero past its end, of which \<open>taken\<close> are used.\<close>

fun run_blocks :: "superblock \<Rightarrow> nat \<Rightarrow> u8 list \<Rightarrow> nat list \<Rightarrow> (nat \<times> u32) list \<Rightarrow> nat \<Rightarrow> inode \<Rightarrow> (volume, inode) act" where
  "run_blocks sb first data fresh [] taken ino = ret ino"
| "run_blocks sb first data fresh ((nth_step, slot) # rest) taken ino =
    bind_act
      (if slot = 0 then
         let b = (if taken < length fresh then fresh ! taken else 0); at' = first + nth_step in
         if not_data sb b then fail OutOfRange
         else
           bind_act (stage_bitmap b True) (\<lambda>_.
           if at' < length (direct ino) then ret (b, taken + 1, ino\<lparr>direct := (direct ino)[at' := of_nat b]\<rparr>)
           else
             bind_act (on_cache (edit (unat (indirect ino)) (put_number ((at' - length (direct ino)) * 4) b))) (\<lambda>_.
             ret (b, taken + 1, ino)))
       else ret (unat slot, taken, ino)) (\<lambda>(b, taken, ino).
    bind_act (on_cache (edit b (\<lambda>p. (Ok (), load data (nth_step * BLOCK) BLOCK)))) (\<lambda>_.
    run_blocks sb first data fresh rest taken ino))"

definition write_run :: "u32 \<Rightarrow> nat \<Rightarrow> u8 list \<Rightarrow> (volume, nat) act" where
  "write_run index offset data =
    bind_act (vol_inode index) (\<lambda>ino.
    bind_act (gets vsb) (\<lambda>sb.
    let count = length (direct ino); first = offset div BLOCK in
    if ikind ino \<noteq> File then fail WrongKind
    else if offset mod BLOCK \<noteq> 0 then fail OutOfRange
    else if count + SLOTS \<le> first then fail OutOfRange
    else if min (length data div BLOCK) RUN_BLOCKS = 0 then write_file index offset data
    else
      let whole = min (min (length data div BLOCK) RUN_BLOCKS) (count + SLOTS - first) in
      bind_act (run_numbers ino [first..<first + whole]) (\<lambda>existing.
      let wanted = length (filter (\<lambda>slot. slot = 0) existing);
          needs_table = (count < first + whole \<and> indirect ino = 0) in
      bind_act (free_blocks (wanted + of_bool needs_table)) (\<lambda>fresh.
      if needs_table \<and> fresh = [] then fail Full
      else
        let found = length fresh - of_bool needs_table in
        if found = 0 \<and> 0 < wanted then fail Full
        else
          let whole = (if found < wanted then run_allowed existing found else whole) in
          if whole = 0 then fail Full
          else if needs_table \<and> not_data sb (fresh ! found) then fail OutOfRange
          else
            let ino = (if needs_table then ino\<lparr>indirect := of_nat (fresh ! found)\<rparr> else ino) in
            bind_act begin_transaction (\<lambda>_.
            bind_act
              (if needs_table then
                 bind_act (stage_bitmap (unat (indirect ino)) True) (\<lambda>_.
                 on_cache (edit (unat (indirect ino)) (\<lambda>p. (Ok (), zeroed p))))
               else ret ()) (\<lambda>_.
            bind_act (run_blocks sb first data fresh (zip [0..<whole] existing) 0 ino) (\<lambda>ino.
            bind_act (on_cache flush) (\<lambda>_.
            let end = offset + whole * BLOCK;
                ino = (if unat (isize ino) < end then ino\<lparr>isize := of_nat end\<rparr> else ino) in
            bind_act (stage_inode index ino) (\<lambda>_.
            bind_act (commit_transaction []) (\<lambda>_.
            ret (whole * BLOCK)))))))))))"

definition free_contents :: "inode \<Rightarrow> (volume, unit) act" where
  "free_contents file =
    bind_act (for_act (takeWhile (\<lambda>b. b \<noteq> 0) (direct file)) (\<lambda>b. stage_bitmap (unat b) False)) (\<lambda>_.
    if indirect file = 0 then ret ()
    else
      bind_act
        (on_cache (edit (unat (indirect file))
           (\<lambda>p. (or_range (those (map (\<lambda>slot. u32_at p (slot * 4)) [0..<SLOTS])), p)))) (\<lambda>numbers.
      bind_act (for_act (takeWhile (\<lambda>b. b \<noteq> 0) numbers) (\<lambda>b. stage_bitmap (unat b) False)) (\<lambda>_.
      stage_bitmap (unat (indirect file)) False)))"

text \<open>The search of \<open>remove\<close>: an index past the ten direct blocks panics.\<close>

fun find_entry :: "'s pages \<Rightarrow> inode \<Rightarrow> u8 list \<Rightarrow> nat list \<Rightarrow> ('s, nat option) act" where
  "find_entry pg parent name [] = ret None"
| "find_entry pg parent name (ix # rest) =
    (case get (direct parent) (ix div PER) of
       None \<Rightarrow> of_result Panicked
     | Some b \<Rightarrow>
         bind_act (pg (unat b)) (\<lambda>p.
         (case entry_read p (ix mod PER * ENTRY) of
            Inr entry \<Rightarrow> if entry_name entry = name then ret (Some ix) else find_entry pg parent name rest
          | Inl _ \<Rightarrow> find_entry pg parent name rest)))"

definition remove :: "u32 \<Rightarrow> u8 list \<Rightarrow> (volume, unit) act" where
  "remove directory name =
    bind_act (vol_inode directory) (\<lambda>parent.
    if ikind parent \<noteq> Directory then fail WrongKind
    else
      bind_act (vol_lookup directory name) (\<lambda>(index, dead).
      if ikind dead = Directory \<and> isize dead \<noteq> 0 then fail WrongKind
      else
        let entries = unat (isize parent) div ENTRY in
        bind_act (on_cache (find_entry page parent name [0..<entries])) (\<lambda>found.
        (case found of
           None \<Rightarrow> fail NoSuchName
         | Some ix \<Rightarrow>
             (case get (direct parent) ((entries - 1) div PER) of
                None \<Rightarrow> of_result Panicked
              | Some last_block \<Rightarrow>
                  bind_act (on_cache (page (unat last_block))) (\<lambda>p.
                  bind_act (of_result (entry_read p ((entries - 1) mod PER * ENTRY))) (\<lambda>moving.
                  bind_act begin_transaction (\<lambda>_.
                  bind_act (stage (unat (direct parent ! (ix div PER)))) (\<lambda>slot.
                  bind_act (staged_mut slot (\<lambda>p. entry_write moving p (ix mod PER * ENTRY))) (\<lambda>_.
                  bind_act (stage_inode directory (parent\<lparr>isize := isize parent - of_nat ENTRY\<rparr>)) (\<lambda>_.
                  bind_act (stage_inode index (free_inode_value\<lparr>generation := generation dead\<rparr>)) (\<lambda>_.
                  bind_act (free_contents dead) (\<lambda>_.
                  commit_transaction [])))))))))))))"

definition truncate :: "u32 \<Rightarrow> (volume, unit) act" where
  "truncate index =
    bind_act (vol_inode index) (\<lambda>file.
    if ikind file \<noteq> File then fail WrongKind
    else if isize file = 0 \<and> indirect file = 0 \<and> direct file ! 0 = 0 then ret ()
    else
      bind_act begin_transaction (\<lambda>_.
      bind_act (free_contents file) (\<lambda>_.
      bind_act (stage_inode index (file\<lparr>isize := 0, direct := replicate 10 0, indirect := 0\<rparr>)) (\<lambda>_.
      commit_transaction []))))"

text \<open>
  Emptying a directory, to at most \<open>depth\<close> levels below it. The loop and the recursion use up fuel;
  \<open>None\<close> is the answer when it runs out.
\<close>

fun empty :: "nat \<Rightarrow> u32 \<Rightarrow> nat \<Rightarrow> nat \<Rightarrow> (volume, nat option) act" where
  "empty 0 directory depth removed = ret None"
| "empty (Suc fuel) directory depth removed =
    bind_act (vol_inode directory) (\<lambda>ino.
    if ikind ino \<noteq> Directory then fail WrongKind
    else
      bind_act (gets vsb) (\<lambda>sb.
      bind_act (on_cache (fs_list page sb ino)) (\<lambda>found.
      (case found of
         [] \<Rightarrow> ret (Some removed)
       | entry # _ \<Rightarrow>
           bind_act (vol_inode (e_inode entry)) (\<lambda>child.
           bind_act
             (if ikind child = Directory \<and> isize child \<noteq> 0 then
                if depth = 0 then fail WrongKind else empty fuel (e_inode entry) (depth - 1) 0
              else ret (Some 0)) (\<lambda>below.
           (case below of
              None \<Rightarrow> ret None
            | Some k \<Rightarrow>
                bind_act (remove directory (entry_name entry)) (\<lambda>_.
                empty fuel directory depth (removed + k + 1)))))))))"

end
