(* ===== verification/FsSteps.thy ===== *)
theory FsSteps
  imports FsLog FsVolume
begin

text \<open>
  Rules for the steps of a volume. A state is described by what its user sees (\<open>g\<close>, exactly) and by
  what each block of the device may hold (\<open>K\<close>, a predicate for every block): a dirty block reaches
  the device at a moment nobody chooses, so until a flush the device is known only that far.
\<close>

type_synonym allowed = "nat \<Rightarrow> u8 list \<Rightarrow> bool"

definition within :: "nat \<Rightarrow> allowed \<Rightarrow> cache \<Rightarrow> bool" where
  "within n K c \<longleftrightarrow> cache_ready c \<and> cblocks c = n \<and> (\<forall>b. K b (view c b) \<and> K b (dblock c b))"

lemma within_evolves:
  assumes "within n K c" "evolves c c'"
  shows "cache_ready c'" "cblocks c' = n" "K b (dblock c' b)"
proof -
  have "dblock c' b = dblock c b \<or> dblock c' b = view c b" using assms(2) by (auto simp: evolves_def)
  then show "K b (dblock c' b)" using assms(1) by (auto simp: within_def)
qed (use assms spare_evolves [of c c'] in \<open>auto simp: within_def cache_ready_def evolves_def\<close>)

lemma within_settles:
  assumes "within n K c" "settles c c'"
  shows "within n K c'"
  using within_evolves [OF assms(1), of c'] assms unfolding within_def settles_def by simp

lemma within_writes:
  assumes "within n K c" "writes b v c c'" "K b v"
  shows "within n K c'"
  using within_evolves [OF assms(1), of c'] assms unfolding within_def writes_def by simp

text \<open>The fields of a volume that the cache does not carry.\<close>

type_synonym fields = "superblock \<times> u64 \<times> nat list \<times> nat"

definition fields :: "volume \<Rightarrow> fields" where
  "fields v = (vsb v, sequence v, staged v, vcount v)"

definition state :: "fields \<Rightarrow> nat \<Rightarrow> allowed \<Rightarrow> (nat \<Rightarrow> u8 list) \<Rightarrow> volume \<Rightarrow> bool" where
  "state F n K g v \<longleftrightarrow> fields v = F \<and> within n K (vcache v) \<and> view (vcache v) = g"

definition clean :: "volume \<Rightarrow> bool" where
  "clean v \<longleftrightarrow> dblock (vcache v) = view (vcache v)"

definition halted :: "volume \<Rightarrow> bool" where
  "halted v \<longleftrightarrow> stopped (vcache v)"

lemma state_clean: "state F n K g v \<Longrightarrow> clean v \<Longrightarrow> (\<And>b. K' b (g b)) \<Longrightarrow> state F n K' g v"
  by (simp add: state_def clean_def within_def)

lemma state_weaken: "state F n K g v \<Longrightarrow> (\<And>b w. K b w \<Longrightarrow> K' b w) \<Longrightarrow> state F n K' g v"
  by (auto simp: state_def within_def)

lemma state_allowed: "state F n K g v \<Longrightarrow> K b (g b)" "state F n K g v \<Longrightarrow> K b (dblock (vcache v) b)"
  by (auto simp: state_def within_def)

lemma fields_on_cache [simp]: "fields (v\<lparr>vcache := c\<rparr>) = fields v"
  by (simp add: fields_def)

lemma state_length: "state F n K g v \<Longrightarrow> b < n \<Longrightarrow> length (g b) = BLOCK"
  by (auto simp: state_def within_def cache_ready_def)

subsection \<open>Steps on the cache\<close>

lemma ensures_on_cache:
  assumes "\<And>c r c'. within n K c \<Longrightarrow> view c = g \<Longrightarrow> a c = (r, c') \<Longrightarrow>
    (case r of Inr x \<Rightarrow> \<forall>v. fields v = F \<longrightarrow> vcache v = c' \<longrightarrow> Q x v | Inl e \<Rightarrow> \<forall>v. fields v = F \<longrightarrow> vcache v = c' \<longrightarrow> E e v)"
  shows "ensures (state F n K g) (on_cache a) Q E"
proof (rule ensuresI)
  fix s x s'
  assume s: "state F n K g s" and run: "on_cache a s = (Inr x, s')"
  obtain c' where "a (vcache s) = (Inr x, c')" "s' = s\<lparr>vcache := c'\<rparr>"
    using run by (auto simp: on_cache_def split: prod.splits)
  then show "Q x s'" using assms [of "vcache s" "Inr x" c'] s by (simp add: state_def)
next
  fix s e s'
  assume s: "state F n K g s" and run: "on_cache a s = (Inl e, s')"
  obtain c' where "a (vcache s) = (Inl e, c')" "s' = s\<lparr>vcache := c'\<rparr>"
    using run by (auto simp: on_cache_def split: prod.splits)
  then show "E e s'" using assms [of "vcache s" "Inl e" c'] s by (simp add: state_def)
qed

lemma within_ok: "within n K c \<Longrightarrow> cache_ok c"
  by (simp add: within_def cache_ready_def)

lemma flush_step:
  "ensures (state F n K g) (on_cache flush) (\<lambda>_ v. state F n K g v \<and> clean v)
    (\<lambda>e v. e = Err Interrupted \<and> state F n K g v \<and> halted v)"
proof (rule ensures_on_cache)
  fix c r c'
  assume w: "within n K c" and g: "view c = g" and run: "flush c = (r, c')"
  from within_ok [OF w] run
  show "case r of Inr x \<Rightarrow> \<forall>v. fields v = F \<longrightarrow> vcache v = c' \<longrightarrow> state F n K g v \<and> clean v
      | Inl e \<Rightarrow> \<forall>v. fields v = F \<longrightarrow> vcache v = c' \<longrightarrow> e = Err Interrupted \<and> state F n K g v \<and> halted v"
  proof (cases rule: flush_cases)
    case (flushed k)
    then have "view c' = dblock c'" using view_clean [OF settles_ok [OF flushed(2)]] by auto
    then show ?thesis
      using flushed within_settles [OF w flushed(2)] g by (auto simp: state_def clean_def settles_def)
  next
    case stopped
    then show ?thesis
      using within_settles [OF w stopped(2)] g by (auto simp: state_def halted_def settles_def)
  qed
qed

lemma passes_step:
  assumes "cached.passes a p"
  shows "ensures (state F n K g) (on_cache a) (\<lambda>x v. state F n K g v \<and> fst (p (g, n)) = Inr x)
    (\<lambda>e v. state F n K g v \<and> (fst (p (g, n)) = Inl e \<or> e = Err Interrupted \<and> halted v))"
proof (rule ensures_on_cache)
  fix c r c'
  assume w: "within n K c" and g: "view c = g" and run: "a c = (r, c')"
  have "settles c c' \<and> (r = fst (p (g, n)) \<or> r = Error Interrupted \<and> stopped c')"
    using cached.passes_result [OF assms _ run] w g by (simp add: within_def cache_content_def)
  then show "case r of Inr x \<Rightarrow> \<forall>v. fields v = F \<longrightarrow> vcache v = c' \<longrightarrow> state F n K g v \<and> fst (p (g, n)) = Inr x
      | Inl e \<Rightarrow> \<forall>v. fields v = F \<longrightarrow> vcache v = c' \<longrightarrow>
          state F n K g v \<and> (fst (p (g, n)) = Inl e \<or> e = Err Interrupted \<and> halted v)"
    using within_settles [OF w, of c'] g by (auto simp: state_def halted_def settles_def split: sum.split)
qed

lemma reads_step:
  assumes "cached.reads a p"
  shows "ensures (state F n K g) (on_cache a) (\<lambda>x v. state F n K g v \<and> (fst (p (g, n)) = Inr x \<or> halted v))
    (\<lambda>e v. state F n K g v \<and> (fst (p (g, n)) = Inl e \<or> halted v))"
proof (rule ensures_on_cache)
  fix c r c'
  assume w: "within n K c" and g: "view c = g" and run: "a c = (r, c')"
  have "settles c c' \<and> (r = fst (p (g, n)) \<or> stopped c')"
    using cached.reads_result [OF assms _ run] w g by (simp add: within_def cache_content_def)
  then show "case r of Inr x \<Rightarrow> \<forall>v. fields v = F \<longrightarrow> vcache v = c' \<longrightarrow> state F n K g v \<and> (fst (p (g, n)) = Inr x \<or> halted v)
      | Inl e \<Rightarrow> \<forall>v. fields v = F \<longrightarrow> vcache v = c' \<longrightarrow> state F n K g v \<and> (fst (p (g, n)) = Inl e \<or> halted v)"
    using within_settles [OF w, of c'] g by (auto simp: state_def halted_def settles_def split: sum.split)
qed

lemma refused_ready: "refused b e c c' \<Longrightarrow> within n K c \<Longrightarrow> b < n \<Longrightarrow> e = Err Interrupted \<and> stopped c'"
  by (auto simp: refused_def within_def cache_ready_def)

lemma edit_step:
  assumes len: "\<forall>p. length p = BLOCK \<longrightarrow> length (snd (f p)) = BLOCK" and K: "K b (snd (f (g b)))" and b: "b < n"
  shows "ensures (state F n K g) (on_cache (edit b f))
    (\<lambda>x v. state F n K (g(b := snd (f (g b)))) v \<and> fst (f (g b)) = Inr x)
    (\<lambda>e v. state F n K g v \<and> e = Err Interrupted \<and> halted v \<or> state F n K (g(b := snd (f (g b)))) v \<and> fst (f (g b)) = Inl e)"
proof (rule ensures_on_cache)
  fix c r c'
  assume w: "within n K c" and g: "view c = g" and run: "edit b f c = (r, c')"
  from within_ok [OF w] run len
  show "case r of Inr x \<Rightarrow> \<forall>v. fields v = F \<longrightarrow> vcache v = c' \<longrightarrow>
        state F n K (g(b := snd (f (g b)))) v \<and> fst (f (g b)) = Inr x
      | Inl e \<Rightarrow> \<forall>v. fields v = F \<longrightarrow> vcache v = c' \<longrightarrow>
        state F n K g v \<and> e = Err Interrupted \<and> halted v \<or> state F n K (g(b := snd (f (g b)))) v \<and> fst (f (g b)) = Inl e"
  proof (cases rule: edit_cases)
    case edited
    then have "within n K c'" "view c' = g(b := snd (f (g b)))"
      using within_writes [OF w edited(2)] K g by (auto simp: writes_def)
    then show ?thesis using edited(1) g by (auto simp: state_def split: sum.split)
  next
    case (refused e)
    then show ?thesis
      using within_settles [OF w refused(2)] refused_ready [OF refused(3) w b] g
      by (auto simp: state_def halted_def settles_def)
  qed
qed

lemma put_step:
  assumes len: "length p = BLOCK" and K: "K b p" and b: "b < n"
  shows "ensures (state F n K g) (on_cache (put_block b p)) (\<lambda>_. state F n K (g(b := p)))
    (\<lambda>e v. state F n K g v \<and> e = Err Interrupted \<and> halted v)"
proof (rule ensures_on_cache)
  fix c r c'
  assume w: "within n K c" and g: "view c = g" and run: "put_block b p c = (r, c')"
  from within_ok [OF w] run len
  show "case r of Inr x \<Rightarrow> \<forall>v. fields v = F \<longrightarrow> vcache v = c' \<longrightarrow> state F n K (g(b := p)) v
      | Inl e \<Rightarrow> \<forall>v. fields v = F \<longrightarrow> vcache v = c' \<longrightarrow> state F n K g v \<and> e = Err Interrupted \<and> halted v"
  proof (cases rule: put_block_cases)
    case put
    then show ?thesis using within_writes [OF w put(2) K] g by (auto simp: state_def writes_def)
  next
    case (refused e)
    then show ?thesis
      using within_settles [OF w refused(2)] refused_ready [OF refused(3) w b] g
      by (auto simp: state_def halted_def settles_def)
  qed
qed

lemma copy_step:
  assumes K: "K b (g a)" and ab: "a < n" "b < n"
  shows "ensures (state F n K g) (on_cache (copy a b)) (\<lambda>_. state F n K (g(b := g a)))
    (\<lambda>e v. state F n K g v \<and> e = Err Interrupted \<and> halted v)"
proof (rule ensures_on_cache)
  fix c r c'
  assume w: "within n K c" and g: "view c = g" and run: "copy a b c = (r, c')"
  from within_ok [OF w] run
  show "case r of Inr x \<Rightarrow> \<forall>v. fields v = F \<longrightarrow> vcache v = c' \<longrightarrow> state F n K (g(b := g a)) v
      | Inl e \<Rightarrow> \<forall>v. fields v = F \<longrightarrow> vcache v = c' \<longrightarrow> state F n K g v \<and> e = Err Interrupted \<and> halted v"
  proof (cases rule: copy_cases)
    case same
    then show ?thesis using w g by (auto simp: state_def)
  next
    case copied
    then show ?thesis using within_writes [OF w copied(2)] K g by (auto simp: state_def writes_def)
  next
    case (refused e)
    then show ?thesis
      using within_settles [OF w refused(2)] refused_ready [OF _ w ab(1), of e c'] refused_ready [OF _ w ab(2), of e c'] g
      by (auto simp: state_def halted_def settles_def)
  qed
qed

end
