(* ===== verification/FsCommit.thy ===== *)
theory FsCommit
  imports FsSteps
begin

text \<open>
  A transaction, from its first write to its last, and the recovery of an interrupted one. \<open>stands\<close>
  says which filesystem a device holds after whatever its log has pending is taken into account:
  every state the device passes through stands for the filesystem before the transaction or for the
  one after it.
\<close>

definition stands :: "superblock \<Rightarrow> (nat \<Rightarrow> u8 list) \<Rightarrow> (nat \<Rightarrow> u8 list) \<Rightarrow> bool" where
  "stands sb d x \<longleftrightarrow> (blank sb d \<and> (\<forall>b. b \<notin> log_area sb \<longrightarrow> d b = x b)) \<or>
    (\<exists>L. logged sb L d \<and> (\<forall>b. b \<notin> log_area sb \<longrightarrow> overlay L d b = x b))"

definition dev :: "volume \<Rightarrow> nat \<Rightarrow> u8 list" where
  "dev v = dblock (vcache v)"

subsection \<open>The phases of a transaction\<close>

definition blankb :: "u8 list \<Rightarrow> bool" where
  "blankb w \<longleftrightarrow> u64_at w 0 \<noteq> Some JOURNAL_MAGIC"

text \<open>Before the commit: only the payload moves.\<close>

definition idle_K :: "superblock \<Rightarrow> (nat \<Rightarrow> u8 list) \<Rightarrow> allowed" where
  "idle_K sb x b w \<longleftrightarrow> b \<in> payload sb \<or> (if b = journal_start sb then blankb w else w = x b)"

text \<open>The commit block on its way.\<close>

definition commit_K :: "superblock \<Rightarrow> (nat \<Rightarrow> u8 list) \<Rightarrow> (nat \<Rightarrow> u8 list) \<Rightarrow> u8 list \<Rightarrow> allowed" where
  "commit_K sb x g hb b w \<longleftrightarrow>
    (if b = journal_start sb then blankb w \<or> w = hb else if b \<in> payload sb then w = g b else w = x b)"

text \<open>The log is fixed, and the homes are on their way.\<close>

definition apply_K :: "superblock \<Rightarrow> (nat \<Rightarrow> u8 list) \<Rightarrow> (nat \<Rightarrow> u8 list) \<Rightarrow> (nat \<Rightarrow> u8 list) \<Rightarrow> allowed" where
  "apply_K sb d x y b w \<longleftrightarrow> (if b \<in> log_area sb then w = d b else w = x b \<or> w = y b)"

text \<open>The homes have arrived, and the commit block is being cleared.\<close>

definition clear_K :: "superblock \<Rightarrow> (nat \<Rightarrow> u8 list) \<Rightarrow> (nat \<Rightarrow> u8 list) \<Rightarrow> allowed" where
  "clear_K sb d y b w \<longleftrightarrow>
    (if b = journal_start sb then w = d b \<or> w = replicate BLOCK 0 else if b \<in> payload sb then w = d b else w = y b)"

definition after :: "superblock \<Rightarrow> (nat \<times> u8 list) list \<Rightarrow> (nat \<Rightarrow> u8 list) \<Rightarrow> (nat \<Rightarrow> u8 list) \<Rightarrow> bool" where
  "after sb L x y \<longleftrightarrow> (\<forall>b. b \<notin> log_area sb \<longrightarrow> y b = overlay L x b)"

lemma idle_stands:
  assumes "sb_sound sb n" "\<And>b. idle_K sb x b (d b)"
  shows "stands sb d x"
proof -
  have "blank sb d" using assms(2) [of "journal_start sb"] by (simp add: idle_K_def blank_def blankb_def)
  moreover have "d b = x b" if "b \<notin> log_area sb" for b
    using assms(2) [of b] that journal_in_log [OF assms(1)] log_area_payload [OF assms(1)] by (auto simp: idle_K_def split: if_splits)
  ultimately show ?thesis by (simp add: stands_def)
qed

lemma commit_stands:
  assumes sb: "sb_sound sb n" and L: "log_ok sb L" "seq \<noteq> 0" "after sb L x y"
    and hb: "hb = head_for sb g seq (map fst L) @ rest" and g: "\<And>i. i < length L \<Longrightarrow> g (log_slot sb i) = snd (L ! i)"
    and d: "\<And>b. commit_K sb x g hb b (d b)"
  shows "stands sb d x \<or> stands sb d y"
proof -
  have off: "d b = x b" if "b \<notin> log_area sb" for b
    using d [of b] that journal_in_log [OF sb] log_area_payload [OF sb] by (auto simp: commit_K_def split: if_splits)
  show ?thesis
  proof (cases "d (journal_start sb) = hb")
    case True
    have "logged sb L d"
    proof (rule logged_head [where d = g and seq = seq and rest = rest])
      show "d b = g b" if "b \<in> payload sb" for b
        using d [of b] that by (auto simp: commit_K_def split: if_splits)
    qed (use sb L True hb g in auto)
    moreover have "overlay L d b = y b" if "b \<notin> log_area sb" for b
      using L(3) off that by (simp add: after_def overlay_def split: option.split)
    ultimately show ?thesis unfolding stands_def by blast
  next
    case False
    then have "blank sb d" using d [of "journal_start sb"] by (simp add: commit_K_def blank_def blankb_def)
    then show ?thesis using off by (simp add: stands_def)
  qed
qed

lemma apply_stands:
  assumes sb: "sb_sound sb n" and L: "logged sb L d0" "after sb L x y" and d: "\<And>b. apply_K sb d0 x y b (d b)"
  shows "stands sb d y"
proof -
  have "logged sb L d" using L(1) logged_cong [OF sb, of d d0] d by (auto simp: apply_K_def)
  moreover have "overlay L d b = y b" if "b \<notin> log_area sb" for b
    using d [of b] L(2) that by (auto simp: apply_K_def after_def overlay_def split: option.splits)
  ultimately show ?thesis unfolding stands_def by blast
qed

lemma clear_stands:
  assumes sb: "sb_sound sb n" and L: "logged sb L d0" "after sb L x y" and d: "\<And>b. clear_K sb d0 y b (d b)"
  shows "stands sb d y"
proof (cases "d (journal_start sb) = d0 (journal_start sb)")
  case True
  then have "apply_K sb d0 x y b (d b)" for b
    using d [of b] log_area_payload [OF sb] by (auto simp: clear_K_def apply_K_def split: if_splits)
  then show ?thesis by (rule apply_stands [OF sb L])
next
  case False
  then have "blank sb d" using d [of "journal_start sb"] by (intro blank_zero) (simp add: clear_K_def)
  moreover have "d b = y b" if "b \<notin> log_area sb" for b
    using d [of b] that journal_in_log [OF sb] log_area_payload [OF sb] by (auto simp: clear_K_def split: if_splits)
  ultimately show ?thesis by (simp add: stands_def)
qed

subsection \<open>Clearing the log\<close>

definition crashed :: "superblock \<Rightarrow> nat \<Rightarrow> (nat \<Rightarrow> u8 list) \<Rightarrow> volume \<Rightarrow> bool" where
  "crashed sb n y v \<longleftrightarrow> vsb v = sb \<and> cache_ready (vcache v) \<and> cblocks (vcache v) = n \<and> stands sb (dev v) y"

text \<open>The device stopped, and that is what the operation returned.\<close>

definition broken :: "superblock \<Rightarrow> nat \<Rightarrow> (nat \<Rightarrow> u8 list) \<Rightarrow> fs_error failure \<Rightarrow> volume \<Rightarrow> bool" where
  "broken sb n y e v \<longleftrightarrow> e = Err Interrupted \<and> halted v \<and> crashed sb n y v"

lemma state_crashed:
  assumes "state F n K g v" "fst F = sb" "\<And>d. (\<And>b. K b (d b)) \<Longrightarrow> stands sb d y"
  shows "crashed sb n y v"
  using assms by (auto simp: crashed_def state_def fields_def within_def dev_def)

lemma clear_idle:
  assumes sb: "sb_sound sb n" and g: "g (journal_start sb) = replicate BLOCK 0" "\<And>b. b \<notin> log_area sb \<Longrightarrow> g b = y b"
  shows "idle_K sb y b (g b)"
  using g blank_zero [of g sb] log_area_payload [OF sb] by (auto simp: idle_K_def blankb_def blank_def)

lemma clear_step:
  assumes sb: "sb_sound sb n" and F: "fst F = sb" and L: "logged sb L d0" "after sb L x y"
    and g: "\<And>b. clear_K sb d0 y b (g b)"
  shows "ensures (state F n (clear_K sb d0 y) g) clear_commit (\<lambda>_ v. state F n (idle_K sb y) (g(journal_start sb := replicate BLOCK 0)) v)
    (broken sb n y)"
proof -
  let ?J = "journal_start sb" and ?g = "g(journal_start sb := replicate BLOCK 0)"
  have crash: "state F n (clear_K sb d0 y) g' v \<Longrightarrow> crashed sb n y v" for g' v
    by (rule state_crashed [OF _ F]) (auto intro: clear_stands [OF sb L])
  have J: "?J < n" using payload_below [OF sb journal_in_log [OF sb]] .
  have put: "ensures (state F n (clear_K sb d0 y) g) (on_cache (put_block ?J (replicate BLOCK 0)))
      (\<lambda>_. state F n (clear_K sb d0 y) ?g) (broken sb n y)"
    by (rule ensures_post [OF put_step]) (use J crash in \<open>auto simp: clear_K_def broken_def\<close>)
  have flush: "ensures (state F n (clear_K sb d0 y) ?g) (on_cache flush) (\<lambda>_. state F n (idle_K sb y) ?g) (broken sb n y)"
  proof (rule ensures_post [OF flush_step])
    have "?g b = y b" if "b \<notin> log_area sb" for b
      using g [of b] that journal_in_log [OF sb] log_area_payload [OF sb] by (auto simp: clear_K_def split: if_splits)
    then have "idle_K sb y b (?g b)" for b by (intro clear_idle [OF sb]) auto
    then show "state F n (clear_K sb d0 y) ?g v \<and> clean v \<Longrightarrow> state F n (idle_K sb y) ?g v" for v
      by (auto intro: state_clean)
  qed (use crash in \<open>auto simp: broken_def\<close>)
  have tail: "ensures (state F n (clear_K sb d0 y) ?g) (bind_act (on_cache flush) (\<lambda>_. ret ())) (\<lambda>_. state F n (idle_K sb y) ?g) (broken sb n y)"
    by (rule ensures_bind [OF flush]) simp
  have body: "ensures (state F n (clear_K sb d0 y) g)
      (bind_act (on_cache (put_block ?J (replicate BLOCK 0))) (\<lambda>_. bind_act (on_cache flush) (\<lambda>_. ret ())))
      (\<lambda>_. state F n (idle_K sb y) ?g) (broken sb n y)"
    by (rule ensures_bind [OF put tail])
  have eq: "clear_commit v = bind_act (on_cache (put_block ?J (replicate BLOCK 0))) (\<lambda>_. bind_act (on_cache flush) (\<lambda>_. ret ())) v"
    if "state F n (clear_K sb d0 y) g v" for v
    using that F sb by (simp add: clear_commit_def bind_act_def [of "gets vsb"] gets_def state_def fields_def prod_eq_iff [of _ F])
  show ?thesis by (rule ensures_cong [OF eq body])
qed

subsection \<open>Bringing the logged blocks home\<close>

definition brought :: "superblock \<Rightarrow> (nat \<times> u8 list) list \<Rightarrow> (nat \<Rightarrow> u8 list) \<Rightarrow> (nat \<Rightarrow> u8 list) \<Rightarrow> (nat \<Rightarrow> u8 list) \<Rightarrow> nat set \<Rightarrow> nat \<Rightarrow> u8 list" where
  "brought sb L d0 x y S b =
    (if b \<in> log_area sb then d0 b else if b \<in> (\<lambda>i. fst (L ! i)) ` S then y b else x b)"

lemma brought_none: "(\<And>b. b \<notin> log_area sb \<Longrightarrow> d0 b = x b) \<Longrightarrow> brought sb L d0 x y {} = d0"
  by (auto simp: brought_def)

lemma brought_all:
  assumes "after sb L x y" "b \<notin> log_area sb"
  shows "brought sb L d0 x y {0..<length L} b = y b"
proof (cases "b \<in> fst ` set L")
  case True
  then obtain i where "i < length L" "b = fst (L ! i)" by (auto simp: in_set_conv_nth)
  then have "b \<in> (\<lambda>i. fst (L ! i)) ` {0..<length L}" by simp
  then show ?thesis using assms(2) by (simp add: brought_def)
next
  case False
  then have "map_of L b = None" by (simp add: map_of_eq_None_iff)
  then show ?thesis using assms by (auto simp: brought_def after_def overlay_def)
qed

lemma bring_step:
  assumes sb: "sb_sound sb n" and F: "fst F = sb" and L: "logged sb L d0" "after sb L x y" and i: "i < length L"
  shows "ensures (state F n (apply_K sb d0 x y) (brought sb L d0 x y S)) (on_cache (copy (log_slot sb i) (fst (L ! i))))
    (\<lambda>_. state F n (apply_K sb d0 x y) (brought sb L d0 x y (insert i S))) (broken sb n y)"
proof -
  have k: "distinct (map fst L)" "home_ok sb (fst (L ! i))" "length L \<le> MAX_STAGED" "d0 (log_slot sb i) = snd (L ! i)"
    using L(1) i by (auto simp: logged_def log_ok_def)
  have slot: "log_slot sb i \<in> log_area sb" using log_slot_in [OF sb, of i] i k(3) log_area_payload [OF sb] by auto
  have "map_of L (fst (L ! i)) = Some (snd (L ! i))" using k(1) i by (simp add: map_of_eq_Some_iff)
  then have y: "y (fst (L ! i)) = snd (L ! i)" using L(2) k(2) by (simp add: after_def overlay_def home_ok_def)
  let ?g = "brought sb L d0 x y S"
  have copied: "?g(fst (L ! i) := ?g (log_slot sb i)) = brought sb L d0 x y (insert i S)"
    using slot k y by (auto simp: brought_def home_ok_def fun_eq_iff)
  have n: "fst (L ! i) < n" "log_slot sb i < n"
    using k(2) sb payload_below [OF sb slot] by (auto simp: home_ok_def sb_sound_def)
  have K: "apply_K sb d0 x y (fst (L ! i)) (?g (log_slot sb i))" using slot k y by (simp add: apply_K_def home_ok_def brought_def)
  show ?thesis
    by (rule ensures_post [OF copy_step [where K = "apply_K sb d0 x y" and g = ?g, OF K n(2,1)]])
      (auto simp: copied broken_def intro: state_crashed [OF _ F] apply_stands [OF sb L])
qed

lemma bring_loop:
  assumes "\<And>i S. i \<in> set is \<Longrightarrow> ensures (P S) (f i) (\<lambda>_. P (insert i S)) E"
  shows "ensures (P S) (for_act is f) (\<lambda>_. P (S \<union> set is)) E"
  using assms
proof (induction "is" arbitrary: S)
  case (Cons i "is")
  have "ensures (P (insert i S)) (for_act is f) (\<lambda>_. P (insert i S \<union> set is)) E"
    by (rule Cons.IH) (simp add: Cons.prems)
  then show ?case unfolding for_act.simps
    by (intro ensures_bind [where R = "\<lambda>_. P (insert i S)"]) (simp_all add: Cons.prems)
qed simp

text \<open>The homes reach the device, and then the log is cleared: a live transaction and a recovery end alike.\<close>

definition finish_log :: "(volume, unit) act" where
  "finish_log = bind_act (on_cache flush) (\<lambda>_. clear_commit)"

lemma finish_step:
  assumes sb: "sb_sound sb n" and F: "fst F = sb" and L: "logged sb L d0" "after sb L x y"
  shows "ensures (state F n (apply_K sb d0 x y) (brought sb L d0 x y {0..<length L})) finish_log
    (\<lambda>_ v. \<exists>g. state F n (idle_K sb y) g v) (broken sb n y)"
proof -
  let ?g = "brought sb L d0 x y {0..<length L}"
  have K: "clear_K sb d0 y b (?g b)" for b
    using brought_all [OF L(2)] log_area_payload [OF sb] by (auto simp: clear_K_def brought_def)
  have "ensures (state F n (apply_K sb d0 x y) ?g) (on_cache flush) (\<lambda>_. state F n (clear_K sb d0 y) ?g) (broken sb n y)"
    by (rule ensures_post [OF flush_step])
      (auto simp: broken_def intro: state_clean K state_crashed [OF _ F] apply_stands [OF sb L])
  moreover have "ensures (state F n (clear_K sb d0 y) ?g) clear_commit (\<lambda>_ v. \<exists>g. state F n (idle_K sb y) g v) (broken sb n y)"
    by (rule ensures_post [OF clear_step [OF sb F L K]]) auto
  ultimately show ?thesis unfolding finish_log_def by (rule ensures_bind)
qed

subsection \<open>A whole transaction\<close>

text \<open>What \<open>commit\<close> is called with: blocks staged in the log, each with a home of its own.\<close>

definition staged_log :: "superblock \<Rightarrow> nat list \<Rightarrow> nat \<Rightarrow> (nat \<Rightarrow> u8 list) \<Rightarrow> (nat \<times> u8 list) list" where
  "staged_log sb st k g = map (\<lambda>i. (st ! i, g (log_slot sb i))) [0..<k]"

lemma staged_log_simps [simp]:
  "length (staged_log sb st k g) = k"
  "i < k \<Longrightarrow> staged_log sb st k g ! i = (st ! i, g (log_slot sb i))"
  "k \<le> length st \<Longrightarrow> map fst (staged_log sb st k g) = take k st"
  by (auto simp: staged_log_def intro!: nth_equalityI)

lemma bind_slot_block:
  assumes "sb_sound sb n" "i < MAX_STAGED" "vsb v = sb"
  shows "bind_act (slot_block i) f v = f (log_slot sb i) v"
proof -
  have "to_u32 (journal_start sb + 1 + i) = Ok (log_slot sb i)"
    using log_slot_in [OF assms(1,2)] assms(1) by (simp add: to_u32_def log_slot_def sb_sound_def payload_def)
  then show ?thesis using assms(3) by (simp add: slot_block_def bind_assoc)
qed

lemma apply_one_step:
  assumes sb: "sb_sound sb n" and F: "F = (sb, seq, st, k)" and L: "logged sb L d0" "after sb L x y" and i: "i < length L"
    and st: "length st = MAX_STAGED" "st ! i = fst (L ! i)"
  shows "ensures (state F n (apply_K sb d0 x y) (brought sb L d0 x y S)) (apply_one i)
    (\<lambda>_. state F n (apply_K sb d0 x y) (brought sb L d0 x y (insert i S))) (broken sb n y)"
proof -
  have i8: "i < MAX_STAGED" using L(1) i by (simp add: logged_def log_ok_def)
  have eq: "apply_one i v = on_cache (copy (log_slot sb i) (fst (L ! i))) v"
    if "state F n (apply_K sb d0 x y) (brought sb L d0 x y S) v" for v
    using that F st i8 by (simp add: apply_one_def state_def fields_def get_def bind_slot_block [OF sb])
  show ?thesis by (rule ensures_cong [OF eq bring_step [OF sb _ L i]]) (simp_all add: F)
qed

lemma length_put_head: "length head = HEAD \<Longrightarrow> length p = BLOCK \<Longrightarrow> length (snd (put_head head p)) = BLOCK"
  by (simp add: put_head_def zeroed_def BLOCK_def HEAD_def TABLE_def MAX_STAGED_def)

lemma put_head_eq: "length head = HEAD \<Longrightarrow> length p = BLOCK \<Longrightarrow> put_head head p = (Ok (), head @ replicate (BLOCK - HEAD) 0)"
  by (simp add: put_head_def zeroed_def BLOCK_def HEAD_def TABLE_def MAX_STAGED_def store_def)

lemma bind_J: "sb_sound sb n \<Longrightarrow> bind_act (of_result (to_u32 (journal_start sb))) f = f (journal_start sb)"
  by (rule ext) simp

lemma commit_step:
  assumes sb: "sb_sound sb n" and F: "F = (sb, seq, st, k)" "length st = MAX_STAGED" "k \<noteq> 0" "k \<le> MAX_STAGED" "seq \<noteq> 0"
    and L: "L = staged_log sb st k g" "log_ok sb L" "after sb L x y"
    and order: "length order = k \<Longrightarrow> set order = {0..<k}"
  shows "ensures (state F n (idle_K sb x) g) (commit_transaction order)
    (\<lambda>_ v. \<exists>g. state (sb, seq, st, 0) n (idle_K sb y) g v) (\<lambda>e v. broken sb n x e v \<or> broken sb n y e v)"
proof -
  let ?homes = "take k st" and ?J = "journal_start sb"
  let ?order = "if length order = k then order else [0..<k]"
  define head where "head = head_for sb g seq ?homes"
  define hb where "hb = head @ replicate (BLOCK - HEAD) 0"
  define g2 where "g2 = g(?J := hb)"
  have homes: "map fst L = ?homes" using F by (simp add: L)
  have lh: "length head = HEAD" using F by (simp add: head_def length_head_for)
  have J: "?J < n" using payload_below [OF sb journal_in_log [OF sb]] .
  have gL: "g (log_slot sb i) = snd (L ! i)" if "i < length L" for i using that by (simp add: L)
  have fF: "fst F = sb" by (simp add: F)
  let ?E = "\<lambda>e v. broken sb n x e v \<or> broken sb n y e v"
  have idle_crash: "crashed sb n x v" if "state F n (idle_K sb x) g' v" for g' v
    by (rule state_crashed [OF that fF]) (rule idle_stands [OF sb])
  have commit_crash: "?E (Err Interrupted) v" if "state F n (commit_K sb x g hb) g' v" "halted v" for g' v
    using state_allowed(2) [OF that(1)] commit_stands [OF sb L(2) F(5) L(3), of hb g "replicate (BLOCK - HEAD) 0" "dblock (vcache v)"]
      that gL by (auto simp: broken_def crashed_def state_def within_def fields_def F dev_def hb_def head_def homes)
  have s1: "ensures (state F n (idle_K sb x) g) (on_cache flush) (\<lambda>_. state F n (commit_K sb x g hb) g) ?E"
  proof (rule ensures_post [OF flush_step])
    fix v assume v: "state F n (idle_K sb x) g v \<and> clean v"
    have "commit_K sb x g hb b (g b)" for b
      using state_allowed(1) [of F n "idle_K sb x" g v b] v by (auto simp: idle_K_def commit_K_def split: if_splits)
    then show "state F n (commit_K sb x g hb) g v" using v by (auto intro: state_clean)
  qed (auto simp: broken_def intro: idle_crash)
  have bc: "fst (build_commit plain_page sb seq ?homes (g, n)) = Ok head"
    unfolding head_def by (rule build_commit_plain [OF sb]) (use F in \<open>auto simp: MAX_STAGED_def\<close>)
  have s2: "ensures (state F n (commit_K sb x g hb) g) (on_cache (build_commit page sb seq ?homes))
      (\<lambda>h v. state F n (commit_K sb x g hb) g v \<and> h = head) ?E"
    by (rule ensures_post [OF passes_step [OF cached.passes_build_commit]])
      (use bc commit_crash in auto)
  have s3: "ensures (state F n (commit_K sb x g hb) g) (on_cache (edit ?J (put_head head))) (\<lambda>_. state F n (commit_K sb x g hb) g2) ?E"
  proof (rule ensures_pre [where P = "\<lambda>v. length (g ?J) = BLOCK \<and> state F n (commit_K sb x g hb) g v"])
    show "ensures (\<lambda>v. length (g ?J) = BLOCK \<and> state F n (commit_K sb x g hb) g v) (on_cache (edit ?J (put_head head)))
        (\<lambda>_. state F n (commit_K sb x g hb) g2) ?E"
    proof (cases "length (g ?J) = BLOCK")
      case True
      then have hb': "put_head head (g ?J) = (Ok (), hb)" by (simp add: put_head_eq lh hb_def)
      have "ensures (state F n (commit_K sb x g hb) g) (on_cache (edit ?J (put_head head))) (\<lambda>_. state F n (commit_K sb x g hb) g2) ?E"
      proof (rule ensures_post [OF edit_step])
        show "\<forall>p. length p = BLOCK \<longrightarrow> length (snd (put_head head p)) = BLOCK" by (simp add: length_put_head lh)
        show "commit_K sb x g hb ?J (snd (put_head head (g ?J)))" "?J < n" by (simp_all add: hb' commit_K_def J)
      qed (use commit_crash in \<open>auto simp: hb' g2_def\<close>)
      then show ?thesis by (rule ensures_pre) simp
    qed (simp add: ensures_def)
  qed (use state_length [OF _ J] in auto)
  have log: "logged sb L g2"
    by (rule logged_head [where d = g and seq = seq and rest = "replicate (BLOCK - HEAD) 0"])
      (use sb L(2) F gL in \<open>auto simp: g2_def hb_def head_def homes\<close>)
  have s4: "ensures (state F n (commit_K sb x g hb) g2) (on_cache flush) (\<lambda>_. state F n (apply_K sb g2 x y) (brought sb L g2 x y {})) ?E"
  proof (rule ensures_post [OF flush_step])
    fix v assume v: "state F n (commit_K sb x g hb) g2 v \<and> clean v"
    have off: "g2 b = x b" if "b \<notin> log_area sb" for b
      using state_allowed(1) [of F n "commit_K sb x g hb" g2 v b] v that journal_in_log [OF sb] log_area_payload [OF sb]
      by (auto simp: commit_K_def split: if_splits)
    have "apply_K sb g2 x y b (g2 b)" for b using off [of b] by (simp add: apply_K_def)
    then have "state F n (apply_K sb g2 x y) g2 v"
      using v state_clean [of F n "commit_K sb x g hb" g2 v "apply_K sb g2 x y"] by blast
    then show "state F n (apply_K sb g2 x y) (brought sb L g2 x y {}) v" using off by (simp add: brought_none)
  qed (use commit_crash in blast)
  have s5: "ensures (state F n (apply_K sb g2 x y) (brought sb L g2 x y {})) (for_act ?order apply_one)
      (\<lambda>_. state F n (apply_K sb g2 x y) (brought sb L g2 x y ({} \<union> set ?order))) ?E"
    by (rule bring_loop [where P = "\<lambda>S. state F n (apply_K sb g2 x y) (brought sb L g2 x y S)"],
        rule ensures_post [OF apply_one_step [OF sb F(1) log L(3)]])
      (use order F(2) in \<open>auto simp: L(1) split: if_splits\<close>)
  have all: "{} \<union> set ?order = {0..<length L}" using order by (auto simp: L(1))
  have s6: "ensures (state F n (apply_K sb g2 x y) (brought sb L g2 x y {0..<length L}))
      (bind_act finish_log (\<lambda>_. update (\<lambda>v. v\<lparr>vcount := 0\<rparr>))) (\<lambda>_ v. \<exists>g. state (sb, seq, st, 0) n (idle_K sb y) g v) ?E"
    by (rule ensures_bind [where R = "\<lambda>_ v. \<exists>g. state F n (idle_K sb y) g v"],
        rule ensures_post [OF finish_step [OF sb fF log L(3)]])
      (auto simp: state_def fields_def F)
  have tail: "ensures (state F n (commit_K sb x g hb) g2)
      (bind_act (on_cache flush) (\<lambda>_. bind_act (for_act ?order apply_one) (\<lambda>_. bind_act finish_log (\<lambda>_. update (\<lambda>v. v\<lparr>vcount := 0\<rparr>)))))
      (\<lambda>_ v. \<exists>g. state (sb, seq, st, 0) n (idle_K sb y) g v) ?E"
    by (rule ensures_bind [OF s4], rule ensures_bind [OF s5], unfold all, rule s6)
  let ?rest = "\<lambda>head. bind_act (on_cache (edit ?J (put_head head))) (\<lambda>_. bind_act (on_cache flush) (\<lambda>_.
      bind_act (for_act ?order apply_one) (\<lambda>_. bind_act finish_log (\<lambda>_. update (\<lambda>v. v\<lparr>vcount := 0\<rparr>)))))"
  have "ensures (state F n (idle_K sb x) g)
      (bind_act (on_cache flush) (\<lambda>_. bind_act (on_cache (build_commit page sb seq ?homes)) ?rest))
      (\<lambda>_ v. \<exists>g. state (sb, seq, st, 0) n (idle_K sb y) g v) ?E"
  proof (rule ensures_bind [OF s1], rule ensures_bind [OF s2], rule ensures_given)
    show "ensures (state F n (commit_K sb x g hb) g) (?rest h) (\<lambda>_ v. \<exists>g. state (sb, seq, st, 0) n (idle_K sb y) g v) ?E"
      if "h = head" for h
      unfolding that by (rule ensures_bind [OF s3 tail])
  qed
  then show ?thesis
  proof (rule ensures_cong [rotated])
    fix v assume "state F n (idle_K sb x) g v"
    then have "vsb v = sb" "sequence v = seq" "staged v = st" "vcount v = k" by (auto simp: state_def fields_def F)
    then show "commit_transaction order v =
        bind_act (on_cache flush) (\<lambda>_. bind_act (on_cache (build_commit page sb seq ?homes)) ?rest) v"
      using F(3) sb by (simp add: commit_transaction_def finish_log_def bind_assoc Let_def bind_J)
  qed
qed

end
