(* ===== verification/FsRecover.thy ===== *)
theory FsRecover
  imports FsCommit
begin

text \<open>Mounting a device replays what its log has committed, however often it is interrupted.\<close>

lemma replay_one_step:
  assumes sb: "sb_sound sb n" and F: "fst F = sb" and L: "logged sb L d0" "after sb L x y" and i: "i < length L"
  shows "ensures (state F n (apply_K sb d0 x y) (brought sb L d0 x y S)) (replay_one sb (journal_start sb) i)
    (\<lambda>_. state F n (apply_K sb d0 x y) (brought sb L d0 x y (insert i S))) (broken sb n y)"
proof -
  let ?g = "brought sb L d0 x y S"
  have i8: "i < MAX_STAGED" using L(1) i by (simp add: logged_def log_ok_def)
  have "logged sb L ?g" using L(1) logged_cong [OF sb, of ?g d0] by (simp add: brought_def)
  then have home: "fst (home plain_page sb i (?g, n)) = Ok (fst (L ! i))" by (rule home_plain [OF sb _ i])
  have read: "ensures (state F n (apply_K sb d0 x y) ?g) (on_cache (home page sb i))
      (\<lambda>to v. state F n (apply_K sb d0 x y) ?g v \<and> to = fst (L ! i)) (broken sb n y)"
    by (rule ensures_post [OF passes_step [OF cached.passes_home]])
      (use home in \<open>auto simp: broken_def intro: state_crashed [OF _ F] apply_stands [OF sb L]\<close>)
  have "ensures (state F n (apply_K sb d0 x y) ?g)
      (bind_act (of_result (payload_block (journal_start sb) i)) (\<lambda>from. on_cache (copy from to)))
      (\<lambda>_. state F n (apply_K sb d0 x y) (brought sb L d0 x y (insert i S))) (broken sb n y)" if "to = fst (L ! i)" for to
    using bring_step [OF sb F L i, of S] i8 sb that by simp
  then show ?thesis
    unfolding replay_one_def by (intro ensures_bind [OF read] ensures_given) simp
qed

lemma recover_logged:
  assumes sb: "sb_sound sb n" and F: "F = (sb, seq, st, k)" and L: "logged sb L g" "after sb L x y"
    and x: "\<And>b. b \<notin> log_area sb \<Longrightarrow> g b = x b" and len: "length (g (journal_start sb)) = BLOCK"
  shows "ensures (state F n (apply_K sb g x y) g) recover
    (\<lambda>r v. r = length L \<and> (\<exists>g seq. state (sb, seq, st, k) n (idle_K sb y) g v)) (broken sb n y)"
proof -
  obtain seq' where c: "commit_in sb g = Some \<lparr>c_sequence = seq', c_count = length L\<rparr>" using L(1) by (auto simp: logged_def)
  let ?c = "\<lparr>c_sequence = seq', c_count = length L\<rparr>" and ?F = "(sb, seq', st, k)"
  let ?K = "apply_K sb g x y" and ?Q = "\<lambda>r v. r = length L \<and> (\<exists>g seq. state (sb, seq, st, k) n (idle_K sb y) g v)"
  have fF: "fst F = sb" by (simp add: F)
  have none: "brought sb L g x y {} = g" by (rule brought_none) (simp add: x)
  have read: "ensures (state F n ?K g) (on_cache (committed page sb)) (\<lambda>found v. state F n ?K g v \<and> found = Some ?c) (broken sb n y)"
    by (rule ensures_post [OF passes_step [OF cached.passes_committed]])
      (use committed_plain [OF sb, of g] c len in
        \<open>auto simp: broken_def intro: state_crashed [OF _ fF] apply_stands [OF sb L]\<close>)
  have loop: "ensures (state ?F n ?K (brought sb L g x y {})) (for_act [0..<length L] (replay_one sb (journal_start sb)))
      (\<lambda>_. state ?F n ?K (brought sb L g x y ({} \<union> set [0..<length L]))) (broken sb n y)"
    by (rule bring_loop [where P = "\<lambda>S. state ?F n ?K (brought sb L g x y S)"], rule replay_one_step [OF sb _ L]) simp_all
  have fin: "ensures (state ?F n ?K (brought sb L g x y {0..<length L})) (bind_act finish_log (\<lambda>_. ret (length L))) ?Q (broken sb n y)"
    by (rule ensures_bind [OF finish_step [OF sb _ L]]) auto
  have rest: "ensures (state ?F n ?K g)
      (bind_act (for_act [0..<length L] (replay_one sb (journal_start sb))) (\<lambda>_. bind_act finish_log (\<lambda>_. ret (length L)))) ?Q (broken sb n y)"
    using ensures_bind [OF loop [simplified none]] fin by simp
  have body: "ensures (state F n ?K g)
      (bind_act (on_cache (committed page sb)) (\<lambda>found.
         case found of None \<Rightarrow> ret 0
         | Some commit \<Rightarrow>
             bind_act (update (\<lambda>v. v\<lparr>sequence := c_sequence commit\<rparr>)) (\<lambda>_.
             bind_act (for_act [0..<c_count commit] (replay_one sb (journal_start sb))) (\<lambda>_.
             bind_act finish_log (\<lambda>_. ret (c_count commit)))))) ?Q (broken sb n y)"
  proof (rule ensures_bind [OF read], rule ensures_given)
    fix found assume found: "found = Some ?c"
    have upd: "ensures (state F n ?K g) (update (\<lambda>v. v\<lparr>sequence := seq'\<rparr>)) (\<lambda>_. state ?F n ?K g) (broken sb n y)"
      by (auto simp: state_def fields_def F)
    from ensures_bind [OF upd rest] show "ensures (state F n ?K g) (case found of None \<Rightarrow> ret 0
         | Some commit \<Rightarrow>
             bind_act (update (\<lambda>v. v\<lparr>sequence := c_sequence commit\<rparr>)) (\<lambda>_.
             bind_act (for_act [0..<c_count commit] (replay_one sb (journal_start sb))) (\<lambda>_.
             bind_act finish_log (\<lambda>_. ret (c_count commit))))) ?Q (broken sb n y)"
      by (simp add: found)
  qed
  show ?thesis
    by (rule ensures_cong [OF _ body])
      (use sb in \<open>auto simp: recover_def state_def fields_def F finish_log_def bind_assoc bind_J cong: option.case_cong\<close>)
qed

lemma recover_blank:
  assumes sb: "sb_sound sb n" and F: "fst F = sb" and g: "blank sb g" and len: "length (g (journal_start sb)) = BLOCK"
  shows "ensures (state F n (idle_K sb x) g) recover (\<lambda>r v. r = 0 \<and> state F n (idle_K sb x) g v) (broken sb n x)"
proof -
  have read: "ensures (state F n (idle_K sb x) g) (on_cache (committed page sb))
      (\<lambda>found v. state F n (idle_K sb x) g v \<and> found = None) (broken sb n x)"
    by (rule ensures_post [OF passes_step [OF cached.passes_committed]])
      (use committed_plain [OF sb, of g] len commit_in_blank [OF g] in
        \<open>auto simp: broken_def intro: state_crashed [OF _ F] idle_stands [OF sb]\<close>)
  let ?rest = "\<lambda>found. case found of None \<Rightarrow> ret 0
     | Some commit \<Rightarrow>
         bind_act (update (\<lambda>v. v\<lparr>sequence := c_sequence commit\<rparr>)) (\<lambda>_.
         bind_act (of_result (to_u32 (journal_start sb))) (\<lambda>start.
         bind_act (for_act [0..<c_count commit] (replay_one sb start)) (\<lambda>_.
         bind_act (on_cache flush) (\<lambda>_. bind_act clear_commit (\<lambda>_. ret (c_count commit))))))"
  have body: "ensures (state F n (idle_K sb x) g) (bind_act (on_cache (committed page sb)) ?rest)
      (\<lambda>r v. r = 0 \<and> state F n (idle_K sb x) g v) (broken sb n x)"
    by (rule ensures_bind [OF read], rule ensures_given) simp
  show ?thesis
    by (rule ensures_cong [OF _ body]) (use F in \<open>auto simp: recover_def state_def fields_def prod_eq_iff [of _ F]\<close>)
qed

subsection \<open>Mounting\<close>

definition fresh_fields :: "superblock \<Rightarrow> u64 \<Rightarrow> fields" where
  "fresh_fields sb seq = (sb, seq, replicate MAX_STAGED 0, 0)"

text \<open>A volume between two operations, whose filesystem is \<open>x\<close>.\<close>

definition idle :: "superblock \<Rightarrow> nat \<Rightarrow> (nat \<Rightarrow> u8 list) \<Rightarrow> volume \<Rightarrow> bool" where
  "idle sb n x v \<longleftrightarrow> vsb v = sb \<and> length (staged v) = MAX_STAGED \<and> within n (idle_K sb x) (vcache v)"

lemma idle_state: "state F n (idle_K sb x) g v \<Longrightarrow> fst F = sb \<Longrightarrow> length (fst (snd (snd F))) = MAX_STAGED \<Longrightarrow> idle sb n x v"
  by (auto simp: state_def idle_def fields_def)

lemma stands_zero:
  assumes "sb_sound sb n" "stands sb d x"
  shows "x 0 = d 0"
proof -
  have "0 \<notin> log_area sb" using assms(1) by (simp add: log_area_def sb_sound_def)
  moreover have "overlay L d 0 = d 0" if "logged sb L d" for L
  proof -
    have "0 \<notin> fst ` set L" using that by (auto simp: logged_def log_ok_def home_ok_def)
    then have "map_of L 0 = None" by (simp add: map_of_eq_None_iff)
    then show ?thesis by (simp add: overlay_def)
  qed
  ultimately show ?thesis using assms(2) unfolding stands_def by metis
qed

lemma recover_step:
  assumes sb: "sb_sound sb n" and x: "stands sb d x"
    and v: "vsb v = sb" "staged v = replicate MAX_STAGED 0" "cache_ready (vcache v)" "cblocks (vcache v) = n"
      "view (vcache v) = d" "dblock (vcache v) = d"
    and run: "recover v = (r, v')"
  shows "case r of Inl e \<Rightarrow> broken sb n x e v' | Inr k \<Rightarrow> idle sb n x v'"
proof -
  have J: "journal_start sb < n" using payload_below [OF sb journal_in_log [OF sb]] .
  have len: "length (d (journal_start sb)) = BLOCK" using v J length_view [of "vcache v"] by (auto simp: cache_ready_def)
  let ?F = "(sb, sequence v, staged v, vcount v)"
  show ?thesis
  proof (cases "blank sb d \<and> (\<forall>b. b \<notin> log_area sb \<longrightarrow> d b = x b)")
    case True
    then have K: "idle_K sb x b (d b)" for b
      using log_area_payload [OF sb] by (auto simp: idle_K_def blank_def blankb_def)
    have "state ?F n (idle_K sb x) d v" using v K by (simp add: state_def fields_def within_def)
    note ok = ensures_ok [OF recover_blank [OF sb _ conjunct1 [OF True] len] this]
      and err = ensures_error [OF recover_blank [OF sb _ conjunct1 [OF True] len] this]
    show ?thesis
    proof (cases r)
      case (Inl e)
      then show ?thesis using err run by simp
    next
      case (Inr k)
      then have "state ?F n (idle_K sb x) d v'" using ok run by simp
      then show ?thesis using Inr v by (auto intro: idle_state)
    qed
  next
    case False
    then obtain L where L: "logged sb L d" and y: "\<And>b. b \<notin> log_area sb \<Longrightarrow> overlay L d b = x b"
      using x unfolding stands_def by blast
    have a: "after sb L d x" using y by (simp add: after_def)
    have "state ?F n (apply_K sb d d x) d v" using v by (simp add: state_def fields_def within_def apply_K_def)
    note ok = ensures_ok [OF recover_logged [OF sb refl L a refl len] this]
      and err = ensures_error [OF recover_logged [OF sb refl L a refl len] this]
    show ?thesis
    proof (cases r)
      case (Inl e)
      then show ?thesis using err run by simp
    next
      case (Inr k)
      then show ?thesis using ok run v by (auto intro: idle_state)
    qed
  qed
qed

lemma mount_step:
  assumes sb: "sb_sound sb n" and x: "stands sb (dblock c) x" and head: "read_head (dblock c 0) n = Ok sb"
    and c: "cache_ready c" "cblocks c = n" "dirty_set c = {}" and run: "mount c = (r, c')"
  shows "case r of
      Inl e \<Rightarrow> e = Err Interrupted \<and> stopped c' \<and> stands sb (dblock c') x
    | Inr (v, k) \<Rightarrow> vcache v = c' \<and> idle sb n x v"
proof -
  have ok: "cache_ok c" using c(1) by (simp add: cache_ready_def)
  have n0: "0 < n" using sb by (auto simp: sb_sound_def)
  have vd: "view c = dblock c" using view_clean [OF ok] c(3) by auto
  obtain r1 c1 where p: "page 0 c = (r1, c1)" by (cases "page 0 c")
  have blocks: "store_blocks (device c) = n" using c(2) by (simp add: cblocks_def)
  from ok p show ?thesis
  proof (cases rule: page_cases)
    case page
    have s: "view c1 = dblock c" "dblock c1 = dblock c" "cblocks c1 = n" "cache_ready c1"
      using page(2) vd c spare_evolves [OF ok, of c1] by (auto simp: settles_def evolves_def cache_ready_def)
    define v0 where "v0 = \<lparr>vcache = c1, vsb = sb, sequence = 0, staged = replicate MAX_STAGED 0, vcount = 0\<rparr>"
    obtain r2 v2 where rec: "recover v0 = (r2, v2)" by (cases "recover v0")
    have "case r2 of Inl e \<Rightarrow> broken sb n x e v2 | Inr k \<Rightarrow> idle sb n x v2"
      by (rule recover_step [OF sb x _ _ _ _ _ _ rec]) (simp_all add: v0_def s)
    moreover have "(r, c') = (case r2 of Inl e \<Rightarrow> (Inl e, vcache v2) | Inr k \<Rightarrow> (Ok (v2, k), vcache v2))"
      using run page p head rec vd
      by (simp add: mount_def blocks bind_act_def [of "page 0"] v0_def [symmetric] split: sum.splits)
    ultimately show ?thesis by (auto simp: broken_def halted_def crashed_def dev_def split: sum.splits)
  next
    case (refused e)
    then have "e = Err Interrupted \<and> stopped c1" using c n0 by (auto simp: refused_def cache_ready_def)
    moreover have "dblock c1 = dblock c" using refused(2) c(3) by (auto simp: settles_def evolves_def)
    moreover have "r = Inl e" "c' = c1" using run refused p by (auto simp: mount_def bind_act_def [of "page 0"])
    ultimately show ?thesis using x by simp
  qed
qed

lemma idle_stands_dev: "sb_sound sb n \<Longrightarrow> idle sb n x v \<Longrightarrow> stands sb (dev v) x"
  by (rule idle_stands) (auto simp: idle_def within_def dev_def)

end
