(* ===== verification/FsStage.thy ===== *)
theory FsStage
  imports FsRecover
begin

text \<open>
  Building a transaction. While it is built the volume's filesystem is still \<open>x\<close> and the staged
  blocks describe another, \<open>y\<close>; each step that stages a change is a change of \<open>y\<close>, and the commit
  makes \<open>y\<close> the filesystem. \<open>H\<close> bounds the blocks a transaction stages.
\<close>

definition staging :: "superblock \<Rightarrow> nat \<Rightarrow> nat set \<Rightarrow> (nat \<Rightarrow> u8 list) \<Rightarrow> (nat \<Rightarrow> u8 list) \<Rightarrow> volume \<Rightarrow> bool" where
  "staging sb n H x y v \<longleftrightarrow> idle sb n x v \<and> sequence v \<noteq> 0 \<and> vcount v \<le> MAX_STAGED \<and>
    distinct (take (vcount v) (staged v)) \<and> set (take (vcount v) (staged v)) \<subseteq> H \<and>
    after sb (staged_log sb (staged v) (vcount v) (view (vcache v))) x y"

text \<open>A failed operation: nothing happened to the filesystem.\<close>

definition undone :: "superblock \<Rightarrow> nat \<Rightarrow> (nat \<Rightarrow> u8 list) \<Rightarrow> fs_error failure set \<Rightarrow> fs_error failure \<Rightarrow> volume \<Rightarrow> bool" where
  "undone sb n x Z e v \<longleftrightarrow> idle sb n x v \<and> (e = Err Interrupted \<and> halted v \<or> e \<in> Z)"

definition homes_ok :: "superblock \<Rightarrow> nat set \<Rightarrow> bool" where
  "homes_ok sb H \<longleftrightarrow> finite H \<and> (\<forall>b \<in> H. home_ok sb b)"

text \<open>The error of a transaction that is too big.\<close>

definition too_big :: "nat set \<Rightarrow> fs_error failure set" where
  "too_big H = (if MAX_STAGED < card H then {Err Full} else {})"

subsection \<open>The staged blocks as a change\<close>

lemma overlay_staged:
  assumes "distinct (take k st)" "k \<le> length st"
  shows "i < k \<Longrightarrow> overlay (staged_log sb st k g) x (st ! i) = g (log_slot sb i)"
    "b \<notin> set (take k st) \<Longrightarrow> overlay (staged_log sb st k g) x b = x b"
proof -
  have d: "distinct (map fst (staged_log sb st k g))" using assms by simp
  show "overlay (staged_log sb st k g) x (st ! i) = g (log_slot sb i)" if "i < k"
  proof -
    have "(st ! i, g (log_slot sb i)) \<in> set (staged_log sb st k g)" using that by (auto simp: staged_log_def)
    then have "map_of (staged_log sb st k g) (st ! i) = Some (g (log_slot sb i))" using d by (simp add: map_of_eq_Some_iff)
    then show ?thesis by (simp add: overlay_def)
  qed
  show "overlay (staged_log sb st k g) x b = x b" if "b \<notin> set (take k st)"
  proof -
    have "map_of (staged_log sb st k g) b = None"
      using that assms(2) by (metis (no_types) map_of_eq_None_iff set_map staged_log_simps(3))
    then show ?thesis by (simp add: overlay_def)
  qed
qed

lemma take_Suc_update: "k < length st \<Longrightarrow> take (Suc k) (st[k := b]) = take k st @ [b]"
  by (simp add: take_Suc_conv_app_nth)

lemma after_stage:
  assumes "after sb (staged_log sb st k g) x y" "distinct (take k st)" "k < length st" "b \<notin> set (take k st)" "b \<notin> log_area sb"
    "g b = x b" "\<And>i. i < k \<Longrightarrow> log_slot sb i \<noteq> log_slot sb k"
  shows "after sb (staged_log sb (st[k := b]) (Suc k) (g(log_slot sb k := g b))) x y"
proof -
  let ?st = "st[k := b]" and ?g = "g(log_slot sb k := g b)"
  have d: "distinct (take (Suc k) ?st)" "Suc k \<le> length ?st" using assms by (simp_all add: take_Suc_update)
  have "overlay (staged_log sb ?st (Suc k) ?g) x c = overlay (staged_log sb st k g) x c" for c
  proof -
    consider i where "i < k" "c = st ! i" | "c = b" | "c \<notin> set (take (Suc k) ?st)" "c \<notin> set (take k st)"
      using assms(3) by (auto simp: take_Suc_update in_set_conv_nth)
    then show ?thesis
    proof cases
      case (1 i)
      then show ?thesis
        using overlay_staged(1) [OF d, of i sb ?g x] overlay_staged(1) [OF assms(2) _ 1(1), of sb g x] assms(3,7) by simp
    next
      case 2
      then show ?thesis
        using overlay_staged(1) [OF d, of k sb ?g x] overlay_staged(2) [OF assms(2) _ assms(4), of sb g x] assms(3,6) by simp
    next
      case 3
      then show ?thesis
        using overlay_staged(2) [OF d 3(1), of sb ?g x] overlay_staged(2) [OF assms(2) _ 3(2), of sb g x] assms(3) by simp
    qed
  qed
  then show ?thesis using assms(1) by (simp add: after_def)
qed

lemma after_edit:
  assumes "after sb (staged_log sb st k g) x y" "distinct (take k st)" "k \<le> length st" "i < k"
    "\<And>j. j < k \<Longrightarrow> log_slot sb j = log_slot sb i \<Longrightarrow> j = i"
  shows "after sb (staged_log sb st k (g(log_slot sb i := w))) x (y(st ! i := w))"
proof -
  let ?g = "g(log_slot sb i := w)"
  have "overlay (staged_log sb st k ?g) x c = (if c = st ! i then w else overlay (staged_log sb st k g) x c)" for c
  proof -
    consider j where "j < k" "c = st ! j" | "c \<notin> set (take k st)"
      using assms(3) by (auto simp: in_set_conv_nth)
    then show ?thesis
    proof cases
      case (1 j)
      have "st ! j = st ! i \<longleftrightarrow> j = i" using assms(2,3,4) 1(1) by (auto simp: distinct_conv_nth)
      then show ?thesis
        using overlay_staged(1) [OF assms(2,3) 1(1), of sb] assms(5) [OF 1(1)] 1 by auto
    next
      case 2
      then have "c \<noteq> st ! i" using assms(3,4) by (auto simp: in_set_conv_nth)
      then show ?thesis using overlay_staged(2) [OF assms(2,3) 2, of sb] by simp
    qed
  qed
  then show ?thesis using assms(1) by (simp add: after_def)
qed

subsection \<open>Steps\<close>

lemma idle_unfold:
  "idle sb n x v \<longleftrightarrow> length (staged v) = MAX_STAGED \<and> vsb v = sb \<and> state (fields v) n (idle_K sb x) (view (vcache v)) v"
  by (auto simp: idle_def state_def)

lemma begin_step:
  assumes sb: "sb_sound sb n"
  shows "ensures (idle sb n x) begin_transaction (\<lambda>_. staging sb n H x x) (undone sb n x {})"
proof (rule ensuresI)
  have J: "journal_start sb < n" using payload_below [OF sb journal_in_log [OF sb]] .
  have pend: "ensures (state F n (idle_K sb x) g) (on_cache (pending page sb)) (\<lambda>w v. state F n (idle_K sb x) g v \<and> \<not> w)
      (\<lambda>e v. state F n (idle_K sb x) g v \<and> e = Err Interrupted \<and> halted v)"
    if "idle_K sb x (journal_start sb) (g (journal_start sb))" "length (g (journal_start sb)) = BLOCK" for F g
  proof -
    have "blank sb g" using that(1) by (simp add: idle_K_def blank_def blankb_def)
    then have "fst (committed plain_page sb (g, n)) = Ok None" using committed_plain [OF sb, of g] that(2) commit_in_blank by simp
    then have "fst (pending plain_page sb (g, n)) = Ok False"
      by (simp add: pending_def bind_plain [OF cached.passes_committed [unfolded cached.passes_def, THEN conjunct1]] ret_def)
    then show ?thesis by (intro ensures_post [OF passes_step [OF cached.passes_pending]]) auto
  qed
  fix s :: volume
  assume s: "idle sb n x s"
  have st: "state (fields s) n (idle_K sb x) (view (vcache s)) s" and v: "vsb s = sb" using s by (auto simp: idle_unfold)
  note p = pend [where g = "view (vcache s)" and F = "fields s", OF state_allowed(1) [OF st] state_length [OF st J]]
  show "staging sb n H x x s'" if run: "begin_transaction s = (Inr r, s')" for r s'
  proof -
    obtain w s1 where r1: "on_cache (pending page sb) s = (Inr w, s1)" and s1: "\<not> w"
        "s' = s1\<lparr>vcount := 0, sequence := max (sequence s1 + 1) 1\<rparr>"
      using run ensures_ok [OF p st] v
      by (auto simp: begin_transaction_def bind_act_def [of "on_cache (pending page sb)"] fail_def update_def split: prod.splits sum.splits if_splits)
    have "state (fields s) n (idle_K sb x) (view (vcache s)) s1" using ensures_ok [OF p st r1] by simp
    then have "idle sb n x s1" using s by (auto simp: idle_def state_def fields_def)
    then have "idle sb n x s'" by (simp add: s1 idle_def)
    moreover have "sequence s' \<noteq> 0" using s1(2) by (auto simp: max_def)
    ultimately show ?thesis using s1(2) by (simp add: staging_def after_def staged_log_def overlay_def)
  qed
  show "undone sb n x {} e s'" if "begin_transaction s = (Inl e, s')" for e s'
  proof -
    have r1: "on_cache (pending page sb) s = (Inl e, s')"
      using that ensures_ok [OF p st] v
      by (auto simp: begin_transaction_def bind_act_def [of "on_cache (pending page sb)"] fail_def update_def split: prod.splits sum.splits if_splits)
    then show ?thesis
      using ensures_error [OF p st r1] s by (auto simp: undone_def idle_def state_def fields_def)
  qed
qed

lemma staging_idle: "staging sb n H x y v \<Longrightarrow> idle sb n x v"
  by (simp add: staging_def)

lemma idle_view: "idle sb n x v \<Longrightarrow> b \<notin> log_area sb \<Longrightarrow> sb_sound sb n \<Longrightarrow> view (vcache v) b = x b"
  using log_area_payload [of sb n] journal_in_log [of sb n] by (auto simp: idle_def within_def idle_K_def split: if_splits)

lemma stage_fresh:
  assumes sb: "sb_sound sb n" and v: "staging sb n H x y v" and b: "b \<in> H" "home_ok sb b" "b \<notin> set (take (vcount v) (staged v))"
    and k: "vcount v < MAX_STAGED" and run: "stage b v = (r, v')"
  shows "case r of Inr slot \<Rightarrow> staging sb n H x y v' \<and> slot < vcount v' \<and> staged v' ! slot = b | Inl e \<Rightarrow> undone sb n x {} e v'"
proof -
  let ?k = "vcount v" and ?g = "view (vcache v)" and ?to = "log_slot sb (vcount v)"
  have i: "idle sb n x v" by (rule staging_idle [OF v])
  then have st: "state (fields v) n (idle_K sb x) ?g v" "vsb v = sb" and len: "length (staged v) = MAX_STAGED" by (auto simp: idle_unfold)
  have n: "b < n" "?to < n" and slot: "?to \<in> payload sb"
    using b(2) sb log_slot_in [OF sb k] payload_below [OF sb] log_area_payload [OF sb] by (auto simp: home_ok_def sb_sound_def)
  have cp: "ensures (state (fields v) n (idle_K sb x) ?g) (on_cache (copy b ?to)) (\<lambda>_. state (fields v) n (idle_K sb x) (?g(?to := ?g b)))
      (\<lambda>e v'. state (fields v) n (idle_K sb x) ?g v' \<and> e = Err Interrupted \<and> halted v')"
    by (rule copy_step) (use n slot in \<open>simp_all add: idle_K_def\<close>)
  obtain r1 v1 where r1: "on_cache (copy b ?to) v = (r1, v1)" by (cases "on_cache (copy b ?to) v")
  have none: "position (\<lambda>a. a = b) (take ?k (staged v)) = None" using b(3) by (auto simp: position_None_iff)
  have eq: "stage b v = (case r1 of Inl e \<Rightarrow> (Inl e, v1) | Inr _ \<Rightarrow> (Ok ?k, v1\<lparr>staged := (staged v1)[?k := b], vcount := ?k + 1\<rparr>))"
    using none k r1 st(2)
    by (simp add: stage_def Let_def bind_slot_block [OF sb] bind_act_def [of "on_cache (copy b ?to)"] bind_act_def [of "update f" for f]
        update_def ret_def split: sum.split)
  show ?thesis
  proof (cases r1)
    case (Inl e)
    then have "state (fields v) n (idle_K sb x) ?g v1 \<and> e = Err Interrupted \<and> halted v1" using ensures_error [OF cp st(1)] r1 by simp
    then show ?thesis using i run eq Inl by (auto simp: undone_def idle_def state_def fields_def)
  next
    case (Inr u)
    then have s1: "state (fields v) n (idle_K sb x) (?g(?to := ?g b)) v1" using ensures_ok [OF cp st(1)] r1 by simp
    then have f: "vsb v1 = sb" "staged v1 = staged v" "sequence v1 = sequence v" "view (vcache v1) = ?g(?to := ?g b)"
        "within n (idle_K sb x) (vcache v1)"
      using st(2) by (auto simp: state_def fields_def)
    have v': "v' = v1\<lparr>staged := (staged v1)[?k := b], vcount := ?k + 1\<rparr>" "r = Ok ?k" using run eq Inr by auto
    have "after sb (staged_log sb ((staged v)[?k := b]) (Suc ?k) (?g(?to := ?g b))) x y"
      using v b len k idle_view [OF i _ sb, of b]
      by (intro after_stage) (auto simp: staging_def home_ok_def log_slot_def)
    moreover have "idle sb n x v'" using f len by (simp add: v' idle_def)
    ultimately show ?thesis
      using v b len k f by (auto simp: staging_def v' take_Suc_update)
  qed
qed

lemma stage_step:
  assumes sb: "sb_sound sb n" and H: "homes_ok sb H" "b \<in> H"
  shows "ensures (staging sb n H x y) (stage b) (\<lambda>slot v. staging sb n H x y v \<and> slot < vcount v \<and> staged v ! slot = b)
    (undone sb n x (too_big H))"
proof -
  have main: "case r of Inr slot \<Rightarrow> staging sb n H x y v' \<and> slot < vcount v' \<and> staged v' ! slot = b | Inl e \<Rightarrow> undone sb n x (too_big H) e v'"
    if v: "staging sb n H x y v" and run: "stage b v = (r, v')" for v r v'
  proof (cases "position (\<lambda>a. a = b) (take (vcount v) (staged v))")
    case (Some slot)
    then show ?thesis using run v position_SomeD [OF Some] by (auto simp: stage_def)
  next
    case None
    then have new: "b \<notin> set (take (vcount v) (staged v))" by (auto simp: position_None_iff)
    show ?thesis
    proof (cases "vcount v = MAX_STAGED")
      case True
      have "card (set (take (vcount v) (staged v))) = MAX_STAGED"
        using v True by (subst distinct_card) (auto simp: staging_def idle_def)
      moreover have "set (take (vcount v) (staged v)) \<subset> H" using v H(2) new by (auto simp: staging_def)
      ultimately have "MAX_STAGED < card H" using H(1) psubset_card_mono [of H] by (metis homes_ok_def)
      then show ?thesis using run v True None by (auto simp: stage_def undone_def too_big_def staging_def)
    next
      case False
      then have "vcount v < MAX_STAGED" using v by (simp add: staging_def)
      then show ?thesis
        using stage_fresh [OF sb v H(2) _ new _ run] H by (auto simp: homes_ok_def undone_def split: sum.splits)
    qed
  qed
  show ?thesis by (rule ensuresI) (use main in force)+
qed

lemma staged_mut_step:
  assumes sb: "sb_sound sb n" and len: "\<forall>p. length p = BLOCK \<longrightarrow> length (snd (f p)) = BLOCK" and h: "h \<notin> log_area sb"
  shows "ensures (\<lambda>v. staging sb n H x y v \<and> slot < vcount v \<and> staged v ! slot = h) (staged_mut slot f)
    (\<lambda>r v. staging sb n H x (y(h := snd (f (y h)))) v \<and> fst (f (y h)) = Inr r)
    (\<lambda>e v. idle sb n x v \<and> (e = Err Interrupted \<and> halted v \<or> fst (f (y h)) = Inl e))"
proof -
  have main: "case r of
      Inr u \<Rightarrow> staging sb n H x (y(h := snd (f (y h)))) v' \<and> fst (f (y h)) = Inr u
    | Inl e \<Rightarrow> idle sb n x v' \<and> (e = Err Interrupted \<and> halted v' \<or> fst (f (y h)) = Inl e)"
    if v: "staging sb n H x y v" and slot: "slot < vcount v" "staged v ! slot = h" and run: "staged_mut slot f v = (r, v')" for v r v'
  proof -
    let ?g = "view (vcache v)" and ?to = "log_slot sb slot"
    have i: "idle sb n x v" by (rule staging_idle [OF v])
    then have st: "state (fields v) n (idle_K sb x) ?g v" "vsb v = sb" and ln: "length (staged v) = MAX_STAGED" by (auto simp: idle_unfold)
    have k: "slot < MAX_STAGED" "vcount v \<le> length (staged v)" "distinct (take (vcount v) (staged v))" using v slot ln by (auto simp: staging_def)
    have n: "?to < n" and pay: "?to \<in> payload sb"
      using log_slot_in [OF sb k(1)] payload_below [OF sb] log_area_payload [OF sb] by auto
    have y: "y h = ?g ?to"
      using v h slot overlay_staged(1) [OF k(3,2) slot(1), of sb ?g x] by (simp add: staging_def after_def)
    have ed: "ensures (state (fields v) n (idle_K sb x) ?g) (on_cache (edit ?to f))
      (\<lambda>r v'. state (fields v) n (idle_K sb x) (?g(?to := snd (f (?g ?to)))) v' \<and> fst (f (?g ?to)) = Inr r)
      (\<lambda>e v'. state (fields v) n (idle_K sb x) ?g v' \<and> e = Err Interrupted \<and> halted v' \<or>
        state (fields v) n (idle_K sb x) (?g(?to := snd (f (?g ?to)))) v' \<and> fst (f (?g ?to)) = Inl e)"
      by (rule edit_step [OF len]) (use n pay in \<open>simp_all add: idle_K_def\<close>)
    have r1: "on_cache (edit ?to f) v = (r, v')" using run st(2) k(1) by (simp add: staged_mut_def bind_slot_block [OF sb])
    show ?thesis
    proof (cases r)
      case (Inl e)
      then show ?thesis using ensures_error [OF ed st(1)] r1 i y by (auto simp: idle_def state_def fields_def)
    next
      case (Inr u)
      then have s1: "state (fields v) n (idle_K sb x) (?g(?to := snd (f (y h)))) v'" "fst (f (y h)) = Inr u"
        using ensures_ok [OF ed st(1)] r1 y by auto
      then have f: "vsb v' = sb" "staged v' = staged v" "sequence v' = sequence v" "vcount v' = vcount v"
          "view (vcache v') = ?g(?to := snd (f (y h)))" "within n (idle_K sb x) (vcache v')"
        using st(2) by (auto simp: state_def fields_def)
      have "after sb (staged_log sb (staged v) (vcount v) (?g(?to := snd (f (y h))))) x (y(staged v ! slot := snd (f (y h))))"
        using v k slot by (intro after_edit) (auto simp: staging_def log_slot_def)
      then show ?thesis using v f ln s1 slot Inr by (auto simp: staging_def idle_def)
    qed
  qed
  show ?thesis by (rule ensuresI) (use main in force)+
qed

end
