(* ===== verification/FsEffects.thy ===== *)
theory FsEffects
  imports FsStage
begin

text \<open>The changes operations stage, as functions on filesystems, and the steps that stage them.\<close>

definition set_bit_at :: "superblock \<Rightarrow> nat \<Rightarrow> bool \<Rightarrow> (nat \<Rightarrow> u8 list) \<Rightarrow> nat \<Rightarrow> u8 list" where
  "set_bit_at sb b mark y = y(bitmap_holding sb b := snd (put_bit b mark (y (bitmap_holding sb b))))"

definition set_inode :: "superblock \<Rightarrow> u32 \<Rightarrow> inode \<Rightarrow> (nat \<Rightarrow> u8 list) \<Rightarrow> nat \<Rightarrow> u8 list" where
  "set_inode sb index ino y =
    (case inode_at sb index of
       Inl _ \<Rightarrow> y
     | Inr (b, offset) \<Rightarrow> y(b := snd (put_inode offset ino (y b))))"

definition clear_bits :: "superblock \<Rightarrow> nat list \<Rightarrow> (nat \<Rightarrow> u8 list) \<Rightarrow> nat \<Rightarrow> u8 list" where
  "clear_bits sb bs y = fold (\<lambda>b. set_bit_at sb b False) bs y"

subsection \<open>One block changed\<close>

lemma staging_length:
  assumes sb: "sb_sound sb n" and v: "staging sb n H x y v" and b: "b < n" "b \<notin> log_area sb"
  shows "length (y b) = BLOCK"
proof -
  have i: "idle sb n x v" by (rule staging_idle [OF v])
  have ok: "cache_ok (vcache v)" "cblocks (vcache v) = n" using i by (auto simp: idle_def within_def cache_ready_def)
  let ?st = "staged v" and ?k = "vcount v"
  have k: "distinct (take ?k ?st)" "?k \<le> length ?st" "?k \<le> MAX_STAGED" using v i by (auto simp: staging_def idle_def)
  show ?thesis
  proof (cases "b \<in> set (take ?k ?st)")
    case True
    then obtain j where j: "j < ?k" "b = ?st ! j" by (auto simp: in_set_conv_nth)
    then have "y b = view (vcache v) (log_slot sb j)"
      using v b overlay_staged(1) [OF k(1,2) j(1), of sb "view (vcache v)" x] by (simp add: staging_def after_def)
    moreover have "log_slot sb j < n"
      using log_slot_in [OF sb, of j] j k(3) payload_below [OF sb] log_area_payload [OF sb] by auto
    ultimately show ?thesis using ok by simp
  next
    case False
    then have "y b = x b" using v b overlay_staged(2) [OF k(1,2) False, of sb] by (simp add: staging_def after_def)
    also have "\<dots> = view (vcache v) b" using idle_view [OF i b(2) sb] by simp
    finally show ?thesis using ok b by simp
  qed
qed

definition updates :: "superblock \<Rightarrow> (u8 list \<Rightarrow> (fs_error, unit) result \<times> u8 list) \<Rightarrow> bool" where
  "updates sb f \<longleftrightarrow> (\<forall>p. length p = BLOCK \<longrightarrow> fst (f p) = Ok () \<and> length (snd (f p)) = BLOCK)"

lemma undone_mono: "undone sb n x Z e v \<Longrightarrow> Z \<subseteq> Z' \<Longrightarrow> undone sb n x Z' e v"
  by (auto simp: undone_def)

lemma update_step:
  assumes sb: "sb_sound sb n" and H: "homes_ok sb H" "h \<in> H" and f: "updates sb f" and Z: "too_big H \<subseteq> Z"
  shows "ensures (staging sb n H x y) (bind_act (stage h) (\<lambda>slot. staged_mut slot f))
    (\<lambda>_. staging sb n H x (y(h := snd (f (y h))))) (undone sb n x Z)"
proof (rule ensures_knowing [where A = "length (y h) = BLOCK"])
  have h: "h < n" "h \<notin> log_area sb" using H sb by (auto simp: homes_ok_def home_ok_def sb_sound_def)
  show "length (y h) = BLOCK" if "staging sb n H x y v" for v by (rule staging_length [OF sb that h])
  assume len: "length (y h) = BLOCK"
  have "ensures (\<lambda>v. staging sb n H x y v \<and> slot < vcount v \<and> staged v ! slot = h) (staged_mut slot f)
      (\<lambda>_. staging sb n H x (y(h := snd (f (y h))))) (undone sb n x Z)" for slot
    by (rule ensures_post [OF staged_mut_step [OF sb _ h(2)]]) (use f len in \<open>auto simp: updates_def undone_def\<close>)
  moreover have "ensures (staging sb n H x y) (stage h) (\<lambda>slot v. staging sb n H x y v \<and> slot < vcount v \<and> staged v ! slot = h) (undone sb n x Z)"
    by (rule ensures_post [OF stage_step [OF sb H]]) (use Z undone_mono in auto)
  ultimately show "ensures (staging sb n H x y) (bind_act (stage h) (\<lambda>slot. staged_mut slot f))
    (\<lambda>_. staging sb n H x (y(h := snd (f (y h))))) (undone sb n x Z)"
    by (rule ensures_bind [rotated])
qed

subsection \<open>A bit, an inode\<close>

lemma put_bit_updates: "updates sb (put_bit b mark)"
  by (simp add: updates_def put_bit_def get_def Let_def BLOCK_def)

lemma bitmap_holding_range:
  assumes "sb_sound sb n" "b < sb_blocks sb"
  shows "bitmap_start sb \<le> bitmap_holding sb b" "bitmap_holding sb b < inode_start sb"
proof -
  have "b < (inode_start sb - bitmap_start sb) * BLOCK * 8" using assms by (simp add: sb_sound_def)
  then have "b div 8 div BLOCK < inode_start sb - bitmap_start sb"
    by (simp add: less_mult_imp_div_less mult.commute)
  then show "bitmap_holding sb b < inode_start sb" by (simp add: bitmap_holding_def)
qed (simp add: bitmap_holding_def)

lemma metadata_home: "sb_sound sb n \<Longrightarrow> 0 < b \<Longrightarrow> b < journal_start sb \<Longrightarrow> home_ok sb b"
  by (auto simp: home_ok_def sb_sound_def log_area_def)

lemma data_home: "sb_sound sb n \<Longrightarrow> data_start sb \<le> b \<Longrightarrow> b < sb_blocks sb \<Longrightarrow> home_ok sb b"
  by (auto simp: home_ok_def sb_sound_def log_area_def)

lemma stage_bitmap_step:
  assumes sb: "sb_sound sb n" and H: "homes_ok sb H" "bitmap_holding sb b \<in> H" and b: "b < sb_blocks sb" and Z: "too_big H \<subseteq> Z"
  shows "ensures (staging sb n H x y) (stage_bitmap b mark) (\<lambda>_. staging sb n H x (set_bit_at sb b mark y)) (undone sb n x Z)"
proof -
  note r = bitmap_holding_range [OF sb b]
  have u: "to_u32 (bitmap_holding sb b) = Ok (bitmap_holding sb b)" using r sb by (simp add: to_u32_def sb_sound_def)
  have eq: "stage_bitmap b mark v = bind_act (stage (bitmap_holding sb b)) (\<lambda>slot. staged_mut slot (put_bit b mark)) v"
    if "staging sb n H x y v" for v
    using that r u by (simp add: stage_bitmap_def staging_def idle_def)
  show ?thesis unfolding set_bit_at_def
    by (rule ensures_cong [OF eq update_step [OF sb H put_bit_updates Z]])
qed

lemma inode_at_sound:
  assumes sb: "sb_sound sb n" and i: "unat index < sb_inodes sb"
  obtains b offset where "inode_at sb index = Ok (b, offset)" "inode_start sb \<le> b" "b < journal_start sb" "offset + INODE \<le> BLOCK"
    "b * BLOCK + offset = inode_start sb * BLOCK + unat index * INODE"
proof -
  let ?byte = "inode_start sb * BLOCK + unat index * INODE"
  have "unat index * INODE + INODE \<le> sb_inodes sb * INODE" using i mult_le_mono1 [of "Suc (unat index)" "sb_inodes sb" INODE] by simp
  then have below: "?byte + INODE \<le> journal_start sb * BLOCK" using sb by (simp add: sb_sound_def)
  have j: "journal_start sb * BLOCK \<le> 2 ^ 44" using sb by (simp add: sb_sound_def BLOCK_def)
  have fits: "checked_mul 64 (inode_start sb) BLOCK = Some (inode_start sb * BLOCK)"
    "checked_add 64 (inode_start sb * BLOCK) (unat index * INODE) = Some ?byte"
    using below j by (simp_all add: checked_mul_def checked_add_def max_of_def)
  have q: "?byte div BLOCK < journal_start sb" using below by (intro less_mult_imp_div_less) (simp add: INODE_def)
  have s: "inode_start sb \<le> ?byte div BLOCK" by simp
  have u: "\<not> 2 ^ 32 \<le> ?byte div BLOCK" using q sb by (simp add: sb_sound_def)
  have m: "?byte mod BLOCK + INODE \<le> BLOCK"
  proof -
    have "?byte mod BLOCK = unat index mod 64 * 64" by (simp add: BLOCK_def INODE_def mod_mult_right_eq flip: mod_mult_mult2)
    then show ?thesis by (simp add: BLOCK_def INODE_def)
  qed
  show thesis
  proof (rule that)
    show "inode_at sb index = Ok (?byte div BLOCK, ?byte mod BLOCK)" using i fits u by (simp add: inode_at_def)
    show "?byte div BLOCK * BLOCK + ?byte mod BLOCK = ?byte" by (rule div_mult_mod_eq)
  qed (rule s q m)+
qed

lemma put_inode_updates: "offset + INODE \<le> BLOCK \<Longrightarrow> length (direct ino) = 10 \<Longrightarrow> updates sb (put_inode offset ino)"
  by (auto simp: updates_def put_inode_def slice_at_def inode_encode_eq length_inode_fields INODE_def INODE_COVERED_def BLOCK_def)

definition inode_home :: "superblock \<Rightarrow> u32 \<Rightarrow> nat" where
  "inode_home sb index = (inode_start sb * BLOCK + unat index * INODE) div BLOCK"

lemma stage_inode_step:
  assumes sb: "sb_sound sb n" and H: "homes_ok sb H" "inode_home sb index \<in> H" and i: "unat index < sb_inodes sb"
    and ino: "length (direct ino) = 10" and Z: "too_big H \<subseteq> Z"
  shows "ensures (staging sb n H x y) (stage_inode index ino) (\<lambda>_. staging sb n H x (set_inode sb index ino y)) (undone sb n x Z)"
proof -
  obtain b offset where a: "inode_at sb index = Ok (b, offset)" and o: "offset + INODE \<le> BLOCK"
      "b * BLOCK + offset = inode_start sb * BLOCK + unat index * INODE"
    by (rule inode_at_sound [OF sb i])
  have "offset < BLOCK" using o(1) by (simp add: INODE_def)
  then have b: "inode_home sb index = b" unfolding inode_home_def o(2) [symmetric] by simp
  have eq: "stage_inode index ino v = bind_act (stage b) (\<lambda>slot. staged_mut slot (put_inode offset ino)) v"
    if "staging sb n H x y v" for v
    using that a by (simp add: stage_inode_def staging_def idle_def)
  have up: "ensures (staging sb n H x y) (bind_act (stage b) (\<lambda>slot. staged_mut slot (put_inode offset ino)))
      (\<lambda>_. staging sb n H x (y(b := snd (put_inode offset ino (y b))))) (undone sb n x Z)"
    by (rule update_step [OF sb H(1) _ put_inode_updates [OF o(1) ino] Z]) (use H b in simp)
  show ?thesis unfolding set_inode_def a using ensures_cong [OF eq up] by simp
qed

lemma commit_staging:
  assumes sb: "sb_sound sb n" and H: "homes_ok sb H"
  shows "ensures (staging sb n H x y) (commit_transaction []) (\<lambda>_. idle sb n y) (\<lambda>e v. broken sb n x e v \<or> broken sb n y e v)"
proof -
  have main: "case r of Inr _ \<Rightarrow> idle sb n y v' | Inl e \<Rightarrow> broken sb n x e v' \<or> broken sb n y e v'"
    if v: "staging sb n H x y v" and run: "commit_transaction [] v = (r, v')" for v r v'
  proof (cases "vcount v = 0")
    case True
    then have xy: "y b = x b" if "b \<notin> log_area sb" for b
      using v that by (simp add: staging_def after_def staged_log_def overlay_def)
    have "idle_K sb x b w \<longleftrightarrow> idle_K sb y b w" for b w
      using xy [of b] unfolding idle_K_def log_area_payload [OF sb] by (cases "b \<in> payload sb") simp_all
    then have "idle sb n y v" using v by (simp add: staging_def idle_def within_def)
    then show ?thesis using run True by (auto simp: commit_transaction_def)
  next
    case False
    let ?g = "view (vcache v)" and ?F = "(sb, sequence v, staged v, vcount v)"
    have i: "idle sb n x v" by (rule staging_idle [OF v])
    have st: "state ?F n (idle_K sb x) ?g v" using i by (auto simp: idle_def state_def fields_def)
    have len: "length (staged v) = MAX_STAGED" using i by (simp add: idle_def)
    have k: "vcount v \<le> MAX_STAGED" "sequence v \<noteq> 0" using v by (auto simp: staging_def)
    have ne: "staged_log sb (staged v) (vcount v) ?g \<noteq> []" using False by (simp add: staged_log_def)
    have homes: "map fst (staged_log sb (staged v) (vcount v) ?g) = take (vcount v) (staged v)" using len k by simp
    have log: "log_ok sb (staged_log sb (staged v) (vcount v) ?g)"
      unfolding log_ok_def homes using ne v H k by (auto simp: staging_def homes_ok_def)
    have aft: "after sb (staged_log sb (staged v) (vcount v) ?g) x y" using v by (simp add: staging_def)
    have cs: "ensures (state ?F n (idle_K sb x) ?g) (commit_transaction []) (\<lambda>_ v'. \<exists>g. state (sb, sequence v, staged v, 0) n (idle_K sb y) g v')
       (\<lambda>e v. broken sb n x e v \<or> broken sb n y e v)"
      by (rule commit_step [OF sb refl len _ k refl log aft]) (use False in simp_all)
    show ?thesis
    proof (cases r)
      case (Inl e)
      then show ?thesis using ensures_error [OF cs st] run by simp
    next
      case (Inr u)
      then obtain g where "state (sb, sequence v, staged v, 0) n (idle_K sb y) g v'" using ensures_ok [OF cs st] run by auto
      then show ?thesis using Inr len by (auto intro: idle_state)
    qed
  qed
  show ?thesis by (rule ensuresI) (use main in force)+
qed

end
