(* ===== verification/FsTruncate.thy ===== *)
theory FsTruncate
  imports FsEffects
begin

text \<open>\<open>truncate\<close>: an interrupted one happened or did not, and what it does when it happens.\<close>

subsection \<open>Reading while idle\<close>

definition off_log :: "superblock \<Rightarrow> nat \<Rightarrow> (plain, 'a) act \<Rightarrow> (nat \<Rightarrow> u8 list) \<Rightarrow> bool" where
  "off_log sb n p x \<longleftrightarrow> (\<forall>g. (\<forall>b. b \<notin> log_area sb \<longrightarrow> g b = x b) \<longrightarrow> fst (p (g, n)) = fst (p (x, n)))"

lemma idle_passes:
  assumes sb: "sb_sound sb n" and a: "cached.passes a p" and p: "off_log sb n p x"
  shows "ensures (idle sb n x) (on_cache a) (\<lambda>r v. idle sb n x v \<and> fst (p (x, n)) = Inr r)
    (\<lambda>e v. idle sb n x v \<and> (fst (p (x, n)) = Inl e \<or> e = Err Interrupted \<and> halted v))"
proof -
  have main: "idle sb n x v' \<and> (case r of Inr u \<Rightarrow> fst (p (x, n)) = Inr u | Inl e \<Rightarrow> fst (p (x, n)) = Inl e \<or> e = Err Interrupted \<and> halted v')"
    if v: "idle sb n x v" and run: "on_cache a v = (r, v')" for v r v'
  proof -
    let ?g = "view (vcache v)"
    have st: "state (fields v) n (idle_K sb x) ?g v" using v by (simp add: idle_unfold)
    have "\<forall>b. b \<notin> log_area sb \<longrightarrow> ?g b = x b" using idle_view [OF v _ sb] by blast
    then have same: "fst (p (?g, n)) = fst (p (x, n))" using p unfolding off_log_def by blast
    have "state (fields v) n (idle_K sb x) ?g v' \<and>
        (case r of Inr u \<Rightarrow> fst (p (x, n)) = Inr u | Inl e \<Rightarrow> fst (p (x, n)) = Inl e \<or> e = Err Interrupted \<and> halted v')"
      using ensures_run [OF passes_step [OF a] st run] by (auto simp: same split: sum.splits)
    then show ?thesis using v by (auto simp: idle_def state_def fields_def)
  qed
  show ?thesis by (rule ensuresI) (use main in force)+
qed

definition inode_of :: "superblock \<Rightarrow> nat \<Rightarrow> (nat \<Rightarrow> u8 list) \<Rightarrow> u32 \<Rightarrow> (fs_error, inode) result" where
  "inode_of sb n x index = fst (fs_inode plain_page sb index (x, n))"

lemma inode_of_eq:
  assumes sb: "sb_sound sb n" and a: "inode_at sb index = Ok (b, offset)" "b < journal_start sb"
  shows "inode_of sb n x index = (case slice_at (x b) offset INODE of None \<Rightarrow> Error OutOfRange | Some slot \<Rightarrow> inode_decode slot)"
proof -
  have "b < n" using sb a by (auto simp: sb_sound_def)
  then show ?thesis using a by (simp add: inode_of_def fs_inode_def or_range_def of_result_def split: option.split)
qed

lemma inode_of_range: "inode_of sb n x index = Ok ino \<Longrightarrow> unat index < sb_inodes sb"
  by (auto simp: inode_of_def fs_inode_def inode_at_def bind_act_def of_result_def split: if_splits)

lemma off_log_inode: "sb_sound sb n \<Longrightarrow> off_log sb n (fs_inode plain_page sb index) x"
proof (cases "unat index < sb_inodes sb")
  case True
  assume sb: "sb_sound sb n"
  obtain b offset where a: "inode_at sb index = Ok (b, offset)" "b < journal_start sb" by (rule inode_at_sound [OF sb True])
  then have "b \<notin> log_area sb" by (simp add: log_area_def)
  then show ?thesis using inode_of_eq [OF sb a] by (simp add: off_log_def inode_of_def)
qed (simp add: off_log_def fs_inode_def inode_at_def bind_act_def of_result_def)

lemma vol_inode_step:
  assumes sb: "sb_sound sb n"
  shows "ensures (idle sb n x) (vol_inode index) (\<lambda>ino v. idle sb n x v \<and> inode_of sb n x index = Ok ino)
    (\<lambda>e v. idle sb n x v \<and> (inode_of sb n x index = Inl e \<or> e = Err Interrupted \<and> halted v))"
proof -
  have eq: "vol_inode index v = on_cache (fs_inode page sb index) v" if "idle sb n x v" for v
    using that by (simp add: vol_inode_def idle_def)
  show ?thesis unfolding inode_of_def
    by (rule ensures_cong [OF eq idle_passes [OF sb cached.passes_inode off_log_inode [OF sb]]])
qed

lemma inode_decode_direct: "inode_decode slot = Ok ino \<Longrightarrow> length (direct ino) = 10"
proof -
  have "length ys = length xs" if "those xs = Some ys" for xs :: "u32 option list" and ys
    using that by (induction xs arbitrary: ys) (auto split: option.splits)
  then show "inode_decode slot = Ok ino \<Longrightarrow> length (direct ino) = 10"
    by (auto simp: inode_decode_def Let_def free_inode_value_def split: if_splits option.splits)
qed

lemma inode_of_direct: "inode_of sb n x index = Ok ino \<Longrightarrow> length (direct ino) = 10"
  by (auto simp: inode_of_def fs_inode_def bind_act_def of_result_def split: prod.splits sum.splits dest: inode_decode_direct)

subsection \<open>The blocks of a file\<close>

definition table_numbers :: "u8 list \<Rightarrow> u32 list" where
  "table_numbers p = map (\<lambda>slot. from_le_bytes (load p (slot * 4) 4)) [0..<SLOTS]"

lemma those_table: "length p = BLOCK \<Longrightarrow> those (map (\<lambda>slot. u32_at p (slot * 4)) [0..<SLOTS]) = Some (table_numbers p)"
proof -
  assume "length p = BLOCK"
  then have "map (\<lambda>slot. u32_at p (slot * 4)) [0..<SLOTS] = map Some (table_numbers p)"
    by (auto simp: table_numbers_def u32_at_def slice_at_def SLOTS_def BLOCK_def)
  then show ?thesis by (simp add: those_map_Some)
qed

text \<open>What \<open>free_contents\<close> gives back, in its order.\<close>

definition contents :: "(nat \<Rightarrow> u8 list) \<Rightarrow> inode \<Rightarrow> nat list" where
  "contents x file = map unat (takeWhile (\<lambda>b. b \<noteq> 0) (direct file)) @
    (if indirect file = 0 then []
     else map unat (takeWhile (\<lambda>b. b \<noteq> 0) (table_numbers (x (unat (indirect file))))) @ [unat (indirect file)])"

text \<open>The file holds data blocks only.\<close>

definition owns_data :: "superblock \<Rightarrow> (nat \<Rightarrow> u8 list) \<Rightarrow> inode \<Rightarrow> bool" where
  "owns_data sb x file \<longleftrightarrow> (\<forall>b \<in> set (contents x file). data_start sb \<le> b \<and> b < sb_blocks sb)"

lemma clear_bits_append: "clear_bits sb (bs @ cs) y = clear_bits sb cs (clear_bits sb bs y)"
  by (simp add: clear_bits_def)

lemma free_each:
  assumes sb: "sb_sound sb n" and H: "homes_ok sb H" and Z: "too_big H \<subseteq> Z"
    and bs: "\<And>b. b \<in> set bs \<Longrightarrow> unat b < sb_blocks sb \<and> bitmap_holding sb (unat b) \<in> H"
  shows "ensures (staging sb n H x y) (for_act bs (\<lambda>b. stage_bitmap (unat b) False))
    (\<lambda>_. staging sb n H x (clear_bits sb (map unat bs) y)) (undone sb n x Z)"
  using bs
proof (induction bs arbitrary: y)
  case (Cons b bs)
  have "ensures (staging sb n H x y) (stage_bitmap (unat b) False) (\<lambda>_. staging sb n H x (set_bit_at sb (unat b) False y)) (undone sb n x Z)"
    by (rule stage_bitmap_step [OF sb H _ _ Z]) (simp_all add: Cons.prems)
  moreover have "ensures (staging sb n H x (set_bit_at sb (unat b) False y)) (for_act bs (\<lambda>b. stage_bitmap (unat b) False))
      (\<lambda>_. staging sb n H x (clear_bits sb (map unat bs) (set_bit_at sb (unat b) False y))) (undone sb n x Z)"
    by (rule Cons.IH) (simp add: Cons.prems)
  ultimately show ?case by (simp add: clear_bits_def ensures_bind)
qed (simp add: clear_bits_def)

lemma staging_look:
  assumes sb: "sb_sound sb n" and b: "b < n" "b \<notin> log_area sb"
  shows "ensures (staging sb n H x y) (on_cache (edit b (\<lambda>p. (h p, p)))) (\<lambda>r v. staging sb n H x y v \<and> h (x b) = Inr r)
    (\<lambda>e v. idle sb n x v \<and> (h (x b) = Inl e \<or> e = Err Interrupted \<and> halted v))"
proof -
  have main: "case r of Inr u \<Rightarrow> staging sb n H x y v' \<and> h (x b) = Inr u
      | Inl e \<Rightarrow> idle sb n x v' \<and> (h (x b) = Inl e \<or> e = Err Interrupted \<and> halted v')"
    if v: "staging sb n H x y v" and run: "on_cache (edit b (\<lambda>p. (h p, p))) v = (r, v')" for v r v'
  proof -
    let ?g = "view (vcache v)"
    have i: "idle sb n x v" by (rule staging_idle [OF v])
    then have st: "state (fields v) n (idle_K sb x) ?g v" by (simp add: idle_unfold)
    have gb: "?g b = x b" by (rule idle_view [OF i b(2) sb])
    have "ensures (state (fields v) n (idle_K sb x) ?g) (on_cache (edit b (\<lambda>p. (h p, p))))
        (\<lambda>r v'. state (fields v) n (idle_K sb x) ?g v' \<and> h (x b) = Inr r)
        (\<lambda>e v'. state (fields v) n (idle_K sb x) ?g v' \<and> (h (x b) = Inl e \<or> e = Err Interrupted \<and> halted v'))"
      by (rule ensures_post [OF edit_step]) (use state_allowed(1) [OF st, of b] b(1) in \<open>auto simp: gb fun_upd_idem\<close>)
    from ensures_run [OF this st run] show ?thesis
      using v i by (auto simp: staging_def idle_def state_def fields_def split: sum.splits)
  qed
  show ?thesis by (rule ensuresI) (use main in force)+
qed

lemma free_contents_step:
  assumes sb: "sb_sound sb n" and H: "homes_ok sb H" and Z: "too_big H \<subseteq> Z" and own: "owns_data sb x file"
    and hold: "\<And>b. b \<in> set (contents x file) \<Longrightarrow> bitmap_holding sb b \<in> H"
  shows "ensures (staging sb n H x y) (free_contents file) (\<lambda>_. staging sb n H x (clear_bits sb (contents x file) y)) (undone sb n x Z)"
proof -
  let ?d = "takeWhile (\<lambda>b. b \<noteq> 0) (direct file)" and ?i = "unat (indirect file)"
  have range: "unat b < sb_blocks sb \<and> bitmap_holding sb (unat b) \<in> H" if "unat b \<in> set (contents x file)" for b :: u32
    using that own hold by (simp add: owns_data_def)
  have direct: "ensures (staging sb n H x y) (for_act ?d (\<lambda>b. stage_bitmap (unat b) False))
      (\<lambda>_. staging sb n H x (clear_bits sb (map unat ?d) y)) (undone sb n x Z)"
    by (rule free_each [OF sb H Z], rule range) (simp add: contents_def)
  show ?thesis
  proof (cases "indirect file = 0")
    case True
    then show ?thesis using direct unfolding free_contents_def contents_def by (auto intro: ensures_bind)
  next
    case False
    let ?ns = "takeWhile (\<lambda>b. b \<noteq> 0) (table_numbers (x ?i))"
    have "?i \<in> set (contents x file)" using False by (simp add: contents_def)
    then have i: "data_start sb \<le> ?i" "?i < sb_blocks sb" using own by (auto simp: owns_data_def)
    then have in': "?i < n" "?i \<notin> log_area sb" using sb by (auto simp: sb_sound_def log_area_def)
    have look: "ensures (staging sb n H x y1)
        (on_cache (edit ?i (\<lambda>p. (or_range (those (map (\<lambda>slot. u32_at p (slot * 4)) [0..<SLOTS])), p))))
        (\<lambda>numbers v. staging sb n H x y1 v \<and> numbers = table_numbers (x ?i)) (undone sb n x Z)" for y1
    proof (rule ensures_knowing [where A = "length (x ?i) = BLOCK"])
      show "length (x ?i) = BLOCK" if "staging sb n H x y1 v" for v
        using idle_view [OF staging_idle [OF that] in'(2) sb] staging_idle [OF that] in'
        by (metis idle_def length_view within_def cache_ready_def)
      show "ensures (staging sb n H x y1)
          (on_cache (edit ?i (\<lambda>p. (or_range (those (map (\<lambda>slot. u32_at p (slot * 4)) [0..<SLOTS])), p))))
          (\<lambda>numbers v. staging sb n H x y1 v \<and> numbers = table_numbers (x ?i)) (undone sb n x Z)" if "length (x ?i) = BLOCK"
        by (rule ensures_post [OF staging_look [OF sb in']]) (use those_table [OF that] in \<open>auto simp: or_range_def undone_def\<close>)
    qed
    have table: "ensures (staging sb n H x y1) (for_act ?ns (\<lambda>b. stage_bitmap (unat b) False))
        (\<lambda>_. staging sb n H x (clear_bits sb (map unat ?ns) y1)) (undone sb n x Z)" for y1
      by (rule free_each [OF sb H Z], rule range) (use False in \<open>simp add: contents_def\<close>)
    have last: "ensures (staging sb n H x y1) (stage_bitmap ?i False) (\<lambda>_. staging sb n H x (clear_bits sb [?i] y1)) (undone sb n x Z)" for y1
      unfolding clear_bits_def by (simp, rule stage_bitmap_step [OF sb H _ _ Z]) (use range [of "indirect file"] False in \<open>simp_all add: contents_def\<close>)
    have "ensures (staging sb n H x y1 ) (bind_act (for_act ?ns (\<lambda>b. stage_bitmap (unat b) False)) (\<lambda>_. stage_bitmap ?i False))
        (\<lambda>_. staging sb n H x (clear_bits sb [?i] (clear_bits sb (map unat ?ns) y1))) (undone sb n x Z)" for y1
      by (rule ensures_bind [OF table last])
    then have tail: "ensures (staging sb n H x y1)
       (bind_act (on_cache (edit ?i (\<lambda>p. (or_range (those (map (\<lambda>slot. u32_at p (slot * 4)) [0..<SLOTS])), p)))) (\<lambda>numbers.
         bind_act (for_act (takeWhile (\<lambda>b. b \<noteq> 0) numbers) (\<lambda>b. stage_bitmap (unat b) False)) (\<lambda>_. stage_bitmap ?i False)))
       (\<lambda>_. staging sb n H x (clear_bits sb [?i] (clear_bits sb (map unat ?ns) y1))) (undone sb n x Z)" for y1
      by (intro ensures_bind [OF look] ensures_given) simp
    have "clear_bits sb (contents x file) y = clear_bits sb [?i] (clear_bits sb (map unat ?ns) (clear_bits sb (map unat ?d) y))"
      using False by (simp add: contents_def clear_bits_append)
    then show ?thesis using ensures_bind [OF direct tail] False by (simp add: free_contents_def)
  qed
qed

subsection \<open>The whole operation\<close>

definition emptied :: "inode \<Rightarrow> inode" where
  "emptied file = file\<lparr>isize := 0, direct := replicate 10 0, indirect := 0\<rparr>"

definition truncated :: "superblock \<Rightarrow> u32 \<Rightarrow> inode \<Rightarrow> (nat \<Rightarrow> u8 list) \<Rightarrow> nat \<Rightarrow> u8 list" where
  "truncated sb index file x =
    (if isize file = 0 \<and> indirect file = 0 \<and> direct file ! 0 = 0 then x
     else set_inode sb index (emptied file) (clear_bits sb (contents x file) x))"

definition truncate_homes :: "superblock \<Rightarrow> u32 \<Rightarrow> inode \<Rightarrow> (nat \<Rightarrow> u8 list) \<Rightarrow> nat set" where
  "truncate_homes sb index file x = insert (inode_home sb index) (set (map (bitmap_holding sb) (contents x file)))"

lemma inode_home_range:
  assumes sb: "sb_sound sb n" and i: "unat index < sb_inodes sb"
  shows "inode_start sb \<le> inode_home sb index" "inode_home sb index < journal_start sb"
proof -
  obtain b offset where o: "inode_start sb \<le> b" "b < journal_start sb" "offset + INODE \<le> BLOCK"
      "b * BLOCK + offset = inode_start sb * BLOCK + unat index * INODE"
    by (rule inode_at_sound [OF sb i])
  have "offset < BLOCK" using o(3) by (simp add: INODE_def)
  then have "inode_home sb index = b" unfolding inode_home_def o(4) [symmetric] by simp
  then show "inode_start sb \<le> inode_home sb index" "inode_home sb index < journal_start sb" using o by simp_all
qed

lemma inode_home_ok: "sb_sound sb n \<Longrightarrow> unat index < sb_inodes sb \<Longrightarrow> home_ok sb (inode_home sb index)"
  using inode_home_range [of sb n index] by (intro metadata_home) (auto simp: sb_sound_def)

lemma bitmap_home_ok: "sb_sound sb n \<Longrightarrow> b < sb_blocks sb \<Longrightarrow> home_ok sb (bitmap_holding sb b)"
  using bitmap_holding_range [of sb n b] by (intro metadata_home) (auto simp: sb_sound_def)

lemma contents_homes_ok:
  "sb_sound sb n \<Longrightarrow> owns_data sb x file \<Longrightarrow> homes_ok sb (set (map (bitmap_holding sb) (contents x file)))"
  using bitmap_home_ok by (auto simp: homes_ok_def owns_data_def)

lemma homes_ok_insert: "home_ok sb b \<Longrightarrow> homes_ok sb H \<Longrightarrow> homes_ok sb (insert b H)"
  by (simp add: homes_ok_def)

lemma truncate_step:
  assumes sb: "sb_sound sb n" and fl: "inode_of sb n x index = Ok file" "ikind file = File" and own: "owns_data sb x file"
  defines "H \<equiv> truncate_homes sb index file x" and "y \<equiv> truncated sb index file x"
  shows "ensures (idle sb n x) (truncate index) (\<lambda>_. idle sb n y)
    (\<lambda>e v. undone sb n x (too_big H) e v \<or> broken sb n x e v \<or> broken sb n y e v)"
proof -
  let ?E = "\<lambda>e v. undone sb n x (too_big H) e v \<or> broken sb n x e v \<or> broken sb n y e v"
  have i: "unat index < sb_inodes sb" by (rule inode_of_range [OF fl(1)])
  have H: "homes_ok sb H" unfolding H_def truncate_homes_def
    by (rule homes_ok_insert [OF inode_home_ok [OF sb i] contents_homes_ok [OF sb own]])
  have read: "ensures (idle sb n x) (vol_inode index) (\<lambda>ino v. idle sb n x v \<and> ino = file) ?E"
    by (rule ensures_post [OF vol_inode_step [OF sb]]) (use fl in \<open>auto simp: undone_def\<close>)
  have free: "ensures (staging sb n H x x) (free_contents file) (\<lambda>_. staging sb n H x (clear_bits sb (contents x file) x)) ?E"
    by (rule ensures_post [OF free_contents_step [OF sb H order_refl own]]) (auto simp: H_def truncate_homes_def)
  have node: "ensures (staging sb n H x z) (stage_inode index (emptied file)) (\<lambda>_. staging sb n H x (set_inode sb index (emptied file) z)) ?E" for z
    by (rule ensures_post [OF stage_inode_step [OF sb H _ i]]) (auto simp: H_def truncate_homes_def emptied_def)
  let ?y = "set_inode sb index (emptied file) (clear_bits sb (contents x file) x)"
  have body: "ensures (idle sb n x)
      (bind_act begin_transaction (\<lambda>_. bind_act (free_contents file) (\<lambda>_. bind_act (stage_inode index (emptied file)) (\<lambda>_. commit_transaction []))))
      (\<lambda>_. idle sb n y) ?E" if "\<not> (isize file = 0 \<and> indirect file = 0 \<and> direct file ! 0 = 0)"
  proof -
    have y: "y = ?y" using that by (auto simp: y_def truncated_def)
    have bg: "ensures (idle sb n x) begin_transaction (\<lambda>_. staging sb n H x x) ?E"
      by (rule ensures_post [OF begin_step [OF sb]]) (auto simp: undone_def)
    have commit: "ensures (staging sb n H x ?y) (commit_transaction []) (\<lambda>_. idle sb n y) ?E"
      unfolding y by (rule ensures_post [OF commit_staging [OF sb H]]) auto
    show ?thesis by (rule ensures_bind [OF bg], rule ensures_bind [OF free], rule ensures_bind [OF node commit])
  qed
  have whole: "ensures (idle sb n x)
      (if isize file = 0 \<and> indirect file = 0 \<and> direct file ! 0 = 0 then ret ()
       else bind_act begin_transaction (\<lambda>_. bind_act (free_contents file) (\<lambda>_. bind_act (stage_inode index (emptied file)) (\<lambda>_. commit_transaction []))))
      (\<lambda>_. idle sb n y) ?E"
    by (rule ensures_if [OF _ body]) (simp_all add: y_def truncated_def)
  show ?thesis
    unfolding truncate_def
  proof (rule ensures_bind [OF read], rule ensures_given)
    fix ino assume ino: "ino = file"
    show "ensures (idle sb n x)
      (if ikind ino \<noteq> File then fail WrongKind
       else if isize ino = 0 \<and> indirect ino = 0 \<and> direct ino ! 0 = 0 then ret ()
       else bind_act begin_transaction (\<lambda>_. bind_act (free_contents ino) (\<lambda>_.
         bind_act (stage_inode index (ino\<lparr>isize := 0, direct := replicate 10 0, indirect := 0\<rparr>)) (\<lambda>_. commit_transaction []))))
      (\<lambda>_. idle sb n y) ?E"
      using whole fl(2) unfolding ino emptied_def by (simp split del: if_split)
  qed
qed

end
