(* ===== verification/FsDirectory.thy ===== *)
theory FsDirectory
  imports FsTruncate
begin

text \<open>A directory as the list of its entries, and the readers of directories over plain content.\<close>

definition entry_in :: "u8 list \<Rightarrow> nat \<Rightarrow> dir_entry" where
  "entry_in p off = \<lparr>e_inode = from_le_bytes (load p off 4), e_name = load p (off + 5) MAX_NAME, e_length = min (p ! (off + 4)) (of_nat MAX_NAME)\<rparr>"

lemma load_load: "m + k \<le> n \<Longrightarrow> off + n \<le> length p \<Longrightarrow> load (load p off n) m k = load p (off + m) k"
  by (simp add: load_def take_drop min_def add.commute)

lemma entry_read_in: "off + ENTRY \<le> length p \<Longrightarrow> entry_read p off = Ok (entry_in p off)"
  by (simp add: entry_read_def slice_at_def u32_at_def get_def ENTRY_def MAX_NAME_def entry_in_def load_load nth_load)

definition entries :: "inode \<Rightarrow> nat" where
  "entries dir = unat (isize dir) div ENTRY"

definition dir_block :: "inode \<Rightarrow> nat \<Rightarrow> nat" where
  "dir_block dir i = unat (direct dir ! (i div PER))"

definition dir_list :: "(nat \<Rightarrow> u8 list) \<Rightarrow> inode \<Rightarrow> dir_entry list" where
  "dir_list x dir = map (\<lambda>i. entry_in (x (dir_block dir i)) (i mod PER * ENTRY)) [0..<entries dir]"

definition live :: "dir_entry \<Rightarrow> bool" where
  "live e \<longleftrightarrow> e_inode e \<noteq> 0 \<or> e_length e \<noteq> 0"

text \<open>A directory whose entries lie in data blocks that its direct block numbers name.\<close>

definition dir_ok :: "superblock \<Rightarrow> inode \<Rightarrow> bool" where
  "dir_ok sb dir \<longleftrightarrow> ikind dir = Directory \<and> length (direct dir) = 10 \<and> entries dir \<le> 10 * PER \<and>
    (\<forall>i < entries dir. data_start sb \<le> dir_block dir i \<and> dir_block dir i < sb_blocks sb)"

lemma PER_pos [simp]: "0 < PER"
  by (simp add: PER_def BLOCK_def ENTRY_def)

lemma entry_place: "i * ENTRY div BLOCK = i div PER" "i * ENTRY mod BLOCK = i mod PER * ENTRY" "i mod PER * ENTRY + ENTRY \<le> BLOCK"
proof -
  have b: "BLOCK = PER * ENTRY" by (simp add: PER_def BLOCK_def ENTRY_def)
  show "i * ENTRY div BLOCK = i div PER" unfolding b by (simp add: ENTRY_def)
  show "i * ENTRY mod BLOCK = i mod PER * ENTRY" unfolding b by (simp add: mult_mod_left)
  have "Suc (i mod PER) * ENTRY \<le> PER * ENTRY" by (intro mult_le_mono1 Suc_leI) simp
  then show "i mod PER * ENTRY + ENTRY \<le> BLOCK" unfolding b by simp
qed

lemma dir_ok_block:
  assumes "sb_sound sb n" "dir_ok sb dir" "i < entries dir"
  shows "i div PER < 10" "in_filesystem sb (direct dir ! (i div PER)) = Some (dir_block dir i)" "dir_block dir i < n"
    "dir_block dir i \<notin> log_area sb" "home_ok sb (dir_block dir i)"
proof -
  have "i < 10 * PER" using assms by (simp add: dir_ok_def)
  then show "i div PER < 10" by (simp add: less_mult_imp_div_less)
  have r: "data_start sb \<le> dir_block dir i" "dir_block dir i < sb_blocks sb" using assms by (auto simp: dir_ok_def)
  then have "direct dir ! (i div PER) \<noteq> 0" using assms(1) by (auto simp: dir_block_def sb_sound_def)
  then show "in_filesystem sb (direct dir ! (i div PER)) = Some (dir_block dir i)"
    using r by (simp add: in_filesystem_def dir_block_def)
  show "dir_block dir i < n" "dir_block dir i \<notin> log_area sb" using r assms(1) by (auto simp: sb_sound_def log_area_def)
  show "home_ok sb (dir_block dir i)" by (rule data_home [OF assms(1) r])
qed

subsection \<open>Reading a directory\<close>

definition sized :: "nat \<Rightarrow> (nat \<Rightarrow> u8 list) \<Rightarrow> superblock \<Rightarrow> bool" where
  "sized n x sb \<longleftrightarrow> (\<forall>b < n. b \<notin> log_area sb \<longrightarrow> length (x b) = BLOCK)"

lemma idle_sized: "sb_sound sb n \<Longrightarrow> idle sb n x v \<Longrightarrow> sized n x sb"
  using idle_view [of sb n x v] by (auto simp: sized_def idle_def within_def cache_ready_def) (metis length_view)

lemma list_from_plain_dir:
  assumes sb: "sb_sound sb n" and x: "sized n x sb" and dir: "dir_ok sb dir" and below: "\<And>i. i \<in> set is \<Longrightarrow> i < entries dir"
  shows "fst (list_from plain_page sb dir is (x, n)) =
    Ok (filter live (map (\<lambda>i. entry_in (x (dir_block dir i)) (i mod PER * ENTRY)) is))"
  using below
proof (induction "is")
  case (Cons i "is")
  have i: "i < entries dir" using Cons.prems by simp
  note d = dir_ok_block [OF sb dir i]
  have "fst (block_of plain_page sb dir (i div PER) (x, n)) = Ok (Some (dir_block dir i))"
    using d dir by (simp add: block_of_def ret_def dir_ok_def)
  moreover have "entry_read (x (dir_block dir i)) (i mod PER * ENTRY) = Ok (entry_in (x (dir_block dir i)) (i mod PER * ENTRY))"
    using x d entry_place(3) by (intro entry_read_in) (simp add: sized_def)
  moreover have "fst (plain_page (dir_block dir i) (x, n)) = Ok (x (dir_block dir i))" using d by (simp add: plain_page_def)
  moreover have "fst (list_from plain_page sb dir is (x, n)) =
      Ok (filter live (map (\<lambda>i. entry_in (x (dir_block dir i)) (i mod PER * ENTRY)) is))"
    by (rule Cons.IH) (simp add: Cons.prems)
  ultimately show ?case unfolding cached.list_from_plain entry_place live_def [symmetric] by simp
qed (simp add: ret_def)

definition lookup_of :: "superblock \<Rightarrow> nat \<Rightarrow> (nat \<Rightarrow> u8 list) \<Rightarrow> inode \<Rightarrow> u8 list \<Rightarrow> (fs_error, u32 \<times> inode) result" where
  "lookup_of sb n x dir name = fst (fs_lookup plain_page sb dir name (x, n))"

lemma lookup_of_eq:
  assumes sb: "sb_sound sb n" and x: "sized n x sb" and dir: "dir_ok sb dir"
  shows "lookup_of sb n x dir name =
    (case find (\<lambda>e. entry_name e = name) (filter live (dir_list x dir)) of
       None \<Rightarrow> Error NoSuchName
     | Some e \<Rightarrow> (case inode_of sb n x (e_inode e) of Inl er \<Rightarrow> Inl er | Inr ino \<Rightarrow> Ok (e_inode e, ino)))"
  using list_from_plain_dir [OF sb x dir, of "[0..<entries dir]"] dir
  by (simp add: lookup_of_def fs_lookup_def fs_list_def dir_ok_def bind_plain [OF cached.reads_looks [OF cached.reads_list_from]]
      bind_plain [OF cached.reads_looks [OF cached.reads_inode]] fail_def ret_def inode_of_def dir_list_def entries_def split: option.split sum.split)

lemma find_entry_plain:
  assumes sb: "sb_sound sb n" and x: "sized n x sb" and dir: "dir_ok sb dir" and below: "\<And>i. i \<in> set is \<Longrightarrow> i < entries dir"
  shows "fst (find_entry plain_page dir name is (x, n)) =
    Ok (find (\<lambda>i. entry_name (entry_in (x (dir_block dir i)) (i mod PER * ENTRY)) = name) is)"
  using below
proof (induction "is")
  case (Cons i "is")
  have i: "i < entries dir" using Cons.prems by simp
  note d = dir_ok_block [OF sb dir i]
  have "entry_read (x (dir_block dir i)) (i mod PER * ENTRY) = Ok (entry_in (x (dir_block dir i)) (i mod PER * ENTRY))"
    using x d entry_place(3) by (intro entry_read_in) (simp add: sized_def)
  then show ?case
    using d Cons dir by (auto simp: get_def dir_ok_def dir_block_def [symmetric] ret_def)
qed (simp add: ret_def)

end
