(* ===== verification/FsRemove.thy ===== *)
theory FsRemove
  imports FsDirectory
begin

text \<open>\<open>remove\<close>: an interrupted one happened or did not, and what it does when it happens.\<close>

definition given_up :: "superblock \<Rightarrow> nat \<Rightarrow> (nat \<Rightarrow> u8 list) \<Rightarrow> fs_error failure set \<Rightarrow> fs_error failure \<Rightarrow> volume \<Rightarrow> bool" where
  "given_up sb n x Z e v \<longleftrightarrow> idle sb n x v \<and> (halted v \<or> e \<in> Z)"

lemma undone_given_up: "undone sb n x Z e v \<Longrightarrow> given_up sb n x Z e v"
  by (auto simp: undone_def given_up_def)

lemma idle_finds:
  assumes sb: "sb_sound sb n" and a: "cached.finds a p" and p: "off_log sb n p x"
  shows "ensures (idle sb n x) (on_cache a) (\<lambda>r v. idle sb n x v \<and> fst (p (x, n)) = Inr r)
    (\<lambda>e v. idle sb n x v \<and> (fst (p (x, n)) = Inl e \<or> halted v))"
proof -
  have main: "idle sb n x v' \<and> (r = fst (p (x, n)) \<or> isl r \<and> halted v')"
    if v: "idle sb n x v" and run: "on_cache a v = (r, v')" for v r v'
  proof -
    obtain c' where c: "a (vcache v) = (r, c')" "v' = v\<lparr>vcache := c'\<rparr>" using run by (auto simp: on_cache_def split: prod.splits)
    have "\<forall>b. b \<notin> log_area sb \<longrightarrow> view (vcache v) b = x b" using idle_view [OF v _ sb] by blast
    then have same: "fst (p (view (vcache v), n)) = fst (p (x, n))" using p unfolding off_log_def by blast
    have ready: "cache_ready (vcache v)" and n: "cblocks (vcache v) = n" and w: "within n (idle_K sb x) (vcache v)"
      using v by (auto simp: idle_def within_def)
    have "settles (vcache v) c' \<and> (r = fst (p (x, n)) \<or> isl r \<and> stopped c')"
      using a ready c(1) unfolding cached.finds_def by (auto simp: cache_content_def n same)
    then show ?thesis using v within_settles [OF w, of c'] c(2) by (auto simp: idle_def halted_def)
  qed
  show ?thesis by (rule ensuresI) (use main in fastforce)+
qed

lemma off_log_lookup:
  assumes sb: "sb_sound sb n" and x: "sized n x sb" and dir: "dir_ok sb dir"
  shows "off_log sb n (fs_lookup plain_page sb dir name) x"
proof -
  have "lookup_of sb n g dir name = lookup_of sb n x dir name" if g: "\<forall>b. b \<notin> log_area sb \<longrightarrow> g b = x b" for g
  proof -
    have "sized n g sb" using x g by (auto simp: sized_def)
    moreover have "dir_list g dir = dir_list x dir"
      using g dir_ok_block(4) [OF sb dir] by (auto simp: dir_list_def)
    moreover have "inode_of sb n g i = inode_of sb n x i" for i
      using off_log_inode [OF sb, of i x] g unfolding off_log_def inode_of_def by blast
    ultimately show ?thesis unfolding lookup_of_eq [OF sb x dir] by (subst lookup_of_eq [OF sb _ dir]) (simp_all split: option.split)
  qed
  then show ?thesis unfolding off_log_def lookup_of_def by blast
qed

lemma vol_lookup_step:
  assumes sb: "sb_sound sb n" and dir: "inode_of sb n x directory = Ok dir" "dir_ok sb dir"
  shows "ensures (idle sb n x) (vol_lookup directory name) (\<lambda>r v. idle sb n x v \<and> lookup_of sb n x dir name = Ok r)
    (\<lambda>e v. idle sb n x v \<and> (lookup_of sb n x dir name = Inl e \<or> halted v))"
proof (rule ensures_knowing [where A = "sized n x sb"])
  show "idle sb n x v \<Longrightarrow> sized n x sb" for v by (rule idle_sized [OF sb])
  assume x: "sized n x sb"
  have node: "ensures (idle sb n x) (on_cache (fs_inode page sb directory)) (\<lambda>d v. idle sb n x v \<and> d = dir)
      (\<lambda>e v. idle sb n x v \<and> (lookup_of sb n x dir name = Inl e \<or> halted v))"
    by (rule ensures_post [OF idle_passes [OF sb cached.passes_inode off_log_inode [OF sb]]]) (use dir(1) in \<open>auto simp: inode_of_def\<close>)
  have look: "ensures (idle sb n x) (on_cache (fs_lookup page sb dir name)) (\<lambda>r v. idle sb n x v \<and> lookup_of sb n x dir name = Ok r)
      (\<lambda>e v. idle sb n x v \<and> (lookup_of sb n x dir name = Inl e \<or> halted v))"
    unfolding lookup_of_def by (rule idle_finds [OF sb cached.finds_lookup off_log_lookup [OF sb x dir(2)]])
  have body: "ensures (idle sb n x) (bind_act (on_cache (fs_inode page sb directory)) (\<lambda>d. on_cache (fs_lookup page sb d name)))
      (\<lambda>r v. idle sb n x v \<and> lookup_of sb n x dir name = Ok r) (\<lambda>e v. idle sb n x v \<and> (lookup_of sb n x dir name = Inl e \<or> halted v))"
    by (intro ensures_bind [OF node] ensures_given) (use look in simp)
  show "ensures (idle sb n x) (vol_lookup directory name) (\<lambda>r v. idle sb n x v \<and> lookup_of sb n x dir name = Ok r)
    (\<lambda>e v. idle sb n x v \<and> (lookup_of sb n x dir name = Inl e \<or> halted v))"
    by (rule ensures_cong [OF _ body]) (simp add: vol_lookup_def idle_def)
qed

lemma passes_find_entry: "cached.passes (find_entry page dir name is) (find_entry plain_page dir name is)"
  by (induction "is") (auto split: sum.split option.split intro!: cached.passes_rules)

lemma entry_write_eq:
  assumes "off + ENTRY \<le> length p" "length (e_name e) = MAX_NAME"
  shows "entry_write e p off = (Ok (), store p off (to_le_bytes 4 (e_inode e) @ [e_length e] @ e_name e))"
proof -
  have "put_all [(0, to_le_bytes 4 (e_inode e)), (4, [e_length e]), (5, e_name e)] (replicate ENTRY 0) =
      (Ok (), concat (map snd [(0 :: nat, to_le_bytes 4 (e_inode e)), (4, [e_length e]), (5, e_name e)]) @ replicate (ENTRY - 32) 0)"
    by (subst put_all_zeros) (use assms(2) in \<open>simp_all add: ENTRY_def MAX_NAME_def\<close>)
  then show ?thesis using assms(1) by (simp add: entry_write_def ENTRY_def)
qed

lemma entry_write_updates: "off + ENTRY \<le> BLOCK \<Longrightarrow> length (e_name e) = MAX_NAME \<Longrightarrow> updates sb (\<lambda>p. entry_write e p off)"
  by (simp add: updates_def entry_write_eq ENTRY_def MAX_NAME_def)

lemma length_entry_in: "off + ENTRY \<le> length p \<Longrightarrow> length (e_name (entry_in p off)) = MAX_NAME"
  by (simp add: entry_in_def ENTRY_def MAX_NAME_def)

subsection \<open>The whole operation\<close>

definition removed :: "superblock \<Rightarrow> u32 \<Rightarrow> inode \<Rightarrow> nat \<Rightarrow> u32 \<Rightarrow> inode \<Rightarrow> (nat \<Rightarrow> u8 list) \<Rightarrow> nat \<Rightarrow> u8 list" where
  "removed sb directory parent ix index dead x =
    clear_bits sb (contents x dead)
      (set_inode sb index (free_inode_value\<lparr>generation := generation dead\<rparr>)
        (set_inode sb directory (parent\<lparr>isize := isize parent - of_nat ENTRY\<rparr>)
          (x(dir_block parent ix := snd (entry_write (last (dir_list x parent)) (x (dir_block parent ix)) (ix mod PER * ENTRY))))))"

definition remove_homes :: "superblock \<Rightarrow> u32 \<Rightarrow> inode \<Rightarrow> nat \<Rightarrow> u32 \<Rightarrow> inode \<Rightarrow> (nat \<Rightarrow> u8 list) \<Rightarrow> nat set" where
  "remove_homes sb directory parent ix index dead x =
    insert (dir_block parent ix) (insert (inode_home sb directory) (insert (inode_home sb index)
      (set (map (bitmap_holding sb) (contents x dead)))))"

text \<open>Where \<open>remove\<close> finds the name.\<close>

definition place :: "(nat \<Rightarrow> u8 list) \<Rightarrow> inode \<Rightarrow> u8 list \<Rightarrow> nat option" where
  "place x dir name = find (\<lambda>i. entry_name (entry_in (x (dir_block dir i)) (i mod PER * ENTRY)) = name) [0..<entries dir]"

lemma place_Some:
  assumes "place x dir name = Some ix"
  shows "ix < entries dir" "ix < length (dir_list x dir)" "entry_name (dir_list x dir ! ix) = name"
  using assms by (auto simp: place_def dir_list_def find_Some_iff)

lemma dir_list_nth: "i < entries dir \<Longrightarrow> dir_list x dir ! i = entry_in (x (dir_block dir i)) (i mod PER * ENTRY)"
  by (simp add: dir_list_def)

text \<open>For a name with a character, the reader and \<open>remove\<close> find the same entry.\<close>

lemma place_lookup:
  assumes sb: "sb_sound sb n" and x: "sized n x sb" and dir: "dir_ok sb dir" and name: "name \<noteq> []"
    and found: "lookup_of sb n x dir name = Ok (index, dead)"
  obtains ix where "place x dir name = Some ix" "e_inode (dir_list x dir ! ix) = index" "inode_of sb n x index = Ok dead"
proof -
  have dead: "live e" if "entry_name e = name" for e :: dir_entry
    using that name by (auto simp: live_def entry_name_def)
  have "find (\<lambda>e. entry_name e = name) (filter live es) = find (\<lambda>e. entry_name e = name) es" for es
    using dead by (induction es) auto
  then obtain e where e: "find (\<lambda>e. entry_name e = name) (dir_list x dir) = Some e" "e_inode e = index" "inode_of sb n x index = Ok dead"
    using found unfolding lookup_of_eq [OF sb x dir] by (auto split: option.splits sum.splits)
  have "find (\<lambda>e. entry_name e = name) (map f is) = map_option f (find (\<lambda>i. entry_name (f i) = name) is)" for f and "is" :: "nat list"
    by (induction "is") auto
  then obtain ix where ix: "place x dir name = Some ix" "e = entry_in (x (dir_block dir ix)) (ix mod PER * ENTRY)"
    using e(1) unfolding dir_list_def place_def by auto
  then have "dir_list x dir ! ix = e" using place_Some(1) [OF ix(1)] by (simp add: dir_list_nth)
  then show thesis using that ix e by blast
qed

definition remove_staged :: "u32 \<Rightarrow> inode \<Rightarrow> nat \<Rightarrow> u32 \<Rightarrow> inode \<Rightarrow> dir_entry \<Rightarrow> (volume, unit) act" where
  "remove_staged directory parent ix index dead moving =
    bind_act (bind_act (stage (dir_block parent ix)) (\<lambda>slot. staged_mut slot (\<lambda>p. entry_write moving p (ix mod PER * ENTRY)))) (\<lambda>_.
    bind_act (stage_inode directory (parent\<lparr>isize := isize parent - of_nat ENTRY\<rparr>)) (\<lambda>_.
    bind_act (stage_inode index (free_inode_value\<lparr>generation := generation dead\<rparr>)) (\<lambda>_.
    bind_act (free_contents dead) (\<lambda>_.
    commit_transaction []))))"

lemma remove_staged_step:
  assumes sb: "sb_sound sb n" and par: "unat directory < sb_inodes sb" "dir_ok sb parent" and ix: "ix < entries parent"
    and dead: "unat index < sb_inodes sb" and own: "owns_data sb x dead" and mv: "length (e_name moving) = MAX_NAME"
    and last: "moving = last (dir_list x parent)"
  defines "H \<equiv> remove_homes sb directory parent ix index dead x" and "y \<equiv> removed sb directory parent ix index dead x"
  shows "ensures (staging sb n H x x) (remove_staged directory parent ix index dead moving) (\<lambda>_. idle sb n y)
    (\<lambda>e v. given_up sb n x (too_big H) e v \<or> broken sb n x e v \<or> broken sb n y e v)"
proof -
  let ?E = "\<lambda>e v. given_up sb n x (too_big H) e v \<or> broken sb n x e v \<or> broken sb n y e v"
  note d = dir_ok_block [OF sb par(2) ix]
  have H: "homes_ok sb H" unfolding H_def remove_homes_def
    by (intro homes_ok_insert d(5) inode_home_ok [OF sb par(1)] inode_home_ok [OF sb dead] contents_homes_ok [OF sb own])
  have in_H: "dir_block parent ix \<in> H" "inode_home sb directory \<in> H" "inode_home sb index \<in> H"
    "\<And>b. b \<in> set (contents x dead) \<Longrightarrow> bitmap_holding sb b \<in> H" by (auto simp: H_def remove_homes_def)
  have weak: "ensures P a Q (undone sb n x (too_big H)) \<Longrightarrow> ensures P a Q ?E" for P and a :: "(volume, unit) act" and Q
    by (erule ensures_post) (auto intro: undone_given_up)
  let ?f = "\<lambda>p. entry_write moving p (ix mod PER * ENTRY)"
  let ?x1 = "x(dir_block parent ix := snd (?f (x (dir_block parent ix))))"
  let ?x2 = "set_inode sb directory (parent\<lparr>isize := isize parent - of_nat ENTRY\<rparr>) ?x1"
  let ?x3 = "set_inode sb index (free_inode_value\<lparr>generation := generation dead\<rparr>) ?x2"
  have s1: "ensures (staging sb n H x x) (bind_act (stage (dir_block parent ix)) (\<lambda>slot. staged_mut slot ?f)) (\<lambda>_. staging sb n H x ?x1) ?E"
    by (rule weak, rule update_step [OF sb H in_H(1) entry_write_updates order_refl]) (use entry_place(3) mv in auto)
  have s2: "ensures (staging sb n H x ?x1) (stage_inode directory (parent\<lparr>isize := isize parent - of_nat ENTRY\<rparr>)) (\<lambda>_. staging sb n H x ?x2) ?E"
    by (rule weak, rule stage_inode_step [OF sb H in_H(2) par(1)]) (use par(2) in \<open>auto simp: dir_ok_def\<close>)
  have s3: "ensures (staging sb n H x ?x2) (stage_inode index (free_inode_value\<lparr>generation := generation dead\<rparr>)) (\<lambda>_. staging sb n H x ?x3) ?E"
    by (rule weak, rule stage_inode_step [OF sb H in_H(3) dead]) (auto simp: free_inode_value_def)
  have s4: "ensures (staging sb n H x ?x3) (free_contents dead) (\<lambda>_. staging sb n H x (clear_bits sb (contents x dead) ?x3)) ?E"
    by (rule weak, rule free_contents_step [OF sb H order_refl own in_H(4)])
  have y: "y = clear_bits sb (contents x dead) ?x3" by (simp add: y_def removed_def last)
  have s5: "ensures (staging sb n H x (clear_bits sb (contents x dead) ?x3)) (commit_transaction []) (\<lambda>_. idle sb n y) ?E"
    unfolding y by (rule ensures_post [OF commit_staging [OF sb H]]) auto
  show ?thesis unfolding remove_staged_def
    by (rule ensures_bind [OF s1], rule ensures_bind [OF s2], rule ensures_bind [OF s3], rule ensures_bind [OF s4 s5])
qed

lemma off_log_find_entry:
  assumes sb: "sb_sound sb n" and x: "sized n x sb" and dir: "dir_ok sb dir"
  shows "off_log sb n (find_entry plain_page dir name [0..<entries dir]) x"
    "fst (find_entry plain_page dir name [0..<entries dir] (x, n)) = Ok (place x dir name)"
proof -
  have eq: "fst (find_entry plain_page dir name [0..<entries dir] (g, n)) = Ok (place g dir name)" if "sized n g sb" for g
    using find_entry_plain [OF sb that dir, of "[0..<entries dir]"] by (simp add: place_def)
  then show "fst (find_entry plain_page dir name [0..<entries dir] (x, n)) = Ok (place x dir name)" using x by blast
  have "place g dir name = place x dir name" if g: "\<forall>b. b \<notin> log_area sb \<longrightarrow> g b = x b" for g
    unfolding place_def by (rule find_cong) (use g dir_ok_block(4) [OF sb dir] in auto)
  moreover have "sized n g sb" if g: "\<forall>b. b \<notin> log_area sb \<longrightarrow> g b = x b" for g using x g by (auto simp: sized_def)
  ultimately show "off_log sb n (find_entry plain_page dir name [0..<entries dir]) x" using eq x unfolding off_log_def by metis
qed

lemma idle_page:
  assumes sb: "sb_sound sb n" and b: "b < n" "b \<notin> log_area sb"
  shows "ensures (idle sb n x) (on_cache (page b)) (\<lambda>p v. idle sb n x v \<and> p = x b) (given_up sb n x Z)"
proof -
  have "off_log sb n (plain_page b) x" using b by (simp add: off_log_def plain_page_def)
  then show ?thesis
    by (intro ensures_post [OF idle_passes [OF sb cached.passes_page]]) (use b in \<open>auto simp: plain_page_def given_up_def\<close>)
qed

text \<open>What follows a successful lookup.\<close>

definition remove_found :: "u32 \<Rightarrow> u8 list \<Rightarrow> inode \<Rightarrow> u32 \<Rightarrow> inode \<Rightarrow> (volume, unit) act" where
  "remove_found directory name parent index dead =
    bind_act (on_cache (find_entry page parent name [0..<entries parent])) (\<lambda>found.
      case found of None \<Rightarrow> fail NoSuchName | Some ix \<Rightarrow>
        (case get (direct parent) ((entries parent - 1) div PER) of None \<Rightarrow> of_result Panicked
         | Some last_block \<Rightarrow> bind_act (on_cache (page (unat last_block))) (\<lambda>p.
             bind_act (of_result (entry_read p ((entries parent - 1) mod PER * ENTRY))) (\<lambda>moving.
             bind_act begin_transaction (\<lambda>_. remove_staged directory parent ix index dead moving)))))"

lemma remove_unfold:
  "remove directory name =
    bind_act (vol_inode directory) (\<lambda>parent. if ikind parent \<noteq> Directory then fail WrongKind else
      bind_act (vol_lookup directory name) (\<lambda>(index, dead).
        if ikind dead = Directory \<and> isize dead \<noteq> 0 then fail WrongKind else remove_found directory name parent index dead))"
  unfolding remove_def remove_found_def remove_staged_def bind_assoc Let_def entries_def dir_block_def by (rule refl)

lemma remove_found_step:
  assumes sb: "sb_sound sb n" and x: "sized n x sb" and par: "unat directory < sb_inodes sb" "dir_ok sb parent"
    and ix: "place x parent name = Some ix" and dead: "unat index < sb_inodes sb" and own: "owns_data sb x dead"
  defines "H \<equiv> remove_homes sb directory parent ix index dead x" and "y \<equiv> removed sb directory parent ix index dead x"
  shows "ensures (idle sb n x) (remove_found directory name parent index dead) (\<lambda>_. idle sb n y)
    (\<lambda>e v. given_up sb n x (too_big H) e v \<or> broken sb n x e v \<or> broken sb n y e v)"
proof -
  let ?E = "\<lambda>e v. given_up sb n x (too_big H) e v \<or> broken sb n x e v \<or> broken sb n y e v"
  let ?k = "entries parent" and ?l = "entries parent - 1"
  have k: "ix < ?k" "?l < ?k" using place_Some [OF ix] by auto
  note d = dir_ok_block [OF sb par(2) k(2)]
  let ?moving = "entry_in (x (dir_block parent ?l)) (?l mod PER * ENTRY)"
  have len: "?l mod PER * ENTRY + ENTRY \<le> length (x (dir_block parent ?l))" using x d entry_place(3) [of ?l] by (simp add: sized_def)
  have moving: "entry_read (x (dir_block parent ?l)) (?l mod PER * ENTRY) = Ok ?moving" "length (e_name ?moving) = MAX_NAME"
    using entry_read_in [OF len] length_entry_in [OF len] by auto
  have last: "?moving = last (dir_list x parent)" using k by (simp add: dir_list_def last_map)
  have search: "ensures (idle sb n x) (on_cache (find_entry page parent name [0..<?k])) (\<lambda>r v. idle sb n x v \<and> r = Some ix) ?E"
    by (rule ensures_post [OF idle_passes [OF sb passes_find_entry off_log_find_entry(1) [OF sb x par(2)]]])
      (use off_log_find_entry(2) [OF sb x par(2), of name] ix in \<open>auto simp: given_up_def\<close>)
  have fetch: "ensures (idle sb n x) (on_cache (page (dir_block parent ?l))) (\<lambda>p v. idle sb n x v \<and> p = x (dir_block parent ?l)) ?E"
    by (rule ensures_post [OF idle_page [OF sb d(3,4)]]) auto
  have bg: "ensures (idle sb n x) begin_transaction (\<lambda>_. staging sb n H x x) ?E"
    by (rule ensures_post [OF begin_step [OF sb]]) (auto simp: undone_def given_up_def)
  have rest: "ensures (staging sb n H x x) (remove_staged directory parent ix index dead ?moving) (\<lambda>_. idle sb n y) ?E"
    unfolding H_def y_def by (rule remove_staged_step [OF sb par k(1) dead own moving(2) last])
  have tail: "ensures (idle sb n x) (bind_act (on_cache (page (dir_block parent ?l))) (\<lambda>p.
      bind_act (of_result (entry_read p (?l mod PER * ENTRY))) (\<lambda>moving.
      bind_act begin_transaction (\<lambda>_. remove_staged directory parent ix index dead moving)))) (\<lambda>_. idle sb n y) ?E"
  proof (rule ensures_bind [OF fetch], rule ensures_given)
    fix p assume p: "p = x (dir_block parent ?l)"
    show "ensures (idle sb n x) (bind_act (of_result (entry_read p (?l mod PER * ENTRY))) (\<lambda>moving.
        bind_act begin_transaction (\<lambda>_. remove_staged directory parent ix index dead moving))) (\<lambda>_. idle sb n y) ?E"
      unfolding p moving(1) bind_of_result by (rule ensures_bind [OF bg rest])
  qed
  have get: "get (direct parent) (?l div PER) = Some (direct parent ! (?l div PER))" using d(1) par(2) by (simp add: get_def dir_ok_def)
  show ?thesis
    unfolding remove_found_def get by (rule ensures_bind [OF search], rule ensures_given) (use tail in \<open>simp add: dir_block_def\<close>)
qed

lemma remove_step:
  assumes sb: "sb_sound sb n" and par: "inode_of sb n x directory = Ok parent" "dir_ok sb parent" and name: "name \<noteq> []"
    and found: "lookup_of sb n x parent name = Ok (index, dead)" and ix: "place x parent name = Some ix"
    and leaf: "ikind dead = Directory \<longrightarrow> isize dead = 0" and own: "owns_data sb x dead"
  defines "H \<equiv> remove_homes sb directory parent ix index dead x" and "y \<equiv> removed sb directory parent ix index dead x"
  shows "ensures (idle sb n x) (remove directory name) (\<lambda>_. idle sb n y)
    (\<lambda>e v. given_up sb n x (too_big H) e v \<or> broken sb n x e v \<or> broken sb n y e v)"
proof (rule ensures_knowing [where A = "sized n x sb"])
  let ?E = "\<lambda>e v. given_up sb n x (too_big H) e v \<or> broken sb n x e v \<or> broken sb n y e v"
  show "sized n x sb" if "idle sb n x v" for v by (rule idle_sized [OF sb that])
  assume x: "sized n x sb"
  have dead: "inode_of sb n x index = Ok dead" by (rule place_lookup [OF sb x par(2) name found])
  have i: "unat directory < sb_inodes sb" "unat index < sb_inodes sb" using inode_of_range par(1) dead by blast+
  have read: "ensures (idle sb n x) (vol_inode directory) (\<lambda>ino v. idle sb n x v \<and> ino = parent) ?E"
    by (rule ensures_post [OF vol_inode_step [OF sb]]) (use par in \<open>auto simp: given_up_def\<close>)
  have look: "ensures (idle sb n x) (vol_lookup directory name) (\<lambda>r v. idle sb n x v \<and> r = (index, dead)) ?E"
    by (rule ensures_post [OF vol_lookup_step [OF sb par]]) (use found in \<open>auto simp: given_up_def\<close>)
  have tail: "ensures (idle sb n x) (remove_found directory name parent index dead) (\<lambda>_. idle sb n y) ?E"
    unfolding H_def y_def by (rule remove_found_step [OF sb x i(1) par(2) ix i(2) own])
  have body: "ensures (idle sb n x) (bind_act (vol_lookup directory name) (\<lambda>(index, dead).
        if ikind dead = Directory \<and> isize dead \<noteq> 0 then fail WrongKind else remove_found directory name parent index dead)) (\<lambda>_. idle sb n y) ?E"
    by (rule ensures_bind [OF look], rule ensures_given) (use tail leaf in auto)
  show "ensures (idle sb n x) (remove directory name) (\<lambda>_. idle sb n y) ?E"
    unfolding remove_unfold by (rule ensures_bind [OF read], rule ensures_given) (use body par(2) in \<open>simp add: dir_ok_def\<close>)
qed

end
