(* ===== verification/FsMake.thy ===== *)
theory FsMake
  imports FsAct FsFormatProps
begin

text \<open>
  Laying out a fresh filesystem: \<open>format_sized\<close> and \<open>format\<close> of \<^verbatim>\<open>src/fs/src/lib.rs\<close>, and what the
  image they leave says.
\<close>

definition div_ceil :: "nat \<Rightarrow> nat \<Rightarrow> nat" where
  "div_ceil a b = (if a mod b = 0 then a div b else a div b + 1)"

definition format_layout :: "nat \<Rightarrow> nat \<Rightarrow> superblock" where
  "format_layout inodes blocks =
    (let bitmap_blocks = max (div_ceil blocks (BLOCK * 8)) 1;
         inode_blocks = max (div_ceil (inodes * INODE) BLOCK) 1;
         start = 1 + bitmap_blocks + inode_blocks in
     \<lparr>sb_blocks = blocks, sb_inodes = inodes, bitmap_start = 1, inode_start = 1 + bitmap_blocks, journal_start = start,
      journal_blocks = JOURNAL_BLOCKS, data_start = start + JOURNAL_BLOCKS, root = 0\<rparr>)"

text \<open>Every block below the first data block marked as used.\<close>

definition mark_metadata :: "superblock \<Rightarrow> (u8 list, unit) act" where
  "mark_metadata sb bytes =
    (case bitmap_of bytes sb of
       Inl e \<Rightarrow> (Inl e, bytes)
     | Inr bm \<Rightarrow>
         (Ok (), store bytes (bitmap_start sb * BLOCK) (bits (fold (\<lambda>block. bitmap_set block True) [0..<data_start sb] bm))))"

definition fresh_root :: inode where
  "fresh_root = \<lparr>ikind = Directory, links = 1, generation = 1, isize = 0, direct = replicate 10 0, indirect = 0\<rparr>"

definition format_sized :: "nat \<Rightarrow> nat \<Rightarrow> (u8 list, superblock) act" where
  "format_sized inodes blocks bytes =
    (if blocks < 4 + JOURNAL_BLOCKS \<or> inodes = 0 then (Error OutOfRange, bytes)
     else
       let bytes = replicate (length bytes) 0 in
       if 2 ^ 64 \<le> inodes * INODE then (Panicked, bytes)
       else
         let sb = format_layout inodes blocks in
         if blocks \<le> data_start sb then (Error OutOfRange, bytes)
         else if length bytes div BLOCK < data_start sb then (Error OutOfRange, bytes)
         else
           bind_act (superblock_write sb) (\<lambda>_.
           bind_act (mark_metadata sb) (\<lambda>_.
           bind_act (inode_write fresh_root sb (root sb)) (\<lambda>_.
           ret sb))) bytes)"

definition format :: "nat \<Rightarrow> (u8 list, superblock) act" where
  "format inodes bytes = format_sized inodes (length bytes div BLOCK) bytes"

lemma length_fresh_root [simp]: "length (direct fresh_root) = 10"
  by (simp add: fresh_root_def)

subsection \<open>The bits of the bitmap\<close>

lemma used_bit: "bitmap_used bm b \<longleftrightarrow> b div 8 < length (bits bm) \<and> bit (bits bm ! (b div 8)) (b mod 8)"
  by (simp add: bitmap_used_def get_def and_exp_eq_0_iff_not_bit)

lemma bitmap_set_used:
  assumes "b div 8 < length (bits bm)"
  shows "bitmap_used (bitmap_set b mark bm) b' = (if b' = b then mark else bitmap_used bm b')"
proof -
  have bits: "bit (byte OR push_bit k 1) i = (bit byte i \<or> i = k)" "bit (byte AND NOT (push_bit k 1)) i = (bit byte i \<and> i \<noteq> k)"
    if "k < 8" "i < 8" for byte :: u8 and k i using that by (auto simp: bit_simps)
  have "b' = b" if "b' div 8 = b div 8" "b' mod 8 = b mod 8" using that by (metis div_mult_mod_eq)
  then show ?thesis
    using assms bits [of "b mod 8" "b' mod 8" "bits bm ! (b div 8)"]
    by (cases "b' div 8 = b div 8") (auto simp: used_bit bitmap_set_def get_def Let_def)
qed

lemma bitmap_set_fields [simp]:
  "length (bits (bitmap_set b mark bm)) = length (bits bm)" "bm_blocks (bitmap_set b mark bm) = bm_blocks bm"
  "first_data (bitmap_set b mark bm) = first_data bm"
  by (auto simp: bitmap_set_def Let_def split: option.split)

lemma fold_set_length [simp]: "length (bits (fold (\<lambda>b. bitmap_set b True) bs bm)) = length (bits bm)"
  by (induction bs arbitrary: bm) auto

lemma fold_set_used:
  assumes "\<And>b. b \<in> set bs \<Longrightarrow> b div 8 < length (bits bm)"
  shows "bitmap_used (fold (\<lambda>b. bitmap_set b True) bs bm) b' \<longleftrightarrow> b' \<in> set bs \<or> bitmap_used bm b'"
  using assms by (induction bs arbitrary: bm) (auto simp: bitmap_set_used)

lemma fold_set_fields [simp]:
  "bm_blocks (fold (\<lambda>b. bitmap_set b True) bs bm) = bm_blocks bm" "first_data (fold (\<lambda>b. bitmap_set b True) bs bm) = first_data bm"
  by (induction bs arbitrary: bm) auto

subsection \<open>The layout\<close>

lemma div_ceil_bounds:
  assumes "0 < b"
  shows "a \<le> div_ceil a b * b" "div_ceil a b * b < a + b"
proof -
  obtain q r where a: "a = q * b + r" "r < b" "q = a div b" "r = a mod b" using assms by (metis div_mult_mod_eq mod_less_divisor)
  have "div_ceil a b * b = q * b + (if r = 0 then 0 else b)" by (simp add: div_ceil_def a(3,4) [symmetric])
  then show "a \<le> div_ceil a b * b" "div_ceil a b * b < a + b" using a(1,2) by auto
qed

lemma format_layout_simps [simp]:
  "sb_blocks (format_layout inodes blocks) = blocks" "sb_inodes (format_layout inodes blocks) = inodes"
  "bitmap_start (format_layout inodes blocks) = 1" "journal_blocks (format_layout inodes blocks) = JOURNAL_BLOCKS"
  "root (format_layout inodes blocks) = 0"
  "data_start (format_layout inodes blocks) = journal_start (format_layout inodes blocks) + JOURNAL_BLOCKS"
  by (simp_all add: format_layout_def Let_def)

lemma format_layout_sound:
  fixes inodes blocks :: nat
  defines "sb \<equiv> format_layout inodes blocks"
  shows "1 < inode_start sb" "inode_start sb < journal_start sb" "blocks \<le> (inode_start sb - 1) * BLOCK * 8"
    "inode_start sb * BLOCK + inodes * INODE \<le> journal_start sb * BLOCK" "(inode_start sb - 1) * BLOCK * 8 \<le> blocks + BLOCK * 8"
proof -
  let ?m = "max (div_ceil blocks (BLOCK * 8)) 1" and ?i = "max (div_ceil (inodes * INODE) BLOCK) 1"
  have b: "inode_start sb = 1 + ?m" "journal_start sb = 1 + ?m + ?i" by (simp_all add: sb_def format_layout_def Let_def)
  show "1 < inode_start sb" "inode_start sb < journal_start sb" unfolding b by auto
  have "blocks \<le> div_ceil blocks (BLOCK * 8) * (BLOCK * 8)" by (rule div_ceil_bounds) (simp add: BLOCK_def)
  also have "\<dots> \<le> ?m * (BLOCK * 8)" by (intro mult_le_mono1) simp
  finally show "blocks \<le> (inode_start sb - 1) * BLOCK * 8" unfolding b by simp
  have "inodes * INODE \<le> div_ceil (inodes * INODE) BLOCK * BLOCK" by (rule div_ceil_bounds) (simp add: BLOCK_def)
  also have "\<dots> \<le> ?i * BLOCK" by (intro mult_le_mono1) simp
  finally show "inode_start sb * BLOCK + inodes * INODE \<le> journal_start sb * BLOCK" unfolding b by (simp add: algebra_simps)
  have "div_ceil blocks (BLOCK * 8) * (BLOCK * 8) < blocks + BLOCK * 8" by (rule div_ceil_bounds) (simp add: BLOCK_def)
  then show "(inode_start sb - 1) * BLOCK * 8 \<le> blocks + BLOCK * 8" unfolding b by (simp add: max_def)
qed

subsection \<open>The image\<close>

definition marked :: "superblock \<Rightarrow> bitmap" where
  "marked sb = fold (\<lambda>block. bitmap_set block True) [0..<data_start sb]
    \<lparr>bits = replicate ((inode_start sb - 1) * BLOCK) 0, bm_blocks = sb_blocks sb, first_data = data_start sb\<rparr>"

definition fresh_image :: "superblock \<Rightarrow> nat \<Rightarrow> u8 list" where
  "fresh_image sb k = sb_head sb @ bits (marked sb) @ inode_bytes fresh_root @ replicate (k - (inode_start sb * BLOCK + INODE)) 0"

lemma length_marked [simp]: "length (bits (marked sb)) = (inode_start sb - 1) * BLOCK"
  by (simp add: marked_def)

lemma marked_used:
  assumes "data_start sb \<le> (inode_start sb - 1) * BLOCK * 8"
  shows "bitmap_used (marked sb) b \<longleftrightarrow> b < data_start sb"
proof -
  have "b div 8 < (inode_start sb - 1) * BLOCK" if "b < data_start sb" for b
    using that assms by (simp add: less_mult_imp_div_less)
  then show ?thesis unfolding marked_def by (subst fold_set_used) (auto simp: used_bit)
qed

lemma mark_metadata_eq:
  assumes sb: "bitmap_start sb = 1" "1 < inode_start sb" "(inode_start sb - 1) * BLOCK * 8 < 2 ^ 60"
    and bl: "sb_blocks sb \<le> (inode_start sb - 1) * BLOCK * 8" and k: "inode_start sb * BLOCK \<le> k"
  shows "mark_metadata sb (sb_head sb @ replicate (k - BLOCK) 0) =
    (Ok (), sb_head sb @ bits (marked sb) @ replicate (k - inode_start sb * BLOCK) 0)"
proof -
  let ?n = "(inode_start sb - 1) * BLOCK"
  have n: "BLOCK + ?n = inode_start sb * BLOCK" using sb(2) by (simp add: diff_mult_distrib)
  then have kn: "BLOCK + ?n \<le> k" using k by simp
  have bl2: "\<not> ?n * 8 < sb_blocks sb" using bl by simp
  have "load (sb_head sb @ replicate (k - BLOCK) 0) BLOCK ?n = replicate ?n 0"
    using kn by (simp add: load_def min_def)
  then have "bitmap_of (sb_head sb @ replicate (k - BLOCK) 0) sb =
      Ok \<lparr>bits = replicate ?n 0, bm_blocks = sb_blocks sb, first_data = data_start sb\<rparr>"
    using sb kn bl2 by (simp add: bitmap_of_def Let_def slice_at_def BLOCK_def)
  moreover have "bits (fold (\<lambda>block. bitmap_set block True) [0..<data_start sb]
      \<lparr>bits = replicate ?n 0, bm_blocks = sb_blocks sb, first_data = data_start sb\<rparr>) = bits (marked sb)" by (simp add: marked_def)
  moreover have "store (sb_head sb @ replicate (k - BLOCK) 0) BLOCK (bits (marked sb)) =
      sb_head sb @ bits (marked sb) @ replicate (k - inode_start sb * BLOCK) 0"
    using store_after [of "sb_head sb" "k - BLOCK" "bits (marked sb)"] unfolding n [symmetric] by (simp add: diff_diff_left)
  ultimately show ?thesis using sb(1) by (simp add: mark_metadata_def)
qed

lemma format_sized_eq:
  fixes inodes blocks :: nat
  defines "sb \<equiv> format_layout inodes blocks"
  assumes big: "4 + JOURNAL_BLOCKS \<le> blocks" "0 < inodes" "data_start sb < blocks" "blocks < 2 ^ 32" and room: "data_start sb \<le> length bytes div BLOCK"
  shows "format_sized inodes blocks bytes = (Ok sb, fresh_image sb (length bytes))"
proof -
  note l = format_layout_sound [where inodes = inodes and blocks = blocks, folded sb_def]
  have f: "sb_blocks sb = blocks" "sb_inodes sb = inodes" "bitmap_start sb = 1" "root sb = 0"
      "data_start sb = journal_start sb + JOURNAL_BLOCKS" by (simp_all add: sb_def)
  have "data_start sb * BLOCK \<le> length bytes" using room mult_le_mono1 [OF room, of BLOCK] by (meson div_times_less_eq_dividend order_trans)
  then have k: "journal_start sb * BLOCK \<le> length bytes" "BLOCK \<le> length bytes" using f(5) by (simp_all add: add_mult_distrib JOURNAL_BLOCKS_def)
  have jb: "journal_start sb * BLOCK < 2 ^ 44" using big(3,4) f(5) by (simp add: BLOCK_def)
  then have small: "inodes * INODE < 2 ^ 64" "(inode_start sb - 1) * BLOCK * 8 < 2 ^ 60" "inode_start sb * BLOCK < 2 ^ 44"
    using l big(4) by (auto simp: BLOCK_def)
  have room2: "inode_start sb * BLOCK + INODE \<le> length bytes"
    using l(4) k(1) big(2) by (simp add: INODE_def)
  have len: "length (sb_head sb @ bits (marked sb)) = inode_start sb * BLOCK"
    using l(1) by (simp add: diff_mult_distrib)
  have s1: "superblock_write sb (replicate (length bytes) 0) = (Ok (), sb_head sb @ replicate (length bytes - BLOCK) 0)"
    using k(2) by (simp add: superblock_write_eq)
  have s2: "mark_metadata sb (sb_head sb @ replicate (length bytes - BLOCK) 0) =
      (Ok (), (sb_head sb @ bits (marked sb)) @ replicate (length bytes - inode_start sb * BLOCK) 0)"
    using mark_metadata_eq [of sb "length bytes"] l f small room2 by simp
  have off: "inode_offset sb 0 = Some (inode_start sb * BLOCK)" "checked_add 64 (inode_start sb * BLOCK) INODE = Some (inode_start sb * BLOCK + INODE)"
    using small by (simp_all add: inode_offset_def checked_mul_def checked_add_def max_of_def INODE_def)
  have s3: "inode_write fresh_root sb 0 ((sb_head sb @ bits (marked sb)) @ replicate (length bytes - inode_start sb * BLOCK) 0) =
      (Ok (), fresh_image sb (length bytes))"
  proof -
    let ?z = "(sb_head sb @ bits (marked sb)) @ replicate (length bytes - inode_start sb * BLOCK) 0"
    have slice: "slice_at ?z (inode_start sb * BLOCK) INODE = Some (load ?z (inode_start sb * BLOCK) INODE)"
      "INODE \<le> length (load ?z (inode_start sb * BLOCK) INODE)" "drop INODE (load ?z (inode_start sb * BLOCK) INODE) = []"
      using room2 len by (simp_all add: slice_at_def)
    have "store ?z (inode_start sb * BLOCK) (inode_bytes fresh_root) = fresh_image sb (length bytes)"
      using store_after [of "sb_head sb @ bits (marked sb)" _ "inode_bytes fresh_root"] unfolding len
      by (simp add: fresh_image_def fresh_root_def diff_diff_left)
    then show ?thesis using big(2) f(2) by (simp add: inode_write_def off slice encode_bytes [OF length_fresh_root] del: append_assoc)
  qed
  have g: "\<not> blocks < 4 + JOURNAL_BLOCKS" "\<not> blocks \<le> data_start sb" "\<not> length bytes div BLOCK < data_start sb" "\<not> 2 ^ 64 \<le> inodes * INODE"
    using big room small by auto
  show ?thesis
    unfolding format_sized_def sb_def [symmetric] Let_def
    using g big(2) by (simp add: bind_act_def s1 s2 [simplified] s3 [simplified] f(4) ret_def)
qed

end
