(* ===== verification/FsContent.thy ===== *)
theory FsContent
  imports FsRemove FsMake
begin

text \<open>
  What the readers see after the changes operations stage: an inode written is the inode read and
  no other changes, a bit set is the bit read, an entry written is the entry listed.
\<close>

subsection \<open>Inodes\<close>

lemma put_inode_eq:
  assumes "offset + INODE \<le> length p" "length (direct ino) = 10"
  shows "put_inode offset ino p = (Ok (), store p offset (inode_bytes ino))"
proof -
  have "drop INODE (load p offset INODE) = []" using assms(1) by simp
  then show ?thesis using assms encode_bytes [OF assms(2), of "load p offset INODE"] by (simp add: put_inode_def slice_at_def)
qed

lemma load_store_other:
  assumes "off + length v \<le> length p" "a + k \<le> length p" "a + k \<le> off \<or> off + length v \<le> a"
  shows "load (store p off v) a k = load p a k"
  by (rule load_cong) (use assms in \<open>auto simp: nth_store\<close>)

lemma inode_of_set:
  assumes sb: "sb_sound sb n" and x: "sized n x sb" and i: "unat i < sb_inodes sb" and ino: "length (direct ino) = 10"
  shows "inode_of sb n (set_inode sb i ino x) j = (if j = i then Ok ino else inode_of sb n x j)"
proof (cases "unat j < sb_inodes sb")
  case True
  obtain b off where a: "inode_at sb i = Ok (b, off)" "inode_start sb \<le> b" "b < journal_start sb" "off + INODE \<le> BLOCK"
    "b * BLOCK + off = inode_start sb * BLOCK + unat i * INODE" by (rule inode_at_sound [OF sb i])
  obtain b' off' where a': "inode_at sb j = Ok (b', off')" "b' < journal_start sb" "off' + INODE \<le> BLOCK"
    "b' * BLOCK + off' = inode_start sb * BLOCK + unat j * INODE" by (rule inode_at_sound [OF sb True])
  have len: "length (x b) = BLOCK" "length (x b') = BLOCK"
    using x a(3) a'(2) sb by (auto simp: sized_def log_area_def sb_sound_def)
  have set: "set_inode sb i ino x = x(b := store (x b) off (inode_bytes ino))"
    using a len put_inode_eq [of off "x b" ino] ino by (simp add: set_inode_def)
  have apart: "off' + INODE \<le> off \<or> off + INODE \<le> off'" if "j \<noteq> i" "b' = b"
  proof -
    have "unat j \<noteq> unat i" using that(1) by (simp add: word_unat_eq_iff)
    then have "unat j < unat i \<or> unat i < unat j" by linarith
    then show ?thesis using a(5) a'(4) that(2) by (auto simp: INODE_def)
  qed
  have fit: "off + INODE \<le> length (x b)" "off' + INODE \<le> length (x b')" using a(4) a'(3) len by simp_all
  have dec: "inode_decode (inode_bytes ino) = Ok ino" using decode_bytes [OF ino, of "[]"] by simp
  have same: "load (store (x b) off (inode_bytes ino)) off INODE = inode_bytes ino"
    using load_store [of off "inode_bytes ino" "x b"] fit(1) ino by simp
  have other: "load (store (x b) off (inode_bytes ino)) off' INODE = load (x b) off' INODE" if "j \<noteq> i" "b' = b"
    by (rule load_store_other) (use apart [OF that] fit that ino in auto)
  show ?thesis
    unfolding inode_of_eq [OF sb a'(1,2)] set using fit ino a(1) a'(1) dec same other
    by (cases "j = i"; cases "b' = b") (auto simp: slice_at_def len)
next
  case False
  then have "inode_of sb n g j = Error OutOfRange" for g
    by (simp add: inode_of_def fs_inode_def inode_at_def bind_act_def of_result_def)
  then show ?thesis using False i by auto
qed

lemma inode_of_other:
  assumes sb: "sb_sound sb n" and same: "\<And>b. inode_start sb \<le> b \<Longrightarrow> b < journal_start sb \<Longrightarrow> x b = y b"
  shows "inode_of sb n x j = inode_of sb n y j"
proof (cases "unat j < sb_inodes sb")
  case True
  obtain b off where a: "inode_at sb j = Ok (b, off)" "inode_start sb \<le> b" "b < journal_start sb" by (rule inode_at_sound [OF sb True])
  show ?thesis unfolding inode_of_eq [OF sb a(1,3)] using same [OF a(2,3)] by simp
qed (simp add: inode_of_def fs_inode_def inode_at_def bind_act_def of_result_def)

lemma set_inode_outside:
  assumes sb: "sb_sound sb n" and b: "b < inode_start sb \<or> journal_start sb \<le> b"
  shows "set_inode sb i ino x b = x b"
proof (cases "unat i < sb_inodes sb")
  case True
  obtain c off where a: "inode_at sb i = Ok (c, off)" "inode_start sb \<le> c" "c < journal_start sb" by (rule inode_at_sound [OF sb True])
  then show ?thesis using b by (auto simp: set_inode_def)
qed (simp add: set_inode_def inode_at_def)

subsection \<open>Bits\<close>

definition block_used :: "superblock \<Rightarrow> (nat \<Rightarrow> u8 list) \<Rightarrow> nat \<Rightarrow> bool" where
  "block_used sb x b \<longleftrightarrow> bit (x (bitmap_holding sb b) ! (b div 8 mod BLOCK)) (b mod 8)"

lemma set_bit_outside: "sb_sound sb n \<Longrightarrow> b < sb_blocks sb \<Longrightarrow> c < bitmap_start sb \<or> inode_start sb \<le> c \<Longrightarrow> set_bit_at sb b mark x c = x c"
  using bitmap_holding_range [of sb n b] by (auto simp: set_bit_at_def)

lemma put_bit_eq:
  "length p = BLOCK \<Longrightarrow> put_bit b mark p =
    (Ok (), p[b div 8 mod BLOCK := (if mark then p ! (b div 8 mod BLOCK) OR 2 ^ (b mod 8) else p ! (b div 8 mod BLOCK) AND NOT (2 ^ (b mod 8)))])"
  by (simp add: put_bit_def get_def Let_def BLOCK_def)

lemma sized_upd: "sized n x sb \<Longrightarrow> length p = BLOCK \<Longrightarrow> sized n (x(b := p)) sb"
  by (simp add: sized_def)

lemma sized_set_bit: "sized n x sb \<Longrightarrow> sb_sound sb n \<Longrightarrow> b < sb_blocks sb \<Longrightarrow> sized n (set_bit_at sb b mark x) sb"
proof -
  assume x: "sized n x sb" and sb: "sb_sound sb n" "b < sb_blocks sb"
  have "length (x (bitmap_holding sb b)) = BLOCK"
    using x sb bitmap_holding_range [OF sb] by (auto simp: sized_def sb_sound_def log_area_def)
  then show ?thesis unfolding set_bit_at_def by (intro sized_upd [OF x]) (simp add: put_bit_eq)
qed

lemma sized_set_inode:
  assumes "sized n x sb" "sb_sound sb n" "length (direct ino) = 10"
  shows "sized n (set_inode sb i ino x) sb"
proof (cases "unat i < sb_inodes sb")
  case True
  obtain b off where a: "inode_at sb i = Ok (b, off)" "b < journal_start sb" "off + INODE \<le> BLOCK" by (rule inode_at_sound [OF assms(2) True])
  have "length (x b) = BLOCK" using assms(1,2) a(2) by (auto simp: sized_def sb_sound_def log_area_def)
  then show ?thesis using a put_inode_eq [of off "x b" ino] assms(3) by (simp add: set_inode_def sized_upd [OF assms(1)])
qed (use assms in \<open>simp add: set_inode_def inode_at_def\<close>)

lemma block_used_set:
  assumes sb: "sb_sound sb n" and x: "sized n x sb" and b: "b < sb_blocks sb" and c: "c < sb_blocks sb"
  shows "block_used sb (set_bit_at sb b mark x) c = (if c = b then mark else block_used sb x c)"
proof -
  let ?k = "b div 8 mod BLOCK"
  have len: "length (x (bitmap_holding sb b)) = BLOCK"
    using x sb bitmap_holding_range [OF sb b] by (auto simp: sized_def sb_sound_def log_area_def)
  have eq: "c = b" if "bitmap_holding sb c = bitmap_holding sb b" "c div 8 mod BLOCK = ?k" "c mod 8 = b mod 8"
    using that by (metis add_left_cancel bitmap_holding_def div_mult_mod_eq)
  have bits: "bit (byte OR 2 ^ k) i = (bit byte i \<or> i = k)" "bit (byte AND NOT (2 ^ k)) i = (bit byte i \<and> i \<noteq> k)"
    if "k < 8" "i < 8" for byte :: u8 and k i using that by (auto simp: bit_simps)
  have k: "?k < BLOCK" by simp
  show ?thesis
  proof (cases "bitmap_holding sb c = bitmap_holding sb b \<and> c div 8 mod BLOCK = ?k")
    case True
    then have "c = b \<longleftrightarrow> c mod 8 = b mod 8" using eq by auto
    then show ?thesis
      using True k bits [of "b mod 8" "c mod 8" "x (bitmap_holding sb b) ! ?k"]
      by (cases mark) (simp_all add: block_used_def set_bit_at_def put_bit_eq [OF len] len)
  next
    case False
    then have "c \<noteq> b" by auto
    then show ?thesis using False by (auto simp: block_used_def set_bit_at_def put_bit_eq [OF len] len)
  qed
qed

lemma clear_bits_Cons: "clear_bits sb (b # bs) x = clear_bits sb bs (set_bit_at sb b False x)"
  by (simp add: clear_bits_def)

lemma clear_bits_all:
  assumes sb: "sb_sound sb n"
  shows "sized n x sb \<Longrightarrow> \<forall>b \<in> set bs. b < sb_blocks sb \<Longrightarrow>
    sized n (clear_bits sb bs x) sb \<and>
    (\<forall>c < sb_blocks sb. block_used sb (clear_bits sb bs x) c \<longleftrightarrow> block_used sb x c \<and> c \<notin> set bs) \<and>
    (\<forall>c. c < bitmap_start sb \<or> inode_start sb \<le> c \<longrightarrow> clear_bits sb bs x c = x c)"
proof (induction bs arbitrary: x)
  case (Cons b bs)
  have b: "b < sb_blocks sb" using Cons.prems by simp
  have "block_used sb (set_bit_at sb b False x) c \<longleftrightarrow> c \<noteq> b \<and> block_used sb x c" if "c < sb_blocks sb" for c
    using block_used_set [OF sb Cons.prems(1) b that] by simp
  moreover have "set_bit_at sb b False x c = x c" if "c < bitmap_start sb \<or> inode_start sb \<le> c" for c
    by (rule set_bit_outside [OF sb b that])
  ultimately show ?case
    using Cons.IH [OF sized_set_bit [OF Cons.prems(1) sb b]] Cons.prems(2) unfolding clear_bits_Cons by auto
qed (simp add: clear_bits_def)

lemma clear_bits_facts:
  assumes "sb_sound sb n" "sized n x sb" "\<forall>b \<in> set bs. b < sb_blocks sb"
  shows "sized n (clear_bits sb bs x) sb" "c < sb_blocks sb \<Longrightarrow> block_used sb (clear_bits sb bs x) c \<longleftrightarrow> block_used sb x c \<and> c \<notin> set bs"
    "c < bitmap_start sb \<or> inode_start sb \<le> c \<Longrightarrow> clear_bits sb bs x c = x c"
  using clear_bits_all [OF assms] by blast+

subsection \<open>Entries\<close>

definition entry_ok :: "dir_entry \<Rightarrow> bool" where
  "entry_ok e \<longleftrightarrow> length (e_name e) = MAX_NAME \<and> e_length e \<le> of_nat MAX_NAME"

lemma entry_in_ok: "off + ENTRY \<le> length p \<Longrightarrow> entry_ok (entry_in p off)"
  by (simp add: entry_ok_def length_entry_in) (simp add: entry_in_def)

lemma entry_in_cong:
  assumes "load p off ENTRY = load q off ENTRY" "off + ENTRY \<le> length p" "off + ENTRY \<le> length q"
  shows "entry_in p off = entry_in q off"
proof -
  have "load p off 4 = load q off 4" using load_load [of 0 4 ENTRY off p] load_load [of 0 4 ENTRY off q] assms by (simp add: ENTRY_def)
  moreover have "load p (off + 5) MAX_NAME = load q (off + 5) MAX_NAME"
    using load_load [of 5 MAX_NAME ENTRY off p] load_load [of 5 MAX_NAME ENTRY off q] assms by (simp add: ENTRY_def MAX_NAME_def)
  moreover have "p ! (off + 4) = q ! (off + 4)"
    using nth_load [of off ENTRY p 4] nth_load [of off ENTRY q 4] assms by (simp add: ENTRY_def)
  ultimately show ?thesis by (simp add: entry_in_def)
qed

lemma entry_in_write:
  assumes "entry_ok e" "off + ENTRY \<le> length p" "a + ENTRY \<le> length p" "a = off \<or> a + ENTRY \<le> off \<or> off + ENTRY \<le> a"
  shows "entry_in (snd (entry_write e p off)) a = (if a = off then e else entry_in p a)"
proof -
  let ?w = "to_le_bytes 4 (e_inode e) @ [e_length e] @ e_name e"
  have n: "length (e_name e) = MAX_NAME" "length ?w = ENTRY" using assms(1) by (simp_all add: entry_ok_def MAX_NAME_def ENTRY_def)
  have w: "snd (entry_write e p off) = store p off ?w" using entry_write_eq [OF assms(2) n(1)] by simp
  show ?thesis
  proof (cases "a = off")
    case True
    have l: "load (store p off ?w) off ENTRY = ?w" using load_store [of off ?w p] assms(2) n(2) by simp
    have len: "off + ENTRY \<le> length (store p off ?w)" using assms(2) n(2) by simp
    have "load (store p off ?w) off 4 = to_le_bytes 4 (e_inode e)"
      using load_load [of 0 4 ENTRY off "store p off ?w"] len unfolding l by (simp add: ENTRY_def load_def)
    moreover have "load (store p off ?w) (off + 5) MAX_NAME = e_name e"
      using load_load [of 5 MAX_NAME ENTRY off "store p off ?w"] len n(1) unfolding l by (simp add: ENTRY_def MAX_NAME_def load_def)
    moreover have "store p off ?w ! (off + 4) = e_length e"
      using nth_load [of off ENTRY "store p off ?w" 4] len unfolding l by (simp add: ENTRY_def nth_append)
    ultimately show ?thesis using assms(1) True unfolding w by (simp add: entry_in_def entry_ok_def min_def)
  next
    case False
    then show ?thesis using assms n(2) unfolding w
      by (simp, intro entry_in_cong load_store_other) auto
  qed
qed

subsection \<open>After an operation\<close>

text \<open>No two block numbers of the directory are the same.\<close>

definition dir_apart :: "inode \<Rightarrow> bool" where
  "dir_apart dir \<longleftrightarrow> (\<forall>i < entries dir. \<forall>j < entries dir. dir_block dir i = dir_block dir j \<longrightarrow> i div PER = j div PER)"

definition smaller :: "inode \<Rightarrow> inode" where
  "smaller dir = dir\<lparr>isize := isize dir - of_nat ENTRY\<rparr>"

lemma smaller_simps [simp]: "direct (smaller dir) = direct dir" "dir_block (smaller dir) i = dir_block dir i" "ikind (smaller dir) = ikind dir"
  by (simp_all add: smaller_def dir_block_def)

lemma entries_smaller:
  assumes "0 < entries dir"
  shows "entries (smaller dir) = entries dir - 1"
proof -
  have "ENTRY \<le> unat (isize dir)" using assms by (simp add: entries_def ENTRY_def div_greater_zero_iff)
  moreover have "(of_nat ENTRY :: u64) \<le> isize dir" using calculation by (simp add: word_le_nat_alt ENTRY_def)
  ultimately have "unat (isize dir - of_nat ENTRY) = unat (isize dir) - ENTRY" by (simp add: unat_sub ENTRY_def)
  then show ?thesis by (simp add: entries_def smaller_def ENTRY_def)
qed

lemma data_outside:
  assumes "sb_sound sb n" "data_start sb \<le> b"
  shows "inode_start sb \<le> b" "journal_start sb \<le> b" "b \<notin> log_area sb"
  using assms by (auto simp: sb_sound_def log_area_def)

text \<open>The directory's entries when one of its blocks has an entry overwritten.\<close>

lemma dir_list_write:
  assumes sb: "sb_sound sb n" and x: "sized n x sb" and dir: "dir_ok sb dir" "dir_apart dir" and ix: "ix < entries dir" and e: "entry_ok e"
    and y: "\<And>b. data_start sb \<le> b \<Longrightarrow> y b = (if b = dir_block dir ix then snd (entry_write e (x b) (ix mod PER * ENTRY)) else x b)"
    and i: "i < entries dir"
  shows "entry_in (y (dir_block dir i)) (i mod PER * ENTRY) = (if i = ix then e else dir_list x dir ! i)"
proof -
  note d = dir_ok_block [OF sb dir(1)]
  have ds: "data_start sb \<le> dir_block dir i" using dir(1) i by (simp add: dir_ok_def)
  have len: "length (x (dir_block dir ix)) = BLOCK" using x d(3,4) [OF ix] by (simp add: sized_def)
  show ?thesis
  proof (cases "dir_block dir i = dir_block dir ix")
    case True
    then have q: "i div PER = ix div PER" using dir(2) ix i unfolding dir_apart_def by blast
    have place: "i mod PER * ENTRY = ix mod PER * ENTRY \<longleftrightarrow> i = ix" using q by (metis ENTRY_def div_mult_mod_eq mult_cancel2 numeral_neq_zero)
    have "i mod PER = ix mod PER \<or> i mod PER < ix mod PER \<or> ix mod PER < i mod PER" by linarith
    then have apart: "i mod PER * ENTRY = ix mod PER * ENTRY \<or> i mod PER * ENTRY + ENTRY \<le> ix mod PER * ENTRY \<or> ix mod PER * ENTRY + ENTRY \<le> i mod PER * ENTRY"
      by (auto simp: ENTRY_def)
    have "entry_in (snd (entry_write e (x (dir_block dir ix)) (ix mod PER * ENTRY))) (i mod PER * ENTRY) =
        (if i mod PER * ENTRY = ix mod PER * ENTRY then e else entry_in (x (dir_block dir ix)) (i mod PER * ENTRY))"
      by (rule entry_in_write [OF e _ _ apart]) (simp_all only: len entry_place(3))
    moreover have "y (dir_block dir ix) = snd (entry_write e (x (dir_block dir ix)) (ix mod PER * ENTRY))" using y [OF ds] True by simp
    ultimately show ?thesis unfolding place True dir_list_nth [OF i] by simp
  qed (use y [OF ds] i in \<open>auto simp: dir_list_nth\<close>)
qed

lemma dir_list_smaller:
  assumes "0 < entries dir" "\<And>i. i < entries dir \<Longrightarrow> entry_in (y (dir_block dir i)) (i mod PER * ENTRY) = es ! i" "length es = entries dir"
  shows "dir_list y (smaller dir) = butlast es"
  using assms by (intro nth_equalityI) (simp_all add: dir_list_def entries_smaller nth_butlast)

lemma length_dir_list [simp]: "length (dir_list x dir) = entries dir"
  by (simp add: dir_list_def)

lemma dir_list_ok:
  assumes "sb_sound sb n" "sized n x sb" "dir_ok sb dir" "e \<in> set (dir_list x dir)"
  shows "entry_ok e"
proof -
  obtain i where i: "i < entries dir" "e = entry_in (x (dir_block dir i)) (i mod PER * ENTRY)" using assms(4) by (auto simp: dir_list_def)
  then show ?thesis using dir_ok_block(3,4) [OF assms(1,3) i(1)] assms(2) entry_place(3) [of i] by (auto simp: sized_def intro!: entry_in_ok)
qed

lemma removed_view:
  assumes sb: "sb_sound sb n" and x: "sized n x sb" and par: "unat directory < sb_inodes sb" "dir_ok sb parent" "dir_apart parent"
    and ix: "ix < entries parent" and index: "unat index < sb_inodes sb" "index \<noteq> directory" and own: "owns_data sb x dead"
  defines "y \<equiv> removed sb directory parent ix index dead x"
  shows "inode_of sb n y j = (if j = index then Ok (free_inode_value\<lparr>generation := generation dead\<rparr>) else if j = directory then Ok (smaller parent) else inode_of sb n x j)"
    "dir_list y (smaller parent) = butlast ((dir_list x parent)[ix := last (dir_list x parent)])"
    "data_start sb \<le> b \<Longrightarrow> b \<noteq> dir_block parent ix \<Longrightarrow> y b = x b"
    "b < sb_blocks sb \<Longrightarrow> block_used sb y b \<longleftrightarrow> block_used sb x b \<and> b \<notin> set (contents x dead)"
    "sized n y sb" "y 0 = x 0"
proof -
  let ?d = "dir_block parent ix" and ?e = "last (dir_list x parent)" and ?free = "free_inode_value\<lparr>generation := generation dead\<rparr>"
  define x1 where "x1 = x(?d := snd (entry_write ?e (x ?d) (ix mod PER * ENTRY)))"
  define x2 where "x2 = set_inode sb directory (smaller parent) x1"
  define x3 where "x3 = set_inode sb index ?free x2"
  have y: "y = clear_bits sb (contents x dead) x3" by (simp add: y_def removed_def x3_def x2_def x1_def smaller_def)
  note d = dir_ok_block [OF sb par(2) ix]
  have dr: "data_start sb \<le> ?d" using par(2) ix by (auto simp: dir_ok_def)
  have ne: "dir_list x parent \<noteq> []" using ix by (auto simp: dir_list_def)
  have e: "entry_ok ?e" by (rule dir_list_ok [OF sb x par(2)]) (simp add: ne)
  have l: "length (direct parent) = 10" "length (direct ?free) = 10" using par(2) by (simp_all add: dir_ok_def free_inode_value_def)
  have "length (x ?d) = BLOCK" using x d(3,4) by (simp add: sized_def)
  then have s1: "sized n x1 sb" unfolding x1_def using e entry_place(3) [of ix]
    by (intro sized_upd [OF x]) (simp add: entry_write_eq entry_ok_def ENTRY_def MAX_NAME_def)
  have s2: "sized n x2 sb" unfolding x2_def by (rule sized_set_inode [OF s1 sb]) (simp add: l)
  have s3: "sized n x3 sb" unfolding x3_def by (rule sized_set_inode [OF s2 sb l(2)])
  have bs: "\<forall>b \<in> set (contents x dead). b < sb_blocks sb" using own by (simp add: owns_data_def)
  note clear = clear_bits_facts [OF sb s3 bs, folded y]
  show "sized n y sb" by (rule clear(1))
  show "y 0 = x 0" using clear(3) [of 0] set_inode_outside [OF sb, of 0] dr sb by (auto simp: x3_def x2_def x1_def sb_sound_def)
  have y_data: "y b = x1 b" if "data_start sb \<le> b" for b
    using data_outside [OF sb that] clear(3) set_inode_outside [OF sb] by (simp add: x3_def x2_def)
  show "data_start sb \<le> b \<Longrightarrow> b \<noteq> ?d \<Longrightarrow> y b = x b" by (simp add: y_data x1_def)
  have "inode_of sb n x1 j = inode_of sb n x j" by (rule inode_of_other [OF sb]) (use dr sb in \<open>auto simp: x1_def sb_sound_def\<close>)
  moreover have "inode_of sb n y j = inode_of sb n x3 j" by (rule inode_of_other [OF sb]) (use clear(3) in auto)
  ultimately show "inode_of sb n y j = (if j = index then Ok ?free else if j = directory then Ok (smaller parent) else inode_of sb n x j)"
    by (simp add: x3_def x2_def inode_of_set [OF sb s2 [unfolded x2_def] index(1) l(2)] inode_of_set [OF sb s1 par(1)] l)
  have bits: "block_used sb x3 c = block_used sb x c" if "c < sb_blocks sb" for c
    using bitmap_holding_range [OF sb that] set_inode_outside [OF sb, of "bitmap_holding sb c"] dr sb
    by (auto simp: block_used_def x3_def x2_def x1_def sb_sound_def)
  show "b < sb_blocks sb \<Longrightarrow> block_used sb y b \<longleftrightarrow> block_used sb x b \<and> b \<notin> set (contents x dead)"
    using clear(2) bits by simp
  have "entry_in (y (dir_block parent i)) (i mod PER * ENTRY) = (dir_list x parent)[ix := ?e] ! i" if "i < entries parent" for i
    using dir_list_write [OF sb x par(2,3) ix e, of y i] y_data that by (simp add: x1_def nth_list_update)
  then show "dir_list y (smaller parent) = butlast ((dir_list x parent)[ix := ?e])"
    by (rule dir_list_smaller [rotated]) (use ix in auto)
qed

end
