(* ===== verification/FsDead.thy ===== *)
theory FsDead
  imports FsContent
begin

text \<open>
  After the device has stopped: nothing an operation still does reaches it, and no transaction is
  reported as committed. \<open>create\<close> needs this, since it takes every error of its own lookup for the
  absence of the name and goes on.
\<close>

definition dead :: "superblock \<Rightarrow> nat \<Rightarrow> (nat \<Rightarrow> u8 list) \<Rightarrow> volume \<Rightarrow> bool" where
  "dead sb n x v \<longleftrightarrow> crashed sb n x v \<and> halted v"

lemma idle_dead: "sb_sound sb n \<Longrightarrow> idle sb n x v \<Longrightarrow> halted v \<Longrightarrow> dead sb n x v"
  using idle_stands_dev [of sb n x v] by (simp add: dead_def crashed_def idle_def within_def)

subsection \<open>Operations of the cache\<close>

definition calm :: "(cache, 'a) act \<Rightarrow> bool" where
  "calm a \<longleftrightarrow> moves (\<lambda>c. cache_ready c \<and> stopped c) (\<lambda>c c'. wbytes (device c') = wbytes (device c)) a"

lemma calmI:
  assumes "\<And>c r c'. cache_ready c \<Longrightarrow> a c = (r, c') \<Longrightarrow> evolves c c'"
  shows "calm a"
  unfolding calm_def moves_def
proof (intro allI impI)
  fix c assume c: "cache_ready c \<and> stopped c"
  then have "evolves c (snd (a c))" using assms [of c "fst (a c)" "snd (a c)"] by simp
  then show "wbytes (device (snd (a c))) = wbytes (device c) \<and> cache_ready (snd (a c)) \<and> stopped (snd (a c))"
    using c spare_evolves [of c "snd (a c)"] by (auto simp: evolves_def cache_ready_def)
qed

lemma calm_bind: "calm a \<Longrightarrow> (\<And>x. calm (f x)) \<Longrightarrow> calm (bind_act a f)"
  unfolding calm_def by (rule moves_bind) (auto intro: transpI)

lemma calm_leaf: "calm (ret x)" "calm (fail e)" "calm (of_result r)" "calm (gets f)"
  unfolding calm_def by (simp_all add: reflp_def)

lemma calm_reads: "cached.reads a p \<Longrightarrow> calm a"
  by (rule calmI) (auto simp: settles_def dest: cached.reads_result)

lemma calm_finds: "cached.finds a p \<Longrightarrow> calm a"
  by (rule calmI) (auto simp: cached.finds_def settles_def)

lemmas calm_passes = calm_reads [OF cached.passes_reads]

lemma calm_edit: "\<forall>v. length v = BLOCK \<longrightarrow> length (snd (f v)) = BLOCK \<Longrightarrow> calm (edit b f)"
proof (rule calmI)
  fix c r c' assume f: "\<forall>v. length v = BLOCK \<longrightarrow> length (snd (f v)) = BLOCK" and c: "cache_ready c" and run: "edit b f c = (r, c')"
  from c have "cache_ok c" by (simp add: cache_ready_def)
  from this run f show "evolves c c'" by (cases rule: edit_cases) (simp_all add: writes_def settles_def)
qed

lemma calm_copy: "calm (copy a b)"
proof (rule calmI)
  fix c r c' assume c: "cache_ready c" and run: "copy a b c = (r, c')"
  from c have "cache_ok c" by (simp add: cache_ready_def)
  from this run show "evolves c c'"
  proof (cases rule: copy_cases)
    case same
    then show ?thesis using settles_refl [OF \<open>cache_ok c\<close>] by (simp add: settles_def)
  qed (simp_all add: writes_def settles_def)
qed

lemma calm_flush: "calm flush"
proof (rule calmI)
  fix c r c' assume c: "cache_ready c" and run: "flush c = (r, c')"
  from c have "cache_ok c" by (simp add: cache_ready_def)
  from this run show "evolves c c'" by (cases rule: flush_cases) (simp_all add: settles_def)
qed

text \<open>A stopped device takes no flush of a dirty cache.\<close>

lemma flush_stopped:
  assumes "cache_ok c" "stopped c" "dirty_set c \<noteq> {}"
  shows "isl (fst (flush c))"
proof -
  have "isl (fst (flush_from is went c))" if "\<exists>i \<in> set is. dirty (slots c ! i) \<and> blk (slots c ! i) \<noteq> None" for "is" went
    using that
  proof (induction "is" arbitrary: went)
    case (Cons i "is")
    show ?case
    proof (cases "dirty (slots c ! i) \<and> blk (slots c ! i) \<noteq> None")
      case True
      then show ?thesis using assms(2) by (auto simp: write_back_def store_write_def stopped_def)
    next
      case False
      then have "isl (fst (flush_from is w c))" for w using Cons by auto
      then show ?thesis using False by (auto simp: write_back_def)
    qed
  qed simp
  moreover have "\<exists>i \<in> set [0..<fcount c]. dirty (slots c ! i) \<and> blk (slots c ! i) \<noteq> None" using assms(3) by (fastforce simp: dirty_set_def)
  ultimately show ?thesis by (simp add: flush_def)
qed

lemma edit_dirty:
  assumes ok: "cache_ok c" and run: "edit b f c = (Inr u, c')"
  shows "b \<in> dirty_set c'"
proof -
  obtain r1 c1 where a: "admit b c = (r1, c1)" by (cases "admit b c")
  from ok a show ?thesis
  proof (cases rule: admit_cases)
    case (admitted i)
    have i: "i < fcount c1" "blk (slots c1 ! i) = Some b" "i < length (slots c1)"
      using admitted(5) cache_okD [OF admitted(3)] by (auto simp: admitted_def)
    then show ?thesis using run a admitted(1) by (auto simp: edit_def set_frame_def dirty_set_def split: prod.splits)
  next
    case refused
    then show ?thesis using run a by (simp add: edit_def)
  qed
qed

subsection \<open>Operations of the volume\<close>

text \<open>A dead volume, with what else is known of the fields beside its cache.\<close>

definition gone :: "superblock \<Rightarrow> nat \<Rightarrow> (nat \<Rightarrow> u8 list) \<Rightarrow> (nat \<Rightarrow> bool) \<Rightarrow> volume \<Rightarrow> bool" where
  "gone sb n x P v \<longleftrightarrow> dead sb n x v \<and> P (vcount v)"

lemma gone_any: "gone sb n x (\<lambda>_. True) = dead sb n x"
  by (simp add: gone_def fun_eq_iff)

definition ends :: "superblock \<Rightarrow> nat \<Rightarrow> (nat \<Rightarrow> u8 list) \<Rightarrow> (volume, 'a) act \<Rightarrow> bool" where
  "ends sb n x a \<longleftrightarrow> (\<forall>P. ensures (gone sb n x P) a (\<lambda>_. gone sb n x P) (\<lambda>_. gone sb n x P))"

lemma dead_cache:
  assumes "calm a" "dead sb n x v" "a (vcache v) = (r, c')"
  shows "dead sb n x (v\<lparr>vcache := c'\<rparr>)" "cache_ok c'" "stopped c'"
proof -
  have "wbytes (device c') = wbytes (device (vcache v)) \<and> cache_ready c' \<and> stopped c'"
    using assms unfolding calm_def moves_def by (metis dead_def crashed_def halted_def snd_conv)
  then show "dead sb n x (v\<lparr>vcache := c'\<rparr>)" "cache_ok c'" "stopped c'"
    using assms(2) by (auto simp: dead_def crashed_def halted_def dev_def dblock_def [abs_def] cblocks_def store_blocks_def cache_ready_def)
qed

lemma ends_cache: "calm a \<Longrightarrow> ends sb n x (on_cache a)"
  unfolding ends_def by (intro allI ensuresI) (auto simp: gone_def on_cache_def split: prod.splits dest: dead_cache(1))

lemma ends_bind: "ends sb n x a \<Longrightarrow> (\<And>u. ends sb n x (f u)) \<Longrightarrow> ends sb n x (bind_act a f)"
  unfolding ends_def by (blast intro: ensures_bind)

lemma ends_leaf: "ends sb n x (ret u)" "ends sb n x (fail e)" "ends sb n x (of_result r)" "ends sb n x (gets f)"
  by (auto simp: ends_def gone_def split: sum.split)

lemma ends_attempt: "ends sb n x a \<Longrightarrow> ends sb n x (attempt a)"
  by (simp add: ends_def ensures_attempt)

lemmas ends_rules = ends_bind ends_leaf ends_cache

lemma ends_vol_inode: "ends sb n x (vol_inode index)"
  unfolding vol_inode_def by (intro ends_rules calm_passes [OF cached.passes_inode])

lemma ends_vol_lookup: "ends sb n x (vol_lookup directory name)"
  unfolding vol_lookup_def by (intro ends_rules calm_passes [OF cached.passes_inode] calm_finds [OF cached.finds_lookup])

lemma ends_free_inode: "ends sb n x free_inode"
proof -
  have "ends sb n x (free_inode_from is)" for "is"
    by (induction "is") (auto split: sum.split intro!: ends_rules ends_attempt ends_vol_inode)
  then show ?thesis unfolding free_inode_def by (intro ends_rules)
qed

lemma passes_block_free: "cached.passes (block_free sb b) (bind_act (of_result (to_u32 (bitmap_holding sb b))) (\<lambda>holding.
    bind_act (plain_page holding) (\<lambda>found.
    bind_act (of_result (or_range (get found (b div 8 mod BLOCK)))) (\<lambda>cell.
    ret (cell AND push_bit (b mod 8) 1 = 0)))))"
  unfolding block_free_def by (intro cached.passes_rules)

lemma calm_free_block_from: "calm (free_block_from sb taken bs)"
  by (induction bs) (auto intro!: calm_bind calm_leaf calm_passes [OF passes_block_free])

lemma ends_free_block: "ends sb n x free_block"
  unfolding free_block_def free_block_excluding_def by (intro ends_rules calm_free_block_from)

lemma ends_step: "ends sb n x a \<Longrightarrow> ensures (gone sb n x P) a (\<lambda>_. gone sb n x P) (\<lambda>_. dead sb n x)"
  unfolding ends_def by (erule allE [of _ P], erule ensures_post) (auto simp: gone_def)

abbreviation (input) staged_some :: "nat \<Rightarrow> bool" where
  "staged_some k \<equiv> 0 < k"

lemma begin_gone: "ensures (gone sb n x P) begin_transaction (\<lambda>_. dead sb n x) (\<lambda>_. dead sb n x)"
proof -
  have pend: "ensures (gone sb n x P) (on_cache (pending page sb')) (\<lambda>_. gone sb n x P) (\<lambda>_. dead sb n x)" for sb'
    by (intro ends_step ends_cache calm_passes [OF cached.passes_pending])
  have rest: "ensures (gone sb n x P) (if w then fail NeedsRecovery else update (\<lambda>v. v\<lparr>vcount := 0, sequence := max (sequence v + 1) 1\<rparr>))
      (\<lambda>_. dead sb n x) (\<lambda>_. dead sb n x)" for w
    by (auto simp: gone_def dead_def crashed_def halted_def dev_def)
  have "ensures (gone sb n x P) (gets vsb) (\<lambda>_. gone sb n x P) (\<lambda>_. dead sb n x)" by simp
  then show ?thesis unfolding begin_transaction_def by (rule ensures_bind, intro ensures_bind [OF pend rest])
qed

lemma stage_gone: "ensures (dead sb n x) (stage b) (\<lambda>_. gone sb n x staged_some) (\<lambda>_. dead sb n x)"
proof -
  let ?rest = "\<lambda>slot. bind_act (slot_block slot) (\<lambda>to. bind_act (on_cache (copy b to)) (\<lambda>_.
      bind_act (update (\<lambda>v. v\<lparr>staged := (staged v)[slot := b], vcount := slot + 1\<rparr>)) (\<lambda>_. ret slot)))"
  have slot: "ensures (gone sb n x (\<lambda>_. True)) (slot_block slot) (\<lambda>_. gone sb n x (\<lambda>_. True)) (\<lambda>_. dead sb n x)" for slot
    unfolding slot_block_def by (intro ends_step ends_rules)
  have copy: "ensures (gone sb n x (\<lambda>_. True)) (on_cache (copy b to)) (\<lambda>_. gone sb n x (\<lambda>_. True)) (\<lambda>_. dead sb n x)" for to
    by (intro ends_step ends_cache calm_copy)
  have put: "ensures (gone sb n x (\<lambda>_. True)) (bind_act (update (\<lambda>v. v\<lparr>staged := (staged v)[slot := b], vcount := slot + 1\<rparr>)) (\<lambda>_. ret slot))
      (\<lambda>_. gone sb n x staged_some) (\<lambda>_. dead sb n x)" for slot
    by (rule ensures_bind [where R = "\<lambda>_. gone sb n x staged_some"]) (auto simp: gone_def dead_def crashed_def halted_def dev_def)
  have rest: "ensures (dead sb n x) (?rest slot) (\<lambda>_. gone sb n x staged_some) (\<lambda>_. dead sb n x)" for slot
    unfolding gone_any [symmetric] by (rule ensures_bind [OF slot [unfolded gone_any [symmetric]]], rule ensures_bind [OF copy put, unfolded gone_any [symmetric]])
  have main: "case r of Inr _ \<Rightarrow> gone sb n x staged_some v' | Inl _ \<Rightarrow> dead sb n x v'"
    if v: "dead sb n x v" and run: "stage b v = (r, v')" for v r v'
  proof (cases "position (\<lambda>a. a = b) (take (vcount v) (staged v))")
    case None
    then show ?thesis using ensures_run [OF rest [of "vcount v"] v] v run by (auto simp: stage_def Let_def split: if_splits)
  next
    case (Some slot)
    then have "0 < vcount v" using position_SomeD [of "\<lambda>a. a = b" "take (vcount v) (staged v)" slot] by auto
    then show ?thesis using Some v run by (auto simp: stage_def gone_def)
  qed
  show ?thesis by (rule ensuresI) (use main in force)+
qed

lemma ends_staged_mut: "\<forall>p. length p = BLOCK \<longrightarrow> length (snd (f p)) = BLOCK \<Longrightarrow> ends sb n x (staged_mut slot f)"
  unfolding staged_mut_def slot_block_def by (intro ends_rules calm_edit)

lemma gone_weaken: "gone sb n x P v \<Longrightarrow> dead sb n x v"
  by (simp add: gone_def)

lemma update_gone:
  assumes "\<forall>p. length p = BLOCK \<longrightarrow> length (snd (f p)) = BLOCK"
  shows "ensures (dead sb n x) (bind_act (stage b) (\<lambda>slot. staged_mut slot f)) (\<lambda>_. gone sb n x staged_some) (\<lambda>_. dead sb n x)"
  by (rule ensures_bind [OF stage_gone ends_step [OF ends_staged_mut [OF assms]]])

lemma stage_inode_gone:
  assumes "length (direct ino) = 10"
  shows "ensures (dead sb n x) (stage_inode index ino) (\<lambda>_. gone sb n x staged_some) (\<lambda>_. dead sb n x)"
proof -
  have put: "\<forall>p. length p = BLOCK \<longrightarrow> length (snd (put_inode offset ino p)) = BLOCK" for offset
    using assms by (auto simp: put_inode_def slice_at_def encode_bytes INODE_def)
  have "ensures (dead sb n x) (of_result (inode_at sb' index)) (\<lambda>_. dead sb n x) (\<lambda>_. dead sb n x)" for sb'
    by (auto split: sum.split)
  moreover have "ensures (dead sb n x) (gets vsb) (\<lambda>_. dead sb n x) (\<lambda>_. dead sb n x)" by simp
  ultimately show ?thesis unfolding stage_inode_def
    by (intro ensures_bind) (auto intro!: update_gone [OF put] split: prod.split)
qed

lemma stage_bitmap_gone: "ensures (dead sb n x) (stage_bitmap b mark) (\<lambda>_. gone sb n x staged_some) (\<lambda>_. dead sb n x)"
proof -
  have put: "\<forall>p. length p = BLOCK \<longrightarrow> length (snd (put_bit b mark p)) = BLOCK" by (simp add: put_bit_eq)
  have "ensures (dead sb n x) (of_result (to_u32 k)) (\<lambda>_. dead sb n x) (\<lambda>_. dead sb n x)" for k by (auto split: sum.split)
  then have "ensures (dead sb n x) (if inode_start sb' \<le> bitmap_holding sb' b then fail OutOfRange
      else bind_act (of_result (to_u32 (bitmap_holding sb' b))) (\<lambda>holding. bind_act (stage holding) (\<lambda>slot. staged_mut slot (put_bit b mark))))
      (\<lambda>_. gone sb n x staged_some) (\<lambda>_. dead sb n x)" for sb'
    by (intro ensures_if ensures_bind [OF _ update_gone [OF put]]) simp_all
  moreover have "ensures (dead sb n x) (gets vsb) (\<lambda>_. dead sb n x) (\<lambda>_. dead sb n x)" by simp
  ultimately show ?thesis unfolding stage_bitmap_def by (rule ensures_bind [rotated])
qed

text \<open>A commit never succeeds: its commit block stays in the cache.\<close>

lemma put_head_length: "length head = HEAD \<Longrightarrow> \<forall>p. length p = BLOCK \<longrightarrow> length (snd (put_head head p)) = BLOCK"
  by (simp add: put_head_def zeroed_def HEAD_def TABLE_def MAX_STAGED_def)

lemma length_put_all: "length (snd (put_all fs bytes)) = length bytes"
  by (induction fs bytes rule: put_all.induct) (auto simp: put_bytes_def split: option.splits if_splits)

lemma length_build_commit:
  assumes run: "build_commit pg sb seq homes c = (Inr head, c')"
  shows "length head = HEAD"
proof -
  obtain r1 head1 where p: "put_all (commit_fields seq homes) (replicate HEAD 0) = (r1, head1)" by (cases "put_all (commit_fields seq homes) (replicate HEAD 0)")
  have "length head1 = HEAD" using length_put_all [of "commit_fields seq homes" "replicate HEAD 0"] by (simp add: p)
  then have l: "length head2 = HEAD" if "put_all [f] head1 = (r2, head2)" for f r2 head2
    using length_put_all [of "[f]" head1] that by simp
  show ?thesis
    using run p by (auto simp: build_commit_def bind_act_def fail_def of_result_def ret_def simp del: put_all.simps split: if_splits prod.splits sum.splits dest: l)
qed

lemma on_cache_dead:
  assumes "calm a"
  shows "ensures (dead sb n x) (on_cache a) (\<lambda>_. dead sb n x) (\<lambda>_. dead sb n x)"
  using ends_step [OF ends_cache [OF assms], where P = "\<lambda>_. True"] by (simp add: gone_any)

lemma commit_chain_gone:
  "ensures (dead sb n x) (bind_act (on_cache flush) (\<lambda>_. bind_act (on_cache (build_commit page sb' seq homes)) (\<lambda>head.
     bind_act (of_result (to_u32 J)) (\<lambda>b. bind_act (on_cache (edit b (put_head head))) (\<lambda>_. bind_act (on_cache flush) (\<lambda>_. rest))))))
   (\<lambda>_ _. False) (\<lambda>_. dead sb n x)"
proof -
  note flush = on_cache_dead [OF calm_flush]
  have s2: "ensures (dead sb n x) (on_cache (build_commit page sb' seq homes)) (\<lambda>head v. dead sb n x v \<and> length head = HEAD) (\<lambda>_. dead sb n x)"
  proof (rule ensuresI)
    fix v head v' assume v: "dead sb n x v" and run: "on_cache (build_commit page sb' seq homes) v = (Inr head, v')"
    show "dead sb n x v' \<and> length head = HEAD"
      using ensures_ok [OF on_cache_dead [OF calm_passes [OF cached.passes_build_commit]] v run] run
      by (auto simp: on_cache_def split: prod.splits dest: length_build_commit)
  qed (use ensures_error [OF on_cache_dead [OF calm_passes [OF cached.passes_build_commit]]] in blast)
  have s4: "ensures (dead sb n x) (on_cache (edit b (put_head head))) (\<lambda>_ v. dead sb n x v \<and> dirty_set (vcache v) \<noteq> {}) (\<lambda>_. dead sb n x)"
    if "length head = HEAD" for b head
  proof (rule ensuresI)
    note calm = calm_edit [OF put_head_length [OF that], of b]
    fix v u v' assume v: "dead sb n x v" and run: "on_cache (edit b (put_head head)) v = (Inr u, v')"
    have "b \<in> dirty_set (vcache v')"
      using run v by (auto simp: on_cache_def dead_def crashed_def cache_ready_def split: prod.splits dest: edit_dirty)
    then show "dead sb n x v' \<and> dirty_set (vcache v') \<noteq> {}" using ensures_ok [OF on_cache_dead [OF calm] v run] by auto
  qed (use ensures_error [OF on_cache_dead [OF calm_edit [OF put_head_length [OF that], of b]]] in blast)
  have s5: "ensures (\<lambda>v. dead sb n x v \<and> dirty_set (vcache v) \<noteq> {}) (on_cache flush) (\<lambda>_ _. False) (\<lambda>_. dead sb n x)"
  proof (rule ensuresI)
    fix v u v' assume v: "dead sb n x v \<and> dirty_set (vcache v) \<noteq> {}" and run: "on_cache flush v = (Inr u, v')"
    then have "isl (fst (flush (vcache v)))" by (intro flush_stopped) (auto simp: dead_def crashed_def cache_ready_def halted_def)
    then show False using run by (auto simp: on_cache_def split: prod.splits)
  qed (use ensures_error [OF flush] in blast)
  have tail: "ensures (dead sb n x) (bind_act (of_result (to_u32 J)) (\<lambda>b. bind_act (on_cache (edit b (put_head head))) (\<lambda>_. bind_act (on_cache flush) (\<lambda>_. rest))))
      (\<lambda>_ _. False) (\<lambda>_. dead sb n x)" if "length head = HEAD" for head
    by (rule ensures_bind [where R = "\<lambda>_. dead sb n x"], simp split: sum.split, rule ensures_bind [OF s4 [OF that]], rule ensures_bind [OF s5])
      (simp add: ensures_def)
  show ?thesis by (rule ensures_bind [OF flush], rule ensures_bind [OF s2], rule ensures_given, rule tail)
qed

lemma commit_gone: "ensures (gone sb n x staged_some) (commit_transaction order) (\<lambda>_ _. False) (\<lambda>_. dead sb n x)"
proof -
  have main: "isl r \<and> dead sb n x v'" if v: "gone sb n x staged_some v" and run: "commit_transaction order v = (r, v')" for v r v'
  proof -
    have "dead sb n x v" "vcount v \<noteq> 0" using v by (auto simp: gone_def)
    then have "case r of Inl _ \<Rightarrow> dead sb n x v' | Inr _ \<Rightarrow> False"
      by (intro ensures_run [OF commit_chain_gone]) (use run in \<open>simp_all add: commit_transaction_def Let_def\<close>)
    then show ?thesis by (simp split: sum.splits)
  qed
  show ?thesis by (rule ensuresI) (use main in force)+
qed

end
