(* ===== verification/FsCreate.thy ===== *)
theory FsCreate
  imports FsDead
begin

text \<open>\<open>create\<close>: an interrupted one happened or did not, and what it does when it happens.\<close>

lemma ensures_either: "ensures P a Q E \<Longrightarrow> ensures P' a Q E \<Longrightarrow> ensures (\<lambda>s. P s \<or> P' s) a Q E"
  by (auto simp: ensures_def)

lemma on_cache_bind: "on_cache (bind_act a f) = bind_act (on_cache a) (\<lambda>x. on_cache (f x))"
  by (auto simp: on_cache_def bind_act_def fun_eq_iff split: prod.splits sum.splits)

lemma on_cache_leaf: "on_cache (ret x) = ret x" "on_cache (fail e) = fail e" "on_cache (of_result r) = of_result r"
  by (auto simp: on_cache_def ret_def fail_def of_result_def fun_eq_iff)

subsection \<open>Choosing an inode\<close>

definition is_free :: "superblock \<Rightarrow> nat \<Rightarrow> (nat \<Rightarrow> u8 list) \<Rightarrow> nat \<Rightarrow> bool" where
  "is_free sb n x i \<longleftrightarrow> (case inode_of sb n x (of_nat i) of Inl _ \<Rightarrow> False | Inr ino \<Rightarrow> ikind ino = FreeInode)"

definition first_free_inode :: "superblock \<Rightarrow> nat \<Rightarrow> (nat \<Rightarrow> u8 list) \<Rightarrow> nat option" where
  "first_free_inode sb n x = find (is_free sb n x) [0..<(if sb_inodes sb < 2 ^ 32 then sb_inodes sb else 2 ^ 32 - 1)]"

lemma try_inode:
  assumes sb: "sb_sound sb n"
  shows "ensures (idle sb n x) (attempt (vol_inode index)) (\<lambda>r v. idle sb n x v \<and> r = inode_of sb n x index \<or> dead sb n x v) (\<lambda>_ _. False)"
  unfolding ensures_attempt by (rule ensures_post [OF vol_inode_step [OF sb]]) (auto intro: idle_dead [OF sb])

lemma dead_step: "ends sb n x a \<Longrightarrow> ensures (dead sb n x) a (\<lambda>_. dead sb n x) (\<lambda>_. dead sb n x)"
  using ends_step [of sb n x a "\<lambda>_. True"] by (simp add: gone_any)

lemma free_inode_from_step:
  assumes sb: "sb_sound sb n"
  shows "ensures (idle sb n x) (free_inode_from is)
    (\<lambda>index v. idle sb n x v \<and> (\<exists>i. find (is_free sb n x) is = Some i \<and> index = of_nat i) \<or> dead sb n x v)
    (\<lambda>e v. idle sb n x v \<and> find (is_free sb n x) is = None \<or> dead sb n x v)"
proof (induction "is")
  case (Cons i "is")
  let ?Q = "\<lambda>index v. idle sb n x v \<and> (\<exists>j. find (is_free sb n x) (i # is) = Some j \<and> index = of_nat j) \<or> dead sb n x v"
  let ?E = "\<lambda>e v. idle sb n x v \<and> find (is_free sb n x) (i # is) = None \<or> dead sb n x v"
  let ?k = "\<lambda>r. case r of Inr ino \<Rightarrow> if ikind ino = FreeInode then ret (of_nat i) else free_inode_from is | Inl _ \<Rightarrow> free_inode_from is"
  have ends: "ends sb n x (free_inode_from js)" for js
    by (induction js) (auto split: sum.split intro!: ends_rules ends_attempt ends_vol_inode)
  have gone: "ensures (dead sb n x) (?k r) ?Q ?E" for r
    by (rule ensures_post [OF dead_step]) (auto split: sum.split intro!: ends ends_leaf)
  have free: "is_free sb n x i \<longleftrightarrow> (case inode_of sb n x (of_nat i) of Inl _ \<Rightarrow> False | Inr ino \<Rightarrow> ikind ino = FreeInode)" by (simp add: is_free_def)
  have live: "ensures (idle sb n x) (?k (inode_of sb n x (of_nat i))) ?Q ?E"
  proof (cases "is_free sb n x i")
    case True
    then show ?thesis using free by (auto split: sum.splits)
  next
    case False
    then have k: "?k (inode_of sb n x (of_nat i)) = free_inode_from is" using free by (auto split: sum.splits)
    show ?thesis unfolding k by (rule ensures_post [OF Cons]) (use False in auto)
  qed
  have rest: "ensures (\<lambda>v. idle sb n x v \<and> r = inode_of sb n x (of_nat i) \<or> dead sb n x v) (?k r) ?Q ?E" for r
    by (rule ensures_either [OF ensures_given gone]) (use live in simp)
  have look: "ensures (idle sb n x) (attempt (vol_inode (of_nat i))) (\<lambda>r v. idle sb n x v \<and> r = inode_of sb n x (of_nat i) \<or> dead sb n x v) ?E"
    by (rule ensures_post [OF try_inode [OF sb]]) auto
  show ?case unfolding free_inode_from.simps by (rule ensures_bind [OF look rest])
qed simp

lemma free_inode_step:
  assumes sb: "sb_sound sb n"
  shows "ensures (idle sb n x) free_inode
    (\<lambda>index v. idle sb n x v \<and> (\<exists>i. first_free_inode sb n x = Some i \<and> index = of_nat i) \<or> dead sb n x v)
    (\<lambda>e v. idle sb n x v \<and> first_free_inode sb n x = None \<or> dead sb n x v)"
  unfolding first_free_inode_def
  by (rule ensures_cong [OF _ free_inode_from_step [OF sb]]) (simp add: free_inode_def idle_def)

subsection \<open>Choosing a block\<close>

definition first_free_block :: "superblock \<Rightarrow> (nat \<Rightarrow> u8 list) \<Rightarrow> nat option" where
  "first_free_block sb x = find (\<lambda>b. \<not> block_used sb x b) [data_start sb..<sb_blocks sb]"

lemma block_free_step:
  assumes sb: "sb_sound sb n" and b: "b < sb_blocks sb"
  shows "ensures (idle sb n x) (on_cache (block_free sb b)) (\<lambda>r v. idle sb n x v \<and> r = (\<not> block_used sb x b)) (\<lambda>e. dead sb n x)"
proof (rule ensures_knowing [where A = "sized n x sb"])
  show "sized n x sb" if "idle sb n x v" for v by (rule idle_sized [OF sb that])
  assume x: "sized n x sb"
  note h = bitmap_holding_range [OF sb b]
  have in': "bitmap_holding sb b < n" "bitmap_holding sb b \<notin> log_area sb" "to_u32 (bitmap_holding sb b) = Ok (bitmap_holding sb b)"
    using h sb by (auto simp: sb_sound_def log_area_def to_u32_def)
  let ?p = "bind_act (of_result (to_u32 (bitmap_holding sb b))) (\<lambda>holding. bind_act (plain_page holding) (\<lambda>found.
    bind_act (of_result (or_range (get found (b div 8 mod BLOCK)))) (\<lambda>cell. ret (cell AND push_bit (b mod 8) 1 = 0))))"
  have plain: "fst (?p (g, n)) = Ok (\<not> block_used sb x b)" if "g (bitmap_holding sb b) = x (bitmap_holding sb b)" for g
    using that in' x by (simp add: bind_act_def plain_page_def of_result_def or_range_def get_def ret_def sized_def block_used_def and_exp_eq_0_iff_not_bit)
  then have "off_log sb n ?p x" using in' by (simp add: off_log_def)
  then show "ensures (idle sb n x) (on_cache (block_free sb b)) (\<lambda>r v. idle sb n x v \<and> r = (\<not> block_used sb x b)) (\<lambda>e. dead sb n x)"
    by (rule ensures_post [OF idle_passes [OF sb passes_block_free]]) (use plain [of x] in \<open>auto intro: idle_dead [OF sb]\<close>)
qed

lemma free_block_from_step:
  assumes sb: "sb_sound sb n" and bs: "\<forall>b \<in> set bs. b < sb_blocks sb"
  shows "ensures (idle sb n x) (on_cache (free_block_from sb (2 ^ 32 - 1) bs))
    (\<lambda>b v. idle sb n x v \<and> find (\<lambda>b. \<not> block_used sb x b) bs = Some b)
    (\<lambda>e v. idle sb n x v \<and> find (\<lambda>b. \<not> block_used sb x b) bs = None \<or> dead sb n x v)"
  using bs
proof (induction bs)
  case (Cons b bs)
  have b: "b < sb_blocks sb" "b \<noteq> 2 ^ 32 - 1" "to_u32 b = Ok b" using Cons.prems sb by (auto simp: sb_sound_def to_u32_def)
  let ?Q = "\<lambda>c v. idle sb n x v \<and> find (\<lambda>b. \<not> block_used sb x b) (b # bs) = Some c"
  let ?E = "\<lambda>e v. idle sb n x v \<and> find (\<lambda>b. \<not> block_used sb x b) (b # bs) = None \<or> dead sb n x v"
  have rest: "ensures (idle sb n x) (on_cache (if free then of_result (to_u32 b) else free_block_from sb (2 ^ 32 - 1) bs)) ?Q ?E"
    if free: "free = (\<not> block_used sb x b)" for free
  proof (cases free)
    case False
    then show ?thesis using Cons free by simp
  qed (use free b in \<open>simp add: on_cache_leaf\<close>)
  have look: "ensures (idle sb n x) (on_cache (block_free sb b)) (\<lambda>r v. idle sb n x v \<and> r = (\<not> block_used sb x b)) ?E"
    by (rule ensures_post [OF block_free_step [OF sb b(1)]]) auto
  have "ensures (idle sb n x) (bind_act (on_cache (block_free sb b)) (\<lambda>free. on_cache (if free then of_result (to_u32 b) else free_block_from sb (2 ^ 32 - 1) bs))) ?Q ?E"
    by (rule ensures_bind [OF look], rule ensures_given, rule rest)
  moreover have "on_cache (free_block_from sb (2 ^ 32 - 1) (b # bs)) =
      bind_act (on_cache (block_free sb b)) (\<lambda>free. on_cache (if free then of_result (to_u32 b) else free_block_from sb (2 ^ 32 - 1) bs))"
    using b(2) by (simp only: free_block_from.simps on_cache_bind if_False)
  ultimately show ?case by (simp only:)
qed (simp add: on_cache_leaf)

lemma free_block_step:
  assumes sb: "sb_sound sb n"
  shows "ensures (idle sb n x) free_block (\<lambda>b v. idle sb n x v \<and> first_free_block sb x = Some b)
    (\<lambda>e v. idle sb n x v \<and> first_free_block sb x = None \<or> dead sb n x v)"
  unfolding first_free_block_def
  by (rule ensures_cong [OF _ free_block_from_step [OF sb]]) (auto simp: free_block_def free_block_excluding_def idle_def)

subsection \<open>The transaction\<close>

definition new_inode :: "kind \<Rightarrow> u32 \<Rightarrow> inode" where
  "new_inode k gen = \<lparr>ikind = k, links = 1, generation = max (gen + 1) 1, isize = 0, direct = replicate 10 0, indirect = 0\<rparr>"

definition larger :: "inode \<Rightarrow> inode" where
  "larger dir = dir\<lparr>isize := isize dir + of_nat ENTRY\<rparr>"

definition with_block :: "nat \<Rightarrow> inode \<Rightarrow> inode" where
  "with_block b dir = dir\<lparr>direct := (direct dir)[entries dir div PER := of_nat b]\<rparr>"

definition create_fresh :: "inode \<Rightarrow> nat option \<Rightarrow> (volume, inode) act" where
  "create_fresh parent fresh =
    (case fresh of
       None \<Rightarrow> ret parent
     | Some b \<Rightarrow>
         bind_act (stage_bitmap b True) (\<lambda>_.
         bind_act (bind_act (stage b) (\<lambda>slot. staged_mut slot (\<lambda>p. (Ok (), zeroed p)))) (\<lambda>_.
         ret (with_block b parent))))"

definition create_entry :: "u32 \<Rightarrow> u8 list \<Rightarrow> kind \<Rightarrow> u32 \<Rightarrow> u32 \<Rightarrow> nat \<Rightarrow> nat list \<Rightarrow> inode \<Rightarrow> (volume, u32) act" where
  "create_entry directory name k index gen i order parent =
    (let b = unat (direct parent ! (i div PER)) in
     bind_act (gets vsb) (\<lambda>sb.
     if b = 0 \<or> sb_blocks sb \<le> b then fail OutOfRange
     else
       bind_act (bind_act (stage b) (\<lambda>slot.
         bind_act (of_result (entry_new index name)) (\<lambda>entry. staged_mut slot (\<lambda>p. entry_write entry p (i mod PER * ENTRY))))) (\<lambda>_.
       bind_act (stage_inode directory (larger parent)) (\<lambda>_.
       bind_act (stage_inode index (new_inode k gen)) (\<lambda>_.
       bind_act (commit_transaction order) (\<lambda>_. ret index))))))"

definition create_chosen :: "u32 \<Rightarrow> u8 list \<Rightarrow> kind \<Rightarrow> nat list \<Rightarrow> inode \<Rightarrow> u32 \<Rightarrow> u32 \<Rightarrow> (volume, u32) act" where
  "create_chosen directory name k order parent index gen =
    (if length (direct parent) \<le> entries parent div PER then fail Full
     else
       bind_act (if entries parent mod PER = 0 then bind_act free_block (\<lambda>b. ret (Some b)) else ret None) (\<lambda>fresh.
       bind_act begin_transaction (\<lambda>_.
       bind_act (create_fresh parent fresh) (create_entry directory name k index gen (entries parent) order))))"

definition create_absent :: "u32 \<Rightarrow> u8 list \<Rightarrow> kind \<Rightarrow> nat list \<Rightarrow> inode \<Rightarrow> (volume, u32) act" where
  "create_absent directory name k order parent =
    bind_act free_inode (\<lambda>index.
    bind_act (attempt (vol_inode index)) (\<lambda>old.
    create_chosen directory name k order parent index (case old of Inl _ \<Rightarrow> 0 | Inr o' \<Rightarrow> generation o')))"

lemma create_unfold:
  "create_ordered directory name k order =
    (if name = [] \<or> MAX_NAME < length name then fail BadName
     else if k = FreeInode then fail WrongKind
     else
       bind_act (vol_inode directory) (\<lambda>parent.
       if ikind parent \<noteq> Directory then fail WrongKind
       else
         bind_act (attempt (vol_lookup directory name)) (\<lambda>found.
         if \<not> isl found then fail BadName else create_absent directory name k order parent)))"
proof -
  have fresh: "bind_act (create_fresh parent fresh) f =
      bind_act (case fresh of None \<Rightarrow> ret parent | Some b \<Rightarrow> bind_act (stage_bitmap b True) (\<lambda>_. bind_act (stage b) (\<lambda>slot.
        bind_act (staged_mut slot (\<lambda>p. (Ok (), zeroed p))) (\<lambda>_. ret (parent\<lparr>direct := (direct parent)[entries parent div PER := of_nat b]\<rparr>))))) f"
    for parent fresh and f :: "inode \<Rightarrow> (volume, u32) act"
    by (cases fresh) (simp_all add: create_fresh_def with_block_def bind_assoc)
  show ?thesis
    unfolding create_ordered_def create_absent_def create_chosen_def fresh
    unfolding create_entry_def new_inode_def larger_def bind_assoc Let_def entries_def [symmetric] by (rule refl)
qed

subsection \<open>On a stopped device\<close>

lemma new_inode_direct [simp]: "length (direct (new_inode k gen)) = 10" "length (direct (larger dir)) = length (direct dir)"
  "length (direct (with_block b dir)) = length (direct dir)"
  by (simp_all add: new_inode_def larger_def with_block_def)

lemma create_fresh_dead:
  assumes "length (direct parent) = 10"
  shows "ensures (dead sb n x) (create_fresh parent fresh) (\<lambda>p v. dead sb n x v \<and> length (direct p) = 10) (\<lambda>_. dead sb n x)"
proof (cases fresh)
  case (Some b)
  have zero: "\<forall>p. length p = BLOCK \<longrightarrow> length (snd ((\<lambda>p. (Ok (), zeroed p)) p)) = BLOCK" by (simp add: zeroed_def)
  have one: "ensures (dead sb n x) (stage_bitmap b True) (\<lambda>_. dead sb n x) (\<lambda>_. dead sb n x)"
    by (rule ensures_post [OF stage_bitmap_gone]) (auto simp: gone_def)
  have two: "ensures (dead sb n x) (bind_act (stage b) (\<lambda>slot. staged_mut slot (\<lambda>p. (Ok (), zeroed p)))) (\<lambda>_. dead sb n x) (\<lambda>_. dead sb n x)"
    by (rule ensures_post [OF update_gone [OF zero]]) (auto simp: gone_def)
  have three: "ensures (dead sb n x) (ret (with_block b parent)) (\<lambda>p v. dead sb n x v \<and> length (direct p) = 10) (\<lambda>_. dead sb n x)"
    using assms by simp
  show ?thesis unfolding create_fresh_def Some option.case by (rule ensures_bind [OF one], rule ensures_bind [OF two three])
qed (use assms in \<open>simp add: create_fresh_def\<close>)

lemma entry_new_length: "entry_new index name = Ok entry \<Longrightarrow> length (e_name entry) = MAX_NAME"
  by (auto simp: entry_new_def split: if_splits)

lemma create_entry_dead:
  assumes "length (direct parent) = 10"
  shows "ensures (dead sb n x) (create_entry directory name k index gen i order parent) (\<lambda>_ _. False) (\<lambda>_. dead sb n x)"
proof -
  let ?b = "unat (direct parent ! (i div PER))"
  have put: "ensures (gone sb n x staged_some) (bind_act (of_result (entry_new index name)) (\<lambda>entry. staged_mut slot (\<lambda>p. entry_write entry p (i mod PER * ENTRY))))
      (\<lambda>_. gone sb n x staged_some) (\<lambda>_. dead sb n x)" for slot
  proof (cases "entry_new index name")
    case (Inr entry)
    have "\<forall>p. length p = BLOCK \<longrightarrow> length (snd (entry_write entry p (i mod PER * ENTRY))) = BLOCK"
      using entry_write_updates [of "i mod PER * ENTRY" entry sb] entry_new_length [OF Inr] entry_place(3) by (simp add: updates_def)
    then show ?thesis unfolding Inr bind_of_result by (intro ends_step ends_staged_mut)
  qed (auto simp: ensures_def bind_act_def of_result_def gone_def)
  have up: "ensures (dead sb n x) (bind_act (stage ?b) (\<lambda>slot. bind_act (of_result (entry_new index name)) (\<lambda>entry. staged_mut slot (\<lambda>p. entry_write entry p (i mod PER * ENTRY)))))
      (\<lambda>_. dead sb n x) (\<lambda>_. dead sb n x)"
    by (rule ensures_post [OF ensures_bind [OF stage_gone put]]) (auto simp: gone_def)
  have dir: "ensures (dead sb n x) (stage_inode directory (larger parent)) (\<lambda>_. dead sb n x) (\<lambda>_. dead sb n x)"
    by (rule ensures_post [OF stage_inode_gone]) (use assms in \<open>auto simp: gone_def\<close>)
  have new: "ensures (dead sb n x) (stage_inode index (new_inode k gen)) (\<lambda>_. gone sb n x staged_some) (\<lambda>_. dead sb n x)"
    by (rule stage_inode_gone) simp
  have commit: "ensures (gone sb n x staged_some) (bind_act (commit_transaction order) (\<lambda>_. ret index)) (\<lambda>_ _. False) (\<lambda>_. dead sb n x)"
    by (rule ensures_bind [OF commit_gone]) simp
  have body: "ensures (dead sb n x) (if ?b = 0 \<or> sb_blocks sb' \<le> ?b then fail OutOfRange else
       bind_act (bind_act (stage ?b) (\<lambda>slot.
         bind_act (of_result (entry_new index name)) (\<lambda>entry. staged_mut slot (\<lambda>p. entry_write entry p (i mod PER * ENTRY))))) (\<lambda>_.
       bind_act (stage_inode directory (larger parent)) (\<lambda>_.
       bind_act (stage_inode index (new_inode k gen)) (\<lambda>_.
       bind_act (commit_transaction order) (\<lambda>_. ret index))))) (\<lambda>_ _. False) (\<lambda>_. dead sb n x)" for sb'
    by (rule ensures_if, simp, rule ensures_bind [OF up], rule ensures_bind [OF dir], rule ensures_bind [OF new commit])
  show ?thesis unfolding create_entry_def Let_def
    by (rule ensures_bind [where R = "\<lambda>_. dead sb n x"], simp, rule body)
qed

lemma create_chosen_dead:
  assumes "length (direct parent) = 10"
  shows "ensures (dead sb n x) (create_chosen directory name k order parent index gen) (\<lambda>_ _. False) (\<lambda>_. dead sb n x)"
proof -
  have pick: "ensures (dead sb n x) (if entries parent mod PER = 0 then bind_act free_block (\<lambda>b. ret (Some b)) else ret None)
      (\<lambda>_. dead sb n x) (\<lambda>_. dead sb n x)"
    by (intro ensures_if ensures_bind [OF dead_step [OF ends_free_block]]) auto
  have bg: "ensures (dead sb n x) begin_transaction (\<lambda>_. dead sb n x) (\<lambda>_. dead sb n x)"
    using begin_gone [of sb n x "\<lambda>_. True"] by (simp add: gone_any)
  have tail: "ensures (dead sb n x) (bind_act (create_fresh parent fresh) (create_entry directory name k index gen i order)) (\<lambda>_ _. False) (\<lambda>_. dead sb n x)" for fresh i
    by (rule ensures_bind [OF create_fresh_dead [OF assms]], rule ensures_given, rule create_entry_dead)
  show ?thesis unfolding create_chosen_def
    by (rule ensures_if, simp, rule ensures_bind [OF pick], rule ensures_bind [OF bg tail])
qed

lemma create_absent_dead:
  assumes "length (direct parent) = 10"
  shows "ensures (dead sb n x) (create_absent directory name k order parent) (\<lambda>_ _. False) (\<lambda>_. dead sb n x)"
  unfolding create_absent_def
  by (rule ensures_bind [OF dead_step [OF ends_free_inode]], rule ensures_bind [OF dead_step [OF ends_attempt [OF ends_vol_inode]]], rule create_chosen_dead [OF assms])

subsection \<open>The whole operation\<close>

definition good_name :: "u8 list \<Rightarrow> bool" where
  "good_name name \<longleftrightarrow> name \<noteq> [] \<and> length name \<le> MAX_NAME \<and> \<not> list_ex (\<lambda>byte. byte = 0x2f \<or> byte = 0) name"

definition new_entry :: "u32 \<Rightarrow> u8 list \<Rightarrow> dir_entry" where
  "new_entry index name = \<lparr>e_inode = index, e_name = name @ replicate (MAX_NAME - length name) 0, e_length = of_nat (length name)\<rparr>"

lemma entry_new_good: "good_name name \<Longrightarrow> entry_new index name = Ok (new_entry index name)"
  by (simp add: good_name_def entry_new_def new_entry_def)

definition with_fresh :: "nat option \<Rightarrow> inode \<Rightarrow> inode" where
  "with_fresh fresh dir = (case fresh of None \<Rightarrow> dir | Some b \<Rightarrow> with_block b dir)"

definition fresh_marked :: "superblock \<Rightarrow> nat option \<Rightarrow> (nat \<Rightarrow> u8 list) \<Rightarrow> nat \<Rightarrow> u8 list" where
  "fresh_marked sb fresh x =
    (case fresh of None \<Rightarrow> x | Some b \<Rightarrow> (set_bit_at sb b True x)(b := zeroed (set_bit_at sb b True x b)))"

definition entry_block :: "nat option \<Rightarrow> inode \<Rightarrow> nat" where
  "entry_block fresh dir = dir_block (with_fresh fresh dir) (entries dir)"

definition created :: "superblock \<Rightarrow> u32 \<Rightarrow> inode \<Rightarrow> u8 list \<Rightarrow> kind \<Rightarrow> u32 \<Rightarrow> u32 \<Rightarrow> nat option \<Rightarrow> (nat \<Rightarrow> u8 list) \<Rightarrow> nat \<Rightarrow> u8 list" where
  "created sb directory parent name k index gen fresh x =
    (let d = entry_block fresh parent; z = fresh_marked sb fresh x in
     set_inode sb index (new_inode k gen) (set_inode sb directory (larger (with_fresh fresh parent))
       (z(d := snd (entry_write (new_entry index name) (z d) (entries parent mod PER * ENTRY))))))"

definition create_homes :: "superblock \<Rightarrow> u32 \<Rightarrow> inode \<Rightarrow> u32 \<Rightarrow> nat option \<Rightarrow> nat set" where
  "create_homes sb directory parent index fresh =
    {entry_block fresh parent, inode_home sb directory, inode_home sb index} \<union>
    (case fresh of None \<Rightarrow> {} | Some b \<Rightarrow> {b, bitmap_holding sb b})"

lemma create_homes_small: "too_big (create_homes sb directory parent index fresh) = {}"
proof -
  have "card (create_homes sb directory parent index fresh) \<le> card {entry_block fresh parent, inode_home sb directory, inode_home sb index} +
      card (case fresh of None \<Rightarrow> {} | Some b \<Rightarrow> {b, bitmap_holding sb b})"
    unfolding create_homes_def by (rule card_Un_le)
  also have "\<dots> \<le> 3 + 2"
    by (intro add_mono) (auto simp: card_insert_if split: option.split)
  finally show ?thesis by (simp add: too_big_def MAX_STAGED_def)
qed

text \<open>The block the entry goes to is a data block.\<close>

definition entry_room :: "superblock \<Rightarrow> nat option \<Rightarrow> inode \<Rightarrow> bool" where
  "entry_room sb fresh dir \<longleftrightarrow> length (direct dir) = 10 \<and> entries dir div PER < 10 \<and>
    (case fresh of None \<Rightarrow> data_start sb \<le> dir_block dir (entries dir) \<and> dir_block dir (entries dir) < sb_blocks sb
     | Some b \<Rightarrow> data_start sb \<le> b \<and> b < sb_blocks sb \<and> sb_blocks sb < 2 ^ 32)"

lemma entry_block_data:
  assumes "entry_room sb fresh dir"
  shows "data_start sb \<le> entry_block fresh dir" "entry_block fresh dir < sb_blocks sb"
    "\<And>b. fresh = Some b \<Longrightarrow> entry_block fresh dir = b"
proof -
  show fresh: "entry_block fresh dir = b" if "fresh = Some b" for b
    using assms that by (simp add: entry_block_def with_fresh_def with_block_def dir_block_def entry_room_def unat_of_nat)
  show "data_start sb \<le> entry_block fresh dir" "entry_block fresh dir < sb_blocks sb"
    using assms fresh by (auto simp: entry_room_def entry_block_def with_fresh_def split: option.splits)
qed

lemma create_homes_ok:
  assumes sb: "sb_sound sb n" and room: "entry_room sb fresh parent" and i: "unat directory < sb_inodes sb" "unat index < sb_inodes sb"
  shows "homes_ok sb (create_homes sb directory parent index fresh)"
  using entry_block_data [OF room] room data_home [OF sb] bitmap_home_ok [OF sb] inode_home_ok [OF sb i(1)] inode_home_ok [OF sb i(2)]
  by (auto simp: create_homes_def homes_ok_def entry_room_def split: option.splits)

lemma undone_dead:
  assumes "sb_sound sb n" "ensures P a Q (undone sb n x {})"
  shows "ensures P a Q (\<lambda>e v. dead sb n x v \<or> dead sb n y v)"
  by (rule ensures_post [OF assms(2)]) (auto simp: undone_def intro: idle_dead [OF assms(1)])

lemma create_fresh_step:
  fixes x y
  assumes sb: "sb_sound sb n" and room: "entry_room sb fresh parent" and i: "unat directory < sb_inodes sb" "unat index < sb_inodes sb"
  defines "H \<equiv> create_homes sb directory parent index fresh"
  shows "ensures (staging sb n H x x) (create_fresh parent fresh) (\<lambda>p v. staging sb n H x (fresh_marked sb fresh x) v \<and> p = with_fresh fresh parent)
    (\<lambda>e v. dead sb n x v \<or> dead sb n y v)"
proof (cases fresh)
  case (Some b)
  let ?E = "\<lambda>e v. dead sb n x v \<or> dead sb n y v" and ?z = "fresh_marked sb (Some b) x"
  have H: "homes_ok sb H" unfolding H_def by (rule create_homes_ok [OF sb room i])
  have Z: "too_big H \<subseteq> {}" using create_homes_small by (simp add: H_def)
  have b: "b < sb_blocks sb" using room Some by (simp add: entry_room_def)
  have bH: "b \<in> H" "bitmap_holding sb b \<in> H" using Some by (auto simp: H_def create_homes_def)
  have zero: "updates sb (\<lambda>p. (Ok (), zeroed p))" by (simp add: updates_def zeroed_def)
  have one: "ensures (staging sb n H x x) (stage_bitmap b True) (\<lambda>_. staging sb n H x (set_bit_at sb b True x)) ?E"
    by (rule undone_dead [OF sb], rule stage_bitmap_step [OF sb H bH(2) b Z])
  have two: "ensures (staging sb n H x (set_bit_at sb b True x)) (bind_act (stage b) (\<lambda>slot. staged_mut slot (\<lambda>p. (Ok (), zeroed p)))) (\<lambda>_. staging sb n H x ?z) ?E"
    using undone_dead [OF sb update_step [OF sb H bH(1) zero Z]] by (simp add: fresh_marked_def)
  have three: "ensures (staging sb n H x ?z) (ret (with_block b parent)) (\<lambda>p v. staging sb n H x ?z v \<and> p = with_fresh (Some b) parent) ?E"
    by (simp add: with_fresh_def)
  show ?thesis unfolding create_fresh_def Some option.case by (rule ensures_bind [OF one], rule ensures_bind [OF two three])
qed (simp add: create_fresh_def with_fresh_def fresh_marked_def)

lemma create_entry_step:
  fixes x k gen
  assumes sb: "sb_sound sb n" and room: "entry_room sb fresh parent" and name: "good_name name"
    and i: "unat directory < sb_inodes sb" "unat index < sb_inodes sb"
  defines "H \<equiv> create_homes sb directory parent index fresh" and "y \<equiv> created sb directory parent name k index gen fresh x"
  shows "ensures (staging sb n H x (fresh_marked sb fresh x)) (create_entry directory name k index gen (entries parent) [] (with_fresh fresh parent))
    (\<lambda>r v. r = index \<and> idle sb n y v) (\<lambda>e v. dead sb n x v \<or> dead sb n y v)"
proof -
  let ?E = "\<lambda>e v. dead sb n x v \<or> dead sb n y v" and ?p = "with_fresh fresh parent" and ?z = "fresh_marked sb fresh x" and ?d = "entry_block fresh parent"
  have l: "length (direct ?p) = 10" using room by (auto simp: entry_room_def with_fresh_def split: option.split)
  have H: "homes_ok sb H" unfolding H_def by (rule create_homes_ok [OF sb room i])
  have in_H: "?d \<in> H" "inode_home sb directory \<in> H" "inode_home sb index \<in> H" by (auto simp: H_def create_homes_def)
  have Z: "too_big H \<subseteq> {}" using create_homes_small by (simp add: H_def)
  let ?f = "\<lambda>p. entry_write (new_entry index name) p (entries parent mod PER * ENTRY)"
  let ?x2 = "?z(?d := snd (?f (?z ?d)))" and ?x3 = "set_inode sb directory (larger ?p) (?z(?d := snd (?f (?z ?d))))"
  have put: "updates sb ?f" using entry_new_length [OF entry_new_good [OF name]] by (intro entry_write_updates entry_place(3))
  have s1: "ensures (staging sb n H x ?z) (bind_act (stage ?d) (\<lambda>slot. bind_act (of_result (entry_new index name)) (\<lambda>entry. staged_mut slot (\<lambda>p. entry_write entry p (entries parent mod PER * ENTRY)))))
      (\<lambda>_. staging sb n H x ?x2) ?E"
    unfolding entry_new_good [OF name] bind_of_result by (rule undone_dead [OF sb], rule update_step [OF sb H in_H(1) put Z])
  have s2: "ensures (staging sb n H x ?x2) (stage_inode directory (larger ?p)) (\<lambda>_. staging sb n H x ?x3) ?E"
    by (rule undone_dead [OF sb], rule stage_inode_step [OF sb H in_H(2) i(1) _ Z]) (use l in simp)
  have s3: "ensures (staging sb n H x ?x3) (stage_inode index (new_inode k gen)) (\<lambda>_. staging sb n H x y) ?E"
    unfolding y_def created_def Let_def by (rule undone_dead [OF sb], rule stage_inode_step [OF sb H in_H(3) i(2) _ Z]) simp
  have s4: "ensures (staging sb n H x y) (bind_act (commit_transaction []) (\<lambda>_. ret index)) (\<lambda>r v. r = index \<and> idle sb n y v) ?E"
    by (rule ensures_bind [where R = "\<lambda>_. idle sb n y"], rule ensures_post [OF commit_staging [OF sb H]]) (auto simp: broken_def dead_def)
  have ne: "\<not> (?d = 0 \<or> sb_blocks sb \<le> ?d)" using entry_block_data [OF room] sb by (auto simp: sb_sound_def)
  have body: "ensures (staging sb n H x ?z) (bind_act (bind_act (stage ?d) (\<lambda>slot.
         bind_act (of_result (entry_new index name)) (\<lambda>entry. staged_mut slot (\<lambda>p. entry_write entry p (entries parent mod PER * ENTRY))))) (\<lambda>_.
       bind_act (stage_inode directory (larger ?p)) (\<lambda>_. bind_act (stage_inode index (new_inode k gen)) (\<lambda>_. bind_act (commit_transaction []) (\<lambda>_. ret index)))))
      (\<lambda>r v. r = index \<and> idle sb n y v) ?E"
    by (rule ensures_bind [OF s1], rule ensures_bind [OF s2], rule ensures_bind [OF s3 s4])
  show ?thesis
    by (rule ensures_cong [OF _ body]) (use ne in \<open>auto simp: create_entry_def Let_def staging_def idle_def entry_block_def dir_block_def\<close>)
qed

text \<open>The block \<open>create\<close> takes for the entry, if it needs one.\<close>

definition chosen_block :: "superblock \<Rightarrow> inode \<Rightarrow> (nat \<Rightarrow> u8 list) \<Rightarrow> nat option" where
  "chosen_block sb dir x = (if entries dir mod PER = 0 then first_free_block sb x else None)"

lemma find_in: "find P xs = Some y \<Longrightarrow> y \<in> set xs \<and> P y"
  by (auto simp: find_Some_iff)

lemma chosen_room:
  assumes sb: "sb_sound sb n" and dir: "dir_ok sb dir" "entries dir < 10 * PER" and block: "entries dir mod PER = 0 \<longrightarrow> first_free_block sb x \<noteq> None"
  shows "entry_room sb (chosen_block sb dir x) dir"
proof (cases "entries dir mod PER = 0")
  case True
  then obtain b where "first_free_block sb x = Some b" using block by auto
  moreover have "data_start sb \<le> b" "b < sb_blocks sb" using calculation find_in unfolding first_free_block_def by fastforce+
  ultimately show ?thesis using dir sb True by (simp add: entry_room_def chosen_block_def dir_ok_def less_mult_imp_div_less sb_sound_def)
next
  case False
  have "(entries dir - 1) div PER = entries dir div PER"
    using False by (metis Suc_pred' div_Suc bot_nat_0.not_eq_extremum mod_0)
  moreover have "0 < entries dir" using False by (metis bot_nat_0.not_eq_extremum mod_0)
  ultimately have "dir_block dir (entries dir) = dir_block dir (entries dir - 1)" "entries dir - 1 < entries dir" by (auto simp: dir_block_def)
  then show ?thesis using dir False by (auto simp: entry_room_def chosen_block_def dir_ok_def less_mult_imp_div_less)
qed

lemma create_chosen_step:
  fixes k gen
  assumes sb: "sb_sound sb n" and dir: "dir_ok sb parent" "entries parent < 10 * PER" and name: "good_name name"
    and block: "entries parent mod PER = 0 \<longrightarrow> first_free_block sb x \<noteq> None"
    and i: "unat directory < sb_inodes sb" "unat index < sb_inodes sb"
  defines "y \<equiv> created sb directory parent name k index gen (chosen_block sb parent x) x"
  shows "ensures (idle sb n x) (create_chosen directory name k [] parent index gen)
    (\<lambda>r v. r = index \<and> idle sb n y v) (\<lambda>e v. dead sb n x v \<or> dead sb n y v)"
proof -
  let ?E = "\<lambda>e v. dead sb n x v \<or> dead sb n y v" and ?fresh = "chosen_block sb parent x"
  let ?H = "create_homes sb directory parent index ?fresh"
  have room: "entry_room sb ?fresh parent" by (rule chosen_room [OF sb dir block])
  have len: "\<not> length (direct parent) \<le> entries parent div PER" using dir(1) less_mult_imp_div_less [OF dir(2)] by (simp add: dir_ok_def)
  have block_step: "ensures (idle sb n x) free_block (\<lambda>b v. idle sb n x v \<and> first_free_block sb x = Some b) ?E" if "entries parent mod PER = 0"
    by (rule ensures_post [OF free_block_step [OF sb]]) (use block that in auto)
  have pick: "ensures (idle sb n x) (if entries parent mod PER = 0 then bind_act free_block (\<lambda>b. ret (Some b)) else ret None)
      (\<lambda>fresh v. idle sb n x v \<and> fresh = ?fresh) ?E"
    by (rule ensures_if, rule ensures_bind [OF block_step]) (simp_all add: chosen_block_def)
  have bg: "ensures (idle sb n x) begin_transaction (\<lambda>_. staging sb n ?H x x) ?E"
    by (rule undone_dead [OF sb begin_step [OF sb]])
  have tail: "ensures (staging sb n ?H x x) (bind_act (create_fresh parent ?fresh) (create_entry directory name k index gen (entries parent) []))
      (\<lambda>r v. r = index \<and> idle sb n y v) ?E"
    by (rule ensures_bind [OF create_fresh_step [OF sb room i]], rule ensures_given)
      (use create_entry_step [OF sb room name i, where x = x and k = k and gen = gen] in \<open>simp add: y_def\<close>)
  show ?thesis
    unfolding create_chosen_def if_not_P [OF len]
    by (rule ensures_bind [OF pick], rule ensures_given) (use ensures_bind [OF bg tail] in simp)
qed

lemma create_step:
  fixes k
  assumes sb: "sb_sound sb n" and par: "inode_of sb n x directory = Ok parent" "dir_ok sb parent" "entries parent < 10 * PER"
    and name: "good_name name" "k \<noteq> FreeInode" and absent: "isl (lookup_of sb n x parent name)"
    and free: "first_free_inode sb n x = Some i" "inode_of sb n x (of_nat i) = Ok old"
    and block: "entries parent mod PER = 0 \<longrightarrow> first_free_block sb x \<noteq> None"
  defines "y \<equiv> created sb directory parent name k (of_nat i) (generation old) (chosen_block sb parent x) x"
  shows "ensures (idle sb n x) (create directory name k) (\<lambda>r v. r = of_nat i \<and> idle sb n y v) (\<lambda>e v. dead sb n x v \<or> dead sb n y v)"
proof -
  let ?E = "\<lambda>e v. dead sb n x v \<or> dead sb n y v" and ?Q = "\<lambda>r v. r = (of_nat i :: u32) \<and> idle sb n y v"
  have l: "length (direct parent) = 10" using par(2) by (simp add: dir_ok_def)
  have r: "unat directory < sb_inodes sb" "unat (of_nat i :: u32) < sb_inodes sb" using inode_of_range [OF par(1)] inode_of_range [OF free(2)] by auto
  note stop = ensures_post [where Q' = "?Q" and E' = "?E"]
  have read: "ensures (idle sb n x) (vol_inode directory) (\<lambda>ino v. idle sb n x v \<and> ino = parent) ?E"
    by (rule ensures_post [OF vol_inode_step [OF sb]]) (use par in \<open>auto intro: idle_dead [OF sb]\<close>)
  have look: "ensures (idle sb n x) (attempt (vol_lookup directory name)) (\<lambda>r v. idle sb n x v \<and> isl r \<or> dead sb n x v) ?E"
    unfolding ensures_attempt by (rule ensures_post [OF vol_lookup_step [OF sb par(1,2)]]) (use absent in auto)
  have pick: "ensures (idle sb n x) free_inode (\<lambda>index v. idle sb n x v \<and> index = of_nat i \<or> dead sb n x v) ?E"
    by (rule ensures_post [OF free_inode_step [OF sb]]) (use free in auto)
  have gen: "ensures (idle sb n x) (attempt (vol_inode (of_nat i))) (\<lambda>r v. idle sb n x v \<and> r = Ok old \<or> dead sb n x v) ?E"
    by (rule ensures_post [OF try_inode [OF sb]]) (use free in auto)
  have chosen: "ensures (\<lambda>v. idle sb n x v \<and> r = Ok old \<or> dead sb n x v)
      (create_chosen directory name k [] parent (of_nat i) (case r of Inl _ \<Rightarrow> 0 | Inr o' \<Rightarrow> generation o')) ?Q ?E" for r
    by (rule ensures_either [OF ensures_given stop [OF create_chosen_dead [OF l]]])
      (use create_chosen_step [OF sb par(2,3) name(1) block r, where k = k and gen = "generation old"] in \<open>simp_all add: y_def\<close>)
  have live: "ensures (idle sb n x) (bind_act (attempt (vol_inode (of_nat i))) (\<lambda>old.
      create_chosen directory name k [] parent (of_nat i) (case old of Inl _ \<Rightarrow> 0 | Inr o' \<Rightarrow> generation o'))) ?Q ?E"
    by (rule ensures_bind [OF gen chosen])
  have cut: "ensures (dead sb n x) (bind_act (attempt (vol_inode index)) (\<lambda>old.
      create_chosen directory name k [] parent index (case old of Inl _ \<Rightarrow> 0 | Inr o' \<Rightarrow> generation o'))) ?Q ?E" for index
    by (rule stop [OF ensures_bind [OF dead_step [OF ends_attempt [OF ends_vol_inode]] create_chosen_dead [OF l]]]) auto
  have absent_live: "ensures (idle sb n x) (create_absent directory name k [] parent) ?Q ?E"
    unfolding create_absent_def by (rule ensures_bind [OF pick], rule ensures_either [OF ensures_given cut]) (use live in simp)
  have absent_dead: "ensures (dead sb n x) (create_absent directory name k [] parent) ?Q ?E"
    by (rule stop [OF create_absent_dead [OF l]]) auto
  have body: "ensures (idle sb n x) (bind_act (attempt (vol_lookup directory name)) (\<lambda>found. if \<not> isl found then fail BadName else create_absent directory name k [] parent)) ?Q ?E"
    by (rule ensures_bind [OF look], rule ensures_either [OF ensures_given]) (use absent_live absent_dead in auto)
  show ?thesis
    unfolding create_def create_unfold using name par(2)
    by (auto simp: good_name_def dir_ok_def intro!: ensures_bind [OF read] ensures_given body)
qed

subsection \<open>After a creation\<close>

lemma last_block:
  assumes "entries dir mod PER \<noteq> 0"
  shows "entries dir - 1 < entries dir" "(entries dir - 1) div PER = entries dir div PER"
proof -
  show "entries dir - 1 < entries dir" using assms by (metis bot_nat_0.not_eq_extremum diff_less mod_0 zero_less_one)
  show "(entries dir - 1) div PER = entries dir div PER" using assms by (metis Suc_pred' div_Suc bot_nat_0.not_eq_extremum mod_0)
qed

lemma entries_larger:
  assumes "entries dir \<le> 10 * PER"
  shows "entries (larger dir) = Suc (entries dir)"
proof -
  have "unat (isize dir) div 32 \<le> 1280" using assms by (simp add: entries_def ENTRY_def PER_def BLOCK_def)
  then have "unat (isize dir) < 41000" using div_le_dividend div_mult_mod_eq [of "unat (isize dir)" 32] mod_less_divisor [of 32 "unat (isize dir)"] by linarith
  then have "unat (isize dir + of_nat ENTRY) = unat (isize dir) + ENTRY" by (simp add: ENTRY_def unat_word_ariths)
  then show ?thesis by (simp add: entries_def larger_def ENTRY_def)
qed

lemma with_fresh_simps [simp]: "isize (with_fresh fresh dir) = isize dir" "entries (with_fresh fresh dir) = entries dir" "ikind (with_fresh fresh dir) = ikind dir"
  by (simp_all add: with_fresh_def with_block_def entries_def split: option.split)

lemma dir_block_larger [simp]: "dir_block (larger dir) i = dir_block dir i"
  by (simp add: dir_block_def larger_def)

lemma dir_block_fresh:
  assumes "fresh \<noteq> None \<longrightarrow> entries dir mod PER = 0" "i < entries dir"
  shows "dir_block (with_fresh fresh dir) i = dir_block dir i"
proof (cases fresh)
  case (Some b)
  then have "i div PER \<noteq> entries dir div PER" using assms by (metis div_mult_mod_eq add.right_neutral div_times_less_eq_dividend leD option.simps(3))
  then show ?thesis by (simp add: Some with_fresh_def with_block_def dir_block_def)
qed (simp add: with_fresh_def)

definition dir_marked :: "superblock \<Rightarrow> (nat \<Rightarrow> u8 list) \<Rightarrow> inode \<Rightarrow> bool" where
  "dir_marked sb x dir \<longleftrightarrow> (\<forall>i < entries dir. block_used sb x (dir_block dir i))"

text \<open>The other entries of the block the new one goes to lie elsewhere.\<close>

lemma entry_elsewhere:
  assumes room: "entry_room sb fresh dir" and apart: "dir_apart dir" "dir_marked sb x dir"
    and fresh: "fresh = None \<longleftrightarrow> entries dir mod PER \<noteq> 0" "\<forall>b. fresh = Some b \<longrightarrow> \<not> block_used sb x b"
    and i: "i < entries dir" "dir_block dir i = entry_block fresh dir"
  shows "i mod PER * ENTRY + ENTRY \<le> entries dir mod PER * ENTRY \<or> entries dir mod PER * ENTRY + ENTRY \<le> i mod PER * ENTRY"
proof -
  have none: "fresh = None"
  proof (rule ccontr)
    assume "fresh \<noteq> None"
    then obtain b where "fresh = Some b" by auto
    then show False using entry_block_data(3) [OF room, of b] apart(2) i fresh(2) by (auto simp: dir_marked_def)
  qed
  then have ne: "entries dir mod PER \<noteq> 0" using fresh(1) by simp
  note l = last_block [OF ne]
  have "entry_block fresh dir = dir_block dir (entries dir - 1)" using l(2) by (simp add: none entry_block_def with_fresh_def dir_block_def)
  then have "i div PER = entries dir div PER" using apart(1) i l unfolding dir_apart_def by metis
  then have "i mod PER < entries dir mod PER" using i(1) by (metis div_mult_mod_eq nat_add_left_cancel_less)
  then have "Suc (i mod PER) * ENTRY \<le> entries dir mod PER * ENTRY" by (intro mult_le_mono1) simp
  then show ?thesis by simp
qed

lemma fresh_marked_facts:
  assumes sb: "sb_sound sb n" and x: "sized n x sb" and room: "entry_room sb fresh dir"
  shows "sized n (fresh_marked sb fresh x) sb"
    "data_start sb \<le> c \<Longrightarrow> fresh \<noteq> Some c \<Longrightarrow> fresh_marked sb fresh x c = x c"
    "inode_start sb \<le> c \<Longrightarrow> c < journal_start sb \<Longrightarrow> fresh_marked sb fresh x c = x c"
    "c < sb_blocks sb \<Longrightarrow> block_used sb (fresh_marked sb fresh x) c \<longleftrightarrow> block_used sb x c \<or> fresh = Some c"
proof -
  have r: "b < sb_blocks sb" "data_start sb \<le> b" "inode_start sb < data_start sb" "journal_start sb \<le> b" if "fresh = Some b" for b
    using room sb that by (auto simp: entry_room_def sb_sound_def)
  have zero: "length (zeroed (set_bit_at sb b True x b)) = BLOCK" if "fresh = Some b" for b
  proof -
    have "b < n" "b \<notin> log_area sb" using r [OF that] sb by (auto simp: sb_sound_def log_area_def)
    then show ?thesis using sized_set_bit [OF x sb r(1) [OF that]] by (simp add: zeroed_def sized_def)
  qed
  show "sized n (fresh_marked sb fresh x) sb"
    using x sized_upd [OF sized_set_bit [OF x sb]] r(1) zero by (auto simp: fresh_marked_def split: option.split)
  show "data_start sb \<le> c \<Longrightarrow> fresh \<noteq> Some c \<Longrightarrow> fresh_marked sb fresh x c = x c"
    using set_bit_outside [OF sb r(1)] data_outside [OF sb, of c] by (auto simp: fresh_marked_def split: option.split)
  show "inode_start sb \<le> c \<Longrightarrow> c < journal_start sb \<Longrightarrow> fresh_marked sb fresh x c = x c"
    using set_bit_outside [OF sb r(1)] r(4) by (fastforce simp: fresh_marked_def split: option.split)
  have "block_used sb ((set_bit_at sb b True x)(b := p)) c = block_used sb (set_bit_at sb b True x) c" if "fresh = Some b" "c < sb_blocks sb" for b p
    using bitmap_holding_range [OF sb that(2)] r [OF that(1)] by (auto simp: block_used_def)
  then show "c < sb_blocks sb \<Longrightarrow> block_used sb (fresh_marked sb fresh x) c \<longleftrightarrow> block_used sb x c \<or> fresh = Some c"
    using block_used_set [OF sb x r(1)] by (auto simp: fresh_marked_def split: option.split)
qed

lemma new_entry_ok: "good_name name \<Longrightarrow> entry_ok (new_entry index name)"
  by (simp add: good_name_def new_entry_def entry_ok_def MAX_NAME_def word_le_nat_alt unat_of_nat)

lemma entry_name_new: "good_name name \<Longrightarrow> entry_name (new_entry index name) = name"
  by (simp add: good_name_def new_entry_def entry_name_def MAX_NAME_def unat_of_nat)

lemma created_view:
  fixes k gen
  assumes sb: "sb_sound sb n" and x: "sized n x sb" and par: "dir_ok sb parent" "dir_apart parent" "dir_marked sb x parent"
    and room: "entry_room sb fresh parent" and name: "good_name name"
    and fresh: "fresh = None \<longleftrightarrow> entries parent mod PER \<noteq> 0" "\<forall>b. fresh = Some b \<longrightarrow> \<not> block_used sb x b"
    and i: "unat directory < sb_inodes sb" "unat index < sb_inodes sb" "index \<noteq> directory"
  defines "y \<equiv> created sb directory parent name k index gen fresh x" and "p \<equiv> larger (with_fresh fresh parent)"
  shows "inode_of sb n y j = (if j = index then Ok (new_inode k gen) else if j = directory then Ok p else inode_of sb n x j)"
    "dir_list y p = dir_list x parent @ [new_entry index name]"
    "data_start sb \<le> b \<Longrightarrow> b \<noteq> entry_block fresh parent \<Longrightarrow> y b = x b"
    "b < sb_blocks sb \<Longrightarrow> block_used sb y b \<longleftrightarrow> block_used sb x b \<or> fresh = Some b"
    "sized n y sb" "y 0 = x 0"
proof -
  let ?d = "entry_block fresh parent" and ?e = "new_entry index name" and ?off = "entries parent mod PER * ENTRY"
  define z where "z = fresh_marked sb fresh x"
  define x2 where "x2 = z(?d := snd (entry_write ?e (z ?d) ?off))"
  define x3 where "x3 = set_inode sb directory p x2"
  have y: "y = set_inode sb index (new_inode k gen) x3" by (simp add: y_def created_def Let_def x3_def x2_def z_def p_def)
  note zf = fresh_marked_facts [OF sb x room, folded z_def] and d = entry_block_data [OF room]
  have l: "length (direct p) = 10" using room by (auto simp: p_def entry_room_def with_fresh_def split: option.split)
  have dl: "length (z ?d) = BLOCK" using zf(1) d sb by (auto simp: sized_def log_area_def sb_sound_def)
  have e: "entry_ok ?e" by (rule new_entry_ok [OF name])
  have s2: "sized n x2 sb" unfolding x2_def using e entry_place(3) [of "entries parent"] dl
    by (intro sized_upd [OF zf(1)]) (simp add: entry_write_eq entry_ok_def ENTRY_def MAX_NAME_def)
  have s3: "sized n x3 sb" unfolding x3_def by (rule sized_set_inode [OF s2 sb l])
  show "sized n y sb" unfolding y by (rule sized_set_inode [OF s3 sb]) simp
  have "z 0 = x 0" using set_bit_outside [OF sb, of _ 0] room sb by (auto simp: z_def fresh_marked_def entry_room_def sb_sound_def split: option.splits)
  then show "y 0 = x 0" using set_inode_outside [OF sb, of 0] d(1) sb by (auto simp: y x3_def x2_def sb_sound_def)
  have y_data: "y b = x2 b" if "data_start sb \<le> b" for b
    using data_outside [OF sb that] set_inode_outside [OF sb] by (simp add: y x3_def)
  show "y b = x b" if "data_start sb \<le> b" "b \<noteq> ?d"
    using y_data [OF that(1)] zf(2) [OF that(1)] d(3) [of b] that(2) by (cases "fresh = Some b") (simp_all add: x2_def)
  have "inode_of sb n x2 j = inode_of sb n x j" by (rule inode_of_other [OF sb]) (use d(1) zf(3) sb in \<open>auto simp: x2_def sb_sound_def\<close>)
  then show "inode_of sb n y j = (if j = index then Ok (new_inode k gen) else if j = directory then Ok p else inode_of sb n x j)"
    by (simp add: y x3_def inode_of_set [OF sb s3 [unfolded x3_def] i(2)] inode_of_set [OF sb s2 i(1) l])
  have "block_used sb y c = block_used sb z c" if "c < sb_blocks sb" for c
    using bitmap_holding_range [OF sb that] set_inode_outside [OF sb, of "bitmap_holding sb c"] d(1) sb
    by (auto simp: block_used_def y x3_def x2_def sb_sound_def)
  then show "b < sb_blocks sb \<Longrightarrow> block_used sb y b \<longleftrightarrow> block_used sb x b \<or> fresh = Some b" using zf(4) by simp
  have old: "entry_in (y (dir_block parent c)) (c mod PER * ENTRY) = dir_list x parent ! c" if c: "c < entries parent" for c
  proof (cases "dir_block parent c = ?d")
    case True
    note away = entry_elsewhere [OF room par(2,3) fresh c True]
    have nf: "fresh \<noteq> Some ?d" using par(3) c True fresh(2) by (auto simp: dir_marked_def)
    have "entry_in (x2 ?d) (c mod PER * ENTRY) = entry_in (z ?d) (c mod PER * ENTRY)"
      unfolding x2_def using entry_in_write [OF e, of ?off "z ?d" "c mod PER * ENTRY"] away dl entry_place(3) [of c] entry_place(3) [of "entries parent"]
      by (auto simp: ENTRY_def)
    then show ?thesis using y_data [OF d(1)] zf(2) [OF d(1) nf] True c by (simp add: dir_list_nth)
  next
    case False
    have cd: "data_start sb \<le> dir_block parent c" using par(1) c by (simp add: dir_ok_def)
    have "fresh \<noteq> Some (dir_block parent c)" using d(3) False by auto
    then show ?thesis using y_data [OF cd] zf(2) [OF cd] False c by (simp add: x2_def dir_list_nth)
  qed
  have new: "entry_in (y ?d) ?off = ?e"
    using entry_in_write [OF e, of ?off "z ?d" ?off] dl entry_place(3) [of "entries parent"] y_data [OF d(1)] by (simp add: x2_def)
  have en: "entries p = Suc (entries parent)" using par(1) by (simp add: p_def entries_larger dir_ok_def)
  have db: "dir_block p c = dir_block parent c" if "c < entries parent" for c using dir_block_fresh [of fresh parent c] fresh(1) that by (simp add: p_def)
  have dn: "dir_block p (entries parent) = ?d" by (simp add: p_def entry_block_def)
  have "map (\<lambda>c. entry_in (y (dir_block p c)) (c mod PER * ENTRY)) [0..<entries parent] = dir_list x parent"
    using old db by (intro nth_equalityI) auto
  then show "dir_list y p = dir_list x parent @ [?e]" unfolding dir_list_def [of y] en by (simp add: dn new)
qed

end
