(* ===== verification/FsRestart.thy ===== *)
theory FsRestart
  imports FsCreate
begin

text \<open>
  The machine after an interruption: mounts of what the device holds, some of them interrupted
  themselves, until one succeeds. The filesystem is the one the device stood for.
\<close>

definition fresh_cache :: "nat \<Rightarrow> (nat \<Rightarrow> u8 list) \<Rightarrow> cache \<Rightarrow> bool" where
  "fresh_cache n d c \<longleftrightarrow> cache_ready c \<and> cblocks c = n \<and> dirty_set c = {} \<and> dblock c = d"

inductive restarted :: "nat \<Rightarrow> (nat \<Rightarrow> u8 list) \<Rightarrow> volume \<Rightarrow> bool" for n where
  mounted: "fresh_cache n d c \<Longrightarrow> mount c = (Ok (w, k), c') \<Longrightarrow> restarted n d w"
| again: "fresh_cache n d c \<Longrightarrow> mount c = (Inl e, c') \<Longrightarrow> restarted n (dblock c') w \<Longrightarrow> restarted n d w"

text \<open>The device holds the filesystem \<open>x\<close>, and starts with its superblock.\<close>

definition holds :: "superblock \<Rightarrow> nat \<Rightarrow> (nat \<Rightarrow> u8 list) \<Rightarrow> (nat \<Rightarrow> u8 list) \<Rightarrow> bool" where
  "holds sb n d x \<longleftrightarrow> stands sb d x \<and> read_head (x 0) n = Ok sb"

lemma restarted_holds:
  assumes "restarted n d w" "sb_sound sb n" "holds sb n d x"
  shows "idle sb n x w"
  using assms
proof (induction rule: restarted.induct)
  case (mounted d c w k c')
  have "stands sb (dblock c) x" "read_head (dblock c 0) n = Ok sb"
    using mounted stands_zero [OF mounted(3), of d x] by (auto simp: holds_def fresh_cache_def)
  from mount_step [OF mounted(3) this _ _ _ mounted(2)] mounted(1) show ?case by (simp add: fresh_cache_def)
next
  case (again d c e c' w)
  have "stands sb (dblock c) x" "read_head (dblock c 0) n = Ok sb"
    using again stands_zero [OF again(5), of d x] by (auto simp: holds_def fresh_cache_def)
  from mount_step [OF again(5) this _ _ _ again(2)] again(1) have "stands sb (dblock c') x" by (simp add: fresh_cache_def)
  then show ?case using again by (simp add: holds_def)
qed

subsection \<open>A mounted volume\<close>

text \<open>A volume whose device holds exactly \<open>x\<close>, with nothing cached, as a mount leaves it.\<close>

definition disk_of :: "nat \<Rightarrow> (nat \<Rightarrow> u8 list) \<Rightarrow> u8 list" where
  "disk_of n x = concat (map x [0..<n])"

definition volume_on :: "superblock \<Rightarrow> nat \<Rightarrow> (nat \<Rightarrow> u8 list) \<Rightarrow> nat \<Rightarrow> volume" where
  "volume_on sb n x lim =
    \<lparr>vcache = \<lparr>frames = replicate (MIN_FRAMES * BLOCK) 0, slots = replicate MAX_FRAMES default_slot, fcount = MIN_FRAMES, clock = 0,
               device = watched_new (disk_of n x) lim 0, hits = 0, misses = 0, written = 0\<rparr>,
     vsb = sb, sequence = 0, staged = replicate MAX_STAGED 0, vcount = 0\<rparr>"

lemma length_disk: "\<forall>b < n. length (x b) = BLOCK \<Longrightarrow> length (disk_of n x) = n * BLOCK"
  by (induction n) (simp_all add: disk_of_def)

lemma block_at_disk:
  assumes "\<forall>b < n. length (x b) = BLOCK" "b < n"
  shows "block_at (disk_of n x) b = x b"
proof -
  have "[0..<n] = [0..<b] @ b # [Suc b..<n]" using assms(2) upt_add_eq_append [of 0 b "n - b"] upt_conv_Cons [of b n] by simp
  then have "disk_of n x = disk_of b x @ x b @ concat (map x [Suc b..<n])" by (simp add: disk_of_def)
  then show ?thesis using assms length_disk [of b x] by (simp add: block_at_def load_mid)
qed

lemma volume_on_idle:
  assumes x: "\<forall>b < n. length (x b) = BLOCK" "\<forall>b \<ge> n. x b = []" and n: "n < 2 ^ 32" and J: "blankb (x (journal_start sb))"
  shows "idle sb n x (volume_on sb n x lim)" "dev (volume_on sb n x lim) = x" "fresh_cache n x (vcache (volume_on sb n x lim))"
proof -
  let ?dev = "watched_new (disk_of n x) lim 0"
  define c where "c = vcache (volume_on sb n x lim)"
  have "cache_new (replicate (MIN_FRAMES * BLOCK) 0) ?dev = Ok c"
    by (simp add: cache_new_def c_def volume_on_def MIN_FRAMES_def MAX_FRAMES_def BLOCK_def)
  note new = cache_new_ok [OF this]
  have len: "length (disk_of n x) = n * BLOCK" by (rule length_disk [OF x(1)])
  have d: "dblock c b = x b" for b
  proof (cases "b < n")
    case True
    then show ?thesis using block_at_disk [OF x(1) True] by (simp add: dblock_def new(4) watched_new_def)
  next
    case False
    have "n * BLOCK \<le> b * BLOCK" using False by (intro mult_le_mono1) simp
    then show ?thesis using False x(2) len by (simp add: dblock_def new(4) watched_new_def block_at_def load_def)
  qed
  have "cblocks c = n" using n len by (simp add: cblocks_def new(4) store_blocks_def watched_new_def BLOCK_def)
  then show "idle sb n x (volume_on sb n x lim)"
    using new d J unfolding idle_def within_def c_def [symmetric]
    by (auto simp: volume_on_def cache_ready_def idle_K_def)
  show "dev (volume_on sb n x lim) = x" using d by (auto simp: dev_def c_def)
  show "fresh_cache n x (vcache (volume_on sb n x lim))"
    using new d \<open>cblocks c = n\<close> unfolding fresh_cache_def c_def [symmetric] by (auto simp: cache_ready_def)
qed

end
