(* ===== verification/FsFresh.thy ===== *)
theory FsFresh
  imports FsRestart
begin

text \<open>A freshly formatted device, as the readers see it.\<close>

text \<open>The device starts with the blocks of the metadata that \<open>format_sized\<close> laid out.\<close>

definition freshly :: "superblock \<Rightarrow> nat \<Rightarrow> (nat \<Rightarrow> u8 list) \<Rightarrow> bool" where
  "freshly sb k d \<longleftrightarrow> (\<forall>b < data_start sb. d b = block_at (fresh_image sb k) b) \<and> data_start sb * BLOCK \<le> k"

lemma format_layout_sb_sound:
  assumes "data_start (format_layout inodes blocks) < blocks" "blocks \<le> n" "n < 2 ^ 32"
  shows "sb_sound (format_layout inodes blocks) n"
  using assms format_layout_sound [where inodes = inodes and blocks = blocks]
  by (simp add: sb_sound_def MAX_STAGED_def JOURNAL_BLOCKS_def)

lemma load_zeros: "length xs \<le> a \<Longrightarrow> a + m \<le> length xs + j \<Longrightarrow> load (xs @ replicate j 0) a m = replicate m 0"
  by (simp add: load_def)

lemma decode_zeros: "inode_decode (replicate INODE 0) = Ok free_inode_value"
proof -
  have "load (replicate INODE 0 :: u8 list) 60 4 = replicate 4 0" using load_zeros [of "[]" 60 4 INODE] by (simp add: INODE_def)
  then have "u32_at (replicate INODE 0) 60 = Some 0" by (simp add: u32_at_def slice_at_def INODE_def numeral_eq_Suc)
  then show ?thesis by (simp add: inode_decode_def INODE_COVERED_def)
qed

definition fresh_on :: "nat \<Rightarrow> nat \<Rightarrow> nat \<Rightarrow> nat \<Rightarrow> superblock \<Rightarrow> (nat \<Rightarrow> u8 list) \<Rightarrow> bool" where
  "fresh_on inodes blocks n k sb d \<longleftrightarrow> sb = format_layout inodes blocks \<and> 0 < inodes \<and> inodes < 2 ^ 64 \<and>
    data_start sb < blocks \<and> blocks \<le> n \<and> n < 2 ^ 32 \<and> freshly sb k d"

lemma fresh_onD:
  assumes "fresh_on inodes blocks n k sb d"
  shows "0 < inodes" "inodes < 2 ^ 64" "data_start sb < blocks" "blocks \<le> n" "n < 2 ^ 32" "freshly sb k d"
  using assms unfolding fresh_on_def by blast+

lemma layout:
  assumes "fresh_on inodes blocks n k sb d"
  shows "1 < inode_start sb" "inode_start sb < journal_start sb" "blocks \<le> (inode_start sb - 1) * BLOCK * 8"
    "inode_start sb * BLOCK + inodes * INODE \<le> journal_start sb * BLOCK" "sb_inodes sb = inodes" "sb_blocks sb = blocks" "bitmap_start sb = 1"
    "data_start sb = journal_start sb + JOURNAL_BLOCKS" "root sb = 0" "journal_blocks sb = JOURNAL_BLOCKS"
  using assms format_layout_sound [where inodes = inodes and blocks = blocks] by (simp_all add: fresh_on_def)

lemma fresh_sound: "fresh_on inodes blocks n k sb d \<Longrightarrow> sb_sound sb n"
  unfolding fresh_on_def using format_layout_sb_sound by auto

lemma head_length: "fresh_on inodes blocks n k sb d \<Longrightarrow> length (sb_head sb @ bits (marked sb)) = inode_start sb * BLOCK"
  using layout(1) [of inodes blocks n k sb d] by (simp add: diff_mult_distrib)

lemma head_read:
  assumes F: "fresh_on inodes blocks n k sb d"
  shows "read_head (d 0) n = Ok sb"
proof -
  note inodes = fresh_onD(1,2) [OF F] and blocks = fresh_onD(3-5) [OF F] and d = fresh_onD(6) [OF F] and layout = layout [OF F]
  have "d 0 = sb_head sb" using d layout load_mid [of "[]" 0 "sb_head sb" BLOCK] by (auto simp: freshly_def block_at_def fresh_image_def)
  moreover have "layout_ok sb n" using layout blocks inodes by (simp add: layout_ok_def JOURNAL_BLOCKS_def)
  ultimately show ?thesis using read_head_sb [of sb n "[]"] by simp
qed

lemma image_length:
  assumes F: "fresh_on inodes blocks n k sb d"
  shows "length (fresh_image sb k) = k" "inode_start sb * BLOCK + INODE \<le> k"
proof -
  note inodes = fresh_onD(1,2) [OF F] and blocks = fresh_onD(3-5) [OF F] and d = fresh_onD(6) [OF F] and layout = layout [OF F]
  have "journal_start sb * BLOCK \<le> k" using d layout(8) by (simp add: freshly_def add_mult_distrib)
  moreover have "INODE \<le> inodes * INODE" using inodes by simp
  ultimately show "inode_start sb * BLOCK + INODE \<le> k" using layout(4) by linarith
  then show "length (fresh_image sb k) = k" using head_length [OF F] by (simp add: fresh_image_def)
qed

lemma later_zeros:
  assumes F: "fresh_on inodes blocks n k sb d"
    and "inode_start sb * BLOCK + INODE \<le> a" "a + m \<le> k"
  shows "load (fresh_image sb k) a m = replicate m 0"
proof -
  let ?xs = "sb_head sb @ bits (marked sb) @ inode_bytes fresh_root"
  have l: "length ?xs = inode_start sb * BLOCK + INODE" using head_length [OF F] by simp
  show ?thesis using load_zeros [of ?xs a m] assms(2,3) unfolding l by (simp add: fresh_image_def)
qed

lemma log_blank:
  assumes F: "fresh_on inodes blocks n k sb d"
  shows "blankb (d (journal_start sb))"
proof -
  note inodes = fresh_onD(1,2) [OF F] and blocks = fresh_onD(3-5) [OF F] and d = fresh_onD(6) [OF F] and layout = layout [OF F]
  have j: "journal_start sb * BLOCK + BLOCK \<le> k" using d layout(8) by (simp add: freshly_def add_mult_distrib JOURNAL_BLOCKS_def)
  have "inode_start sb * BLOCK + INODE \<le> journal_start sb * BLOCK" using layout(4) inodes(1) mult_le_mono1 [of 1 inodes INODE] by linarith
  then have "d (journal_start sb) = replicate BLOCK 0"
    using d layout(8) later_zeros [OF F _ j] by (simp add: freshly_def block_at_def JOURNAL_BLOCKS_def)
  then show ?thesis using blank_zero [of d sb] by (simp add: blank_def blankb_def)
qed

lemma inodes_read:
  assumes F: "fresh_on inodes blocks n k sb d" and j: "unat j < inodes"
  shows "inode_of sb n d j = Ok (if j = 0 then fresh_root else free_inode_value)"
proof -
  note inodes = fresh_onD(1,2) [OF F] and blocks = fresh_onD(3-5) [OF F] and d = fresh_onD(6) [OF F] and layout = layout [OF F]
  obtain b off where a: "inode_at sb j = Ok (b, off)" "b < journal_start sb" "off + INODE \<le> BLOCK"
    "b * BLOCK + off = inode_start sb * BLOCK + unat j * INODE" by (rule inode_at_sound [OF fresh_sound [OF F]]) (use j layout in simp)
  have b: "b < data_start sb" using a(2) layout(8) by simp
  have kb: "b * BLOCK + BLOCK \<le> k"
    using d b mult_le_mono1 [of "Suc b" "data_start sb" BLOCK] by (simp add: freshly_def)
  have "d b = load (fresh_image sb k) (b * BLOCK) BLOCK" using d b by (simp add: freshly_def block_at_def)
  then have slot: "load (d b) off INODE = load (fresh_image sb k) (inode_start sb * BLOCK + unat j * INODE) INODE" "length (d b) = BLOCK"
    using load_load [of off INODE BLOCK "b * BLOCK" "fresh_image sb k"] a(3,4) kb image_length(1) [OF F] by simp_all
  have "load (fresh_image sb k) (inode_start sb * BLOCK + unat j * INODE) INODE = (if j = 0 then inode_bytes fresh_root else replicate INODE 0)"
  proof (cases "j = 0")
    case True
    then show ?thesis using load_mid [OF head_length [OF F], of "inode_bytes fresh_root" INODE] by (simp add: fresh_image_def)
  next
    case False
    then have "0 < unat j" by (simp add: unat_gt_0)
    then have "INODE \<le> unat j * INODE" by simp
    moreover have "inode_start sb * BLOCK + unat j * INODE + INODE \<le> k" using a(3,4) kb by linarith
    ultimately show ?thesis using later_zeros [OF F, of "inode_start sb * BLOCK + unat j * INODE" INODE] False by simp
  qed
  then show "inode_of sb n d j = Ok (if j = 0 then fresh_root else free_inode_value)"
    unfolding inode_of_eq [OF fresh_sound [OF F] a(1,2)] using slot a(3) decode_bytes [OF length_fresh_root, of "[]"]
    by (simp add: slice_at_def decode_zeros)
qed

lemma bits_read:
  assumes F: "fresh_on inodes blocks n k sb d" and b: "b < blocks"
  shows "block_used sb d b \<longleftrightarrow> b < data_start sb"
proof -
  note inodes = fresh_onD(1,2) [OF F] and blocks = fresh_onD(3-5) [OF F] and d = fresh_onD(6) [OF F] and layout = layout [OF F]
  let ?c = "b div 8 div BLOCK" and ?i = "b div 8 mod BLOCK"
  have h: "bitmap_holding sb b = 1 + ?c" "1 + ?c < inode_start sb"
    using bitmap_holding_range [OF fresh_sound [OF F]] b layout by (auto simp: bitmap_holding_def)
  have lt: "1 + ?c < data_start sb" using h(2) layout by linarith
  have at_k: "(1 + ?c) * BLOCK + BLOCK \<le> k"
    using d lt mult_le_mono1 [of "Suc (1 + ?c)" "data_start sb" BLOCK] by (simp add: freshly_def)
  have eight: "b div 8 < (inode_start sb - 1) * BLOCK" using b layout(3) by (simp add: less_mult_imp_div_less)
  have "d (1 + ?c) ! ?i = fresh_image sb k ! ((1 + ?c) * BLOCK + ?i)"
    using d lt at_k image_length(1) [OF F] nth_load [of "(1 + ?c) * BLOCK" BLOCK "fresh_image sb k" ?i] by (simp add: freshly_def block_at_def)
  moreover have "(1 + ?c) * BLOCK + ?i = b div 8 + BLOCK" by simp
  moreover have "fresh_image sb k ! (b div 8 + BLOCK) = bits (marked sb) ! (b div 8)"
    using eight by (simp add: fresh_image_def nth_append)
  ultimately have "d (bitmap_holding sb b) ! ?i = bits (marked sb) ! (b div 8)" by (simp add: h(1))
  then show "block_used sb d b \<longleftrightarrow> b < data_start sb"
    using marked_used [of sb b] eight blocks layout by (simp add: block_used_def used_bit)
qed

end
