(* ===== verification/FsConsistent.thy ===== *)
theory FsConsistent
  imports FsFresh
begin

text \<open>
  The consistency of a filesystem: what inodes hold are data blocks that the bitmap marks as used,
  and no block is held twice. Every operation keeps it.
\<close>

definition inode_ok :: "superblock \<Rightarrow> (nat \<Rightarrow> u8 list) \<Rightarrow> inode \<Rightarrow> bool" where
  "inode_ok sb x ino \<longleftrightarrow> owns_data sb x ino \<and> distinct (contents x ino) \<and> (\<forall>b \<in> set (contents x ino). block_used sb x b) \<and>
    (\<forall>i j. i < j \<longrightarrow> j < 10 \<longrightarrow> direct ino ! i = 0 \<longrightarrow> direct ino ! j = 0) \<and>
    (ikind ino = Directory \<longrightarrow> dir_ok sb ino) \<and> (ikind ino = FreeInode \<longrightarrow> contents x ino = [])"

definition consistent :: "superblock \<Rightarrow> nat \<Rightarrow> (nat \<Rightarrow> u8 list) \<Rightarrow> bool" where
  "consistent sb n x \<longleftrightarrow>
    (\<forall>j ino. inode_of sb n x j = Ok ino \<longrightarrow> inode_ok sb x ino) \<and>
    (\<forall>j j' ino ino'. inode_of sb n x j = Ok ino \<longrightarrow> inode_of sb n x j' = Ok ino' \<longrightarrow> j \<noteq> j' \<longrightarrow>
       set (contents x ino) \<inter> set (contents x ino') = {})"

lemma consistentD:
  assumes "consistent sb n x"
  shows "inode_of sb n x j = Ok ino \<Longrightarrow> inode_ok sb x ino"
    "inode_of sb n x j = Ok ino \<Longrightarrow> inode_of sb n x j' = Ok ino' \<Longrightarrow> j \<noteq> j' \<Longrightarrow> set (contents x ino) \<inter> set (contents x ino') = {}"
  using assms unfolding consistent_def by blast+

lemma inode_okD:
  assumes "inode_ok sb x ino"
  shows "owns_data sb x ino" "distinct (contents x ino)" "b \<in> set (contents x ino) \<Longrightarrow> block_used sb x b"
    "i < j \<Longrightarrow> j < 10 \<Longrightarrow> direct ino ! i = 0 \<Longrightarrow> direct ino ! j = 0"
    "ikind ino = Directory \<Longrightarrow> dir_ok sb ino" "ikind ino = FreeInode \<Longrightarrow> contents x ino = []"
    "b \<in> set (contents x ino) \<Longrightarrow> data_start sb \<le> b" "b \<in> set (contents x ino) \<Longrightarrow> b < sb_blocks sb"
  using assms unfolding inode_ok_def owns_data_def by blast+

text \<open>The contents depend on the indirect table only.\<close>

lemma contents_cong: "(indirect ino \<noteq> 0 \<Longrightarrow> x (unat (indirect ino)) = y (unat (indirect ino))) \<Longrightarrow> contents x ino = contents y ino"
  by (simp add: contents_def)

lemma table_in: "indirect ino \<noteq> 0 \<Longrightarrow> unat (indirect ino) \<in> set (contents x ino)"
  by (simp add: contents_def)

lemma contents_upto: "(\<And>b. b \<in> set (contents x ino) \<Longrightarrow> y b = x b) \<Longrightarrow> contents y ino = contents x ino"
  by (rule contents_cong) (simp add: table_in)

lemma inode_ok_transfer:
  assumes "inode_ok sb x ino" "contents y ino = contents x ino" "\<And>b. b \<in> set (contents x ino) \<Longrightarrow> block_used sb y b"
  shows "inode_ok sb y ino"
  using assms unfolding inode_ok_def owns_data_def by simp

lemma contents_none: "direct ino = replicate 10 0 \<Longrightarrow> indirect ino = 0 \<Longrightarrow> contents x ino = []"
  by (simp add: contents_def numeral_eq_Suc)

lemma inode_ok_empty: "direct ino = replicate 10 0 \<Longrightarrow> indirect ino = 0 \<Longrightarrow> isize ino = 0 \<Longrightarrow> inode_ok sb x ino"
  by (simp add: inode_ok_def owns_data_def contents_none dir_ok_def entries_def)

subsection \<open>The blocks of a directory\<close>

lemma takeWhile_nth: "k < length xs \<Longrightarrow> (\<And>m. m \<le> k \<Longrightarrow> P (xs ! m)) \<Longrightarrow> k < length (takeWhile P xs) \<and> takeWhile P xs ! k = xs ! k"
proof (induction xs arbitrary: k)
  case (Cons a xs)
  have a: "P a" using Cons.prems(2) [of 0] by simp
  show ?case
  proof (cases k)
    case (Suc m)
    have "m < length (takeWhile P xs) \<and> takeWhile P xs ! m = xs ! m"
    proof (rule Cons.IH)
      show "m < length xs" using Cons.prems(1) Suc by simp
      show "P (xs ! j)" if "j \<le> m" for j using Cons.prems(2) [of "Suc j"] Suc that by simp
    qed
    then show ?thesis using a Suc by simp
  qed (use a in simp)
qed simp

lemma dir_prefix:
  assumes sb: "sb_sound sb n" and dir: "dir_ok sb dir" and i: "i < entries dir"
  shows "i div PER < length (takeWhile (\<lambda>b. b \<noteq> 0) (direct dir))" "takeWhile (\<lambda>b. b \<noteq> 0) (direct dir) ! (i div PER) = direct dir ! (i div PER)"
proof -
  have "direct dir ! m \<noteq> 0" if m: "m \<le> i div PER" for m
  proof -
    have "m * PER \<le> i" using m by (meson div_times_less_eq_dividend mult_le_mono1 order_trans)
    then have e: "m * PER < entries dir" using i by simp
    have "m * PER div PER = m" by simp
    moreover have "data_start sb \<le> dir_block dir (m * PER)" using dir e by (simp add: dir_ok_def)
    ultimately have "data_start sb \<le> unat (direct dir ! m)" by (simp add: dir_block_def)
    then show ?thesis using sb by (auto simp: sb_sound_def)
  qed
  moreover have "i div PER < length (direct dir)" using dir_ok_block(1) [OF sb dir i] dir by (simp add: dir_ok_def)
  ultimately show "i div PER < length (takeWhile (\<lambda>b. b \<noteq> 0) (direct dir))" "takeWhile (\<lambda>b. b \<noteq> 0) (direct dir) ! (i div PER) = direct dir ! (i div PER)"
    using takeWhile_nth [of "i div PER" "direct dir" "\<lambda>b. b \<noteq> 0"] by auto
qed

lemma dir_block_held: "sb_sound sb n \<Longrightarrow> dir_ok sb dir \<Longrightarrow> i < entries dir \<Longrightarrow> dir_block dir i \<in> set (map unat (takeWhile (\<lambda>b. b \<noteq> 0) (direct dir)))"
  using dir_prefix [of sb n dir i] by (auto simp: dir_block_def intro!: image_eqI) (metis nth_mem)

lemma dir_block_contents: "sb_sound sb n \<Longrightarrow> dir_ok sb dir \<Longrightarrow> i < entries dir \<Longrightarrow> dir_block dir i \<in> set (contents x dir)"
  using dir_block_held [of sb n dir i] by (auto simp: contents_def)

lemma table_apart:
  assumes "sb_sound sb n" "inode_ok sb x dir" "dir_ok sb dir" "i < entries dir" "indirect dir \<noteq> 0"
  shows "unat (indirect dir) \<noteq> dir_block dir i"
  using inode_okD(2) [OF assms(2)] dir_block_held [OF assms(1,3,4)] assms(5) by (auto simp: contents_def)

lemma inode_ok_apart:
  assumes sb: "sb_sound sb n" and ok: "inode_ok sb x dir" "dir_ok sb dir"
  shows "dir_apart dir" "dir_marked sb x dir"
proof -
  show "dir_marked sb x dir" using inode_okD(3) [OF ok(1)] dir_block_contents [OF sb ok(2)] by (auto simp: dir_marked_def)
  have d: "distinct (map unat (takeWhile (\<lambda>b. b \<noteq> 0) (direct dir)))" using inode_okD(2) [OF ok(1)] by (simp add: contents_def)
  have "i div PER = j div PER" if "i < entries dir" "j < entries dir" "dir_block dir i = dir_block dir j" for i j
  proof -
    note i = dir_prefix [OF sb ok(2) that(1)] and j = dir_prefix [OF sb ok(2) that(2)]
    have "map unat (takeWhile (\<lambda>b. b \<noteq> 0) (direct dir)) ! (i div PER) = map unat (takeWhile (\<lambda>b. b \<noteq> 0) (direct dir)) ! (j div PER)"
      using i j that(3) by (simp add: dir_block_def)
    then show ?thesis using nth_eq_iff_index_eq [OF d, of "i div PER" "j div PER"] i(1) j(1) by simp
  qed
  then show "dir_apart dir" unfolding dir_apart_def by blast
qed

subsection \<open>Removal\<close>

text \<open>
  A change that gives one inode new contents: the others keep theirs, and no block is held twice if
  the new contents take no block of another inode.
\<close>

lemma consistent_change:
  assumes x: "consistent sb n x" and keep: "\<And>j ino. j \<notin> J \<Longrightarrow> inode_of sb n y j = Ok ino \<Longrightarrow> inode_of sb n x j = Ok ino"
    and same: "\<And>j ino. j \<notin> J \<Longrightarrow> inode_of sb n x j = Ok ino \<Longrightarrow> contents y ino = contents x ino \<and> (\<forall>b \<in> set (contents x ino). block_used sb y b)"
    and new: "\<And>j ino. j \<in> J \<Longrightarrow> inode_of sb n y j = Ok ino \<Longrightarrow> inode_ok sb y ino \<and>
      (\<forall>j' ino'. j' \<noteq> j \<longrightarrow> inode_of sb n y j' = Ok ino' \<longrightarrow> set (contents y ino) \<inter> set (contents y ino') = {})"
  shows "consistent sb n y"
  unfolding consistent_def
proof (intro conjI allI impI)
  fix j ino assume i: "inode_of sb n y j = Ok ino"
  show "inode_ok sb y ino"
  proof (cases "j \<in> J")
    case False
    then show ?thesis using keep [OF False i] same [OF False] consistentD(1) [OF x] by (blast intro: inode_ok_transfer)
  qed (use new i in blast)
next
  fix j j' ino ino' assume i: "inode_of sb n y j = Ok ino" "inode_of sb n y j' = Ok ino'" "j \<noteq> j'"
  consider "j \<in> J" | "j' \<in> J" | "j \<notin> J" "j' \<notin> J" by blast
  then show "set (contents y ino) \<inter> set (contents y ino') = {}"
  proof cases
    case 3
    have k: "inode_of sb n x j = Ok ino" "inode_of sb n x j' = Ok ino'" using keep [OF 3(1) i(1)] keep [OF 3(2) i(2)] by auto
    then show ?thesis using same [OF 3(1) k(1)] same [OF 3(2) k(2)] consistentD(2) [OF x k i(3)] by simp
  next
    case 1
    then show ?thesis using new [OF 1 i(1)] i(2,3) by metis
  next
    case 2
    then show ?thesis using new [OF 2 i(2)] i(1,3) by (metis inf_commute)
  qed
qed

lemma removed_consistent:
  assumes sb: "sb_sound sb n" and x: "sized n x sb" "consistent sb n x"
    and par: "inode_of sb n x directory = Ok parent" "ikind parent = Directory" and ix: "ix < entries parent"
    and dead: "inode_of sb n x index = Ok old" "index \<noteq> directory"
  defines "y \<equiv> removed sb directory parent ix index old x"
  shows "consistent sb n y"
proof -
  have pok: "inode_ok sb x parent" "dir_ok sb parent" using consistentD(1) [OF x(2) par(1)] inode_okD(5) par(2) by auto
  have own: "owns_data sb x old" using consistentD(1) [OF x(2) dead(1)] by (rule inode_okD(1))
  note view = removed_view [OF sb x(1) inode_of_range [OF par(1)] pok(2) inode_ok_apart(1) [OF sb pok] ix inode_of_range [OF dead(1)] dead(2) own, folded y_def]
  have d: "dir_block parent ix \<in> set (contents x parent)" by (rule dir_block_contents [OF sb pok(2) ix])
  have keep: "contents y ino = contents x ino" if "inode_of sb n x j = Ok ino" "j \<noteq> directory" for j ino
  proof (rule contents_upto)
    fix b assume b: "b \<in> set (contents x ino)"
    have "b \<noteq> dir_block parent ix" using consistentD(2) [OF x(2) that(1) par(1) that(2)] b d by auto
    then show "y b = x b" using view(3) inode_okD(7) [OF consistentD(1) [OF x(2) that(1)] b] by blast
  qed
  have pkeep: "contents y (smaller parent) = contents x parent"
    using contents_cong [of parent y x] view(3) table_apart [OF sb pok ix] inode_okD(7) [OF pok(1) table_in]
    by (simp add: contents_def smaller_def)
  have used: "block_used sb y b" if "inode_of sb n x j = Ok ino" "j \<noteq> index" "b \<in> set (contents x ino)" for j ino b
    using view(4) [OF inode_okD(8) [OF consistentD(1) [OF x(2) that(1)] that(3)]] inode_okD(3) [OF consistentD(1) [OF x(2) that(1)] that(3)]
      consistentD(2) [OF x(2) that(1) dead(1) that(2)] that(3) by blast
  have pdir: "dir_ok sb (smaller parent)" using pok(2) entries_smaller [of parent] ix by (auto simp: dir_ok_def)
  have pnew: "inode_ok sb y (smaller parent)"
    using pok(1) pdir used [OF par(1) dead(2) [symmetric]] par(2) unfolding inode_ok_def owns_data_def pkeep by simp
  have none: "contents z (free_inode_value\<lparr>generation := g\<rparr>) = []" for z g by (rule contents_none) (simp_all add: free_inode_value_def)
  show ?thesis
  proof (rule consistent_change [OF x(2), where J = "{index, directory}"])
    fix j ino assume j: "j \<notin> {index, directory}"
    show "inode_of sb n y j = Ok ino \<Longrightarrow> inode_of sb n x j = Ok ino" using view(1) j by simp
    show "contents y ino = contents x ino \<and> (\<forall>b \<in> set (contents x ino). block_used sb y b)" if "inode_of sb n x j = Ok ino"
      using keep [OF that] used [OF that] j by auto
  next
    fix j ino assume j: "j \<in> {index, directory}" "inode_of sb n y j = Ok ino"
    consider "j = index" "ino = free_inode_value\<lparr>generation := generation old\<rparr>" | "j = directory" "ino = smaller parent"
      using j view(1) [of j] dead(2) by (auto split: if_splits)
    then show "inode_ok sb y ino \<and> (\<forall>j' ino'. j' \<noteq> j \<longrightarrow> inode_of sb n y j' = Ok ino' \<longrightarrow> set (contents y ino) \<inter> set (contents y ino') = {})"
    proof cases
      case 1
      then show ?thesis using none by (auto intro!: inode_ok_empty simp: free_inode_value_def)
    next
      case 2
      have "set (contents x parent) \<inter> set (contents y ino') = {}" if "j' \<noteq> directory" "inode_of sb n y j' = Ok ino'" for j' ino'
      proof (cases "j' = index")
        case True
        then show ?thesis using that view(1) [of j'] none by auto
      next
        case False
        then have "inode_of sb n x j' = Ok ino'" using that view(1) [of j'] by simp
        then show ?thesis using keep [OF _ that(1)] consistentD(2) [OF x(2) par(1)] that(1) by auto
      qed
      then show ?thesis using 2 pnew pkeep by simp
    qed
  qed
qed

subsection \<open>Truncation\<close>

lemma truncated_view:
  assumes sb: "sb_sound sb n" and x: "sized n x sb" and i: "unat index < sb_inodes sb" and own: "owns_data sb x old"
    and ne: "\<not> (isize old = 0 \<and> indirect old = 0 \<and> direct old ! 0 = 0)"
  defines "y \<equiv> truncated sb index old x"
  shows "inode_of sb n y j = (if j = index then Ok (emptied old) else inode_of sb n x j)"
    "data_start sb \<le> b \<Longrightarrow> y b = x b"
    "b < sb_blocks sb \<Longrightarrow> block_used sb y b \<longleftrightarrow> block_used sb x b \<and> b \<notin> set (contents x old)"
    "sized n y sb" "y 0 = x 0"
proof -
  let ?z = "clear_bits sb (contents x old) x"
  have yz: "y = set_inode sb index (emptied old) ?z" using ne by (auto simp: y_def truncated_def)
  have bs: "\<forall>b \<in> set (contents x old). b < sb_blocks sb" using own by (simp add: owns_data_def)
  note clear = clear_bits_facts [OF sb x bs]
  have l: "length (direct (emptied old)) = 10" by (simp add: emptied_def)
  show "sized n y sb" unfolding yz by (rule sized_set_inode [OF clear(1) sb l])
  have "inode_of sb n ?z j = inode_of sb n x j" by (rule inode_of_other [OF sb]) (use clear(3) in auto)
  then show "inode_of sb n y j = (if j = index then Ok (emptied old) else inode_of sb n x j)"
    unfolding yz by (simp add: inode_of_set [OF sb clear(1) i l])
  show "data_start sb \<le> b \<Longrightarrow> y b = x b"
    using data_outside [OF sb, of b] clear(3) [of b] set_inode_outside [OF sb, of b] by (simp add: yz)
  show "b < sb_blocks sb \<Longrightarrow> block_used sb y b \<longleftrightarrow> block_used sb x b \<and> b \<notin> set (contents x old)"
    using clear(2) [of b] bitmap_holding_range [OF sb, of b] set_inode_outside [OF sb, of "bitmap_holding sb b"] by (simp add: yz block_used_def)
  show "y 0 = x 0" using clear(3) [of 0] set_inode_outside [OF sb, of 0] sb by (simp add: yz sb_sound_def)
qed

lemma truncated_consistent:
  assumes sb: "sb_sound sb n" and x: "sized n x sb" "consistent sb n x" and old: "inode_of sb n x index = Ok old" "ikind old = File"
  defines "y \<equiv> truncated sb index old x"
  shows "consistent sb n y"
proof (cases "isize old = 0 \<and> indirect old = 0 \<and> direct old ! 0 = 0")
  case False
  note ok = consistentD(1) [OF x(2) old(1)]
  note view = truncated_view [OF sb x(1) inode_of_range [OF old(1)] inode_okD(1) [OF ok] False, folded y_def]
  have none: "contents z (emptied old) = []" for z by (rule contents_none) (simp_all add: emptied_def)
  show ?thesis
  proof (rule consistent_change [OF x(2), where J = "{index}"])
    fix j ino assume j: "j \<notin> {index}"
    show "inode_of sb n y j = Ok ino \<Longrightarrow> inode_of sb n x j = Ok ino" using view(1) j by simp
    show "contents y ino = contents x ino \<and> (\<forall>b \<in> set (contents x ino). block_used sb y b)" if i: "inode_of sb n x j = Ok ino"
    proof (intro conjI ballI)
      note iok = consistentD(1) [OF x(2) i]
      show "contents y ino = contents x ino" using view(2) inode_okD(7) [OF iok] by (intro contents_upto) auto
      show "block_used sb y b" if b: "b \<in> set (contents x ino)" for b
        using view(3) [OF inode_okD(8) [OF iok b]] inode_okD(3) [OF iok b] consistentD(2) [OF x(2) i old(1)] j b by auto
    qed
  next
    fix j ino assume "j \<in> {index}" "inode_of sb n y j = Ok ino"
    then have "ino = emptied old" using view(1) by simp
    then show "inode_ok sb y ino \<and> (\<forall>j' ino'. j' \<noteq> j \<longrightarrow> inode_of sb n y j' = Ok ino' \<longrightarrow> set (contents y ino) \<inter> set (contents y ino') = {})"
      using none by (auto intro!: inode_ok_empty simp: emptied_def)
  qed
qed (use x in \<open>simp add: y_def truncated_def\<close>)

subsection \<open>Creation\<close>

text \<open>The direct blocks of a directory when one of them is replaced by a new one.\<close>

lemma fresh_prefix:
  fixes w :: u32
  assumes k: "k < length D" "\<And>m. m < k \<Longrightarrow> D ! m \<noteq> 0" and w: "w \<noteq> 0" "w \<notin> set (takeWhile (\<lambda>b. b \<noteq> 0) D)"
    and canon: "\<And>j. k < j \<Longrightarrow> j < length D \<Longrightarrow> D ! k = 0 \<Longrightarrow> D ! j = 0" and d: "distinct (takeWhile (\<lambda>b. b \<noteq> 0) D)"
  shows "set (takeWhile (\<lambda>b. b \<noteq> 0) (D[k := w])) \<subseteq> insert w (set (takeWhile (\<lambda>b. b \<noteq> 0) D))" "distinct (takeWhile (\<lambda>b. b \<noteq> 0) (D[k := w]))"
proof -
  let ?P = "\<lambda>b :: u32. b \<noteq> 0"
  have all: "\<forall>a \<in> set (take k D). ?P a" using k by (auto simp: in_set_conv_nth)
  have D: "D = take k D @ D ! k # drop (Suc k) D" by (rule id_take_nth_drop [OF k(1)])
  have new: "takeWhile ?P (D[k := w]) = take k D @ w # takeWhile ?P (drop (Suc k) D)"
    using all w(1) k(1) by (simp add: upd_conv_take_nth_drop takeWhile_append2)
  have old: "takeWhile ?P D = take k D @ (if D ! k = 0 then [] else D ! k # takeWhile ?P (drop (Suc k) D))"
    by (subst D) (use all in \<open>simp add: takeWhile_append2\<close>)
  have rest: "takeWhile ?P (drop (Suc k) D) = []" if "D ! k = 0"
  proof (cases "drop (Suc k) D")
    case (Cons a as)
    then have "Suc k < length D" by (metis drop_all leI list.discI)
    then have "a = D ! Suc k" using Cons by (metis Cons_nth_drop_Suc list.inject)
    then show ?thesis using canon [of "Suc k"] that Cons \<open>Suc k < length D\<close> by simp
  qed simp
  show "set (takeWhile ?P (D[k := w])) \<subseteq> insert w (set (takeWhile ?P D))" "distinct (takeWhile ?P (D[k := w]))"
    using rest w(2) d unfolding new old by (cases "D ! k = 0"; auto)+
qed

lemma with_block_contents:
  assumes sb: "sb_sound sb n" and ok: "inode_ok sb x dir" "dir_ok sb dir" and mod: "entries dir mod PER = 0" "entries dir div PER < 10"
    and r: "data_start sb \<le> b" "b < sb_blocks sb" and b: "\<not> block_used sb x b"
  shows "set (contents x (with_block b dir)) \<subseteq> insert b (set (contents x dir))" "distinct (contents x (with_block b dir))"
    "i < j \<Longrightarrow> j < 10 \<Longrightarrow> direct (with_block b dir) ! i = 0 \<Longrightarrow> direct (with_block b dir) ! j = 0"
proof -
  let ?P = "\<lambda>b :: u32. b \<noteq> 0" and ?k = "entries dir div PER" and ?w = "of_nat b :: u32"
  let ?T = "if indirect dir = 0 then [] else map unat (takeWhile ?P (table_numbers (x (unat (indirect dir))))) @ [unat (indirect dir)]"
  have l: "length (direct dir) = 10" using ok(2) by (simp add: dir_ok_def)
  have old: "contents x dir = map unat (takeWhile ?P (direct dir)) @ ?T" by (simp add: contents_def)
  have new: "contents x (with_block b dir) = map unat (takeWhile ?P ((direct dir)[?k := ?w])) @ ?T"
    by (simp add: contents_def with_block_def)
  have uw: "unat ?w = b" using r sb by (simp add: unat_of_nat sb_sound_def)
  have w0: "?w \<noteq> 0" using uw r(1) sb by (auto simp: sb_sound_def)
  have out: "b \<notin> set (contents x dir)" using b inode_okD(3) [OF ok(1)] by auto
  then have "b \<notin> unat ` set (takeWhile ?P (direct dir))" unfolding old by simp
  then have win: "?w \<notin> set (takeWhile ?P (direct dir))" using uw by (metis image_eqI)
  have before: "direct dir ! m \<noteq> 0" if "m < ?k" for m
  proof -
    have "m * PER < ?k * PER" using that by simp
    also have "\<dots> = entries dir" using mod(1) div_mult_mod_eq [of "entries dir" PER] by simp
    finally show ?thesis using dir_ok_block(2) [OF sb ok(2), of "m * PER"] by (auto simp: in_filesystem_def split: if_splits)
  qed
  have d: "distinct (takeWhile ?P (direct dir))" using inode_okD(2) [OF ok(1)] unfolding old by (simp add: distinct_map)
  have "set (takeWhile ?P ((direct dir)[?k := ?w])) \<subseteq> insert ?w (set (takeWhile ?P (direct dir))) \<and> distinct (takeWhile ?P ((direct dir)[?k := ?w]))"
    using fresh_prefix [of ?k "direct dir" ?w] mod(2) l before w0 win inode_okD(4) [OF ok(1)] d by simp
  then have p: "set (map unat (takeWhile ?P ((direct dir)[?k := ?w]))) \<subseteq> insert b (set (map unat (takeWhile ?P (direct dir))))"
      "distinct (map unat (takeWhile ?P ((direct dir)[?k := ?w])))"
    using uw by (auto simp: distinct_map inj_on_def word_unat_eq_iff)
  show "set (contents x (with_block b dir)) \<subseteq> insert b (set (contents x dir))" using p(1) unfolding new old set_append by blast
  show "distinct (contents x (with_block b dir))" using p inode_okD(2) [OF ok(1)] out unfolding new old distinct_append set_append by blast
  show "direct (with_block b dir) ! j = 0" if "i < j" "j < 10" "direct (with_block b dir) ! i = 0"
  proof -
    have ik: "i \<noteq> ?k" using that w0 mod(2) l by (auto simp: with_block_def)
    then have "direct dir ! i = 0" using that by (simp add: with_block_def)
    moreover have "?k < i" using before [of i] ik calculation by linarith
    ultimately show ?thesis using inode_okD(4) [OF ok(1) that(1,2)] that(1) by (simp add: with_block_def)
  qed
qed

lemma with_fresh_contents:
  assumes sb: "sb_sound sb n" and ok: "inode_ok sb x dir" "dir_ok sb dir" and room: "entry_room sb fresh dir"
    and fresh: "fresh = None \<longleftrightarrow> entries dir mod PER \<noteq> 0" "\<forall>b. fresh = Some b \<longrightarrow> \<not> block_used sb x b"
  shows "b \<in> set (contents x (with_fresh fresh dir)) \<Longrightarrow> b \<in> set (contents x dir) \<or> fresh = Some b"
    "distinct (contents x (with_fresh fresh dir))"
    "i < j \<Longrightarrow> j < 10 \<Longrightarrow> direct (with_fresh fresh dir) ! i = 0 \<Longrightarrow> direct (with_fresh fresh dir) ! j = 0"
proof -
  have some: "entries dir mod PER = 0" "entries dir div PER < 10" "data_start sb \<le> c" "c < sb_blocks sb" "\<not> block_used sb x c" if "fresh = Some c" for c
    using room fresh that by (auto simp: entry_room_def)
  note block = with_block_contents [OF sb ok some]
  show "b \<in> set (contents x (with_fresh fresh dir)) \<Longrightarrow> b \<in> set (contents x dir) \<or> fresh = Some b"
    using block(1) by (cases fresh) (auto simp: with_fresh_def)
  show "distinct (contents x (with_fresh fresh dir))" using block(2) inode_okD(2) [OF ok(1)] by (cases fresh) (auto simp: with_fresh_def)
  show "i < j \<Longrightarrow> j < 10 \<Longrightarrow> direct (with_fresh fresh dir) ! i = 0 \<Longrightarrow> direct (with_fresh fresh dir) ! j = 0"
    using block(3) inode_okD(4) [OF ok(1)] by (cases fresh) (auto simp: with_fresh_def)
qed

text \<open>The block of the new entry is the directory's own or a free one.\<close>

lemma entry_block_own:
  assumes sb: "sb_sound sb n" and dir: "dir_ok sb dir" and room: "entry_room sb fresh dir" and fresh: "fresh = None \<longleftrightarrow> entries dir mod PER \<noteq> 0"
  shows "fresh = Some (entry_block fresh dir) \<or> (\<exists>i < entries dir. entry_block fresh dir = dir_block dir i)"
proof (cases fresh)
  case None
  note l = last_block [of dir]
  have "entry_block fresh dir = dir_block dir (entries dir - 1)" using l(2) fresh None by (simp add: entry_block_def with_fresh_def dir_block_def)
  then show ?thesis using l(1) fresh None by auto
qed (use entry_block_data(3) [OF room] in auto)

lemma larger_dir_ok:
  assumes dir: "dir_ok sb dir" and room: "entry_room sb fresh dir" and fresh: "fresh = None \<longleftrightarrow> entries dir mod PER \<noteq> 0"
  shows "dir_ok sb (larger (with_fresh fresh dir))"
proof -
  let ?p = "larger (with_fresh fresh dir)"
  have e: "entries ?p = Suc (entries dir)" using dir by (simp add: entries_larger dir_ok_def)
  have "entries dir div PER < 10" using room by (simp add: entry_room_def)
  then have "entries dir < 10 * PER" using div_less_iff_less_mult [OF PER_pos] by blast
  moreover have "data_start sb \<le> dir_block ?p i \<and> dir_block ?p i < sb_blocks sb" if "i < Suc (entries dir)" for i
  proof (cases "i = entries dir")
    case True
    then show ?thesis using entry_block_data [OF room] by (simp add: entry_block_def)
  next
    case False
    then have "i < entries dir" using that by simp
    then show ?thesis using dir_block_fresh [of fresh dir i] fresh dir by (auto simp: dir_ok_def)
  qed
  moreover have "length (direct ?p) = 10" "ikind ?p = Directory"
    using dir by (auto simp: dir_ok_def larger_def with_fresh_def with_block_def split: option.split)
  ultimately show ?thesis using e by (simp add: dir_ok_def)
qed

lemma created_consistent:
  fixes k gen
  assumes sb: "sb_sound sb n" and x: "sized n x sb" "consistent sb n x"
    and par: "inode_of sb n x directory = Ok parent" "ikind parent = Directory" and room: "entry_room sb fresh parent" and name: "good_name name"
    and fresh: "fresh = None \<longleftrightarrow> entries parent mod PER \<noteq> 0" "\<forall>b. fresh = Some b \<longrightarrow> \<not> block_used sb x b"
    and free: "inode_of sb n x index = Ok old" "ikind old = FreeInode"
  defines "y \<equiv> created sb directory parent name k index gen fresh x"
  shows "consistent sb n y"
proof -
  let ?p = "with_fresh fresh parent" and ?d = "entry_block fresh parent"
  have pok: "inode_ok sb x parent" "dir_ok sb parent" using consistentD(1) [OF x(2) par(1)] inode_okD(5) par(2) by auto
  have ne: "index \<noteq> directory" using par free by auto
  note view = created_view [OF sb x(1) pok(2) inode_ok_apart [OF sb pok] room name fresh inode_of_range [OF par(1)] inode_of_range [OF free(1)] ne,
      where k = k and gen = gen, folded y_def]
  note con = with_fresh_contents [OF sb pok room fresh]
  have own: "\<not> block_used sb x ?d \<or> ?d \<in> set (contents x parent)"
    using entry_block_own [OF sb pok(2) room fresh(1)] fresh(2) dir_block_contents [OF sb pok(2), where x = x] by metis
  have away: "b \<noteq> ?d" if "inode_of sb n x j = Ok ino" "j \<noteq> directory" "b \<in> set (contents x ino)" for j ino b
    using own inode_okD(3) [OF consistentD(1) [OF x(2) that(1)] that(3)] consistentD(2) [OF x(2) that(1) par(1) that(2)] that(3) by auto
  have keep: "contents y ino = contents x ino" if "inode_of sb n x j = Ok ino" "j \<noteq> directory" for j ino
    using view(3) away [OF that] inode_okD(7) [OF consistentD(1) [OF x(2) that(1)]] by (intro contents_upto) blast
  have used: "block_used sb y b" if "inode_of sb n x j = Ok ino" "b \<in> set (contents x ino)" for j ino b
    using view(4) [OF inode_okD(8) [OF consistentD(1) [OF x(2) that(1)] that(2)]] inode_okD(3) [OF consistentD(1) [OF x(2) that(1)] that(2)] by blast
  have table: "unat (indirect parent) \<noteq> ?d" "data_start sb \<le> unat (indirect parent)" if "indirect parent \<noteq> 0"
  proof -
    note t = table_in [OF that, of x]
    show "unat (indirect parent) \<noteq> ?d"
      using entry_block_own [OF sb pok(2) room fresh(1)] fresh(2) inode_okD(3) [OF pok(1) t] table_apart [OF sb pok _ that] by metis
    show "data_start sb \<le> unat (indirect parent)" by (rule inode_okD(7) [OF pok(1) t])
  qed
  have pc: "contents y (larger ?p) = contents x ?p"
    using view(3) table contents_cong [of ?p y x] by (auto simp: contents_def larger_def with_fresh_def with_block_def split: option.splits)
  have in_p: "data_start sb \<le> b \<and> b < sb_blocks sb \<and> block_used sb y b" if "b \<in> set (contents x ?p)" for b
    using con(1) [OF that] inode_okD(7,8) [OF pok(1)] used [OF par(1)] entry_block_data [OF room] view(4) by metis
  have pnew: "inode_ok sb y (larger ?p)"
    unfolding inode_ok_def owns_data_def pc using in_p con(2,3) larger_dir_ok [OF pok(2) room fresh(1)] par(2) by (auto simp: larger_def)
  have none: "contents z (new_inode k gen) = []" for z by (rule contents_none) (simp_all add: new_inode_def)
  show ?thesis
  proof (rule consistent_change [OF x(2), where J = "{index, directory}"])
    fix j ino assume j: "j \<notin> {index, directory}"
    show "inode_of sb n y j = Ok ino \<Longrightarrow> inode_of sb n x j = Ok ino" using view(1) j by simp
    show "contents y ino = contents x ino \<and> (\<forall>b \<in> set (contents x ino). block_used sb y b)" if "inode_of sb n x j = Ok ino"
      using keep [OF that] used [OF that] j by auto
  next
    fix j ino assume j: "j \<in> {index, directory}" "inode_of sb n y j = Ok ino"
    consider "j = index" "ino = new_inode k gen" | "j = directory" "ino = larger ?p"
      using j view(1) [of j] ne by (auto split: if_splits)
    then show "inode_ok sb y ino \<and> (\<forall>j' ino'. j' \<noteq> j \<longrightarrow> inode_of sb n y j' = Ok ino' \<longrightarrow> set (contents y ino) \<inter> set (contents y ino') = {})"
    proof cases
      case 1
      then show ?thesis using none by (auto intro!: inode_ok_empty simp: new_inode_def)
    next
      case 2
      have "set (contents x ?p) \<inter> set (contents y ino') = {}" if "j' \<noteq> directory" "inode_of sb n y j' = Ok ino'" for j' ino'
      proof (cases "j' = index")
        case True
        then show ?thesis using that view(1) [of j'] none by auto
      next
        case False
        then have i: "inode_of sb n x j' = Ok ino'" using that view(1) [of j'] by simp
        have "b \<notin> set (contents x ino')" if "b \<in> set (contents x ?p)" for b
          using con(1) [OF that] consistentD(2) [OF x(2) par(1) i] \<open>j' \<noteq> directory\<close> fresh(2) inode_okD(3) [OF consistentD(1) [OF x(2) i]] by blast
        then show ?thesis using keep [OF i that(1)] by auto
      qed
      then show ?thesis using 2 pnew pc by simp
    qed
  qed
qed

end
