(* ===== verification/FsOps.thy ===== *)
theory FsOps
  imports FsConsistent
begin

text \<open>
  The three operations on every branch, from a consistent filesystem: each either does what it
  promises, or returns an error and changes nothing, or the device stops and holds the filesystem
  from before or after.
\<close>

text \<open>The outcome of an operation that was to change the filesystem from \<open>x\<close> as \<open>eff\<close> says.\<close>

definition kept :: "superblock \<Rightarrow> nat \<Rightarrow> (nat \<Rightarrow> u8 list) \<Rightarrow> ((nat \<Rightarrow> u8 list) \<Rightarrow> bool) \<Rightarrow> fs_error failure \<Rightarrow> volume \<Rightarrow> bool" where
  "kept sb n x eff e v \<longleftrightarrow> idle sb n x v \<or> dead sb n x v \<or> (\<exists>y. eff y \<and> consistent sb n y \<and> dead sb n y v)"

definition happened :: "superblock \<Rightarrow> nat \<Rightarrow> ((nat \<Rightarrow> u8 list) \<Rightarrow> bool) \<Rightarrow> volume \<Rightarrow> bool" where
  "happened sb n eff v \<longleftrightarrow> (\<exists>y. eff y \<and> consistent sb n y \<and> idle sb n y v)"

lemma kept_idle: "idle sb n x v \<Longrightarrow> kept sb n x eff e v" and kept_dead: "dead sb n x v \<Longrightarrow> kept sb n x eff e v"
  by (simp_all add: kept_def)

subsection \<open>Truncate\<close>

definition truncate_effect :: "superblock \<Rightarrow> nat \<Rightarrow> u32 \<Rightarrow> (nat \<Rightarrow> u8 list) \<Rightarrow> (nat \<Rightarrow> u8 list) \<Rightarrow> bool" where
  "truncate_effect sb n index x y \<longleftrightarrow> (\<exists>old new. inode_of sb n x index = Ok old \<and> ikind old = File \<and>
    isize new = 0 \<and> contents y new = [] \<and> ikind new = File \<and> generation new = generation old \<and> links new = links old \<and>
    (\<forall>j. inode_of sb n y j = (if j = index then Ok new else inode_of sb n x j)) \<and>
    (\<forall>b. data_start sb \<le> b \<longrightarrow> y b = x b) \<and>
    (\<forall>b < sb_blocks sb. block_used sb y b \<longleftrightarrow> block_used sb x b \<and> b \<notin> set (contents x old)) \<and> y 0 = x 0)"

lemma truncated_effect:
  assumes sb: "sb_sound sb n" and x: "sized n x sb" "consistent sb n x" and old: "inode_of sb n x index = Ok old" "ikind old = File"
  shows "truncate_effect sb n index x (truncated sb index old x)"
proof (cases "isize old = 0 \<and> indirect old = 0 \<and> direct old ! 0 = 0")
  case False
  note view = truncated_view [OF sb x(1) inode_of_range [OF old(1)] inode_okD(1) [OF consistentD(1) [OF x(2) old(1)]] False]
  have "contents z (emptied old) = []" for z by (rule contents_none) (simp_all add: emptied_def)
  then show ?thesis using view old unfolding truncate_effect_def
    by (intro exI [of _ old] exI [of _ "emptied old"]) (simp add: emptied_def)
next
  case True
  have "direct old \<noteq> []" using inode_of_direct [OF old(1)] by auto
  then have "contents x old = []" using True by (cases "direct old") (auto simp: contents_def)
  then show ?thesis using True old unfolding truncate_effect_def truncated_def by (intro exI [of _ old]) simp
qed

lemma truncate_total:
  assumes sb: "sb_sound sb n" and x: "consistent sb n x"
  shows "ensures (idle sb n x) (truncate index) (\<lambda>_. happened sb n (truncate_effect sb n index x)) (kept sb n x (truncate_effect sb n index x))"
proof (rule ensures_knowing [where A = "sized n x sb"])
  let ?eff = "truncate_effect sb n index x"
  show "sized n x sb" if "idle sb n x v" for v by (rule idle_sized [OF sb that])
  assume sz: "sized n x sb"
  show "ensures (idle sb n x) (truncate index) (\<lambda>_. happened sb n ?eff) (kept sb n x ?eff)"
  proof (cases "\<exists>old. inode_of sb n x index = Ok old \<and> ikind old = File")
    case True
    then obtain old where old: "inode_of sb n x index = Ok old" "ikind old = File" by blast
    have eff: "?eff (truncated sb index old x)" "consistent sb n (truncated sb index old x)"
      using truncated_effect [OF sb sz x old] truncated_consistent [OF sb sz x old] by auto
    show ?thesis
      by (rule ensures_post [OF truncate_step [OF sb old inode_okD(1) [OF consistentD(1) [OF x old(1)]]]])
        (use eff in \<open>auto simp: happened_def kept_def undone_def broken_def dead_def\<close>)
  next
    case False
    have read: "ensures (idle sb n x) (vol_inode index) (\<lambda>ino v. idle sb n x v \<and> inode_of sb n x index = Ok ino) (kept sb n x ?eff)"
      by (rule ensures_post [OF vol_inode_step [OF sb]]) (auto simp: kept_def)
    show ?thesis unfolding truncate_def
      by (rule ensures_bind [OF read], rule ensures_given) (use False in \<open>auto simp: kept_def\<close>)
  qed
qed

subsection \<open>Remove\<close>

definition remove_effect :: "superblock \<Rightarrow> nat \<Rightarrow> u32 \<Rightarrow> u8 list \<Rightarrow> (nat \<Rightarrow> u8 list) \<Rightarrow> (nat \<Rightarrow> u8 list) \<Rightarrow> bool" where
  "remove_effect sb n directory name x y \<longleftrightarrow> (\<exists>parent index old ix.
    inode_of sb n x directory = Ok parent \<and> ikind parent = Directory \<and> lookup_of sb n x parent name = Ok (index, old) \<and>
    inode_of sb n x index = Ok old \<and> index \<noteq> directory \<and> (ikind old = Directory \<longrightarrow> isize old = 0) \<and>
    ix < length (dir_list x parent) \<and> entry_name (dir_list x parent ! ix) = name \<and> e_inode (dir_list x parent ! ix) = index \<and>
    (\<forall>j. inode_of sb n y j = (if j = index then Ok (free_inode_value\<lparr>generation := generation old\<rparr>)
       else if j = directory then Ok (smaller parent) else inode_of sb n x j)) \<and>
    dir_list y (smaller parent) = butlast ((dir_list x parent)[ix := last (dir_list x parent)]) \<and>
    (\<forall>j ino b. j \<noteq> directory \<longrightarrow> inode_of sb n x j = Ok ino \<longrightarrow> b \<in> set (contents x ino) \<longrightarrow> y b = x b) \<and>
    (\<forall>b < sb_blocks sb. block_used sb y b \<longleftrightarrow> block_used sb x b \<and> b \<notin> set (contents x old)) \<and> y 0 = x 0)"

lemma removed_effect:
  assumes sb: "sb_sound sb n" and x: "sized n x sb" "consistent sb n x"
    and par: "inode_of sb n x directory = Ok parent" "ikind parent = Directory" and found: "lookup_of sb n x parent name = Ok (index, old)"
    and leaf: "ikind old = Directory \<longrightarrow> isize old = 0" and name: "name \<noteq> []"
  obtains ix where "place x parent name = Some ix" "remove_effect sb n directory name x (removed sb directory parent ix index old x)"
    "consistent sb n (removed sb directory parent ix index old x)"
proof -
  have pok: "inode_ok sb x parent" "dir_ok sb parent" using consistentD(1) [OF x(2) par(1)] inode_okD(5) par(2) by auto
  obtain ix where ix: "place x parent name = Some ix" "e_inode (dir_list x parent ! ix) = index" "inode_of sb n x index = Ok old"
    by (rule place_lookup [OF sb x(1) pok(2) name found])
  note p = place_Some [OF ix(1)]
  have ne: "index \<noteq> directory"
  proof
    assume "index = directory"
    then have "isize parent = 0" using ix(3) par leaf by simp
    then show False using p(1) by (simp add: entries_def)
  qed
  note view = removed_view [OF sb x(1) inode_of_range [OF par(1)] pok(2) inode_ok_apart(1) [OF sb pok] p(1) inode_of_range [OF ix(3)] ne
      inode_okD(1) [OF consistentD(1) [OF x(2) ix(3)]]]
  have data: "removed sb directory parent ix index old x b = x b" if "j \<noteq> directory" "inode_of sb n x j = Ok ino" "b \<in> set (contents x ino)" for j ino b
    using view(3) inode_okD(7) [OF consistentD(1) [OF x(2) that(2)] that(3)] consistentD(2) [OF x(2) that(2) par(1) that(1)]
      dir_block_contents [OF sb pok(2) p(1), of x] that(3) by blast
  have "remove_effect sb n directory name x (removed sb directory parent ix index old x)"
    unfolding remove_effect_def using par found p(2,3) ix(2,3) ne leaf view(1,2,4,6) data
    by (intro exI [of _ parent] exI [of _ index] exI [of _ old] exI [of _ ix]) blast
  then show thesis using that [OF ix(1)] removed_consistent [OF sb x par p(1) ix(3) ne] by blast
qed

lemma remove_total:
  assumes sb: "sb_sound sb n" and x: "consistent sb n x"
    and empty_name: "\<forall>parent. name = [] \<longrightarrow> inode_of sb n x directory = Ok parent \<longrightarrow> ikind parent = Directory \<longrightarrow> isl (lookup_of sb n x parent name)"
  shows "ensures (idle sb n x) (remove directory name) (\<lambda>_. happened sb n (remove_effect sb n directory name x)) (kept sb n x (remove_effect sb n directory name x))"
proof (rule ensures_knowing [where A = "sized n x sb"])
  let ?eff = "remove_effect sb n directory name x"
  show "sized n x sb" if "idle sb n x v" for v by (rule idle_sized [OF sb that])
  assume sz: "sized n x sb"
  have dir: "dir_ok sb parent" if "inode_of sb n x directory = Ok parent" "ikind parent = Directory" for parent
    using consistentD(1) [OF x that(1)] inode_okD(5) that(2) by auto
  show "ensures (idle sb n x) (remove directory name) (\<lambda>_. happened sb n ?eff) (kept sb n x ?eff)"
  proof (cases "\<exists>parent index old. inode_of sb n x directory = Ok parent \<and> ikind parent = Directory \<and>
      lookup_of sb n x parent name = Ok (index, old) \<and> (ikind old = Directory \<longrightarrow> isize old = 0)")
    case True
    then obtain parent index old where c: "inode_of sb n x directory = Ok parent" "ikind parent = Directory"
      "lookup_of sb n x parent name = Ok (index, old)" "ikind old = Directory \<longrightarrow> isize old = 0" by blast
    have name: "name \<noteq> []" using empty_name c by auto
    obtain ix where ix: "place x parent name = Some ix" "?eff (removed sb directory parent ix index old x)"
      "consistent sb n (removed sb directory parent ix index old x)" by (rule removed_effect [OF sb sz x c name])
    have "inode_of sb n x index = Ok old" by (rule place_lookup [OF sb sz dir [OF c(1,2)] name c(3)])
    then have own: "owns_data sb x old" by (rule inode_okD(1) [OF consistentD(1) [OF x]])
    show ?thesis
      by (rule ensures_post [OF remove_step [OF sb c(1) dir [OF c(1,2)] name c(3) ix(1) c(4) own]])
        (use ix in \<open>auto simp: happened_def kept_def given_up_def broken_def dead_def\<close>)
  next
    case False
    have read: "ensures (idle sb n x) (vol_inode directory) (\<lambda>ino v. idle sb n x v \<and> inode_of sb n x directory = Ok ino) (kept sb n x ?eff)"
      by (rule ensures_post [OF vol_inode_step [OF sb]]) (auto simp: kept_def)
    have look: "ensures (idle sb n x) (vol_lookup directory name) (\<lambda>r v. idle sb n x v \<and> lookup_of sb n x parent name = Ok r) (kept sb n x ?eff)"
      if "inode_of sb n x directory = Ok parent" "ikind parent = Directory" for parent
      by (rule ensures_post [OF vol_lookup_step [OF sb that(1) dir [OF that]]]) (auto simp: kept_def)
    have body: "ensures (idle sb n x) (bind_act (vol_lookup directory name) (\<lambda>(index, old).
        if ikind old = Directory \<and> isize old \<noteq> 0 then fail WrongKind else remove_found directory name parent index old))
        (\<lambda>_. happened sb n ?eff) (kept sb n x ?eff)" if "inode_of sb n x directory = Ok parent" "ikind parent = Directory" for parent
      by (rule ensures_bind [OF look [OF that]], rule ensures_given) (use False that in \<open>auto simp: kept_def\<close>)
    show ?thesis unfolding remove_unfold
      by (rule ensures_bind [OF read], rule ensures_given) (use body in \<open>auto simp: kept_def\<close>)
  qed
qed

subsection \<open>Create\<close>

definition create_effect :: "superblock \<Rightarrow> nat \<Rightarrow> u32 \<Rightarrow> u8 list \<Rightarrow> kind \<Rightarrow> u32 \<Rightarrow> (nat \<Rightarrow> u8 list) \<Rightarrow> (nat \<Rightarrow> u8 list) \<Rightarrow> bool" where
  "create_effect sb n directory name k index x y \<longleftrightarrow> (\<exists>parent old fresh p.
    inode_of sb n x directory = Ok parent \<and> ikind parent = Directory \<and> good_name name \<and> isl (lookup_of sb n x parent name) \<and>
    inode_of sb n x index = Ok old \<and> ikind old = FreeInode \<and> fresh = chosen_block sb parent x \<and> p = larger (with_fresh fresh parent) \<and>
    (\<forall>j. inode_of sb n y j = (if j = index then Ok (new_inode k (generation old)) else if j = directory then Ok p else inode_of sb n x j)) \<and>
    dir_list y p = dir_list x parent @ [new_entry index name] \<and>
    (\<forall>j ino b. j \<noteq> directory \<longrightarrow> inode_of sb n x j = Ok ino \<longrightarrow> b \<in> set (contents x ino) \<longrightarrow> y b = x b) \<and>
    (\<forall>b < sb_blocks sb. block_used sb y b \<longleftrightarrow> block_used sb x b \<or> fresh = Some b) \<and> y 0 = x 0)"

lemma first_free_is_free:
  assumes "first_free_inode sb n x = Some i"
  obtains old where "inode_of sb n x (of_nat i) = Ok old" "ikind old = FreeInode"
  using find_in [OF assms [unfolded first_free_inode_def]] by (auto simp: is_free_def split: sum.splits)

lemma chosen_block_free: "chosen_block sb dir x = Some b \<Longrightarrow> \<not> block_used sb x b"
  by (auto simp: chosen_block_def first_free_block_def split: if_splits dest: find_in)

lemma created_effect:
  fixes k
  assumes sb: "sb_sound sb n" and x: "sized n x sb" "consistent sb n x"
    and par: "inode_of sb n x directory = Ok parent" "ikind parent = Directory" "entries parent < 10 * PER"
    and absent: "isl (lookup_of sb n x parent name)" and name: "good_name name" and free: "inode_of sb n x index = Ok old" "ikind old = FreeInode"
    and block: "entries parent mod PER = 0 \<longrightarrow> first_free_block sb x \<noteq> None"
  defines "y \<equiv> created sb directory parent name k index (generation old) (chosen_block sb parent x) x"
  shows "create_effect sb n directory name k index x y" "consistent sb n y"
proof -
  let ?fresh = "chosen_block sb parent x"
  have pok: "inode_ok sb x parent" "dir_ok sb parent" using consistentD(1) [OF x(2) par(1)] inode_okD(5) par(2) by auto
  have room: "entry_room sb ?fresh parent" by (rule chosen_room [OF sb pok(2) par(3) block])
  have fresh: "?fresh = None \<longleftrightarrow> entries parent mod PER \<noteq> 0" "\<forall>b. ?fresh = Some b \<longrightarrow> \<not> block_used sb x b"
    using block chosen_block_free by (auto simp: chosen_block_def)
  have ne: "index \<noteq> directory" using par free by auto
  note view = created_view [OF sb x(1) pok(2) inode_ok_apart [OF sb pok] room name fresh inode_of_range [OF par(1)] inode_of_range [OF free(1)] ne,
      where k = k and gen = "generation old", folded y_def]
  have own: "\<not> block_used sb x (entry_block ?fresh parent) \<or> entry_block ?fresh parent \<in> set (contents x parent)"
    using entry_block_own [OF sb pok(2) room fresh(1)] fresh(2) dir_block_contents [OF sb pok(2), where x = x] by metis
  have data: "y b = x b" if "j \<noteq> directory" "inode_of sb n x j = Ok ino" "b \<in> set (contents x ino)" for j ino b
  proof -
    note iok = consistentD(1) [OF x(2) that(2)]
    have "b \<noteq> entry_block ?fresh parent" using own inode_okD(3) [OF iok that(3)] consistentD(2) [OF x(2) that(2) par(1) that(1)] that(3) by auto
    then show ?thesis using view(3) inode_okD(7) [OF iok that(3)] by blast
  qed
  show "create_effect sb n directory name k index x y"
    unfolding create_effect_def using par absent name free view(1,2,4,6) data
    by (intro exI [of _ parent] exI [of _ old] exI [of _ ?fresh] exI [of _ "larger (with_fresh ?fresh parent)"]) blast
  show "consistent sb n y" unfolding y_def by (rule created_consistent [OF sb x par(1,2) room name fresh free])
qed

text \<open>A name with a slash or a zero is refused after the transaction has begun, and nothing has happened.\<close>

lemma create_entry_bad:
  assumes sb: "sb_sound sb n" and bad: "entry_new index name = Inl e" and H: "homes_ok sb H" "unat (direct parent ! (i div PER)) \<in> H" and Z: "too_big H = {}"
  shows "ensures (staging sb n H x z) (create_entry directory name k index gen i order parent) (\<lambda>_ _. False) (\<lambda>_ v. idle sb n x v)"
proof -
  let ?b = "unat (direct parent ! (i div PER))"
  have stage: "ensures (staging sb n H x z) (stage ?b) (\<lambda>_. idle sb n x) (\<lambda>_. idle sb n x)"
    by (rule ensures_post [OF stage_step [OF sb H]]) (auto simp: staging_idle undone_def)
  have "ensures (staging sb n H x z) (bind_act (bind_act (stage ?b) (\<lambda>slot. bind_act (of_result (entry_new index name)) (f slot))) h)
      (\<lambda>_ _. False) (\<lambda>_. idle sb n x)" for f :: "nat \<Rightarrow> dir_entry \<Rightarrow> (volume, unit) act" and h :: "unit \<Rightarrow> (volume, u32) act"
    unfolding bind_assoc bad by (rule ensures_bind [OF stage]) (simp add: ensures_def)
  note chain = this
  show ?thesis unfolding create_entry_def Let_def
    by (rule ensures_bind [where R = "\<lambda>_. staging sb n H x z"], simp, rule ensures_if, simp add: staging_idle, rule chain)
qed

lemma create_chosen_kept:
  assumes sb: "sb_sound sb n" and dir: "dir_ok sb parent" and i: "unat directory < sb_inodes sb" "unat index < sb_inodes sb"
    and no: "\<not> (entries parent < 10 * PER \<and> (entries parent mod PER = 0 \<longrightarrow> first_free_block sb x \<noteq> None) \<and> good_name name)"
    and e: "\<not> good_name name \<Longrightarrow> \<exists>e. entry_new index name = Inl e"
  shows "ensures (idle sb n x) (create_chosen directory name k order parent index gen) (\<lambda>_ _. False) (\<lambda>_ v. idle sb n x v \<or> dead sb n x v)"
proof -
  let ?E = "\<lambda>_ v. idle sb n x v \<or> dead sb n x v" and ?fresh = "chosen_block sb parent x"
  let ?H = "create_homes sb directory parent index ?fresh"
  have l: "length (direct parent) = 10" using dir by (simp add: dir_ok_def)
  have pick: "ensures (idle sb n x) (if entries parent mod PER = 0 then bind_act free_block (\<lambda>b. ret (Some b)) else ret None)
      (\<lambda>fresh v. idle sb n x v \<and> fresh = ?fresh \<and> (entries parent mod PER = 0 \<longrightarrow> first_free_block sb x \<noteq> None)) ?E"
  proof (rule ensures_if)
    assume m: "entries parent mod PER = 0"
    have "ensures (idle sb n x) free_block (\<lambda>b v. idle sb n x v \<and> first_free_block sb x = Some b) ?E"
      by (rule ensures_post [OF free_block_step [OF sb]]) auto
    then show "ensures (idle sb n x) (bind_act free_block (\<lambda>b. ret (Some b)))
        (\<lambda>fresh v. idle sb n x v \<and> fresh = ?fresh \<and> (entries parent mod PER = 0 \<longrightarrow> first_free_block sb x \<noteq> None)) ?E"
      by (rule ensures_bind) (simp add: chosen_block_def m)
  qed (simp add: chosen_block_def)
  have rest: "ensures (idle sb n x) (bind_act begin_transaction (\<lambda>_. bind_act (create_fresh parent ?fresh) (create_entry directory name k index gen (entries parent) order)))
      (\<lambda>_ _. False) ?E"
    if room: "entries parent div PER < 10" and block: "entries parent mod PER = 0 \<longrightarrow> first_free_block sb x \<noteq> None"
  proof -
    have small: "entries parent < 10 * PER" using room div_less_iff_less_mult [OF PER_pos] by blast
    then obtain er where bad: "entry_new index name = Inl er" using no block e by blast
    have er: "entry_room sb ?fresh parent" by (rule chosen_room [OF sb dir small block])
    have bg: "ensures (idle sb n x) begin_transaction (\<lambda>_. staging sb n ?H x x) ?E"
      by (rule ensures_post [OF begin_step [OF sb]]) (auto simp: undone_def)
    have fr: "ensures (staging sb n ?H x x) (create_fresh parent ?fresh) (\<lambda>p v. staging sb n ?H x (fresh_marked sb ?fresh x) v \<and> p = with_fresh ?fresh parent) ?E"
      by (rule ensures_post [OF create_fresh_step [OF sb er i, of x x]]) auto
    have en: "ensures (staging sb n ?H x z) (create_entry directory name k index gen (entries parent) order (with_fresh ?fresh parent)) (\<lambda>_ _. False) ?E" for z
      by (rule ensures_post [OF create_entry_bad [OF sb bad create_homes_ok [OF sb er i] _ create_homes_small]])
        (auto simp: create_homes_def entry_block_def dir_block_def)
    show ?thesis by (rule ensures_bind [OF bg], rule ensures_bind [OF fr], rule ensures_given) (use en in simp)
  qed
  show ?thesis unfolding create_chosen_def
  proof (rule ensures_if)
    assume "\<not> length (direct parent) \<le> entries parent div PER"
    then have room: "entries parent div PER < 10" using l by simp
    show "ensures (idle sb n x) (bind_act (if entries parent mod PER = 0 then bind_act free_block (\<lambda>b. ret (Some b)) else ret None) (\<lambda>fresh.
       bind_act begin_transaction (\<lambda>_. bind_act (create_fresh parent fresh) (create_entry directory name k index gen (entries parent) order)))) (\<lambda>_ _. False) ?E"
      by (rule ensures_bind [OF pick], rule ensures_given, elim conjE) (simp only: rest [OF room])
  qed simp
qed

lemma create_chosen_total:
  fixes k
  assumes sb: "sb_sound sb n" and x: "sized n x sb" "consistent sb n x" and par: "inode_of sb n x directory = Ok parent" "ikind parent = Directory"
    and absent: "isl (lookup_of sb n x parent name)" and name: "name \<noteq> []" "length name \<le> MAX_NAME"
    and free: "inode_of sb n x index = Ok old" "ikind old = FreeInode"
  shows "ensures (idle sb n x) (create_chosen directory name k [] parent index (generation old))
    (\<lambda>r v. happened sb n (create_effect sb n directory name k r x) v) (kept sb n x (create_effect sb n directory name k index x))"
proof -
  have dir: "dir_ok sb parent" using consistentD(1) [OF x(2) par(1)] inode_okD(5) par(2) by auto
  note i = inode_of_range [OF par(1)] inode_of_range [OF free(1)]
  show ?thesis
  proof (cases "entries parent < 10 * PER \<and> (entries parent mod PER = 0 \<longrightarrow> first_free_block sb x \<noteq> None) \<and> good_name name")
    case True
    then have c: "entries parent < 10 * PER" "entries parent mod PER = 0 \<longrightarrow> first_free_block sb x \<noteq> None" "good_name name" by auto
    note eff = created_effect [OF sb x par c(1) absent c(3) free c(2), where k = k]
    show ?thesis
      by (rule ensures_post [OF create_chosen_step [OF sb dir c(1,3,2) i, where k = k and gen = "generation old"]])
        (use eff in \<open>auto simp: happened_def kept_def\<close>)
  next
    case False
    have "\<exists>e. entry_new index name = Inl e" if "\<not> good_name name"
      using that name by (auto simp: entry_new_def good_name_def)
    then show ?thesis
      by (intro ensures_post [OF create_chosen_kept [OF sb dir i False]]) (auto simp: kept_def)
  qed
qed

lemma create_absent_total:
  fixes k
  assumes sb: "sb_sound sb n" and x: "sized n x sb" "consistent sb n x" and par: "inode_of sb n x directory = Ok parent" "ikind parent = Directory"
    and absent: "isl (lookup_of sb n x parent name)" and name: "name \<noteq> []" "length name \<le> MAX_NAME"
  shows "ensures (idle sb n x) (create_absent directory name k [] parent)
    (\<lambda>r v. happened sb n (create_effect sb n directory name k r x) v) (kept sb n x (\<lambda>y. \<exists>r. create_effect sb n directory name k r x y))"
proof -
  let ?Q = "\<lambda>r v. happened sb n (create_effect sb n directory name k r x) v" and ?E = "kept sb n x (\<lambda>y. \<exists>r. create_effect sb n directory name k r x y)"
  have l: "length (direct parent) = 10" by (rule inode_of_direct [OF par(1)])
  note stop = ensures_post [where Q' = "?Q" and E' = "?E"]
  have pick: "ensures (idle sb n x) free_inode (\<lambda>index v. idle sb n x v \<and> (\<exists>i. first_free_inode sb n x = Some i \<and> index = of_nat i) \<or> dead sb n x v) ?E"
    by (rule ensures_post [OF free_inode_step [OF sb]]) (auto simp: kept_def)
  have cut: "ensures (dead sb n x) (bind_act (attempt (vol_inode index)) (\<lambda>old.
      create_chosen directory name k [] parent index (case old of Inl _ \<Rightarrow> 0 | Inr o' \<Rightarrow> generation o'))) ?Q ?E" for index
    by (rule stop [OF ensures_bind [OF dead_step [OF ends_attempt [OF ends_vol_inode]] create_chosen_dead [OF l]]]) (auto simp: kept_def)
  have live: "ensures (idle sb n x) (bind_act (attempt (vol_inode index)) (\<lambda>old.
      create_chosen directory name k [] parent index (case old of Inl _ \<Rightarrow> 0 | Inr o' \<Rightarrow> generation o'))) ?Q ?E"
    if index: "\<exists>i. first_free_inode sb n x = Some i \<and> index = of_nat i" for index
  proof -
    obtain old where free: "inode_of sb n x index = Ok old" "ikind old = FreeInode" using index first_free_is_free by metis
    have gen: "ensures (idle sb n x) (attempt (vol_inode index)) (\<lambda>r v. idle sb n x v \<and> r = Ok old \<or> dead sb n x v) ?E"
      by (rule ensures_post [OF try_inode [OF sb]]) (use free in auto)
    have chosen: "ensures (idle sb n x) (create_chosen directory name k [] parent index (generation old)) ?Q ?E"
      by (rule stop [OF create_chosen_total [OF sb x par absent name free]]) (auto simp: kept_def)
    have dead: "ensures (dead sb n x) (create_chosen directory name k [] parent index g) ?Q ?E" for g
      by (rule stop [OF create_chosen_dead [OF l]]) (auto simp: kept_def)
    show ?thesis by (rule ensures_bind [OF gen], rule ensures_either [OF ensures_given dead]) (use chosen in simp)
  qed
  show ?thesis unfolding create_absent_def
    by (rule ensures_bind [OF pick], rule ensures_either [OF ensures_given cut]) (rule live)
qed

lemma create_total:
  fixes k
  assumes sb: "sb_sound sb n" and x: "consistent sb n x"
  shows "ensures (idle sb n x) (create directory name k)
    (\<lambda>r v. happened sb n (create_effect sb n directory name k r x) v) (kept sb n x (\<lambda>y. \<exists>r. create_effect sb n directory name k r x y))"
proof (rule ensures_knowing [where A = "sized n x sb"])
  let ?Q = "\<lambda>r v. happened sb n (create_effect sb n directory name k r x) v" and ?E = "kept sb n x (\<lambda>y. \<exists>r. create_effect sb n directory name k r x y)"
  show "sized n x sb" if "idle sb n x v" for v by (rule idle_sized [OF sb that])
  assume sz: "sized n x sb"
  have read: "ensures (idle sb n x) (vol_inode directory) (\<lambda>ino v. idle sb n x v \<and> inode_of sb n x directory = Ok ino) ?E"
    by (rule ensures_post [OF vol_inode_step [OF sb]]) (auto simp: kept_def)
  have body: "ensures (idle sb n x) (bind_act (attempt (vol_lookup directory name)) (\<lambda>found. if \<not> isl found then fail BadName else create_absent directory name k [] parent)) ?Q ?E"
    if par: "inode_of sb n x directory = Ok parent" "ikind parent = Directory" and name: "name \<noteq> []" "length name \<le> MAX_NAME" for parent
  proof -
    have dir: "dir_ok sb parent" using consistentD(1) [OF x par(1)] inode_okD(5) par(2) by auto
    have look: "ensures (idle sb n x) (attempt (vol_lookup directory name)) (\<lambda>r v. idle sb n x v \<and> (isl r \<longrightarrow> isl (lookup_of sb n x parent name)) \<or> dead sb n x v) ?E"
      unfolding ensures_attempt by (rule ensures_post [OF vol_lookup_step [OF sb par(1) dir]]) (auto intro: idle_dead [OF sb])
    have stop: "ensures (dead sb n x) (if \<not> isl found then fail BadName else create_absent directory name k [] parent) ?Q ?E" for found
      by (rule ensures_if, simp add: kept_def, rule ensures_post [OF create_absent_dead [OF inode_of_direct [OF par(1)]]]) (auto simp: kept_def)
    show ?thesis
      by (rule ensures_bind [OF look], rule ensures_either [OF ensures_given stop], rule ensures_if)
        (simp add: kept_def, rule create_absent_total [OF sb sz x par _ name], simp)
  qed
  show "ensures (idle sb n x) (create directory name k) ?Q ?E"
    unfolding create_def create_unfold
  proof (intro ensures_if)
    assume n: "\<not> (name = [] \<or> MAX_NAME < length name)"
    show "ensures (idle sb n x) (bind_act (vol_inode directory) (\<lambda>parent. if ikind parent \<noteq> Directory then fail WrongKind else
         bind_act (attempt (vol_lookup directory name)) (\<lambda>found. if \<not> isl found then fail BadName else create_absent directory name k [] parent))) ?Q ?E"
      by (rule ensures_bind [OF read], rule ensures_given, rule ensures_if, simp add: kept_def, rule body) (use n in auto)
  qed (simp_all add: kept_def)
qed

end
