(* ===== verification/FsTree.thy ===== *)
theory FsTree
  imports FsOps
begin

text \<open>
  The directory tree: every entry names a live inode, every live inode but the root is named exactly
  once, and no directory has a name twice. The operations keep it.
\<close>

definition entry_of :: "superblock \<Rightarrow> nat \<Rightarrow> (nat \<Rightarrow> u8 list) \<Rightarrow> u32 \<Rightarrow> nat \<Rightarrow> dir_entry \<Rightarrow> bool" where
  "entry_of sb n x j i e \<longleftrightarrow> (\<exists>dir. inode_of sb n x j = Ok dir \<and> ikind dir = Directory \<and> i < entries dir \<and> e = dir_list x dir ! i)"

definition tree :: "superblock \<Rightarrow> nat \<Rightarrow> (nat \<Rightarrow> u8 list) \<Rightarrow> bool" where
  "tree sb n x \<longleftrightarrow>
    (\<exists>r. inode_of sb n x (root sb) = Ok r \<and> ikind r = Directory) \<and>
    (\<forall>j i e. entry_of sb n x j i e \<longrightarrow> entry_name e \<noteq> [] \<and> e_inode e \<noteq> root sb \<and>
       (\<exists>ino. inode_of sb n x (e_inode e) = Ok ino \<and> ikind ino \<noteq> FreeInode)) \<and>
    (\<forall>j i i' e e'. entry_of sb n x j i e \<longrightarrow> entry_of sb n x j i' e' \<longrightarrow> entry_name e = entry_name e' \<longrightarrow> i = i') \<and>
    (\<forall>j i j' i' e e'. entry_of sb n x j i e \<longrightarrow> entry_of sb n x j' i' e' \<longrightarrow> e_inode e = e_inode e' \<longrightarrow> j = j' \<and> i = i') \<and>
    (\<forall>j ino. inode_of sb n x j = Ok ino \<longrightarrow> ikind ino \<noteq> FreeInode \<longrightarrow> j \<noteq> root sb \<longrightarrow> (\<exists>j' i e. entry_of sb n x j' i e \<and> e_inode e = j))"

lemma treeD:
  assumes "tree sb n x"
  shows "\<exists>r. inode_of sb n x (root sb) = Ok r \<and> ikind r = Directory"
    "entry_of sb n x j i e \<Longrightarrow> entry_name e \<noteq> [] \<and> e_inode e \<noteq> root sb \<and> (\<exists>ino. inode_of sb n x (e_inode e) = Ok ino \<and> ikind ino \<noteq> FreeInode)"
    "entry_of sb n x j i e \<Longrightarrow> entry_of sb n x j i' e' \<Longrightarrow> entry_name e = entry_name e' \<Longrightarrow> i = i'"
    "entry_of sb n x j i e \<Longrightarrow> entry_of sb n x j' i' e' \<Longrightarrow> e_inode e = e_inode e' \<Longrightarrow> j = j' \<and> i = i'"
    "inode_of sb n x j = Ok ino \<Longrightarrow> ikind ino \<noteq> FreeInode \<Longrightarrow> j \<noteq> root sb \<Longrightarrow> \<exists>j' i e. entry_of sb n x j' i e \<and> e_inode e = j"
  using assms unfolding tree_def by blast+

lemma dir_list_cong: "(\<And>i. i < entries dir \<Longrightarrow> y (dir_block dir i) = x (dir_block dir i)) \<Longrightarrow> dir_list y dir = dir_list x dir"
  by (simp add: dir_list_def)

text \<open>A directory whose blocks stay has the same entries.\<close>

lemma entry_of_kept:
  assumes sb: "sb_sound sb n" and x: "consistent sb n x" and same: "inode_of sb n y j = inode_of sb n x j"
    and data: "\<And>ino b. inode_of sb n x j = Ok ino \<Longrightarrow> b \<in> set (contents x ino) \<Longrightarrow> y b = x b"
  shows "entry_of sb n y j i e \<longleftrightarrow> entry_of sb n x j i e"
proof -
  have "dir_list y dir = dir_list x dir" if "inode_of sb n x j = Ok dir" "ikind dir = Directory" for dir
  proof (rule dir_list_cong)
    fix i assume "i < entries dir"
    from dir_block_contents [OF sb inode_okD(5) [OF consistentD(1) [OF x that(1)] that(2)] this, of x] show "y (dir_block dir i) = x (dir_block dir i)" by (rule data [OF that(1)])
  qed
  then show ?thesis unfolding entry_of_def same by (intro ex_cong1 conj_cong refl) simp
qed

text \<open>Entries that only moved within their directory.\<close>

lemma tree_moved:
  assumes tr: "tree sb n x" and root: "\<exists>r. inode_of sb n y (root sb) = Ok r \<and> ikind r = Directory"
    and prev: "\<And>j i e. entry_of sb n y j i e \<Longrightarrow> entry_of sb n x j (f j i) e"
    and inj: "\<And>j i i' e e'. entry_of sb n y j i e \<Longrightarrow> entry_of sb n y j i' e' \<Longrightarrow> f j i = f j i' \<Longrightarrow> i = i'"
    and alive: "\<And>j i e. entry_of sb n y j i e \<Longrightarrow> \<exists>ino. inode_of sb n y (e_inode e) = Ok ino \<and> ikind ino \<noteq> FreeInode"
    and named: "\<And>j ino. inode_of sb n y j = Ok ino \<Longrightarrow> ikind ino \<noteq> FreeInode \<Longrightarrow> j \<noteq> root sb \<Longrightarrow> \<exists>j' i e. entry_of sb n y j' i e \<and> e_inode e = j"
  shows "tree sb n y"
proof -
  have "entry_name e \<noteq> [] \<and> e_inode e \<noteq> root sb" if "entry_of sb n y j i e" for j i e using treeD(2) [OF tr prev [OF that]] by blast
  moreover have "i = i'" if "entry_of sb n y j i e" "entry_of sb n y j i' e'" "entry_name e = entry_name e'" for j i i' e e'
    using inj [OF that(1,2)] treeD(3) [OF tr prev [OF that(1)] prev [OF that(2)] that(3)] by blast
  moreover have "j = j' \<and> i = i'" if "entry_of sb n y j i e" "entry_of sb n y j' i' e'" "e_inode e = e_inode e'" for j i j' i' e e'
  proof -
    have "j = j' \<and> f j i = f j' i'" by (rule treeD(4) [OF tr prev [OF that(1)] prev [OF that(2)] that(3)])
    then show ?thesis using inj [OF that(1), of i' e'] that(2) by blast
  qed
  ultimately show ?thesis unfolding tree_def using root alive named by blast
qed

lemma truncate_tree:
  assumes sb: "sb_sound sb n" and x: "consistent sb n x" and tr: "tree sb n x" and eff: "truncate_effect sb n index x y"
  shows "tree sb n y"
proof -
  obtain old new where o: "inode_of sb n x index = Ok old" "ikind old = File" "ikind new = File"
    and all: "\<forall>j. inode_of sb n y j = (if j = index then Ok new else inode_of sb n x j)" and data: "\<forall>b. data_start sb \<le> b \<longrightarrow> y b = x b"
    using eff unfolding truncate_effect_def by blast
  have e: "entry_of sb n y j i e \<longleftrightarrow> entry_of sb n x j i e" for j i e
  proof (cases "j = index")
    case False
    show ?thesis by (rule entry_of_kept [OF sb x]) (use all data False inode_okD(7) [OF consistentD(1) [OF x]] in auto)
  qed (use o all in \<open>auto simp: entry_of_def\<close>)
  have k: "(\<exists>ino. inode_of sb n y j = Ok ino \<and> P (ikind ino)) \<longleftrightarrow> (\<exists>ino. inode_of sb n x j = Ok ino \<and> P (ikind ino))" for j P
    using all o by auto
  show ?thesis
  proof (rule tree_moved [OF tr, where f = "\<lambda>j i. i"])
    show "\<exists>r. inode_of sb n y (root sb) = Ok r \<and> ikind r = Directory" using treeD(1) [OF tr] k [of "root sb" "\<lambda>q. q = Directory"] by blast
    show "\<exists>ino. inode_of sb n y (e_inode d) = Ok ino \<and> ikind ino \<noteq> FreeInode" if "entry_of sb n y j i d" for j i d
      using that treeD(2) [OF tr] k [of "e_inode d" "\<lambda>q. q \<noteq> FreeInode"] unfolding e by blast
    show "\<exists>j' i d. entry_of sb n y j' i d \<and> e_inode d = j" if "inode_of sb n y j = Ok ino" "ikind ino \<noteq> FreeInode" "j \<noteq> root sb" for j ino
      using that treeD(5) [OF tr] k [of j "\<lambda>q. q \<noteq> FreeInode"] unfolding e by blast
  qed (simp_all add: e)
qed

lemma remove_tree:
  assumes sb: "sb_sound sb n" and x: "consistent sb n x" and tr: "tree sb n x" and eff: "remove_effect sb n directory name x y"
  shows "tree sb n y"
proof -
  obtain parent index old ix where p: "inode_of sb n x directory = Ok parent" "ikind parent = Directory"
    and o: "inode_of sb n x index = Ok old" "index \<noteq> directory" "ikind old = Directory \<longrightarrow> isize old = 0"
    and ix: "ix < entries parent" "e_inode (dir_list x parent ! ix) = index"
    and all: "\<forall>j. inode_of sb n y j = (if j = index then Ok (free_inode_value\<lparr>generation := generation old\<rparr>)
       else if j = directory then Ok (smaller parent) else inode_of sb n x j)"
    and list: "dir_list y (smaller parent) = butlast ((dir_list x parent)[ix := last (dir_list x parent)])"
    and data: "\<forall>j ino b. j \<noteq> directory \<longrightarrow> inode_of sb n x j = Ok ino \<longrightarrow> b \<in> set (contents x ino) \<longrightarrow> y b = x b"
    using eff unfolding remove_effect_def length_dir_list by blast
  let ?m = "entries parent - 1" and ?f = "\<lambda>j i. if j = directory \<and> i = ix then entries parent - 1 else i"
  have m: "entries (smaller parent) = ?m" using entries_smaller [of parent] ix(1) by simp
  have here: "dir_list y (smaller parent) ! i = dir_list x parent ! (if i = ix then ?m else i)" if "i < ?m" for i
    using that ix(1) unfolding list by (simp add: nth_butlast nth_list_update last_conv_nth flip: length_0_conv)
  have xat: "entry_of sb n x directory i (dir_list x parent ! i)" if "i < entries parent" for i using that p by (auto simp: entry_of_def)
  have eq: "entry_of sb n y j i e \<longleftrightarrow> (if j = index then False else if j = directory then i < ?m \<and> e = dir_list x parent ! ?f j i else entry_of sb n x j i e)" for j i e
  proof (cases "j = index \<or> j = directory")
    case True
    then show ?thesis using all o(2) p(2) here [of i] m by (auto simp: entry_of_def free_inode_value_def)
  next
    case False
    have "entry_of sb n y j i e \<longleftrightarrow> entry_of sb n x j i e" by (rule entry_of_kept [OF sb x]) (use all data False in auto)
    then show ?thesis using False by simp
  qed
  have prev: "entry_of sb n x j (?f j i) e" if "entry_of sb n y j i e" for j i e
    using that eq [of j i e] xat [of "?f j i"] by (auto split: if_splits)
  have other: "e_inode e \<noteq> index" if "entry_of sb n y j i e" for j i e
  proof
    assume "e_inode e = index"
    then have "j = directory \<and> ?f j i = ix" by (intro treeD(4) [OF tr prev [OF that] xat [OF ix(1)]]) (simp add: ix(2))
    then show False using that eq [of j i e] ix(1) o(2) by (auto split: if_splits)
  qed
  have k: "\<exists>ino'. inode_of sb n y j = Ok ino' \<and> ikind ino' = ikind ino" if "inode_of sb n x j = Ok ino" "j \<noteq> index" for j ino
    using all that p(1) by auto
  show ?thesis
  proof (rule tree_moved [OF tr, where f = ?f])
    show "\<exists>r. inode_of sb n y (root sb) = Ok r \<and> ikind r = Directory"
      using treeD(1) [OF tr] treeD(2) [OF tr xat [OF ix(1)]] k [of "root sb"] ix(2) by metis
    show "i = i'" if "entry_of sb n y j i e" "entry_of sb n y j i' e'" "?f j i = ?f j i'" for j i i' e e'
      using that eq [of j i e] eq [of j i' e'] by (auto split: if_splits)
    show "\<exists>ino. inode_of sb n y (e_inode e) = Ok ino \<and> ikind ino \<noteq> FreeInode" if "entry_of sb n y j i e" for j i e
      using treeD(2) [OF tr prev [OF that]] other [OF that] k by metis
    show "\<exists>j' i e. entry_of sb n y j' i e \<and> e_inode e = j" if "inode_of sb n y j = Ok ino" "ikind ino \<noteq> FreeInode" "j \<noteq> root sb" for j ino
    proof -
      have ni: "j \<noteq> index" using that all by (auto simp: free_inode_value_def)
      have "\<exists>ino'. inode_of sb n x j = Ok ino' \<and> ikind ino' \<noteq> FreeInode" using ni that(1,2) all p by (auto split: if_splits)
      then have "\<exists>j' i e. entry_of sb n x j' i e \<and> e_inode e = j" using treeD(5) [OF tr] that(3) by blast
      then obtain j' i e where e: "entry_of sb n x j' i e" "e_inode e = j" by blast
      have "j' \<noteq> index" using e(1) o(1,3) by (auto simp: entry_of_def entries_def)
      moreover have "\<not> (j' = directory \<and> i = ix)" using e ix(2) ni p(1) by (auto simp: entry_of_def)
      moreover have "j' = directory \<Longrightarrow> i < entries parent \<and> e = dir_list x parent ! i" using e(1) p(1) by (auto simp: entry_of_def)
      ultimately have "entry_of sb n y j' (if j' = directory \<and> i = ?m then ix else i) e" using eq [of j' "if j' = directory \<and> i = ?m then ix else i" e] e(1) ix(1) by auto
      then show ?thesis using e(2) by blast
    qed
  qed (rule prev)
qed

lemma name_absent:
  assumes sb: "sb_sound sb n" and sz: "sized n x sb" and x: "consistent sb n x" and tr: "tree sb n x"
    and p: "inode_of sb n x j = Ok parent" "ikind parent = Directory" and none: "isl (lookup_of sb n x parent name)"
  shows "entry_of sb n x j i e \<Longrightarrow> entry_name e \<noteq> name"
proof
  assume e: "entry_of sb n x j i e" "entry_name e = name"
  have dir: "dir_ok sb parent" using consistentD(1) [OF x p(1)] inode_okD(5) p(2) by auto
  have "e \<in> set (dir_list x parent)" using e(1) p(1) by (auto simp: entry_of_def)
  moreover have "live e" using treeD(2) [OF tr e(1)] by (auto simp: live_def entry_name_def)
  ultimately obtain d where d: "find (\<lambda>e. entry_name e = name) (filter live (dir_list x parent)) = Some d"
    using e(2) by (cases "find (\<lambda>e. entry_name e = name) (filter live (dir_list x parent))") (auto simp: find_None_iff)
  then have "d \<in> set (dir_list x parent)" using find_in [OF d] by simp
  then obtain k where "entry_of sb n x j k d" using p by (auto simp: entry_of_def in_set_conv_nth)
  from treeD(2) [OF tr this] show False using none d unfolding lookup_of_eq [OF sb sz dir] by auto
qed

lemma create_tree:
  fixes k
  assumes sb: "sb_sound sb n" and sz: "sized n x sb" and x: "consistent sb n x" and tr: "tree sb n x"
    and eff: "create_effect sb n directory name k index x y" and k: "k \<noteq> FreeInode"
  shows "tree sb n y"
proof -
  obtain parent old p where par: "inode_of sb n x directory = Ok parent" "ikind parent = Directory" and name: "good_name name"
    and none: "isl (lookup_of sb n x parent name)" and o: "inode_of sb n x index = Ok old" "ikind old = FreeInode"
    and pe: "p = larger (with_fresh (chosen_block sb parent x) parent)"
    and all: "\<forall>j. inode_of sb n y j = (if j = index then Ok (new_inode k (generation old)) else if j = directory then Ok p else inode_of sb n x j)"
    and list: "dir_list y p = dir_list x parent @ [new_entry index name]"
    and data: "\<forall>j ino b. j \<noteq> directory \<longrightarrow> inode_of sb n x j = Ok ino \<longrightarrow> b \<in> set (contents x ino) \<longrightarrow> y b = x b"
    using eff unfolding create_effect_def by blast
  have pk: "ikind p = Directory" using par(2) by (simp add: pe larger_def with_fresh_def with_block_def split: option.split)
  have ne: "index \<noteq> directory" using o par by auto
  let ?m = "entries parent"
  have m: "entries p = Suc ?m" using arg_cong [OF list, of length] by simp
  have eq: "entry_of sb n y j i e \<longleftrightarrow> j = directory \<and> i = ?m \<and> e = new_entry index name \<or> entry_of sb n x j i e" for j i e
  proof (cases "j = index \<or> j = directory")
    case True
    then show ?thesis using all o par pk ne m by (auto simp: entry_of_def new_inode_def entries_def list nth_append less_Suc_eq)
  next
    case False
    have "entry_of sb n y j i e \<longleftrightarrow> entry_of sb n x j i e" by (rule entry_of_kept [OF sb x]) (use all data False in auto)
    then show ?thesis using False by simp
  qed
  have nm: "entry_name (new_entry index name) = name" "e_inode (new_entry index name) = index"
    using name by (auto simp: entry_name_def new_entry_def good_name_def MAX_NAME_def unat_of_nat)
  have old: "e_inode e \<noteq> index" "e_inode e \<noteq> root sb" "entry_name e \<noteq> []" if "entry_of sb n x j i e" for j i e
    using treeD(2) [OF tr that] o by auto
  have absent: "entry_of sb n x directory i e \<Longrightarrow> entry_name e \<noteq> name" for i e by (rule name_absent [OF sb sz x tr par none])
  have bound: "\<not> entry_of sb n x directory ?m e" for e using par by (auto simp: entry_of_def)
  have alive: "(\<exists>ino. inode_of sb n y j = Ok ino \<and> ikind ino \<noteq> FreeInode) \<longleftrightarrow> j = index \<or> (\<exists>ino. inode_of sb n x j = Ok ino \<and> ikind ino \<noteq> FreeInode)" for j
    using all par pk k by (auto simp: new_inode_def)
  have root: "\<exists>r. inode_of sb n y (root sb) = Ok r \<and> ikind r = Directory" "index \<noteq> root sb" using treeD(1) [OF tr] all o pk by auto
  have "\<exists>j' i e. entry_of sb n y j' i e \<and> e_inode e = j" if "inode_of sb n y j = Ok ino" "ikind ino \<noteq> FreeInode" "j \<noteq> root sb" for j ino
    using alive [of j] that treeD(5) [OF tr, of j] nm(2) unfolding eq by blast
  moreover have "entry_name e \<noteq> [] \<and> e_inode e \<noteq> root sb \<and> (\<exists>ino. inode_of sb n y (e_inode e) = Ok ino \<and> ikind ino \<noteq> FreeInode)" if "entry_of sb n y j i e" for j i e
    using that treeD(2) [OF tr, of j i e] nm root(2) name unfolding eq alive by (auto simp: good_name_def)
  moreover have "i = i'" if "entry_of sb n y j i e" "entry_of sb n y j i' e'" "entry_name e = entry_name e'" for j i i' e e'
    using that treeD(3) [OF tr, of j i e i' e'] absent nm(1) unfolding eq by metis
  moreover have "j = j' \<and> i = i'" if "entry_of sb n y j i e" "entry_of sb n y j' i' e'" "e_inode e = e_inode e'" for j i j' i' e e'
    using that treeD(4) [OF tr, of j i e j' i' e'] old nm(2) unfolding eq by metis
  ultimately show ?thesis unfolding tree_def using root(1) by blast
qed

subsection \<open>The operations\<close>

definition wellformed :: "superblock \<Rightarrow> nat \<Rightarrow> (nat \<Rightarrow> u8 list) \<Rightarrow> bool" where
  "wellformed sb n x \<longleftrightarrow> consistent sb n x \<and> tree sb n x \<and> read_head (x 0) n = Ok sb"

text \<open>
  The filesystem an operation leaves: the new one, the old one, or, on a device that stopped, what the
  device holds.
\<close>

definition leaves :: "superblock \<Rightarrow> nat \<Rightarrow> (nat \<Rightarrow> u8 list) \<Rightarrow> ('a \<Rightarrow> (nat \<Rightarrow> u8 list) \<Rightarrow> bool) \<Rightarrow> (fs_error, 'a) result \<Rightarrow> volume \<Rightarrow> bool" where
  "leaves sb n x eff r w \<longleftrightarrow>
    (case r of
       Inr a \<Rightarrow> \<exists>y. eff a y \<and> wellformed sb n y \<and> idle sb n y w
     | Inl e \<Rightarrow> idle sb n x w \<or> dead sb n x w \<or> (\<exists>a y. eff a y \<and> wellformed sb n y \<and> dead sb n y w))"

lemma leavesI:
  assumes total: "ensures (idle sb n x) act (\<lambda>a. happened sb n (eff a)) (kept sb n x (\<lambda>y. \<exists>a. eff a y))"
    and keeps: "\<And>a y. eff a y \<Longrightarrow> consistent sb n y \<Longrightarrow> wellformed sb n y" and v: "idle sb n x v" "act v = (r, w)"
  shows "leaves sb n x eff r w"
proof (cases r)
  case (Inr a)
  then show ?thesis using ensures_ok [OF total v(1)] v(2) keeps by (auto simp: leaves_def happened_def)
next
  case (Inl e)
  then have "kept sb n x (\<lambda>y. \<exists>a. eff a y) e w" using ensures_error [OF total v(1)] v(2) by auto
  then show ?thesis using keeps Inl unfolding kept_def leaves_def by auto
qed

lemma truncate_leaves:
  assumes sb: "sb_sound sb n" and x: "wellformed sb n x" and v: "idle sb n x v" "truncate index v = (r, w)"
  shows "leaves sb n x (\<lambda>_. truncate_effect sb n index x) r w"
proof (rule leavesI [where act = "truncate index", OF _ _ v])
  show "ensures (idle sb n x) (truncate index) (\<lambda>_. happened sb n (truncate_effect sb n index x)) (kept sb n x (\<lambda>y. \<exists>_. truncate_effect sb n index x y))"
    using truncate_total [OF sb, of x index] x by (simp add: wellformed_def)
  show "wellformed sb n y" if "truncate_effect sb n index x y" "consistent sb n y" for y
    using truncate_tree [OF sb _ _ that(1)] that x by (auto simp: wellformed_def truncate_effect_def)
qed

lemma remove_leaves:
  assumes sb: "sb_sound sb n" and x: "wellformed sb n x" and v: "idle sb n x v" "remove directory name v = (r, w)"
  shows "leaves sb n x (\<lambda>_. remove_effect sb n directory name x) r w"
proof (rule leavesI [where act = "remove directory name", OF _ _ v])
  have x': "consistent sb n x" "tree sb n x" using x by (simp_all add: wellformed_def)
  have "isl (lookup_of sb n x parent [])" if "inode_of sb n x directory = Ok parent" "ikind parent = Directory" for parent
  proof -
    have dir: "dir_ok sb parent" using consistentD(1) [OF x'(1) that(1)] inode_okD(5) that(2) by auto
    have "entry_of sb n x directory i (dir_list x parent ! i)" if "i < entries parent" for i using that \<open>inode_of sb n x directory = Ok parent\<close> \<open>ikind parent = Directory\<close> by (auto simp: entry_of_def)
    then have "entry_name e \<noteq> []" if "e \<in> set (dir_list x parent)" for e using that treeD(2) [OF x'(2)] by (auto simp: in_set_conv_nth)
    then have "find (\<lambda>e. entry_name e = []) (filter live (dir_list x parent)) = None" by (auto simp: find_None_iff)
    then show ?thesis unfolding lookup_of_eq [OF sb idle_sized [OF sb v(1)] dir] by simp
  qed
  then show "ensures (idle sb n x) (remove directory name) (\<lambda>_. happened sb n (remove_effect sb n directory name x)) (kept sb n x (\<lambda>y. \<exists>_. remove_effect sb n directory name x y))"
    using remove_total [OF sb x'(1), of name directory] by simp
  show "wellformed sb n y" if "remove_effect sb n directory name x y" "consistent sb n y" for y
    using remove_tree [OF sb x' that(1)] that x by (auto simp: wellformed_def remove_effect_def)
qed

lemma create_leaves:
  fixes k
  assumes sb: "sb_sound sb n" and x: "wellformed sb n x" and v: "idle sb n x v" "create directory name k v = (r, w)"
  shows "leaves sb n x (\<lambda>index. create_effect sb n directory name k index x) r w"
proof (cases "k = FreeInode")
  case True
  then have "isl r \<and> w = v" using v(2) by (auto simp: create_def create_ordered_def fail_def split: if_splits)
  then show ?thesis using v(1) by (auto simp: leaves_def isl_def)
next
  case False
  have x': "consistent sb n x" "tree sb n x" using x by (simp_all add: wellformed_def)
  show ?thesis
  proof (rule leavesI [where act = "create directory name k", OF create_total [OF sb x'(1)] _ v])
    show "wellformed sb n y" if "create_effect sb n directory name k index x y" "consistent sb n y" for index y
      using create_tree [OF sb idle_sized [OF sb v(1)] x' that(1) False] that x by (auto simp: wellformed_def create_effect_def)
  qed
qed

end
