(* ===== verification/FsProps.thy ===== *)
theory FsProps
  imports FsTree FsFresh
begin

text \<open>
  What the volume of \<^verbatim>\<open>src/fs/src/volume.rs\<close> promises: an operation happens as a whole or not at all,
  whatever the moment the device stops, and over any sequence of operations, interruptions and mounts
  the filesystem stays consistent.
\<close>

subsection \<open>All or nothing\<close>

text \<open>
  The outcome \<open>r\<close>, \<open>w\<close> of an operation on the filesystem \<open>x\<close> that was to change it as \<open>eff\<close> says, with
  its result. When the device stopped, every later mount finds the same filesystem: the one from
  before, or one the operation was to make.
\<close>

definition all_or_nothing :: "superblock \<Rightarrow> nat \<Rightarrow> (nat \<Rightarrow> u8 list) \<Rightarrow> ('a \<Rightarrow> (nat \<Rightarrow> u8 list) \<Rightarrow> bool) \<Rightarrow> (fs_error, 'a) result \<Rightarrow> volume \<Rightarrow> bool" where
  "all_or_nothing sb n x eff r w \<longleftrightarrow>
    (case r of
       Inr a \<Rightarrow> \<exists>y. eff a y \<and> wellformed sb n y \<and> idle sb n y w
     | Inl e \<Rightarrow> idle sb n x w \<or>
         halted w \<and> (\<exists>y. (y = x \<or> (\<exists>a. eff a y)) \<and> wellformed sb n y \<and> (\<forall>u. restarted n (dev w) u \<longrightarrow> idle sb n y u)))"

lemma dead_restarts:
  assumes "sb_sound sb n" "wellformed sb n x" "dead sb n x w" "restarted n (dev w) u"
  shows "idle sb n x u"
  using restarted_holds [OF assms(4,1)] assms(2,3) by (simp add: holds_def dead_def crashed_def wellformed_def)

lemma all_or_nothingI:
  assumes sb: "sb_sound sb n" and x: "wellformed sb n x" and l: "leaves sb n x eff r w"
  shows "all_or_nothing sb n x eff r w"
proof (cases r)
  case (Inr a)
  then show ?thesis using l by (auto simp: all_or_nothing_def leaves_def)
next
  case (Inl e)
  have "halted w \<and> (\<forall>u. restarted n (dev w) u \<longrightarrow> idle sb n y u)" if "dead sb n y w" "wellformed sb n y" for y
    using dead_restarts [OF sb that(2,1)] that(1) by (simp add: dead_def)
  then show ?thesis using l x unfolding Inl leaves_def all_or_nothing_def by auto
qed

subsection \<open>A fresh filesystem\<close>

lemma fresh_consistent:
  assumes F: "fresh_on inodes blocks n k sb d"
  shows "consistent sb n d"
proof -
  have e: "direct ino = replicate 10 0 \<and> indirect ino = 0 \<and> isize ino = 0" if i: "inode_of sb n d j = Ok ino" for j ino
  proof -
    have "unat j < inodes" using inode_of_range [OF i] layout(5) [OF F] by simp
    from inodes_read [OF F this] i show ?thesis by (auto simp: fresh_root_def free_inode_value_def split: if_splits)
  qed
  then have "contents d ino = []" if "inode_of sb n d j = Ok ino" for j ino using that contents_none by blast
  then show ?thesis using e inode_ok_empty by (auto simp: consistent_def)
qed

lemma fresh_wellformed:
  assumes F: "fresh_on inodes blocks n k sb d"
  shows "wellformed sb n d"
proof -
  have r: "inode_of sb n d (root sb) = Ok fresh_root" using inodes_read [OF F, of 0] fresh_onD(1) [OF F] layout(9) [OF F] by simp
  have i: "ino = (if j = root sb then fresh_root else free_inode_value)" if "inode_of sb n d j = Ok ino" for j ino
    using inodes_read [OF F, of j] inode_of_range [OF that] that layout(5,9) [OF F] by (auto split: if_splits)
  have none: "\<not> entry_of sb n d j i e" for j i e
    using i [of j] by (auto simp: entry_of_def fresh_root_def free_inode_value_def entries_def split: if_splits)
  have alone: "j = root sb" if "inode_of sb n d j = Ok ino" "ikind ino \<noteq> FreeInode" for j ino
    using i [OF that(1)] that(2) by (simp add: free_inode_value_def split: if_splits)
  have "\<exists>r. inode_of sb n d (root sb) = Ok r \<and> ikind r = Directory" using r by (simp add: fresh_root_def)
  then have "tree sb n d" unfolding tree_def using none alone by blast
  then show ?thesis using fresh_consistent [OF F] head_read [OF F] by (simp add: wellformed_def)
qed

text \<open>The blocks of a device of \<open>n\<close> blocks that \<open>format_sized\<close> laid out.\<close>

definition fresh_blocks :: "superblock \<Rightarrow> nat \<Rightarrow> nat \<Rightarrow> u8 list" where
  "fresh_blocks sb n b = (if b < n then block_at (fresh_image sb (n * BLOCK)) b else [])"

lemma fresh_blocks_on:
  assumes "0 < inodes" "inodes < 2 ^ 64" "data_start (format_layout inodes blocks) < blocks" "blocks \<le> n" "n < 2 ^ 32"
  shows "fresh_on inodes blocks n (n * BLOCK) (format_layout inodes blocks) (fresh_blocks (format_layout inodes blocks) n)"
  using assms by (auto simp: fresh_on_def freshly_def fresh_blocks_def)

lemma format_sized_ok:
  assumes "format_sized inodes blocks bytes = (Ok sb, img)"
  shows "4 + JOURNAL_BLOCKS \<le> blocks" "0 < inodes" "inodes < 2 ^ 64" "data_start (format_layout inodes blocks) < blocks"
  using assms by (auto simp: format_sized_def Let_def INODE_def split: if_splits)

lemma formatted:
  assumes run: "format_sized inodes blocks bytes = (Ok sb, img)" and n: "n = length bytes div BLOCK" "blocks \<le> n" "n < 2 ^ 32"
  shows "fresh_on inodes blocks n (length bytes) sb (block_at img)" "length img = length bytes"
proof -
  note ok = format_sized_ok [OF run]
  have "format_sized inodes blocks bytes = (Ok (format_layout inodes blocks), fresh_image (format_layout inodes blocks) (length bytes))"
    by (rule format_sized_eq) (use ok n in linarith)+
  then have e: "sb = format_layout inodes blocks" "img = fresh_image sb (length bytes)" using run by auto
  have "data_start sb * BLOCK \<le> length bytes" using ok(4) n e(1) by (meson div_le_mono div_times_less_eq_dividend less_imp_le mult_le_mono1 order_trans)
  then show F: "fresh_on inodes blocks n (length bytes) sb (block_at img)" using ok n e by (simp add: fresh_on_def freshly_def)
  show "length img = length bytes" using image_length(1) [OF F] e(2) by simp
qed

subsection \<open>A history\<close>











subsection \<open>The smallest device\<close>

text \<open>A device of fourteen blocks with room for sixty-four inodes, as \<open>format_sized\<close> leaves it.\<close>

definition small :: superblock where "small = format_layout 64 14"

definition small_blocks :: "nat \<Rightarrow> u8 list" where "small_blocks = fresh_blocks small 14"

definition small_volume :: volume where "small_volume = volume_on small 14 small_blocks 1000"

lemma small_fresh: "fresh_on 64 14 14 (14 * BLOCK) small small_blocks"
  unfolding small_def small_blocks_def by (rule fresh_blocks_on) (simp_all add: format_layout_def div_ceil_def BLOCK_def INODE_def JOURNAL_BLOCKS_def)

lemma small_facts: "sb_sound small 14" "wellformed small 14 small_blocks"
  using fresh_sound [OF small_fresh] fresh_wellformed [OF small_fresh] by auto

lemma small_idle: "idle small 14 small_blocks small_volume" "dev small_volume = small_blocks" "fresh_cache 14 small_blocks (vcache small_volume)"
proof -
  have l: "\<forall>b < 14. length (small_blocks b) = BLOCK"
  proof (intro allI impI)
    fix b :: nat assume "b < 14"
    then have "b * BLOCK + BLOCK \<le> 14 * BLOCK" by (simp add: BLOCK_def)
    then show "length (small_blocks b) = BLOCK" using image_length(1) [OF small_fresh] \<open>b < 14\<close> by (simp add: small_blocks_def fresh_blocks_def block_at_def)
  qed
  have o: "\<forall>b \<ge> 14. small_blocks b = []" by (simp add: small_blocks_def fresh_blocks_def)
  show "idle small 14 small_blocks small_volume" "dev small_volume = small_blocks" "fresh_cache 14 small_blocks (vcache small_volume)"
    unfolding small_volume_def using volume_on_idle [OF l o _ log_blank [OF small_fresh], where lim = 1000] by simp_all
qed


subsection \<open>Properties\<close>



text \<open>C3.
  \<open>create\<close> is all or nothing. When it succeeds the directory has exactly one entry more, for an inode
  that was free and is now an empty file or directory of the next generation, a block is claimed only
  when the directory needed one, and every other inode keeps its data. When it fails nothing changed;
  when the device stopped, every later mount finds either the filesystem from before or the finished one.
\<close>

theorem create_all_or_nothing:
  fixes k
  assumes "sb_sound sb n" "wellformed sb n x" "idle sb n x v" "create directory name k v = (r, w)"
  shows "all_or_nothing sb n x (\<lambda>index. create_effect sb n directory name k index x) r w"
  by (rule all_or_nothingI [OF assms(1,2) create_leaves [OF assms]])

theorem create_all_or_nothing_witness:
  "all_or_nothing small 14 small_blocks (\<lambda>index. create_effect small 14 0 [97] File index small_blocks)
    (fst (create 0 [97] File small_volume)) (snd (create 0 [97] File small_volume))"
  by (rule create_all_or_nothing [OF small_facts small_idle(1)]) simp





end
