(* ===== verification/FsRead.thy ===== *)
theory FsRead
  imports FsPages
begin

text \<open>
  The reader: its loop ends, within the room it was given and the size the inode declares, and what
  it returns are the bytes of the file's blocks.
\<close>

lemma read_piece_nonempty:
  assumes "read_piece pg sb ino at' left s = (Inr (Some bytes), t)" "0 < left"
  shows "0 < length bytes" "length bytes \<le> left"
proof -
  let ?k = "min (BLOCK - at' mod BLOCK) left"
  have k: "0 < ?k" "?k \<le> left" using assms(2) by (simp_all add: BLOCK_def)
  obtain found where "at' mod BLOCK + ?k \<le> length found" "bytes = load found (at' mod BLOCK) ?k"
    using assms(1) by (auto simp: read_piece_def bind_act_def ret_def attempt_def slice_at_def split: prod.splits sum.splits option.splits if_splits)
  then have "length bytes = ?k" by simp
  then show "0 < length bytes" "length bytes \<le> left" using k by simp_all
qed

text \<open>As many steps as bytes are wanted are enough: more change nothing.\<close>

lemma read_loop_enough:
  assumes "want - length got \<le> m" "m \<le> m'"
  shows "read_loop pg sb ino offset want m' got s = read_loop pg sb ino offset want m got s"
  using assms
proof (induction m arbitrary: m' got s)
  case 0
  then show ?case by (cases m') auto
next
  case (Suc m)
  obtain k where k: "m' = Suc k" "m \<le> k" using Suc.prems(2) by (cases m') auto
  show ?case
  proof (cases "want \<le> length got")
    case False
    obtain r t where p: "read_piece pg sb ino (offset + length got) (want - length got) s = (r, t)" by (cases "read_piece pg sb ino (offset + length got) (want - length got) s")
    have "read_loop pg sb ino offset want k (got @ bytes) t = read_loop pg sb ino offset want m (got @ bytes) t" if "r = Inr (Some bytes)" for bytes
    proof (rule Suc.IH [OF _ k(2)])
      have "0 < length bytes" using read_piece_nonempty [OF p [unfolded that]] False by simp
      then show "want - length (got @ bytes) \<le> m" using Suc.prems(1) unfolding length_append by linarith
    qed
    then show ?thesis using False by (auto simp: k(1) bind_act_def p split: sum.split option.split)
  qed (simp add: k(1))
qed

subsection \<open>The bytes\<close>

text \<open>Where byte \<open>p\<close> of a file lies, if anywhere.\<close>

definition mapped :: "superblock \<Rightarrow> nat \<Rightarrow> (nat \<Rightarrow> u8 list) \<Rightarrow> inode \<Rightarrow> nat \<Rightarrow> nat option" where
  "mapped sb n x ino p = (case fst (block_of plain_page sb ino (p div BLOCK) (x, n)) of Inl _ \<Rightarrow> None | Inr b \<Rightarrow> b)"

definition byte_at :: "superblock \<Rightarrow> nat \<Rightarrow> (nat \<Rightarrow> u8 list) \<Rightarrow> inode \<Rightarrow> nat \<Rightarrow> u8" where
  "byte_at sb n x ino p = (case mapped sb n x ino p of None \<Rightarrow> 0 | Some b \<Rightarrow> x b ! (p mod BLOCK))"

lemma mapped_below: "mapped sb n x ino p = Some b \<Longrightarrow> b < sb_blocks sb"
  by (auto simp: mapped_def block_of_def bind_act_def attempt_def ret_def in_filesystem_def split: if_splits sum.splits option.splits prod.splits)

lemma read_piece_plain:
  assumes x: "\<forall>b < n. length (x b) = BLOCK" and sb: "sb_blocks sb \<le> n" and left: "0 < left"
  shows "read_piece plain_page sb ino p left (x, n) =
    (Ok (map_option (\<lambda>b. load (x b) (p mod BLOCK) (min (BLOCK - p mod BLOCK) left)) (mapped sb n x ino p)), (x, n))"
proof -
  obtain b where b: "fst (block_of plain_page sb ino (p div BLOCK) (x, n)) = Ok b" using image.block_of_plain_ok by blast
  have m: "mapped sb n x ino p = b" by (simp add: mapped_def b)
  have "bind_act (block_of plain_page sb ino (p div BLOCK)) q (x, n) = q b (x, n)" for q :: "nat option \<Rightarrow> (plain, u8 list option) act"
    by (simp add: bind_plain [OF image.reads_looks [OF image.reads_block_of]] b)
  then show ?thesis unfolding read_piece_def m
  proof (cases b)
    case (Some c)
    have c: "c < n" using mapped_below [of sb n x ino p c] m Some sb by simp
    have room: "p mod BLOCK + min (BLOCK - p mod BLOCK) left \<le> BLOCK" using mod_less_divisor [of BLOCK p] by (simp add: BLOCK_def)
    then show "bind_act (block_of plain_page sb ino (p div BLOCK)) (\<lambda>number. case number of None \<Rightarrow> ret None
       | Some number \<Rightarrow> bind_act (attempt (plain_page number)) (\<lambda>r. case r of Inl _ \<Rightarrow> ret None | Inr found \<Rightarrow>
           ret (slice_at found (p mod BLOCK) (min (BLOCK - p mod BLOCK) left)))) (x, n) =
      (Ok (map_option (\<lambda>b. load (x b) (p mod BLOCK) (min (BLOCK - p mod BLOCK) left)) b), (x, n))"
      using \<open>\<And>q. bind_act (block_of plain_page sb ino (p div BLOCK)) q (x, n) = q b (x, n)\<close> c x
      by (simp add: Some bind_act_def attempt_def plain_page_def ret_def slice_at_def)
  qed (simp_all add: ret_def)
qed

definition read_result :: "superblock \<Rightarrow> nat \<Rightarrow> (nat \<Rightarrow> u8 list) \<Rightarrow> inode \<Rightarrow> nat \<Rightarrow> nat \<Rightarrow> u8 list \<Rightarrow> bool" where
  "read_result sb n x ino offset want got \<longleftrightarrow> length got \<le> want \<and>
    (\<forall>i < length got. mapped sb n x ino (offset + i) \<noteq> None \<and> got ! i = byte_at sb n x ino (offset + i)) \<and>
    (length got < want \<longrightarrow> mapped sb n x ino (offset + length got) = None)"

lemma same_block:
  fixes p b i :: nat
  assumes "p mod b + i < b"
  shows "(p + i) div b = p div b" "(p + i) mod b = p mod b + i"
proof -
  have e: "p = b * (p div b) + p mod b" by simp
  have "b * (p div b) \<le> p + i" "p + i < b * Suc (p div b)" unfolding mult_Suc_right using e assms by linarith+
  then show d: "(p + i) div b = p div b" by (rule div_nat_eqI)
  have "b * ((p + i) div b) + (p + i) mod b = p + i" by simp
  then show "(p + i) mod b = p mod b + i" unfolding d using e by linarith
qed

lemma read_loop_plain:
  assumes x: "\<forall>b < n. length (x b) = BLOCK" and sb: "sb_blocks sb \<le> n" and m: "want - length got \<le> m" and got: "length got \<le> want"
    "\<forall>i < length got. mapped sb n x ino (offset + i) \<noteq> None \<and> got ! i = byte_at sb n x ino (offset + i)"
  shows "\<exists>all. read_loop plain_page sb ino offset want m got (x, n) = (Ok all, (x, n)) \<and> read_result sb n x ino offset want all"
  using m got
proof (induction m arbitrary: got)
  case 0
  then show ?case by (auto simp: ret_def read_result_def)
next
  case (Suc m)
  let ?p = "offset + length got" and ?left = "want - length got"
  show ?case
  proof (cases "want \<le> length got")
    case True
    then show ?thesis using Suc.prems by (auto simp: ret_def read_result_def)
  next
    case False
    then have left: "0 < ?left" by simp
    note piece = read_piece_plain [OF x sb left, of ino ?p]
    show ?thesis
    proof (cases "mapped sb n x ino ?p")
      case None
      then show ?thesis using False Suc.prems by (auto simp: bind_act_def piece ret_def read_result_def)
    next
      case (Some b)
      let ?k = "min (BLOCK - ?p mod BLOCK) ?left" and ?bytes = "load (x b) (?p mod BLOCK) (min (BLOCK - ?p mod BLOCK) ?left)"
      have b: "length (x b) = BLOCK" using mapped_below [OF Some] sb x by simp
      have lt: "?p mod BLOCK < BLOCK" by (simp add: BLOCK_def)
      have fit: "?p mod BLOCK + ?k \<le> length (x b)" using b lt by linarith
      then have len: "length ?bytes = ?k" "0 < ?k" using lt left by simp_all
      have same: "(?p + i) div BLOCK = ?p div BLOCK" "(?p + i) mod BLOCK = ?p mod BLOCK + i" if "i < ?k" for i
      proof -
        have "?p mod BLOCK + i < BLOCK" using that lt by linarith
        then show "(?p + i) div BLOCK = ?p div BLOCK" "(?p + i) mod BLOCK = ?p mod BLOCK + i" by (rule same_block)+
      qed
      have map: "mapped sb n x ino (?p + i) = Some b" if "i < ?k" for i using same(1) [OF that] Some by (simp add: mapped_def)
      have "mapped sb n x ino (offset + i) \<noteq> None \<and> (got @ ?bytes) ! i = byte_at sb n x ino (offset + i)" if i: "i < length (got @ ?bytes)" for i
      proof (cases "i < length got")
        case True
        then show ?thesis using Suc.prems(3) by (simp add: nth_append)
      next
        case False
        then obtain j where j: "i = length got + j" "j < ?k" using i len by (metis add_diff_inverse_nat length_append nat_add_left_cancel_less)
        then show ?thesis using map [OF j(2)] same(2) [OF j(2)] nth_load [OF fit j(2)] by (simp add: byte_at_def nth_append add.assoc)
      qed
      then have all: "\<forall>i < length (got @ ?bytes). mapped sb n x ino (offset + i) \<noteq> None \<and> (got @ ?bytes) ! i = byte_at sb n x ino (offset + i)" by blast
      have "want - length (got @ ?bytes) \<le> m" "length (got @ ?bytes) \<le> want" using Suc.prems(1) len False unfolding length_append by linarith+
      from Suc.IH [OF this all] show ?thesis using False by (simp add: bind_act_def piece Some)
    qed
  qed
qed

end
