(* ===== verification/FsCacheProps.thy ===== *)
theory FsCacheProps
  imports FsCacheOps
begin

text \<open>
  Any sequence of calls of the cache keeps it well-formed, and a frame lent out keeps its block
  until it is given back.
\<close>

datatype cache_call = Page nat | Put nat "u8 list" | Edit nat "u8 list \<Rightarrow> u8 list" | Copy nat nat | Flush | Pin nat | Unpin nat | Forget

fun cache_perform :: "cache_call \<Rightarrow> cache \<Rightarrow> cache" where
  "cache_perform (Page b) c = snd (page b c)"
| "cache_perform (Put b v) c = snd (put_block b v c)"
| "cache_perform (Edit b f) c = snd (edit b (\<lambda>p. (Ok (), f p)) c)"
| "cache_perform (Copy a b) c = snd (copy a b c)"
| "cache_perform Flush c = snd (flush c)"
| "cache_perform (Pin b) c = snd (pin b c)"
| "cache_perform (Unpin i) c = unpin i c"
| "cache_perform Forget c = forget c"

text \<open>A page is edited in place: its length stays.\<close>

fun call_ok :: "cache_call \<Rightarrow> bool" where
  "call_ok (Put b v) \<longleftrightarrow> length v = BLOCK"
| "call_ok (Edit b f) \<longleftrightarrow> (\<forall>p. length p = BLOCK \<longrightarrow> length (f p) = BLOCK)"
| "call_ok _ \<longleftrightarrow> True"

lemma cache_ok_slots:
  assumes ok: "cache_ok c" and len: "length ss = length (slots c)"
    and same: "\<And>j. j < fcount c \<Longrightarrow> ss ! j = default_slot \<or>
      blk (ss ! j) = blk (slots c ! j) \<and> dirty (ss ! j) = dirty (slots c ! j) \<and> used (ss ! j) = used (slots c ! j) \<and> (pinned (ss ! j) \<longrightarrow> blk (ss ! j) \<noteq> None)"
  shows "cache_ok (c\<lparr>slots := ss\<rparr>)"
proof -
  let ?c = "c\<lparr>slots := ss\<rparr>"
  have "slot_ok ?c j" if "j < fcount c" for j
    using same [OF that] cache_okD(5) [OF ok that]
    by (auto simp: slot_ok_def default_slot_def frame_def dblock_def cblocks_def split: option.splits)
  moreover have "one_frame ?c"
    unfolding one_frame_def
  proof (intro allI impI)
    fix i j b assume "i < fcount ?c" "j < fcount ?c" "blk (slots ?c ! i) = Some b" "blk (slots ?c ! j) = Some b"
    then have "i < fcount c" "j < fcount c" "blk (slots c ! i) = Some b" "blk (slots c ! j) = Some b"
      using same [of i] same [of j] by (auto simp: default_slot_def)
    then show "i = j" using cache_okD(6) [OF ok] unfolding one_frame_def by blast
  qed
  ultimately show ?thesis using cache_okD [OF ok] len by (simp add: cache_ok_def MAX_FRAMES_def)
qed

lemma repin_ok:
  assumes "cache_ok c" "p \<longrightarrow> blk (slots c ! i) \<noteq> None"
  shows "cache_ok (c\<lparr>slots := (slots c)[i := (slots c ! i)\<lparr>pinned := p\<rparr>]\<rparr>)"
proof (rule cache_ok_slots [OF assms(1)])
  fix j assume j: "j < fcount c"
  have "pinned (slots c ! j) \<longrightarrow> blk (slots c ! j) \<noteq> None" using cache_okD(5) [OF assms(1) j] by (auto simp: slot_ok_def split: option.splits)
  then show "(slots c)[i := (slots c ! i)\<lparr>pinned := p\<rparr>] ! j = default_slot \<or>
      blk ((slots c)[i := (slots c ! i)\<lparr>pinned := p\<rparr>] ! j) = blk (slots c ! j) \<and> dirty ((slots c)[i := (slots c ! i)\<lparr>pinned := p\<rparr>] ! j) = dirty (slots c ! j) \<and>
      used ((slots c)[i := (slots c ! i)\<lparr>pinned := p\<rparr>] ! j) = used (slots c ! j) \<and>
      (pinned ((slots c)[i := (slots c ! i)\<lparr>pinned := p\<rparr>] ! j) \<longrightarrow> blk ((slots c)[i := (slots c ! i)\<lparr>pinned := p\<rparr>] ! j) \<noteq> None)"
    using assms(2) cache_okD(3) [OF assms(1)] j by (cases "i = j") simp_all
qed simp

lemma pin_ok:
  assumes ok: "cache_ok c"
  shows "cache_ok (snd (pin b c))"
proof -
  obtain r c1 where a: "admit b c = (r, c1)" by (cases "admit b c")
  from ok a show ?thesis
  proof (cases rule: admit_cases)
    case (admitted i)
    have "blk (slots c1 ! i) = Some b" using admitted(5) by (simp add: admitted_def)
    then show ?thesis using repin_ok [OF admitted(3), of True i] a admitted(1) by (simp add: pin_def)
  next
    case (refused e)
    then show ?thesis using a by (simp add: pin_def settles_ok)
  qed
qed

lemma unpin_ok: "cache_ok c \<Longrightarrow> cache_ok (unpin i c)"
  using repin_ok [of c False i] by (simp add: unpin_def get_def)

lemma forget_ok:
  assumes "cache_ok c"
  shows "cache_ok (forget c)"
  unfolding forget_def
proof (rule cache_ok_slots [OF assms])
  fix j assume j: "j < fcount c"
  show "map (\<lambda>s. if pinned s then s else default_slot) (slots c) ! j = default_slot \<or>
      blk (map (\<lambda>s. if pinned s then s else default_slot) (slots c) ! j) = blk (slots c ! j) \<and>
      dirty (map (\<lambda>s. if pinned s then s else default_slot) (slots c) ! j) = dirty (slots c ! j) \<and>
      used (map (\<lambda>s. if pinned s then s else default_slot) (slots c) ! j) = used (slots c ! j) \<and>
      (pinned (map (\<lambda>s. if pinned s then s else default_slot) (slots c) ! j) \<longrightarrow> blk (map (\<lambda>s. if pinned s then s else default_slot) (slots c) ! j) \<noteq> None)"
    using cache_okD(3) [OF assms] cache_okD(5) [OF assms j] j by (auto simp: slot_ok_def split: option.splits)
qed simp

lemma perform_ok:
  assumes ok: "cache_ok c" and call: "call_ok call"
  shows "cache_ok (cache_perform call c)"
proof (cases call)
  case (Page b)
  obtain r c' where run: "page b c = (r, c')" by (cases "page b c")
  from ok run show ?thesis by (cases rule: page_cases) (simp_all add: Page run settles_ok)
next
  case (Put b v)
  obtain r c' where run: "put_block b v c = (r, c')" by (cases "put_block b v c")
  have "length v = BLOCK" using call Put by simp
  with ok run show ?thesis by (cases rule: put_block_cases) (simp_all add: Put run writes_ok settles_ok)
next
  case (Edit b f)
  obtain r c' where run: "edit b (\<lambda>p. (Ok (), f p)) c = (r, c')" by (cases "edit b (\<lambda>p. (Ok (), f p)) c")
  have "\<forall>p. length p = BLOCK \<longrightarrow> length (snd ((\<lambda>p. (Ok () :: (fs_error, unit) result, f p)) p)) = BLOCK" using call Edit by simp
  with ok run show ?thesis by (cases rule: edit_cases) (simp_all add: Edit run writes_ok settles_ok)
next
  case (Copy a b)
  obtain r c' where run: "copy a b c = (r, c')" by (cases "copy a b c")
  from ok run show ?thesis by (cases rule: copy_cases) (use run ok in \<open>simp_all add: Copy writes_ok settles_ok\<close>)
next
  case Flush
  obtain r c' where run: "flush c = (r, c')" by (cases "flush c")
  from ok run show ?thesis by (cases rule: flush_cases) (simp_all add: Flush run settles_ok)
qed (use ok pin_ok unpin_ok forget_ok in simp_all)

subsection \<open>Lent frames\<close>

text \<open>What is lent in \<open>c\<close> is still lent in \<open>c'\<close>, with the same block.\<close>

definition lent_kept :: "cache \<Rightarrow> cache \<Rightarrow> bool" where
  "lent_kept c c' \<longleftrightarrow> fcount c' = fcount c \<and> length (slots c') = length (slots c) \<and>
    (\<forall>j < fcount c. pinned (slots c ! j) \<longrightarrow> pinned (slots c' ! j) \<and> blk (slots c' ! j) = blk (slots c ! j))"

lemma lent_refl [simp]: "lent_kept c c"
  by (simp add: lent_kept_def)

lemma lent_trans: "lent_kept c c1 \<Longrightarrow> lent_kept c1 c2 \<Longrightarrow> lent_kept c c2"
  by (simp add: lent_kept_def)

lemma write_back_lent: "lent_kept c (snd (write_back i c))"
proof -
  have "j < length (slots c) \<Longrightarrow> blk ((slots c)[i := (slots c ! i)\<lparr>dirty := False\<rparr>] ! j) = blk (slots c ! j) \<and> pinned ((slots c)[i := (slots c ! i)\<lparr>dirty := False\<rparr>] ! j) = pinned (slots c ! j)" for j
    by (cases "i = j") simp_all
  moreover have "(slots c)[i := s] ! j = slots c ! j" if "\<not> j < length (slots c)" for j s
    using that by (cases "i = j") (simp_all add: list_update_beyond)
  ultimately have "blk ((slots c)[i := (slots c ! i)\<lparr>dirty := False\<rparr>] ! j) = blk (slots c ! j) \<and> pinned ((slots c)[i := (slots c ! i)\<lparr>dirty := False\<rparr>] ! j) = pinned (slots c ! j)" for j
    by (cases "j < length (slots c)") simp_all
  then show ?thesis by (auto simp: write_back_def lent_kept_def split: option.split prod.split sum.split)
qed

lemma flush_from_lent: "lent_kept c (snd (flush_from is went c))"
proof (induction "is" arbitrary: went c)
  case (Cons i "is")
  obtain r c1 where w: "write_back i c = (r, c1)" by (cases "write_back i c")
  have "lent_kept c c1" using write_back_lent [of c i] by (simp add: w)
  then show ?case using Cons [of c] Cons [of c1] lent_trans by (auto simp: w split: sum.split)
qed simp

text \<open>The slot a call chooses for a block is not lent, or holds the block already.\<close>

lemma lent_slot:
  assumes "fcount c' = fcount c" "slots c' = (slots c)[i := s]" "\<not> pinned (slots c ! i) \<or> pinned s \<and> blk s = blk (slots c ! i)"
  shows "lent_kept c c'"
  unfolding lent_kept_def
proof (intro conjI allI impI)
  fix j assume "j < fcount c" "pinned (slots c ! j)"
  then show "pinned (slots c' ! j)" "blk (slots c' ! j) = blk (slots c ! j)"
    using assms by (cases "i = j"; cases "j < length (slots c)"; simp add: list_update_beyond)+
qed (use assms in simp_all)

lemma write_back_slots: "write_back i c = (Inr u, c') \<Longrightarrow> fcount c' = fcount c \<and> (\<exists>s. slots c' = (slots c)[i := s] \<and> pinned s = pinned (slots c ! i))"
  by (auto simp: write_back_def split: if_splits option.splits prod.splits sum.splits intro: list_update_id [symmetric])

lemma admit_lent:
  assumes ok: "cache_ok c"
  shows "lent_kept c (snd (admit b c))"
proof (cases "resident c b")
  case (Some i)
  note r = resident_SomeD [OF Some]
  show ?thesis
  proof (cases "pinned (slots c ! i)")
    case True
    then show ?thesis using Some by (auto simp: admit_def intro!: lent_slot)
  qed (use Some in \<open>auto simp: admit_def intro!: lent_slot\<close>)
next
  case None
  show ?thesis
  proof (cases "victim c")
    case v: (Some i)
    obtain r c1 where w: "write_back i c = (r, c1)" by (cases "write_back i c")
    have free: "\<not> pinned (slots c ! i)" using victim_Some [OF ok v] by simp
    have l1: "lent_kept c c1" using write_back_lent [of c i] by (simp add: w)
    have "lent_kept c ((set_frame i from c1)\<lparr>misses := m, clock := k, slots := (slots c1)[i := s]\<rparr>)" if "r = Inr u" for u "from" m k s
      using write_back_slots [OF w [unfolded that]] free by (auto simp: set_frame_def intro!: lent_slot [where i = i and s = s])
    then show ?thesis using None v l1 by (auto simp: admit_def w split: sum.split)
  qed (use None in \<open>simp add: admit_def\<close>)
qed

lemma lent_touch:
  assumes "lent_kept c c1" "fcount c' = fcount c1" "slots c' = (slots c1)[i := s]" "blk s = blk (slots c1 ! i)" "pinned (slots c1 ! i) \<longrightarrow> pinned s"
  shows "lent_kept c c'"
proof -
  have "lent_kept c1 c'" by (rule lent_slot [where i = i and s = s]) (use assms in auto)
  then show ?thesis using assms(1) lent_trans by blast
qed

lemma edit_lent:
  assumes "cache_ok c"
  shows "lent_kept c (snd (edit b f c))"
proof -
  obtain r c1 where a: "admit b c = (r, c1)" by (cases "admit b c")
  have l: "lent_kept c c1" using admit_lent [OF assms, of b] by (simp add: a)
  have "lent_kept c (set_frame i v (c1\<lparr>slots := (slots c1)[i := (slots c1 ! i)\<lparr>dirty := True\<rparr>]\<rparr>))" for i v
    by (rule lent_touch [OF l, where i = i and s = "(slots c1 ! i)\<lparr>dirty := True\<rparr>"]) (simp_all add: set_frame_def)
  then show ?thesis using l by (auto simp: edit_def a split: sum.split prod.split)
qed

lemma pin_lent:
  assumes "cache_ok c"
  shows "lent_kept c (snd (pin b c))"
proof -
  obtain r c1 where a: "admit b c = (r, c1)" by (cases "admit b c")
  have l: "lent_kept c c1" using admit_lent [OF assms, of b] by (simp add: a)
  have "lent_kept c (c1\<lparr>slots := (slots c1)[i := (slots c1 ! i)\<lparr>pinned := True\<rparr>]\<rparr>)" for i
    by (rule lent_touch [OF l, where i = i and s = "(slots c1 ! i)\<lparr>pinned := True\<rparr>"]) simp_all
  then show ?thesis using l by (auto simp: pin_def a split: sum.split)
qed

lemma copy_lent:
  assumes ok: "cache_ok c"
  shows "lent_kept c (snd (copy a b c))"
proof -
  obtain r c1 where a: "admit a c = (r, c1)" by (cases "admit a c")
  have l1: "lent_kept c c1" using admit_lent [OF ok, of a] by (simp add: a)
  let ?c2 = "\<lambda>i. c1\<lparr>clock := clock c1 + 1, slots := (slots c1)[i := (slots c1 ! i)\<lparr>used := clock c1 + 1\<rparr>]\<rparr>"
  have l2: "lent_kept c (?c2 i)" for i
    by (rule lent_touch [OF l1, where i = i and s = "(slots c1 ! i)\<lparr>used := clock c1 + 1\<rparr>"]) simp_all
  have ok2: "cache_ok (?c2 i)" if "r = Inr i" for i
  proof -
    from ok a have "settles c1 (?c2 i)"
    proof (cases rule: admit_cases)
      case (admitted k)
      show ?thesis
      proof (rule settles_touch [OF admitted(3)])
        fix j assume j: "j < fcount c1"
        have "used (slots c1 ! j) \<le> clock c1" "j < length (slots c1)" using cache_okD(3,5) [OF admitted(3)] j by (auto simp: slot_ok_def)
        then show "blk (slots (?c2 i) ! j) = blk (slots c1 ! j) \<and> dirty (slots (?c2 i) ! j) = dirty (slots c1 ! j) \<and>
            pinned (slots (?c2 i) ! j) = pinned (slots c1 ! j) \<and> used (slots (?c2 i) ! j) \<le> clock (?c2 i)"
          by (cases "i = j") simp_all
      qed simp_all
    qed (use that in simp)
    then show ?thesis by (rule settles_ok)
  qed
  have "lent_kept c (snd (admit b (?c2 i)))" if "r = Inr i" for i using lent_trans [OF l2 admit_lent [OF ok2 [OF that]]] .
  then have l3: "lent_kept c c3" if "r = Inr i" "admit b (?c2 i) = (r3, c3)" for i r3 c3 using that by (metis snd_conv)
  have "lent_kept c (set_frame d v (c3\<lparr>slots := (slots c3)[d := (slots c3 ! d)\<lparr>dirty := True\<rparr>]\<rparr>))" if "r = Inr i" "admit b (?c2 i) = (r3, c3)" for i r3 c3 d v
    by (rule lent_touch [OF l3 [OF that], where i = d and s = "(slots c3 ! d)\<lparr>dirty := True\<rparr>"]) (simp_all add: set_frame_def)
  then show ?thesis using l1 l3 by (auto simp: copy_def a Let_def split: sum.split prod.split)
qed

lemma put_block_lent:
  assumes ok: "cache_ok c"
  shows "lent_kept c (snd (put_block b v c))"
proof (cases "resident c b")
  case (Some i)
  note r = resident_SomeD [OF Some]
  have "lent_kept c ((set_frame i w (c\<lparr>hits := h\<rparr>))\<lparr>clock := k, slots := (slots c)[i := \<lparr>blk = Some b, dirty = True, used = u, pinned = pinned (slots c ! i)\<rparr>]\<rparr>)" for w h k u
    by (rule lent_slot [where i = i]) (use r in \<open>auto simp: set_frame_def\<close>)
  then show ?thesis using Some by (simp add: put_block_def set_frame_def)
next
  case None
  show ?thesis
  proof (cases "victim c")
    case v: (Some i)
    obtain r c1 where w: "write_back i c = (r, c1)" by (cases "write_back i c")
    have free: "\<not> pinned (slots c ! i)" using victim_Some [OF ok v] by simp
    have l1: "lent_kept c c1" using write_back_lent [of c i] by (simp add: w)
    have "lent_kept c ((set_frame i from c1)\<lparr>clock := k, slots := (slots c1)[i := s]\<rparr>)" if "r = Inr u" for u "from" k s
      using write_back_slots [OF w [unfolded that]] free by (auto simp: set_frame_def intro!: lent_slot [where i = i and s = s])
    then show ?thesis using None v l1 by (auto simp: put_block_def w split: sum.split)
  qed (use None in \<open>simp add: put_block_def\<close>)
qed

lemma perform_lent:
  assumes ok: "cache_ok c" and j: "j < fcount c" "pinned (slots c ! j)" and call: "call \<noteq> Unpin j"
  shows "pinned (slots (cache_perform call c) ! j)" "blk (slots (cache_perform call c) ! j) = blk (slots c ! j)" "fcount (cache_perform call c) = fcount c"
proof -
  have len: "j < length (slots c)" using j cache_okD(3) [OF ok] by simp
  have page: "lent_kept c (snd (page b c))" for b using admit_lent [OF ok, of b] by (auto simp: page_def split: sum.split prod.splits)
  have lent: "lent_kept c (cache_perform call c)" if "\<forall>i. call \<noteq> Unpin i" "call \<noteq> Forget"
    using that page put_block_lent [OF ok] edit_lent [OF ok] copy_lent [OF ok] pin_lent [OF ok] flush_from_lent [of c] by (cases call) (simp_all add: flush_def)
  have un: "unpin i c = c\<lparr>slots := (slots c)[i := (slots c ! i)\<lparr>pinned := False\<rparr>]\<rparr>" for i
    by (simp add: unpin_def get_def list_update_beyond)
  show "pinned (slots (cache_perform call c) ! j)" "blk (slots (cache_perform call c) ! j) = blk (slots c ! j)" "fcount (cache_perform call c) = fcount c"
    using lent j call len by (cases call; simp add: lent_kept_def un forget_def)+
qed

end
