(* ===== verification/FsCodecProps.thy ===== *)
theory FsCodecProps
  imports FsContent
begin

text \<open>
  The metadata on the device: what is written is read back, an inode's slot is its own, and the
  checksum notices a changed byte.
\<close>

subsection \<open>Round trips\<close>

lemma inode_place:
  assumes "inode_offset sb i = Some at'" "inode_offset sb j = Some at2" "i \<noteq> j"
  shows "at' + INODE \<le> at2 \<or> at2 + INODE \<le> at'"
proof -
  have "at' = inode_start sb * BLOCK + unat i * INODE" "at2 = inode_start sb * BLOCK + unat j * INODE"
    using assms by (auto simp: inode_offset_def checked_mul_def checked_add_def split: option.splits if_splits)
  moreover have "unat i \<noteq> unat j" using assms(3) by (simp add: word_unat_eq_iff)
  ultimately show ?thesis by (auto simp: INODE_def)
qed

lemma inode_write_image:
  assumes "inode_write ino sb i bytes = (Ok (), bytes')" "length (direct ino) = 10"
  obtains at' where "unat i < sb_inodes sb" "inode_offset sb i = Some at'" "at' + INODE \<le> max_of 64" "at' + INODE \<le> length bytes"
    "bytes' = store bytes at' (inode_bytes ino)"
proof -
  have e: "inode_encode ino (load bytes at' INODE) = (Ok (), inode_bytes ino)" if "at' + INODE \<le> length bytes" for at'
    using encode_bytes [OF assms(2), of "load bytes at' INODE"] that by simp
  show thesis
    using assms(1) that e by (auto simp: inode_write_def checked_add_def slice_at_def split: option.splits if_splits)
qed

lemma inode_write_reads:
  assumes w: "inode_write ino sb i bytes = (Ok (), bytes')" and d: "length (direct ino) = 10"
  shows "inode_read bytes' sb j = (if j = i then Ok ino else inode_read bytes sb j)" "length bytes' = length bytes"
proof -
  obtain at' where a: "unat i < sb_inodes sb" "inode_offset sb i = Some at'" "at' + INODE \<le> max_of 64" "at' + INODE \<le> length bytes"
    "bytes' = store bytes at' (inode_bytes ino)" by (rule inode_write_image [OF w d])
  have l: "length (inode_bytes ino) = INODE" using d by simp
  then show len: "length bytes' = length bytes" using a(4,5) by simp
  show "inode_read bytes' sb j = (if j = i then Ok ino else inode_read bytes sb j)"
  proof (cases "j = i")
    case True
    have "load bytes' at' INODE = inode_bytes ino" using a(4,5) l load_store [of at' "inode_bytes ino" bytes] by simp
    then show ?thesis using True a len decode_bytes [OF d, of "[]"] by (simp add: inode_read_def checked_add_def slice_at_def)
  next
    case False
    have "slice_at bytes' at2 INODE = slice_at bytes at2 INODE" if o: "inode_offset sb j = Some at2" for at2
    proof (cases "at2 + INODE \<le> length bytes")
      case True
      have "load bytes' at2 INODE = load bytes at2 INODE"
        by (rule load_cong [OF len True]) (use inode_place [OF a(2) o] False a(4,5) l True nth_store [of at' "inode_bytes ino" bytes] in auto)
      then show ?thesis by (simp add: slice_at_def len)
    qed (simp add: slice_at_def len)
    then show ?thesis using False by (simp add: inode_read_def split: option.split)
  qed
qed

lemma superblock_write_reads:
  assumes "layout_ok sb (length bytes div BLOCK)" "BLOCK \<le> length bytes"
  shows "fst (superblock_write sb bytes) = Ok ()" "superblock_read (snd (superblock_write sb bytes)) = Ok sb"
    "drop BLOCK (snd (superblock_write sb bytes)) = drop BLOCK bytes"
  using superblock_write_eq [OF assms(2), of sb] read_head_sb [OF assms(1), of "[]"] assms(2) by (simp_all add: superblock_read_def)

lemma entry_write_reads:
  assumes e: "entry_new i name = Ok e" and room: "off + ENTRY \<le> length p"
  shows "entry_write e p off = (Ok (), snd (entry_write e p off))" "entry_read (snd (entry_write e p off)) off = Ok e" "entry_name e = name" "e_inode e = i"
proof -
  have v: "e = \<lparr>e_inode = i, e_name = name @ replicate (MAX_NAME - length name) 0, e_length = of_nat (length name)\<rparr>" and l: "length name \<le> MAX_NAME"
    using e by (auto simp: entry_new_def split: if_splits)
  have "unat (of_nat (length name) :: u8) = length name" using l by (simp add: unat_of_nat MAX_NAME_def)
  then have ok: "entry_ok e" using l by (simp add: v entry_ok_def word_le_nat_alt MAX_NAME_def)
  have "length (e_name e) = MAX_NAME" using ok by (simp add: entry_ok_def)
  note w = entry_write_eq [OF room this]
  show "entry_write e p off = (Ok (), snd (entry_write e p off))" by (simp add: w)
  have "length (snd (entry_write e p off)) = length p" unfolding w using room \<open>length (e_name e) = MAX_NAME\<close> by (simp add: MAX_NAME_def ENTRY_def)
  then show "entry_read (snd (entry_write e p off)) off = Ok e"
    using entry_in_write [OF ok room room] entry_read_in [of off "snd (entry_write e p off)"] room by simp
  show "entry_name e = name" "e_inode e = i" using l by (simp_all add: v entry_name_def MAX_NAME_def unat_of_nat)
qed

subsection \<open>The checksum\<close>

text \<open>One step of the hash can be undone: the multiplier is odd, and this is its inverse.\<close>

lemma fnv_undo: "((h :: u32) * 0x01000193) * 0x359c449b = h"
proof -
  have "(0x01000193 :: u32) * 0x359c449b = 1" by simp
  then show ?thesis by (metis mult.assoc mult.right_neutral)
qed

lemma fnv_step_inj: "((h :: u32) * 0x01000193) = k * 0x01000193 \<Longrightarrow> h = k"
  using fnv_undo [of h] fnv_undo [of k] by metis

lemma checksum_of_inj: "checksum_of h bytes = checksum_of k bytes \<longleftrightarrow> h = k"
proof (induction bytes arbitrary: h k)
  case (Cons b bytes)
  have "h XOR ucast b = k XOR ucast b \<Longrightarrow> h = k" by (drule arg_cong [where f = "\<lambda>w. w XOR ucast b"]) (simp add: xor.assoc)
  then show ?case unfolding checksum_of.simps Cons using fnv_step_inj [of "h XOR ucast b" "k XOR ucast b"] by auto
qed simp

lemma ucast_u8: "(ucast (a :: u8) :: u32) = ucast b \<longleftrightarrow> a = b"
proof -
  have "unat (ucast w :: u32) = unat w" for w :: u8
  proof -
    have "unat w < 2 ^ 8" using unsigned_less [of w] by simp
    then show ?thesis by (simp add: unsigned_ucast_eq take_bit_nat_eq_self)
  qed
  then show ?thesis by (simp add: word_unat_eq_iff)
qed

lemma one_byte_changes:
  assumes i: "i < length bytes" and w: "w \<noteq> bytes ! i"
  shows "checksum_of h (bytes[i := w]) \<noteq> checksum_of h bytes"
proof -
  let ?k = "checksum_of h (take i bytes)"
  have s: "checksum_of h bytes = checksum_of ((?k XOR ucast (bytes ! i)) * 0x01000193) (drop (Suc i) bytes)"
    "checksum_of h (bytes[i := w]) = checksum_of ((?k XOR ucast w) * 0x01000193) (drop (Suc i) bytes)"
    using checksum_of_append [of h "take i bytes"] id_take_nth_drop [OF i] by (metis checksum_of.simps(2)) (simp add: upd_conv_take_nth_drop [OF i] checksum_of_append)
  have "?k XOR ucast w \<noteq> ?k XOR ucast (bytes ! i)"
  proof
    assume "?k XOR ucast w = ?k XOR ucast (bytes ! i)"
    from arg_cong [OF this, where f = "\<lambda>v. ?k XOR v"] have "(ucast w :: u32) = ucast (bytes ! i)" by (simp flip: xor.assoc)
    then show False using w ucast_u8 by simp
  qed
  then show ?thesis unfolding s checksum_of_inj using fnv_step_inj by blast
qed

text \<open>An inode with one of its covered bytes changed.\<close>

lemma decode_changed:
  assumes ino: "length (direct ino) = 10" and i: "i < INODE_COVERED" and w: "w \<noteq> inode_bytes ino ! i"
  shows "inode_decode ((inode_bytes ino)[i := w]) = Error NotAFilesystem \<or> checksum_of FNV (inode_fields ino) \<in> {0, 1}"
proof -
  let ?f = "inode_fields ino" and ?s = "(inode_bytes ino)[i := w]"
  have l: "length ?f = 60" using length_inode_fields [OF ino] by (simp add: INODE_COVERED_def)
  have i60: "i < length ?f" using i l by (simp add: INODE_COVERED_def)
  have s: "?s = ?f[i := w] @ to_le_bytes 4 (fs_checksum ?f)" using i60 by (simp add: inode_bytes_def list_update_append1)
  have len: "length ?s = INODE" using ino by simp
  have sum: "u32_at ?s INODE_COVERED = Some (fs_checksum ?f)"
    unfolding s using field_mid(1) [of "?f[i := w]" 60 "fs_checksum ?f" "[]"] l by (simp add: INODE_COVERED_def)
  have cov: "take INODE_COVERED ?s = ?f[i := w]" unfolding s using l by (simp add: INODE_COVERED_def)
  have "w \<noteq> ?f ! i" using w i60 by (simp add: inode_bytes_def nth_append)
  then have "checksum_of FNV (?f[i := w]) \<noteq> checksum_of FNV ?f" by (rule one_byte_changes [OF i60])
  then have "fs_checksum ?f \<noteq> fs_checksum (?f[i := w]) \<or> checksum_of FNV ?f \<in> {0, 1}" by (auto simp: fs_checksum_def never_zero_def)
  moreover have "fs_checksum ?f \<noteq> 0" by (simp add: fs_checksum_def never_zero_def)
  ultimately show ?thesis unfolding inode_decode_def Let_def using len sum cov by (auto simp del: list_update_beyond)
qed

lemma inode_byte: "inode_bytes ino ! 0 = ucast (to_bits (ikind ino))"
  by (simp add: inode_bytes_def inode_fields_def to_le_bytes_Suc numeral_2_eq_2)

lemma inode_write_done:
  assumes "length (direct ino) = 10" "unat i < sb_inodes sb" "inode_offset sb i = Some at'" "at' + INODE \<le> max_of 64" "at' + INODE \<le> length bytes"
  shows "inode_write ino sb i bytes = (Ok (), store bytes at' (inode_bytes ino))"
  using assms encode_bytes [OF assms(1), of "load bytes at' INODE"] by (simp add: inode_write_def checked_add_def slice_at_def)

subsection \<open>Properties\<close>

text \<open>C24.
  The metadata of the device is read back as it was written. An inode written into an image is read
  back whole, every other inode reads as before, and the image keeps its length; the superblock is
  read back with its layout and the rest of the image stays; a directory entry is read back with its
  name and inode.
\<close>

theorem metadata_round_trip:
  assumes "inode_write ino sb i bytes = (Ok (), bytes')" "length (direct ino) = 10"
    "layout_ok sb (length bytes div BLOCK)" "BLOCK \<le> length bytes" "entry_new i name = Ok e" "off + ENTRY \<le> length p"
  shows "inode_read bytes' sb j = (if j = i then Ok ino else inode_read bytes sb j) \<and> length bytes' = length bytes \<and>
    superblock_read (snd (superblock_write sb bytes)) = Ok sb \<and> drop BLOCK (snd (superblock_write sb bytes)) = drop BLOCK bytes \<and>
    entry_read (snd (entry_write e p off)) off = Ok e \<and> entry_name e = name \<and> e_inode e = i"
  using inode_write_reads [OF assms(1,2)] superblock_write_reads [OF assms(3,4)] entry_write_reads [OF assms(5,6)] by simp

theorem metadata_round_trip_witness:
  "\<exists>bytes. inode_write (free_inode_value\<lparr>ikind := File, links := 1\<rparr>) (format_layout 64 14) 1 (replicate (14 * BLOCK) 0) = (Ok (), bytes) \<and>
    inode_read bytes (format_layout 64 14) 1 = Ok (free_inode_value\<lparr>ikind := File, links := 1\<rparr>) \<and>
    superblock_read (snd (superblock_write (format_layout 64 14) (replicate (14 * BLOCK) 0))) = Ok (format_layout 64 14)"
proof -
  let ?ino = "free_inode_value\<lparr>ikind := File, links := 1\<rparr>" and ?sb = "format_layout 64 14" and ?b = "replicate (14 * BLOCK) (0 :: u8)"
  have f: "?sb = \<lparr>sb_blocks = 14, sb_inodes = 64, bitmap_start = 1, inode_start = 2, journal_start = 3, journal_blocks = 9, data_start = 12, root = 0\<rparr>"
    by (simp add: format_layout_def div_ceil_def BLOCK_def INODE_def JOURNAL_BLOCKS_def)
  have w: "inode_write ?ino ?sb 1 ?b = (Ok (), store ?b 8256 (inode_bytes ?ino))"
    by (rule inode_write_done) (simp_all add: f free_inode_value_def inode_offset_def checked_add_def checked_mul_def max_of_def BLOCK_def INODE_def)
  have l: "layout_ok ?sb (length ?b div BLOCK)" by (simp add: f layout_ok_def BLOCK_def)
  have e: "entry_new 1 [97] = Ok \<lparr>e_inode = 1, e_name = [97] @ replicate 26 0, e_length = 1\<rparr>" by (simp add: entry_new_def MAX_NAME_def)
  have "length (direct ?ino) = 10" by (simp add: free_inode_value_def)
  from metadata_round_trip [OF w this l _ e, of 0 ?b 1] show ?thesis using w by (simp add: BLOCK_def ENTRY_def)
qed

text \<open>C36.
  The checksum notices a changed byte: an inode's slot in which one of the sixty covered bytes was
  changed is refused. The one exception is that the hash reserves zero for a free slot and stores one
  in its place, so the two values zero and one are not told apart.
\<close>

theorem changed_byte_is_refused:
  assumes "length (direct ino) = 10" "i < INODE_COVERED" "w \<noteq> inode_bytes ino ! i"
  shows "inode_decode ((inode_bytes ino)[i := w]) = Error NotAFilesystem \<or> checksum_of FNV (inode_fields ino) \<in> {0, 1}"
  by (rule decode_changed [OF assms])

theorem changed_byte_is_refused_witness:
  "inode_decode ((inode_bytes (free_inode_value\<lparr>ikind := File, links := 1\<rparr>))[0 := 2]) = Error NotAFilesystem \<or>
    checksum_of FNV (inode_fields (free_inode_value\<lparr>ikind := File, links := 1\<rparr>)) \<in> {0, 1}"
  by (rule changed_byte_is_refused) (simp_all add: free_inode_value_def INODE_COVERED_def inode_byte to_bits_def)

end
