(* ===== verification/FsImageProps.thy ===== *)
theory FsImageProps
  imports FsProps FsRead FsCacheProps FsCodecProps
begin

text \<open>
  The filesystem from formatting to reading: a fresh image mounts, a mount recovers, the reader over
  the cache is the reader over the image, and what it returns are the bytes of the file.
\<close>

subsection \<open>Mounting\<close>

lemma mount_recovers_step:
  assumes "sb_sound sb n" "holds sb n d x" "fresh_cache n d c" "mount c = (r, c')"
  shows "case r of Inl e \<Rightarrow> e = Err Interrupted \<and> stopped c' \<and> holds sb n (dblock c') x | Inr (v, k) \<Rightarrow> vcache v = c' \<and> idle sb n x v"
proof -
  have d: "stands sb (dblock c) x" "read_head (dblock c 0) n = Ok sb" "read_head (x 0) n = Ok sb"
    using assms(2,3) stands_zero [OF assms(1), of d x] by (auto simp: holds_def fresh_cache_def)
  from mount_step [OF assms(1) d(1,2) _ _ _ assms(4)] assms(3) d(3) show ?thesis by (auto simp: fresh_cache_def holds_def split: sum.splits)
qed

subsection \<open>A fresh image\<close>


lemma image_run:
  assumes "image.reads a p" "fst (p (image_content bytes)) = r"
  shows "a bytes = (r, bytes)"
  using image.reads_result [OF assms(1), of bytes "fst (a bytes)" "snd (a bytes)"] assms(2) by (metis TrueI prod.collapse)





subsection \<open>Reading\<close>

lemma cached_image:
  assumes c: "cache_ready c" "dirty_set c = {}" and small: "length (wbytes (device c)) div BLOCK < 2 ^ 32"
  shows "cache_content c = image_content (wbytes (device c))"
proof -
  have "view c b = block_at (wbytes (device c)) b" for b using view_clean [of c b] c by (simp add: cache_ready_def dblock_def)
  then show ?thesis using small by (auto simp: cache_content_def image_content_def cblocks_def store_blocks_def)
qed

text \<open>A reader over a cache agrees with the same reader over the image, unless the device stopped.\<close>

definition agrees :: "(cache, 'a) act \<Rightarrow> (u8 list, 'a) act \<Rightarrow> cache \<Rightarrow> u8 list \<Rightarrow> bool" where
  "agrees a b c bytes \<longleftrightarrow> (fst (a c) = fst (b bytes) \<or> stopped (snd (a c))) \<and> view (snd (a c)) = view c \<and> snd (b bytes) = bytes"

lemma agreesI:
  assumes a: "cached.reads a p" and b: "image.reads b p" and c: "cache_ready c" "cache_content c = image_content bytes"
  shows "agrees a b c bytes"
proof -
  have "settles c (snd (a c)) \<and> (fst (a c) = fst (p (cache_content c)) \<or> stopped (snd (a c)))" by (rule cached.reads_result [OF a c(1)]) simp
  moreover have "b bytes = (fst (p (image_content bytes)), bytes)" by (rule image_run [OF b refl])
  ultimately show ?thesis using c(2) by (auto simp: agrees_def settles_def)
qed

lemma read_plain:
  assumes x: "\<forall>b < n. length (x b) = BLOCK" and sb: "sb_blocks sb \<le> n" and ino: "ikind ino = File" "offset \<le> unat (isize ino)"
  obtains got where "fst (fs_read plain_page sb ino offset room (x, n)) = Ok got" "read_result sb n x ino offset (min room (unat (isize ino) - offset)) got"
proof (cases "offset < unat (isize ino)")
  case True
  let ?want = "min room (unat (isize ino) - offset)"
  obtain got where "read_loop plain_page sb ino offset ?want ?want [] (x, n) = (Ok got, (x, n))" "read_result sb n x ino offset ?want got"
    using read_loop_plain [OF x sb, of ?want "[]" ?want ino offset] by auto
  then show thesis using that [of got] True ino by (simp add: fs_read_def Let_def)
next
  case False
  then show thesis using that [of "[]"] ino by (simp add: fs_read_def ret_def read_result_def)
qed

lemma small_ready: "cache_ready (vcache small_volume)" "dirty_set (vcache small_volume) = {}" "length (wbytes (device (vcache small_volume))) div BLOCK < 2 ^ 32"
proof -
  show "cache_ready (vcache small_volume)" "dirty_set (vcache small_volume) = {}" using small_idle(3) by (auto simp: fresh_cache_def)
  have "length (disk_of 14 small_blocks) = 14 * BLOCK"
  proof (rule length_disk, intro allI impI)
    fix b :: nat assume b: "b < 14"
    then have "b < cblocks (vcache small_volume)" using small_idle(3) by (simp add: fresh_cache_def)
    then show "length (small_blocks b) = BLOCK" using length_dblock [of b "vcache small_volume"] small_idle(3) by (simp add: fresh_cache_def)
  qed
  then show "length (wbytes (device (vcache small_volume))) div BLOCK < 2 ^ 32" by (simp add: small_volume_def volume_on_def watched_new_def)
qed

lemma small_holds: "holds small 14 small_blocks small_blocks"
  using idle_stands_dev [OF small_facts(1) small_idle(1)] small_idle(2) small_facts(2) by (simp add: holds_def wellformed_def)


subsection \<open>Properties\<close>

text \<open>C10.
  Mounting a device that holds a filesystem -- with an empty log, or with a committed transaction that
  was not carried out in full -- gives a volume on exactly that filesystem; when the device stops
  during the mount, it still holds the same filesystem, so the mount can be repeated.
\<close>

theorem mount_recovers:
  assumes "sb_sound sb n" "holds sb n d x" "fresh_cache n d c" "mount c = (r, c')"
  shows "case r of Inl e \<Rightarrow> e = Err Interrupted \<and> stopped c' \<and> holds sb n (dblock c') x | Inr (v, k) \<Rightarrow> vcache v = c' \<and> idle sb n x v"
  by (rule mount_recovers_step [OF assms])

theorem mount_recovers_witness:
  "case fst (mount (vcache small_volume)) of
     Inl e \<Rightarrow> e = Err Interrupted \<and> stopped (snd (mount (vcache small_volume))) \<and> holds small 14 (dblock (snd (mount (vcache small_volume)))) small_blocks
   | Inr (v, k) \<Rightarrow> vcache v = snd (mount (vcache small_volume)) \<and> idle small 14 small_blocks v"
  by (rule mount_recovers [OF small_facts(1) small_holds small_idle(3)]) simp



text \<open>C14.
  The reader does not care where its pages come from. Over a cache with nothing left to write back it
  returns what it returns over the bytes of the device -- for an inode, the root, a directory's
  entries, a name, and the bytes of a file -- unless the device stopped; reading never changes what
  the cache shows.
\<close>

theorem cached_reader_is_image_reader:
  assumes "cache_ready c" "dirty_set c = {}" "length (wbytes (device c)) div BLOCK < 2 ^ 32" "bytes = wbytes (device c)"
  shows "agrees (fs_inode page sb index) (fs_inode image_page sb index) c bytes \<and>
    agrees (fs_root page sb) (fs_root image_page sb) c bytes \<and>
    agrees (fs_list page sb dir) (fs_list image_page sb dir) c bytes \<and>
    agrees (fs_lookup page sb dir name) (fs_lookup image_page sb dir name) c bytes \<and>
    agrees (fs_read page sb ino offset room) (fs_read image_page sb ino offset room) c bytes"
  using cached_image [OF assms(1-3)] assms(1,4)
  by (intro conjI agreesI [OF cached.reads_inode image.reads_inode] agreesI [OF cached.reads_root image.reads_root]
      agreesI [OF cached.reads_list image.reads_list] agreesI [OF cached.reads_lookup image.reads_lookup] agreesI [OF cached.reads_read image.reads_read]) simp_all

theorem cached_reader_is_image_reader_witness:
  "agrees (fs_lookup page small fresh_root [97]) (fs_lookup image_page small fresh_root [97]) (vcache small_volume) (wbytes (device (vcache small_volume)))"
  using cached_reader_is_image_reader [OF small_ready refl, where sb = small and dir = fresh_root and name = "[97]"] by blast

text \<open>C23.
  Reading a file returns its bytes: byte \<open>i\<close> of the result is the byte of the block the inode maps for
  that offset, never more than the caller's room or the file's size, and fewer only where the file has
  no block.
\<close>

theorem read_returns_bytes:
  assumes "sb_blocks sb \<le> length bytes div BLOCK" "ikind ino = File" "offset \<le> unat (isize ino)"
  shows "\<exists>got. fs_read image_page sb ino offset room bytes = (Ok got, bytes) \<and>
    read_result sb (length bytes div BLOCK) (block_at bytes) ino offset (min room (unat (isize ino) - offset)) got"
proof -
  have "\<forall>b < length bytes div BLOCK. length (block_at bytes b) = BLOCK" using below_blocks by (simp add: block_at_def)
  from read_plain [OF this assms] obtain got where
    got: "fst (fs_read plain_page sb ino offset room (block_at bytes, length bytes div BLOCK)) = Ok got"
      "read_result sb (length bytes div BLOCK) (block_at bytes) ino offset (min room (unat (isize ino) - offset)) got" .
  have "fs_read image_page sb ino offset room bytes = (Ok got, bytes)"
    by (rule image_run [OF image.reads_read]) (simp add: image_content_def got(1))
  then show ?thesis using got(2) by blast
qed

theorem read_returns_bytes_witness:
  "\<exists>got. fs_read image_page small (free_inode_value\<lparr>ikind := File, isize := 9\<rparr>) 2 5 (replicate (14 * BLOCK) 0) = (Ok got, replicate (14 * BLOCK) 0) \<and>
    read_result small 14 (block_at (replicate (14 * BLOCK) 0)) (free_inode_value\<lparr>ikind := File, isize := 9\<rparr>) 2 5 got"
proof -
  have "sb_blocks small = 14" "length (replicate (14 * BLOCK) (0 :: u8)) div BLOCK = 14" by (simp_all add: small_def format_layout_def Let_def BLOCK_def)
  then show ?thesis using read_returns_bytes [of small "replicate (14 * BLOCK) 0" "free_inode_value\<lparr>ikind := File, isize := 9\<rparr>" 2 5] by simp
qed

text \<open>C37.
  The loop of \<open>read\<close> ends, whatever pages it is given: every pass that does not leave the loop adds at
  least one byte, so as many passes as bytes are wanted are enough, and more change nothing.
\<close>

theorem read_loop_ends:
  assumes "want - length got \<le> m"
  shows "read_loop pg sb ino offset want m got s = read_loop pg sb ino offset want (want - length got) got s"
  by (rule read_loop_enough [OF order_refl assms])

theorem read_loop_ends_witness:
  "read_loop image_page small (free_inode_value\<lparr>ikind := File, isize := 9\<rparr>) 2 5 100 [] (replicate (14 * BLOCK) 0) =
    read_loop image_page small (free_inode_value\<lparr>ikind := File, isize := 9\<rparr>) 2 5 5 [] (replicate (14 * BLOCK) 0)"
  using read_loop_ends [of 5 "[]" 100] by simp

text \<open>C26.
  A cache is well-formed when it is made, and every call keeps it so: whatever is read, written, copied,
  flushed, lent, given back and forgotten, no block is in two frames, every frame in use holds a block
  of the device, a frame that is not dirty holds what the device holds, and a lent frame has a block.
\<close>

theorem cache_calls_keep_type:
  assumes "cache_new fr d = Ok c" "\<forall>call \<in> set calls. call_ok call"
  shows "cache_ok (fold cache_perform calls c)"
  using assms(2) cache_new_ok(1) [OF assms(1)]
proof (induction calls arbitrary: c)
  case (Cons call calls)
  then show ?case using perform_ok by simp
qed simp

theorem cache_calls_keep_type_witness:
  "cache_ok (fold cache_perform [Put 3 (replicate BLOCK 7), Pin 3, Copy 3 4, Flush, Forget] (vcache small_volume))"
proof -
  have "cache_new (replicate (MIN_FRAMES * BLOCK) 0) (watched_new (disk_of 14 small_blocks) 1000 0) = Ok (vcache small_volume)"
    by (simp add: cache_new_def small_volume_def volume_on_def MIN_FRAMES_def MAX_FRAMES_def BLOCK_def)
  from cache_calls_keep_type [OF this, of "[Put 3 (replicate BLOCK 7), Pin 3, Copy 3 4, Flush, Forget]"] show ?thesis by simp
qed

text \<open>C25.
  A frame that was lent keeps its block: after any calls other than giving that frame back, it is still
  lent, holds the same block, and no eviction or forgetting took it away.
\<close>

theorem lent_frame_keeps_block:
  assumes "cache_ok c" "i < fcount c" "pinned (slots c ! i)" "\<forall>call \<in> set calls. call_ok call \<and> call \<noteq> Unpin i"
  shows "pinned (slots (fold cache_perform calls c) ! i) \<and> blk (slots (fold cache_perform calls c) ! i) = blk (slots c ! i)"
  using assms
proof (induction calls arbitrary: c)
  case (Cons call calls)
  have c: "call_ok call" "call \<noteq> Unpin i" using Cons.prems(4) by auto
  note step = perform_lent [OF Cons.prems(1-3) c(2)]
  have "pinned (slots (fold cache_perform calls (cache_perform call c)) ! i) \<and>
      blk (slots (fold cache_perform calls (cache_perform call c)) ! i) = blk (slots (cache_perform call c) ! i)"
    by (rule Cons.IH) (use perform_ok [OF Cons.prems(1) c(1)] step Cons.prems(2,4) in auto)
  then show ?case using step by simp
qed simp

theorem lent_frame_keeps_block_witness:
  "blk (slots (fold cache_perform [Put 5 (replicate BLOCK 7), Pin 4, Unpin 1, Flush, Forget]
    ((vcache small_volume)\<lparr>slots := (slots (vcache small_volume))[0 := \<lparr>blk = Some 3, dirty = True, used = 0, pinned = True\<rparr>]\<rparr>)) ! 0) = Some 3"
proof -
  let ?c = "vcache small_volume"
  let ?d = "?c\<lparr>slots := (slots ?c)[0 := \<lparr>blk = Some 3, dirty = True, used = 0, pinned = True\<rparr>]\<rparr>"
  have c: "cache_ok ?c" "cblocks ?c = 14" using small_ready(1) small_idle(3) by (auto simp: cache_ready_def fresh_cache_def)
  have f: "fcount ?c = MIN_FRAMES" "slots ?c = replicate MAX_FRAMES default_slot" by (simp_all add: small_volume_def volume_on_def)
  have "slot_ok ?d j" if "j < MIN_FRAMES" for j
    using cache_okD(5) [OF c(1), of j] that f c(2) by (cases "j = 0") (auto simp: slot_ok_def cblocks_def MAX_FRAMES_def MIN_FRAMES_def default_slot_def split: option.splits)
  moreover have "one_frame ?d"
    using f by (auto simp: one_frame_def nth_list_update default_slot_def MIN_FRAMES_def MAX_FRAMES_def split: if_splits)
  ultimately have "cache_ok ?d" using cache_okD [OF c(1)] f by (simp add: cache_ok_def)
  from lent_frame_keeps_block [OF this, of 0 "[Put 5 (replicate BLOCK 7), Pin 4, Unpin 1, Flush, Forget]"] f
  show ?thesis by (simp add: MIN_FRAMES_def MAX_FRAMES_def)
qed

end
