(* ===== verification/FsEmpty.thy ===== *)
theory FsEmpty
  imports FsProps
begin

text \<open>
  Emptying a directory: the loop and the recursion of \<open>empty\<close> end, because every pass removes an entry
  and the filesystem has finitely many.
\<close>

definition dir_count :: "superblock \<Rightarrow> nat \<Rightarrow> (nat \<Rightarrow> u8 list) \<Rightarrow> u32 \<Rightarrow> nat" where
  "dir_count sb n x j = (case inode_of sb n x j of Inl _ \<Rightarrow> 0 | Inr ino \<Rightarrow> if ikind ino = Directory then entries ino else 0)"

text \<open>The number of entries of all directories.\<close>

definition total_entries :: "superblock \<Rightarrow> nat \<Rightarrow> (nat \<Rightarrow> u8 list) \<Rightarrow> nat" where
  "total_entries sb n x = (\<Sum>j \<in> UNIV. dir_count sb n x j)"

lemma remove_total_entries:
  assumes "remove_effect sb n directory name x y"
  shows "Suc (total_entries sb n y) = total_entries sb n x"
proof -
  obtain parent index old ix where p: "inode_of sb n x directory = Ok parent" "ikind parent = Directory"
    and o: "inode_of sb n x index = Ok old" "index \<noteq> directory" "ikind old = Directory \<longrightarrow> isize old = 0" and ix: "ix < entries parent"
    and all: "\<forall>j. inode_of sb n y j = (if j = index then Ok (free_inode_value\<lparr>generation := generation old\<rparr>)
       else if j = directory then Ok (smaller parent) else inode_of sb n x j)"
    using assms unfolding remove_effect_def length_dir_list by blast
  have other: "dir_count sb n y j = dir_count sb n x j" if "j \<noteq> directory" for j
    using all o that by (auto simp: dir_count_def free_inode_value_def entries_def)
  have here: "Suc (dir_count sb n y directory) = dir_count sb n x directory"
    using all o(2) p ix entries_smaller [of parent] by (simp add: dir_count_def)
  have "total_entries sb n z = dir_count sb n z directory + (\<Sum>j \<in> UNIV - {directory}. dir_count sb n z j)" for z
    unfolding total_entries_def by (rule sum.remove) simp_all
  moreover have "(\<Sum>j \<in> UNIV - {directory}. dir_count sb n y j) = (\<Sum>j \<in> UNIV - {directory}. dir_count sb n x j)"
    by (rule sum.cong) (simp_all add: other)
  ultimately show ?thesis using here by simp
qed

subsection \<open>The steps of a pass\<close>

lemma ensures_ex:
  assumes a: "\<And>y. A y \<Longrightarrow> ensures (P y) a Q E"
  shows "ensures (\<lambda>s. \<exists>y. A y \<and> P y s) a Q E"
proof (rule ensuresI)
  fix s u t assume "\<exists>y. A y \<and> P y s" and run: "a s = (Inr u, t)"
  then obtain y where "A y" "P y s" by blast
  then show "Q u t" using ensures_ok [OF a] run by blast
next
  fix s e t assume "\<exists>y. A y \<and> P y s" and run: "a s = (Inl e, t)"
  then obtain y where "A y" "P y s" by blast
  then show "E e t" using ensures_error [OF a] run by blast
qed

text \<open>The volume after an error: it or its device holds a well-formed filesystem.\<close>

definition survives :: "superblock \<Rightarrow> nat \<Rightarrow> fs_error failure \<Rightarrow> volume \<Rightarrow> bool" where
  "survives sb n e v \<longleftrightarrow> (\<exists>y. wellformed sb n y \<and> (idle sb n y v \<or> dead sb n y v))"

lemma remove_pass:
  assumes "sb_sound sb n" "wellformed sb n x"
  shows "ensures (idle sb n x) (remove directory name)
    (\<lambda>_ v. \<exists>y. (wellformed sb n y \<and> Suc (total_entries sb n y) = total_entries sb n x) \<and> idle sb n y v) (survives sb n)"
proof (rule ensuresI)
  fix v u w assume "idle sb n x v" "remove directory name v = (Inr u, w)"
  from remove_leaves [OF assms this] show "\<exists>y. (wellformed sb n y \<and> Suc (total_entries sb n y) = total_entries sb n x) \<and> idle sb n y w"
    using remove_total_entries by (auto simp: leaves_def)
next
  fix v e w assume "idle sb n x v" "remove directory name v = (Inl e, w)"
  from remove_leaves [OF assms this] show "survives sb n e w" using assms(2) by (auto simp: leaves_def survives_def)
qed

lemma list_pass:
  assumes sb: "sb_sound sb n" and x: "wellformed sb n x" and dir: "inode_of sb n x directory = Ok ino" "ikind ino = Directory"
  shows "ensures (idle sb n x) (on_cache (fs_list page sb ino)) (\<lambda>l v. idle sb n x v \<and> (l = [] \<longrightarrow> halted v \<or> entries ino = 0)) (survives sb n)"
proof -
  have ok: "dir_ok sb ino" "tree sb n x" using x consistentD(1) [of sb n x directory] dir inode_okD(5) by (auto simp: wellformed_def)
  have main: "\<exists>l. r = Ok l \<and> idle sb n x w \<and> (l = [] \<longrightarrow> halted w \<or> entries ino = 0)"
    if v: "idle sb n x v" and run: "on_cache (fs_list page sb ino) v = (r, w)" for v r w
  proof -
    let ?g = "view (vcache v)"
    obtain c' where c: "fs_list page sb ino (vcache v) = (r, c')" "w = v\<lparr>vcache := c'\<rparr>" using run by (auto simp: on_cache_def split: prod.splits)
    have ready: "cache_ready (vcache v)" "cblocks (vcache v) = n" "within n (idle_K sb x) (vcache v)" using v by (auto simp: idle_def within_def)
    have g: "\<forall>b. b \<notin> log_area sb \<longrightarrow> ?g b = x b" using idle_view [OF v _ sb] by blast
    have sz: "sized n ?g sb" using idle_sized [OF sb v] g by (auto simp: sized_def)
    have same: "dir_list ?g ino = dir_list x ino" using g dir_ok_block(4) [OF sb ok(1)] by (auto simp: dir_list_def)
    have "fst (list_from plain_page sb ino [0..<entries ino] (?g, n)) = Ok (filter live (dir_list x ino))"
      unfolding same [symmetric] using list_from_plain_dir [OF sb sz ok(1), of "[0..<entries ino]"] by (simp add: dir_list_def)
    then obtain l where l: "r = Ok l" "settles (vcache v) c'" "l = filter live (dir_list x ino) \<or> stopped c'"
      using cached.list_from_prefix [OF ready(1), of sb ino "[0..<entries ino]" r c'] c(1) dir(2) ready(2)
      by (auto simp: fs_list_def cache_content_def entries_def)
    have "live e" if e: "e \<in> set (dir_list x ino)" for e
    proof -
      obtain i where "entry_of sb n x directory i e" using e dir by (auto simp: entry_of_def in_set_conv_nth)
      from treeD(2) [OF ok(2) this] show ?thesis by (auto simp: live_def entry_name_def)
    qed
    then have "filter live (dir_list x ino) = dir_list x ino" by simp
    moreover have "dir_list x ino = [] \<Longrightarrow> entries ino = 0" using length_dir_list [of x ino] by (metis list.size(3))
    ultimately have "l = [] \<longrightarrow> halted w \<or> entries ino = 0" using l(3) c(2) by (auto simp: halted_def)
    moreover have "idle sb n x w" using v within_settles [OF ready(3) l(2)] c(2) by (simp add: idle_def)
    ultimately show ?thesis using l(1) by blast
  qed
  show ?thesis by (rule ensuresI) (use main in fastforce)+
qed

subsection \<open>The loop\<close>

text \<open>The answer counts the entries that went.\<close>

definition counts :: "superblock \<Rightarrow> nat \<Rightarrow> (nat \<Rightarrow> u8 list) \<Rightarrow> nat \<Rightarrow> (nat \<Rightarrow> u8 list) \<Rightarrow> nat option \<Rightarrow> volume \<Rightarrow> bool" where
  "counts sb n x so_far y r v \<longleftrightarrow> wellformed sb n y \<and> idle sb n y v \<and> (\<exists>k. r = Some (so_far + k) \<and> total_entries sb n y + k = total_entries sb n x)"

text \<open>What \<open>empty\<close> answers: how many entries went, with the directory empty unless the device stopped.\<close>

definition emptied_to :: "superblock \<Rightarrow> nat \<Rightarrow> (nat \<Rightarrow> u8 list) \<Rightarrow> u32 \<Rightarrow> nat \<Rightarrow> nat option \<Rightarrow> volume \<Rightarrow> bool" where
  "emptied_to sb n x directory so_far r v \<longleftrightarrow> (\<exists>y. counts sb n x so_far y r v \<and>
    (halted v \<or> (\<exists>ino. inode_of sb n y directory = Ok ino \<and> ikind ino = Directory \<and> entries ino = 0)))"

lemma emptied_to_later:
  assumes "emptied_to sb n y directory (so_far + k) r v" "total_entries sb n y + k = total_entries sb n x"
  shows "emptied_to sb n x directory so_far r v"
proof -
  have "counts sb n x so_far z r v" if z: "counts sb n y (so_far + k) z r v" for z
  proof -
    obtain m where "r = Some (so_far + k + m)" "total_entries sb n z + m = total_entries sb n y" using z by (auto simp: counts_def)
    then have "r = Some (so_far + (k + m)) \<and> total_entries sb n z + (k + m) = total_entries sb n x" using assms(2) by simp
    then show ?thesis using z unfolding counts_def by blast
  qed
  then show ?thesis using assms(1) unfolding emptied_to_def by blast
qed

text \<open>What is below an entry goes first, then the entry.\<close>

lemma empty_pass:
  assumes sb: "sb_sound sb n" and x: "wellformed sb n x"
    and below: "ensures (idle sb n x) below (\<lambda>r v. \<exists>y. counts sb n x 0 y r v) (survives sb n)"
    and later: "\<And>y k. wellformed sb n y \<Longrightarrow> total_entries sb n y + Suc k = total_entries sb n x \<Longrightarrow>
      ensures (idle sb n y) (again (so_far + k + 1)) (emptied_to sb n y directory (so_far + k + 1)) (survives sb n)"
  shows "ensures (idle sb n x)
    (bind_act below (\<lambda>r. case r of None \<Rightarrow> ret None | Some k \<Rightarrow> bind_act (remove directory name) (\<lambda>_. again (so_far + k + 1))))
    (emptied_to sb n x directory so_far) (survives sb n)"
proof (rule ensures_bind [OF below])
  fix r
  show "ensures (\<lambda>v. \<exists>y. counts sb n x 0 y r v) (case r of None \<Rightarrow> ret None | Some k \<Rightarrow> bind_act (remove directory name) (\<lambda>_. again (so_far + k + 1)))
    (emptied_to sb n x directory so_far) (survives sb n)"
  proof (cases r)
    case None
    then show ?thesis by (simp add: counts_def)
  next
    case (Some k)
    have "ensures (\<lambda>v. \<exists>y. (wellformed sb n y \<and> total_entries sb n y + k = total_entries sb n x) \<and> idle sb n y v)
      (bind_act (remove directory name) (\<lambda>_. again (so_far + k + 1))) (emptied_to sb n x directory so_far) (survives sb n)"
    proof (rule ensures_ex)
      fix y assume y: "wellformed sb n y \<and> total_entries sb n y + k = total_entries sb n x"
      show "ensures (idle sb n y) (bind_act (remove directory name) (\<lambda>_. again (so_far + k + 1))) (emptied_to sb n x directory so_far) (survives sb n)"
      proof (rule ensures_bind [OF remove_pass [OF sb conjunct1 [OF y]]], rule ensures_ex)
        fix z assume z: "wellformed sb n z \<and> Suc (total_entries sb n z) = total_entries sb n y"
        then have t: "total_entries sb n z + Suc k = total_entries sb n x" using y by simp
        show "ensures (idle sb n z) (again (so_far + k + 1)) (emptied_to sb n x directory so_far) (survives sb n)"
          by (rule ensures_post [OF later [OF conjunct1 [OF z] t]]) (use emptied_to_later [where k = "Suc k"] t in auto)
      qed
    qed
    then show ?thesis unfolding Some option.case by (rule ensures_pre) (auto simp: counts_def)
  qed
qed

lemma empty_step:
  assumes sb: "sb_sound sb n" and x: "wellformed sb n x" and fuel: "total_entries sb n x + depth < fuel"
  shows "ensures (idle sb n x) (empty fuel directory depth so_far) (emptied_to sb n x directory so_far) (survives sb n)"
  using x fuel
proof (induction fuel arbitrary: x directory depth so_far)
  case (Suc fuel)
  let ?Q = "emptied_to sb n x directory so_far" and ?E = "survives sb n"
  have keep: "idle sb n x v \<Longrightarrow> survives sb n e v" for e v using Suc.prems(1) by (auto simp: survives_def)
  have node: "ensures (idle sb n x) (vol_inode j) (\<lambda>ino v. idle sb n x v \<and> inode_of sb n x j = Ok ino) ?E" for j
    by (rule ensures_post [OF vol_inode_step [OF sb]]) (auto intro: keep)
  have later: "ensures (idle sb n y) (empty fuel directory depth (so_far + k + 1)) (emptied_to sb n y directory (so_far + k + 1)) ?E"
    if "wellformed sb n y" "total_entries sb n y + Suc k = total_entries sb n x" for y k
    by (rule Suc.IH [OF that(1)]) (use that(2) Suc.prems(2) in simp)
  have below: "ensures (idle sb n x) (if ikind child = Directory \<and> isize child \<noteq> 0 then if depth = 0 then fail WrongKind else empty fuel j (depth - 1) 0 else ret (Some 0))
      (\<lambda>r v. \<exists>y. counts sb n x 0 y r v) ?E" for child j
  proof (intro ensures_if)
    assume d: "depth \<noteq> 0"
    show "ensures (idle sb n x) (empty fuel j (depth - 1) 0) (\<lambda>r v. \<exists>y. counts sb n x 0 y r v) ?E"
      by (rule ensures_post [OF Suc.IH [OF Suc.prems(1)]]) (use d Suc.prems(2) in \<open>auto simp: emptied_to_def\<close>)
  qed (use Suc.prems(1) keep in \<open>auto simp: counts_def\<close>)
  have pass: "ensures (idle sb n x) (bind_act (vol_inode j) (\<lambda>child. bind_act
        (if ikind child = Directory \<and> isize child \<noteq> 0 then if depth = 0 then fail WrongKind else empty fuel j (depth - 1) 0 else ret (Some 0))
        (\<lambda>r. case r of None \<Rightarrow> ret None | Some k \<Rightarrow> bind_act (remove directory name) (\<lambda>_. empty fuel directory depth (so_far + k + 1))))) ?Q ?E" for j name
    by (rule ensures_bind [OF node], rule ensures_given, rule empty_pass [OF sb Suc.prems(1) below later])
  have over: "ensures (\<lambda>v. idle sb n x v \<and> (halted v \<or> entries ino = 0)) (ret (Some so_far)) ?Q ?E"
    if "inode_of sb n x directory = Ok ino" "ikind ino = Directory" for ino
    using that Suc.prems(1) by (auto simp: emptied_to_def counts_def)
  have listed: "ensures (idle sb n x) (bind_act (on_cache (fs_list page sb ino)) (\<lambda>found. case found of [] \<Rightarrow> ret (Some so_far) | entry # _ \<Rightarrow>
      bind_act (vol_inode (e_inode entry)) (\<lambda>child. bind_act
        (if ikind child = Directory \<and> isize child \<noteq> 0 then if depth = 0 then fail WrongKind else empty fuel (e_inode entry) (depth - 1) 0 else ret (Some 0))
        (\<lambda>r. case r of None \<Rightarrow> ret None | Some k \<Rightarrow> bind_act (remove directory (entry_name entry)) (\<lambda>_. empty fuel directory depth (so_far + k + 1)))))) ?Q ?E"
    if dir: "inode_of sb n x directory = Ok ino" "ikind ino = Directory" for ino
  proof (rule ensures_bind [OF list_pass [OF sb Suc.prems(1) dir]])
    fix l :: "dir_entry list"
    show "ensures (\<lambda>v. idle sb n x v \<and> (l = [] \<longrightarrow> halted v \<or> entries ino = 0)) (case l of [] \<Rightarrow> ret (Some so_far) | entry # _ \<Rightarrow>
      bind_act (vol_inode (e_inode entry)) (\<lambda>child. bind_act
        (if ikind child = Directory \<and> isize child \<noteq> 0 then if depth = 0 then fail WrongKind else empty fuel (e_inode entry) (depth - 1) 0 else ret (Some 0))
        (\<lambda>r. case r of None \<Rightarrow> ret None | Some k \<Rightarrow> bind_act (remove directory (entry_name entry)) (\<lambda>_. empty fuel directory depth (so_far + k + 1))))) ?Q ?E"
    proof (cases l)
      case Nil
      then show ?thesis using over [OF dir] by simp
    next
      case (Cons e rest)
      show ?thesis unfolding Cons list.case by (rule ensures_pre [OF pass]) simp
    qed
  qed
  have start: "ensures (idle sb n x) (bind_act (gets vsb) f) ?Q ?E" if "ensures (idle sb n x) (f sb) ?Q ?E" for f
    by (rule ensures_cong [OF _ that]) (simp add: idle_def)
  show ?case unfolding empty.simps
    by (rule ensures_bind [OF node], rule ensures_given, rule ensures_if, simp add: keep, rule start, rule listed) simp_all
qed simp

subsection \<open>Property\<close>

text \<open>C22.
  \<open>empty\<close> ends: with one pass for every entry of the filesystem and one for every level it may go
  down, it does not run out. It answers how many entries went -- the filesystem has exactly so many
  fewer -- and the directory is then empty unless the device stopped; when it returns an error, the
  volume or the device it stopped on still holds a well-formed filesystem.
\<close>

theorem empty_ends:
  assumes "sb_sound sb n" "wellformed sb n x" "idle sb n x v" "total_entries sb n x + depth < fuel" "empty fuel directory depth 0 v = (r, w)"
  shows "case r of Inr answer \<Rightarrow> emptied_to sb n x directory 0 answer w | Inl e \<Rightarrow> survives sb n e w"
  using ensures_run [OF empty_step [OF assms(1,2,4)] assms(3,5)] by (simp split: sum.splits)

theorem empty_ends_witness:
  "case fst (empty 5 0 3 0 small_volume) of Inr answer \<Rightarrow> emptied_to small 14 small_blocks 0 0 answer (snd (empty 5 0 3 0 small_volume))
    | Inl e \<Rightarrow> survives small 14 e (snd (empty 5 0 3 0 small_volume))"
proof (rule empty_ends [OF small_facts small_idle(1)])
  have "dir_count small 14 small_blocks j = 0" for j
  proof (cases "inode_of small 14 small_blocks j")
    case (Inr ino)
    then have "unat j < 64" using inode_of_range [OF Inr] layout(5) [OF small_fresh] by simp
    from inodes_read [OF small_fresh this] show ?thesis by (simp add: dir_count_def fresh_root_def free_inode_value_def entries_def)
  qed (simp add: dir_count_def)
  then show "total_entries small 14 small_blocks + 3 < 5" by (simp add: total_entries_def)
qed simp

end
