(* ===== verification/Spec2Isabelle.thy ===== *)
theory Spec2Isabelle
  imports CapabilityProps TcpProps MemoryInit RingFifo RangeMapProps FsImageProps FsEmpty
begin

text \<open>
  Bhaskix, verified in part. Bhaskix is an operating system in Rust: a nucleus that hands out
  authority as capabilities, memory managers below it, and drivers, network and filesystem as
  services in domains of their own. This development models six of its subsystems and proves what
  the rest of the system relies on in each. The theories follow the sources: a definition has the
  name of the function it translates, up to clashes, and panics, early returns and errors are values.

  \<^bold>\<open>Conventions\<close> (\<open>Prelude\<close>, \<open>Bytes\<close>, \<open>NetBase\<close>). A Rust \<open>Result\<close> is a sum whose left side is an error
  or a panic; an operator of the kernel's workspace panics on overflow, one of the programs under
  \<^verbatim>\<open>src/user\<close> wraps. Machine integers are words where they wrap or are taken apart, and natural
  numbers with the checks written out elsewhere. State is passed explicitly; operations that the
  source runs under a lock are one step.

  \<^bold>\<open>Capabilities\<close> (\<^verbatim>\<open>src/kernel/src/cap.rs\<close>: \<open>Capability\<close>, \<open>CapabilityInv\<close>, \<open>CapabilityProps\<close>). The arena of
  nodes, the spaces of slots and the rights. The arena's step relation has every public operation as
  a step; the theorems hold in every reachable arena: revocation destroys exactly the subtree and
  accounts for each domain's share, rights never grow along derivation, a serial names one capability
  for ever, and the death of an object reaches every name of it.

  \<^bold>\<open>TCP\<close> (\<^verbatim>\<open>src/net/src/tcp\<close>: \<open>TcpSequence\<close>, \<open>TcpSegment\<close>, \<open>TcpState\<close>, \<open>TcpActions\<close>, \<open>TcpInv\<close>, \<open>TcpClosed\<close>,
  \<open>TcpReceive\<close>, \<open>TcpOrder\<close>, \<open>TcpWindow\<close>, \<open>TcpProps\<close>). The segment parser and writer and the whole of the
  state machine, whose one operation is \<open>step\<close>. Shown: what the application is given is a prefix of
  what the peer sent, in order and once; the states follow the diagram; the caller is told of the end
  exactly when the connection ends; the counters and the list of actions stay within their bounds.

  \<^bold>\<open>Physical memory\<close> (\<^verbatim>\<open>src/boot/handoff\<close>, \<^verbatim>\<open>src/mm/src/bump.rs\<close>, \<^verbatim>\<open>src/mm/src/pmm.rs\<close>,
  \<^verbatim>\<open>src/kernel/src/memory.rs\<close>: \<open>Handoff\<close>, \<open>Bump\<close>, \<open>BumpProps\<close>, \<open>Links\<close>, \<open>Buddy\<close>, \<open>BuddyLists\<close>, \<open>BuddyInv\<close>,
  \<open>BuddyOps\<close>, \<open>FramePool\<close>, \<open>BuddyProps\<close>, \<open>MemoryInit\<close>). From the loader's memory map through the boot-time
  allocator to the buddy allocator. The locale of \<open>FramePool\<close> is what a client of the allocator relies
  on, interpreted on the buddy allocator. Shown: what is handed to the allocator is exactly the usable
  memory nobody consumed, no frame is given out twice, every frame is accounted for, freed blocks
  coalesce, and one way of freeing a block twice is accepted, which is recorded as a finding.

  \<^bold>\<open>Rings\<close> (\<^verbatim>\<open>src/abi/src/ring.rs\<close>, and its two users \<^verbatim>\<open>src/user/netd\<close> and \<^verbatim>\<open>src/user/ipd\<close>: \<open>SharedRing\<close>,
  \<open>RingChannel\<close>, \<open>RingFifo\<close>). A ring in memory that the other side writes too. Indices are validated
  whatever the other side stores; with both programs as they are, cut wherever the other can run,
  frames arrive whole, in order and once.

  \<^bold>\<open>Address spaces\<close> (\<^verbatim>\<open>src/mm/src/vm.rs\<close>: \<open>RangeMap\<close>, \<open>RangeMapProps\<close>). The sorted map of regions. Whether the
  array can grow is a parameter, so every refusal of the allocator is covered: changing the protection
  of some pages changes those pages and nothing else, or nothing at all.

  \<^bold>\<open>Filesystem\<close> (\<^verbatim>\<open>src/fs/src\<close>). \<open>FsFormat\<close> and \<open>FsMake\<close> are the format and formatting of \<^verbatim>\<open>lib.rs\<close>; \<open>FsCache\<close> is
  \<^verbatim>\<open>cache.rs\<close> over the device of \<^verbatim>\<open>src/kernel/src/lib.rs\<close> that accepts a given number of writes and then
  stops, so a loss of power at any write is a value of that number; \<open>FsJournal\<close> is \<^verbatim>\<open>journal.rs\<close> and the
  reader of \<^verbatim>\<open>lib.rs\<close>; \<open>FsVolume\<close> is \<^verbatim>\<open>volume.rs\<close>. \<open>FsAct\<close> has the operations' type, which returns the state
  of a failing operation too, and the rules for their sequences.
  \<^item> \<open>FsCacheInv\<close>, \<open>FsCacheOps\<close>, \<open>FsCacheProps\<close>: what the cache shows, what the device holds, and where they
    may differ; every call keeps the cache well-formed and a lent frame keeps its block.
  \<^item> \<open>FsPages\<close>, \<open>FsRead\<close>: the interface \<open>Pages\<close> as a locale, with the reader and the journal proved once in
    it, and its two interpretations, an image in memory and the cache.
  \<^item> \<open>FsLog\<close>, \<open>FsSteps\<close>, \<open>FsCommit\<close>, \<open>FsRecover\<close>, \<open>FsStage\<close>, \<open>FsEffects\<close>, \<open>FsDead\<close>: the phases of a transaction
    as the contents each block of the device may have, from staging to the cleared log, and recovery.
    \<open>idle sb n x v\<close> says the volume \<open>v\<close> is between operations on the filesystem \<open>x\<close>, a function from block
    numbers to blocks; \<open>stands sb d x\<close> says that a device with blocks \<open>d\<close> holds \<open>x\<close>, counting a committed
    transaction as done.
  \<^item> \<open>FsTruncate\<close>, \<open>FsDirectory\<close>, \<open>FsRemove\<close>, \<open>FsContent\<close>, \<open>FsCreate\<close>, \<open>FsConsistent\<close>, \<open>FsOps\<close>, \<open>FsTree\<close>: each
    operation on every branch, what it changes as the readers see it, and that blocks stay owned once
    and marked, and the directories a tree.
  \<^item> \<open>FsRestart\<close>, \<open>FsFresh\<close>, \<open>FsFormatProps\<close>, \<open>FsProps\<close>, \<open>FsImageProps\<close>, \<open>FsCodecProps\<close>, \<open>FsEmpty\<close>: the machine after an
    interruption, a fresh device, and the properties: over any history of operations, interruptions
    and mounts the filesystem stays well-formed, each operation happens as a whole or not at all, a
    mount recovers, formatting gives an empty filesystem, reading returns the bytes of the file,
    metadata is read back as written, and emptying a directory ends.

  \<^bold>\<open>Fuel and bounds\<close>. The loop of \<open>read\<close> has the number of bytes wanted as fuel, and \<open>empty\<close> a fuel argument;
  \<open>read_loop_ends\<close> and \<open>empty_ends\<close> show how much is enough. Other loops are recursion over lists or have
  a termination proof. The theorems about a volume hold for every superblock that \<open>format_sized\<close> lays
  out (\<open>sb_sound\<close>) and devices of fewer than \<open>2 ^ 32\<close> blocks, any number of frames from the smallest the
  cache accepts, and any limit of the device. The witnesses use the smallest device \<open>format_sized\<close> accepts.

  \<^bold>\<open>Not modelled\<close>. A block of the device is written whole or not at all; a torn block write is outside the
  model. Writing to a file (\<open>write_ordered\<close>, \<open>write_run\<close>) is modelled but no property is stated of it: data
  goes to its place before the commit, and in one case, recorded among the findings, a live table does
  too. Locks and concurrency inside the kernel, the scheduler, page tables, interrupts, the drivers and
  their hardware, the loaders, the Linux personality and the user programs other than the two ends of
  the rings are not modelled: they are assembly, device registers or message loops over system calls.
  The other packet, program, archive and boot-log formats are pure functions that share nothing with
  the models here; cryptography is out of reach of a functional model.
\<close>

end
